(* ===== verification/Clumsy_Prelude.thy ===== *)
theory Clumsy_Prelude
  imports Complex_Main "HOL-Library.Word" "HOL-Library.Multiset"
begin

text \<open>
  Shared vocabulary of the development: the machine integers of \<^verbatim>\<open>platform.h\<close> at their
  Linux widths, the loop shapes that several modules of \<^verbatim>\<open>src/src\<close> write out, and generic
  facts on lists and multisets that the component theories use.

  A doubly linked list between two sentinels (\<^verbatim>\<open>head\<close>, \<^verbatim>\<open>tail\<close>) is the HOL list of the nodes
  met when following \<^verbatim>\<open>next\<close> from \<^verbatim>\<open>head\<close>; theory \<open>Node_List\<close> proves that reading right.
\<close>

type_synonym u8 = "8 word"
type_synonym u16 = "16 word"
type_synonym u32 = "32 word"
type_synonym u64 = "64 word"

named_theorems ledger_simps \<open>how operations move packets and verdicts\<close>
named_theorems step_defs \<open>definitions of the process functions, unfolded by the ledger proofs\<close>

subsection \<open>Loop shapes\<close>

text \<open>
  The pick-up loop of \<^verbatim>\<open>lag.cpp\<close>, \<^verbatim>\<open>jitter.cpp\<close> and \<^verbatim>\<open>throttle.cpp\<close>:
  \<^verbatim>\<open>
    pac = tail->prev;
    while (bufSize < KEEP_AT_MOST && pac != head) {
        if (<hit>) { <take pac>; pac = tail->prev; }   // restart at the tail
        else pac = pac->prev;
    }
  \<close>
  The list is split at \<^verbatim>\<open>pac\<close>: \<open>before\<close> holds the nodes from \<^verbatim>\<open>pac\<close> back to the head (\<^verbatim>\<open>pac\<close>
  first), \<open>after\<close> those between \<^verbatim>\<open>pac\<close> and the tail. Every hit makes the scan start over from the
  tail, as the code does.
\<close>

function scan_restart ::
  "('s \<Rightarrow> bool) \<Rightarrow> ('a \<Rightarrow> bool) \<Rightarrow> ('a \<Rightarrow> 's \<Rightarrow> 's) \<Rightarrow> 'a list \<Rightarrow> 'a list \<Rightarrow> 's \<Rightarrow> 's \<times> 'a list" where
  "scan_restart full hit pick [] after s = (s, after)"
| "scan_restart full hit pick (p # before) after s =
     (if full s then (s, rev (p # before) @ after)
      else if hit p then scan_restart full hit pick (rev after @ before) [] (pick p s)
      else scan_restart full hit pick before (p # after) s)"
  by pat_completeness auto
termination
  by (relation "measures [\<lambda>(full, hit, pick, before, after, s). length before + length after,
                          \<lambda>(full, hit, pick, before, after, s). length before]") auto

text \<open>
  The same pick-up in one pass, without the restart: the reference that \<open>scan_restart\<close> is proved
  equal to. \<open>rs\<close> is the list from tail to head; the result is again in tail to head order.
\<close>

fun scan_once ::
  "('s \<Rightarrow> bool) \<Rightarrow> ('a \<Rightarrow> bool) \<Rightarrow> ('a \<Rightarrow> 's \<Rightarrow> 's) \<Rightarrow> 'a list \<Rightarrow> 's \<Rightarrow> 's \<times> 'a list" where
  "scan_once full hit pick [] s = (s, [])"
| "scan_once full hit pick (p # rs) s =
     (if full s then (s, p # rs)
      else if hit p then scan_once full hit pick rs (pick p s)
      else (case scan_once full hit pick rs s of (s', rs') \<Rightarrow> (s', p # rs')))"

lemma scan_once_skip:
  "(\<And>p. p \<in> set as \<Longrightarrow> \<not> hit p) \<Longrightarrow>
   scan_once full hit pick (as @ rs) s =
     (case scan_once full hit pick rs s of (s', rs') \<Rightarrow> (s', as @ rs'))"
proof (induction as)
  case Nil
  then show ?case by simp
next
  case (Cons a as)
  show ?case
  proof (cases "full s")
    case True
    then show ?thesis by (cases rs) auto
  next
    case False
    have "\<not> hit a" by (rule Cons.prems) simp
    moreover have "scan_once full hit pick (as @ rs) s =
        (case scan_once full hit pick rs s of (s', rs') \<Rightarrow> (s', as @ rs'))"
      by (rule Cons.IH) (simp add: Cons.prems)
    ultimately show ?thesis using False by (simp add: case_prod_beta)
  qed
qed

text \<open>Restarting at the tail after each hit picks exactly what the single pass picks.\<close>

lemma scan_restart_eq_scan_once:
  "(\<And>p. p \<in> set after \<Longrightarrow> \<not> hit p) \<Longrightarrow>
   scan_restart full hit pick before after s =
     (case scan_once full hit pick before s of (s', rs') \<Rightarrow> (s', rev rs' @ after))"
proof (induction full hit pick before after s rule: scan_restart.induct)
  case (1 full hit pick after s)
  then show ?case by simp
next
  case (2 full hit pick p before after s)
  show ?case
  proof (cases "full s")
    case True
    then show ?thesis by simp
  next
    case False
    show ?thesis
    proof (cases "hit p")
      case True
      have "scan_restart full hit pick (rev after @ before) [] (pick p s) =
          (case scan_once full hit pick (rev after @ before) (pick p s) of
             (s', rs') \<Rightarrow> (s', rev rs' @ []))"
        by (rule "2.IH"(1)) (use False True in auto)
      moreover have "scan_once full hit pick (rev after @ before) (pick p s) =
          (case scan_once full hit pick before (pick p s) of (s', rs') \<Rightarrow> (s', rev after @ rs'))"
        by (rule scan_once_skip) (simp add: "2.prems")
      ultimately show ?thesis using False True by (simp add: case_prod_beta)
    next
      case nohit: False
      have "scan_restart full hit pick before (p # after) s =
          (case scan_once full hit pick before s of (s', rs') \<Rightarrow> (s', rev rs' @ p # after))"
        by (rule "2.IH"(2)) (use False nohit "2.prems" in auto)
      then show ?thesis using False nohit by (simp add: case_prod_beta)
    qed
  qed
qed

lemma scan_restart_whole:
  "scan_restart full hit pick (rev xs) [] s =
     (case scan_once full hit pick (rev xs) s of (s', rs') \<Rightarrow> (s', rev rs'))"
  by (subst scan_restart_eq_scan_once) auto

text \<open>
  What a picked element is worth is conserved: if taking \<open>p\<close> adds its worth to the state, the
  loop as a whole moves worth from the list to the state and loses none. \<open>I\<close> is an invariant of
  the state that the guard may help to keep.
\<close>

lemma scan_once_conserve:
  fixes worth :: "'a \<Rightarrow> 'b::comm_monoid_add"
  assumes "scan_once full hit pick rs s = (s', rs')" and "I s"
    and step: "\<And>p s. I s \<Longrightarrow> \<not> full s \<Longrightarrow> hit p \<Longrightarrow>
        I (pick p s) \<and> tot (pick p s) = tot s + worth p"
  shows "I s' \<and> tot s' + sum_list (map worth rs') = tot s + sum_list (map worth rs)"
  using assms(1,2)
proof (induction rs arbitrary: s s' rs')
  case Nil
  then show ?case by simp
next
  case (Cons p rs)
  show ?case
  proof (cases "full s")
    case True
    with Cons.prems show ?thesis by auto
  next
    case False
    show ?thesis
    proof (cases "hit p")
      case True
      with Cons.prems False have eq: "scan_once full hit pick rs (pick p s) = (s', rs')" by simp
      have st: "I (pick p s) \<and> tot (pick p s) = tot s + worth p"
        using step Cons.prems(2) False True by blast
      with Cons.IH [OF eq] show ?thesis by (simp add: add.assoc)
    next
      case nohit: False
      with Cons.prems False obtain rs'' where
        eq: "scan_once full hit pick rs s = (s', rs'')" and rs': "rs' = p # rs''"
        by (auto split: prod.splits)
      from Cons.IH [OF eq Cons.prems(2)]
      have "I s'" and "tot s' + sum_list (map worth rs'') = tot s + sum_list (map worth rs)"
        by simp_all
      then have "tot s' + (worth p + sum_list (map worth rs'')) =
          worth p + (tot s + sum_list (map worth rs))"
        by (simp only: add.left_commute [of "tot s'"])
      with rs' \<open>I s'\<close> show ?thesis by (simp only: list.map sum_list.Cons add.left_commute [of "tot s"])
    qed
  qed
qed

text \<open>
  With a counter against a cap as the guard, the single pass takes the first \<open>n\<close> hits, \<open>n\<close> being
  the room that is left.
\<close>

fun take_hits :: "nat \<Rightarrow> ('a \<Rightarrow> bool) \<Rightarrow> 'a list \<Rightarrow> 'a list \<times> 'a list" where
  "take_hits 0 hit rs = ([], rs)"
| "take_hits (Suc n) hit [] = ([], [])"
| "take_hits (Suc n) hit (p # rs) =
     (if hit p then (case take_hits n hit rs of (a, b) \<Rightarrow> (p # a, b))
      else (case take_hits (Suc n) hit rs of (a, b) \<Rightarrow> (a, p # b)))"

lemma take_hits_Nil [simp]: "take_hits n hit [] = ([], [])"
  by (cases n) auto

lemma take_hits_picked: "fst (take_hits n hit rs) = take n (filter hit rs)"
  by (induction n hit rs rule: take_hits.induct) (auto split: prod.splits)

lemma take_hits_others: "filter (\<lambda>p. \<not> hit p) (snd (take_hits n hit rs)) = filter (\<lambda>p. \<not> hit p) rs"
  by (induction n hit rs rule: take_hits.induct) (auto split: prod.splits)

lemma take_hits_mset:
  "mset (fst (take_hits n hit rs)) + mset (snd (take_hits n hit rs)) = mset rs"
  by (induction n hit rs rule: take_hits.induct) (auto split: prod.splits)

lemma take_hits_enough_room:
  "length (filter hit rs) \<le> n \<Longrightarrow> take_hits n hit rs = (filter hit rs, filter (\<lambda>p. \<not> hit p) rs)"
  by (induction n hit rs rule: take_hits.induct) (auto simp: filter_empty_conv intro: filter_True [symmetric])

lemma scan_once_take_hits:
  assumes full: "\<And>s. full s \<longleftrightarrow> cap \<le> size_of s"
    and pick: "\<And>p s. size_of (pick p s) = Suc (size_of s)"
  shows "scan_once full hit pick rs s =
    (case take_hits (cap - size_of s) hit rs of (a, b) \<Rightarrow> (fold pick a s, b))"
proof (induction rs arbitrary: s)
  case Nil
  then show ?case by simp
next
  case (Cons p rs)
  show ?case
  proof (cases "cap - size_of s")
    case 0
    then show ?thesis by (simp add: full)
  next
    case (Suc n)
    then have nf: "\<not> full s" and n: "cap - size_of (pick p s) = n" by (auto simp: full pick)
    show ?thesis
    proof (cases "hit p")
      case True
      then show ?thesis using Cons.IH [of "pick p s"] Suc nf n by (simp split: prod.splits)
    next
      case False
      then show ?thesis using Cons.IH [of s] Suc nf by (simp split: prod.splits)
    qed
  qed
qed

lemma scan_restart_take_hits:
  assumes "\<And>s. full s \<longleftrightarrow> cap \<le> size_of s" and "\<And>p s. size_of (pick p s) = Suc (size_of s)"
  shows "scan_restart full hit pick (rev xs) [] s =
    (case take_hits (cap - size_of s) hit (rev xs) of (a, b) \<Rightarrow> (fold pick a s, rev b))"
  by (simp add: scan_restart_whole case_prod_beta
      scan_once_take_hits [where cap = cap and size_of = size_of, OF assms])

lemma drop_length_take [simp]: "drop (length (take k xs)) xs = drop k xs"
  by (cases "length xs \<le> k") auto

lemma sum_list_map_rev: "sum_list (map f (rev xs)) = (sum_list (map f xs) :: 'b::comm_monoid_add)"
  by (induction xs) (simp_all add: add.commute)

subsection \<open>Clamping helpers and flags\<close>

text \<open>\<^verbatim>\<open>I2S\<close> (common.h): keep the low 16 bits and read them as a signed short.\<close>

definition i2s :: "int \<Rightarrow> int" where
  "i2s v = signed_take_bit 15 v"

definition clampShort :: "int \<Rightarrow> int \<Rightarrow> int \<Rightarrow> int" where
  "clampShort v lo hi =
     (let v = (if v < lo then lo else v); v = (if v > hi then hi else v) in i2s v)"

definition clampLong :: "int \<Rightarrow> int \<Rightarrow> int \<Rightarrow> int" where
  "clampLong v lo hi = (let v = (if v < lo then lo else v) in if v > hi then hi else v)"

lemma i2s_small: "- 32768 \<le> v \<Longrightarrow> v \<le> 32767 \<Longrightarrow> i2s v = v"
  by (simp add: i2s_def signed_take_bit_int_eq_self)

lemma clampShort_range:
  "- 32768 \<le> lo \<Longrightarrow> lo \<le> hi \<Longrightarrow> hi \<le> 32767 \<Longrightarrow> lo \<le> clampShort v lo hi \<and> clampShort v lo hi \<le> hi"
  by (auto simp: clampShort_def Let_def i2s_small)

lemma clampShort_id:
  "- 32768 \<le> lo \<Longrightarrow> hi \<le> 32767 \<Longrightarrow> lo \<le> v \<Longrightarrow> v \<le> hi \<Longrightarrow> clampShort v lo hi = v"
  by (simp add: clampShort_def Let_def i2s_small)

lemma clampLong_range: "lo \<le> hi \<Longrightarrow> lo \<le> clampLong v lo hi \<and> clampLong v lo hi \<le> hi"
  by (auto simp: clampLong_def Let_def)

lemma clampLong_id: "lo \<le> v \<Longrightarrow> v \<le> hi \<Longrightarrow> clampLong v lo hi = v"
  by (simp add: clampLong_def Let_def)

subsection \<open>More fuel changes nothing\<close>

text \<open>\<open>below m m'\<close>: \<open>m\<close> ran out of fuel, or \<open>m'\<close> is the same result.\<close>

definition below :: "'a option \<Rightarrow> 'a option \<Rightarrow> bool" where
  "below m m' \<longleftrightarrow> m = None \<or> m' = m"

lemma below_refl [simp]: "below m m"
  by (simp add: below_def)

lemma below_bind: "below m m' \<Longrightarrow> (\<And>n s. below (f n s) (f' n s)) \<Longrightarrow>
   below (case m of None \<Rightarrow> None | Some (n, s) \<Rightarrow> f n s) (case m' of None \<Rightarrow> None | Some (n, s) \<Rightarrow> f' n s)"
  by (auto simp: below_def split: option.split)

lemma below_if: "below x x' \<Longrightarrow> below y y' \<Longrightarrow> below (if b then x else y) (if b then x' else y')"
  by simp

lemma below_prod: "(\<And>n s. below (f n s) (f' n s)) \<Longrightarrow> below (case p of (n, s) \<Rightarrow> f n s) (case p of (n, s) \<Rightarrow> f' n s)"
  by (cases p) simp

lemma belowD: "below m m' \<Longrightarrow> m = Some r \<Longrightarrow> m' = Some r"
  by (simp add: below_def)

end
