(* ===== verification/Node_List.thy ===== *)
theory Node_List
  imports Clumsy_Prelude
begin

text \<open>
  The intrusive doubly linked lists of \<^verbatim>\<open>src/src/packet.cpp\<close> over an explicit store of
  \<^verbatim>\<open>prev\<close>/\<^verbatim>\<open>next\<close> pointers. An address is a natural number, a NULL pointer is \<open>None\<close>, and an
  operation that would dereference NULL is \<open>None\<close> as a whole. \<open>list_at h a xs b\<close> says that the store
  holds the list \<open>xs\<close> between the sentinels \<open>a\<close> and \<open>b\<close>; the lemmas show that \<^verbatim>\<open>popNode\<close>,
  \<^verbatim>\<open>insertAfter\<close> and \<^verbatim>\<open>insertBefore\<close> do to \<open>xs\<close> what their names say and touch no other list, which is
  why the module theories work on HOL lists.

  The locale \<open>buffer_moves\<close> is the interface the delay modules use: one main list, one private
  buffer, and packets moved between them. Its interpretation \<open>ptr\<close> is on the pointer store.
\<close>

record links =
  prv :: "nat option"
  nxt :: "nat option"

type_synonym store = "nat \<Rightarrow> links"

text \<open>A zero-initialised node (\<^verbatim>\<open>static PacketNode headNode = {0}\<close>).\<close>

definition null_links :: links where
  "null_links = \<lparr>prv = None, nxt = None\<rparr>"

text \<open>\<open>None\<close>: the assertion that the list is empty has failed.\<close>

definition initPacketNodeList :: "nat \<Rightarrow> nat \<Rightarrow> store \<Rightarrow> store option" where
  "initPacketNodeList hd_a tl_a h =
     (if nxt (h hd_a) = None \<and> prv (h tl_a) = None
      then (let h = h(hd_a := (h hd_a)\<lparr>nxt := Some tl_a\<rparr>)
            in Some (h(tl_a := (h tl_a)\<lparr>prv := Some hd_a\<rparr>)))
      else if nxt (h hd_a) = Some tl_a then Some h else None)"

definition popNode :: "nat \<Rightarrow> store \<Rightarrow> store option" where
  "popNode n h =
     (case prv (h n) of None \<Rightarrow> None
      | Some p \<Rightarrow>
          (let h = h(p := (h p)\<lparr>nxt := nxt (h n)\<rparr>) in
           case nxt (h n) of None \<Rightarrow> None
           | Some q \<Rightarrow> Some (h(q := (h q)\<lparr>prv := prv (h n)\<rparr>))))"

definition insertAfter :: "nat \<Rightarrow> nat \<Rightarrow> store \<Rightarrow> store option" where
  "insertAfter n target h =
     (let h = h(n := (h n)\<lparr>prv := Some target\<rparr>);
          h = h(n := (h n)\<lparr>nxt := nxt (h target)\<rparr>) in
      case nxt (h target) of None \<Rightarrow> None
      | Some q \<Rightarrow>
          (let h = h(q := (h q)\<lparr>prv := Some n\<rparr>)
           in Some (h(target := (h target)\<lparr>nxt := Some n\<rparr>))))"

definition insertBefore :: "nat \<Rightarrow> nat \<Rightarrow> store \<Rightarrow> store option" where
  "insertBefore n target h =
     (let h = h(n := (h n)\<lparr>nxt := Some target\<rparr>);
          h = h(n := (h n)\<lparr>prv := prv (h target)\<rparr>) in
      case prv (h target) of None \<Rightarrow> None
      | Some q \<Rightarrow>
          (let h = h(q := (h q)\<lparr>nxt := Some n\<rparr>)
           in Some (h(target := (h target)\<lparr>prv := Some n\<rparr>))))"

definition appendNode :: "nat \<Rightarrow> nat \<Rightarrow> store \<Rightarrow> store option" where
  "appendNode tl_a n h = insertBefore n tl_a h"

definition isListEmpty :: "nat \<Rightarrow> nat \<Rightarrow> store \<Rightarrow> bool" where
  "isListEmpty hd_a tl_a h \<longleftrightarrow> nxt (h hd_a) = Some tl_a"

subsection \<open>Lists in the store\<close>

fun linked :: "store \<Rightarrow> nat \<Rightarrow> nat list \<Rightarrow> nat \<Rightarrow> bool" where
  "linked h a [] b \<longleftrightarrow> nxt (h a) = Some b \<and> prv (h b) = Some a"
| "linked h a (x # xs) b \<longleftrightarrow> nxt (h a) = Some x \<and> prv (h x) = Some a \<and> linked h x xs b"

definition list_at :: "store \<Rightarrow> nat \<Rightarrow> nat list \<Rightarrow> nat \<Rightarrow> bool" where
  "list_at h a xs b \<longleftrightarrow> linked h a xs b \<and> distinct (a # xs @ [b])"

lemma linked_append: "linked h a (xs @ y # ys) b \<longleftrightarrow> linked h a xs y \<and> linked h y ys b"
  by (induction xs arbitrary: a) auto

lemma linked_cong:
  "(\<And>x. x \<in> set (a # xs) \<Longrightarrow> nxt (h' x) = nxt (h x)) \<Longrightarrow>
   (\<And>x. x \<in> set (xs @ [b]) \<Longrightarrow> prv (h' x) = prv (h x)) \<Longrightarrow>
   linked h' a xs b = linked h a xs b"
  by (induction xs arbitrary: a) auto

lemma linked_last: "linked h a xs b \<Longrightarrow> prv (h b) = Some (last (a # xs)) \<and> nxt (h (last (a # xs))) = Some b"
  by (induction xs arbitrary: a) auto

lemma linked_first: "linked h a xs b \<Longrightarrow> nxt (h a) = Some (hd (xs @ [b])) \<and> prv (h (hd (xs @ [b]))) = Some a"
  by (cases xs) auto

lemma list_at_empty: "list_at h a xs b \<Longrightarrow> isListEmpty a b h \<longleftrightarrow> xs = []"
  by (cases xs) (auto simp: list_at_def isListEmpty_def)

lemma list_at_frame:
  "list_at h a xs b \<Longrightarrow> (\<And>x. x \<in> set (a # xs @ [b]) \<Longrightarrow> h' x = h x) \<Longrightarrow> list_at h' a xs b"
  unfolding list_at_def by (subst linked_cong [where h = h]) auto

text \<open>The neighbours of the node at a split of the list.\<close>

lemma popNode_list_at:
  assumes "list_at h a (xs @ n # ys) b"
  obtains h' where "popNode n h = Some h'" and "list_at h' a (xs @ ys) b"
    and "\<And>x. x \<notin> set (a # xs @ ys @ [b]) \<Longrightarrow> h' x = h x"
proof -
  let ?p = "last (a # xs)" and ?q = "hd (ys @ [b])"
  have l1: "linked h a xs n" and l2: "linked h n ys b" and d: "distinct (a # (xs @ n # ys) @ [b])"
    using assms by (auto simp: list_at_def linked_append)
  have pq: "prv (h n) = Some ?p" "nxt (h n) = Some ?q"
    using linked_last [OF l1] linked_first [OF l2] by auto
  have p: "?p \<in> set (a # xs)" by (rule last_in_set) simp
  have q: "?q \<in> set (ys @ [b])" by (rule hd_in_set) simp
  have neq: "?p \<noteq> n" "?q \<noteq> n" "?p \<noteq> ?q" using p q d by (auto simp del: last.simps)
  let ?h = "h(?p := (h ?p)\<lparr>nxt := Some ?q\<rparr>, ?q := (h ?q)\<lparr>prv := Some ?p\<rparr>)"
  have pop: "popNode n h = Some ?h"
    using pq neq by (simp add: popNode_def Let_def del: last.simps)
  have "linked ?h a (xs @ ys) b"
  proof (cases ys)
    case Nil
    have "linked ?h a xs b" if "xs = []" using that neq Nil by simp
    moreover have "linked ?h a xs b" if ne: "xs \<noteq> []"
    proof -
      obtain zs z where xs: "xs = zs @ [z]" using ne by (metis rev_exhaust)
      have "linked h a zs z" using l1 xs linked_append [of h a zs z "[]"] by simp
      moreover have "linked ?h a zs z = linked h a zs z"
        by (rule linked_cong) (use d xs Nil in auto)
      ultimately show ?thesis using xs Nil neq by (simp add: linked_append)
    qed
    ultimately show ?thesis using Nil by auto
  next
    case (Cons y ys')
    have "linked ?h y ys' b = linked h y ys' b"
      by (rule linked_cong) (use d Cons p in \<open>auto simp del: last.simps\<close>)
    then have r: "linked ?h y ys' b" using l2 Cons by simp
    have "linked ?h a xs y"
    proof (cases "xs = []")
      case True
      then show ?thesis using neq Cons by simp
    next
      case False
      then obtain zs z where xs: "xs = zs @ [z]" by (metis rev_exhaust)
      have "linked h a zs z" using l1 xs linked_append [of h a zs z "[]"] by simp
      moreover have "linked ?h a zs z = linked h a zs z"
        by (rule linked_cong) (use d xs Cons in auto)
      ultimately show ?thesis using xs Cons neq by (simp add: linked_append)
    qed
    with r Cons show ?thesis by (simp add: linked_append)
  qed
  then have "list_at ?h a (xs @ ys) b" using d by (simp add: list_at_def)
  moreover have "?h x = h x" if "x \<notin> set (a # xs @ ys @ [b])" for x
    using that p q by (auto simp del: last.simps)
  ultimately show ?thesis using pop that by blast
qed

text \<open>\<^verbatim>\<open>insertAfter\<close> at any node of the list, or at its head sentinel.\<close>

lemma insertAfter_list_at:
  assumes "list_at h a (xs @ ys) b" and "n \<notin> set (a # xs @ ys @ [b])"
  obtains h' where "insertAfter n (last (a # xs)) h = Some h'" and "list_at h' a (xs @ n # ys) b"
    and "\<And>x. x \<notin> set (a # xs @ n # ys @ [b]) \<Longrightarrow> h' x = h x"
proof -
  let ?p = "last (a # xs)" and ?q = "hd (ys @ [b])"
  have l: "linked h a (xs @ ys) b" and d: "distinct (a # (xs @ ys) @ [b])"
    using assms(1) by (auto simp: list_at_def)
  have p: "?p \<in> set (a # xs)" by (rule last_in_set) simp
  have q: "?q \<in> set (ys @ [b])" by (rule hd_in_set) simp
  have neq: "?p \<noteq> n" "?q \<noteq> n" "?p \<noteq> ?q" using p q d assms(2) by (auto simp del: last.simps)
  have nq: "nxt (h ?p) = Some ?q"
  proof (cases ys)
    case Nil
    then show ?thesis using linked_last [of h a xs b] l by simp
  next
    case (Cons y ys')
    then show ?thesis using linked_last [of h a xs y] l by (simp add: linked_append)
  qed
  let ?h = "h(n := (h n)\<lparr>prv := Some ?p, nxt := Some ?q\<rparr>, ?q := (h ?q)\<lparr>prv := Some n\<rparr>,
              ?p := (h ?p)\<lparr>nxt := Some n\<rparr>)"
  have ins: "insertAfter n ?p h = Some ?h"
    using nq neq by (simp add: insertAfter_def Let_def del: last.simps)
  have left: "linked ?h a xs n"
  proof (cases "xs = []")
    case True
    then show ?thesis using neq by simp
  next
    case False
    then obtain zs z where xs: "xs = zs @ [z]" by (metis rev_exhaust)
    have "linked h a zs z"
      using l xs by (cases ys) (auto simp: linked_append)
    moreover have "linked ?h a zs z = linked h a zs z"
      by (rule linked_cong) (use d xs q assms(2) in auto)
    ultimately show ?thesis using xs neq by (simp add: linked_append)
  qed
  have right: "linked ?h n ys b"
  proof (cases ys)
    case Nil
    then show ?thesis using neq by simp
  next
    case (Cons y ys')
    have "linked ?h y ys' b = linked h y ys' b"
      by (rule linked_cong) (use d Cons p assms(2) in \<open>auto simp del: last.simps\<close>)
    then have "linked ?h y ys' b" using l Cons by (simp add: linked_append)
    then show ?thesis using Cons neq by simp
  qed
  have "list_at ?h a (xs @ n # ys) b"
    using left right d assms(2) by (auto simp: list_at_def linked_append)
  moreover have "?h x = h x" if "x \<notin> set (a # xs @ n # ys @ [b])" for x
    using that p q by (auto simp del: last.simps)
  ultimately show ?thesis using ins that by blast
qed

text \<open>\<^verbatim>\<open>insertBefore\<close> at a node is \<^verbatim>\<open>insertAfter\<close> at its predecessor.\<close>

lemma insertBefore_eq_insertAfter:
  assumes "list_at h a (xs @ ys) b" and "n \<notin> set (a # xs @ ys @ [b])"
  shows "insertBefore n (hd (ys @ [b])) h = insertAfter n (last (a # xs)) h"
proof -
  let ?p = "last (a # xs)" and ?q = "hd (ys @ [b])"
  have l: "linked h a (xs @ ys) b" and d: "distinct (a # (xs @ ys) @ [b])"
    using assms(1) by (auto simp: list_at_def)
  have p: "?p \<in> set (a # xs)" by (rule last_in_set) simp
  have q: "?q \<in> set (ys @ [b])" by (rule hd_in_set) simp
  have neq: "?p \<noteq> n" "?q \<noteq> n" "?p \<noteq> ?q" using p q d assms(2) by (auto simp del: last.simps)
  have nq: "nxt (h ?p) = Some ?q \<and> prv (h ?q) = Some ?p"
  proof (cases ys)
    case Nil
    then show ?thesis using linked_last [of h a xs b] l by simp
  next
    case (Cons y ys')
    then show ?thesis using linked_last [of h a xs y] l by (simp add: linked_append)
  qed
  show ?thesis using neq nq
    by (auto simp: insertBefore_def insertAfter_def Let_def simp del: last.simps)
qed

lemma appendNode_list_at:
  assumes "list_at h a xs b" and "n \<notin> set (a # xs @ [b])"
  obtains h' where "appendNode b n h = Some h'" and "list_at h' a (xs @ [n]) b"
proof -
  from assms have "list_at h a (xs @ []) b" "n \<notin> set (a # xs @ [] @ [b])" by simp_all
  note ia = insertAfter_list_at [OF this] and ib = insertBefore_eq_insertAfter [OF this]
  from ia obtain h' where "insertAfter n (last (a # xs)) h = Some h'" "list_at h' a (xs @ [n]) b"
    by auto
  with ib that show ?thesis by (simp add: appendNode_def)
qed

subsection \<open>A main list and a module's buffer\<close>

text \<open>
  What \<^verbatim>\<open>lag.cpp\<close>, \<^verbatim>\<open>jitter.cpp\<close>, \<^verbatim>\<open>throttle.cpp\<close>, \<^verbatim>\<open>ood.cpp\<close> and \<^verbatim>\<open>bandwidth.cpp\<close> do with their
  two lists: take a packet of the main list into the buffer (at its head), release the oldest one
  (\<^verbatim>\<open>bufTail->prev\<close>) to the head of the main list, or on closing move it behind the node that was
  last. \<open>rep h xs b\<close> reads the two lists off the state; \<open>anchor xs\<close> is the address of \<^verbatim>\<open>oldLast\<close>.
\<close>

locale buffer_moves =
  fixes rep :: "'h \<Rightarrow> 'n list \<Rightarrow> 'n list \<Rightarrow> bool"
    and take_node :: "'n \<Rightarrow> 'h \<Rightarrow> 'h option"
    and release_node :: "'h \<Rightarrow> 'h option"
    and drain_node :: "'n \<Rightarrow> 'h \<Rightarrow> 'h option"
    and buf_empty :: "'h \<Rightarrow> bool"
    and anchor :: "'n list \<Rightarrow> 'n"
  assumes take_node: "rep h (xs @ n # ys) b \<Longrightarrow> \<exists>h'. take_node n h = Some h' \<and> rep h' (xs @ ys) (n # b)"
    and release_node: "rep h xs (b @ [n]) \<Longrightarrow> \<exists>h'. release_node h = Some h' \<and> rep h' (n # xs) b"
    and drain_node: "rep h (xs @ ys) (b @ [n]) \<Longrightarrow>
      \<exists>h'. drain_node (anchor xs) h = Some h' \<and> rep h' (xs @ n # ys) b"
    and buf_empty: "rep h xs b \<Longrightarrow> buf_empty h \<longleftrightarrow> b = []"
begin

text \<open>\<^verbatim>\<open>while (!isBufEmpty()) insertAfter(popNode(bufTail->prev), oldLast);\<close>\<close>

fun drain_all :: "nat \<Rightarrow> 'n \<Rightarrow> 'h \<Rightarrow> 'h option" where
  "drain_all 0 old h = (if buf_empty h then Some h else None)"
| "drain_all (Suc k) old h =
     (if buf_empty h then Some h
      else case drain_node old h of None \<Rightarrow> None | Some h' \<Rightarrow> drain_all k old h')"

text \<open>Closing a delay module appends its buffer, in its own order, to the main list.\<close>

lemma drain_all_correct:
  "rep h (xs @ ys) b \<Longrightarrow> length b \<le> k \<Longrightarrow>
     \<exists>h'. drain_all k (anchor xs) h = Some h' \<and> rep h' (xs @ b @ ys) []"
proof (induction k arbitrary: h b ys)
  case 0
  then show ?case using buf_empty by auto
next
  case (Suc k)
  show ?case
  proof (cases b rule: rev_cases)
    case Nil
    then show ?thesis using Suc.prems buf_empty by auto
  next
    case (snoc b' n)
    with Suc.prems obtain h' where h': "drain_node (anchor xs) h = Some h'" "rep h' (xs @ n # ys) b'"
      using drain_node by blast
    moreover from Suc.IH [OF h'(2)] Suc.prems(2) snoc
    obtain h'' where "drain_all k (anchor xs) h' = Some h''" "rep h'' (xs @ b' @ n # ys) []" by auto
    moreover have "\<not> buf_empty h" using buf_empty [OF Suc.prems(1)] snoc by simp
    ultimately show ?thesis using snoc by simp
  qed
qed

text \<open>Releasing the \<open>k\<close> oldest packets, as the timer and overflow loops do.\<close>

fun release_n :: "nat \<Rightarrow> 'h \<Rightarrow> 'h option" where
  "release_n 0 h = Some h"
| "release_n (Suc k) h = (case release_node h of None \<Rightarrow> None | Some h' \<Rightarrow> release_n k h')"

lemma release_n_correct:
  "rep h xs b \<Longrightarrow> k \<le> length b \<Longrightarrow>
     \<exists>h'. release_n k h = Some h' \<and>
          rep h' (drop (length b - k) b @ xs) (take (length b - k) b)"
proof (induction k arbitrary: h xs b)
  case 0
  then show ?case by simp
next
  case (Suc k)
  then obtain b' n where b: "b = b' @ [n]" by (cases b rule: rev_cases) auto
  with Suc.prems obtain h' where h': "release_node h = Some h'" "rep h' (n # xs) b'"
    using release_node by blast
  with Suc.IH [OF h'(2)] Suc.prems(2) b show ?case by simp
qed

end

subsection \<open>The interface on the pointer store\<close>

text \<open>The main list lies between addresses 0 and 1, the buffer between 2 and 3.\<close>

definition two_lists :: "store \<Rightarrow> nat list \<Rightarrow> nat list \<Rightarrow> bool" where
  "two_lists h xs b \<longleftrightarrow> list_at h 0 xs 1 \<and> list_at h 2 b 3 \<and>
     set (0 # xs @ [1]) \<inter> set (2 # b @ [3]) = {}"

definition takeToBuffer :: "nat \<Rightarrow> store \<Rightarrow> store option" where
  "takeToBuffer pac h = (case popNode pac h of None \<Rightarrow> None | Some h \<Rightarrow> insertAfter pac 2 h)"

definition releaseOldest :: "store \<Rightarrow> store option" where
  "releaseOldest h =
     (case prv (h 3) of None \<Rightarrow> None
      | Some n \<Rightarrow> (case popNode n h of None \<Rightarrow> None | Some h \<Rightarrow> insertAfter n 0 h))"

definition drainOldest :: "nat \<Rightarrow> store \<Rightarrow> store option" where
  "drainOldest oldLast h =
     (case prv (h 3) of None \<Rightarrow> None
      | Some n \<Rightarrow> (case popNode n h of None \<Rightarrow> None | Some h \<Rightarrow> insertAfter n oldLast h))"

lemma two_lists_take:
  assumes "two_lists h (xs @ n # ys) b"
  shows "\<exists>h'. takeToBuffer n h = Some h' \<and> two_lists h' (xs @ ys) (n # b)"
proof -
  have m: "list_at h 0 (xs @ n # ys) 1" and bf: "list_at h 2 b 3"
    and dis: "set (0 # (xs @ n # ys) @ [1]) \<inter> set (2 # b @ [3]) = {}"
    using assms by (simp_all add: two_lists_def)
  obtain h1 where h1: "popNode n h = Some h1" "list_at h1 0 (xs @ ys) 1"
    "\<And>x. x \<notin> set (0 # xs @ ys @ [1]) \<Longrightarrow> h1 x = h x"
    using popNode_list_at [OF m] by blast
  have "list_at h1 2 b 3"
    by (rule list_at_frame [OF bf], rule h1(3)) (use dis in auto)
  then have bf1: "list_at h1 2 ([] @ b) 3" by simp
  have n: "n \<notin> set (2 # [] @ b @ [3])" and n': "n \<notin> set (0 # xs @ ys @ [1])"
    using dis m by (auto simp: list_at_def)
  obtain h2 where h2: "insertAfter n (last [2]) h1 = Some h2" "list_at h2 2 ([] @ n # b) 3"
    "\<And>x. x \<notin> set (2 # [] @ n # b @ [3]) \<Longrightarrow> h2 x = h1 x"
    using insertAfter_list_at [OF bf1 n] by blast
  have "list_at h2 0 (xs @ ys) 1"
    by (rule list_at_frame [OF h1(2)], rule h2(3)) (use n' dis in auto)
  moreover have "set (0 # (xs @ ys) @ [1]) \<inter> set (2 # (n # b) @ [3]) = {}"
    using dis n' by auto
  ultimately show ?thesis using h1(1) h2(1,2) by (simp add: takeToBuffer_def two_lists_def)
qed

lemma two_lists_drain:
  assumes "two_lists h (xs @ ys) (b @ [n])"
  shows "\<exists>h'. drainOldest (last (0 # xs)) h = Some h' \<and> two_lists h' (xs @ n # ys) b"
proof -
  have m: "list_at h 0 (xs @ ys) 1" and bf: "list_at h 2 (b @ [n]) 3"
    and dis: "set (0 # (xs @ ys) @ [1]) \<inter> set (2 # (b @ [n]) @ [3]) = {}"
    using assms by (simp_all add: two_lists_def)
  have oldest: "prv (h 3) = Some n"
    using linked_last [of h 2 "b @ [n]" 3] bf by (simp add: list_at_def)
  obtain h1 where h1: "popNode n h = Some h1" "list_at h1 2 (b @ []) 3"
    "\<And>x. x \<notin> set (2 # b @ [] @ [3]) \<Longrightarrow> h1 x = h x"
    using popNode_list_at [of h 2 b n "[]" 3] bf by auto
  have m1: "list_at h1 0 (xs @ ys) 1"
    by (rule list_at_frame [OF m], rule h1(3)) (use dis in auto)
  have n: "n \<notin> set (0 # xs @ ys @ [1])" and n': "n \<notin> set (2 # b @ [3])"
    using dis bf by (auto simp: list_at_def)
  obtain h2 where h2: "insertAfter n (last (0 # xs)) h1 = Some h2" "list_at h2 0 (xs @ n # ys) 1"
    "\<And>x. x \<notin> set (0 # xs @ n # ys @ [1]) \<Longrightarrow> h2 x = h1 x"
    using insertAfter_list_at [OF m1 n] by blast
  have "list_at h1 2 b 3" using h1(2) by simp
  then have "list_at h2 2 b 3"
    by (rule list_at_frame, intro h2(3)) (use n' dis in auto)
  moreover have "set (0 # (xs @ n # ys) @ [1]) \<inter> set (2 # b @ [3]) = {}"
    using dis n' by auto
  ultimately show ?thesis using oldest h1(1) h2(1,2) by (simp add: drainOldest_def two_lists_def)
qed

lemma releaseOldest_eq_drain: "releaseOldest h = drainOldest (last [0]) h"
  by (simp add: releaseOldest_def drainOldest_def)

interpretation ptr: buffer_moves two_lists takeToBuffer releaseOldest drainOldest
    "isListEmpty 2 3" "\<lambda>xs. last (0 # xs)"
proof unfold_locales
  show "\<exists>h'. releaseOldest h = Some h' \<and> two_lists h' (n # xs) b"
    if "two_lists h xs (b @ [n])" for h xs b n
    using two_lists_drain [of h "[]" xs b n] that by (simp add: releaseOldest_eq_drain)
  show "isListEmpty 2 3 h \<longleftrightarrow> b = []" if "two_lists h xs b" for h xs b
    using that by (auto simp: two_lists_def list_at_empty)
qed (rule two_lists_take two_lists_drain, assumption)+

subsection \<open>Properties\<close>

text \<open>C16: closing a delay module (the drain loop, on the pointers of both lists) moves its whole buffer,
  in its own order, behind the node that was last, leaves the buffer empty and never follows a null
  pointer.\<close>

theorem drain_moves_buffer:
  assumes "two_lists h (xs @ ys) b"
  shows "\<exists>h'. ptr.drain_all (length b) (last (0 # xs)) h = Some h' \<and> two_lists h' (xs @ b @ ys) []"
  by (rule ptr.drain_all_correct [OF assms]) simp

definition example_store :: store where
  "example_store = (\<lambda>_. null_links)(0 := \<lparr>prv = None, nxt = Some 4\<rparr>, 4 := \<lparr>prv = Some 0, nxt = Some 1\<rparr>,
     1 := \<lparr>prv = Some 4, nxt = None\<rparr>, 2 := \<lparr>prv = None, nxt = Some 5\<rparr>, 5 := \<lparr>prv = Some 2, nxt = Some 6\<rparr>,
     6 := \<lparr>prv = Some 5, nxt = Some 3\<rparr>, 3 := \<lparr>prv = Some 6, nxt = None\<rparr>)"

theorem drain_moves_buffer_witness:
  "\<exists>h'. ptr.drain_all (length [5, 6 :: nat]) (last [0, 4]) example_store = Some h' \<and> two_lists h' ([4] @ [5, 6] @ []) []"
  by (rule drain_moves_buffer) (simp add: two_lists_def list_at_def example_store_def)

end
