(* ===== verification/Text.thy ===== *)
theory Text
  imports Clumsy_Prelude "HOL-Library.Char_ord" "HOL-Library.Log_Nat"
begin

text \<open>
  The C library's string functions, as the sources use them: character classes of the C locale,
  \<^verbatim>\<open>_stricmp\<close>, printing and reading of decimal numbers (\<^verbatim>\<open>%d\<close>, \<^verbatim>\<open>%u\<close>, \<^verbatim>\<open>atoi\<close>, \<^verbatim>\<open>atol\<close>,
  \<^verbatim>\<open>strtoul\<close>), and \<^verbatim>\<open>atof\<close> with the rounding of doubles. A C string is the list of its characters
  before the terminating NUL.
\<close>

subsection \<open>Characters\<close>

definition code :: "char \<Rightarrow> nat" where
  "code c = of_char c"

definition is_digit :: "char \<Rightarrow> bool" where
  "is_digit c \<longleftrightarrow> 48 \<le> code c \<and> code c \<le> 57"

definition is_space :: "char \<Rightarrow> bool" where
  "is_space c \<longleftrightarrow> code c = 32 \<or> 9 \<le> code c \<and> code c \<le> 13"

definition lower_char :: "char \<Rightarrow> char" where
  "lower_char c = (if 65 \<le> code c \<and> code c \<le> 90 then char_of (code c + 32) else c)"

definition stricmp_eq :: "string \<Rightarrow> string \<Rightarrow> bool" where
  "stricmp_eq a b \<longleftrightarrow> map lower_char a = map lower_char b"

lemma stricmp_eq_refl [simp]: "stricmp_eq a a"
  by (simp add: stricmp_eq_def)

subsection \<open>Decimal numbers\<close>

definition digit_char :: "nat \<Rightarrow> char" where
  "digit_char d = char_of (48 + d)"

fun show_nat :: "nat \<Rightarrow> string" where
  "show_nat n = (if n < 10 then [digit_char n] else show_nat (n div 10) @ [digit_char (n mod 10)])"

declare show_nat.simps [simp del]

definition show_int :: "int \<Rightarrow> string" where
  "show_int i = (if i < 0 then CHR ''-'' # show_nat (nat (- i)) else show_nat (nat i))"

definition read_digits :: "string \<Rightarrow> nat" where
  "read_digits s = foldl (\<lambda>a c. 10 * a + (code c - 48)) 0 s"

lemma code_digit_char: "d < 10 \<Longrightarrow> code (digit_char d) = 48 + d"
  by (simp add: code_def digit_char_def)

lemma is_digit_digit_char [simp]: "d < 10 \<Longrightarrow> is_digit (digit_char d)"
  by (simp add: is_digit_def code_digit_char)

lemma show_nat_nonempty [simp]: "show_nat n \<noteq> []"
  by (subst show_nat.simps) simp

lemma show_nat_digits: "c \<in> set (show_nat n) \<Longrightarrow> is_digit c"
proof (induction n rule: show_nat.induct)
  case (1 n)
  then show ?case by (subst (asm) (2) show_nat.simps) (auto split: if_splits)
qed

lemma read_digits_snoc: "read_digits (s @ [c]) = 10 * read_digits s + (code c - 48)"
  by (simp add: read_digits_def)

lemma read_show_nat [simp]: "read_digits (show_nat n) = n"
proof (induction n rule: show_nat.induct)
  case (1 n)
  show ?case
  proof (cases "n < 10")
    case True
    then show ?thesis by (subst show_nat.simps) (simp add: read_digits_def code_digit_char)
  next
    case False
    then have "read_digits (show_nat n) = 10 * read_digits (show_nat (n div 10)) + n mod 10"
      by (subst show_nat.simps) (simp add: read_digits_snoc code_digit_char)
    then show ?thesis using 1 [OF False] by simp
  qed
qed

lemma span_digits:
  assumes "\<And>c. c \<in> set ds \<Longrightarrow> P c" "w = [] \<or> \<not> P (hd w)"
  shows "takeWhile P (ds @ w) = ds" "dropWhile P (ds @ w) = w"
  using assms by (cases w; simp add: takeWhile_append2 dropWhile_append2)+

text \<open>\<^verbatim>\<open>strtoul\<close> on a run of digits saturates at \<^verbatim>\<open>ULONG_MAX\<close>; the callers keep the low 32 bits.\<close>

definition strtoul32 :: "string \<Rightarrow> u32" where
  "strtoul32 s = of_nat (min (read_digits s) 18446744073709551615)"

lemma strtoul32_show [simp]: "strtoul32 (show_nat (unat v)) = v"
proof -
  have "unat v < 4294967296" using unsigned_less [of v, where 'a = nat] by simp
  then show ?thesis by (simp add: strtoul32_def min_absorb1)
qed

text \<open>\<^verbatim>\<open>strtol(s, NULL, 10)\<close>: blanks, a sign, digits; saturating at 64 bits.\<close>

definition strtol :: "string \<Rightarrow> int" where
  "strtol s =
     (let s = dropWhile is_space s;
          neg = (case s of c # _ \<Rightarrow> c = CHR ''-'' | [] \<Rightarrow> False);
          s = (case s of c # r \<Rightarrow> if c = CHR ''-'' \<or> c = CHR ''+'' then r else s | [] \<Rightarrow> []);
          v = int (read_digits (takeWhile is_digit s))
      in if neg then max (- 9223372036854775808) (- v) else min 9223372036854775807 v)"

definition atol :: "string \<Rightarrow> int" where
  "atol s = strtol s"

text \<open>glibc's \<^verbatim>\<open>atoi\<close> is \<^verbatim>\<open>(int) strtol\<close>: it keeps the low 32 bits.\<close>

definition atoi :: "string \<Rightarrow> int" where
  "atoi s = signed_take_bit 31 (strtol s)"

lemma digit_not_space: "is_digit c \<Longrightarrow> \<not> is_space c"
  by (auto simp: is_digit_def is_space_def)

lemma digit_not_sign: "is_digit c \<Longrightarrow> c \<noteq> CHR ''-'' \<and> c \<noteq> CHR ''+''"
  by (auto simp: is_digit_def code_def)

lemma read_digits_Nil [simp]: "read_digits [] = 0"
  by (simp add: read_digits_def)

lemma takeWhile_all_digits: "(\<And>c. c \<in> set s \<Longrightarrow> is_digit c) \<Longrightarrow> takeWhile is_digit s = s"
  by (simp add: takeWhile_eq_all_conv)

lemma strtol_show_int:
  assumes "- 9223372036854775808 \<le> v" "v \<le> 9223372036854775807"
  shows "strtol (show_int v) = v"
proof (cases "v < 0")
  case True
  have t: "takeWhile is_digit (show_nat (nat (- v))) = show_nat (nat (- v))"
    by (rule takeWhile_all_digits) (rule show_nat_digits)
  have rd: "read_digits (takeWhile is_digit (show_nat (nat (- v)))) = nat (- v)"
    by (simp only: t read_show_nat)
  have "\<not> is_space CHR ''-''" by (simp add: is_space_def code_def)
  then show ?thesis using True assms(1) by (simp add: strtol_def show_int_def rd)
next
  case False
  obtain c r where s: "show_nat (nat v) = c # r" by (cases "show_nat (nat v)") auto
  then have c: "is_digit c" using show_nat_digits [of c "nat v"] by simp
  have t: "takeWhile is_digit (c # r) = c # r"
    unfolding s [symmetric] by (rule takeWhile_all_digits) (rule show_nat_digits)
  have rd: "read_digits (c # r) = nat v" unfolding s [symmetric] by (rule read_show_nat)
  show ?thesis using False assms s t rd digit_not_space [OF c] digit_not_sign [OF c]
    by (simp add: strtol_def show_int_def)
qed

lemma atol_show_int: "- 9223372036854775808 \<le> v \<Longrightarrow> v \<le> 9223372036854775807 \<Longrightarrow> atol (show_int v) = v"
  by (simp add: atol_def strtol_show_int)

lemma atoi_show_int: "- 2147483648 \<le> v \<Longrightarrow> v \<le> 2147483647 \<Longrightarrow> atoi (show_int v) = v"
  by (simp add: atoi_def strtol_show_int signed_take_bit_int_eq_self)

lemma show_nat_length: "n < 10 ^ k \<Longrightarrow> 0 < k \<Longrightarrow> length (show_nat n) \<le> k"
proof (induction k arbitrary: n)
  case (Suc k)
  show ?case
  proof (cases "n < 10")
    case True
    then show ?thesis by (subst show_nat.simps) simp
  next
    case False
    then have "0 < k" using Suc.prems by (cases k) auto
    moreover have "n div 10 < 10 ^ k" using Suc.prems(1) by (simp add: less_mult_imp_div_less mult.commute)
    ultimately have "length (show_nat (n div 10)) \<le> k" by (rule_tac Suc.IH)
    then show ?thesis using False by (subst show_nat.simps) simp
  qed
qed simp

lemma show_int_length: "0 \<le> i \<Longrightarrow> i < 4294967296 \<Longrightarrow> length (show_int i) \<le> 10"
  using show_nat_length [of "nat i" 10] by (simp add: show_int_def)

subsection \<open>Reading a double\<close>

text \<open>
  Round to the nearest number with a significand of \<open>p\<close> bits, ties to even: 53 for \<^verbatim>\<open>double\<close>, 24 for
  \<^verbatim>\<open>float\<close>. Subnormal numbers and the
  overflow to infinity are not modelled: no caller depends on them.
\<close>

definition round_half_even :: "rat \<Rightarrow> int" where
  "round_half_even x =
     (let f = \<lfloor>x\<rfloor>; d = x - of_int f in
      if d < 1 / 2 then f else if d > 1 / 2 then f + 1 else if even f then f else f + 1)"

definition scale2 :: "int \<Rightarrow> rat" where
  "scale2 e = (if e \<ge> 0 then 2 ^ nat e else 1 / 2 ^ nat (- e))"

definition round_sig :: "nat \<Rightarrow> rat \<Rightarrow> rat" where
  "round_sig p x =
     (if x = 0 then 0
      else
        (case quotient_of \<bar>x\<bar> of (a, b) \<Rightarrow>
         let e = int (floorlog 2 (nat a)) - int (floorlog 2 (nat b)) - int p;
             e = (if \<bar>x\<bar> / scale2 e \<ge> 2 ^ p then e + 1 else e);
             m = of_int (round_half_even (\<bar>x\<bar> / scale2 e)) * scale2 e
         in if x < 0 then - m else m))"

definition dbl :: "rat \<Rightarrow> rat" where
  "dbl x = round_sig 53 x"

definition flt :: "rat \<Rightarrow> rat" where
  "flt x = round_sig 24 x"

definition hex_value :: "char \<Rightarrow> nat option" where
  "hex_value c =
     (if is_digit c then Some (code c - 48)
      else if 97 \<le> code (lower_char c) \<and> code (lower_char c) \<le> 102 then Some (code (lower_char c) - 87)
      else None)"

definition dec_value :: "char \<Rightarrow> nat option" where
  "dec_value c = (if is_digit c then Some (code c - 48) else None)"

text \<open>The digits of a mantissa: their value so far, how many followed the point, the rest.\<close>

fun read_run :: "(char \<Rightarrow> nat option) \<Rightarrow> nat \<Rightarrow> string \<Rightarrow> nat \<Rightarrow> nat \<Rightarrow> nat \<times> nat \<times> string" where
  "read_run val base [] v n = (v, n, [])"
| "read_run val base (c # r) v n =
     (case val c of Some d \<Rightarrow> read_run val base r (base * v + d) (n + 1) | None \<Rightarrow> (v, n, c # r))"

text \<open>\<open>None\<close>: the string is read as an infinity or as not a number.\<close>

definition read_mantissa :: "(char \<Rightarrow> nat option) \<Rightarrow> nat \<Rightarrow> string \<Rightarrow> (rat \<times> string) option" where
  "read_mantissa val base s =
     (case read_run val base s 0 0 of (v, n, r) \<Rightarrow>
      case (case r of c # r' \<Rightarrow> if c = CHR ''.'' then read_run val base r' v 0 else (v, 0, r) | [] \<Rightarrow> (v, 0, r)) of
        (w, k, r') \<Rightarrow> (if n + k = 0 then None else Some (of_nat w / of_nat base ^ k, r')))"

definition read_exponent :: "char \<Rightarrow> string \<Rightarrow> int" where
  "read_exponent mark s =
     (case s of c # r \<Rightarrow>
        if lower_char c = mark then
          (let neg = (case r of d # _ \<Rightarrow> d = CHR ''-'' | [] \<Rightarrow> False);
               r = (case r of d # r' \<Rightarrow> if d = CHR ''-'' \<or> d = CHR ''+'' then r' else r | [] \<Rightarrow> []);
               v = int (read_digits (takeWhile is_digit r))
           in if neg then - v else v)
        else 0
      | [] \<Rightarrow> 0)"

definition pow_int :: "rat \<Rightarrow> int \<Rightarrow> rat" where
  "pow_int b e = (if e \<ge> 0 then b ^ nat e else 1 / b ^ nat (- e))"

definition atof :: "string \<Rightarrow> rat option" where
  "atof s =
     (let s = dropWhile is_space s;
          neg = (case s of c # _ \<Rightarrow> c = CHR ''-'' | [] \<Rightarrow> False);
          s = (case s of c # r \<Rightarrow> if c = CHR ''-'' \<or> c = CHR ''+'' then r else s | [] \<Rightarrow> []);
          l = map lower_char s in
      if take 3 l = ''inf'' \<or> take 3 l = ''nan'' then None
      else
        let v = (case (if take 2 l = ''0x'' then read_mantissa hex_value 16 (drop 2 s) else None) of
                   Some (x, r) \<Rightarrow> x * pow_int 2 (read_exponent CHR ''p'' r)
                 | None \<Rightarrow>
                    (case read_mantissa dec_value 10 s of
                       Some (x, r) \<Rightarrow> x * pow_int 10 (read_exponent CHR ''e'' r)
                     | None \<Rightarrow> 0))
        in Some (dbl (if neg then - v else v)))"

text \<open>\<^verbatim>\<open>(int)\<close> of a double truncates; outside the range of \<^verbatim>\<open>int\<close> it is undefined (\<open>None\<close>).\<close>

definition trunc_rat :: "rat \<Rightarrow> int" where
  "trunc_rat x = (if x < 0 then - \<lfloor>- x\<rfloor> else \<lfloor>x\<rfloor>)"

definition double_to_int :: "rat \<Rightarrow> int option" where
  "double_to_int x = (let t = trunc_rat x in if - 2147483648 \<le> t \<and> t \<le> 2147483647 then Some t else None)"

lemma read_run_digits: "(\<And>c. c \<in> set s \<Longrightarrow> is_digit c) \<Longrightarrow> w = [] \<or> \<not> is_digit (hd w) \<Longrightarrow>
   read_run dec_value 10 (s @ w) v n = (foldl (\<lambda>a c. 10 * a + (code c - 48)) v s, n + length s, w)"
proof (induction s arbitrary: v n)
  case Nil
  then show ?case by (cases w) (auto simp: dec_value_def)
qed (simp add: dec_value_def)

lemma lower_digit: "is_digit c \<Longrightarrow> lower_char c = c"
  by (auto simp: is_digit_def lower_char_def)

subsection \<open>The error of a rounding\<close>

lemma round_half_even_error: "\<bar>of_int (round_half_even x) - x\<bar> \<le> 1 / 2"
proof -
  have "of_int \<lfloor>x\<rfloor> \<le> x" "x < of_int \<lfloor>x\<rfloor> + 1" by linarith+
  then show ?thesis by (simp add: round_half_even_def Let_def)
qed

lemma round_half_even_near: "\<bar>x - of_int n\<bar> < 1 / 2 \<Longrightarrow> round_half_even x = n"
  using round_half_even_error [of x] by linarith

lemma scale2_pos [simp]: "0 < scale2 e"
  by (simp add: scale2_def)

lemma scale2_Suc: "scale2 (e + 1) = 2 * scale2 e"
proof (cases "0 \<le> e")
  case True
  then show ?thesis by (simp add: scale2_def nat_add_distrib)
next
  case False
  then have "nat (- e) = Suc (nat (- (e + 1)))" by simp
  then show ?thesis using False by (simp add: scale2_def)
qed

lemma scale2_add: "scale2 (e + int n) = 2 ^ n * scale2 e"
proof (induction n)
  case (Suc n)
  have "e + int (Suc n) = (e + int n) + 1" by simp
  then show ?case using Suc by (simp only: scale2_Suc) simp
qed simp

lemma floorlog2_bounds: "0 < n \<Longrightarrow> 2 ^ (floorlog 2 n - 1) \<le> n \<and> n < 2 ^ floorlog 2 n \<and> 0 < floorlog 2 n"
  using floorlog_bounds [of n 2] by (simp add: floorlog_def)

lemma rat_between:
  assumes a: "2 ^ (k - 1) \<le> (a :: nat)" "a < 2 ^ k" "0 < k" and b: "2 ^ (l - 1) \<le> (b :: nat)" "b < 2 ^ l" "0 < l"
  shows "scale2 (int k - int l - 1) \<le> of_nat a / of_nat b" "of_nat a / of_nat b \<le> scale2 (int k - int l + 1)"
proof -
  obtain k' l' where kl: "k = Suc k'" "l = Suc l'" using a(3) b(3) by (cases k; cases l) auto
  have a': "2 ^ k' \<le> (of_nat a :: rat)" "of_nat a \<le> (2 :: rat) ^ k"
    using a(1,2) kl by (metis diff_Suc_1 of_nat_le_iff of_nat_numeral of_nat_power, metis less_imp_le of_nat_le_iff of_nat_numeral of_nat_power)
  have b': "2 ^ l' \<le> (of_nat b :: rat)" "of_nat b \<le> (2 :: rat) ^ l"
    using b(1,2) kl by (metis diff_Suc_1 of_nat_le_iff of_nat_numeral of_nat_power, metis less_imp_le of_nat_le_iff of_nat_numeral of_nat_power)
  have bp: "0 < (of_nat b :: rat)" using b'(1) by (meson less_le_trans zero_less_numeral zero_less_power)
  have nn: "scale2 (int n) = 2 ^ n" for n by (simp add: scale2_def)
  have s1: "scale2 (int k - int l - 1) * 2 ^ l = 2 ^ k'"
  proof -
    have "int k - int l - 1 + int l = int k'" using kl by simp
    then show ?thesis using scale2_add [of "int k - int l - 1" l] by (simp only: nn mult.commute)
  qed
  have s2: "scale2 (int k - int l + 1) * 2 ^ l' = 2 ^ k"
  proof -
    have "int k - int l + 1 + int l' = int k" using kl by simp
    then show ?thesis using scale2_add [of "int k - int l + 1" l'] by (simp only: nn mult.commute)
  qed
  have "scale2 (int k - int l - 1) * of_nat b \<le> scale2 (int k - int l - 1) * 2 ^ l"
    using b'(2) by (intro mult_left_mono) (simp_all add: less_imp_le)
  then have "scale2 (int k - int l - 1) * of_nat b \<le> of_nat a" using s1 a'(1) by linarith
  then show "scale2 (int k - int l - 1) \<le> of_nat a / of_nat b" using bp by (simp add: le_divide_eq)
  have "scale2 (int k - int l + 1) * 2 ^ l' \<le> scale2 (int k - int l + 1) * of_nat b"
    using b'(1) by (intro mult_left_mono) (simp_all add: less_imp_le)
  then have "of_nat a \<le> scale2 (int k - int l + 1) * of_nat b" using s2 a'(2) by linarith
  then show "of_nat a / of_nat b \<le> scale2 (int k - int l + 1)" using bp by (simp add: divide_le_eq)
qed

text \<open>The relative error is at most one part in \<open>2 ^ p\<close>.\<close>

lemma round_sig_error:
  assumes p: "0 < p" and x: "0 \<le> x" shows "\<bar>round_sig p x - x\<bar> \<le> x / 2 ^ p"
proof (cases "x = 0")
  case True
  then show ?thesis by (simp add: round_sig_def)
next
  case False
  then have pos: "0 < x" using x by simp
  obtain a b where q: "quotient_of x = (a, b)" by (cases "quotient_of x")
  have b: "0 < b" using quotient_of_denom_pos [OF q] .
  have xe: "x = of_int a / of_int b" using quotient_of_div [OF q] .
  have a: "0 < a" using pos b unfolding xe by (simp add: zero_less_divide_iff)
  define k where "k = floorlog 2 (nat a)"
  define l where "l = floorlog 2 (nat b)"
  define e where "e = int k - int l - int p"
  define e' where "e' = (if x / scale2 e \<ge> 2 ^ p then e + 1 else e)"
  have xn: "x = of_nat (nat a) / of_nat (nat b)" using xe a b by simp
  note ab = rat_between [of k "nat a" l "nat b"] floorlog2_bounds [of "nat a"] floorlog2_bounds [of "nat b"]
  have lo: "scale2 (int k - int l - 1) \<le> x" unfolding xn by (rule ab(1)) (use ab(3,4) a b in \<open>simp_all add: k_def l_def\<close>)
  have "2 ^ (p - 1) * scale2 e \<le> x"
  proof -
    have "2 ^ (p - 1) * scale2 e = scale2 (e + int (p - 1))" by (simp add: scale2_add)
    also have "e + int (p - 1) = int k - int l - 1" using p by (simp add: e_def)
    finally show ?thesis using lo by simp
  qed
  then have big: "2 ^ (p - 1) * scale2 e' \<le> x"
  proof (cases "x / scale2 e \<ge> 2 ^ p")
    case True
    have "2 ^ p * scale2 e \<le> x" using True by (simp add: le_divide_eq)
    moreover have "(2 :: rat) ^ p = 2 * 2 ^ (p - 1)" using p by (cases p) simp_all
    ultimately show ?thesis using True by (simp add: e'_def scale2_Suc)
  qed (simp add: e'_def)
  have r: "round_sig p x = of_int (round_half_even (x / scale2 e')) * scale2 e'"
    using pos q by (simp add: round_sig_def Let_def e_def e'_def k_def l_def)
  have "round_sig p x - x = (of_int (round_half_even (x / scale2 e')) - x / scale2 e') * scale2 e'"
  proof -
    have "scale2 e' \<noteq> 0" using scale2_pos [of e'] by linarith
    then show ?thesis unfolding r by (simp add: left_diff_distrib)
  qed
  then have "\<bar>round_sig p x - x\<bar> = \<bar>of_int (round_half_even (x / scale2 e')) - x / scale2 e'\<bar> * scale2 e'"
    by (simp add: abs_mult abs_of_pos)
  also have "\<dots> \<le> 1 / 2 * scale2 e'"
    by (intro mult_right_mono round_half_even_error) (simp add: less_imp_le)
  also have "\<dots> \<le> x / 2 ^ p"
  proof -
    have "(2 :: rat) ^ p = 2 * 2 ^ (p - 1)" using p by (cases p) simp_all
    then show ?thesis using big by (simp add: le_divide_eq algebra_simps)
  qed
  finally show ?thesis .
qed

end
