(* ===== verification/Latency.thy ===== *)
theory Latency
  imports Clumsy_Prelude
begin

text \<open>
  The delay histogram of \<^verbatim>\<open>src/src/latency.cpp\<close>: its counters, \<^verbatim>\<open>latencyRecord\<close>,
  \<^verbatim>\<open>latencyReset\<close> and the readers. The counters are natural numbers (\<^verbatim>\<open>LONG\<close> is 64 bits wide on
  Linux and every update is an increment or stays below \<^verbatim>\<open>SUM_ROLLOVER\<close>); the readers' doubles are
  rationals. The lock makes every reader see one instant, so readers are functions of one state.

  The abstract specification is the list of the delays recorded so far: \<open>lat_rep h ds\<close> says that
  the counters of \<open>h\<close> are the histogram, count, minimum, maximum and sum of \<open>ds\<close>.
\<close>

definition bucketUpper :: "nat list" where
  "bucketUpper = [1, 2, 5, 10, 25, 50, 100, 250, 500, 1000, 2500, 5000, 0]"

definition SUM_ROLLOVER :: nat where
  "SUM_ROLLOVER = 1000000000"

record latency =
  buckets :: "nat list"
  totalCount :: nat
  minMs :: nat
  maxMs :: nat
  sumLow :: nat
  sumHigh :: nat

definition latencyReset :: latency where
  "latencyReset = \<lparr>buckets = replicate 13 0, totalCount = 0, minMs = 0, maxMs = 0,
     sumLow = 0, sumHigh = 0\<rparr>"

text \<open>The search loop of \<^verbatim>\<open>latencyRecord\<close>: the first bucket whose bound is not exceeded.\<close>

fun find_bucket :: "nat \<Rightarrow> nat list \<Rightarrow> nat" where
  "find_bucket ms [] = 0"
| "find_bucket ms (u # us) = (if ms \<le> u then 0 else Suc (find_bucket ms us))"

definition bucketOf :: "nat \<Rightarrow> nat" where
  "bucketOf ms = find_bucket ms (butlast bucketUpper)"

definition latencyRecord :: "u32 \<Rightarrow> latency \<Rightarrow> latency" where
  "latencyRecord delayMs h =
     (let ms = unat delayMs in
      if ms > 3600000 then h
      else
        let i = bucketOf ms;
            h = h\<lparr>buckets := (buckets h)[i := buckets h ! i + 1]\<rparr>;
            h = (if totalCount h = 0 \<or> ms < minMs h then h\<lparr>minMs := ms\<rparr> else h);
            h = (if ms > maxMs h then h\<lparr>maxMs := ms\<rparr> else h);
            low = sumLow h + ms;
            h = (if low \<ge> SUM_ROLLOVER
                 then h\<lparr>sumHigh := sumHigh h + 1, sumLow := low - SUM_ROLLOVER\<rparr>
                 else h\<lparr>sumLow := low\<rparr>)
        in h\<lparr>totalCount := totalCount h + 1\<rparr>)"

definition latencyCount :: "latency \<Rightarrow> nat" where
  "latencyCount h = totalCount h"

definition latencyMin :: "latency \<Rightarrow> nat" where
  "latencyMin h = (if totalCount h \<noteq> 0 then minMs h else 0)"

definition latencyMax :: "latency \<Rightarrow> nat" where
  "latencyMax h = maxMs h"

definition latencyBucketUpper :: "int \<Rightarrow> nat" where
  "latencyBucketUpper ix = (if ix < 0 \<or> ix \<ge> 13 then 0 else bucketUpper ! nat ix)"

definition latencyBucketCount :: "int \<Rightarrow> latency \<Rightarrow> nat" where
  "latencyBucketCount ix h = (if ix < 0 \<or> ix \<ge> 13 then 0 else buckets h ! nat ix)"

definition latencySumMs :: "latency \<Rightarrow> rat" where
  "latencySumMs h = of_nat (sumHigh h) * of_nat SUM_ROLLOVER + of_nat (sumLow h)"

definition latencyMean :: "latency \<Rightarrow> rat" where
  "latencyMean h = (if totalCount h = 0 then 0
     else (of_nat (sumHigh h) * of_nat SUM_ROLLOVER + of_nat (sumLow h)) / of_nat (totalCount h))"

subsection \<open>Percentiles\<close>

text \<open>
  The bucket loop of \<^verbatim>\<open>latencyPercentile\<close>, at bucket \<open>i\<close> with the counts from there on.
  \<open>bucket_lo\<close> and \<open>bucket_hi\<close> are the bucket's edges narrowed to the recorded extremes.
\<close>

definition bucket_lo :: "nat \<Rightarrow> nat \<Rightarrow> rat" where
  "bucket_lo i lowest =
     (let lo = (if i = 0 then 0 else of_nat (bucketUpper ! (i - 1)))
      in if lo < of_nat lowest then of_nat lowest else lo)"

definition bucket_hi :: "nat \<Rightarrow> nat \<Rightarrow> nat \<Rightarrow> rat" where
  "bucket_hi i lowest highest =
     (let hi = (if bucketUpper ! i \<noteq> 0 then of_nat (bucketUpper ! i) else of_nat highest);
          hi = (if hi > of_nat highest then of_nat highest else hi)
      in if hi < bucket_lo i lowest then bucket_lo i lowest else hi)"

definition clamp01 :: "rat \<Rightarrow> rat" where
  "clamp01 f = (let f = (if f < 0 then 0 else f) in if f > 1 then 1 else f)"

fun percentile_walk :: "rat \<Rightarrow> nat \<Rightarrow> nat \<Rightarrow> nat \<Rightarrow> rat \<Rightarrow> nat list \<Rightarrow> rat" where
  "percentile_walk target lowest highest i cumulative [] = of_nat highest"
| "percentile_walk target lowest highest i cumulative (c # cs) =
     (if c = 0 then percentile_walk target lowest highest (Suc i) cumulative cs
      else if cumulative + of_nat c \<ge> target then
        bucket_lo i lowest + clamp01 ((target - cumulative) / of_nat c) *
          (bucket_hi i lowest highest - bucket_lo i lowest)
      else percentile_walk target lowest highest (Suc i) (cumulative + of_nat c) cs)"

definition latencyPercentile :: "rat \<Rightarrow> latency \<Rightarrow> rat" where
  "latencyPercentile pct h =
     (let pct = (if pct < 0 then 0 else pct); pct = (if pct > 100 then 100 else pct)
      in if totalCount h = 0 then 0
         else percentile_walk (of_nat (totalCount h) * pct / 100) (minMs h) (maxMs h) 0 0 (buckets h))"

subsection \<open>The histogram represents the recorded delays\<close>

text \<open>The delays \<^verbatim>\<open>latencyRecord\<close> accepts: up to one hour.\<close>

definition accepted :: "u32 list \<Rightarrow> nat list" where
  "accepted ds = filter (\<lambda>m. m \<le> 3600000) (map unat ds)"

definition lat_rep :: "latency \<Rightarrow> nat list \<Rightarrow> bool" where
  "lat_rep h ds \<longleftrightarrow>
     buckets h = map (\<lambda>i. length (filter (\<lambda>m. bucketOf m = i) ds)) [0..<13] \<and>
     totalCount h = length ds \<and>
     (ds \<noteq> [] \<longrightarrow> minMs h = Min (set ds)) \<and>
     maxMs h = Max (insert 0 (set ds)) \<and>
     sumLow h < SUM_ROLLOVER \<and>
     sumHigh h * SUM_ROLLOVER + sumLow h = sum_list ds"

lemma find_bucket_le: "find_bucket ms us \<le> length us"
  by (induction us) auto

lemma bucketOf_less: "bucketOf ms < 13"
  using find_bucket_le [of ms "butlast bucketUpper"] by (simp add: bucketOf_def bucketUpper_def)

lemma find_bucket_upper: "find_bucket ms us < length us \<Longrightarrow> ms \<le> us ! find_bucket ms us"
  by (induction us) auto

lemma find_bucket_lower: "i < find_bucket ms us \<Longrightarrow> us ! i < ms"
proof (induction us arbitrary: i)
  case Nil
  then show ?case by simp
next
  case (Cons u us)
  then show ?case by (cases i) (auto split: if_splits)
qed

lemma lat_rep_reset: "lat_rep latencyReset []"
  by (simp add: lat_rep_def latencyReset_def SUM_ROLLOVER_def map_replicate_const)

lemma bucket_count_step:
  "(map (\<lambda>i. length (filter (\<lambda>m. bucketOf m = i) ds)) [0..<13])
     [bucketOf m := length (filter (\<lambda>x. bucketOf x = bucketOf m) ds) + 1] =
   map (\<lambda>i. length (filter (\<lambda>x. bucketOf x = i) (m # ds))) [0..<13]"
  by (rule nth_equalityI) (auto simp: nth_list_update bucketOf_less)

lemma lat_rep_record:
  assumes "lat_rep h ds"
  shows "lat_rep (latencyRecord d h) (if unat d \<le> 3600000 then unat d # ds else ds)"
proof (cases "unat d \<le> 3600000")
  case False
  with assms show ?thesis by (simp add: latencyRecord_def)
next
  case True
  let ?m = "unat d" and ?h = "latencyRecord d h"
  have B: "buckets h = map (\<lambda>i. length (filter (\<lambda>m. bucketOf m = i) ds)) [0..<13]"
    and T: "totalCount h = length ds" and Mi: "ds \<noteq> [] \<Longrightarrow> minMs h = Min (set ds)"
    and Ma: "maxMs h = Max (insert 0 (set ds))" and Lo: "sumLow h < SUM_ROLLOVER"
    and Su: "sumHigh h * SUM_ROLLOVER + sumLow h = sum_list ds"
    using assms by (auto simp: lat_rep_def)
  have "buckets ?h = (buckets h)[bucketOf ?m := buckets h ! bucketOf ?m + 1]"
    using True by (simp add: latencyRecord_def Let_def)
  also have "buckets h ! bucketOf ?m = length (filter (\<lambda>x. bucketOf x = bucketOf ?m) ds)"
    using bucketOf_less [of ?m] by (simp add: B)
  finally have b: "buckets ?h = map (\<lambda>i. length (filter (\<lambda>x. bucketOf x = i) (?m # ds))) [0..<13]"
    by (simp only: B bucket_count_step)
  have t: "totalCount ?h = length (?m # ds)"
    using True T by (simp add: latencyRecord_def Let_def)
  have mi': "minMs ?h = (if ds = [] \<or> ?m < minMs h then ?m else minMs h)"
    using True T by (simp add: latencyRecord_def Let_def)
  have mi: "minMs ?h = Min (set (?m # ds))"
  proof (cases "ds = []")
    case True
    with mi' show ?thesis by simp
  next
    case False
    have "Min (set (?m # ds)) = min ?m (Min (set ds))" by (simp add: False)
    also have "\<dots> = min ?m (minMs h)" by (simp only: Mi [OF False])
    finally show ?thesis by (simp only: mi' False min_def) auto
  qed
  have ma: "maxMs ?h = Max (insert 0 (set (?m # ds)))"
  proof -
    have "maxMs ?h = max ?m (maxMs h)"
      using True by (simp add: latencyRecord_def Let_def max_def)
    also have "\<dots> = Max (insert ?m (insert 0 (set ds)))" by (simp only: Ma) simp
    finally show ?thesis by (simp only: list.set insert_commute)
  qed
  have s: "sumLow ?h < SUM_ROLLOVER \<and> sumHigh ?h * SUM_ROLLOVER + sumLow ?h = sum_list (?m # ds)"
    using True Lo Su by (auto simp: latencyRecord_def Let_def SUM_ROLLOVER_def)
  from b t mi ma s True show ?thesis by (simp add: lat_rep_def)
qed

lemma lat_rep_fold: "lat_rep h as \<Longrightarrow> lat_rep (fold latencyRecord ds h) (rev (accepted ds) @ as)"
proof (induction ds arbitrary: h as)
  case Nil
  then show ?case by (simp add: accepted_def)
next
  case (Cons d ds)
  from lat_rep_record [OF Cons.prems, of d]
  have "lat_rep (fold latencyRecord ds (latencyRecord d h))
      (rev (accepted ds) @ (if unat d \<le> 3600000 then unat d # as else as))"
    by (rule Cons.IH)
  then show ?case by (auto simp: accepted_def split: if_splits)
qed

lemma lat_rep_session: "lat_rep (fold latencyRecord ds latencyReset) (rev (accepted ds))"
  using lat_rep_fold [OF lat_rep_reset, of ds] by simp

subsection \<open>Bounds and monotonicity of the percentiles\<close>

lemma clamp01_range: "0 \<le> clamp01 f \<and> clamp01 f \<le> 1"
  by (auto simp: clamp01_def Let_def)

lemma clamp01_mono: "f \<le> g \<Longrightarrow> clamp01 f \<le> clamp01 g"
  by (auto simp: clamp01_def Let_def)

lemma bucket_lo_ge: "of_nat lowest \<le> bucket_lo i lowest"
  by (auto simp: bucket_lo_def Let_def)

lemma bucket_lo_le_hi: "bucket_lo i lowest \<le> bucket_hi i lowest highest"
  by (auto simp: bucket_hi_def Let_def)

lemma interpolate_range:
  fixes lo hi :: rat
  assumes "lo \<le> hi"
  shows "lo \<le> lo + clamp01 f * (hi - lo) \<and> lo + clamp01 f * (hi - lo) \<le> hi"
proof
  have c: "0 \<le> clamp01 f" "clamp01 f \<le> 1" using clamp01_range by auto
  show "lo \<le> lo + clamp01 f * (hi - lo)" using c assms by simp
  have "clamp01 f * (hi - lo) \<le> 1 * (hi - lo)"
    by (rule mult_right_mono) (use c assms in auto)
  then show "lo + clamp01 f * (hi - lo) \<le> hi" by simp
qed

text \<open>An occupied bucket's lower edge never exceeds the maximum.\<close>

definition edges_ok :: "nat \<Rightarrow> nat \<Rightarrow> nat \<Rightarrow> nat list \<Rightarrow> bool" where
  "edges_ok lowest highest i cs \<longleftrightarrow>
     lowest \<le> highest \<and> (\<forall>j < length cs. cs ! j \<noteq> 0 \<longrightarrow> bucket_lo (i + j) lowest \<le> of_nat highest)"

lemma edges_ok_Cons:
  "edges_ok lowest highest i (c # cs) \<Longrightarrow>
     edges_ok lowest highest (Suc i) cs \<and> (c \<noteq> 0 \<longrightarrow> bucket_lo i lowest \<le> of_nat highest)"
  by (fastforce simp: edges_ok_def)

lemma bucket_hi_le: "bucket_lo i lowest \<le> of_nat highest \<Longrightarrow> bucket_hi i lowest highest \<le> of_nat highest"
  by (auto simp: bucket_hi_def Let_def)

lemma percentile_walk_range:
  "edges_ok lowest highest i cs \<Longrightarrow>
     of_nat lowest \<le> percentile_walk target lowest highest i cumulative cs \<and>
     percentile_walk target lowest highest i cumulative cs \<le> of_nat highest"
proof (induction cs arbitrary: i cumulative)
  case Nil
  then show ?case by (simp add: edges_ok_def)
next
  case (Cons c cs)
  note e = edges_ok_Cons [OF Cons.prems]
  show ?case
  proof (cases "c \<noteq> 0 \<and> cumulative + of_nat c \<ge> target")
    case False
    with Cons.IH e show ?thesis by auto
  next
    case True
    then have hi: "bucket_hi i lowest highest \<le> of_nat highest"
      using e by (simp add: bucket_hi_le)
    show ?thesis
      using True hi bucket_lo_ge [of lowest i]
        interpolate_range [OF bucket_lo_le_hi, of i lowest "(target - cumulative) / of_nat c" highest]
      by (simp del: of_nat_le_iff)
  qed
qed

lemma nth_butlast_upper: "i < 12 \<Longrightarrow> butlast bucketUpper ! i = bucketUpper ! i"
  by (rule nth_butlast) (simp add: bucketUpper_def)

lemma bucketUpper_mono: "i \<le> j \<Longrightarrow> j < 12 \<Longrightarrow> bucketUpper ! i \<le> bucketUpper ! j"
proof -
  have "sorted (butlast bucketUpper)" by (simp add: bucketUpper_def)
  moreover assume "i \<le> j" "j < 12"
  ultimately have "butlast bucketUpper ! i \<le> butlast bucketUpper ! j"
    by (intro sorted_nth_mono) (auto simp: bucketUpper_def)
  then show ?thesis using \<open>i \<le> j\<close> \<open>j < 12\<close> by (simp add: nth_butlast_upper)
qed

lemma bucketUpper_pos: "i < 12 \<Longrightarrow> bucketUpper ! i \<noteq> 0"
proof -
  assume "i < 12"
  then have "bucketUpper ! i \<ge> bucketUpper ! 0" by (intro bucketUpper_mono) auto
  then show ?thesis by (simp add: bucketUpper_def)
qed

lemma bucket_hi_le_next_lo:
  assumes "i < j" "j < 13" shows "bucket_hi i lowest highest \<le> bucket_lo j lowest"
proof -
  have "bucketUpper ! i \<le> bucketUpper ! (j - 1)" using assms by (intro bucketUpper_mono) auto
  moreover have "i \<noteq> 0 \<Longrightarrow> bucketUpper ! (i - 1) \<le> bucketUpper ! (j - 1)"
    using assms by (intro bucketUpper_mono) auto
  moreover have "bucketUpper ! i \<noteq> 0" using assms by (intro bucketUpper_pos) auto
  ultimately show ?thesis using assms
    by (auto simp: bucket_hi_def bucket_lo_def Let_def)
qed

lemma percentile_walk_ge_hi:
  "k < i \<Longrightarrow> i + length cs \<le> 13 \<Longrightarrow> bucket_lo k lowest \<le> of_nat highest \<Longrightarrow>
     bucket_hi k lowest highest \<le> percentile_walk target lowest highest i cumulative cs"
proof (induction cs arbitrary: i cumulative)
  case Nil
  then show ?case by (simp add: bucket_hi_le)
next
  case (Cons c cs)
  show ?case
  proof (cases "c \<noteq> 0 \<and> cumulative + of_nat c \<ge> target")
    case False
    with Cons show ?thesis by auto
  next
    case True
    have "bucket_hi k lowest highest \<le> bucket_lo i lowest"
      by (rule bucket_hi_le_next_lo) (use Cons.prems in auto)
    also have "\<dots> \<le> bucket_lo i lowest + clamp01 ((target - cumulative) / of_nat c) *
          (bucket_hi i lowest highest - bucket_lo i lowest)"
      using interpolate_range [OF bucket_lo_le_hi] by blast
    finally show ?thesis using True by simp
  qed
qed

lemma percentile_walk_mono:
  "target \<le> target' \<Longrightarrow> edges_ok lowest highest i cs \<Longrightarrow> i + length cs \<le> 13 \<Longrightarrow>
     percentile_walk target lowest highest i cumulative cs \<le>
     percentile_walk target' lowest highest i cumulative cs"
proof (induction cs arbitrary: i cumulative)
  case Nil
  then show ?case by simp
next
  case (Cons c cs)
  note e = edges_ok_Cons [OF Cons.prems(2)]
  show ?case
  proof (cases "c \<noteq> 0 \<and> cumulative + of_nat c \<ge> target")
    case False
    with Cons e show ?thesis by auto
  next
    case stop: True
    let ?d = "bucket_hi i lowest highest - bucket_lo i lowest"
    show ?thesis
    proof (cases "cumulative + of_nat c \<ge> target'")
      case True
      have "clamp01 ((target - cumulative) / of_nat c) \<le> clamp01 ((target' - cumulative) / of_nat c)"
        by (rule clamp01_mono) (use Cons.prems(1) in \<open>simp add: divide_right_mono\<close>)
      then have "clamp01 ((target - cumulative) / of_nat c) * ?d \<le>
          clamp01 ((target' - cumulative) / of_nat c) * ?d"
        by (rule mult_right_mono) (use bucket_lo_le_hi [of i lowest highest] in simp)
      with stop True show ?thesis by simp
    next
      case False
      have "bucket_lo i lowest + clamp01 ((target - cumulative) / of_nat c) * ?d
          \<le> bucket_hi i lowest highest"
        using interpolate_range [OF bucket_lo_le_hi] by blast
      also have "\<dots> \<le> percentile_walk target' lowest highest (Suc i) (cumulative + of_nat c) cs"
        by (rule percentile_walk_ge_hi) (use Cons.prems e stop in auto)
      finally show ?thesis using stop False by simp
    qed
  qed
qed

lemma bucket_lo_le_member:
  assumes "m \<in> set ds" "lowest = Min (set ds)"
  shows "bucket_lo (bucketOf m) lowest \<le> of_nat m"
proof (cases "bucketOf m")
  case 0
  then show ?thesis using assms by (auto simp: bucket_lo_def Let_def)
next
  case (Suc k)
  have "butlast bucketUpper ! k < m"
    by (rule find_bucket_lower) (use Suc in \<open>simp add: bucketOf_def\<close>)
  moreover have "k < 12" using Suc bucketOf_less [of m] by simp
  ultimately have "bucketUpper ! k < m" by (simp add: nth_butlast_upper)
  moreover have "Min (set ds) \<le> m" using assms by simp
  ultimately show ?thesis using assms Suc by (auto simp: bucket_lo_def Let_def)
qed

lemma lat_rep_edges_ok:
  assumes "lat_rep h ds" "ds \<noteq> []"
  shows "edges_ok (minMs h) (maxMs h) 0 (buckets h)"
proof -
  have mi: "minMs h = Min (set ds)" and ma: "maxMs h = Max (insert 0 (set ds))"
    and b: "buckets h = map (\<lambda>i. length (filter (\<lambda>m. bucketOf m = i) ds)) [0..<13]"
    using assms by (auto simp: lat_rep_def)
  have le: "m \<le> maxMs h" if "m \<in> set ds" for m using that by (simp add: ma)
  have "minMs h \<in> set ds" using assms(2) by (simp add: mi)
  then have "minMs h \<le> maxMs h" by (rule le)
  moreover have "bucket_lo j (minMs h) \<le> of_nat (maxMs h)"
    if j: "j < 13" "buckets h ! j \<noteq> 0" for j
  proof -
    from j b have "length (filter (\<lambda>m. bucketOf m = j) ds) \<noteq> 0" by simp
    then have "filter (\<lambda>m. bucketOf m = j) ds \<noteq> []" by simp
    then obtain m where m: "m \<in> set ds" "bucketOf m = j" by (auto simp: filter_empty_conv)
    have "bucket_lo j (minMs h) \<le> of_nat m" using bucket_lo_le_member [OF m(1) mi] m(2) by simp
    also have "\<dots> \<le> of_nat (maxMs h)" using le [OF m(1)] by simp
    finally show ?thesis .
  qed
  ultimately show ?thesis by (auto simp: edges_ok_def b)
qed

subsection \<open>Properties\<close>

text \<open>C17: after a reset and any sequence of recorded delays, the histogram holds exactly the accepted
  delays: each bucket counts those that fall in it, the total, the smallest, the largest and the
  two-part sum are theirs.\<close>

theorem latency_histogram_exact:
  "lat_rep (fold latencyRecord ds latencyReset) (rev (accepted ds))"
  by (rule lat_rep_session)

text \<open>an estimated percentile never leaves the range of the recorded delays, although it is
  interpolated inside a bucket.\<close>

theorem latency_percentile_within:
  assumes "accepted ds \<noteq> []"
  shows "of_nat (Min (set (accepted ds))) \<le> latencyPercentile pct (fold latencyRecord ds latencyReset) \<and>
    latencyPercentile pct (fold latencyRecord ds latencyReset) \<le> of_nat (Max (set (accepted ds)))"
proof -
  let ?h = "fold latencyRecord ds latencyReset"
  note rep = lat_rep_session [of ds]
  have ne: "rev (accepted ds) \<noteq> []" using assms by simp
  have "minMs ?h = Min (set (accepted ds))" "maxMs ?h = Max (insert 0 (set (accepted ds)))" "totalCount ?h \<noteq> 0"
    using rep assms by (simp_all add: lat_rep_def)
  moreover have "Max (insert 0 (set (accepted ds))) = Max (set (accepted ds))" using assms by simp
  ultimately show ?thesis
    using percentile_walk_range [OF lat_rep_edges_ok [OF rep ne]] by (simp add: latencyPercentile_def Let_def)
qed

theorem latency_percentile_within_witness:
  "of_nat (Min (set (accepted [5, 300]))) \<le> latencyPercentile 95 (fold latencyRecord [5, 300] latencyReset) \<and>
    latencyPercentile 95 (fold latencyRecord [5, 300] latencyReset) \<le> of_nat (Max (set (accepted [5, 300])))"
  by (rule latency_percentile_within) (simp add: accepted_def)

text \<open>A higher percentile is never estimated lower.\<close>

theorem latency_percentile_monotone:
  assumes "pct \<le> pct'"
  shows "latencyPercentile pct (fold latencyRecord ds latencyReset) \<le>
    latencyPercentile pct' (fold latencyRecord ds latencyReset)"
proof (cases "accepted ds = []")
  case True
  then have "totalCount (fold latencyRecord ds latencyReset) = 0"
    using lat_rep_session [of ds] by (simp add: lat_rep_def)
  then show ?thesis by (simp add: latencyPercentile_def)
next
  case False
  let ?h = "fold latencyRecord ds latencyReset"
  note rep = lat_rep_session [of ds]
  have ne: "rev (accepted ds) \<noteq> []" using False by simp
  have len: "length (buckets ?h) = 13" and pos: "totalCount ?h \<noteq> 0" using rep False by (simp_all add: lat_rep_def)
  let ?c = "\<lambda>p :: rat. let p = (if p < 0 then 0 else p) in if p > 100 then 100 else p"
  have "?c pct \<le> ?c pct'" using assms by (auto simp: Let_def)
  then have "of_nat (totalCount ?h) * ?c pct / 100 \<le> of_nat (totalCount ?h) * ?c pct' / 100"
    by (simp add: divide_right_mono mult_left_mono)
  from percentile_walk_mono [OF this lat_rep_edges_ok [OF rep ne]] len pos
  show ?thesis by (simp only: latencyPercentile_def Let_def if_False)
qed

theorem latency_percentile_monotone_witness:
  "latencyPercentile 50 (fold latencyRecord [5, 300, 20] latencyReset) \<le>
    latencyPercentile 95 (fold latencyRecord [5, 300, 20] latencyReset)"
  by (rule latency_percentile_monotone) simp

end
