(* ===== verification/Packet.thy ===== *)
theory Packet
  imports Latency
begin

text \<open>
  Packets, the process-wide environment a module may touch, and the node life cycle:
  \<^verbatim>\<open>PacketMeta\<close>, \<^verbatim>\<open>PacketNode\<close> (common.h), \<^verbatim>\<open>createNode\<close>, \<^verbatim>\<open>cloneNode\<close>, \<^verbatim>\<open>freeNode\<close> (packet.cpp),
  the NFQUEUE backend's \<^verbatim>\<open>settleVerdict\<close>, \<^verbatim>\<open>packetBackendOnFree\<close> and \<^verbatim>\<open>packetBackendPrepareClone\<close>
  (divert_linux.cpp), and \<^verbatim>\<open>calcChance\<close>, \<^verbatim>\<open>randUnit\<close> (utils.cpp).

  The environment holds what comes from outside the process as given sequences: the values
  \<^verbatim>\<open>rand()\<close> returns (31 bits, glibc's \<^verbatim>\<open>RAND_MAX\<close>), whether each \<^verbatim>\<open>malloc\<close> succeeds and the
  readings of the millisecond clock. The kernel side of the queue is the list of the verdicts
  issued so far, in order.

  The ledger of a list of packets is the multiset of the queue ids that are still owed an answer
  plus those already answered. Every operation here keeps it, which is how the exactly-one-verdict
  property of the pipeline is proved.
\<close>

subsection \<open>Packets\<close>

record packet_meta =
  outbound :: bool
  ipVersion :: nat
  loopback :: bool
  impostor :: bool
  ifIdx :: u32
  subIfIdx :: u32

record linux_meta =
  packetId :: u32
  verdictIssued :: bool
  synthetic :: bool

text \<open>\<^verbatim>\<open>packetLen\<close> is the length of the data; \<^verbatim>\<open>prev\<close> and \<^verbatim>\<open>next\<close> are the list a packet is in.\<close>

record packet =
  pdata :: "u8 list"
  meta :: packet_meta
  backend :: linux_meta
  timestamp :: u32
  enqueueTime :: u32

definition packetLen :: "packet \<Rightarrow> nat" where
  "packetLen p = length (pdata p)"

definition zero_meta :: packet_meta where
  "zero_meta = \<lparr>outbound = False, ipVersion = 0, loopback = False, impostor = False,
     ifIdx = 0, subIfIdx = 0\<rparr>"

definition zero_backend :: linux_meta where
  "zero_backend = \<lparr>packetId = 0, verdictIssued = False, synthetic = False\<rparr>"

text \<open>What \<^verbatim>\<open>nfq_set_verdict\<close> is called with: accept hands the bytes back.\<close>

datatype verdict = NF_ACCEPT "u8 list" | NF_DROP

subsection \<open>The environment\<close>

record env =
  rand_src :: "nat \<Rightarrow> 31 word"
  rand_pos :: nat
  mem_src :: "nat \<Rightarrow> bool"
  mem_pos :: nat
  clock_src :: "nat \<Rightarrow> u32"
  clock_pos :: nat
  resolutionSet :: bool
  nfqQueue :: bool
  verdicts :: "(u32 \<times> verdict) list"
  hist :: latency

definition c_rand :: "env \<Rightarrow> nat \<times> env" where
  "c_rand e = (unat (rand_src e (rand_pos e)), e\<lparr>rand_pos := rand_pos e + 1\<rparr>)"

definition c_malloc :: "env \<Rightarrow> bool \<times> env" where
  "c_malloc e = (mem_src e (mem_pos e), e\<lparr>mem_pos := mem_pos e + 1\<rparr>)"

definition timeGetTime :: "env \<Rightarrow> u32 \<times> env" where
  "timeGetTime e = (clock_src e (clock_pos e), e\<lparr>clock_pos := clock_pos e + 1\<rparr>)"

definition startTimePeriod :: "env \<Rightarrow> env" where
  "startTimePeriod e = (if \<not> resolutionSet e then e\<lparr>resolutionSet := True\<rparr> else e)"

definition endTimePeriod :: "env \<Rightarrow> env" where
  "endTimePeriod e = (if resolutionSet e then e\<lparr>resolutionSet := False\<rparr> else e)"

definition record_latency :: "u32 \<Rightarrow> env \<Rightarrow> env" where
  "record_latency d e = e\<lparr>hist := latencyRecord d (hist e)\<rparr>"

text \<open>\<^verbatim>\<open>(chance == 10000) || ((rand() % 10000) < chance)\<close>: no draw when the chance is 100 %.\<close>

definition calcChance :: "int \<Rightarrow> env \<Rightarrow> bool \<times> env" where
  "calcChance chance e =
     (if chance = 10000 then (True, e)
      else (case c_rand e of (r, e) \<Rightarrow> (int (r mod 10000) < chance, e)))"

text \<open>The half-step keeps the result strictly between 0 and 1.\<close>

definition randUnit :: "env \<Rightarrow> real \<times> env" where
  "randUnit e = (case c_rand e of (r, e) \<Rightarrow> ((of_nat r + 1/2) / 2147483648, e))"

definition checkDirection :: "bool \<Rightarrow> bool \<Rightarrow> bool \<Rightarrow> bool" where
  "checkDirection outboundPacket handleIn handleOut \<longleftrightarrow>
     (handleIn \<and> \<not> outboundPacket) \<or> (handleOut \<and> outboundPacket)"

subsection \<open>Node life cycle\<close>

text \<open>The verdict is issued at most once, and never for a clone or without a queue.\<close>

definition settleVerdict :: "packet \<Rightarrow> bool \<Rightarrow> env \<Rightarrow> packet \<times> env" where
  "settleVerdict node accept e =
     (let m = backend node in
      if synthetic m \<or> verdictIssued m \<or> packetId m = 0 \<or> \<not> nfqQueue e then (node, e)
      else (node\<lparr>backend := m\<lparr>verdictIssued := True\<rparr>\<rparr>,
            e\<lparr>verdicts := verdicts e @
              [(packetId m, if accept then NF_ACCEPT (pdata node) else NF_DROP)]\<rparr>))"

definition packetBackendOnFree :: "packet \<Rightarrow> env \<Rightarrow> env" where
  "packetBackendOnFree node e = snd (settleVerdict node False e)"

definition packetBackendPrepareClone :: "packet \<Rightarrow> packet" where
  "packetBackendPrepareClone dst = dst\<lparr>backend := zero_backend\<lparr>synthetic := True\<rparr>\<rparr>"

definition createNode ::
  "u8 list \<Rightarrow> packet_meta option \<Rightarrow> linux_meta option \<Rightarrow> env \<Rightarrow> packet option \<times> env" where
  "createNode buf m bm e =
     (case c_malloc e of (ok, e) \<Rightarrow>
        if \<not> ok then (None, e)
        else (case c_malloc e of (ok, e) \<Rightarrow>
          if \<not> ok then (None, e)
          else (Some \<lparr>pdata = buf,
                      meta = (case m of Some m \<Rightarrow> m | None \<Rightarrow> zero_meta),
                      backend = (case bm of Some b \<Rightarrow> b | None \<Rightarrow> zero_backend),
                      timestamp = 0, enqueueTime = 0\<rparr>, e)))"

definition cloneNode :: "packet \<Rightarrow> env \<Rightarrow> packet option \<times> env" where
  "cloneNode src e =
     (case createNode (pdata src) (Some (meta src)) None e of
        (None, e) \<Rightarrow> (None, e)
      | (Some copy, e) \<Rightarrow> (Some (packetBackendPrepareClone copy), e))"

definition freeNode :: "packet \<Rightarrow> env \<Rightarrow> env" where
  "freeNode node e = packetBackendOnFree node e"

subsection \<open>The ledger of owed and issued verdicts\<close>

definition owed :: "packet \<Rightarrow> u32 multiset" where
  "owed p = (let m = backend p in
     if synthetic m \<or> verdictIssued m \<or> packetId m = 0 then {#} else {#packetId m#})"

definition owed_all :: "packet list \<Rightarrow> u32 multiset" where
  "owed_all ps = sum_list (map owed ps)"

definition answered :: "env \<Rightarrow> u32 multiset" where
  "answered e = mset (map fst (verdicts e))"

definition ledger :: "packet list \<Rightarrow> env \<Rightarrow> u32 multiset" where
  "ledger ps e = owed_all ps + answered e"

lemma owed_all_Nil [simp]: "owed_all [] = {#}"
  by (simp add: owed_all_def)

lemma owed_all_Cons [simp]: "owed_all (p # ps) = owed p + owed_all ps"
  by (simp add: owed_all_def)

lemma owed_all_append [simp]: "owed_all (ps @ qs) = owed_all ps + owed_all qs"
  by (simp add: owed_all_def)

lemma owed_all_rev [simp]: "owed_all (rev ps) = owed_all ps"
  by (simp add: owed_all_def sum_list_map_rev)

lemma owed_all_mset: "mset ps = mset qs \<Longrightarrow> owed_all ps = owed_all qs"
  unfolding owed_all_def by (metis mset_map sum_mset_sum_list)

lemma owed_all_take_hits:
  "take_hits n hit rs = (a, b) \<Longrightarrow> owed_all a + owed_all b = owed_all rs"
  using take_hits_mset [of n hit rs] owed_all_mset [of "a @ b" rs] by simp

lemma owed_all_map: "(\<And>p. p \<in> set ps \<Longrightarrow> owed (f p) = owed p) \<Longrightarrow> owed_all (map f ps) = owed_all ps"
  by (induction ps) auto

lemma owed_simps [simp]:
  "owed (p\<lparr>timestamp := t\<rparr>) = owed p"
  "owed (p\<lparr>enqueueTime := t\<rparr>) = owed p"
  "owed (p\<lparr>pdata := d\<rparr>) = owed p"
  by (simp_all add: owed_def)

text \<open>Operations that only draw from a source, read the clock or record a delay.\<close>

definition quiet :: "env \<Rightarrow> env \<Rightarrow> bool" where
  "quiet e e' \<longleftrightarrow> verdicts e' = verdicts e \<and> nfqQueue e' = nfqQueue e"

lemma quiet_refl [simp]: "quiet e e"
  by (simp add: quiet_def)

lemma quiet_trans: "quiet e e' \<Longrightarrow> quiet e' e'' \<Longrightarrow> quiet e e''"
  by (simp add: quiet_def)

lemma quiet_c_rand: "c_rand e = (r, e') \<Longrightarrow> quiet e e'"
  by (auto simp: c_rand_def quiet_def)

lemma quiet_timeGetTime: "timeGetTime e = (t, e') \<Longrightarrow> quiet e e'"
  by (auto simp: timeGetTime_def quiet_def)

lemma quiet_calcChance: "calcChance c e = (b, e') \<Longrightarrow> quiet e e'"
  by (auto simp: calcChance_def quiet_def c_rand_def split: if_splits)

lemma quiet_randUnit: "randUnit e = (r, e') \<Longrightarrow> quiet e e'"
  by (auto simp: randUnit_def quiet_def c_rand_def)

lemma quiet_simps [simp]:
  "quiet e (record_latency d e)"
  "quiet e (startTimePeriod e)"
  "quiet e (endTimePeriod e)"
  by (auto simp: quiet_def record_latency_def startTimePeriod_def endTimePeriod_def)

lemma quiet_createNode: "createNode b m bm e = (r, e') \<Longrightarrow> quiet e e'"
  by (auto simp: createNode_def c_malloc_def quiet_def split: prod.splits if_splits)

lemma quiet_cloneNode: "cloneNode src e = (r, e') \<Longrightarrow> quiet e e'"
  by (auto simp: cloneNode_def quiet_createNode split: prod.splits option.splits)

lemma quiet_answered: "quiet e e' \<Longrightarrow> answered e' = answered e \<and> nfqQueue e' = nfqQueue e"
  by (simp add: quiet_def answered_def)

text \<open>A freed packet moves from the owed to the answered side.\<close>

lemma answered_freeNode:
  "nfqQueue e \<Longrightarrow> answered (freeNode p e) = answered e + owed p"
  by (simp add: freeNode_def packetBackendOnFree_def settleVerdict_def owed_def answered_def Let_def)

lemma nfqQueue_freeNode [simp]: "nfqQueue (freeNode p e) = nfqQueue e"
  by (simp add: freeNode_def packetBackendOnFree_def settleVerdict_def Let_def)

lemma settleVerdict_ledger:
  "settleVerdict p acc e = (p', e') \<Longrightarrow> nfqQueue e \<Longrightarrow>
     owed p' = {#} \<and> answered e' = answered e + owed p \<and> nfqQueue e'"
  by (auto simp: settleVerdict_def owed_def answered_def Let_def split: if_splits)

text \<open>A clone owes the kernel nothing and carries the original's bytes and direction.\<close>

lemma cloneNode_Some:
  "cloneNode src e = (Some c, e') \<Longrightarrow>
     owed c = {#} \<and> synthetic (backend c) \<and> pdata c = pdata src \<and> meta c = meta src"
  by (auto simp: cloneNode_def createNode_def packetBackendPrepareClone_def owed_def Let_def
      split: prod.splits option.splits if_splits)

lemma randUnit_range: "randUnit e = (r, e') \<Longrightarrow> 0 < r \<and> r < 1"
proof -
  assume u: "randUnit e = (r, e')"
  obtain n where n: "n = unat (rand_src e (rand_pos e))" by simp
  then have "n < 2 ^ 31" using unsigned_less [of "rand_src e (rand_pos e)"] by simp
  then have "real n \<le> 2147483647" by simp
  moreover have "r = (of_nat n + 1/2) / 2147483648"
    using u n by (auto simp: randUnit_def c_rand_def)
  moreover have "0 \<le> real n" by simp
  ultimately show ?thesis by simp
qed

subsection \<open>A concrete environment\<close>

text \<open>
  Draws that are all zero, memory that never runs out, a clock that stands at \<open>t\<close>, an open queue.
  The examples of the later theories run in it.
\<close>

definition env_at :: "u32 \<Rightarrow> env" where
  "env_at t = \<lparr>rand_src = \<lambda>_. 0, rand_pos = 0, mem_src = \<lambda>_. True, mem_pos = 0,
     clock_src = \<lambda>_. t, clock_pos = 0, resolutionSet = False, nfqQueue = True, verdicts = [],
     hist = latencyReset\<rparr>"

definition packet_of :: "u32 \<Rightarrow> bool \<Rightarrow> u8 list \<Rightarrow> packet" where
  "packet_of i out d = \<lparr>pdata = d, meta = zero_meta\<lparr>outbound := out, ipVersion := 4\<rparr>,
     backend = zero_backend\<lparr>packetId := i\<rparr>, timestamp = 0, enqueueTime = 0\<rparr>"

lemma env_at_simps [simp]:
  "timeGetTime (env_at t) = (t, env_at t\<lparr>clock_pos := 1\<rparr>)"
  "nfqQueue (env_at t)" "verdicts (env_at t) = []"
  by (simp_all add: timeGetTime_def env_at_def)

end
