(* ===== verification/Module_Base.thy ===== *)
theory Module_Base
  imports Packet
begin

text \<open>
  The \<^verbatim>\<open>Module\<close> interface of \<^verbatim>\<open>src/src/common.h\<close> and the part of \<^verbatim>\<open>divertConsumeStep\<close> that drives
  one module. The fields every module has (the enabled flag behind \<^verbatim>\<open>enabledFlag\<close>, the two direction
  flags, the run-time fields of \<^verbatim>\<open>Module\<close>) are \<open>module_base\<close>; the modules with a delay buffer extend
  it by \<open>buffered\<close>. A module's own theory extends these records by its parameters.

  The locale \<open>packet_module\<close> is the contract the pipeline relies on: starting, processing and
  closing keep the module's invariant and the ledger of owed and issued verdicts.
  \<open>bounded_module\<close> adds a bound on what the module holds back. Every module theory interprets one
  of them on its own definitions.
\<close>

record module_base =
  enabledFlag :: bool
  handleInbound :: bool
  handleOutbound :: bool
  lastEnabled :: bool
  processTriggered :: u16
  affectedCount :: u64

text \<open>
  \<open>bufLinked\<close>: the buffer's sentinels have been linked, which \<^verbatim>\<open>startUp\<close> does on its first call; before
  that \<^verbatim>\<open>bufHead->next\<close> is NULL. \<open>buf\<close> is the list from \<^verbatim>\<open>bufHead\<close> to \<^verbatim>\<open>bufTail\<close>, so its last
  element is the oldest packet.
\<close>

record buffered = module_base +
  bufLinked :: bool
  buf :: "packet list"
  bufSize :: nat

definition module_defaults :: module_base where
  "module_defaults = \<lparr>enabledFlag = False, handleInbound = True, handleOutbound = True,
     lastEnabled = False, processTriggered = 0, affectedCount = 0\<rparr>"

text \<open>The direction test every \<^verbatim>\<open>process\<close> applies to a packet.\<close>

definition dir_match :: "'x module_base_scheme \<Rightarrow> packet \<Rightarrow> bool" where
  "dir_match m p = checkDirection (outbound (meta p)) (handleInbound m) (handleOutbound m)"

definition count_affected :: "'x module_base_scheme \<Rightarrow> 'x module_base_scheme" where
  "count_affected m = m\<lparr>affectedCount := affectedCount m + 1\<rparr>"

subsection \<open>Shared parts of the buffered modules\<close>

text \<open>
  \<^verbatim>\<open>bufferStartUp\<close>: the first call links the sentinels; later calls only assert that the buffer is
  empty, which does nothing in a release build.
\<close>

definition bufferStartUp :: "'x buffered_scheme \<Rightarrow> env \<Rightarrow> 'x buffered_scheme \<times> env" where
  "bufferStartUp m e =
     (if \<not> bufLinked m then (m\<lparr>bufLinked := True, buf := [], bufSize := 0\<rparr>, startTimePeriod e)
      else (m, startTimePeriod e))"

text \<open>
  \<^verbatim>\<open>bufferCloseDown\<close>: the drain loop (\<open>drain_all\<close> of theory \<open>Node_List\<close> is the same loop on
  pointers) appends the buffer to the main list. On sentinels that were never linked it
  dereferences NULL, which is \<open>None\<close>.
\<close>

definition bufferCloseDown ::
  "'x buffered_scheme \<Rightarrow> packet list \<Rightarrow> env \<Rightarrow> ('x buffered_scheme \<times> packet list \<times> env) option" where
  "bufferCloseDown m xs e =
     (if \<not> bufLinked m then None
      else Some (m\<lparr>buf := [], bufSize := bufSize m - length (buf m)\<rparr>, xs @ buf m, endTimePeriod e))"

definition buffered_wf :: "nat \<Rightarrow> 'x buffered_scheme \<Rightarrow> bool" where
  "buffered_wf cap m \<longleftrightarrow> bufSize m = length (buf m) \<and> length (buf m) \<le> cap \<and> (\<not> bufLinked m \<longrightarrow> buf m = [])"

subsection \<open>Driving one module\<close>

text \<open>The body of the module loop of \<^verbatim>\<open>divertConsumeStep\<close>.\<close>

definition run_module ::
  "('x module_base_scheme \<Rightarrow> env \<Rightarrow> 'x module_base_scheme \<times> env) \<Rightarrow>
   ('x module_base_scheme \<Rightarrow> packet list \<Rightarrow> env \<Rightarrow> 'x module_base_scheme \<times> packet list \<times> env \<times> bool) \<Rightarrow>
   ('x module_base_scheme \<Rightarrow> packet list \<Rightarrow> env \<Rightarrow> ('x module_base_scheme \<times> packet list \<times> env) option) \<Rightarrow>
   'x module_base_scheme \<Rightarrow> packet list \<Rightarrow> env \<Rightarrow> ('x module_base_scheme \<times> packet list \<times> env) option" where
  "run_module startUp process closeDown m xs e =
     (if enabledFlag m then
        (case (if \<not> lastEnabled m
               then (case startUp m e of (m, e) \<Rightarrow> (m\<lparr>lastEnabled := True\<rparr>, e))
               else (m, e)) of (m, e) \<Rightarrow>
         (case process m xs e of (m, xs, e, triggered) \<Rightarrow>
            Some ((if triggered then m\<lparr>processTriggered := processTriggered m + 1\<rparr> else m), xs, e)))
      else if lastEnabled m then
        (case closeDown m xs e of None \<Rightarrow> None
         | Some (m, xs, e) \<Rightarrow> Some (m\<lparr>lastEnabled := False\<rparr>, xs, e))
      else Some (m, xs, e))"

text \<open>The body of the closing loop of \<^verbatim>\<open>divertClockLoop\<close>: it looks at the enabled flag only.\<close>

definition stop_module ::
  "('x module_base_scheme \<Rightarrow> packet list \<Rightarrow> env \<Rightarrow> ('x module_base_scheme \<times> packet list \<times> env) option) \<Rightarrow>
   'x module_base_scheme \<Rightarrow> packet list \<Rightarrow> env \<Rightarrow> ('x module_base_scheme \<times> packet list \<times> env) option" where
  "stop_module closeDown m xs e = (if enabledFlag m then closeDown m xs e else Some (m, xs, e))"

subsection \<open>The contract of a module\<close>

locale packet_module =
  fixes startUp :: "'x module_base_scheme \<Rightarrow> env \<Rightarrow> 'x module_base_scheme \<times> env"
    and process :: "'x module_base_scheme \<Rightarrow> packet list \<Rightarrow> env \<Rightarrow>
      'x module_base_scheme \<times> packet list \<times> env \<times> bool"
    and closeDown :: "'x module_base_scheme \<Rightarrow> packet list \<Rightarrow> env \<Rightarrow>
      ('x module_base_scheme \<times> packet list \<times> env) option"
    and held :: "'x module_base_scheme \<Rightarrow> packet list"
    and wf :: "'x module_base_scheme \<Rightarrow> bool"
    and ready :: "'x module_base_scheme \<Rightarrow> bool"
  assumes bookkeeping:
      "held (s\<lparr>lastEnabled := b\<rparr>) = held s" "held (s\<lparr>processTriggered := n\<rparr>) = held s"
      "wf (s\<lparr>lastEnabled := b\<rparr>) = wf s" "wf (s\<lparr>processTriggered := n\<rparr>) = wf s"
      "ready (s\<lparr>lastEnabled := b\<rparr>) = ready s" "ready (s\<lparr>processTriggered := n\<rparr>) = ready s"
    and startUp: "wf s \<Longrightarrow> startUp s e = (s', e') \<Longrightarrow>
      wf s' \<and> ready s' \<and> held s' = held s \<and> quiet e e' \<and> enabledFlag s' = enabledFlag s"
    and process: "wf s \<Longrightarrow> ready s \<Longrightarrow> nfqQueue e \<Longrightarrow> process s xs e = (s', xs', e', t) \<Longrightarrow>
      wf s' \<and> ready s' \<and> nfqQueue e' \<and> enabledFlag s' = enabledFlag s \<and>
      lastEnabled s' = lastEnabled s \<and>
      ledger (xs' @ held s') e' = ledger (xs @ held s) e"
    and closeDown: "wf s \<Longrightarrow> ready s \<Longrightarrow>
      \<exists>s' xs' e'. closeDown s xs e = Some (s', xs', e') \<and> wf s' \<and> ready s' \<and> held s' = [] \<and>
        quiet e e' \<and> enabledFlag s' = enabledFlag s \<and> owed_all xs' = owed_all (xs @ held s)"
begin

definition mod_inv :: "'x module_base_scheme \<Rightarrow> bool" where
  "mod_inv s \<longleftrightarrow> wf s \<and> (lastEnabled s \<longrightarrow> ready s)"

lemma mod_inv_wf: "mod_inv s \<Longrightarrow> wf s"
  by (simp add: mod_inv_def)

lemma run_module_ok:
  assumes inv: "mod_inv s" and q: "nfqQueue e"
  shows "\<exists>s' xs' e'. run_module startUp process closeDown s xs e = Some (s', xs', e') \<and>
    mod_inv s' \<and> nfqQueue e' \<and> enabledFlag s' = enabledFlag s \<and> lastEnabled s' = enabledFlag s \<and>
    (\<not> enabledFlag s \<and> lastEnabled s \<longrightarrow> held s' = []) \<and>
    (\<not> enabledFlag s \<and> \<not> lastEnabled s \<longrightarrow> held s' = held s) \<and>
    ledger (xs' @ held s') e' = ledger (xs @ held s) e"
proof (cases "enabledFlag s")
  case False
  show ?thesis
  proof (cases "lastEnabled s")
    case True
    with inv obtain s' xs' e' where c: "closeDown s xs e = Some (s', xs', e')" "wf s'" "ready s'"
      "held s' = []" "quiet e e'" "enabledFlag s' = enabledFlag s" "owed_all xs' = owed_all (xs @ held s)"
      using closeDown [of s xs e] by (auto simp: mod_inv_def)
    with False True q show ?thesis
      by (auto simp: run_module_def mod_inv_def bookkeeping ledger_def dest: quiet_answered)
  next
    case notlast: False
    with False inv q show ?thesis by (simp add: run_module_def)
  qed
next
  case True
  obtain s1 e1 where s1: "(if \<not> lastEnabled s
      then (case startUp s e of (m, e) \<Rightarrow> (m\<lparr>lastEnabled := True\<rparr>, e)) else (s, e)) = (s1, e1)"
    by (metis surj_pair)
  have st: "wf s1 \<and> ready s1 \<and> held s1 = held s \<and> quiet e e1 \<and> lastEnabled s1 \<and> enabledFlag s1"
  proof (cases "lastEnabled s")
    case l: True
    with s1 inv True show ?thesis by (simp add: mod_inv_def)
  next
    case l: False
    obtain s0 e0 where s0: "startUp s e = (s0, e0)" by (metis surj_pair)
    with l s1 have "s1 = s0\<lparr>lastEnabled := True\<rparr>" "e1 = e0" by auto
    with startUp [OF mod_inv_wf [OF inv] s0] True show ?thesis by (simp add: bookkeeping)
  qed
  obtain s2 xs2 e2 t where s2: "process s1 xs e1 = (s2, xs2, e2, t)" by (metis prod_cases4)
  have "nfqQueue e1" using st q by (simp add: quiet_def)
  with process [OF _ _ _ s2] st have p: "wf s2 \<and> ready s2 \<and> nfqQueue e2 \<and> enabledFlag s2 \<and>
    lastEnabled s2 \<and> ledger (xs2 @ held s2) e2 = ledger (xs @ held s) e1" by simp
  have "ledger (xs @ held s) e1 = ledger (xs @ held s) e"
    using st quiet_answered by (simp add: ledger_def)
  with p have "ledger (xs2 @ held s2) e2 = ledger (xs @ held s) e" by simp
  with True s1 s2 p show ?thesis
    by (simp add: run_module_def mod_inv_def bookkeeping split del: if_split) (simp add: bookkeeping)
qed

lemma stop_module_ok:
  assumes "mod_inv s" and "enabledFlag s \<longrightarrow> ready s"
  shows "\<exists>s' xs' e'. stop_module closeDown s xs e = Some (s', xs', e') \<and> mod_inv s' \<and> quiet e e' \<and>
    (enabledFlag s \<longrightarrow> held s' = []) \<and> (\<not> enabledFlag s \<longrightarrow> held s' = held s) \<and>
    owed_all (xs' @ held s') = owed_all (xs @ held s)"
  using closeDown [OF mod_inv_wf [OF assms(1)], of xs e] assms
  by (auto simp: stop_module_def mod_inv_def)

end

text \<open>A module that never holds back more than \<open>cap\<close> packets.\<close>

locale bounded_module = packet_module startUp process closeDown held wf ready
  for startUp :: "'x module_base_scheme \<Rightarrow> env \<Rightarrow> 'x module_base_scheme \<times> env"
    and process closeDown held wf ready +
  fixes cap :: nat
  assumes held_bound: "wf s \<Longrightarrow> length (held s) \<le> cap"
begin

lemma run_module_bound:
  assumes "mod_inv s" "nfqQueue e" "run_module startUp process closeDown s xs e = Some (s', xs', e')"
  shows "length (held s') \<le> cap"
  using run_module_ok [OF assms(1,2), of xs] assms(3) held_bound mod_inv_wf by fastforce

lemma stop_module_bound:
  assumes "mod_inv s" "enabledFlag s \<longrightarrow> ready s" "stop_module closeDown s xs e = Some (s', xs', e')"
  shows "length (held s') \<le> cap"
  using stop_module_ok [OF assms(1,2), of xs e] assms(3) held_bound mod_inv_wf by fastforce

end

subsection \<open>Facts the module theories share\<close>

lemma dir_match_count [simp]: "dir_match (count_affected m) p = dir_match m p"
  by (simp add: dir_match_def count_affected_def)

lemma count_affected_simps [simp]:
  "enabledFlag (count_affected m) = enabledFlag m"
  "handleInbound (count_affected m) = handleInbound m"
  "handleOutbound (count_affected m) = handleOutbound m"
  "lastEnabled (count_affected m) = lastEnabled m"
  "processTriggered (count_affected m) = processTriggered m"
  "affectedCount (count_affected m) = affectedCount m + 1"
  "module_base.more (count_affected m) = module_base.more m"
  by (simp_all add: count_affected_def)

lemma buffered_count_affected [simp]:
  "bufLinked (count_affected m) = bufLinked m"
  "buf (count_affected m) = buf m"
  "bufSize (count_affected m) = bufSize m"
  for m :: "'x buffered_scheme"
  by (simp_all add: count_affected_def)

lemma bufferStartUp_contract:
  "buffered_wf cap m \<Longrightarrow> bufferStartUp m e = (m', e') \<Longrightarrow>
     buffered_wf cap m' \<and> bufLinked m' \<and> buf m' = buf m \<and> quiet e e' \<and> enabledFlag m' = enabledFlag m"
  by (auto simp: bufferStartUp_def buffered_wf_def split: if_splits)

lemma bufferCloseDown_contract:
  "buffered_wf cap m \<Longrightarrow> bufLinked m \<Longrightarrow>
     \<exists>m' xs' e'. bufferCloseDown m xs e = Some (m', xs', e') \<and> buffered_wf cap m' \<and> bufLinked m' \<and>
       buf m' = [] \<and> quiet e e' \<and> enabledFlag m' = enabledFlag m \<and>
       owed_all xs' = owed_all (xs @ buf m)"
  by (simp add: bufferCloseDown_def buffered_wf_def)

lemma buffered_wf_bookkeeping [simp]:
  "buffered_wf cap (m\<lparr>lastEnabled := b\<rparr>) = buffered_wf cap m"
  "buffered_wf cap (m\<lparr>processTriggered := n\<rparr>) = buffered_wf cap m"
  "buffered_wf cap (count_affected m) = buffered_wf cap m"
  by (simp_all add: buffered_wf_def)

text \<open>Freeing every packet of a list, in order.\<close>

lemma free_all:
  "nfqQueue e \<Longrightarrow> nfqQueue (fold freeNode ps e) \<and> answered (fold freeNode ps e) = answered e + owed_all ps"
  by (induction ps arbitrary: e) (simp_all add: answered_freeNode ac_simps)

subsection \<open>One pass over the packets\<close>

text \<open>
  \<^verbatim>\<open>checkDirection(...) && calcChance(chance)\<close>: no random draw for a packet in an unhandled
  direction.
\<close>

definition chosen :: "'x module_base_scheme \<Rightarrow> int \<Rightarrow> packet \<Rightarrow> env \<Rightarrow> bool \<times> env" where
  "chosen m chance p e = (if dir_match m p then calcChance chance e else (False, e))"

text \<open>
  The loop from \<^verbatim>\<open>head->next\<close> to \<^verbatim>\<open>tail\<close> of the modules that drop, copy or rewrite packets. The body
  gives what stands in the place of its packet afterwards: nothing, the packet, or copies and it.
\<close>

fun packet_loop ::
  "('s \<Rightarrow> packet \<Rightarrow> env \<Rightarrow> 's \<times> packet list \<times> env) \<Rightarrow> 's \<Rightarrow> packet list \<Rightarrow> env \<Rightarrow> 's \<times> packet list \<times> env" where
  "packet_loop body s [] e = (s, [], e)"
| "packet_loop body s (p # ps) e =
     (case body s p e of (s, out, e) \<Rightarrow>
      case packet_loop body s ps e of (s, ps, e) \<Rightarrow> (s, out @ ps, e))"

lemma packet_loop_Cons:
  assumes "packet_loop body s (p # ps) e = (s', xs', e')"
  obtains s1 out e1 ys where "body s p e = (s1, out, e1)" "packet_loop body s1 ps e1 = (s', ys, e')"
    "xs' = out @ ys"
  using assms by (auto split: prod.splits)

lemma calcChance_env: "calcChance c e = (b, e') \<Longrightarrow> answered e' = answered e \<and> nfqQueue e' = nfqQueue e"
  by (rule quiet_answered [OF quiet_calcChance])

lemma calcChance_0: "calcChance 0 e = (b, e') \<Longrightarrow> \<not> b"
  by (auto simp: calcChance_def split: prod.splits)

lemma calcChance_10000: "calcChance 10000 e = (True, e)"
  by (simp add: calcChance_def)

lemma timeGetTime_env: "timeGetTime e = (t, e') \<Longrightarrow> answered e' = answered e \<and> nfqQueue e' = nfqQueue e"
  by (rule quiet_answered [OF quiet_timeGetTime])

lemma quiet_chosen: "chosen m c p e = (b, e') \<Longrightarrow> quiet e e'"
  by (auto simp: chosen_def quiet_calcChance split: if_splits)

lemma chosen_env: "chosen m c p e = (b, e') \<Longrightarrow> answered e' = answered e \<and> nfqQueue e' = nfqQueue e"
  by (rule quiet_answered [OF quiet_chosen])

lemma chosen_dir: "chosen m c p e = (True, e') \<Longrightarrow> dir_match m p"
  by (simp add: chosen_def split: if_splits)

text \<open>
  A loop body that settles every packet it takes away: what it leaves in the packet's place owes
  what the packet owed, less what it has answered. \<open>keep\<close> is a property of the loop state that the
  body never changes.
\<close>

locale packet_body =
  fixes body :: "'s \<Rightarrow> packet \<Rightarrow> env \<Rightarrow> 's \<times> packet list \<times> env"
    and keep :: "'s \<Rightarrow> 'k"
  assumes body: "nfqQueue e \<Longrightarrow> body s p e = (s', out, e') \<Longrightarrow>
    nfqQueue e' \<and> keep s' = keep s \<and> owed_all out + answered e' = owed p + answered e"
begin

lemma loop_ledger:
  "nfqQueue e \<Longrightarrow> packet_loop body s xs e = (s', xs', e') \<Longrightarrow>
     nfqQueue e' \<and> keep s' = keep s \<and> ledger xs' e' = ledger xs e"
proof (induction xs arbitrary: s e s' xs' e')
  case Nil
  then show ?case by simp
next
  case (Cons p ps)
  obtain s1 out e1 where b: "body s p e = (s1, out, e1)" by (metis prod_cases3)
  obtain s2 ys e2 where l: "packet_loop body s1 ps e1 = (s2, ys, e2)" by (metis prod_cases3)
  have res: "s' = s2" "xs' = out @ ys" "e' = e2" using Cons.prems(2) b l by simp_all
  note bd = body [OF Cons.prems(1) b]
  note ih = Cons.IH [OF _ l]
  have "ledger (out @ ys) e2 = owed_all out + ledger ys e2" by (simp add: ledger_def add.assoc)
  also have "\<dots> = owed_all out + ledger ps e1" using ih bd by simp
  also have "\<dots> = owed_all ps + (owed_all out + answered e1)" by (simp add: ledger_def ac_simps)
  also have "\<dots> = ledger (p # ps) e" using bd by (simp add: ledger_def ac_simps)
  finally show ?case using bd ih res by simp
qed

end

end
