(* ===== verification/Lag.thy ===== *)
theory Lag
  imports Module_Base
begin

text \<open>
  \<^verbatim>\<open>src/src/lag.cpp\<close>: every packet in a handled direction waits in a FIFO buffer until it is older
  than \<open>lagTime\<close>; a full buffer gives up its 800 oldest packets at once.

  The functional lemmas say how \<^verbatim>\<open>lagProcess\<close> splits its input (\<open>lagProcess_fifo\<close>: order is kept and
  nothing is lost), when the timer releases a packet, and what the millisecond clock's wrap-around
  does to that comparison.
\<close>

record lag_state = buffered +
  lagTime :: int

definition lag_init :: lag_state where
  "lag_init = module_base.extend module_defaults
     \<lparr>bufLinked = False, buf = [], bufSize = 0, lagTime = 50\<rparr>"

definition KEEP_AT_MOST :: nat where
  "KEEP_AT_MOST = 2000"

definition FLUSH_WHEN_FULL :: nat where
  "FLUSH_WHEN_FULL = 800"

definition lagStartUp :: "lag_state \<Rightarrow> env \<Rightarrow> lag_state \<times> env" where
  "lagStartUp m e = bufferStartUp m e"

definition lagCloseDown :: "lag_state \<Rightarrow> packet list \<Rightarrow> env \<Rightarrow> (lag_state \<times> packet list \<times> env) option" where
  "lagCloseDown m xs e = bufferCloseDown m xs e"

text \<open>The body of the pick-up loop.\<close>

definition lag_pick :: "u32 \<Rightarrow> packet \<Rightarrow> lag_state \<Rightarrow> lag_state" where
  "lag_pick now p m = count_affected
     (m\<lparr>buf := p\<lparr>timestamp := now, enqueueTime := now\<rparr> # buf m, bufSize := bufSize m + 1\<rparr>)"

definition lag_pickup :: "u32 \<Rightarrow> lag_state \<Rightarrow> packet list \<Rightarrow> lag_state \<times> packet list" where
  "lag_pickup now m xs =
     scan_restart (\<lambda>m. \<not> bufSize m < KEEP_AT_MOST) (dir_match m) (lag_pick now) (rev xs) [] m"

text \<open>
  The timer loop, on the buffer from \<^verbatim>\<open>bufTail\<close> backwards (oldest first). \<open>timestamp + lagTime\<close> is
  an unsigned 32-bit sum, so it wraps.
\<close>

fun lag_release ::
  "u32 \<Rightarrow> u32 \<Rightarrow> packet list \<Rightarrow> nat \<Rightarrow> packet list \<Rightarrow> env \<Rightarrow> packet list \<times> nat \<times> packet list \<times> env" where
  "lag_release now lt [] n xs e = ([], n, xs, e)"
| "lag_release now lt (p # rb) n xs e =
     (if now > timestamp p + lt
      then lag_release now lt rb (n - 1) (p # xs) (record_latency (now - enqueueTime p) e)
      else (p # rb, n, xs, e))"

text \<open>The overflow loop; it is entered with a full buffer only, so it never meets an empty one.\<close>

fun lag_flush ::
  "nat \<Rightarrow> u32 \<Rightarrow> packet list \<Rightarrow> nat \<Rightarrow> packet list \<Rightarrow> env \<Rightarrow> packet list \<times> nat \<times> packet list \<times> env" where
  "lag_flush 0 now rb n xs e = (rb, n, xs, e)"
| "lag_flush (Suc k) now [] n xs e = ([], n, xs, e)"
| "lag_flush (Suc k) now (p # rb) n xs e =
     lag_flush k now rb (n - 1) (p # xs) (record_latency (now - enqueueTime p) e)"

definition lagProcess :: "lag_state \<Rightarrow> packet list \<Rightarrow> env \<Rightarrow> lag_state \<times> packet list \<times> env \<times> bool" where
  "lagProcess m xs e =
     (case timeGetTime e of (currentTime, e) \<Rightarrow>
      case lag_pickup currentTime m xs of (m, xs) \<Rightarrow>
      case lag_release currentTime (of_int (lagTime m)) (rev (buf m)) (bufSize m) xs e of (rb, n, xs, e) \<Rightarrow>
      case (if n \<ge> KEEP_AT_MOST then lag_flush FLUSH_WHEN_FULL currentTime rb n xs e
            else (rb, n, xs, e)) of (rb, n, xs, e) \<Rightarrow>
      (m\<lparr>buf := rev rb, bufSize := n\<rparr>, xs, e, n > 0))"

definition lagGetBufSize :: "lag_state \<Rightarrow> nat" where
  "lagGetBufSize m = bufSize m"

subsection \<open>The loops\<close>

definition lag_stamp :: "u32 \<Rightarrow> packet \<Rightarrow> packet" where
  "lag_stamp now p = p\<lparr>timestamp := now, enqueueTime := now\<rparr>"

lemma lag_pick_simps [simp]:
  "enabledFlag (lag_pick now p m) = enabledFlag m"
  "lastEnabled (lag_pick now p m) = lastEnabled m"
  "affectedCount (lag_pick now p m) = affectedCount m + 1"
  "bufLinked (lag_pick now p m) = bufLinked m"
  "buf (lag_pick now p m) = lag_stamp now p # buf m"
  "bufSize (lag_pick now p m) = Suc (bufSize m)"
  "lagTime (lag_pick now p m) = lagTime m"
  by (simp_all add: lag_pick_def lag_stamp_def count_affected_def)

lemma fold_lag_pick:
  "buf (fold (lag_pick now) ps m) = map (lag_stamp now) (rev ps) @ buf m"
  "bufSize (fold (lag_pick now) ps m) = bufSize m + length ps"
  "affectedCount (fold (lag_pick now) ps m) = affectedCount m + of_nat (length ps)"
  "enabledFlag (fold (lag_pick now) ps m) = enabledFlag m"
  "lastEnabled (fold (lag_pick now) ps m) = lastEnabled m"
  "bufLinked (fold (lag_pick now) ps m) = bufLinked m"
  "lagTime (fold (lag_pick now) ps m) = lagTime m"
  by (induction ps arbitrary: m) simp_all

lemma lag_pickup_eq:
  "lag_pickup now m xs =
     (case take_hits (KEEP_AT_MOST - bufSize m) (dir_match m) (rev xs) of
        (picked, rest) \<Rightarrow> (fold (lag_pick now) picked m, rev rest))"
  unfolding lag_pickup_def by (rule scan_restart_take_hits) auto

abbreviation lag_due :: "u32 \<Rightarrow> u32 \<Rightarrow> packet \<Rightarrow> bool" where
  "lag_due now lt p \<equiv> now > timestamp p + lt"

definition delays_out :: "u32 \<Rightarrow> packet list \<Rightarrow> env \<Rightarrow> env" where
  "delays_out now ps e = fold (\<lambda>p. record_latency (now - enqueueTime p)) ps e"

lemma delays_out_Cons: "delays_out now (p # ps) e = delays_out now ps (record_latency (now - enqueueTime p) e)"
  by (simp add: delays_out_def)

lemma quiet_delays_out [simp]: "quiet e (delays_out now ps e)"
proof (induction ps arbitrary: e)
  case Nil
  then show ?case by (simp add: delays_out_def)
next
  case (Cons p ps)
  show ?case unfolding delays_out_Cons
    by (rule quiet_trans [OF quiet_simps(1) Cons.IH])
qed

lemma lag_release_eq:
  "lag_release now lt rb n xs e =
     (dropWhile (lag_due now lt) rb, n - length (takeWhile (lag_due now lt) rb),
      rev (takeWhile (lag_due now lt) rb) @ xs, delays_out now (takeWhile (lag_due now lt) rb) e)"
  by (induction now lt rb n xs e rule: lag_release.induct) (simp_all add: delays_out_def)

lemma lag_flush_eq:
  "lag_flush k now rb n xs e =
     (drop k rb, n - length (take k rb), rev (take k rb) @ xs, delays_out now (take k rb) e)"
  by (induction k now rb n xs e rule: lag_flush.induct) (simp_all add: delays_out_def)

text \<open>
  The whole step in closed form: \<open>rb\<close> is the filled buffer, oldest first; \<open>out\<close> the packets that
  leave it, which are the due ones and then, if 2000 or more are left, the 800 oldest of those.
\<close>

definition lag_out :: "u32 \<Rightarrow> u32 \<Rightarrow> packet list \<Rightarrow> packet list" where
  "lag_out now lt rb =
     (let due = takeWhile (lag_due now lt) rb; left = dropWhile (lag_due now lt) rb
      in due @ (if length left \<ge> KEEP_AT_MOST then take FLUSH_WHEN_FULL left else []))"

lemma lag_out_prefix: "lag_out now lt rb @ drop (length (lag_out now lt rb)) rb = rb"
proof -
  let ?due = "takeWhile (lag_due now lt) rb" and ?left = "dropWhile (lag_due now lt) rb"
  obtain k where "lag_out now lt rb = ?due @ take k ?left"
    by (cases "length ?left \<ge> KEEP_AT_MOST") (auto simp: lag_out_def Let_def intro: that [of 0])
  then have "rb = lag_out now lt rb @ drop k ?left" by simp
  then show ?thesis by (metis append_eq_conv_conj)
qed

lemma lagProcess_eq:
  assumes "take_hits (KEEP_AT_MOST - bufSize m) (dir_match m) (rev xs) = (picked, rest)"
    and "timeGetTime e = (now, e1)" and "bufSize m = length (buf m)"
    and "rb = rev (map (lag_stamp now) (rev picked) @ buf m)"
    and "out = lag_out now (of_int (lagTime m)) rb"
  shows "lagProcess m xs e =
    ((fold (lag_pick now) picked m)\<lparr>buf := rev (drop (length out) rb), bufSize := length rb - length out\<rparr>,
     rev out @ rev rest, delays_out now out e1, length rb - length out > 0)"
proof -
  let ?lt = "of_int (lagTime m) :: u32"
  let ?due = "takeWhile (lag_due now ?lt) rb" and ?left = "dropWhile (lag_due now ?lt) rb"
  have split: "length ?due + length ?left = length rb"
    by (metis length_append takeWhile_dropWhile_id)
  have dw: "?left = drop (length ?due) rb" by (rule dropWhile_eq_drop)
  have n: "length rb - length ?due = length ?left" using split by simp
  have fb: "rev (buf (fold (lag_pick now) picked m)) = rb" and
    fn: "bufSize (fold (lag_pick now) picked m) = length rb"
    using assms(3,4) by (simp_all add: fold_lag_pick)
  have step: "lagProcess m xs e =
    (case (if length ?left \<ge> KEEP_AT_MOST
           then lag_flush FLUSH_WHEN_FULL now ?left (length ?left) (rev ?due @ rev rest) (delays_out now ?due e1)
           else (?left, length ?left, rev ?due @ rev rest, delays_out now ?due e1)) of
       (rb, n, xs, e) \<Rightarrow>
         ((fold (lag_pick now) picked m)\<lparr>buf := rev rb, bufSize := n\<rparr>, xs, e, n > 0))"
    by (simp only: lagProcess_def assms(1,2) prod.case lag_pickup_eq fb fn lag_release_eq n fold_lag_pick(7))
  show ?thesis
  proof (cases "length ?left \<ge> KEEP_AT_MOST")
    case True
    then have out: "out = ?due @ take FLUSH_WHEN_FULL ?left" using assms(5) by (simp add: lag_out_def Let_def)
    have rest: "drop (length out) rb = drop FLUSH_WHEN_FULL ?left"
    proof -
      have "drop (length out) rb = drop (length (take FLUSH_WHEN_FULL ?left)) ?left"
        by (subst dw) (simp only: out length_append drop_drop add.commute)
      also have "\<dots> = drop FLUSH_WHEN_FULL ?left" by (rule drop_length_take)
      finally show ?thesis .
    qed
    have len: "length rb - length out = length ?left - length (take FLUSH_WHEN_FULL ?left)"
      using n by (simp only: out length_append)
    have xs: "rev out @ rev rest = rev (take FLUSH_WHEN_FULL ?left) @ rev ?due @ rev rest"
      by (simp add: out)
    have d: "delays_out now out e1 = delays_out now (take FLUSH_WHEN_FULL ?left) (delays_out now ?due e1)"
      by (simp add: out delays_out_def)
    show ?thesis
      by (simp only: step True if_True lag_flush_eq prod.case rest len xs d)
  next
    case False
    then have out: "out = ?due" using assms(5) by (simp add: lag_out_def Let_def)
    show ?thesis
      by (simp only: step False if_False prod.case out n dw [symmetric])
  qed
qed

subsection \<open>The module contract\<close>

lemma lagStartUp_contract:
  "buffered_wf cap m \<Longrightarrow> lagStartUp m e = (m', e') \<Longrightarrow>
     buffered_wf cap m' \<and> bufLinked m' \<and> buf m' = buf m \<and> quiet e e' \<and> enabledFlag m' = enabledFlag m"
  unfolding lagStartUp_def by (rule bufferStartUp_contract)

lemma lagProcess_contract:
  assumes wf: "buffered_wf KEEP_AT_MOST m" and "bufLinked m" and q: "nfqQueue e"
    and eq: "lagProcess m xs e = (m', xs', e', t)"
  shows "buffered_wf KEEP_AT_MOST m' \<and> bufLinked m' \<and> nfqQueue e' \<and> enabledFlag m' = enabledFlag m \<and>
    lastEnabled m' = lastEnabled m \<and> ledger (xs' @ buf m') e' = ledger (xs @ buf m) e"
proof -
  obtain picked rest where th: "take_hits (KEEP_AT_MOST - bufSize m) (dir_match m) (rev xs) = (picked, rest)"
    by (metis surj_pair)
  obtain now e1 where t: "timeGetTime e = (now, e1)" by (metis surj_pair)
  have bs: "bufSize m = length (buf m)" and cap: "length (buf m) \<le> KEEP_AT_MOST"
    using wf by (simp_all add: buffered_wf_def)
  define rb where "rb = rev (map (lag_stamp now) (rev picked) @ buf m)"
  define out where "out = lag_out now (of_int (lagTime m)) rb"
  note main = lagProcess_eq [OF th t bs rb_def out_def, unfolded eq]
  have "picked = take (KEEP_AT_MOST - bufSize m) (filter (dir_match m) (rev xs))"
    using take_hits_picked [of "KEEP_AT_MOST - bufSize m" "dir_match m" "rev xs"] th by simp
  then have len: "length rb \<le> KEEP_AT_MOST" using bs cap by (simp add: rb_def)
  have split: "out @ drop (length out) rb = rb" unfolding out_def by (rule lag_out_prefix)
  have "owed_all xs' + owed_all (buf m') = owed_all (out @ drop (length out) rb) + owed_all rest"
    using main by simp
  also have "\<dots> = owed_all picked + owed_all (buf m) + owed_all rest"
    by (simp only: split) (simp add: rb_def owed_all_map lag_stamp_def)
  also have "\<dots> = owed_all xs + owed_all (buf m)"
    using owed_all_take_hits [OF th] by (simp add: ac_simps)
  finally have led: "owed_all (xs' @ buf m') = owed_all (xs @ buf m)" by simp
  have "quiet e e'"
    using quiet_trans [OF quiet_timeGetTime [OF t] quiet_delays_out] main by simp
  then have "nfqQueue e'" "ledger (xs' @ buf m') e' = ledger (xs @ buf m) e"
    using led q quiet_answered by (simp_all only: ledger_def)
  moreover have "buffered_wf KEEP_AT_MOST m'"
    using main len assms(2) by (auto simp: buffered_wf_def fold_lag_pick)
  ultimately show ?thesis using main assms(2) by (simp add: fold_lag_pick)
qed

lemma lagCloseDown_contract:
  "buffered_wf cap m \<Longrightarrow> bufLinked m \<Longrightarrow>
     \<exists>m' xs' e'. lagCloseDown m xs e = Some (m', xs', e') \<and> buffered_wf cap m' \<and> bufLinked m' \<and>
       buf m' = [] \<and> quiet e e' \<and> enabledFlag m' = enabledFlag m \<and>
       owed_all xs' = owed_all (xs @ buf m)"
  unfolding lagCloseDown_def by (rule bufferCloseDown_contract)

interpretation lag: bounded_module lagStartUp lagProcess lagCloseDown buf
    "buffered_wf KEEP_AT_MOST" bufLinked KEEP_AT_MOST
  by unfold_locales
    ((rule lagStartUp_contract lagProcess_contract lagCloseDown_contract; assumption)
      | simp add: buffered_wf_def)+

subsection \<open>Properties\<close>

text \<open>C21: one call of \<^verbatim>\<open>lagProcess\<close> is a FIFO step: the handled packets that fit join the queue behind
  those that wait, a prefix of the queue is released in order ahead of the packets left alone, and
  the rest of the queue waits on. The prefix is the run of due packets, and 800 more when 2000 are
  left.\<close>

theorem lag_fifo:
  assumes "buffered_wf KEEP_AT_MOST m" and "timeGetTime e = (now, e1)"
    and "take_hits (KEEP_AT_MOST - bufSize m) (dir_match m) (rev xs) = (picked, rest)"
    and "lagProcess m xs e = (m', xs', e', t)"
  shows "\<exists>out. out @ rev (buf m') = rev (buf m) @ map (lag_stamp now) picked \<and>
    out = lag_out now (of_int (lagTime m)) (rev (buf m) @ map (lag_stamp now) picked) \<and>
    xs' = rev out @ rev rest \<and> e' = delays_out now out e1 \<and>
    bufSize m' = length (buf m') \<and> (t \<longleftrightarrow> buf m' \<noteq> []) \<and>
    affectedCount m' = affectedCount m + of_nat (length picked)"
proof -
  have bs: "bufSize m = length (buf m)" using assms(1) by (simp add: buffered_wf_def)
  define rb where "rb = rev (map (lag_stamp now) (rev picked) @ buf m)"
  have rb: "rb = rev (buf m) @ map (lag_stamp now) picked" by (simp add: rb_def rev_map)
  define out where "out = lag_out now (of_int (lagTime m)) rb"
  note eq = lagProcess_eq [OF assms(3,2) bs rb_def out_def, unfolded assms(4)]
  have split: "out @ drop (length out) rb = rb" unfolding out_def by (rule lag_out_prefix)
  let ?m = "(fold (lag_pick now) picked m)\<lparr>buf := rev (drop (length out) rb), bufSize := length rb - length out\<rparr>"
  have res: "m' = ?m" "xs' = rev out @ rev rest" "e' = delays_out now out e1" "t = (length rb - length out > 0)"
    using eq by simp_all
  have b: "buf m' = rev (drop (length out) rb)" "bufSize m' = length rb - length out" by (simp_all add: res(1))
  have "affectedCount m' = affectedCount m + of_nat (length picked)" by (simp add: res(1) fold_lag_pick)
  moreover have "out @ rev (buf m') = rev (buf m) @ map (lag_stamp now) picked"
    unfolding b rev_rev_ident split by (rule rb)
  moreover have "bufSize m' = length (buf m')" "t \<longleftrightarrow> buf m' \<noteq> []" using res(4) by (auto simp: b)
  ultimately show ?thesis using res(2,3) out_def rb by (intro exI [of _ out]) (simp only: simp_thms)
qed

definition lag_example :: lag_state where
  "lag_example = lag_init\<lparr>bufLinked := True, enabledFlag := True\<rparr>"

theorem lag_fifo_witness:
  "\<exists>out. out @ rev (buf (fst (lagProcess lag_example [packet_of 1 True [1]] (env_at 5)))) =
     [lag_stamp 5 (packet_of 1 True [1])] \<and>
   fst (snd (lagProcess lag_example [packet_of 1 True [1]] (env_at 5))) = rev out"
proof -
  let ?p = "packet_of 1 True [1]"
  obtain m' xs' e' t where eq: "lagProcess lag_example [?p] (env_at 5) = (m', xs', e', t)" by (metis prod_cases4)
  have wf: "buffered_wf KEEP_AT_MOST lag_example"
    by (simp add: buffered_wf_def lag_example_def lag_init_def module_base.defs buffered.defs lag_state.defs)
  have k: "1 \<le> KEEP_AT_MOST - bufSize lag_example"
    by (simp add: KEEP_AT_MOST_def lag_example_def lag_init_def module_base.defs)
  have d: "dir_match lag_example ?p"
    by (simp add: dir_match_def checkDirection_def packet_of_def zero_meta_def lag_example_def lag_init_def
        module_base.defs module_defaults_def)
  have th: "take_hits (KEEP_AT_MOST - bufSize lag_example) (dir_match lag_example) (rev [?p]) = ([?p], [])"
    using take_hits_enough_room [of "dir_match lag_example" "rev [?p]"] k d by simp
  have b: "buf lag_example = []" by (simp add: lag_example_def lag_init_def module_base.defs)
  from lag_fifo [OF wf env_at_simps(1) th eq] b show ?thesis unfolding eq by auto
qed

text \<open>the release test adds the delay to a 32-bit tick and compares the result with the clock as it
  is, so within \<open>lagTime\<close> milliseconds of the tick counter's wrap-around a packet is released at
  once, with no delay at all.\<close>

theorem lag_wrap_releases_at_once:
  assumes "0 < lt" "lt \<le> 15000" "4294967296 - lt \<le> int (unat now)"
  shows "lag_due now (of_int lt) (lag_stamp now p)"
proof -
  have n: "uint now < 4294967296" using uint_lt2p [of now] by simp
  have ge: "4294967296 \<le> uint now + lt" using assms(3) by simp
  have l: "uint (of_int lt :: u32) = lt"
    using assms(1,2) by (simp add: unsigned_of_int take_bit_int_eq_self)
  have "uint (now + of_int lt) = (uint now + lt) mod 4294967296"
    by (simp only: uint_word_ariths(1) l) simp
  also have "\<dots> = (uint now + lt - 4294967296) mod 4294967296"
    by (rule mod_pos_geq) (use ge in simp_all)
  also have "\<dots> = uint now + lt - 4294967296"
    by (rule mod_pos_pos_trivial) (use ge n assms in linarith)+
  finally have "uint (now + of_int lt) < uint now" using assms by linarith
  then show ?thesis by (simp add: lag_stamp_def word_less_alt)
qed

theorem lag_wrap_releases_at_once_witness:
  "lag_due 4294967290 (of_int 50) (lag_stamp 4294967290 (packet_of 1 True [1]))"
  by (rule lag_wrap_releases_at_once) simp_all

end
