(* ===== verification/Drop.thy ===== *)
theory Drop
  imports Module_Base
begin

text \<open>
  \<^verbatim>\<open>src/src/drop.cpp\<close>: each packet in a handled direction is freed with probability
  \<open>dropChance / 10000\<close>. The lemmas give the two extreme settings, the packets that are never
  touched and the agreement of the counter, the return value and the number of packets removed.
\<close>

record drop_state = module_base +
  dropChance :: int

definition drop_init :: drop_state where
  "drop_init = module_base.extend module_defaults \<lparr>dropChance = 1000\<rparr>"

definition dropStartUp :: "drop_state \<Rightarrow> env \<Rightarrow> drop_state \<times> env" where
  "dropStartUp m e = (m, e)"

definition dropCloseDown :: "drop_state \<Rightarrow> packet list \<Rightarrow> env \<Rightarrow> (drop_state \<times> packet list \<times> env) option" where
  "dropCloseDown m xs e = Some (m, xs, e)"

text \<open>The loop body; the loop state is the module and the local \<^verbatim>\<open>dropped\<close>.\<close>

definition drop_body :: "drop_state \<times> nat \<Rightarrow> packet \<Rightarrow> env \<Rightarrow> (drop_state \<times> nat) \<times> packet list \<times> env" where
  "drop_body s p e =
     (case s of (m, dropped) \<Rightarrow>
      case chosen m (dropChance m) p e of (hit, e) \<Rightarrow>
        if hit then ((count_affected m, dropped + 1), [], freeNode p e)
        else ((m, dropped), [p], e))"

definition dropProcess :: "drop_state \<Rightarrow> packet list \<Rightarrow> env \<Rightarrow> drop_state \<times> packet list \<times> env \<times> bool" where
  "dropProcess m xs e =
     (case packet_loop drop_body (m, 0) xs e of ((m, dropped), xs, e) \<Rightarrow> (m, xs, e, dropped > 0))"

lemma dropChance_count [simp]: "dropChance (count_affected m) = dropChance m"
  by (simp add: count_affected_def)

interpretation drop_loop: packet_body drop_body "\<lambda>s. (enabledFlag (fst s), lastEnabled (fst s))"
  by unfold_locales
    (auto simp: drop_body_def answered_freeNode add.commute
      dest!: chosen_env split: prod.splits if_splits)

interpretation drop: packet_module dropStartUp dropProcess dropCloseDown
    "\<lambda>_. []" "\<lambda>_. True" "\<lambda>_. True"
  by unfold_locales
    (auto simp: dropStartUp_def dropCloseDown_def dropProcess_def dest: drop_loop.loop_ledger split: prod.splits)

lemma drop_body_cases:
  assumes "drop_body (m, d) p e = (s1, out, e1)"
  obtains (dropped) e0 where "chosen m (dropChance m) p e = (True, e0)"
      "s1 = (count_affected m, d + 1)" "out = []" "e1 = freeNode p e0"
    | (kept) "chosen m (dropChance m) p e = (False, e1)" "s1 = (m, d)" "out = [p]"
  using assms by (auto simp: drop_body_def split: prod.splits if_splits)

lemma drop_loop_counts:
  "packet_loop drop_body (m, d) xs e = ((m', d'), xs', e') \<Longrightarrow>
     length xs' + d' = length xs + d \<and> affectedCount m' + of_nat d = affectedCount m + of_nat d' \<and>
     filter (\<lambda>p. \<not> dir_match m p) xs' = filter (\<lambda>p. \<not> dir_match m p) xs \<and>
     set xs' \<subseteq> set xs"
proof (induction xs arbitrary: m d e xs')
  case Nil
  then show ?case by simp
next
  case (Cons p ps)
  from Cons.prems obtain s1 out e1 ys where b: "drop_body (m, d) p e = (s1, out, e1)"
    and l: "packet_loop drop_body s1 ps e1 = ((m', d'), ys, e')" and xs': "xs' = out @ ys"
    by (rule packet_loop_Cons)
  from b show ?case
  proof (cases rule: drop_body_cases)
    case (dropped e0)
    with Cons.IH [of "count_affected m" "d + 1" e1 ys] l xs' chosen_dir [OF dropped(1)]
    show ?thesis by (auto simp: algebra_simps)
  next
    case kept
    with Cons.IH [of m d e1 ys] l xs' show ?thesis by auto
  qed
qed

lemma drop_loop_all:
  "dropChance m = 10000 \<Longrightarrow> packet_loop drop_body (m, d) xs e = ((m', d'), xs', e') \<Longrightarrow>
     xs' = filter (\<lambda>p. \<not> dir_match m p) xs"
proof (induction xs arbitrary: m d e xs')
  case Nil
  then show ?case by simp
next
  case (Cons p ps)
  from Cons.prems(2) obtain s1 out e1 ys where b: "drop_body (m, d) p e = (s1, out, e1)"
    and l: "packet_loop drop_body s1 ps e1 = ((m', d'), ys, e')" and xs': "xs' = out @ ys"
    by (rule packet_loop_Cons)
  from b show ?case
  proof (cases rule: drop_body_cases)
    case (dropped e0)
    with Cons.IH [of "count_affected m" "d + 1" e1 ys] l xs' Cons.prems(1) chosen_dir [OF dropped(1)]
    show ?thesis by simp
  next
    case kept
    then have "\<not> dir_match m p" using Cons.prems(1) by (auto simp: chosen_def calcChance_def split: if_splits)
    with kept Cons.IH [of m d e1 ys] l xs' Cons.prems(1) show ?thesis by simp
  qed
qed

lemma drop_loop_none:
  "dropChance m = 0 \<Longrightarrow> packet_loop drop_body (m, d) xs e = ((m', d'), xs', e') \<Longrightarrow> xs' = xs \<and> d' = d"
proof (induction xs arbitrary: e xs')
  case Nil
  then show ?case by simp
next
  case (Cons p ps)
  from Cons.prems(2) obtain s1 out e1 ys where b: "drop_body (m, d) p e = (s1, out, e1)"
    and l: "packet_loop drop_body s1 ps e1 = ((m', d'), ys, e')" and xs': "xs' = out @ ys"
    by (rule packet_loop_Cons)
  from b show ?case
  proof (cases rule: drop_body_cases)
    case (dropped e0)
    with Cons.prems(1) have False by (auto simp: chosen_def calcChance_def split: if_splits prod.splits)
    then show ?thesis ..
  next
    case kept
    with Cons.IH [of e1 ys] l xs' Cons.prems(1) show ?thesis by simp
  qed
qed

subsection \<open>Properties\<close>

text \<open>a call of \<^verbatim>\<open>dropProcess\<close> touches no packet in an unhandled direction, counts exactly the
  packets it removes, and reports whether there were any; at 100 % it removes every handled packet
  and at 0 % none.\<close>

theorem drop_accounts:
  assumes "dropProcess m xs e = (m', xs', e', t)"
  shows "filter (\<lambda>p. \<not> dir_match m p) xs' = filter (\<lambda>p. \<not> dir_match m p) xs \<and>
    length xs' \<le> length xs \<and> (t \<longleftrightarrow> length xs' < length xs) \<and>
    affectedCount m' = affectedCount m + of_nat (length xs - length xs') \<and>
    (dropChance m = 10000 \<longrightarrow> xs' = filter (\<lambda>p. \<not> dir_match m p) xs) \<and> (dropChance m = 0 \<longrightarrow> xs' = xs)"
proof -
  obtain d where l: "packet_loop drop_body (m, 0) xs e = ((m', d), xs', e')" and t: "t = (0 < d)"
    using assms by (auto simp: dropProcess_def split: prod.splits)
  note c = drop_loop_counts [OF l]
  have "d = length xs - length xs'" using c by linarith
  then show ?thesis using c t drop_loop_all [OF _ l] drop_loop_none [OF _ l] by auto
qed

theorem drop_accounts_witness:
  "affectedCount (fst (dropProcess drop_init [packet_of 1 True []] (env_at 0))) =
     affectedCount drop_init + of_nat (length [packet_of 1 True []] -
       length (fst (snd (dropProcess drop_init [packet_of 1 True []] (env_at 0)))))"
proof -
  obtain m' xs' e' t where eq: "dropProcess drop_init [packet_of 1 True []] (env_at 0) = (m', xs', e', t)"
    by (metis prod_cases4)
  from drop_accounts [OF eq] show ?thesis unfolding eq by simp
qed

end
