(* ===== verification/Burstloss.thy ===== *)
theory Burstloss
  imports Module_Base
begin

text \<open>
  \<^verbatim>\<open>src/src/burstloss.cpp\<close>: the Gilbert-Elliott two-state chain. Each handled packet is judged by
  the state it finds, then moves the chain. The lemmas treat the chain's absorbing settings and the
  packets it never sees.
\<close>

datatype ge_state = STATE_GOOD | STATE_BAD

record burstloss_state = module_base +
  chanceGood :: int
  chanceBad :: int
  chanceGB :: int
  chanceBG :: int
  currentState :: ge_state

definition burstloss_init :: burstloss_state where
  "burstloss_init = module_base.extend module_defaults
     \<lparr>chanceGood = 200, chanceBad = 8000, chanceGB = 500, chanceBG = 2000, currentState = STATE_GOOD\<rparr>"

definition burstlossStartUp :: "burstloss_state \<Rightarrow> env \<Rightarrow> burstloss_state \<times> env" where
  "burstlossStartUp m e = (m\<lparr>currentState := STATE_GOOD\<rparr>, e)"

definition burstlossCloseDown ::
  "burstloss_state \<Rightarrow> packet list \<Rightarrow> env \<Rightarrow> (burstloss_state \<times> packet list \<times> env) option" where
  "burstlossCloseDown m xs e = Some (m, xs, e)"

text \<open>One step of the chain: a GOOD state turns BAD with chance \<open>gb\<close>, a BAD one GOOD with \<open>bg\<close>.\<close>

definition ge_transition :: "int \<Rightarrow> int \<Rightarrow> ge_state \<Rightarrow> env \<Rightarrow> ge_state \<times> env" where
  "ge_transition gb bg st e =
     (case st of
        STATE_GOOD \<Rightarrow> (case calcChance gb e of (flip, e) \<Rightarrow> (if flip then STATE_BAD else STATE_GOOD, e))
      | STATE_BAD \<Rightarrow> (case calcChance bg e of (flip, e) \<Rightarrow> (if flip then STATE_GOOD else STATE_BAD, e)))"

text \<open>The loop body, over the parameters snapshotted at the start of the call.\<close>

definition burstloss_body ::
  "int \<Rightarrow> int \<Rightarrow> int \<Rightarrow> int \<Rightarrow> burstloss_state \<times> nat \<Rightarrow> packet \<Rightarrow> env \<Rightarrow>
   (burstloss_state \<times> nat) \<times> packet list \<times> env" where
  "burstloss_body good bad gb bg s p e =
     (case s of (m, dropped) \<Rightarrow>
      if dir_match m p then
        (case calcChance (if currentState m = STATE_GOOD then good else bad) e of (doDropped, e) \<Rightarrow>
         case ge_transition gb bg (currentState m) e of (st, e) \<Rightarrow>
         let m = m\<lparr>currentState := st\<rparr> in
         if doDropped then ((count_affected m, dropped + 1), [], freeNode p e)
         else ((m, dropped), [p], e))
      else ((m, dropped), [p], e))"

definition burstlossProcess ::
  "burstloss_state \<Rightarrow> packet list \<Rightarrow> env \<Rightarrow> burstloss_state \<times> packet list \<times> env \<times> bool" where
  "burstlossProcess m xs e =
     (case packet_loop (burstloss_body (chanceGood m) (chanceBad m) (chanceGB m) (chanceBG m)) (m, 0) xs e of
        ((m, dropped), xs, e) \<Rightarrow> (m, xs, e, dropped > 0))"

lemma ge_transition_env:
  "ge_transition gb bg st e = (st', e') \<Longrightarrow> answered e' = answered e \<and> nfqQueue e' = nfqQueue e"
  by (auto simp: ge_transition_def dest!: calcChance_env split: ge_state.splits prod.splits)

lemma currentState_count [simp]: "currentState (count_affected m) = currentState m"
  by (simp add: count_affected_def)

interpretation burstloss_loop: packet_body "burstloss_body good bad gb bg"
    "\<lambda>s. (enabledFlag (fst s), lastEnabled (fst s))"
  by unfold_locales
    (auto simp: burstloss_body_def answered_freeNode add.commute Let_def
      dest!: calcChance_env ge_transition_env split: prod.splits if_splits)

interpretation burstloss: packet_module burstlossStartUp burstlossProcess burstlossCloseDown
    "\<lambda>_. []" "\<lambda>_. True" "\<lambda>_. True"
  by unfold_locales
    (auto simp: burstlossStartUp_def burstlossCloseDown_def burstlossProcess_def
      dest: burstloss_loop.loop_ledger split: prod.splits)

text \<open>GOOD is absorbing when \<open>gb = 0\<close>; with \<open>good = 0\<close> nothing is lost there.\<close>

lemma burstloss_good_loop:
  "currentState m = STATE_GOOD \<Longrightarrow>
   packet_loop (burstloss_body 0 bad 0 bg) (m, d) xs e = ((m', d'), xs', e') \<Longrightarrow>
     xs' = xs \<and> d' = d \<and> currentState m' = STATE_GOOD"
proof (induction xs arbitrary: m d e xs')
  case Nil
  then show ?case by simp
next
  case (Cons p ps)
  from Cons.prems(2) obtain s1 out e1 ys where b: "burstloss_body 0 bad 0 bg (m, d) p e = (s1, out, e1)"
    and l: "packet_loop (burstloss_body 0 bad 0 bg) s1 ps e1 = ((m', d'), ys, e')" and xs': "xs' = out @ ys"
    by (rule packet_loop_Cons)
  from b Cons.prems(1) obtain m1 where "s1 = (m1, d)" "out = [p]" "currentState m1 = STATE_GOOD"
    by (auto simp: burstloss_body_def ge_transition_def Let_def dest: calcChance_0
        split: if_splits prod.splits)
  with Cons.IH [of m1 d e1 ys] l xs' show ?case by simp
qed

text \<open>BAD is absorbing when \<open>bg = 0\<close>; with \<open>bad = 10000\<close> every handled packet is lost there.\<close>

lemma burstloss_bad_loop:
  "currentState m = STATE_BAD \<Longrightarrow>
   packet_loop (burstloss_body good 10000 gb 0) (m, d) xs e = ((m', d'), xs', e') \<Longrightarrow>
     xs' = filter (\<lambda>p. \<not> dir_match m p) xs \<and> currentState m' = STATE_BAD"
proof (induction xs arbitrary: m d e xs')
  case Nil
  then show ?case by simp
next
  case (Cons p ps)
  from Cons.prems(2) obtain s1 out e1 ys where b: "burstloss_body good 10000 gb 0 (m, d) p e = (s1, out, e1)"
    and l: "packet_loop (burstloss_body good 10000 gb 0) s1 ps e1 = ((m', d'), ys, e')" and xs': "xs' = out @ ys"
    by (rule packet_loop_Cons)
  from b Cons.prems(1) obtain m1 d1 where "s1 = (m1, d1)" "out = (if dir_match m p then [] else [p])"
    "currentState m1 = STATE_BAD" "dir_match m1 = dir_match m"
    by (auto simp: burstloss_body_def ge_transition_def Let_def calcChance_10000 dir_match_def fun_eq_iff
        dest: calcChance_0 split: if_splits prod.splits)
  with Cons.IH [of m1 d1 e1 ys] l xs' show ?case by simp
qed

lemma burstloss_loop_counts:
  "packet_loop (burstloss_body good bad gb bg) (m, d) xs e = ((m', d'), xs', e') \<Longrightarrow>
     length xs' + d' = length xs + d \<and> affectedCount m' + of_nat d = affectedCount m + of_nat d' \<and>
     filter (\<lambda>p. \<not> dir_match m p) xs' = filter (\<lambda>p. \<not> dir_match m p) xs"
proof (induction xs arbitrary: m d e xs')
  case Nil
  then show ?case by simp
next
  case (Cons p ps)
  from Cons.prems obtain s1 out e1 ys where b: "burstloss_body good bad gb bg (m, d) p e = (s1, out, e1)"
    and l: "packet_loop (burstloss_body good bad gb bg) s1 ps e1 = ((m', d'), ys, e')" and xs': "xs' = out @ ys"
    by (rule packet_loop_Cons)
  obtain m1 d1 where s1: "s1 = (m1, d1)" by (cases s1)
  have st: "dir_match m1 = dir_match m \<and>
      (d1 = d \<and> out = [p] \<and> affectedCount m1 = affectedCount m \<or>
       d1 = d + 1 \<and> out = [] \<and> dir_match m p \<and> affectedCount m1 = affectedCount m + 1)"
    using b s1 by (auto simp: burstloss_body_def Let_def dir_match_def fun_eq_iff split: if_splits prod.splits)
  with Cons.IH [of m1 d1 e1 ys] l s1 xs' show ?case by (auto simp: algebra_simps)
qed

subsection \<open>Properties\<close>

text \<open>The Gilbert-Elliott chain loses only handled packets and counts each loss; with a lossless
  GOOD state it cannot leave it loses nothing, and in a BAD state it cannot leave that loses
  everything it loses every handled packet.\<close>

theorem burstloss_accounts:
  assumes "burstlossProcess m xs e = (m', xs', e', t)"
  shows "filter (\<lambda>p. \<not> dir_match m p) xs' = filter (\<lambda>p. \<not> dir_match m p) xs \<and>
    length xs' \<le> length xs \<and> (t \<longleftrightarrow> length xs' < length xs) \<and>
    affectedCount m' = affectedCount m + of_nat (length xs - length xs') \<and>
    (currentState m = STATE_GOOD \<and> chanceGood m = 0 \<and> chanceGB m = 0 \<longrightarrow>
       xs' = xs \<and> currentState m' = STATE_GOOD) \<and>
    (currentState m = STATE_BAD \<and> chanceBad m = 10000 \<and> chanceBG m = 0 \<longrightarrow>
       xs' = filter (\<lambda>p. \<not> dir_match m p) xs \<and> currentState m' = STATE_BAD)"
proof -
  let ?b = "burstloss_body (chanceGood m) (chanceBad m) (chanceGB m) (chanceBG m)"
  obtain d where l: "packet_loop ?b (m, 0) xs e = ((m', d), xs', e')" and t: "t = (0 < d)"
    using assms by (auto simp: burstlossProcess_def split: prod.splits)
  note c = burstloss_loop_counts [OF l]
  have d: "d = length xs - length xs'" using c by linarith
  have g: "xs' = xs \<and> currentState m' = STATE_GOOD" if "currentState m = STATE_GOOD \<and> chanceGood m = 0 \<and> chanceGB m = 0"
    using burstloss_good_loop [of m "chanceBad m" "chanceBG m" 0 xs e] l that by simp
  have b: "xs' = filter (\<lambda>p. \<not> dir_match m p) xs \<and> currentState m' = STATE_BAD"
    if "currentState m = STATE_BAD \<and> chanceBad m = 10000 \<and> chanceBG m = 0"
    using burstloss_bad_loop [of m "chanceGood m" "chanceGB m" 0 xs e] l that by simp
  show ?thesis using c t d g b by auto
qed

theorem burstloss_accounts_witness:
  "affectedCount (fst (burstlossProcess burstloss_init [packet_of 1 True []] (env_at 0))) =
     affectedCount burstloss_init + of_nat (length [packet_of 1 True []] -
       length (fst (snd (burstlossProcess burstloss_init [packet_of 1 True []] (env_at 0)))))"
proof -
  obtain m' xs' e' t where eq: "burstlossProcess burstloss_init [packet_of 1 True []] (env_at 0) = (m', xs', e', t)"
    by (metis prod_cases4)
  from burstloss_accounts [OF eq] show ?thesis unfolding eq by simp
qed

end
