(* ===== verification/Blackout.thy ===== *)
theory Blackout
  imports Module_Base
begin

text \<open>
  \<^verbatim>\<open>src/src/blackout.cpp\<close>: a two-phase machine that loses every handled packet for \<open>durationMs\<close>
  out of every \<open>gapMs + durationMs\<close> milliseconds, with a manual trigger that toggles the phase.
  Elapsed time is an unsigned difference of clock readings, so the clock's wrap-around does not
  matter; \<open>blackout_phase_timing\<close> says when each phase ends.
\<close>

datatype phase = PHASE_NORMAL | PHASE_BLACKOUT

record blackout_state = module_base +
  triggerPending :: bool
  durationMs :: int
  gapMs :: int
  currentPhase :: phase
  phaseStart :: u32

definition blackout_init :: blackout_state where
  "blackout_init = module_base.extend module_defaults
     \<lparr>triggerPending = False, durationMs = 3000, gapMs = 15000, currentPhase = PHASE_NORMAL, phaseStart = 0\<rparr>"

definition blackoutStartUp :: "blackout_state \<Rightarrow> env \<Rightarrow> blackout_state \<times> env" where
  "blackoutStartUp m e =
     (case timeGetTime e of (now, e) \<Rightarrow>
      (m\<lparr>currentPhase := PHASE_NORMAL, phaseStart := now, triggerPending := False\<rparr>, startTimePeriod e))"

definition blackoutCloseDown ::
  "blackout_state \<Rightarrow> packet list \<Rightarrow> env \<Rightarrow> (blackout_state \<times> packet list \<times> env) option" where
  "blackoutCloseDown m xs e = Some (m\<lparr>currentPhase := PHASE_NORMAL\<rparr>, xs, endTimePeriod e)"

text \<open>The manual trigger toggles the phase at once.\<close>

definition blackout_trigger :: "u32 \<Rightarrow> blackout_state \<Rightarrow> blackout_state" where
  "blackout_trigger now m =
     (if triggerPending m then
        m\<lparr>triggerPending := False,
          currentPhase := (if currentPhase m = PHASE_NORMAL then PHASE_BLACKOUT else PHASE_NORMAL),
          phaseStart := now\<rparr>
      else m)"

text \<open>The periodic transition; \<open>dur\<close> and \<open>gap\<close> were read at the start of the call.\<close>

definition blackout_periodic :: "u32 \<Rightarrow> int \<Rightarrow> int \<Rightarrow> blackout_state \<Rightarrow> blackout_state" where
  "blackout_periodic now dur gap m =
     (case currentPhase m of
        PHASE_NORMAL \<Rightarrow>
          (if now - phaseStart m \<ge> of_int gap
           then m\<lparr>currentPhase := PHASE_BLACKOUT, phaseStart := now\<rparr> else m)
      | PHASE_BLACKOUT \<Rightarrow>
          (if now - phaseStart m \<ge> of_int dur
           then m\<lparr>currentPhase := PHASE_NORMAL, phaseStart := now\<rparr> else m))"

definition blackout_body :: "blackout_state \<Rightarrow> packet \<Rightarrow> env \<Rightarrow> blackout_state \<times> packet list \<times> env" where
  "blackout_body m p e =
     (if dir_match m p then (count_affected m, [], freeNode p e) else (m, [p], e))"

definition blackoutProcess ::
  "blackout_state \<Rightarrow> packet list \<Rightarrow> env \<Rightarrow> blackout_state \<times> packet list \<times> env \<times> bool" where
  "blackoutProcess m xs e =
     (case timeGetTime e of (now, e) \<Rightarrow>
      let m = blackout_periodic now (durationMs m) (gapMs m) (blackout_trigger now m) in
      if currentPhase m = PHASE_BLACKOUT then
        (case packet_loop blackout_body m xs e of (m, xs, e) \<Rightarrow> (m, xs, e, True))
      else (m, xs, e, False))"

interpretation blackout_loop: packet_body blackout_body
    "\<lambda>m. (enabledFlag m, lastEnabled m, currentPhase m, phaseStart m, durationMs m, gapMs m, triggerPending m)"
  by unfold_locales
    (auto simp: blackout_body_def answered_freeNode add.commute count_affected_def split: if_splits)

lemma blackout_flags [simp]:
  "enabledFlag (blackout_periodic now d g m) = enabledFlag m"
  "lastEnabled (blackout_periodic now d g m) = lastEnabled m"
  "enabledFlag (blackout_trigger now m) = enabledFlag m"
  "lastEnabled (blackout_trigger now m) = lastEnabled m"
  "dir_match (blackout_periodic now d g m) = dir_match m"
  "dir_match (blackout_trigger now m) = dir_match m"
  by (auto simp: blackout_periodic_def blackout_trigger_def dir_match_def fun_eq_iff split: phase.splits)

lemma blackoutProcess_contract:
  assumes q: "nfqQueue e" and eq: "blackoutProcess m xs e = (m', xs', e', t)"
  shows "nfqQueue e' \<and> enabledFlag m' = enabledFlag m \<and> lastEnabled m' = lastEnabled m \<and>
    ledger xs' e' = ledger xs e"
proof -
  obtain now e1 where t: "timeGetTime e = (now, e1)" by (metis surj_pair)
  note te = timeGetTime_env [OF t]
  let ?m = "blackout_periodic now (durationMs m) (gapMs m) (blackout_trigger now m)"
  show ?thesis
  proof (cases "currentPhase ?m = PHASE_BLACKOUT")
    case True
    then have "packet_loop blackout_body ?m xs e1 = (m', xs', e')"
      using eq t by (auto simp: blackoutProcess_def Let_def split: prod.splits)
    from blackout_loop.loop_ledger [OF _ this] te q show ?thesis by (simp add: ledger_def)
  next
    case False
    then show ?thesis using eq t te q by (auto simp: blackoutProcess_def Let_def ledger_def)
  qed
qed

lemma blackoutStartUp_quiet: "blackoutStartUp m e = (m', e') \<Longrightarrow> quiet e e' \<and> enabledFlag m' = enabledFlag m"
  by (auto simp: blackoutStartUp_def quiet_def timeGetTime_def startTimePeriod_def split: if_splits)

interpretation blackout: packet_module blackoutStartUp blackoutProcess blackoutCloseDown
    "\<lambda>_. []" "\<lambda>_. True" "\<lambda>_. True"
  by unfold_locales
    ((drule blackoutStartUp_quiet, simp) | (drule (1) blackoutProcess_contract, simp)
      | simp add: blackoutCloseDown_def)+

lemma blackout_loop_filter:
  "packet_loop blackout_body m xs e = (m', xs', e') \<Longrightarrow>
     xs' = filter (\<lambda>p. \<not> dir_match m p) xs \<and>
     affectedCount m' = affectedCount m + of_nat (length (filter (dir_match m) xs))"
proof (induction xs arbitrary: m e xs')
  case Nil
  then show ?case by simp
next
  case (Cons p ps)
  from Cons.prems obtain s1 out e1 ys where b: "blackout_body m p e = (s1, out, e1)"
    and l: "packet_loop blackout_body s1 ps e1 = (m', ys, e')" and xs': "xs' = out @ ys"
    by (rule packet_loop_Cons)
  show ?case
  proof (cases "dir_match m p")
    case True
    with b have "s1 = count_affected m" "out = []" by (simp_all add: blackout_body_def)
    with Cons.IH [OF l] True xs' show ?thesis by (simp cong: filter_cong)
  next
    case False
    with b have "s1 = m" "out = [p]" by (simp_all add: blackout_body_def)
    with Cons.IH [OF l] False xs' show ?thesis by simp
  qed
qed

text \<open>When the phase changes without a trigger, and when it must.\<close>

lemma blackout_periodic_timing:
  assumes "0 \<le> dur" "dur < 4294967296" "0 \<le> gap" "gap < 4294967296"
  shows "currentPhase (blackout_periodic now dur gap m) =
    (case currentPhase m of
       PHASE_NORMAL \<Rightarrow> (if int (unat (now - phaseStart m)) \<ge> gap then PHASE_BLACKOUT else PHASE_NORMAL)
     | PHASE_BLACKOUT \<Rightarrow> (if int (unat (now - phaseStart m)) \<ge> dur then PHASE_NORMAL else PHASE_BLACKOUT))"
proof -
  have w: "(of_int k :: u32) \<le> x \<longleftrightarrow> k \<le> int (unat x)" if "0 \<le> k" "k < 4294967296" for k and x :: u32
    using that by (simp add: word_le_def uint_nat [symmetric] of_int_uint unsigned_of_int take_bit_int_eq_self)
  show ?thesis using w [OF assms(1,2)] w [OF assms(3,4)]
    by (simp add: blackout_periodic_def split: phase.split)
qed

subsection \<open>Properties\<close>

text \<open>Without a manual trigger the phase a call works in is decided by the milliseconds since the
  phase began, whatever the tick counter does in between, and that phase alone decides the packets:
  in a blackout every handled packet is lost and counted, otherwise all pass.\<close>

theorem blackout_phase_and_loss:
  assumes "0 \<le> durationMs m" "durationMs m < 4294967296" "0 \<le> gapMs m" "gapMs m < 4294967296"
    and "\<not> triggerPending m" and "timeGetTime e = (now, e1)" and "blackoutProcess m xs e = (m', xs', e', t)"
  shows "(t \<longleftrightarrow> (case currentPhase m of
        PHASE_NORMAL \<Rightarrow> int (unat (now - phaseStart m)) \<ge> gapMs m
      | PHASE_BLACKOUT \<Rightarrow> \<not> int (unat (now - phaseStart m)) \<ge> durationMs m)) \<and>
    xs' = (if t then filter (\<lambda>p. \<not> dir_match m p) xs else xs) \<and>
    affectedCount m' = affectedCount m + (if t then of_nat (length (filter (dir_match m) xs)) else 0)"
proof -
  let ?m = "blackout_periodic now (durationMs m) (gapMs m) m"
  have tr: "blackout_trigger now m = m" using assms(5) by (simp add: blackout_trigger_def)
  have ph: "currentPhase ?m = PHASE_BLACKOUT \<longleftrightarrow> (case currentPhase m of
        PHASE_NORMAL \<Rightarrow> int (unat (now - phaseStart m)) \<ge> gapMs m
      | PHASE_BLACKOUT \<Rightarrow> \<not> int (unat (now - phaseStart m)) \<ge> durationMs m)"
    unfolding blackout_periodic_timing [OF assms(1-4)] by (cases "currentPhase m") simp_all
  have ac: "affectedCount ?m = affectedCount m" by (simp add: blackout_periodic_def split: phase.split)
  show ?thesis
  proof (cases "currentPhase ?m = PHASE_BLACKOUT")
    case True
    obtain m2 xs2 e2 where l: "packet_loop blackout_body ?m xs e1 = (m2, xs2, e2)" by (metis prod_cases3)
    have "m' = m2" "xs' = xs2" t using assms(6,7) True l tr by (simp_all add: blackoutProcess_def)
    then show ?thesis using blackout_loop_filter [OF l] True ph ac by simp
  next
    case False
    then have "m' = ?m" "xs' = xs" "\<not> t" using assms(6,7) tr by (simp_all add: blackoutProcess_def Let_def)
    then show ?thesis using False ph ac by simp
  qed
qed

theorem blackout_phase_and_loss_witness:
  "fst (snd (blackoutProcess blackout_init [packet_of 1 True []] (env_at 20000))) =
     (if snd (snd (snd (blackoutProcess blackout_init [packet_of 1 True []] (env_at 20000))))
      then filter (\<lambda>p. \<not> dir_match blackout_init p) [packet_of 1 True []] else [packet_of 1 True []])"
proof -
  obtain m' xs' e' t where eq: "blackoutProcess blackout_init [packet_of 1 True []] (env_at 20000) = (m', xs', e', t)"
    by (metis prod_cases4)
  have "0 \<le> durationMs blackout_init" "durationMs blackout_init < 4294967296" "0 \<le> gapMs blackout_init"
    "gapMs blackout_init < 4294967296" "\<not> triggerPending blackout_init"
    by (simp_all add: blackout_init_def module_base.defs)
  from blackout_phase_and_loss [OF this env_at_simps(1) eq] show ?thesis unfolding eq by simp
qed

end
