(* ===== verification/Duplicate.thy ===== *)
theory Duplicate
  imports Module_Base
begin

text \<open>
  \<^verbatim>\<open>src/src/duplicate.cpp\<close>: a chosen packet gets \<open>count - 1\<close> clones in front of it. Clones are
  synthetic, so they owe the kernel no verdict; running out of memory stops the cloning of that
  packet and nothing else.
\<close>

record dup_state = module_base +
  dupChance :: int
  dupCount :: int

definition dup_init :: dup_state where
  "dup_init = module_base.extend module_defaults \<lparr>dupChance = 1000, dupCount = 2\<rparr>"

definition dupStartup :: "dup_state \<Rightarrow> env \<Rightarrow> dup_state \<times> env" where
  "dupStartup m e = (m, e)"

definition dupCloseDown :: "dup_state \<Rightarrow> packet list \<Rightarrow> env \<Rightarrow> (dup_state \<times> packet list \<times> env) option" where
  "dupCloseDown m xs e = Some (m, xs, e)"

text \<open>
  The loop \<^verbatim>\<open>while (copies--)\<close>. Each clone is inserted right before the original, so the clones
  stand in the order they were made.
\<close>

fun dup_copies :: "nat \<Rightarrow> dup_state \<Rightarrow> packet \<Rightarrow> env \<Rightarrow> dup_state \<times> packet list \<times> env" where
  "dup_copies 0 m p e = (m, [], e)"
| "dup_copies (Suc k) m p e =
     (case cloneNode p e of
        (None, e) \<Rightarrow> (m, [], e)
      | (Some c, e) \<Rightarrow> (case dup_copies k (count_affected m) p e of (m, cs, e) \<Rightarrow> (m, c # cs, e)))"

definition dup_body :: "dup_state \<times> bool \<Rightarrow> packet \<Rightarrow> env \<Rightarrow> (dup_state \<times> bool) \<times> packet list \<times> env" where
  "dup_body s p e =
     (case s of (m, duped) \<Rightarrow>
      case chosen m (dupChance m) p e of (hit, e) \<Rightarrow>
        if hit then (case dup_copies (nat (dupCount m - 1)) m p e of (m, cs, e) \<Rightarrow> ((m, True), cs @ [p], e))
        else ((m, duped), [p], e))"

definition dupProcess :: "dup_state \<Rightarrow> packet list \<Rightarrow> env \<Rightarrow> dup_state \<times> packet list \<times> env \<times> bool" where
  "dupProcess m xs e =
     (case packet_loop dup_body (m, False) xs e of ((m, duped), xs, e) \<Rightarrow> (m, xs, e, duped))"

lemma dup_params_count [simp]:
  "dupChance (count_affected m) = dupChance m" "dupCount (count_affected m) = dupCount m"
  by (simp_all add: count_affected_def)

lemma cloneNode_env: "cloneNode p e = (r, e') \<Longrightarrow> answered e' = answered e \<and> nfqQueue e' = nfqQueue e"
  by (rule quiet_answered [OF quiet_cloneNode])

lemma dup_copies_ok:
  "dup_copies k m p e = (m', cs, e') \<Longrightarrow>
     answered e' = answered e \<and> nfqQueue e' = nfqQueue e \<and> owed_all cs = {#} \<and>
     length cs \<le> k \<and> affectedCount m' = affectedCount m + of_nat (length cs) \<and>
     enabledFlag m' = enabledFlag m \<and> lastEnabled m' = lastEnabled m \<and>
     dupChance m' = dupChance m \<and> dupCount m' = dupCount m \<and> dir_match m' = dir_match m \<and>
     (\<forall>c \<in> set cs. synthetic (backend c) \<and> pdata c = pdata p \<and> meta c = meta p)"
proof (induction k arbitrary: m e cs)
  case 0
  then show ?case by simp
next
  case (Suc k)
  show ?case
  proof (cases "cloneNode p e")
    case (Pair r e1)
    note env = cloneNode_env [OF Pair]
    show ?thesis
    proof (cases r)
      case None
      with Suc.prems Pair env show ?thesis by simp
    next
      case (Some c)
      obtain ds where l: "dup_copies k (count_affected m) p e1 = (m', ds, e')" and cs: "cs = c # ds"
        using Suc.prems Pair Some by (auto split: prod.splits)
      have "dir_match (count_affected m) = dir_match m" by (simp add: fun_eq_iff)
      with Suc.IH [OF l] env cs cloneNode_Some [of p e c e1] Pair Some
      show ?thesis by (auto simp: algebra_simps)
    qed
  qed
qed

interpretation dup_loop: packet_body dup_body "\<lambda>s. (enabledFlag (fst s), lastEnabled (fst s))"
  by unfold_locales
    (auto simp: dup_body_def dest!: chosen_env dup_copies_ok split: prod.splits if_splits)

interpretation dup: packet_module dupStartup dupProcess dupCloseDown
    "\<lambda>_. []" "\<lambda>_. True" "\<lambda>_. True"
  by unfold_locales
    (auto simp: dupStartup_def dupCloseDown_def dupProcess_def dest: dup_loop.loop_ledger split: prod.splits)

text \<open>The originals survive in order, and every extra packet is a clone.\<close>

lemma dup_loop_originals:
  "packet_loop dup_body (m, d) xs e = ((m', d'), xs', e') \<Longrightarrow>
     (\<forall>p \<in> set xs. \<not> synthetic (backend p)) \<Longrightarrow>
     filter (\<lambda>p. \<not> synthetic (backend p)) xs' = xs \<and>
     affectedCount m' + of_nat (length xs) = affectedCount m + of_nat (length xs') \<and>
     length xs' \<le> (1 + nat (dupCount m - 1)) * length xs"
proof (induction xs arbitrary: m d e xs')
  case Nil
  then show ?case by simp
next
  case (Cons p ps)
  from Cons.prems(1) obtain s1 out e1 ys where b: "dup_body (m, d) p e = (s1, out, e1)"
    and l: "packet_loop dup_body s1 ps e1 = ((m', d'), ys, e')" and xs': "xs' = out @ ys"
    by (rule packet_loop_Cons)
  obtain m1 d1 where s1: "s1 = (m1, d1)" by (cases s1)
  have st: "\<exists>cs. out = cs @ [p] \<and> (\<forall>c \<in> set cs. synthetic (backend c)) \<and>
      length cs \<le> nat (dupCount m - 1) \<and> affectedCount m1 = affectedCount m + of_nat (length cs) \<and>
      dupCount m1 = dupCount m"
    using b s1 by (auto simp: dup_body_def dest!: dup_copies_ok split: prod.splits if_splits)
  then obtain cs where cs: "out = cs @ [p]" "\<forall>c \<in> set cs. synthetic (backend c)"
      "length cs \<le> nat (dupCount m - 1)" "affectedCount m1 = affectedCount m + of_nat (length cs)"
      "dupCount m1 = dupCount m" by blast
  have "filter (\<lambda>p. \<not> synthetic (backend p)) cs = []" using cs(2) by (simp add: filter_empty_conv)
  with Cons.IH [of m1 d1 e1 ys] l s1 Cons.prems(2) xs' cs show ?case
    by (auto simp: algebra_simps)
qed

text \<open>With memory to spare and a chance of 100 % every handled packet has exactly \<open>count - 1\<close> clones.\<close>

definition clone_of :: "packet \<Rightarrow> packet" where
  "clone_of p = packetBackendPrepareClone
     \<lparr>pdata = pdata p, meta = meta p, backend = zero_backend, timestamp = 0, enqueueTime = 0\<rparr>"

lemma cloneNode_total:
  assumes mem: "\<And>i. mem_src e i"
  shows "\<exists>e'. cloneNode p e = (Some (clone_of p), e') \<and> mem_src e' = mem_src e"
proof -
  have "mem_src e = (\<lambda>_. True)" by (rule ext) (simp add: mem)
  then show ?thesis by (simp add: cloneNode_def createNode_def c_malloc_def clone_of_def)
qed

lemma dup_copies_total:
  "(\<And>i. mem_src e i) \<Longrightarrow> \<exists>m' e'. dup_copies k m p e = (m', replicate k (clone_of p), e') \<and> mem_src e' = mem_src e"
proof (induction k arbitrary: m e)
  case 0
  show ?case by simp
next
  case (Suc k)
  obtain e1 where c: "cloneNode p e = (Some (clone_of p), e1)" "mem_src e1 = mem_src e"
    using cloneNode_total [OF Suc.prems] by blast
  have "\<And>i. mem_src e1 i" using Suc.prems c(2) by simp
  from Suc.IH [OF this, of "count_affected m"] c show ?case by auto
qed

lemma dup_loop_full:
  "dupChance m = 10000 \<Longrightarrow> (\<And>i. mem_src e i) \<Longrightarrow>
   packet_loop dup_body (m, d) xs e = ((m', d'), xs', e') \<Longrightarrow>
   xs' = concat (map (\<lambda>p. if dir_match m p then replicate (nat (dupCount m - 1)) (clone_of p) @ [p] else [p]) xs)"
proof (induction xs arbitrary: m d e xs')
  case Nil
  then show ?case by simp
next
  case (Cons p ps)
  from Cons.prems(3) obtain s1 out e1 ys where b: "dup_body (m, d) p e = (s1, out, e1)"
    and l: "packet_loop dup_body s1 ps e1 = ((m', d'), ys, e')" and xs': "xs' = out @ ys"
    by (rule packet_loop_Cons)
  obtain m2 e2 where t: "dup_copies (nat (dupCount m - 1)) m p e =
      (m2, replicate (nat (dupCount m - 1)) (clone_of p), e2)" "mem_src e2 = mem_src e"
    using dup_copies_total [OF Cons.prems(2)] by blast
  note ok = dup_copies_ok [OF t(1)]
  obtain m1 d1 where s1: "s1 = (m1, d1)" by (cases s1)
  have st: "out = (if dir_match m p then replicate (nat (dupCount m - 1)) (clone_of p) @ [p] else [p]) \<and>
      dupChance m1 = 10000 \<and> dupCount m1 = dupCount m \<and> dir_match m1 = dir_match m \<and> mem_src e1 = mem_src e"
    using b s1 Cons.prems(1) t ok
    by (auto simp: dup_body_def chosen_def calcChance_def split: if_splits)
  then have mem: "\<And>i. mem_src e1 i" using Cons.prems(2) by simp
  have l': "packet_loop dup_body (m1, d1) ps e1 = ((m', d'), ys, e')" using l s1 by simp
  have "dupChance m1 = 10000" using st by simp
  from Cons.IH [OF this mem l'] have "ys = concat (map (\<lambda>p. if dir_match m1 p
      then replicate (nat (dupCount m1 - 1)) (clone_of p) @ [p] else [p]) ps)" .
  moreover have "dir_match m1 = dir_match m" "dupCount m1 = dupCount m" using st by simp_all
  ultimately show ?case using st xs' by (simp cong: map_cong if_cong)
qed

subsection \<open>Properties\<close>

text \<open>Duplication never loses, reorders or changes an original, adds at most \<open>count - 1\<close> clones per
  packet and counts each of them; at 100 % and with memory to spare every handled packet is preceded
  by exactly that many clones of it.\<close>

theorem duplicates_exactly:
  assumes "dupProcess m xs e = (m', xs', e', t)" and "\<forall>p \<in> set xs. \<not> synthetic (backend p)"
  shows "filter (\<lambda>p. \<not> synthetic (backend p)) xs' = xs \<and>
    affectedCount m' + of_nat (length xs) = affectedCount m + of_nat (length xs') \<and>
    length xs' \<le> (1 + nat (dupCount m - 1)) * length xs \<and>
    (dupChance m = 10000 \<and> (\<forall>i. mem_src e i) \<longrightarrow>
       xs' = concat (map (\<lambda>p. if dir_match m p then replicate (nat (dupCount m - 1)) (clone_of p) @ [p] else [p]) xs))"
proof -
  obtain d where l: "packet_loop dup_body (m, False) xs e = ((m', d), xs', e')"
    using assms(1) by (auto simp: dupProcess_def split: prod.splits)
  show ?thesis using dup_loop_originals [OF l assms(2)] dup_loop_full [OF _ _ l] by auto
qed

theorem duplicates_exactly_witness:
  "filter (\<lambda>p. \<not> synthetic (backend p)) (fst (snd (dupProcess dup_init [packet_of 1 True []] (env_at 0)))) =
     [packet_of 1 True []]"
proof -
  obtain m' xs' e' t where eq: "dupProcess dup_init [packet_of 1 True []] (env_at 0) = (m', xs', e', t)"
    by (metis prod_cases4)
  have "\<forall>p \<in> set [packet_of 1 True []]. \<not> synthetic (backend p)"
    by (simp add: packet_of_def zero_backend_def)
  from duplicates_exactly [OF eq this] show ?thesis unfolding eq by simp
qed

end
