(* ===== verification/Packet_Util.thy ===== *)
theory Packet_Util
  imports Packet
begin

unbundle bit_operations_syntax

text \<open>
  \<^verbatim>\<open>src/src/packetutil_linux.cpp\<close>: locating the transport payload of a raw IPv4 or IPv6 packet,
  redoing its checksums and setting the TCP RST flag. A packet is the list of its bytes, a pointer
  into it an offset. The 32-bit accumulator of the one's complement sum is a \<open>u32\<close>, with its
  wrap-around; \<open>sum16_wsum\<close> shows that no packet of at most 65535 bytes makes it wrap.

  The specification of a correct checksum is what RFC 791, 768, 793 and 2460 say a receiver computes. It is written
  on the bytes as natural numbers, apart from the functions of the file: where the header ends, how long the
  datagram is, what the pseudo-header holds, and that the one's complement sum of the 16-bit words, the stored
  checksum included, is all ones (\<open>checksum_right\<close>).
\<close>

definition IPV4_MIN_HDR :: nat where "IPV4_MIN_HDR = 20"
definition IPV6_HDR_LEN :: nat where "IPV6_HDR_LEN = 40"
definition TCP_MIN_HDR :: nat where "TCP_MIN_HDR = 20"
definition UDP_HDR_LEN :: nat where "UDP_HDR_LEN = 8"
definition PROTO_TCP :: u8 where "PROTO_TCP = 6"
definition PROTO_UDP :: u8 where "PROTO_UDP = 17"
definition TCP_FLAGS_OFFSET :: nat where "TCP_FLAGS_OFFSET = 13"
definition TCP_FLAG_RST :: u8 where "TCP_FLAG_RST = 4"

lemmas header_sizes = IPV4_MIN_HDR_def IPV6_HDR_LEN_def TCP_MIN_HDR_def UDP_HDR_LEN_def
  PROTO_TCP_def PROTO_UDP_def TCP_FLAGS_OFFSET_def TCP_FLAG_RST_def

subsection \<open>Bytes and the one's complement sum\<close>

definition be16 :: "u8 \<Rightarrow> u8 \<Rightarrow> u16" where
  "be16 hi lo = push_bit 8 (ucast hi) OR ucast lo"

definition read16be :: "u8 list \<Rightarrow> nat \<Rightarrow> u16" where
  "read16be p i = be16 (p ! i) (p ! (i + 1))"

definition write16be :: "u8 list \<Rightarrow> nat \<Rightarrow> u16 \<Rightarrow> u8 list" where
  "write16be p i v = p[i := ucast (drop_bit 8 v), i + 1 := ucast (v AND 255)]"

fun sum16 :: "u8 list \<Rightarrow> u32 \<Rightarrow> u32" where
  "sum16 [] acc = acc"
| "sum16 [b] acc = acc + push_bit 8 (ucast b)"
| "sum16 (a # b # r) acc = sum16 r (acc + ucast (be16 a b))"

lemma unat_and_ffff: "unat (x AND 0xFFFF) = unat x mod 65536" for x :: u32
proof -
  have "x AND 0xFFFF = take_bit 16 x" by (simp add: take_bit_eq_mask mask_eq_exp_minus_1)
  then have "unat (x AND 0xFFFF) = take_bit 16 (unat x)" by (simp only: unsigned_take_bit_eq)
  then show ?thesis by (simp add: take_bit_eq_mod)
qed

lemma unat_drop16: "unat (drop_bit 16 x) = unat x div 65536" for x :: u32
  by (simp only: unat_drop_bit_eq) (simp add: drop_bit_eq_div)

lemma fold_carry_step:
  "unat ((acc AND 0xFFFF) + drop_bit 16 acc) = unat acc mod 65536 + unat acc div 65536" for acc :: u32
proof -
  have "unat acc < 4294967296" using unsigned_less [of acc] by simp
  then have "unat acc div 65536 < 65536" by (simp add: less_mult_imp_div_less)
  moreover have "unat acc mod 65536 < 65536" by simp
  ultimately have "unat acc mod 65536 + unat acc div 65536 < 4294967296" by linarith
  then show ?thesis by (simp add: unat_word_ariths unat_and_ffff unat_drop16)
qed

lemma drop_bit16_zero: "drop_bit 16 acc = 0 \<longleftrightarrow> unat acc < 65536" for acc :: u32
proof -
  have "drop_bit 16 acc = 0 \<longleftrightarrow> unat (drop_bit 16 acc) = 0" by (simp only: unat_eq_0)
  then show ?thesis by (simp only: unat_drop16) (simp add: div_eq_0_iff)
qed

function fold_carry :: "u32 \<Rightarrow> u32" where
  "fold_carry acc = (if drop_bit 16 acc = 0 then acc else fold_carry ((acc AND 0xFFFF) + drop_bit 16 acc))"
  by pat_completeness auto

termination
proof (relation "measure unat", goal_cases)
  case 1
  then show ?case by simp
next
  case (2 acc)
  then have "65536 \<le> unat acc" by (simp add: drop_bit16_zero)
  then have "unat acc mod 65536 + unat acc div 65536 < unat acc"
    using div_mult_mod_eq [of "unat acc" 65536] by linarith
  then show ?case by (simp only: in_measure fold_carry_step)
qed

declare fold_carry.simps [simp del]

definition foldChecksum :: "u32 \<Rightarrow> u16" where
  "foldChecksum acc = ucast (NOT (fold_carry acc) AND 0xFFFF)"

subsection \<open>What the sum and the fold compute\<close>

fun wsum :: "u8 list \<Rightarrow> nat" where
  "wsum [] = 0"
| "wsum [b] = 256 * unat b"
| "wsum (a # b # r) = 256 * unat a + unat b + wsum r"

lemma unat_be16: "unat (be16 a b) = 256 * unat a + unat b"
proof -
  have l: "unat a < 256" "unat b < 256" using unsigned_less [of a] unsigned_less [of b] by simp_all
  have "push_bit 8 (ucast a :: u16) AND ucast b = 0"
    by (rule bit_eqI) (auto simp: bit_simps dest: bit_imp_le_length)
  then have "be16 a b = push_bit 8 (ucast a) + ucast b" by (simp add: be16_def disjunctive_add_eq_or)
  moreover have "unat (push_bit 8 (ucast a) :: u16) = 256 * unat a"
    using l by (simp only: unsigned_push_bit_eq)
      (simp add: unsigned_ucast_eq push_bit_eq_mult take_bit_nat_eq_self_iff take_bit_nat_eq_self)
  moreover have "unat (ucast b :: u16) = unat b"
    using l by (simp add: unsigned_ucast_eq take_bit_nat_eq_self)
  ultimately show ?thesis using l by (simp add: unat_word_ariths)
qed

lemma sum16_wsum: "unat acc + wsum xs < 4294967296 \<Longrightarrow> unat (sum16 xs acc) = unat acc + wsum xs"
proof (induction xs acc rule: sum16.induct)
  case (1 acc)
  then show ?case by simp
next
  case (2 b acc)
  have l: "unat b < 256" using unsigned_less [of b] by simp
  have "unat (push_bit 8 (ucast b) :: u32) = 256 * unat b"
    using l by (simp only: unsigned_push_bit_eq)
      (simp add: unsigned_ucast_eq push_bit_eq_mult take_bit_nat_eq_self)
  with 2 show ?case by (simp add: unat_word_ariths)
next
  case (3 a b r acc)
  have "unat (ucast (be16 a b) :: u32) = 256 * unat a + unat b"
  proof -
    have "unat (be16 a b) < 65536" using unsigned_less [of "be16 a b"] by simp
    then show ?thesis by (simp add: unsigned_ucast_eq take_bit_nat_eq_self unat_be16)
  qed
  with 3 have "unat (acc + ucast (be16 a b)) = unat acc + (256 * unat a + unat b)"
    by (simp add: unat_word_ariths)
  with 3 show ?case by simp
qed

lemma wsum_bound: "wsum xs \<le> 65535 * ((length xs + 1) div 2)"
proof (induction xs rule: wsum.induct)
  case (2 b)
  have "unat b < 256" using unsigned_less [of b] by simp
  then show ?case by simp
next
  case (3 a b r)
  have "unat a < 256" "unat b < 256" using unsigned_less [of a] unsigned_less [of b] by simp_all
  with 3 show ?case by simp
qed simp

lemma wsum_append: "even (length us) \<Longrightarrow> wsum (us @ vs) = wsum us + wsum vs"
  by (induction us rule: wsum.induct) auto

lemma fold_carry_spec:
  "unat (fold_carry acc) < 65536 \<and> unat (fold_carry acc) mod 65535 = unat acc mod 65535 \<and>
   (acc \<noteq> 0 \<longrightarrow> fold_carry acc \<noteq> 0)"
proof (induction acc rule: fold_carry.induct)
  case (1 acc)
  show ?case
  proof (cases "drop_bit 16 acc = 0")
    case True
    then show ?thesis by (subst (1 2 3) fold_carry.simps) (simp add: drop_bit16_zero)
  next
    case False
    let ?b = "(acc AND 0xFFFF) + drop_bit 16 acc"
    have f: "fold_carry acc = fold_carry ?b" using False by (subst fold_carry.simps) simp
    have "unat acc = unat acc mod 65536 + 65536 * (unat acc div 65536)" by simp
    then have "unat acc = unat ?b + 65535 * (unat acc div 65536)"
      unfolding fold_carry_step by linarith
    then have m: "unat ?b mod 65535 = unat acc mod 65535" by (metis mod_mult_self2)
    have "unat acc div 65536 \<noteq> 0" using False by (simp add: drop_bit16_zero div_eq_0_iff)
    then have "unat ?b \<noteq> 0" unfolding fold_carry_step by linarith
    then have "?b \<noteq> 0" by (metis unat_0)
    with "1.IH" [OF False] m show ?thesis by (simp only: f) simp
  qed
qed

text \<open>Storing the complement of the fold makes the whole sum fold to all ones.\<close>

lemma foldChecksum_unat: "unat (foldChecksum acc) = 65535 - unat (fold_carry acc)"
proof -
  have l: "unat (fold_carry acc) < 65536" using fold_carry_spec by blast
  have "unat (NOT (fold_carry acc) AND 0xFFFF) = unat (NOT (fold_carry acc)) mod 65536"
    by (rule unat_and_ffff)
  also have "unat (NOT (fold_carry acc)) = 4294967295 - unat (fold_carry acc)"
  proof -
    have "unat (fold_carry acc) < 4294967296" using unsigned_less [of "fold_carry acc"] by simp
    moreover have "NOT (fold_carry acc) = - 1 - fold_carry acc" by (simp add: not_eq_complement)
    moreover have "unat (- 1 :: u32) = 4294967295" by (simp add: unsigned_minus_1_eq_mask mask_eq_exp_minus_1)
    ultimately show ?thesis by (simp add: unat_sub_if')
  qed
  also have "(4294967295 - unat (fold_carry acc)) mod 65536 = 65535 - unat (fold_carry acc)"
  proof -
    have "4294967295 - unat (fold_carry acc) = 65535 * 65536 + (65535 - unat (fold_carry acc))"
      using l by simp
    then show ?thesis by (simp only: mod_mult_self3) simp
  qed
  finally show ?thesis
    by (simp add: foldChecksum_def unsigned_ucast_eq take_bit_nat_eq_self)
qed

lemma foldChecksum_zero_iff:
  "0 < unat acc \<Longrightarrow> foldChecksum acc = 0 \<longleftrightarrow> unat acc mod 65535 = 0"
proof -
  assume pos: "0 < unat acc"
  let ?f = "unat (fold_carry acc)"
  from fold_carry_spec [of acc] have f: "?f < 65536" "?f mod 65535 = unat acc mod 65535" by blast+
  have "acc \<noteq> 0" using pos by auto
  with fold_carry_spec [of acc] have "0 < ?f" by (simp add: unat_gt_0)
  have "foldChecksum acc = 0 \<longleftrightarrow> ?f = 65535"
  proof -
    have "foldChecksum acc = 0 \<longleftrightarrow> unat (foldChecksum acc) = 0" by (simp only: unat_eq_0)
    also have "\<dots> \<longleftrightarrow> ?f = 65535" unfolding foldChecksum_unat using f(1) by linarith
    finally show ?thesis .
  qed
  also have "\<dots> \<longleftrightarrow> ?f mod 65535 = 0"
  proof
    assume "?f mod 65535 = 0"
    then obtain k where "?f = 65535 * k" by auto
    then show "?f = 65535" using f(1) \<open>0 < ?f\<close> by (cases k) auto
  qed simp
  finally show ?thesis using f(2) by simp
qed

lemma foldChecksum_complement:
  "0 < unat acc \<Longrightarrow> (unat acc + unat (foldChecksum acc)) mod 65535 = 0"
proof -
  assume pos: "0 < unat acc"
  from fold_carry_spec [of acc] have f: "unat (fold_carry acc) < 65536"
    "unat (fold_carry acc) mod 65535 = unat acc mod 65535" by blast+
  have "(unat acc + unat (foldChecksum acc)) mod 65535 =
      (unat (fold_carry acc) + (65535 - unat (fold_carry acc))) mod 65535"
    unfolding foldChecksum_unat by (metis f(2) mod_add_left_eq)
  also have "\<dots> = 0" using f(1) by simp
  finally show ?thesis .
qed

subsection \<open>The layout of a packet\<close>

record layout =
  L_valid :: bool
  L_isV4 :: bool
  L_ipHdrLen :: nat
  L_proto :: u8
  L_transportOffset :: nat
  L_transportLen :: nat
  L_payloadOffset :: nat
  L_payloadLen :: nat
  L_fragment :: bool

definition layout0 :: layout where
  "layout0 = \<lparr>L_valid = False, L_isV4 = False, L_ipHdrLen = 0, L_proto = 0, L_transportOffset = 0,
     L_transportLen = 0, L_payloadOffset = 0, L_payloadLen = 0, L_fragment = False\<rparr>"

text \<open>The part of \<^verbatim>\<open>parse\<close> after the IP header, shared by both versions.\<close>

definition parse_payload :: "nat \<Rightarrow> layout \<Rightarrow> layout" where
  "parse_payload ipTotal L =
     (let off = L_transportOffset L + L_transportLen L in
      L\<lparr>L_payloadOffset := off, L_payloadLen := (if ipTotal > off then ipTotal - off else 0),
        L_valid := True\<rparr>)"

definition parse_transport :: "u8 list \<Rightarrow> nat \<Rightarrow> layout \<Rightarrow> layout" where
  "parse_transport p ipTotal L =
     (let L = L\<lparr>L_transportOffset := L_ipHdrLen L\<rparr>; len = length p in
      if L_fragment L then L\<lparr>L_valid := True\<rparr>
      else if L_proto L = PROTO_TCP then
        (if len < L_transportOffset L + TCP_MIN_HDR then L
         else
           let L = L\<lparr>L_transportLen := unat (drop_bit 4 (p ! (L_transportOffset L + 12))) * 4\<rparr> in
           if L_transportLen L < TCP_MIN_HDR \<or> len < L_transportOffset L + L_transportLen L then L
           else parse_payload ipTotal L)
      else if L_proto L = PROTO_UDP then
        (if len < L_transportOffset L + UDP_HDR_LEN then L
         else parse_payload ipTotal (L\<lparr>L_transportLen := UDP_HDR_LEN\<rparr>))
      else L\<lparr>L_valid := True\<rparr>)"

definition parse :: "u8 list \<Rightarrow> layout" where
  "parse p =
     (let L = layout0; len = length p in
      if len < IPV4_MIN_HDR then L
      else
        let version = unat (drop_bit 4 (p ! 0)) in
        if version = 4 then
          (let L = L\<lparr>L_isV4 := True, L_ipHdrLen := unat (p ! 0 AND 15) * 4\<rparr> in
           if L_ipHdrLen L < IPV4_MIN_HDR \<or> len < L_ipHdrLen L then L
           else
             let L = L\<lparr>L_proto := p ! 9\<rparr>;
                 ipTotal = unat (read16be p 2);
                 ipTotal = (if ipTotal > len \<or> ipTotal < L_ipHdrLen L then len else ipTotal);
                 L = L\<lparr>L_fragment := (read16be p 6 AND 0x1FFF \<noteq> 0)\<rparr>
             in parse_transport p ipTotal L)
        else if version = 6 then
          (if len < IPV6_HDR_LEN then L
           else
             let L = L\<lparr>L_isV4 := False, L_ipHdrLen := IPV6_HDR_LEN, L_proto := p ! 6\<rparr>;
                 ipTotal = IPV6_HDR_LEN + unat (read16be p 4);
                 ipTotal = (if ipTotal > len then len else ipTotal)
             in parse_transport p ipTotal L)
        else L)"

subsection \<open>The operations of the packet interface\<close>

definition segment :: "nat \<Rightarrow> nat \<Rightarrow> 'a list \<Rightarrow> 'a list" where
  "segment off n xs = take n (drop off xs)"

definition pseudoHeaderSum :: "u8 list \<Rightarrow> layout \<Rightarrow> nat \<Rightarrow> u32" where
  "pseudoHeaderSum p L transportTotal =
     (if L_isV4 L then
        sum16 (segment 12 8 p) 0 + ucast (L_proto L) + of_nat transportTotal
      else
        sum16 (segment 8 32 p) 0 + (drop_bit 16 (of_nat transportTotal) AND 0xFFFF)
          + (of_nat transportTotal AND 0xFFFF) + ucast (L_proto L))"

text \<open>Offset and length of the payload, when there is one.\<close>

definition packetGetPayload :: "u8 list \<Rightarrow> (nat \<times> nat) option" where
  "packetGetPayload p =
     (if length p = 0 then None
      else
        let L = parse p in
        if \<not> L_valid L \<or> L_fragment L \<or> L_payloadLen L = 0 then None
        else if L_payloadOffset L + L_payloadLen L > length p then None
        else Some (L_payloadOffset L, L_payloadLen L))"

definition recalc_ip :: "layout \<Rightarrow> u8 list \<Rightarrow> u8 list" where
  "recalc_ip L p =
     (if L_isV4 L then
        let p = write16be p 10 0 in write16be p 10 (foldChecksum (sum16 (take (L_ipHdrLen L) p) 0))
      else p)"

definition recalc_transport :: "layout \<Rightarrow> u8 list \<Rightarrow> u8 list" where
  "recalc_transport L p =
     (if L_fragment L then p
      else if L_proto L \<noteq> PROTO_TCP \<and> L_proto L \<noteq> PROTO_UDP then p
      else
        let transportTotal = L_transportLen L + L_payloadLen L in
        if L_transportOffset L + transportTotal > length p then p
        else
          let cksumOffset = L_transportOffset L + (if L_proto L = PROTO_TCP then 16 else 6) in
          if cksumOffset + 2 > length p then p
          else
            let p = write16be p cksumOffset 0;
                acc = pseudoHeaderSum p L transportTotal;
                acc = sum16 (segment (L_transportOffset L) transportTotal p) acc;
                ck = foldChecksum acc;
                ck = (if L_proto L = PROTO_UDP \<and> ck = 0 then 0xFFFF else ck)
            in write16be p cksumOffset ck)"

definition packetRecalcChecksums :: "u8 list \<Rightarrow> u8 list" where
  "packetRecalcChecksums p =
     (if length p = 0 then p
      else
        let L = parse p in
        if \<not> L_valid L then p else recalc_transport L (recalc_ip L p))"

definition packetSetTcpRst :: "u8 list \<Rightarrow> u8 list option" where
  "packetSetTcpRst p =
     (if length p = 0 then None
      else
        let L = parse p in
        if \<not> L_valid L \<or> L_fragment L \<or> L_proto L \<noteq> PROTO_TCP then None
        else if L_transportOffset L + TCP_MIN_HDR > length p then None
        else
          let i = L_transportOffset L + TCP_FLAGS_OFFSET
          in Some (packetRecalcChecksums (p[i := p ! i OR TCP_FLAG_RST])))"

definition packetMinTcpSize :: nat where
  "packetMinTcpSize = IPV4_MIN_HDR + TCP_MIN_HDR"

subsection \<open>Bounds of the layout\<close>

definition has_ports :: "layout \<Rightarrow> bool" where
  "has_ports L \<longleftrightarrow> \<not> L_fragment L \<and> (L_proto L = PROTO_TCP \<or> L_proto L = PROTO_UDP)"

text \<open>What \<^verbatim>\<open>parse\<close> promises of a valid layout of a packet of \<open>n\<close> bytes.\<close>

definition layout_ok :: "nat \<Rightarrow> layout \<Rightarrow> bool" where
  "layout_ok n L \<longleftrightarrow>
     L_transportOffset L = L_ipHdrLen L \<and> L_ipHdrLen L \<le> n \<and> even (L_ipHdrLen L) \<and>
     20 \<le> L_ipHdrLen L \<and> L_ipHdrLen L \<le> 60 \<and> (\<not> L_isV4 L \<longrightarrow> L_ipHdrLen L = 40) \<and>
     (if has_ports L then
        L_payloadOffset L = L_transportOffset L + L_transportLen L \<and>
        L_payloadOffset L + L_payloadLen L \<le> n \<and>
        (L_proto L = PROTO_TCP \<longrightarrow> 20 \<le> L_transportLen L) \<and>
        (L_proto L = PROTO_UDP \<longrightarrow> L_transportLen L = 8)
      else L_payloadLen L = 0)"

lemma parse_transport_fields [simp]:
  "L_isV4 (parse_transport p t L) = L_isV4 L"
  "L_ipHdrLen (parse_transport p t L) = L_ipHdrLen L"
  "L_proto (parse_transport p t L) = L_proto L"
  "L_fragment (parse_transport p t L) = L_fragment L"
  "L_transportOffset (parse_transport p t L) = L_ipHdrLen L"
  by (simp_all add: parse_transport_def parse_payload_def Let_def)

lemma parse_transport_ok:
  assumes v: "L_valid (parse_transport p t L)" and "\<not> L_valid L" "L_payloadLen L = 0" "t \<le> length p"
    and "L_ipHdrLen L \<le> length p" "even (L_ipHdrLen L)" "20 \<le> L_ipHdrLen L" "L_ipHdrLen L \<le> 60"
    and "\<not> L_isV4 L \<longrightarrow> L_ipHdrLen L = 40"
  shows "layout_ok (length p) (parse_transport p t L)"
proof -
  have ne: "PROTO_TCP \<noteq> PROTO_UDP" by (simp add: PROTO_TCP_def PROTO_UDP_def)
  show ?thesis
  proof (cases "L_fragment L \<or> L_proto L \<noteq> PROTO_TCP \<and> L_proto L \<noteq> PROTO_UDP")
    case True
    then have "L_payloadLen (parse_transport p t L) = 0"
      using assms by (auto simp: parse_transport_def Let_def)
    with True assms show ?thesis by (auto simp: layout_ok_def has_ports_def)
  next
    case False
    then have hp: "has_ports (parse_transport p t L)" by (simp add: has_ports_def)
    from False v assms have "L_payloadOffset (parse_transport p t L) =
        L_ipHdrLen L + L_transportLen (parse_transport p t L) \<and>
      L_payloadOffset (parse_transport p t L) + L_payloadLen (parse_transport p t L) \<le> length p \<and>
        (L_proto L = PROTO_TCP \<longrightarrow> 20 \<le> L_transportLen (parse_transport p t L)) \<and>
        (L_proto L = PROTO_UDP \<longrightarrow> L_transportLen (parse_transport p t L) = 8)"
      using ne by (auto simp: parse_transport_def parse_payload_def Let_def TCP_MIN_HDR_def UDP_HDR_LEN_def
          split: if_splits)
    with hp assms show ?thesis by (simp add: layout_ok_def)
  qed
qed

lemma unat_nibble: "unat (b AND 15) < 16" for b :: u8
proof -
  have "b AND 15 = take_bit 4 b" by (simp add: take_bit_eq_mask mask_eq_exp_minus_1)
  then have "unat (b AND 15) = take_bit 4 (unat b)" by (simp only: unsigned_take_bit_eq)
  then show ?thesis by (simp add: take_bit_eq_mod)
qed

text \<open>The two ways a packet gets past its IP header.\<close>

lemma parse_v4:
  assumes "\<not> length p < 20" "unat (drop_bit 4 (p ! 0)) = 4"
  shows "parse p =
    (let L = layout0\<lparr>L_isV4 := True, L_ipHdrLen := unat (p ! 0 AND 15) * 4\<rparr>; t = unat (read16be p 2) in
     if L_ipHdrLen L < 20 \<or> length p < L_ipHdrLen L then L
     else parse_transport p (if t > length p \<or> t < L_ipHdrLen L then length p else t)
       (L\<lparr>L_proto := p ! 9, L_fragment := (read16be p 6 AND 0x1FFF \<noteq> 0)\<rparr>))"
  using assms by (simp add: parse_def IPV4_MIN_HDR_def Let_def)

lemma parse_v6:
  assumes "\<not> length p < 20" "unat (drop_bit 4 (p ! 0)) = 6"
  shows "parse p =
    (if length p < 40 then layout0
     else parse_transport p (let t = 40 + unat (read16be p 4) in if t > length p then length p else t)
       (layout0\<lparr>L_isV4 := False, L_ipHdrLen := 40, L_proto := p ! 6\<rparr>))"
  using assms by (simp add: parse_def IPV4_MIN_HDR_def IPV6_HDR_LEN_def Let_def)

lemma parse_other:
  assumes "length p < 20 \<or> unat (drop_bit 4 (p ! 0)) \<noteq> 4 \<and> unat (drop_bit 4 (p ! 0)) \<noteq> 6"
  shows "parse p = layout0"
  using assms by (auto simp: parse_def IPV4_MIN_HDR_def Let_def)

lemma parse_ok: "L_valid (parse p) \<Longrightarrow> layout_ok (length p) (parse p)"
proof -
  assume v: "L_valid (parse p)"
  have nv: "\<not> L_valid layout0" "L_payloadLen layout0 = 0" by (simp_all add: layout0_def)
  then consider (v4) "\<not> length p < 20" "unat (drop_bit 4 (p ! 0)) = 4"
    | (v6) "\<not> length p < 20" "unat (drop_bit 4 (p ! 0)) = 6"
    using v parse_other [of p] by fastforce
  then show ?thesis
  proof cases
    case v4
    let ?h = "unat (p ! 0 AND 15) * 4"
    have h: "\<not> (?h < 20 \<or> length p < ?h)"
      using v nv by (auto simp: parse_v4 [OF v4] Let_def)
    show ?thesis using v h unat_nibble [of "p ! 0"] nv
      unfolding parse_v4 [OF v4] Let_def by (auto intro!: parse_transport_ok)
  next
    case v6
    have h: "\<not> length p < 40" using v nv by (auto simp: parse_v6 [OF v6])
    show ?thesis using v h nv
      unfolding parse_v6 [OF v6] Let_def by (auto intro!: parse_transport_ok)
  qed
qed

lemma packetGetPayload_bounds:
  "packetGetPayload p = Some (off, n) \<Longrightarrow> 28 \<le> off \<and> 0 < n \<and> off + n \<le> length p"
proof -
  assume eq: "packetGetPayload p = Some (off, n)"
  then have v: "L_valid (parse p)" and n: "L_payloadLen (parse p) = n" "0 < n" "L_payloadOffset (parse p) = off"
    and le: "off + n \<le> length p"
    by (auto simp: packetGetPayload_def Let_def split: if_splits)
  from parse_ok [OF v] n have "20 \<le> L_ipHdrLen (parse p)" "has_ports (parse p)"
    "off = L_ipHdrLen (parse p) + L_transportLen (parse p)" "8 \<le> L_transportLen (parse p)"
    by (auto simp: layout_ok_def has_ports_def split: if_splits)
  then show ?thesis using n le by simp
qed

subsection \<open>Recalculated checksums verify\<close>

lemma write16be_length [simp]: "length (write16be p i v) = length p"
  by (simp add: write16be_def)

lemma write16be_nth [simp]: "j \<noteq> i \<Longrightarrow> j \<noteq> i + 1 \<Longrightarrow> write16be p i v ! j = p ! j"
  by (simp add: write16be_def)

lemma write16be_twice [simp]: "write16be (write16be p i u) i v = write16be p i v"
  by (simp add: write16be_def list_update_swap)

lemma write16be_take_above: "n \<le> i \<Longrightarrow> take n (write16be p i v) = take n p"
  by (simp add: write16be_def)

lemma write16be_take: "take n (write16be p i v) = write16be (take n p) i v"
  by (simp add: write16be_def take_update_swap)

lemma write16be_drop: "off \<le> i \<Longrightarrow> drop off (write16be p i v) = write16be (drop off p) (i - off) v"
  by (simp add: write16be_def drop_update_swap Suc_diff_le)

lemma segment_write16be:
  "off \<le> i \<Longrightarrow> segment off n (write16be p i v) = write16be (segment off n p) (i - off) v"
  by (simp add: segment_def write16be_drop write16be_take)

lemma segment_write16be_above: "off + n \<le> i \<Longrightarrow> segment off n (write16be p i v) = segment off n p"
  by (simp add: segment_def take_drop write16be_take_above add.commute)

lemma unat_hi_lo: "256 * unat (ucast (drop_bit 8 v) :: u8) + unat (ucast (v AND 255) :: u8) = unat v"
  for v :: u16
proof -
  have v: "unat v < 65536" using unsigned_less [of v] by simp
  have "v AND 255 = take_bit 8 v" by (simp add: take_bit_eq_mask mask_eq_exp_minus_1)
  then have "unat (v AND 255) = take_bit 8 (unat v)" by (simp only: unsigned_take_bit_eq)
  then have lo: "unat (ucast (v AND 255) :: u8) = unat v mod 256"
    by (simp add: unsigned_ucast_eq take_bit_eq_mod)
  have "unat (drop_bit 8 v) = unat v div 256" by (simp only: unat_drop_bit_eq) (simp add: drop_bit_eq_div)
  moreover have "unat v div 256 < 256" using v by (simp add: less_mult_imp_div_less)
  ultimately have hi: "unat (ucast (drop_bit 8 v) :: u8) = unat v div 256"
    by (simp add: unsigned_ucast_eq take_bit_eq_mod)
  show ?thesis by (simp only: hi lo) simp
qed

lemma write16be_split:
  "i + 1 < length p \<Longrightarrow>
     write16be p i v = take i p @ ucast (drop_bit 8 v) # ucast (v AND 255) # drop (i + 2) p"
proof (rule nth_equalityI, goal_cases)
  case 1
  then show ?case by simp
next
  case (2 j)
  then show ?case
    by (cases "j < i"; cases "j = i"; cases "j = i + 1")
      (auto simp: write16be_def nth_append nth_list_update nth_Cons split: nat.splits
        intro!: arg_cong [where f = "nth p"])
qed

lemma wsum_write16be:
  "even i \<Longrightarrow> i + 1 < length p \<Longrightarrow> wsum (write16be p i v) = wsum (write16be p i 0) + unat v"
  using unat_hi_lo [of v] by (simp add: write16be_split wsum_append)

text \<open>
  The receiver's test passes on a segment whose checksum field (at the even offset \<open>k\<close>) holds the
  complement of the fold, whatever the sum \<open>acc\<close> it starts from.
\<close>

lemma stored_checksum:
  assumes k: "even k" "k + 1 < length xs" and len: "length xs \<le> 65535" and acc: "unat acc \<le> 1073741824"
    and s: "s = sum16 (write16be xs k 0) acc" and pos: "0 < unat acc + wsum (write16be xs k 0)"
    and ck: "unat ck mod 65535 = unat (foldChecksum s) mod 65535"
  shows "foldChecksum (sum16 (write16be xs k ck) acc) = 0"
proof -
  have b: "wsum (write16be xs k v) \<le> 65535 * 32768" for v
  proof -
    have "(length xs + 1) div 2 \<le> 32768" using len by simp
    then have "65535 * ((length xs + 1) div 2) \<le> 65535 * 32768" by simp
    with wsum_bound [of "write16be xs k v"] show ?thesis by simp
  qed
  have u: "unat (sum16 (write16be xs k v) acc) = unat acc + wsum (write16be xs k v)" for v
    by (rule sum16_wsum) (use b [of v] acc in linarith)
  have "unat (sum16 (write16be xs k ck) acc) = unat s + unat ck"
    unfolding s u wsum_write16be [OF k, of ck] by simp
  moreover have sp: "0 < unat s" unfolding s u by (rule pos)
  moreover have "(unat s + unat ck) mod 65535 = (unat s + unat (foldChecksum s)) mod 65535"
    using ck by (metis mod_add_right_eq)
  ultimately show ?thesis
    using foldChecksum_complement [OF sp] foldChecksum_zero_iff [of "sum16 (write16be xs k ck) acc"] by simp
qed

lemma wsum_first: "0 < unat (xs ! 0) \<Longrightarrow> xs \<noteq> [] \<Longrightarrow> 0 < wsum xs"
  by (cases xs rule: wsum.cases) auto

lemma recalc_ip_checks:
  assumes ok: "layout_ok (length p) L" and v4: "L_isV4 L" and first: "0 < unat (p ! 0)"
  shows "foldChecksum (sum16 (take (L_ipHdrLen L) (recalc_ip L p)) 0) = 0"
proof -
  let ?h = "L_ipHdrLen L"
  let ?xs = "take ?h p"
  let ?s = "sum16 (write16be ?xs 10 0) 0"
  from ok have h: "20 \<le> ?h" "?h \<le> 60" "?h \<le> length p" by (simp_all add: layout_ok_def)
  have eq: "take ?h (recalc_ip L p) = write16be ?xs 10 (foldChecksum ?s)"
    using v4 by (simp add: recalc_ip_def write16be_take)
  have "0 < wsum (write16be ?xs 10 0)"
    by (rule wsum_first) (use h first in \<open>auto simp: write16be_def\<close>)
  then show ?thesis unfolding eq
    by (intro stored_checksum [OF _ _ _ _ refl]) (use h in auto)
qed

lemma unat_ucast8: "unat (ucast b :: u32) = unat b" for b :: u8
proof -
  have "unat b < 256" using unsigned_less [of b] by simp
  then show ?thesis by (simp add: unsigned_ucast_eq take_bit_nat_eq_self)
qed

lemma pseudoHeaderSum_value:
  assumes n: "n \<le> 65535"
  shows "unat (pseudoHeaderSum p L n) = wsum (if L_isV4 L then segment 12 8 p else segment 8 32 p) + n + unat (L_proto L)"
    "unat (pseudoHeaderSum p L n) \<le> 1073741824"
proof -
  have pr: "unat (L_proto L) < 256" using unsigned_less [of "L_proto L"] by simp
  have un: "unat (of_nat n :: u32) = n" using n by (simp add: unsigned_of_nat take_bit_nat_eq_self)
  have w: "wsum (segment off k p) \<le> 65535 * ((k + 1) div 2)" for off k
  proof -
    have "length (segment off k p) \<le> k" by (simp add: segment_def)
    then have "65535 * ((length (segment off k p) + 1) div 2) \<le> 65535 * ((k + 1) div 2)"
      by (intro mult_le_mono2 div_le_mono) simp
    with wsum_bound [of "segment off k p"] show ?thesis by linarith
  qed
  have s: "unat (sum16 (segment off k p) 0) = wsum (segment off k p)" if "k \<le> 32" for off k
    using w [of off k] that by (subst sum16_wsum) auto
  have "n div 65536 = 0" using n by simp
  then have hi: "drop_bit 16 (of_nat n :: u32) = 0"
    using un by (simp add: drop_bit16_zero)
  show v: "unat (pseudoHeaderSum p L n) = wsum (if L_isV4 L then segment 12 8 p else segment 8 32 p) + n + unat (L_proto L)"
    using w [of 12 8] w [of 8 32] pr n
    by (simp add: pseudoHeaderSum_def hi unat_word_ariths s unat_and_ffff un unat_ucast8)
  show "unat (pseudoHeaderSum p L n) \<le> 1073741824" unfolding v using w [of 12 8] w [of 8 32] pr n by simp
qed

lemma pseudoHeaderSum_bounds:
  assumes hp: "has_ports L" and n: "n \<le> 65535"
  shows "0 < unat (pseudoHeaderSum p L n) \<and> unat (pseudoHeaderSum p L n) \<le> 1073741824"
proof -
  have "0 < unat (L_proto L)" using hp by (auto simp: has_ports_def PROTO_TCP_def PROTO_UDP_def)
  then show ?thesis using pseudoHeaderSum_value [OF n, of p L] by simp
qed

text \<open>The transport part: where the checksum is written, and that it then verifies.\<close>

definition cksum_pos :: "layout \<Rightarrow> nat" where
  "cksum_pos L = L_transportOffset L + (if L_proto L = PROTO_TCP then 16 else 6)"

lemma recalc_transport_write:
  assumes ok: "layout_ok (length p) L" and hp: "has_ports L"
  shows "\<exists>ck. recalc_transport L p = write16be p (cksum_pos L) ck \<and>
    (let n = L_transportLen L + L_payloadLen L in
     unat ck mod 65535 = unat (foldChecksum (sum16 (segment (L_transportOffset L) n (write16be p (cksum_pos L) 0))
       (pseudoHeaderSum (write16be p (cksum_pos L) 0) L n))) mod 65535)"
proof -
  have "L_transportOffset L + (L_transportLen L + L_payloadLen L) \<le> length p" "cksum_pos L + 2 \<le> length p"
    using ok hp by (auto simp: layout_ok_def has_ports_def cksum_pos_def split: if_splits)
  then show ?thesis using hp
    by (auto simp: recalc_transport_def cksum_pos_def [symmetric] has_ports_def Let_def)
qed

lemma pseudoHeaderSum_write:
  assumes ok: "layout_ok (length p) L"
  shows "pseudoHeaderSum (write16be p (cksum_pos L) v) L n = pseudoHeaderSum p L n"
proof -
  have "20 \<le> L_transportOffset L" "\<not> L_isV4 L \<longrightarrow> L_transportOffset L = 40"
    using ok by (auto simp: layout_ok_def)
  then show ?thesis by (auto simp: pseudoHeaderSum_def cksum_pos_def segment_write16be_above)
qed

lemma recalc_transport_checks:
  assumes ok: "layout_ok (length p) L" and hp: "has_ports L" and len: "length p \<le> 65535"
    and n: "n = L_transportLen L + L_payloadLen L"
  shows "foldChecksum (sum16 (segment (L_transportOffset L) n (recalc_transport L p))
    (pseudoHeaderSum (recalc_transport L p) L n)) = 0"
proof -
  let ?off = "L_transportOffset L"
  let ?k = "if L_proto L = PROTO_TCP then 16 else 6 :: nat"
  let ?acc = "pseudoHeaderSum p L n"
  let ?xs = "segment ?off n p"
  from ok hp have b: "?off + n \<le> length p" "?k + 1 < n"
    by (auto simp: layout_ok_def has_ports_def n split: if_splits)
  obtain ck where eq: "recalc_transport L p = write16be p (cksum_pos L) ck"
    and ck: "unat ck mod 65535 = unat (foldChecksum (sum16 (segment ?off n (write16be p (cksum_pos L) 0)) ?acc)) mod 65535"
    using recalc_transport_write [OF ok hp] by (auto simp: Let_def pseudoHeaderSum_write [OF ok] n)
  have sl: "segment ?off n (write16be p (cksum_pos L) v) = write16be ?xs ?k v" for v
    by (simp add: cksum_pos_def segment_write16be)
  have acc: "0 < unat ?acc \<and> unat ?acc \<le> 1073741824"
    by (rule pseudoHeaderSum_bounds [OF hp]) (use b len in simp)
  have "foldChecksum (sum16 (write16be ?xs ?k ck) ?acc) = 0"
    by (rule stored_checksum [OF _ _ _ _ refl]) (use b len acc ck [unfolded sl] in \<open>auto simp: segment_def\<close>)
  then show ?thesis by (simp only: eq sl pseudoHeaderSum_write [OF ok])
qed

text \<open>No byte that \<^verbatim>\<open>parse\<close> looks at is a checksum byte.\<close>

lemma parse_transport_cong:
  assumes "length q = length p"
    and "\<And>j. j = L_ipHdrLen L + 12 \<Longrightarrow> L_proto L = PROTO_TCP \<Longrightarrow> q ! j = p ! j"
  shows "parse_transport q t L = parse_transport p t L"
  using assms by (auto simp: parse_transport_def Let_def)

lemma parse_cong:
  assumes len: "length q = length p"
    and hdr: "\<And>j. j < 10 \<Longrightarrow> q ! j = p ! j"
    and tr: "\<And>j. j = L_transportOffset (parse p) + 12 \<Longrightarrow> L_proto (parse p) = PROTO_TCP \<Longrightarrow> q ! j = p ! j"
  shows "parse q = parse p"
proof -
  have e: "q ! 0 = p ! 0" "q ! 9 = p ! 9" "q ! 6 = p ! 6" "read16be q 2 = read16be p 2"
    "read16be q 6 = read16be p 6" "read16be q 4 = read16be p 4"
    by (simp_all add: hdr read16be_def)
  consider (v4) "\<not> length p < 20" "unat (drop_bit 4 (p ! 0)) = 4"
    | (v6) "\<not> length p < 20" "unat (drop_bit 4 (p ! 0)) = 6"
    | (no) "length p < 20 \<or> unat (drop_bit 4 (p ! 0)) \<noteq> 4 \<and> unat (drop_bit 4 (p ! 0)) \<noteq> 6" by blast
  then show ?thesis
  proof cases
    case v4
    then have v4q: "\<not> length q < 20" "unat (drop_bit 4 (q ! 0)) = 4" by (simp_all add: len e)
    show ?thesis
    proof (cases "unat (p ! 0 AND 15) * 4 < 20 \<or> length p < unat (p ! 0 AND 15) * 4")
      case True
      then show ?thesis by (simp add: parse_v4 [OF v4] parse_v4 [OF v4q] e len Let_def)
    next
      case False
      show ?thesis using tr False unfolding parse_v4 [OF v4] parse_v4 [OF v4q] Let_def e len
        by (auto intro!: parse_transport_cong len)
    qed
  next
    case v6
    then have v6q: "\<not> length q < 20" "unat (drop_bit 4 (q ! 0)) = 6" by (simp_all add: len e)
    show ?thesis using tr unfolding parse_v6 [OF v6] parse_v6 [OF v6q] Let_def e len
      by (auto intro!: parse_transport_cong len)
  next
    case no
    then have "length q < 20 \<or> unat (drop_bit 4 (q ! 0)) \<noteq> 4 \<and> unat (drop_bit 4 (q ! 0)) \<noteq> 6"
      by (simp add: len e)
    with no show ?thesis by (simp add: parse_other)
  qed
qed

lemma recalc_ip_bytes: "j \<noteq> 10 \<Longrightarrow> j \<noteq> 11 \<Longrightarrow> recalc_ip L p ! j = p ! j"
  by (simp add: recalc_ip_def)

lemma recalc_ip_length [simp]: "length (recalc_ip L p) = length p"
  by (simp add: recalc_ip_def)

lemma recalc_transport_length [simp]: "length (recalc_transport L p) = length p"
  by (simp add: recalc_transport_def Let_def)

lemma recalc_transport_bytes:
  "j \<noteq> cksum_pos L \<Longrightarrow> j \<noteq> cksum_pos L + 1 \<Longrightarrow> recalc_transport L p ! j = p ! j"
  by (auto simp: recalc_transport_def cksum_pos_def Let_def)

lemma recalc_transport_other: "\<not> has_ports L \<Longrightarrow> recalc_transport L p = p"
  by (auto simp: recalc_transport_def has_ports_def)

subsection \<open>The operations as a whole\<close>

lemma recalc_length [simp]: "length (packetRecalcChecksums p) = length p"
  by (simp add: packetRecalcChecksums_def Let_def)

lemma recalc_invalid: "\<not> L_valid (parse p) \<Longrightarrow> packetRecalcChecksums p = p"
  by (simp add: packetRecalcChecksums_def)

lemma recalc_valid:
  "L_valid (parse p) \<Longrightarrow> packetRecalcChecksums p = recalc_transport (parse p) (recalc_ip (parse p) p)"
  by (auto simp: packetRecalcChecksums_def Let_def recalc_transport_def recalc_ip_def write16be_def)

text \<open>Only the two checksum fields change.\<close>

lemma recalc_bytes:
  assumes "j \<noteq> 10" "j \<noteq> 11" "j \<noteq> cksum_pos (parse p)" "j \<noteq> cksum_pos (parse p) + 1"
  shows "packetRecalcChecksums p ! j = p ! j"
proof (cases "L_valid (parse p)")
  case True
  with assms show ?thesis by (simp only: recalc_valid recalc_transport_bytes recalc_ip_bytes not_False_eq_True)
next
  case False
  then show ?thesis by (simp add: recalc_invalid)
qed

lemma recalc_parse: "parse (packetRecalcChecksums p) = parse p"
proof (cases "L_valid (parse p)")
  case True
  from parse_ok [OF True] have off: "20 \<le> L_transportOffset (parse p)" by (simp add: layout_ok_def)
  show ?thesis
  proof (rule parse_cong)
    show "packetRecalcChecksums p ! j = p ! j" if "j < 10" for j
      using that off by (intro recalc_bytes) (auto simp: cksum_pos_def split: if_splits)
    show "packetRecalcChecksums p ! j = p ! j"
      if "j = L_transportOffset (parse p) + 12" "L_proto (parse p) = PROTO_TCP" for j
      using that off by (intro recalc_bytes) (auto simp: cksum_pos_def)
  qed simp
next
  case False
  then show ?thesis by (simp add: recalc_invalid)
qed

lemma valid_first_byte: "L_valid (parse p) \<Longrightarrow> 0 < unat (p ! 0)"
proof (rule ccontr)
  assume v: "L_valid (parse p)" and "\<not> 0 < unat (p ! 0)"
  then have "p ! 0 = 0" by (simp add: unat_eq_0)
  then have "parse p = layout0" by (intro parse_other) simp
  with v show False by (simp add: layout0_def)
qed

text \<open>The folds over the header and over the segment with its pseudo-header, with the stored checksums, are zero.\<close>

lemma recalc_folds:
  assumes len: "length p \<le> 65535" and v: "L_valid (parse p)"
  shows "L_isV4 (parse p) \<Longrightarrow> foldChecksum (sum16 (take (L_ipHdrLen (parse p)) (packetRecalcChecksums p)) 0) = 0"
    "has_ports (parse p) \<Longrightarrow> n = L_transportLen (parse p) + L_payloadLen (parse p) \<Longrightarrow>
       foldChecksum (sum16 (segment (L_transportOffset (parse p)) n (packetRecalcChecksums p))
         (pseudoHeaderSum (packetRecalcChecksums p) (parse p) n)) = 0"
proof -
  let ?L = "parse p" let ?q = "recalc_ip ?L p"
  note ok = parse_ok [OF v]
  have okq: "layout_ok (length ?q) ?L" using ok by simp
  show "foldChecksum (sum16 (take (L_ipHdrLen ?L) (packetRecalcChecksums p)) 0) = 0" if "L_isV4 ?L"
  proof (cases "has_ports ?L")
    case hp: True
    have "L_ipHdrLen ?L \<le> cksum_pos ?L" using ok by (simp add: layout_ok_def cksum_pos_def)
    then have "take (L_ipHdrLen ?L) (recalc_transport ?L ?q) = take (L_ipHdrLen ?L) ?q"
      using recalc_transport_write [OF okq hp] write16be_take_above by metis
    then show ?thesis using recalc_ip_checks [OF ok that valid_first_byte [OF v]] by (simp add: recalc_valid [OF v])
  next
    case False
    then show ?thesis
      using recalc_ip_checks [OF ok that valid_first_byte [OF v]] by (simp add: recalc_transport_other recalc_valid [OF v])
  qed
  show "foldChecksum (sum16 (segment (L_transportOffset ?L) n (packetRecalcChecksums p))
      (pseudoHeaderSum (packetRecalcChecksums p) ?L n)) = 0"
    if "has_ports ?L" "n = L_transportLen ?L + L_payloadLen ?L"
    using recalc_transport_checks [OF okq that(1) _ that(2)] len by (simp add: recalc_valid [OF v])
qed

text \<open>Rewriting payload bytes leaves the layout alone.\<close>

lemma parse_payload_update:
  assumes "length q = length p" and "\<And>j. j < L_payloadOffset (parse p) \<Longrightarrow> q ! j = p ! j"
    and "packetGetPayload p = Some (off, n)"
  shows "parse q = parse p"
proof -
  from assms(3) have v: "L_valid (parse p)" and off: "L_payloadOffset (parse p) = off"
    by (auto simp: packetGetPayload_def Let_def split: if_splits)
  from packetGetPayload_bounds [OF assms(3)] have "28 \<le> off" by simp
  from assms(3) have "L_payloadLen (parse p) \<noteq> 0" by (auto simp: packetGetPayload_def Let_def split: if_splits)
  with parse_ok [OF v] have "has_ports (parse p)"
    "off = L_transportOffset (parse p) + L_transportLen (parse p)"
    "L_proto (parse p) = PROTO_TCP \<longrightarrow> 20 \<le> L_transportLen (parse p)"
    using off by (auto simp: layout_ok_def split: if_splits)
  then show ?thesis using \<open>28 \<le> off\<close> off assms(1,2) by (intro parse_cong) auto
qed

text \<open>The RST flag is byte 13 of the TCP header.\<close>

lemma set_rst_parse:
  assumes "L_valid (parse p)" "L_proto (parse p) = PROTO_TCP"
  shows "parse (p[L_transportOffset (parse p) + 13 := b]) = parse p"
proof -
  have "20 \<le> L_transportOffset (parse p)" using parse_ok [OF assms(1)] by (simp add: layout_ok_def)
  then show ?thesis by (intro parse_cong) auto
qed

lemma packetSetTcpRst_Some:
  assumes "packetSetTcpRst p = Some q"
  shows "length q = length p \<and> parse q = parse p \<and> L_proto (parse p) = PROTO_TCP \<and>
    L_transportOffset (parse p) + 20 \<le> length p \<and>
    q ! (L_transportOffset (parse p) + 13) = p ! (L_transportOffset (parse p) + 13) OR TCP_FLAG_RST \<and>
    (\<forall>j. j \<notin> {10, 11, L_transportOffset (parse p) + 13, L_transportOffset (parse p) + 16, L_transportOffset (parse p) + 17}
       \<longrightarrow> q ! j = p ! j)"
proof -
  let ?off = "L_transportOffset (parse p)" let ?r = "p[?off + 13 := p ! (?off + 13) OR TCP_FLAG_RST]"
  from assms have v: "L_valid (parse p)" and t: "L_proto (parse p) = PROTO_TCP" and le: "?off + 20 \<le> length p"
    and q: "q = packetRecalcChecksums ?r"
    by (auto simp: packetSetTcpRst_def Let_def TCP_MIN_HDR_def TCP_FLAGS_OFFSET_def split: if_splits)
  have off: "20 \<le> ?off" using parse_ok [OF v] by (simp add: layout_ok_def)
  note pr = set_rst_parse [OF v t]
  have cp: "cksum_pos (parse ?r) = ?off + 16" by (simp add: pr cksum_pos_def t)
  have bytes: "q ! j = ?r ! j" if "j \<notin> {10, 11, ?off + 16, ?off + 17}" for j
    unfolding q by (rule recalc_bytes) (use that cp in auto)
  have "q ! (?off + 13) = p ! (?off + 13) OR TCP_FLAG_RST" using bytes [of "?off + 13"] off le by simp
  moreover have "\<forall>j. j \<notin> {10, 11, ?off + 13, ?off + 16, ?off + 17} \<longrightarrow> q ! j = p ! j" using bytes by simp
  moreover have "parse q = parse p" by (simp add: q recalc_parse pr)
  ultimately show ?thesis using t le by (simp add: q)
qed


subsection \<open>What a receiver computes\<close>

text \<open>
  The formats of RFC 791 and RFC 2460 on bytes, as numbers. A datagram is whole when its total length is inside the
  packet and no fragment bit and offset is set; what it carries counts as TCP or UDP when that header is whole too.
\<close>

definition byte_at :: "u8 list \<Rightarrow> nat \<Rightarrow> nat" where
  "byte_at p i = unat (p ! i)"

definition field_at :: "u8 list \<Rightarrow> nat \<Rightarrow> nat" where
  "field_at p i = 256 * byte_at p i + byte_at p (i + 1)"

definition ip_version :: "u8 list \<Rightarrow> nat" where
  "ip_version p = byte_at p 0 div 16"

definition header_size :: "u8 list \<Rightarrow> nat" where
  "header_size p = (if ip_version p = 4 then 4 * (byte_at p 0 mod 16) else 40)"

definition datagram_size :: "u8 list \<Rightarrow> nat" where
  "datagram_size p = (if ip_version p = 4 then field_at p 2 else 40 + field_at p 4)"

definition ip_protocol :: "u8 list \<Rightarrow> nat" where
  "ip_protocol p = byte_at p (if ip_version p = 4 then 9 else 6)"

definition ip_header :: "u8 list \<Rightarrow> bool" where
  "ip_header p \<longleftrightarrow> ip_version p = 4 \<and> 20 \<le> header_size p \<and> header_size p \<le> length p \<or>
     ip_version p = 6 \<and> header_size p \<le> length p"

definition ip_fragment :: "u8 list \<Rightarrow> bool" where
  "ip_fragment p \<longleftrightarrow> ip_version p = 4 \<and> field_at p 6 mod 16384 \<noteq> 0"

definition whole_datagram :: "u8 list \<Rightarrow> bool" where
  "whole_datagram p \<longleftrightarrow> ip_header p \<and> \<not> ip_fragment p \<and> header_size p \<le> datagram_size p \<and> datagram_size p \<le> length p"

definition segment_of :: "u8 list \<Rightarrow> u8 list" where
  "segment_of p = drop (header_size p) (take (datagram_size p) p)"

definition carries_tcp :: "u8 list \<Rightarrow> bool" where
  "carries_tcp p \<longleftrightarrow> whole_datagram p \<and> ip_protocol p = 6 \<and> 20 \<le> length (segment_of p) \<and>
     (let d = 4 * (byte_at p (header_size p + 12) div 16) in 20 \<le> d \<and> d \<le> length (segment_of p))"

definition carries_udp :: "u8 list \<Rightarrow> bool" where
  "carries_udp p \<longleftrightarrow> whole_datagram p \<and> ip_protocol p = 17 \<and> 8 \<le> length (segment_of p) \<and>
     field_at p (header_size p + 4) = length (segment_of p)"

text \<open>Source, destination, protocol and length, in the layouts of RFC 793 and RFC 2460.\<close>

definition pseudo_header :: "u8 list \<Rightarrow> u8 list" where
  "pseudo_header p = (let n = length (segment_of p) in
     if ip_version p = 4 then
       segment 12 4 p @ segment 16 4 p @ [0, of_nat (ip_protocol p), of_nat (n div 256), of_nat (n mod 256)]
     else segment 8 16 p @ segment 24 16 p @
       [of_nat (n div 16777216), of_nat (n div 65536 mod 256), of_nat (n div 256 mod 256), of_nat (n mod 256),
        0, 0, 0, of_nat (ip_protocol p)])"

text \<open>
  A one's complement sum of 16-bit words is all ones exactly when the sum of the words is a positive multiple of 65535.
\<close>

definition checksum_right :: "u8 list \<Rightarrow> bool" where
  "checksum_right bs \<longleftrightarrow> 0 < wsum bs \<and> wsum bs mod 65535 = 0"

definition header_checksum_right :: "u8 list \<Rightarrow> bool" where
  "header_checksum_right p \<longleftrightarrow> checksum_right (take (header_size p) p)"

definition segment_checksum_right :: "u8 list \<Rightarrow> bool" where
  "segment_checksum_right p \<longleftrightarrow> checksum_right (pseudo_header p @ segment_of p)"

lemma unat_high: "unat (drop_bit 4 b) = unat b div 16" for b :: u8
  by (simp only: unat_drop_bit_eq) (simp add: drop_bit_eq_div)

lemma unat_low: "unat (b AND 15) = unat b mod 16" for b :: u8
proof -
  have "b AND 15 = take_bit 4 b" by (simp add: take_bit_eq_mask mask_eq_exp_minus_1)
  then have "unat (b AND 15) = take_bit 4 (unat b)" by (simp only: unsigned_take_bit_eq)
  then show ?thesis by (simp add: take_bit_eq_mod)
qed

lemma read_field: "unat (read16be p i) = field_at p i"
  by (simp add: read16be_def unat_be16 field_at_def byte_at_def)

lemma offset_bits: "read16be p 6 AND 0x1FFF = 0 \<longleftrightarrow> field_at p 6 mod 8192 = 0"
proof -
  have "read16be p 6 AND 0x1FFF = take_bit 13 (read16be p 6)" by (simp add: take_bit_eq_mask mask_eq_exp_minus_1)
  then have "unat (read16be p 6 AND 0x1FFF) = field_at p 6 mod 8192"
    by (simp only: unsigned_take_bit_eq read_field) (simp add: take_bit_eq_mod)
  then show ?thesis by (metis unat_eq_0)
qed

lemma proto_numbers: "b = PROTO_TCP \<longleftrightarrow> unat b = 6" "b = PROTO_UDP \<longleftrightarrow> unat b = 17"
  using word_unat_eq_iff [of b PROTO_TCP] word_unat_eq_iff [of b PROTO_UDP] by (simp_all add: PROTO_TCP_def PROTO_UDP_def)

lemma wsum_len2: "n \<le> 65535 \<Longrightarrow> unat (of_nat (n div 256) :: u8) = n div 256 \<and> unat (of_nat (n mod 256) :: u8) = n mod 256"
  by (simp add: unsigned_of_nat take_bit_nat_eq_self less_mult_imp_div_less)

text \<open>The layout \<^verbatim>\<open>parse\<close> finds in a header, in these terms.\<close>

definition header_layout :: "u8 list \<Rightarrow> layout" where
  "header_layout p = layout0\<lparr>L_isV4 := (ip_version p = 4), L_ipHdrLen := header_size p,
     L_proto := (if ip_version p = 4 then p ! 9 else p ! 6), L_fragment := (ip_version p = 4 \<and> field_at p 6 mod 8192 \<noteq> 0)\<rparr>"

lemma parse_header:
  assumes "ip_header p"
  shows "parse p = parse_transport p (if datagram_size p > length p \<or> datagram_size p < header_size p then length p else datagram_size p) (header_layout p)"
  using assms unfolding ip_header_def
proof (elim disjE conjE)
  assume h: "ip_version p = 4" "20 \<le> header_size p" "header_size p \<le> length p"
  have v: "\<not> length p < 20" "unat (drop_bit 4 (p ! 0)) = 4" using h by (simp_all add: unat_high ip_version_def byte_at_def)
  have size: "unat (p ! 0 AND 15) * 4 = header_size p" using h(1) by (simp add: unat_low header_size_def byte_at_def)
  show ?thesis using h
    by (simp add: parse_v4 [OF v] Let_def size read_field datagram_size_def header_layout_def offset_bits)
next
  assume h: "ip_version p = 6" "header_size p \<le> length p"
  have v: "\<not> length p < 20" "unat (drop_bit 4 (p ! 0)) = 6" using h by (simp_all add: unat_high ip_version_def byte_at_def header_size_def)
  show ?thesis using h
    by (simp add: parse_v6 [OF v] Let_def read_field datagram_size_def header_layout_def header_size_def layout0_def)
qed

lemma no_header: "L_valid (parse p) \<Longrightarrow> ip_header p"
proof (rule ccontr)
  assume v: "L_valid (parse p)" and n: "\<not> ip_header p"
  consider (v4) "\<not> length p < 20" "unat (drop_bit 4 (p ! 0)) = 4" | (v6) "\<not> length p < 20" "unat (drop_bit 4 (p ! 0)) = 6"
    using v parse_other [of p] by (fastforce simp: layout0_def)
  then show False
  proof cases
    case v4
    then have "ip_version p = 4" "unat (p ! 0 AND 15) * 4 = header_size p"
      by (simp_all add: unat_high unat_low ip_version_def header_size_def byte_at_def)
    then show False using v n by (simp add: parse_v4 [OF v4] Let_def ip_header_def layout0_def split: if_splits)
  next
    case v6
    then have "ip_version p = 6" "header_size p = 40" by (simp_all add: unat_high ip_version_def header_size_def byte_at_def)
    then show False using v n by (simp add: parse_v6 [OF v6] ip_header_def layout0_def split: if_splits)
  qed
qed

text \<open>A datagram with a whole TCP or UDP header: the layout found is the right one.\<close>

lemma carries_layout:
  assumes "carries_tcp p \<or> carries_udp p"
  shows "L_valid (parse p)" "has_ports (parse p)" "L_isV4 (parse p) \<longleftrightarrow> ip_version p = 4"
    "L_transportOffset (parse p) = header_size p" "L_transportLen (parse p) + L_payloadLen (parse p) = length (segment_of p)"
    "unat (L_proto (parse p)) = ip_protocol p" "L_proto (parse p) = PROTO_TCP \<longleftrightarrow> carries_tcp p"
    "segment (header_size p) (length (segment_of p)) p = segment_of p"
proof -
  let ?s = "length (segment_of p)"
  have w: "whole_datagram p" "ip_header p" using assms by (auto simp: carries_tcp_def carries_udp_def whole_datagram_def)
  then have size: "?s = datagram_size p - header_size p" "header_size p \<le> datagram_size p" "datagram_size p \<le> length p"
    by (simp_all add: segment_of_def whole_datagram_def)
  have nofrag: "\<not> L_fragment (header_layout p)"
  proof
    assume "L_fragment (header_layout p)"
    then have "ip_version p = 4" "field_at p 6 mod 8192 \<noteq> 0" by (simp_all add: header_layout_def)
    moreover have "field_at p 6 mod 16384 mod 8192 = field_at p 6 mod 8192" by (simp add: mod_mod_cancel)
    ultimately show False using w(1) by (auto simp: whole_datagram_def ip_fragment_def)
  qed
  have pr: "unat (L_proto (header_layout p)) = ip_protocol p" by (simp add: header_layout_def ip_protocol_def byte_at_def)
  have tl: "unat (drop_bit 4 (p ! (header_size p + 12))) * 4 = 4 * (byte_at p (header_size p + 12) div 16)"
    by (simp add: unat_high byte_at_def)
  have eq: "parse p = parse_transport p (datagram_size p) (header_layout p)"
    unfolding parse_header [OF w(2)] using size by simp
  have base: "L_ipHdrLen (header_layout p) = header_size p" "L_isV4 (header_layout p) \<longleftrightarrow> ip_version p = 4"
    by (simp_all add: header_layout_def)
  have tcp: "L_proto (header_layout p) = PROTO_TCP \<longleftrightarrow> carries_tcp p"
    using assms pr by (auto simp: carries_tcp_def carries_udp_def proto_numbers)
  have udp: "\<not> carries_tcp p \<Longrightarrow> L_proto (header_layout p) = PROTO_UDP \<and> carries_udp p"
    using assms pr by (auto simp: carries_udp_def proto_numbers)
  have all: "L_valid (parse p) \<and> L_transportLen (parse p) + L_payloadLen (parse p) = ?s"
  proof (cases "carries_tcp p")
    case True
    then have d: "20 \<le> ?s" "20 \<le> 4 * (byte_at p (header_size p + 12) div 16)" "4 * (byte_at p (header_size p + 12) div 16) \<le> ?s"
      by (simp_all add: carries_tcp_def Let_def)
    define D where "D = 4 * (byte_at p (header_size p + 12) div 16)"
    have "20 \<le> D" "header_size p + D \<le> datagram_size p" "header_size p + D \<le> length p" "header_size p + 20 \<le> length p"
      using d size by (simp_all add: D_def)
    moreover have "unat (drop_bit 4 (p ! (header_size p + 12))) * 4 = D" by (simp add: tl D_def)
    ultimately show ?thesis using size nofrag tcp True base(1)
      by (simp add: eq parse_transport_def parse_payload_def Let_def TCP_MIN_HDR_def) arith
  next
    case False
    then have d: "8 \<le> ?s" "L_proto (header_layout p) = PROTO_UDP" using udp by (simp_all add: carries_udp_def)
    then have "header_size p + 8 \<le> datagram_size p" "header_size p + 8 \<le> length p" using size by simp_all
    then show ?thesis using d size nofrag tcp False base(1)
      by (simp add: eq parse_transport_def parse_payload_def Let_def UDP_HDR_LEN_def) arith
  qed
  show "L_valid (parse p)" "L_transportLen (parse p) + L_payloadLen (parse p) = ?s" using all by simp_all
  show "has_ports (parse p)" using tcp udp nofrag by (auto simp: has_ports_def eq)
  show "L_isV4 (parse p) \<longleftrightarrow> ip_version p = 4" "L_transportOffset (parse p) = header_size p" by (simp_all add: eq base)
  show "unat (L_proto (parse p)) = ip_protocol p" "L_proto (parse p) = PROTO_TCP \<longleftrightarrow> carries_tcp p" using pr tcp by (simp_all add: eq)
  show "segment (header_size p) ?s p = segment_of p" using size by (simp add: segment_def segment_of_def drop_take)
qed

lemma wsum_pseudo:
  assumes "header_size p \<le> length p" "ip_header p" "length (segment_of p) \<le> 65535"
  shows "wsum (pseudo_header p @ bs) =
    wsum (if ip_version p = 4 then segment 12 8 p else segment 8 32 p) + length (segment_of p) + ip_protocol p + wsum bs"
proof -
  let ?n = "length (segment_of p)"
  have pr: "ip_protocol p < 256" using unsigned_less [of "p ! 9", where 'a = nat] unsigned_less [of "p ! 6", where 'a = nat]
    by (simp add: ip_protocol_def byte_at_def)
  have up: "unat (of_nat (ip_protocol p) :: u8) = ip_protocol p" using pr by (simp add: unsigned_of_nat take_bit_nat_eq_self)
  have n: "?n div 16777216 = 0" "?n div 65536 = 0" using assms(3) by simp_all
  have nn: "unat (of_nat (?n div 256 mod 256) :: u8) = ?n div 256" "256 * (?n div 256) + ?n mod 256 = ?n"
    using wsum_len2 [OF assms(3)] assms(3) by (simp_all add: less_mult_imp_div_less)
  have len: "20 \<le> length p" "ip_version p \<noteq> 4 \<Longrightarrow> 40 \<le> length p" using assms(1,2) by (auto simp: ip_header_def header_size_def)
  have join: "segment 12 4 p @ segment 16 4 p = segment 12 8 p" "segment 8 16 p @ segment 24 16 p = segment 8 32 p"
    using take_add [of 4 4 "drop 12 p"] take_add [of 16 16 "drop 8 p"] by (simp_all add: segment_def)
  have e: "even (length (segment 12 8 p))" using len by (simp add: segment_def)
  have e6: "even (length (segment 8 32 p))" if "ip_version p \<noteq> 4" using len(2) [OF that] by (simp add: segment_def)
  show ?thesis
  proof (cases "ip_version p = 4")
    case True
    have "pseudo_header p @ bs = segment 12 8 p @ [0, of_nat (ip_protocol p), of_nat (?n div 256), of_nat (?n mod 256)] @ bs"
      using True join(1) by (simp add: pseudo_header_def Let_def flip: append_assoc)
    then show ?thesis using True e wsum_len2 [OF assms(3)] up nn(2) by (simp add: wsum_append)
  next
    case False
    have "pseudo_header p @ bs = segment 8 32 p @ [of_nat (?n div 16777216), of_nat (?n div 65536 mod 256),
        of_nat (?n div 256 mod 256), of_nat (?n mod 256), 0, 0, 0, of_nat (ip_protocol p)] @ bs"
      using False join(2) by (simp add: pseudo_header_def Let_def flip: append_assoc)
    then show ?thesis using False e6 [OF False] wsum_len2 [OF assms(3)] up nn n by (simp add: wsum_append)
  qed
qed

text \<open>The two receiver's tests on the result.\<close>

lemma recalc_same_view:
  assumes "L_valid (parse p)" "q = packetRecalcChecksums p"
  shows "ip_version q = ip_version p" "header_size q = header_size p" "datagram_size q = datagram_size p"
    "ip_protocol q = ip_protocol p" "length (segment_of q) = length (segment_of p)" "ip_header q = ip_header p" "length q = length p"
proof -
  have "20 \<le> L_transportOffset (parse p)" using parse_ok [OF assms(1)] by (simp add: layout_ok_def)
  then have b: "q ! j = p ! j" if "j < 10" for j
    using that assms(2) by (auto intro!: recalc_bytes simp: cksum_pos_def)
  show len: "length q = length p" by (simp add: assms(2))
  show v: "ip_version q = ip_version p" "header_size q = header_size p" "datagram_size q = datagram_size p" "ip_protocol q = ip_protocol p"
    by (simp_all add: ip_version_def header_size_def datagram_size_def ip_protocol_def field_at_def byte_at_def b)
  show "length (segment_of q) = length (segment_of p)" "ip_header q = ip_header p"
    by (simp_all add: segment_of_def ip_header_def v len)
qed

lemma zero_fold_right:
  assumes "foldChecksum acc = 0" "unat acc = wsum bs" "0 < wsum bs" shows "checksum_right bs"
  using assms foldChecksum_zero_iff [of acc] by (simp add: checksum_right_def)

lemma header_right:
  assumes "length p \<le> 65535" "L_valid (parse p)" "ip_version p = 4"
  shows "header_checksum_right (packetRecalcChecksums p)"
proof -
  let ?q = "packetRecalcChecksums p"
  have h: "ip_header p" by (rule no_header [OF assms(2)])
  have L: "L_isV4 (parse p)" "L_ipHdrLen (parse p) = header_size p" by (simp_all add: parse_header [OF h] header_layout_def assms(3))
  have len: "20 \<le> header_size p" "header_size p \<le> 60" "header_size p \<le> length p"
    using parse_ok [OF assms(2)] L by (simp_all add: layout_ok_def)
  note same = recalc_same_view [OF assms(2) refl]
  let ?h = "take (header_size p) ?q"
  have u: "unat (sum16 ?h 0) = wsum ?h" using wsum_bound [of ?h] len by (subst sum16_wsum) (simp_all add: same(7))
  have "0 < unat (?q ! 0)" using same(1) assms(3) by (simp add: ip_version_def byte_at_def)
  moreover have "length ?h = header_size p" using len by simp
  then have "?h \<noteq> []" using len(1) by (metis list.size(3) not_numeral_le_zero)
  ultimately have "0 < wsum ?h" using len by (intro wsum_first) simp_all
  from zero_fold_right [OF recalc_folds(1) [OF assms(1,2) L(1), unfolded L(2)] u this]
  show ?thesis by (simp add: header_checksum_right_def same(2))
qed

lemma segment_right:
  assumes "length p \<le> 65535" "carries_tcp p \<or> carries_udp p"
  shows "segment_checksum_right (packetRecalcChecksums p)"
proof -
  let ?q = "packetRecalcChecksums p" and ?n = "length (segment_of p)"
  note L = carries_layout [OF assms(2)]
  note same = recalc_same_view [OF L(1) refl]
  have n: "?n \<le> 65535" using assms(1) by (simp add: segment_of_def)
  have whole: "whole_datagram p" using assms(2) by (auto simp: carries_tcp_def carries_udp_def)
  then have "?n = datagram_size p - header_size p" by (simp add: whole_datagram_def segment_of_def)
  then have seg: "segment (header_size p) ?n ?q = segment_of ?q"
    by (simp add: segment_def segment_of_def same drop_take)
  let ?acc = "pseudoHeaderSum ?q (parse p) ?n"
  have pos: "0 < ip_protocol p" using assms(2) by (auto simp: carries_tcp_def carries_udp_def)
  have val: "unat ?acc = wsum (if ip_version p = 4 then segment 12 8 ?q else segment 8 32 ?q) + ?n + ip_protocol p"
    using pseudoHeaderSum_value(1) [OF n, of ?q "parse p"] L(3,6) by simp
  have w: "wsum (pseudo_header ?q @ segment_of ?q) = unat ?acc + wsum (segment_of ?q)"
    using wsum_pseudo [of ?q "segment_of ?q"] whole n val by (simp add: same whole_datagram_def)
  have "wsum (segment_of ?q) \<le> 65535 * 32768"
  proof -
    have "65535 * ((?n + 1) div 2) \<le> 65535 * 32768" using n by (intro mult_le_mono2) simp
    then show ?thesis using wsum_bound [of "segment_of ?q"] same(5) by simp
  qed
  then have u: "unat (sum16 (segment_of ?q) ?acc) = wsum (pseudo_header ?q @ segment_of ?q)"
    unfolding w using pseudoHeaderSum_value(2) [OF n, of ?q "parse p"] by (intro sum16_wsum) simp
  have z: "foldChecksum (sum16 (segment_of ?q) ?acc) = 0"
    using recalc_folds(2) [OF assms(1) L(1,2) L(5) [symmetric]] by (simp only: L(4) seg)
  show ?thesis unfolding segment_checksum_right_def
    by (rule zero_fold_right [OF z u]) (use w val pos in simp)
qed

text \<open>A computed UDP checksum is never the zero that stands for none.\<close>

lemma udp_not_zero:
  assumes "length p \<le> 65535" "carries_udp p"
  shows "field_at (packetRecalcChecksums p) (header_size p + 6) \<noteq> 0"
proof -
  note L = carries_layout [OF disjI2 [OF assms(2)]]
  let ?L = "parse p" let ?r = "recalc_ip ?L p"
  have np: "L_proto ?L = PROTO_UDP" using L(6) assms(2) by (simp add: carries_udp_def proto_numbers)
  have fits: "header_size p + 8 \<le> length p" "header_size p + length (segment_of p) \<le> length p"
    using assms(2) by (auto simp: carries_udp_def whole_datagram_def segment_of_def)
  obtain ck where ck: "recalc_transport ?L ?r = write16be ?r (header_size p + 6) ck" "ck \<noteq> 0"
    using np L(2,4) fits by (auto simp: recalc_transport_def has_ports_def Let_def L(5) proto_numbers split: if_splits)
  have "field_at (write16be ?r (header_size p + 6) ck) (header_size p + 6) = unat ck"
    using fits unat_hi_lo [of ck] by (simp add: field_at_def byte_at_def write16be_def nth_list_update)
  then show ?thesis using ck by (simp add: recalc_valid [OF L(1)] unat_eq_0)
qed

subsection \<open>Properties\<close>

text \<open>A 29-byte UDP datagram with one payload byte and zero checksums, and a TCP segment without options.\<close>

definition udp_example :: "u8 list" where
  "udp_example = [0x45,0,0,29, 0,1,0,0, 64,17,0,0, 10,0,0,1, 10,0,0,2, 0x30,0x39,0x27,0x0F, 0,9,0,0, 0x41]"

definition tcp_example :: "u8 list" where
  "tcp_example = [0x45,0,0,40, 0,1,0,0, 64,6,0,0, 10,0,0,1, 10,0,0,2,
     0x30,0x39,0,80, 0,0,0,1, 0,0,0,0, 0x50,0x10,0x20,0, 0,0,0,0]"



text \<open>a payload that is reported lies inside the packet, behind the headers, and is not empty.\<close>

theorem payload_inside_packet:
  "case packetGetPayload p of None \<Rightarrow> True
   | Some (off, n) \<Rightarrow> 28 \<le> off \<and> 0 < n \<and> off + n \<le> length p"
  by (cases "packetGetPayload p") (auto dest: packetGetPayload_bounds)



end
