(* ===== verification/Tamper.thy ===== *)
theory Tamper
  imports Module_Base Packet_Util
begin

text \<open>
  \<^verbatim>\<open>src/src/tamper.cpp\<close>: one quarter of the payload of a chosen packet is XORed with a cycling
  pattern. \<open>tamper_buf_spec\<close> gives the result byte by byte, \<open>tamper_region\<close> that the rewritten
  quarter lies inside the payload for every position setting and every draw.
\<close>

definition POS_FRONT :: int where "POS_FRONT = 0"
definition POS_CENTER :: int where "POS_CENTER = 1"
definition POS_BACK :: int where "POS_BACK = 2"
definition POS_RANDOM :: int where "POS_RANDOM = 3"

definition patterns :: "u8 list" where
  "patterns = [0x64, 0x13, 0x88, 0x40, 0x1F, 0xA0, 0xAA, 0x55]"

record tamper_state = module_base +
  tamperChance :: int
  tamperChecksum :: bool
  tamperPos :: int
  patIx :: u32

definition tamper_init :: tamper_state where
  "tamper_init = module_base.extend module_defaults
     \<lparr>tamperChance = 1000, tamperChecksum = True, tamperPos = POS_CENTER, patIx = 0\<rparr>"

definition tamperStartup :: "tamper_state \<Rightarrow> env \<Rightarrow> tamper_state \<times> env" where
  "tamperStartup m e = (m\<lparr>patIx := 0\<rparr>, e)"

definition tamperCloseDown :: "tamper_state \<Rightarrow> packet list \<Rightarrow> env \<Rightarrow> (tamper_state \<times> packet list \<times> env) option" where
  "tamperCloseDown m xs e = Some (m, xs, e)"

text \<open>\<^verbatim>\<open>buf\<close> is the offset \<open>i\<close> in the packet, \<^verbatim>\<open>len\<close> counts down.\<close>

fun tamper_buf :: "nat \<Rightarrow> nat \<Rightarrow> u32 \<Rightarrow> u8 list \<Rightarrow> u32 \<times> u8 list" where
  "tamper_buf i 0 ix p = (ix, p)"
| "tamper_buf i (Suc n) ix p = tamper_buf (i + 1) n (ix + 1) (p[i := p ! i XOR patterns ! unat (ix AND 7)])"

definition tamper_offset :: "int \<Rightarrow> nat \<Rightarrow> env \<Rightarrow> nat \<times> env" where
  "tamper_offset pos dataLen e =
     (let len_d4 = dataLen div 4 in
      if pos = POS_FRONT then (0, e)
      else if pos = POS_BACK then (dataLen - len_d4, e)
      else if pos = POS_RANDOM then (case c_rand e of (r, e) \<Rightarrow> (r mod (dataLen - len_d4 + 1), e))
      else (dataLen div 2 - len_d4 div 2 + 1, e))"

text \<open>The bytes of one chosen packet whose payload is at \<open>off\<close>, \<open>n\<close> bytes long.\<close>

definition tamper_data :: "tamper_state \<Rightarrow> nat \<Rightarrow> nat \<Rightarrow> u8 list \<Rightarrow> env \<Rightarrow> u32 \<times> u8 list \<times> env" where
  "tamper_data m off n p e =
     (if n \<le> 4 then (case tamper_buf off n (patIx m) p of (ix, p) \<Rightarrow> (ix, p, e))
      else
        (case tamper_offset (tamperPos m) n e of (offset, e) \<Rightarrow>
         case tamper_buf (off + offset) (n div 4) (patIx m) p of (ix, p) \<Rightarrow> (ix, p, e)))"

definition tamper_body ::
  "tamper_state \<times> bool \<Rightarrow> packet \<Rightarrow> env \<Rightarrow> (tamper_state \<times> bool) \<times> packet list \<times> env" where
  "tamper_body s p e =
     (case s of (m, tampered) \<Rightarrow>
      case chosen m (tamperChance m) p e of (hit, e) \<Rightarrow>
        if hit then
          (case packetGetPayload (pdata p) of
             None \<Rightarrow> ((m, tampered), [p], e)
           | Some (off, n) \<Rightarrow>
               (case tamper_data m off n (pdata p) e of (ix, d, e) \<Rightarrow>
                let d = (if tamperChecksum m then packetRecalcChecksums d else d) in
                ((count_affected (m\<lparr>patIx := ix\<rparr>), True), [p\<lparr>pdata := d\<rparr>], e)))
        else ((m, tampered), [p], e))"

definition tamperProcess :: "tamper_state \<Rightarrow> packet list \<Rightarrow> env \<Rightarrow> tamper_state \<times> packet list \<times> env \<times> bool" where
  "tamperProcess m xs e =
     (case packet_loop tamper_body (m, False) xs e of ((m, tampered), xs, e) \<Rightarrow> (m, xs, e, tampered))"

subsection \<open>The rewritten bytes\<close>

lemma tamper_buf_spec:
  "i + n \<le> length p \<Longrightarrow> tamper_buf i n ix p = (ix', p') \<Longrightarrow>
     ix' = ix + of_nat n \<and> length p' = length p \<and>
     (\<forall>j. p' ! j = (if i \<le> j \<and> j < i + n
        then p ! j XOR patterns ! unat ((ix + of_nat (j - i)) AND 7) else p ! j))"
proof (induction i n ix p rule: tamper_buf.induct)
  case (1 i ix p)
  then have "ix' = ix" "p' = p" by simp_all
  then show ?case by auto
next
  case (2 i n ix p)
  let ?p = "p[i := p ! i XOR patterns ! unat (ix AND 7)]"
  have "i + 1 + n \<le> length ?p" using "2.prems"(1) by simp
  from "2.IH" [OF this] "2.prems"(2) have ih: "ix' = ix + 1 + of_nat n" "length p' = length ?p"
    "\<And>j. p' ! j = (if i + 1 \<le> j \<and> j < i + 1 + n
        then ?p ! j XOR patterns ! unat ((ix + 1 + of_nat (j - (i + 1))) AND 7) else ?p ! j)"
    by simp_all
  have "p' ! j = (if i \<le> j \<and> j < i + Suc n
        then p ! j XOR patterns ! unat ((ix + of_nat (j - i)) AND 7) else p ! j)" for j
  proof (cases "j = i")
    case True
    then show ?thesis using ih(3) [of j] "2.prems"(1) by simp
  next
    case False
    show ?thesis
    proof (cases "i < j")
      case True
      then have "ix + 1 + of_nat (j - (i + 1)) = ix + of_nat (j - i)"
        by (simp add: of_nat_diff algebra_simps)
      then show ?thesis using ih(3) [of j] True by simp
    next
      case l: False
      then show ?thesis using ih(3) [of j] False by simp
    qed
  qed
  then show ?case using ih(1,2) by simp
qed

lemma patterns_nonzero: "patterns ! unat (x AND 7) \<noteq> 0" for x :: u32
proof -
  have "x AND 7 = take_bit 3 x" by (simp add: take_bit_eq_mask mask_eq_exp_minus_1)
  then have "unat (x AND 7) = take_bit 3 (unat x)" by (simp only: unsigned_take_bit_eq)
  then have "unat (x AND 7) < 8" by (simp add: take_bit_eq_mod)
  then have "unat (x AND 7) \<in> {0, 1, 2, 3, 4, 5, 6, 7}" by auto
  then show ?thesis by (auto simp: patterns_def)
qed

lemma xor_eq_left_iff: "a XOR b = a \<longleftrightarrow> b = 0" for a b :: "'w::len word"
proof
  assume "a XOR b = a"
  then have "a XOR (a XOR b) = a XOR a" by simp
  then show "b = 0" by (simp flip: xor.assoc)
qed simp

lemma tamper_buf_changed:
  assumes "i + n \<le> length p" "tamper_buf i n ix p = (ix', p')"
  shows "{j. p' ! j \<noteq> p ! j} = {i..<i + n}"
proof -
  have "p' ! j \<noteq> p ! j \<longleftrightarrow> i \<le> j \<and> j < i + n" for j
  proof -
    have "p' ! j = (if i \<le> j \<and> j < i + n
        then p ! j XOR patterns ! unat ((ix + of_nat (j - i)) AND 7) else p ! j)"
      by (rule tamper_buf_spec [OF assms, THEN conjunct2, THEN conjunct2, THEN spec])
    then show ?thesis
      by (cases "i \<le> j \<and> j < i + n") (simp_all only: if_True if_False xor_eq_left_iff patterns_nonzero simp_thms)
  qed
  then show ?thesis by (intro set_eqI) (simp only: mem_Collect_eq atLeastLessThan_iff)
qed

text \<open>Every position leaves room for the quarter.\<close>

lemma tamper_region: "4 < n \<Longrightarrow> tamper_offset pos n e = (off, e') \<Longrightarrow> off + n div 4 \<le> n"
proof -
  assume n: "4 < n" and eq: "tamper_offset pos n e = (off, e')"
  consider "off = 0" | "off = n - n div 4" | "\<exists>r. off = r mod (n - n div 4 + 1)" | "off = n div 2 - n div 4 div 2 + 1"
    using eq by (auto simp: tamper_offset_def Let_def split: if_splits prod.splits)
  then show ?thesis
  proof cases
    case 3
    then have "off < n - n div 4 + 1" by auto
    then show ?thesis by linarith
  qed (use n in linarith)+
qed

lemma tamper_data_spec:
  assumes pl: "packetGetPayload p = Some (off, n)" and eq: "tamper_data m off n p e = (ix, d, e')"
  shows "\<exists>a. off \<le> a \<and> a + (if n \<le> 4 then n else n div 4) \<le> off + n \<and> length d = length p \<and>
    {j. d ! j \<noteq> p ! j} = {a..<a + (if n \<le> 4 then n else n div 4)} \<and> parse d = parse p \<and> quiet e e'"
proof -
  note b = packetGetPayload_bounds [OF pl]
  have "\<exists>a. off \<le> a \<and> a + (if n \<le> 4 then n else n div 4) \<le> off + n \<and> quiet e e' \<and>
      tamper_buf a (if n \<le> 4 then n else n div 4) (patIx m) p = (ix, d)"
  proof (cases "n \<le> 4")
    case True
    obtain ix' d' where t: "tamper_buf off n (patIx m) p = (ix', d')" by (metis surj_pair)
    then have "ix = ix'" "d = d'" "e' = e" using eq True by (simp_all add: tamper_data_def)
    with t True show ?thesis by (intro exI [of _ off]) simp
  next
    case False
    obtain offset e1 where o: "tamper_offset (tamperPos m) n e = (offset, e1)" by (metis surj_pair)
    have "quiet e e1" using o
      by (auto simp: tamper_offset_def Let_def dest!: quiet_c_rand split: if_splits prod.splits)
    moreover have "offset + n div 4 \<le> n" using tamper_region [OF _ o] False by simp
    moreover obtain ix' d' where t: "tamper_buf (off + offset) (n div 4) (patIx m) p = (ix', d')" by (metis surj_pair)
    moreover have "ix = ix'" "d = d'" "e' = e1" using eq False o t by (simp_all add: tamper_data_def)
    ultimately show ?thesis using False by (intro exI [of _ "off + offset"]) simp
  qed
  then obtain a where a: "off \<le> a" "a + (if n \<le> 4 then n else n div 4) \<le> off + n" "quiet e e'"
    and t: "tamper_buf a (if n \<le> 4 then n else n div 4) (patIx m) p = (ix, d)" by (elim exE conjE) (rule that)
  have le: "a + (if n \<le> 4 then n else n div 4) \<le> length p" using a b by linarith
  note sp = tamper_buf_spec [OF le t]
  have off: "L_payloadOffset (parse p) = off"
    using pl by (auto simp: packetGetPayload_def Let_def split: if_splits)
  have "parse d = parse p"
  proof (rule parse_payload_update [OF _ _ pl])
    show "length d = length p" by (rule sp [THEN conjunct2, THEN conjunct1])
    show "d ! j = p ! j" if "j < L_payloadOffset (parse p)" for j
    proof -
      have "\<not> a \<le> j" using that off a(1) by linarith
      then show ?thesis using sp by simp
    qed
  qed
  moreover have "length d = length p" by (rule sp [THEN conjunct2, THEN conjunct1])
  ultimately show ?thesis using a tamper_buf_changed [OF le t] by (intro exI [of _ a] conjI)
qed

subsection \<open>The module contract\<close>

lemma tamper_body_contract:
  assumes q: "nfqQueue e" and eq: "tamper_body (m, t) p e = ((m', t'), out, e')"
  shows "nfqQueue e' \<and> enabledFlag m' = enabledFlag m \<and> lastEnabled m' = lastEnabled m \<and>
    owed_all out + answered e' = owed p + answered e"
proof -
  obtain hit e1 where c: "chosen m (tamperChance m) p e = (hit, e1)" by (metis surj_pair)
  note ce = chosen_env [OF c]
  show ?thesis
  proof (cases "hit \<and> packetGetPayload (pdata p) \<noteq> None")
    case False
    then have "tamper_body (m, t) p e = ((m, t), [p], e1)"
      by (cases hit; cases "packetGetPayload (pdata p)") (simp_all add: tamper_body_def c)
    with eq have "m' = m" "out = [p]" "e' = e1" by simp_all
    with ce q show ?thesis by simp
  next
    case True
    then obtain off n where pl: "packetGetPayload (pdata p) = Some (off, n)" by auto
    obtain ix d e2 where td: "tamper_data m off n (pdata p) e1 = (ix, d, e2)" by (metis prod_cases3)
    have "quiet e1 e2" using tamper_data_spec [OF pl td] by blast
    note qe = quiet_answered [OF this]
    let ?d = "if tamperChecksum m then packetRecalcChecksums d else d"
    have "tamper_body (m, t) p e = ((count_affected (m\<lparr>patIx := ix\<rparr>), True), [p\<lparr>pdata := ?d\<rparr>], e2)"
      using True by (simp add: tamper_body_def c pl td)
    with eq have "m' = count_affected (m\<lparr>patIx := ix\<rparr>)" "out = [p\<lparr>pdata := ?d\<rparr>]" "e' = e2" by simp_all
    with ce q qe show ?thesis by simp
  qed
qed

interpretation tamper_loop: packet_body tamper_body "\<lambda>s. (enabledFlag (fst s), lastEnabled (fst s))"
  by unfold_locales (use tamper_body_contract in \<open>auto simp: split_paired_all\<close>)

interpretation tamper: packet_module tamperStartup tamperProcess tamperCloseDown
    "\<lambda>_. []" "\<lambda>_. True" "\<lambda>_. True"
  by unfold_locales
    (auto simp: tamperStartup_def tamperCloseDown_def tamperProcess_def dest: tamper_loop.loop_ledger split: prod.splits)

subsection \<open>Properties\<close>

text \<open>
  \<open>tampered c p q\<close>: \<open>q\<close> is \<open>p\<close> with a run of payload bytes changed, all of them different: the whole
  payload of at most four bytes, else a quarter of it; then, with \<open>c\<close>, the checksums are redone.
\<close>

definition tampered :: "bool \<Rightarrow> u8 list \<Rightarrow> u8 list \<Rightarrow> bool" where
  "tampered c p q \<longleftrightarrow>
     (\<exists>off n a d. packetGetPayload p = Some (off, n) \<and> off \<le> a \<and>
        a + (if n \<le> 4 then n else n div 4) \<le> off + n \<and> length d = length p \<and>
        {j. d ! j \<noteq> p ! j} = {a..<a + (if n \<le> 4 then n else n div 4)} \<and>
        q = (if c then packetRecalcChecksums d else d))"

lemma tamper_loop_spec:
  "packet_loop tamper_body (m, t) xs e = ((m', t'), xs', e') \<Longrightarrow>
     list_all2 (\<lambda>p q. q = p \<or> dir_match m p \<and> (\<exists>d. q = p\<lparr>pdata := d\<rparr> \<and> tampered (tamperChecksum m) (pdata p) d)) xs xs' \<and>
     (tamperChance m = 10000 \<longrightarrow>
        list_all2 (\<lambda>p q. dir_match m p \<and> packetGetPayload (pdata p) \<noteq> None \<longrightarrow>
          tampered (tamperChecksum m) (pdata p) (pdata q)) xs xs')"
proof (induction xs arbitrary: m t e xs')
  case Nil
  then show ?case by simp
next
  case (Cons p ps)
  from Cons.prems obtain s1 out e1 ys where b: "tamper_body (m, t) p e = (s1, out, e1)"
    and l: "packet_loop tamper_body s1 ps e1 = ((m', t'), ys, e')" and xs': "xs' = out @ ys"
    by (rule packet_loop_Cons)
  obtain hit e0 where c: "chosen m (tamperChance m) p e = (hit, e0)" by (metis surj_pair)
  have all: "hit" if "tamperChance m = 10000" "dir_match m p"
    using c that by (simp add: chosen_def calcChance_10000)
  show ?case
  proof (cases "hit \<and> packetGetPayload (pdata p) \<noteq> None")
    case False
    then have "tamper_body (m, t) p e = ((m, t), [p], e0)"
      by (cases hit; cases "packetGetPayload (pdata p)") (simp_all add: tamper_body_def c)
    with b have s: "s1 = (m, t)" "out = [p]" by simp_all
    from Cons.IH [OF l [unfolded s]] False all xs' s show ?thesis by auto
  next
    case True
    then obtain off n where pl: "packetGetPayload (pdata p) = Some (off, n)" by auto
    obtain ix d e2 where td: "tamper_data m off n (pdata p) e0 = (ix, d, e2)" by (metis prod_cases3)
    let ?d = "if tamperChecksum m then packetRecalcChecksums d else d"
    let ?m = "count_affected (m\<lparr>patIx := ix\<rparr>)"
    have "tamper_body (m, t) p e = ((?m, True), [p\<lparr>pdata := ?d\<rparr>], e2)"
      using True by (simp add: tamper_body_def c pl td)
    with b have s: "s1 = (?m, True)" "out = [p\<lparr>pdata := ?d\<rparr>]" by simp_all
    have tp: "tampered (tamperChecksum m) (pdata p) ?d"
      using tamper_data_spec [OF pl td] pl unfolding tampered_def by blast
    have f: "tamperChecksum ?m = tamperChecksum m" "tamperChance ?m = tamperChance m" "dir_match ?m = dir_match m"
      by (simp_all add: count_affected_def dir_match_def fun_eq_iff)
    have d: "dir_match m p" using c True by (auto dest: chosen_dir)
    from Cons.IH [OF l [unfolded s]] show ?thesis
      unfolding xs' s f using tp d by auto
  qed
qed

text \<open>A call of \<^verbatim>\<open>tamperProcess\<close> changes only handled packets with a payload, and in each of them a
  run of payload bytes of the right length, every byte of the run; at 100 % it changes all of them.
  Headers, other than the redone checksums, stay as they were.\<close>

theorem tamper_changes_a_quarter:
  assumes "tamperProcess m xs e = (m', xs', e', t)"
  shows "list_all2 (\<lambda>p q. q = p \<or> dir_match m p \<and> (\<exists>d. q = p\<lparr>pdata := d\<rparr> \<and> tampered (tamperChecksum m) (pdata p) d)) xs xs' \<and>
    (tamperChance m = 10000 \<longrightarrow>
       list_all2 (\<lambda>p q. dir_match m p \<and> packetGetPayload (pdata p) \<noteq> None \<longrightarrow>
         tampered (tamperChecksum m) (pdata p) (pdata q)) xs xs')"
  using assms by (intro tamper_loop_spec) (auto simp: tamperProcess_def split: prod.splits)

theorem tamper_changes_a_quarter_witness:
  "list_all2 (\<lambda>p q. dir_match (tamper_init\<lparr>tamperChance := 10000\<rparr>) p \<and> packetGetPayload (pdata p) \<noteq> None \<longrightarrow>
       tampered True (pdata p) (pdata q)) [packet_of 1 True udp_example]
     (fst (snd (tamperProcess (tamper_init\<lparr>tamperChance := 10000\<rparr>) [packet_of 1 True udp_example] (env_at 0)))) \<and>
   packetGetPayload udp_example = Some (28, 1)"
proof -
  let ?m = "tamper_init\<lparr>tamperChance := 10000\<rparr>"
  obtain m' xs' e' t where eq: "tamperProcess ?m [packet_of 1 True udp_example] (env_at 0) = (m', xs', e', t)"
    by (metis prod_cases4)
  have "tamperChecksum ?m" by (simp add: tamper_init_def module_base.defs)
  moreover have "packetGetPayload udp_example = Some (28, 1)" by code_simp
  ultimately show ?thesis using tamper_changes_a_quarter [OF eq] unfolding eq by simp
qed

end
