(* ===== verification/Corrupt.thy ===== *)
theory Corrupt
  imports Module_Base Packet_Util
begin

text \<open>
  \<^verbatim>\<open>src/src/corrupt.cpp\<close>: independent bit errors in the payload, placed by drawing the geometric
  gap to the next one. \<^verbatim>\<open>log\<close> is the real natural logarithm \<open>ln\<close> (the rounding of doubles is not
  modelled); everything the lemmas show holds whatever gaps are drawn. \<open>flipBits_spec\<close> says that the
  returned count is the number of bits that differ afterwards, and that they lie in the payload.
\<close>

record corrupt_state = module_base +
  corruptChance :: int
  corruptChecksum :: bool
  corruptBer :: int
  corruptBitsFlipped :: u64

definition corrupt_init :: corrupt_state where
  "corrupt_init = module_base.extend module_defaults
     \<lparr>corruptChance = 1000, corruptChecksum = True, corruptBer = 100, corruptBitsFlipped = 0\<rparr>"

definition corruptStartUp :: "corrupt_state \<Rightarrow> env \<Rightarrow> corrupt_state \<times> env" where
  "corruptStartUp m e = (m, e)"

definition corruptCloseDown :: "corrupt_state \<Rightarrow> packet list \<Rightarrow> env \<Rightarrow> (corrupt_state \<times> packet list \<times> env) option" where
  "corruptCloseDown m xs e = Some (m, xs, e)"

definition corruptGetBitsFlipped :: "corrupt_state \<Rightarrow> u64" where
  "corruptGetBitsFlipped m = corruptBitsFlipped m"

definition corruptResetStats :: "corrupt_state \<Rightarrow> corrupt_state" where
  "corruptResetStats m = m\<lparr>corruptBitsFlipped := 0\<rparr>"

text \<open>Bit \<open>k\<close> of the payload that starts at byte \<open>off\<close>.\<close>

definition flip_bit :: "nat \<Rightarrow> nat \<Rightarrow> u8 list \<Rightarrow> u8 list" where
  "flip_bit off k p = p[off + k div 8 := p ! (off + k div 8) XOR push_bit (k mod 8) 1]"

fun invert_bytes :: "nat \<Rightarrow> nat \<Rightarrow> u8 list \<Rightarrow> u8 list" where
  "invert_bytes i 0 p = p"
| "invert_bytes i (Suc n) p = invert_bytes (i + 1) n (p[i := NOT (p ! i)])"

function flip_loop :: "nat \<Rightarrow> nat \<Rightarrow> real \<Rightarrow> nat \<Rightarrow> nat \<Rightarrow> u8 list \<Rightarrow> env \<Rightarrow> nat \<times> u8 list \<times> env" where
  "flip_loop off totalBits logq k flipped p e =
     (case randUnit e of (u, e) \<Rightarrow>
      let gap = ln u / logq in
      if \<not> gap \<ge> 0 \<or> gap \<ge> of_nat totalBits then (flipped, p, e)
      else
        let k = k + nat \<lfloor>gap\<rfloor> in
        if k \<ge> totalBits then (flipped, p, e)
        else flip_loop off totalBits logq (k + 1) (flipped + 1) (flip_bit off k p) e)"
  by pat_completeness auto
termination
  by (relation "measure (\<lambda>(off, totalBits, logq, k, flipped, p, e). totalBits - k)") auto

declare flip_loop.simps [simp del]

definition flipBits :: "nat \<Rightarrow> nat \<Rightarrow> int \<Rightarrow> u8 list \<Rightarrow> env \<Rightarrow> nat \<times> u8 list \<times> env" where
  "flipBits off n ppm p e =
     (if n = 0 \<or> ppm \<le> 0 then (0, p, e)
      else
        let pr = of_int ppm / 1000000 in
        if pr \<ge> 1 then (n * 8, invert_bytes off n p, e)
        else flip_loop off (n * 8) (ln (1 - pr)) 0 0 p e)"

definition corrupt_body ::
  "int \<Rightarrow> corrupt_state \<times> bool \<Rightarrow> packet \<Rightarrow> env \<Rightarrow> (corrupt_state \<times> bool) \<times> packet list \<times> env" where
  "corrupt_body ppm s p e =
     (case s of (m, did) \<Rightarrow>
      case chosen m (corruptChance m) p e of (hit, e) \<Rightarrow>
        if hit then
          (case packetGetPayload (pdata p) of
             None \<Rightarrow> ((m, did), [p], e)
           | Some (off, n) \<Rightarrow>
               if n = 0 then ((m, did), [p], e)
               else
                 (case flipBits off n ppm (pdata p) e of (flipped, d, e) \<Rightarrow>
                  if flipped > 0 then
                    let d = (if corruptChecksum m then packetRecalcChecksums d else d) in
                    ((count_affected (m\<lparr>corruptBitsFlipped := corruptBitsFlipped m + of_nat flipped\<rparr>), True),
                     [p\<lparr>pdata := d\<rparr>], e)
                  else ((m, did), [p\<lparr>pdata := d\<rparr>], e)))
        else ((m, did), [p], e))"

definition corruptProcess :: "corrupt_state \<Rightarrow> packet list \<Rightarrow> env \<Rightarrow> corrupt_state \<times> packet list \<times> env \<times> bool" where
  "corruptProcess m xs e =
     (case packet_loop (corrupt_body (corruptBer m)) (m, False) xs e of ((m, did), xs, e) \<Rightarrow> (m, xs, e, did))"

subsection \<open>The flipped bits\<close>

definition payload_bit :: "nat \<Rightarrow> u8 list \<Rightarrow> nat \<Rightarrow> bool" where
  "payload_bit off p k = bit (p ! (off + k div 8)) (k mod 8)"

text \<open>The bits of an \<open>n\<close>-byte payload at which two packets differ.\<close>

definition diff_bits :: "nat \<Rightarrow> nat \<Rightarrow> u8 list \<Rightarrow> u8 list \<Rightarrow> nat set" where
  "diff_bits off n p q = {k. k < n * 8 \<and> payload_bit off q k \<noteq> payload_bit off p k}"

lemma payload_bit_flip:
  assumes "off + k div 8 < length p"
  shows "payload_bit off (flip_bit off k p) j = (payload_bit off p j \<noteq> (j = k))"
proof (cases "j div 8 = k div 8")
  case True
  have "j mod 8 < 8" "k mod 8 < 8" by simp_all
  moreover have "j = k \<longleftrightarrow> j mod 8 = k mod 8" using True by (metis mult_div_mod_eq)
  ultimately show ?thesis using assms True
    by (auto simp: payload_bit_def flip_bit_def bit_simps)
next
  case False
  then show ?thesis using assms by (auto simp: payload_bit_def flip_bit_def)
qed

lemma flip_bit_other: "j \<noteq> off + k div 8 \<Longrightarrow> flip_bit off k p ! j = p ! j"
  by (simp add: flip_bit_def)

lemma flip_bit_length [simp]: "length (flip_bit off k p) = length p"
  by (simp add: flip_bit_def)

lemma flip_loop_spec:
  assumes "flip_loop off (n * 8) logq k0 f p e = (f', p', e')" "off + n \<le> length p"
  shows "\<exists>S. S \<subseteq> {k0..<n * 8} \<and> f' = f + card S \<and> length p' = length p \<and> quiet e e' \<and>
    (\<forall>k. payload_bit off p' k = (payload_bit off p k \<noteq> (k \<in> S))) \<and>
    (\<forall>j. j < off \<or> off + n \<le> j \<longrightarrow> p' ! j = p ! j)"
  using assms
proof (induction off "n * 8" logq k0 f p e rule: flip_loop.induct)
  case (1 off logq k0 f p e)
  obtain u e1 where u: "randUnit e = (u, e1)" by (metis surj_pair)
  note qu = quiet_randUnit [OF u]
  let ?gap = "ln u / logq" let ?k = "k0 + nat \<lfloor>?gap\<rfloor>"
  show ?case
  proof (cases "(\<not> ?gap \<ge> 0 \<or> ?gap \<ge> of_nat (n * 8)) \<or> ?k \<ge> n * 8")
    case True
    then have "flip_loop off (n * 8) logq k0 f p e = (f, p, e1)"
      by (subst flip_loop.simps) (auto simp: u Let_def)
    with "1.prems"(1) have "f' = f" "p' = p" "e' = e1" by simp_all
    then show ?thesis using qu by (intro exI [of _ "{}"]) simp
  next
    case False
    then have step: "flip_loop off (n * 8) logq k0 f p e = flip_loop off (n * 8) logq (?k + 1) (f + 1) (flip_bit off ?k p) e1"
      by (subst flip_loop.simps) (simp add: u Let_def)
    have k: "?k < n * 8" using False by simp
    then have byte: "?k div 8 < n" by (simp add: less_mult_imp_div_less)
    have "off + n \<le> length (flip_bit off ?k p)" using "1.prems"(2) by simp
    with "1.hyps" [OF u [symmetric] refl _ refl _ "1.prems"(1) [unfolded step]] False obtain S where
      S: "S \<subseteq> {?k + 1..<n * 8}" "f' = f + 1 + card S" "length p' = length p" "quiet e1 e'"
      "\<And>j. payload_bit off p' j = (payload_bit off (flip_bit off ?k p) j \<noteq> (j \<in> S))"
      "\<And>j. j < off \<or> off + n \<le> j \<Longrightarrow> p' ! j = flip_bit off ?k p ! j"
      by auto
    have "?k \<notin> S" "finite S" using S(1) by (auto intro: finite_subset)
    then have "card (insert ?k S) = card S + 1" by simp
    moreover have "payload_bit off p' j = (payload_bit off p j \<noteq> (j \<in> insert ?k S))" for j
      using S(5) [of j] payload_bit_flip [of off ?k p j] byte "1.prems"(2) \<open>?k \<notin> S\<close> by auto
    moreover have "p' ! j = p ! j" if "j < off \<or> off + n \<le> j" for j
      using S(6) [OF that] flip_bit_other [of j off ?k p] that byte by auto
    moreover have "insert ?k S \<subseteq> {k0..<n * 8}" using S(1) k by auto
    ultimately show ?thesis using S(2,3) quiet_trans [OF qu S(4)]
      by (intro exI [of _ "insert ?k S"]) simp
  qed
qed

lemma invert_bytes_spec:
  "off + n \<le> length p \<Longrightarrow> length (invert_bytes off n p) = length p \<and>
     (\<forall>j. invert_bytes off n p ! j = (if off \<le> j \<and> j < off + n then NOT (p ! j) else p ! j))"
proof (induction off n p rule: invert_bytes.induct)
  case (1 i p)
  show ?case by auto
next
  case (2 i n p)
  have "i + 1 + n \<le> length (p[i := NOT (p ! i)])" using "2.prems" by simp
  note ih = "2.IH" [OF this]
  have "invert_bytes i (Suc n) p ! j = (if i \<le> j \<and> j < i + Suc n then NOT (p ! j) else p ! j)" for j
    using ih [THEN conjunct2, THEN spec, of j] "2.prems" by (cases "j = i") auto
  then show ?case using ih by simp
qed

lemma flipBits_spec:
  assumes eq: "flipBits off n ppm p e = (f, q, e')" and len: "off + n \<le> length p"
  shows "length q = length p \<and> f = card (diff_bits off n p q) \<and> quiet e e' \<and>
    (\<forall>j. j < off \<or> off + n \<le> j \<longrightarrow> q ! j = p ! j)"
proof -
  consider (none) "n = 0 \<or> ppm \<le> 0" | (all) "n \<noteq> 0" "ppm > 0" "of_int ppm / 1000000 \<ge> (1 :: real)"
    | (some) "n \<noteq> 0" "ppm > 0" "\<not> of_int ppm / 1000000 \<ge> (1 :: real)" by fastforce
  then show ?thesis
  proof cases
    case none
    then have "q = p" "f = 0" "e' = e" using eq by (simp_all add: flipBits_def)
    then show ?thesis by (simp add: diff_bits_def)
  next
    case all
    then have q: "q = invert_bytes off n p" "f = n * 8" "e' = e" using eq by (simp_all add: flipBits_def)
    note sp = invert_bytes_spec [OF len]
    have "payload_bit off q k \<noteq> payload_bit off p k" if "k < n * 8" for k
    proof -
      have "k div 8 < n" using that by (simp add: less_mult_imp_div_less)
      then have "q ! (off + k div 8) = NOT (p ! (off + k div 8))"
        using sp [THEN conjunct2, THEN spec, of "off + k div 8"] by (simp add: q)
      then show ?thesis by (simp add: payload_bit_def bit_simps)
    qed
    then have "diff_bits off n p q = {0..<n * 8}" by (auto simp: diff_bits_def)
    then show ?thesis using sp by (simp add: q)
  next
    case some
    then have "flip_loop off (n * 8) (ln (1 - of_int ppm / 1000000)) 0 0 p e = (f, q, e')"
      using eq by (simp add: flipBits_def Let_def)
    from flip_loop_spec [OF this len] obtain S where
      S: "S \<subseteq> {0..<n * 8}" "f = card S" "length q = length p" "quiet e e'"
      "\<And>k. payload_bit off q k = (payload_bit off p k \<noteq> (k \<in> S))"
      "\<And>j. j < off \<or> off + n \<le> j \<Longrightarrow> q ! j = p ! j" by auto
    have "diff_bits off n p q = S" using S(1,5) by (auto simp: diff_bits_def)
    with S show ?thesis by simp
  qed
qed

lemma diff_bits_nonempty:
  assumes "diff_bits off n p q \<noteq> {}" shows "q \<noteq> p"
  using assms by (auto simp: diff_bits_def)

subsection \<open>The module contract\<close>

lemma corrupt_body_contract:
  assumes q: "nfqQueue e" and eq: "corrupt_body ppm (m, t) p e = ((m', t'), out, e')"
  shows "nfqQueue e' \<and> enabledFlag m' = enabledFlag m \<and> lastEnabled m' = lastEnabled m \<and>
    owed_all out + answered e' = owed p + answered e"
proof -
  obtain hit e1 where c: "chosen m (corruptChance m) p e = (hit, e1)" by (metis surj_pair)
  note ce = chosen_env [OF c]
  show ?thesis
  proof (cases "hit \<and> packetGetPayload (pdata p) \<noteq> None")
    case False
    then have "corrupt_body ppm (m, t) p e = ((m, t), [p], e1)"
      by (cases hit; cases "packetGetPayload (pdata p)") (simp_all add: corrupt_body_def c)
    with eq have "m' = m" "out = [p]" "e' = e1" by simp_all
    with ce q show ?thesis by simp
  next
    case True
    then obtain off n where pl: "packetGetPayload (pdata p) = Some (off, n)" by auto
    note b = packetGetPayload_bounds [OF pl]
    obtain f d e2 where fb: "flipBits off n ppm (pdata p) e1 = (f, d, e2)" by (metis prod_cases3)
    have "quiet e1 e2" using flipBits_spec [OF fb] b by simp
    note qe = quiet_answered [OF this]
    let ?d = "if corruptChecksum m then packetRecalcChecksums d else d"
    have "corrupt_body ppm (m, t) p e =
        (if f > 0 then ((count_affected (m\<lparr>corruptBitsFlipped := corruptBitsFlipped m + of_nat f\<rparr>), True),
           [p\<lparr>pdata := ?d\<rparr>], e2)
         else ((m, t), [p\<lparr>pdata := d\<rparr>], e2))"
      using True b by (simp add: corrupt_body_def c pl fb Let_def)
    then show ?thesis using eq ce q qe by (cases "f > 0") auto
  qed
qed

interpretation corrupt_loop: packet_body "corrupt_body ppm" "\<lambda>s. (enabledFlag (fst s), lastEnabled (fst s))"
  for ppm
  by unfold_locales (use corrupt_body_contract in \<open>auto simp: split_paired_all\<close>)

interpretation corrupt: packet_module corruptStartUp corruptProcess corruptCloseDown
    "\<lambda>_. []" "\<lambda>_. True" "\<lambda>_. True"
  by unfold_locales
    (auto simp: corruptStartUp_def corruptCloseDown_def corruptProcess_def
      dest: corrupt_loop.loop_ledger split: prod.splits)

subsection \<open>Properties\<close>

text \<open>The payload bits of a packet that differ after the module, counted from the two packets alone.\<close>

definition payload_diff :: "u8 list \<Rightarrow> u8 list \<Rightarrow> nat" where
  "payload_diff p q = (case packetGetPayload p of None \<Rightarrow> 0 | Some (off, n) \<Rightarrow> card (diff_bits off n p q))"

lemma payload_diff_refl [simp]: "payload_diff p p = 0"
  by (auto simp: payload_diff_def diff_bits_def split: option.split)

lemma parse_payload_bytes:
  assumes pl: "packetGetPayload p = Some (off, n)"
  shows "cksum_pos (parse p) + 1 < off" "11 < off"
proof -
  from pl have v: "L_valid (parse p)" and o: "L_payloadOffset (parse p) = off" "L_payloadLen (parse p) \<noteq> 0"
    by (auto simp: packetGetPayload_def Let_def split: if_splits)
  from parse_ok [OF v] o show "cksum_pos (parse p) + 1 < off"
    by (auto simp: layout_ok_def cksum_pos_def has_ports_def split: if_splits)
  show "11 < off" using packetGetPayload_bounds [OF pl] by simp
qed

lemma payload_diff_recalc:
  assumes pl: "packetGetPayload p = Some (off, n)" and len: "length d = length p"
    and out: "\<forall>j. j < off \<or> off + n \<le> j \<longrightarrow> d ! j = p ! j"
  shows "diff_bits off n p (packetRecalcChecksums d) = diff_bits off n p d"
proof -
  have "L_payloadOffset (parse p) = off"
    using pl by (auto simp: packetGetPayload_def Let_def split: if_splits)
  then have pr: "parse d = parse p" by (intro parse_payload_update [OF len _ pl]) (use out in simp)
  have "packetRecalcChecksums d ! (off + i) = d ! (off + i)" for i
    by (rule recalc_bytes) (use parse_payload_bytes [OF pl] in \<open>simp_all add: pr\<close>)
  then show ?thesis by (simp add: diff_bits_def payload_bit_def)
qed

lemma corruptBitsFlipped_count [simp]: "corruptBitsFlipped (count_affected m) = corruptBitsFlipped m"
  by (simp add: count_affected_def)

lemma corrupt_loop_spec:
  "packet_loop (corrupt_body ppm) (m, t) xs e = ((m', t'), xs', e') \<Longrightarrow>
     length xs' = length xs \<and>
     list_all2 (\<lambda>p q. q = p \<or> dir_match m p \<and> (\<exists>d. q = p\<lparr>pdata := d\<rparr> \<and> length d = length (pdata p))) xs xs' \<and>
     corruptBitsFlipped m' = corruptBitsFlipped m + of_nat (sum_list (map2 (\<lambda>p q. payload_diff (pdata p) (pdata q)) xs xs'))"
proof (induction xs arbitrary: m t e xs')
  case Nil
  then show ?case by simp
next
  case (Cons p ps)
  from Cons.prems obtain s1 out e1 ys where b: "corrupt_body ppm (m, t) p e = (s1, out, e1)"
    and l: "packet_loop (corrupt_body ppm) s1 ps e1 = ((m', t'), ys, e')" and xs': "xs' = out @ ys"
    by (rule packet_loop_Cons)
  obtain hit e0 where c: "chosen m (corruptChance m) p e = (hit, e0)" by (metis surj_pair)
  have "\<exists>m1 t1 q. s1 = (m1, t1) \<and> out = [q] \<and> dir_match m1 = dir_match m \<and>
      (q = p \<or> dir_match m p \<and> (\<exists>d. q = p\<lparr>pdata := d\<rparr> \<and> length d = length (pdata p))) \<and>
      corruptBitsFlipped m1 = corruptBitsFlipped m + of_nat (payload_diff (pdata p) (pdata q))"
  proof (cases "hit \<and> packetGetPayload (pdata p) \<noteq> None")
    case False
    then have "corrupt_body ppm (m, t) p e = ((m, t), [p], e0)"
      by (cases hit; cases "packetGetPayload (pdata p)") (simp_all add: corrupt_body_def c)
    with b have "s1 = (m, t)" "out = [p]" by simp_all
    then show ?thesis by (intro exI [of _ m] exI [of _ t] exI [of _ p]) simp
  next
    case True
    then obtain off n where pl: "packetGetPayload (pdata p) = Some (off, n)" by auto
    note bd = packetGetPayload_bounds [OF pl]
    have d: "dir_match m p" using c True by (auto dest: chosen_dir)
    obtain f d e2 where fb: "flipBits off n ppm (pdata p) e0 = (f, d, e2)" by (metis prod_cases3)
    note sp = flipBits_spec [OF fb bd [THEN conjunct2, THEN conjunct2]]
    let ?d = "if corruptChecksum m then packetRecalcChecksums d else d"
    let ?m = "count_affected (m\<lparr>corruptBitsFlipped := corruptBitsFlipped m + of_nat f\<rparr>)"
    have diff: "card (diff_bits off n (pdata p) ?d) = f" "card (diff_bits off n (pdata p) d) = f"
      using sp payload_diff_recalc [OF pl, of d] by auto
    have body: "corrupt_body ppm (m, t) p e =
        (if f > 0 then ((?m, True), [p\<lparr>pdata := ?d\<rparr>], e2) else ((m, t), [p\<lparr>pdata := d\<rparr>], e2))"
      using True bd by (simp add: corrupt_body_def c pl fb Let_def)
    show ?thesis
    proof (cases "f > 0")
      case f: True
      have "dir_match ?m = dir_match m" by (simp add: fun_eq_iff dir_match_def)
      moreover have "s1 = (?m, True)" "out = [p\<lparr>pdata := ?d\<rparr>]" using f b body by simp_all
      moreover have "payload_diff (pdata p) ?d = f" using pl diff(1) by (simp add: payload_diff_def)
      moreover have "length ?d = length (pdata p)" using sp by simp
      ultimately show ?thesis using d
        by (intro exI [of _ ?m] exI [of _ True] exI [of _ "p\<lparr>pdata := ?d\<rparr>"]) auto
    next
      case f: False
      then have "s1 = (m, t)" "out = [p\<lparr>pdata := d\<rparr>]" using b body by simp_all
      moreover have "payload_diff (pdata p) d = 0" using pl diff(2) f by (simp add: payload_diff_def)
      moreover have "length d = length (pdata p)" using sp by simp
      ultimately show ?thesis using d
        by (intro exI [of _ m] exI [of _ t] exI [of _ "p\<lparr>pdata := d\<rparr>"]) auto
    qed
  qed
  then obtain m1 t1 q where s: "s1 = (m1, t1)" "out = [q]" "dir_match m1 = dir_match m"
      "q = p \<or> dir_match m p \<and> (\<exists>d. q = p\<lparr>pdata := d\<rparr> \<and> length d = length (pdata p))"
      "corruptBitsFlipped m1 = corruptBitsFlipped m + of_nat (payload_diff (pdata p) (pdata q))" by blast
  from Cons.IH [OF l [unfolded s(1)]] s(2-5) xs' show ?case by (simp add: add.assoc)
qed

text \<open>A call of \<^verbatim>\<open>corruptProcess\<close> changes only handled packets, none in length, and the bit-error
  counter it reports grows by exactly the number of payload bits that now differ: no flip is counted
  twice, undone by a second one, or made outside the payload.\<close>

theorem corrupt_counts_flipped_bits:
  assumes "corruptProcess m xs e = (m', xs', e', t)"
  shows "length xs' = length xs \<and>
    list_all2 (\<lambda>p q. q = p \<or> dir_match m p \<and> (\<exists>d. q = p\<lparr>pdata := d\<rparr> \<and> length d = length (pdata p))) xs xs' \<and>
    corruptGetBitsFlipped m' =
      corruptGetBitsFlipped m + of_nat (sum_list (map2 (\<lambda>p q. payload_diff (pdata p) (pdata q)) xs xs'))"
  unfolding corruptGetBitsFlipped_def
  using assms by (intro corrupt_loop_spec) (auto simp: corruptProcess_def split: prod.splits)

theorem corrupt_counts_flipped_bits_witness:
  "length (fst (snd (corruptProcess corrupt_init [packet_of 1 True udp_example] (env_at 0)))) = 1"
proof -
  obtain m' xs' e' t where eq: "corruptProcess corrupt_init [packet_of 1 True udp_example] (env_at 0) = (m', xs', e', t)"
    by (metis prod_cases4)
  from corrupt_counts_flipped_bits [OF eq] show ?thesis unfolding eq by simp
qed

end
