(* ===== verification/Reset.thy ===== *)
theory Reset
  imports Module_Base Packet_Util
begin

text \<open>
  \<^verbatim>\<open>src/src/reset.cpp\<close>: the RST flag is set on a chosen TCP packet; \<^verbatim>\<open>setNextCount\<close> forces the next
  so many. \<open>resets\<close> is the list of what the loop should do when no packet is chosen by chance, and
  \<open>reset_loop_forced\<close> shows that it does it.
\<close>

record reset_state = module_base +
  resetChance :: int
  setNextCount :: int

definition reset_init :: reset_state where
  "reset_init = module_base.extend module_defaults \<lparr>resetChance = 0, setNextCount = 0\<rparr>"

definition resetStartup :: "reset_state \<Rightarrow> env \<Rightarrow> reset_state \<times> env" where
  "resetStartup m e = (m\<lparr>setNextCount := 0\<rparr>, e)"

definition resetCloseDown :: "reset_state \<Rightarrow> packet list \<Rightarrow> env \<Rightarrow> (reset_state \<times> packet list \<times> env) option" where
  "resetCloseDown m xs e = Some (m\<lparr>setNextCount := 0\<rparr>, xs, e)"

text \<open>\<^verbatim>\<open>setNextCount || calcChance(chance)\<close>: no draw while a forced reset is pending.\<close>

definition reset_wanted :: "reset_state \<Rightarrow> packet \<Rightarrow> env \<Rightarrow> bool \<times> env" where
  "reset_wanted m p e =
     (if dir_match m p \<and> packetLen p \<ge> packetMinTcpSize then
        (if setNextCount m \<noteq> 0 then (True, e) else calcChance (resetChance m) e)
      else (False, e))"

definition reset_body ::
  "reset_state \<times> bool \<Rightarrow> packet \<Rightarrow> env \<Rightarrow> (reset_state \<times> bool) \<times> packet list \<times> env" where
  "reset_body s p e =
     (case s of (m, did) \<Rightarrow>
      case reset_wanted m p e of (hit, e) \<Rightarrow>
        if hit then
          (case packetSetTcpRst (pdata p) of
             None \<Rightarrow> ((m, did), [p], e)
           | Some d \<Rightarrow>
               let m = count_affected m;
                   m = (if setNextCount m > 0 then m\<lparr>setNextCount := setNextCount m - 1\<rparr> else m)
               in ((m, True), [p\<lparr>pdata := d\<rparr>], e))
        else ((m, did), [p], e))"

definition resetProcess :: "reset_state \<Rightarrow> packet list \<Rightarrow> env \<Rightarrow> reset_state \<times> packet list \<times> env \<times> bool" where
  "resetProcess m xs e =
     (case packet_loop reset_body (m, False) xs e of ((m, did), xs, e) \<Rightarrow> (m, xs, e, did))"

text \<open>The \<^verbatim>\<open>reset-next\<close> trigger of \<^verbatim>\<open>resetSetParam\<close>.\<close>

definition reset_trigger :: "bool \<Rightarrow> reset_state \<Rightarrow> reset_state" where
  "reset_trigger v m = (if v \<and> enabledFlag m then m\<lparr>setNextCount := i2s (setNextCount m + 1)\<rparr> else m)"

lemma reset_count_simps [simp]:
  "setNextCount (count_affected m) = setNextCount m"
  "resetChance (count_affected m) = resetChance m"
  by (simp_all add: count_affected_def)

lemma reset_wanted_env: "reset_wanted m p e = (b, e') \<Longrightarrow> answered e' = answered e \<and> nfqQueue e' = nfqQueue e"
  by (auto simp: reset_wanted_def calcChance_env split: if_splits)

lemma reset_body_contract:
  assumes q: "nfqQueue e" and eq: "reset_body (m, t) p e = ((m', t'), out, e')"
  shows "nfqQueue e' \<and> enabledFlag m' = enabledFlag m \<and> lastEnabled m' = lastEnabled m \<and>
    owed_all out + answered e' = owed p + answered e"
proof -
  obtain hit e1 where c: "reset_wanted m p e = (hit, e1)" by (metis surj_pair)
  show ?thesis using eq c reset_wanted_env [OF c] q
    by (cases hit; cases "packetSetTcpRst (pdata p)") (auto simp: reset_body_def Let_def split: if_splits)
qed

interpretation reset_loop: packet_body reset_body "\<lambda>s. (enabledFlag (fst s), lastEnabled (fst s))"
  by unfold_locales (use reset_body_contract in \<open>auto simp: split_paired_all\<close>)

interpretation reset: packet_module resetStartup resetProcess resetCloseDown
    "\<lambda>_. []" "\<lambda>_. True" "\<lambda>_. True"
  by unfold_locales
    (auto simp: resetStartup_def resetCloseDown_def resetProcess_def dest: reset_loop.loop_ledger split: prod.splits)

subsection \<open>Forced resets\<close>

text \<open>A packet the module can turn into a reset.\<close>

definition resettable :: "reset_state \<Rightarrow> packet \<Rightarrow> bool" where
  "resettable m p \<longleftrightarrow> dir_match m p \<and> packetLen p \<ge> packetMinTcpSize \<and> packetSetTcpRst (pdata p) \<noteq> None"

fun resets :: "(packet \<Rightarrow> bool) \<Rightarrow> nat \<Rightarrow> packet list \<Rightarrow> packet list" where
  "resets able k [] = []"
| "resets able k (p # ps) =
     (if able p \<and> k > 0 then p\<lparr>pdata := the (packetSetTcpRst (pdata p))\<rparr> # resets able (k - 1) ps
      else p # resets able k ps)"

lemma reset_body_chance_0:
  assumes ch: "resetChance m = 0" and k: "setNextCount m = int k"
    and eq: "reset_body (m, t) p e = ((m', t'), out, e')"
  shows "if resettable m p \<and> 0 < k
    then out = [p\<lparr>pdata := the (packetSetTcpRst (pdata p))\<rparr>] \<and> setNextCount m' = int (k - 1) \<and> resetChance m' = 0 \<and>
      resettable m' = resettable m \<and> affectedCount m' = affectedCount m + 1
    else out = [p] \<and> m' = m"
proof -
  obtain hit e1 where c: "reset_wanted m p e = (hit, e1)" by (metis surj_pair)
  have hit: "hit \<longleftrightarrow> dir_match m p \<and> packetLen p \<ge> packetMinTcpSize \<and> 0 < k"
    using c k ch by (auto simp: reset_wanted_def dest: calcChance_0 split: if_splits)
  show ?thesis
  proof (cases "resettable m p \<and> 0 < k")
    case True
    then obtain d where d: "packetSetTcpRst (pdata p) = Some d" and h: hit
      using hit by (auto simp: resettable_def)
    let ?m = "count_affected m\<lparr>setNextCount := int k - 1\<rparr>"
    have "reset_body (m, t) p e = ((?m, True), [p\<lparr>pdata := d\<rparr>], e1)"
      using True k c d h by (simp add: reset_body_def Let_def)
    with eq have m': "m' = ?m" "out = [p\<lparr>pdata := d\<rparr>]" by simp_all
    have "dir_match ?m = dir_match m" by (simp add: fun_eq_iff dir_match_def)
    then have "resettable ?m = resettable m" by (simp add: resettable_def fun_eq_iff)
    with True m' d ch show ?thesis by (simp add: of_nat_diff)
  next
    case False
    then have "reset_body (m, t) p e = ((m, t), [p], e1)"
      using c hit by (cases hit) (auto simp: reset_body_def resettable_def)
    with eq False show ?thesis by simp
  qed
qed

lemma reset_loop_forced:
  "resetChance m = 0 \<Longrightarrow> setNextCount m = int k \<Longrightarrow>
   packet_loop reset_body (m, t) xs e = ((m', t'), xs', e') \<Longrightarrow>
   xs' = resets (resettable m) k xs \<and>
   setNextCount m' = int (k - length (filter (resettable m) xs)) \<and>
   affectedCount m' = affectedCount m + of_nat (min k (length (filter (resettable m) xs)))"
proof (induction xs arbitrary: m t k e xs')
  case Nil
  then show ?case by simp
next
  case (Cons p ps)
  from Cons.prems(3) obtain s1 out e1 ys where b: "reset_body (m, t) p e = (s1, out, e1)"
    and l: "packet_loop reset_body s1 ps e1 = ((m', t'), ys, e')" and xs': "xs' = out @ ys"
    by (rule packet_loop_Cons)
  obtain m1 t1 where s1: "s1 = (m1, t1)" by (cases s1)
  note st = reset_body_chance_0 [OF Cons.prems(1,2) b [unfolded s1]]
  show ?case
  proof (cases "resettable m p \<and> 0 < k")
    case True
    with st have s: "out = [p\<lparr>pdata := the (packetSetTcpRst (pdata p))\<rparr>]" "setNextCount m1 = int (k - 1)"
      "resetChance m1 = 0" "resettable m1 = resettable m" "affectedCount m1 = affectedCount m + 1"
      by simp_all
    from Cons.IH [OF s(3,2) l [unfolded s1]] s True xs' show ?thesis
      by (cases k) (auto simp: algebra_simps)
  next
    case False
    with st have s: "out = [p]" "m1 = m" by (simp_all split: if_splits)
    with Cons.prems have "resetChance m1 = 0" "setNextCount m1 = int k" by simp_all
    from Cons.IH [OF this l [unfolded s1]] s False xs' show ?thesis by auto
  qed
qed

subsection \<open>Properties\<close>

text \<open>With the chance at zero, \<open>k\<close> pending forced resets turn exactly the first \<open>k\<close> packets that can
  be reset into resets, leave every other packet alone, and use up one pending reset and count one
  affected packet each.\<close>

theorem forced_resets_exact:
  assumes "resetChance m = 0" and "setNextCount m = int k" and "resetProcess m xs e = (m', xs', e', t)"
  shows "xs' = resets (resettable m) k xs \<and>
    setNextCount m' = int (k - length (filter (resettable m) xs)) \<and>
    affectedCount m' = affectedCount m + of_nat (min k (length (filter (resettable m) xs)))"
  using assms(3) by (intro reset_loop_forced [OF assms(1,2)]) (auto simp: resetProcess_def split: prod.splits)

definition reset_example :: reset_state where
  "reset_example = reset_init\<lparr>setNextCount := 1\<rparr>"

theorem forced_resets_exact_witness:
  "fst (snd (resetProcess reset_example [packet_of 1 True tcp_example, packet_of 2 True tcp_example] (env_at 0))) =
     resets (resettable reset_example) 1 [packet_of 1 True tcp_example, packet_of 2 True tcp_example]"
proof -
  obtain m' xs' e' t where
    eq: "resetProcess reset_example [packet_of 1 True tcp_example, packet_of 2 True tcp_example] (env_at 0) = (m', xs', e', t)"
    by (metis prod_cases4)
  have "resetChance reset_example = 0" "setNextCount reset_example = int 1"
    by (simp_all add: reset_example_def reset_init_def module_base.defs)
  from forced_resets_exact [OF this eq] show ?thesis unfolding eq by simp
qed

end
