(* ===== verification/Throttle.thy ===== *)
theory Throttle
  imports Module_Base
begin

text \<open>
  \<^verbatim>\<open>src/src/throttle.cpp\<close>: when a throttling episode starts (by chance, on a non-empty list), every
  handled packet is held until the time frame is over or 1000 packets are held; then all of them
  are sent, or dropped. \<open>throttleProcess_eq\<close> is the closed form of the call.

  The start tick doubles as the idle flag (zero means idle), although zero is a clock reading like
  any other; \<open>throttle_idle_skips\<close> shows what an episode that starts at tick zero does.
\<close>

record throttle_state = buffered +
  throttleChance :: int
  throttleFrame :: int
  dropThrottled :: bool
  throttleStartTick :: u32

definition throttle_init :: throttle_state where
  "throttle_init = module_base.extend module_defaults
     \<lparr>bufLinked = False, buf = [], bufSize = 0,
      throttleChance = 1000, throttleFrame = 30, dropThrottled = False, throttleStartTick = 0\<rparr>"

definition THROTTLE_KEEP_AT_MOST :: nat where
  "THROTTLE_KEEP_AT_MOST = 1000"

definition throttleStartUp :: "throttle_state \<Rightarrow> env \<Rightarrow> throttle_state \<times> env" where
  "throttleStartUp m e = (case bufferStartUp m e of (m, e) \<Rightarrow> (m\<lparr>throttleStartTick := 0\<rparr>, e))"

text \<open>\<^verbatim>\<open>clearBufPackets\<close>: the buffer goes to the end of the list.\<close>

definition clearBufPackets :: "throttle_state \<Rightarrow> packet list \<Rightarrow> throttle_state \<times> packet list" where
  "clearBufPackets m xs =
     (m\<lparr>buf := [], bufSize := bufSize m - length (buf m), throttleStartTick := 0\<rparr>, xs @ buf m)"

definition dropBufPackets :: "throttle_state \<Rightarrow> env \<Rightarrow> throttle_state \<times> env" where
  "dropBufPackets m e =
     (m\<lparr>buf := [], bufSize := bufSize m - length (buf m), throttleStartTick := 0\<rparr>,
      fold freeNode (rev (buf m)) e)"

definition throttleCloseDown ::
  "throttle_state \<Rightarrow> packet list \<Rightarrow> env \<Rightarrow> (throttle_state \<times> packet list \<times> env) option" where
  "throttleCloseDown m xs e =
     (if \<not> bufLinked m then None
      else (case clearBufPackets m xs of (m, xs) \<Rightarrow> Some (m, xs, endTimePeriod e)))"

definition throttle_pick :: "packet \<Rightarrow> throttle_state \<Rightarrow> throttle_state" where
  "throttle_pick p m = count_affected (m\<lparr>buf := p # buf m, bufSize := bufSize m + 1\<rparr>)"

definition throttle_pickup :: "throttle_state \<Rightarrow> packet list \<Rightarrow> throttle_state \<times> packet list" where
  "throttle_pickup m xs =
     scan_restart (\<lambda>m. \<not> bufSize m < THROTTLE_KEEP_AT_MOST) (dir_match m) throttle_pick (rev xs) [] m"

text \<open>The block at \<^verbatim>\<open>THROTTLE_START\<close>.\<close>

definition throttle_block :: "throttle_state \<Rightarrow> packet list \<Rightarrow> env \<Rightarrow> throttle_state \<times> packet list \<times> env" where
  "throttle_block m xs e =
     (case timeGetTime e of (currentTick, e) \<Rightarrow>
      case throttle_pickup m xs of (m, xs) \<Rightarrow>
      if bufSize m \<ge> THROTTLE_KEEP_AT_MOST \<or> currentTick - throttleStartTick m > of_int (throttleFrame m) then
        if dropThrottled m then (case dropBufPackets m e of (m, e) \<Rightarrow> (m, xs, e))
        else (case clearBufPackets m xs of (m, xs) \<Rightarrow> (m, xs, e))
      else (m, xs, e))"

text \<open>Whether this call runs the block, and whether it is the call that starts the episode.\<close>

definition throttle_gate :: "throttle_state \<Rightarrow> packet list \<Rightarrow> env \<Rightarrow> throttle_state \<times> env \<times> bool \<times> bool" where
  "throttle_gate m xs e =
     (if throttleStartTick m = 0 then
        if xs \<noteq> [] then
          (case calcChance (throttleChance m) e of (hit, e) \<Rightarrow>
             if hit then (case timeGetTime e of (t, e) \<Rightarrow> (m\<lparr>throttleStartTick := t\<rparr>, e, True, True))
             else (m, e, False, False))
        else (m, e, False, False)
      else (m, e, True, False))"

definition throttleProcess ::
  "throttle_state \<Rightarrow> packet list \<Rightarrow> env \<Rightarrow> throttle_state \<times> packet list \<times> env \<times> bool" where
  "throttleProcess m xs e =
     (case throttle_gate m xs e of (m, e, go, throttled) \<Rightarrow>
      if go then (case throttle_block m xs e of (m, xs, e) \<Rightarrow> (m, xs, e, throttled))
      else (m, xs, e, throttled))"

subsection \<open>The closed form\<close>

lemma throttle_pick_simps [simp]:
  "enabledFlag (throttle_pick p m) = enabledFlag m"
  "lastEnabled (throttle_pick p m) = lastEnabled m"
  "affectedCount (throttle_pick p m) = affectedCount m + 1"
  "bufLinked (throttle_pick p m) = bufLinked m"
  "buf (throttle_pick p m) = p # buf m"
  "bufSize (throttle_pick p m) = Suc (bufSize m)"
  "throttleStartTick (throttle_pick p m) = throttleStartTick m"
  "throttleFrame (throttle_pick p m) = throttleFrame m"
  "dropThrottled (throttle_pick p m) = dropThrottled m"
  by (simp_all add: throttle_pick_def count_affected_def)

lemma fold_throttle_pick [simp]:
  "buf (fold throttle_pick ps m) = rev ps @ buf m"
  "bufSize (fold throttle_pick ps m) = bufSize m + length ps"
  "affectedCount (fold throttle_pick ps m) = affectedCount m + of_nat (length ps)"
  "enabledFlag (fold throttle_pick ps m) = enabledFlag m"
  "lastEnabled (fold throttle_pick ps m) = lastEnabled m"
  "bufLinked (fold throttle_pick ps m) = bufLinked m"
  "throttleStartTick (fold throttle_pick ps m) = throttleStartTick m"
  "throttleFrame (fold throttle_pick ps m) = throttleFrame m"
  "dropThrottled (fold throttle_pick ps m) = dropThrottled m"
  by (induction ps arbitrary: m) simp_all

lemma throttle_pickup_eq:
  "throttle_pickup m xs =
     (case take_hits (THROTTLE_KEEP_AT_MOST - bufSize m) (dir_match m) (rev xs) of
        (picked, rest) \<Rightarrow> (fold throttle_pick picked m, rev rest))"
  unfolding throttle_pickup_def by (rule scan_restart_take_hits) auto

text \<open>The episode is over: the frame has elapsed or the buffer is full.\<close>

definition throttle_over :: "throttle_state \<Rightarrow> nat \<Rightarrow> u32 \<Rightarrow> bool" where
  "throttle_over m held now \<longleftrightarrow>
     held \<ge> THROTTLE_KEEP_AT_MOST \<or> now - throttleStartTick m > of_int (throttleFrame m)"

lemma throttle_block_eq:
  assumes th: "take_hits (THROTTLE_KEEP_AT_MOST - bufSize m) (dir_match m) (rev xs) = (picked, rest)"
    and t: "timeGetTime e = (now, e1)" and bs: "bufSize m = length (buf m)"
    and h: "h = rev picked @ buf m"
    and eq: "throttle_block m xs e = (m', xs', e')"
  shows "bufSize m' = length (buf m') \<and> bufLinked m' = bufLinked m \<and>
    enabledFlag m' = enabledFlag m \<and> lastEnabled m' = lastEnabled m \<and>
    affectedCount m' = affectedCount m + of_nat (length picked) \<and>
    (if throttle_over m (length h) now then
       buf m' = [] \<and> throttleStartTick m' = 0 \<and>
       (if dropThrottled m then xs' = rev rest \<and> e' = fold freeNode (rev h) e1
        else xs' = rev rest @ h \<and> e' = e1)
     else buf m' = h \<and> throttleStartTick m' = throttleStartTick m \<and> xs' = rev rest \<and> e' = e1)"
proof -
  have len: "length h = bufSize m + length picked" using bs h by simp
  have b: "throttle_block m xs e =
    (if throttle_over m (length h) now then
       if dropThrottled m then (case dropBufPackets (fold throttle_pick picked m) e1 of (m, e) \<Rightarrow> (m, rev rest, e))
       else (case clearBufPackets (fold throttle_pick picked m) (rev rest) of (m, xs) \<Rightarrow> (m, xs, e1))
     else (fold throttle_pick picked m, rev rest, e1))"
    by (simp add: throttle_block_def t throttle_pickup_eq th throttle_over_def len)
  show ?thesis
  proof (cases "throttle_over m (length h) now")
    case True
    then show ?thesis using b eq bs h
      by (cases "dropThrottled m") (auto simp: dropBufPackets_def clearBufPackets_def)
  next
    case False
    then show ?thesis using b eq bs h by auto
  qed
qed

text \<open>With the tick at zero and nothing arriving, a call leaves the held packets where they are.\<close>

lemma throttle_idle_skips:
  "throttleStartTick m = 0 \<Longrightarrow> throttleProcess m [] e = (m, [], e, False)"
  by (simp add: throttleProcess_def throttle_gate_def)

subsection \<open>The module contract\<close>

lemma throttle_gate_spec:
  assumes "throttle_gate m xs e = (m1, e1, go, t)"
  shows "\<exists>tick. m1 = m\<lparr>throttleStartTick := tick\<rparr> \<and> quiet e e1 \<and> (t \<longrightarrow> go) \<and>
    (throttleStartTick m \<noteq> 0 \<longrightarrow> go \<and> tick = throttleStartTick m \<and> e1 = e)"
proof (cases "throttleStartTick m = 0 \<and> xs \<noteq> []")
  case False
  then show ?thesis using assms
    by (intro exI [of _ "throttleStartTick m"]) (auto simp: throttle_gate_def split: if_splits)
next
  case True
  obtain hit e2 where c: "calcChance (throttleChance m) e = (hit, e2)" by (metis surj_pair)
  obtain tk e3 where t3: "timeGetTime e2 = (tk, e3)" by (metis surj_pair)
  show ?thesis
  proof (cases hit)
    case h: True
    then have "m1 = m\<lparr>throttleStartTick := tk\<rparr>" "e1 = e3" "go" using assms True c t3
      by (simp_all add: throttle_gate_def)
    then show ?thesis using True quiet_trans [OF quiet_calcChance [OF c] quiet_timeGetTime [OF t3]] by auto
  next
    case h: False
    then have "m1 = m" "e1 = e2" "\<not> t" using assms True c by (simp_all add: throttle_gate_def)
    then show ?thesis using True quiet_calcChance [OF c] by (intro exI [of _ "throttleStartTick m"]) simp
  qed
qed

lemma throttle_block_contract:
  assumes wf: "buffered_wf THROTTLE_KEEP_AT_MOST m" and l: "bufLinked m" and q: "nfqQueue e"
    and eq: "throttle_block m xs e = (m', xs', e')"
  shows "buffered_wf THROTTLE_KEEP_AT_MOST m' \<and> bufLinked m' \<and> nfqQueue e' \<and> enabledFlag m' = enabledFlag m \<and>
    lastEnabled m' = lastEnabled m \<and> ledger (xs' @ buf m') e' = ledger (xs @ buf m) e"
proof -
  obtain picked rest where th: "take_hits (THROTTLE_KEEP_AT_MOST - bufSize m) (dir_match m) (rev xs) = (picked, rest)"
    by (metis surj_pair)
  obtain now e1 where t: "timeGetTime e = (now, e1)" by (metis surj_pair)
  note te = timeGetTime_env [OF t]
  have bs: "bufSize m = length (buf m)" and cap: "length (buf m) \<le> THROTTLE_KEEP_AT_MOST"
    using wf by (simp_all add: buffered_wf_def)
  define h where "h = rev picked @ buf m"
  note main = throttle_block_eq [OF th t bs h_def eq]
  have "picked = take (THROTTLE_KEEP_AT_MOST - bufSize m) (filter (dir_match m) (rev xs))"
    using take_hits_picked [of "THROTTLE_KEEP_AT_MOST - bufSize m" "dir_match m" "rev xs"] th by simp
  then have len: "length h \<le> THROTTLE_KEEP_AT_MOST" using bs cap by (simp add: h_def)
  have ow: "owed_all rest + owed_all h = owed_all xs + owed_all (buf m)"
    using owed_all_take_hits [OF th] by (simp add: h_def ac_simps)
  have q1: "nfqQueue e1" using q te by simp
  note fr = free_all [OF q1, of "rev h"]
  have led: "nfqQueue e' \<and> ledger (xs' @ buf m') e' = ledger (xs @ buf m) e"
  proof (cases "throttle_over m (length h) now")
    case False
    then have "buf m' = h" "xs' = rev rest" "e' = e1" using main by simp_all
    then show ?thesis using q1 te ow by (simp add: ledger_def)
  next
    case True
    show ?thesis
    proof (cases "dropThrottled m")
      case d: True
      then have "buf m' = []" "xs' = rev rest" "e' = fold freeNode (rev h) e1" using main True by simp_all
      moreover have "owed_all rest + (answered e1 + owed_all h) = owed_all xs + owed_all (buf m) + answered e1"
        using ow by (simp add: ac_simps)
      ultimately show ?thesis using fr te by (simp add: ledger_def)
    next
      case d: False
      then have "buf m' = []" "xs' = rev rest @ h" "e' = e1" using main True by simp_all
      then show ?thesis using q1 te ow by (simp add: ledger_def)
    qed
  qed
  have "buffered_wf THROTTLE_KEEP_AT_MOST m'"
    using main len l by (auto simp: buffered_wf_def split: if_splits)
  with led main l show ?thesis by simp
qed

lemma throttleProcess_contract:
  assumes wf: "buffered_wf THROTTLE_KEEP_AT_MOST m" and l: "bufLinked m" and q: "nfqQueue e"
    and eq: "throttleProcess m xs e = (m', xs', e', t)"
  shows "buffered_wf THROTTLE_KEEP_AT_MOST m' \<and> bufLinked m' \<and> nfqQueue e' \<and> enabledFlag m' = enabledFlag m \<and>
    lastEnabled m' = lastEnabled m \<and> ledger (xs' @ buf m') e' = ledger (xs @ buf m) e"
proof -
  obtain m1 e1 go t1 where g: "throttle_gate m xs e = (m1, e1, go, t1)" by (metis prod_cases4)
  obtain tick where m1: "m1 = m\<lparr>throttleStartTick := tick\<rparr>" and qe: "quiet e e1"
    using throttle_gate_spec [OF g] by blast
  note te = quiet_answered [OF qe]
  have wf1: "buffered_wf THROTTLE_KEEP_AT_MOST m1" and l1: "bufLinked m1" and q1: "nfqQueue e1"
    using wf l q te m1 by (simp_all add: buffered_wf_def)
  show ?thesis
  proof (cases go)
    case True
    obtain m2 xs2 e2 where b: "throttle_block m1 xs e1 = (m2, xs2, e2)" by (metis prod_cases3)
    then have "m' = m2" "xs' = xs2" "e' = e2" using eq g True by (simp_all add: throttleProcess_def)
    then show ?thesis using throttle_block_contract [OF wf1 l1 q1 b] m1 te by (simp add: ledger_def)
  next
    case False
    then have "m' = m1" "xs' = xs" "e' = e1" using eq g by (simp_all add: throttleProcess_def)
    then show ?thesis using wf1 l1 q1 m1 te by (simp add: ledger_def)
  qed
qed

lemma throttleStartUp_contract:
  "buffered_wf cap m \<Longrightarrow> throttleStartUp m e = (m', e') \<Longrightarrow>
     buffered_wf cap m' \<and> bufLinked m' \<and> buf m' = buf m \<and> quiet e e' \<and> enabledFlag m' = enabledFlag m"
  by (auto simp: throttleStartUp_def bufferStartUp_def buffered_wf_def split: if_splits)

lemma throttleCloseDown_contract:
  "buffered_wf cap m \<Longrightarrow> bufLinked m \<Longrightarrow>
     \<exists>m' xs' e'. throttleCloseDown m xs e = Some (m', xs', e') \<and> buffered_wf cap m' \<and> bufLinked m' \<and>
       buf m' = [] \<and> quiet e e' \<and> enabledFlag m' = enabledFlag m \<and>
       owed_all xs' = owed_all (xs @ buf m)"
  by (simp add: throttleCloseDown_def clearBufPackets_def buffered_wf_def)

interpretation throttle: bounded_module throttleStartUp throttleProcess throttleCloseDown buf
    "buffered_wf THROTTLE_KEEP_AT_MOST" bufLinked THROTTLE_KEEP_AT_MOST
  by unfold_locales
    ((rule throttleStartUp_contract throttleProcess_contract throttleCloseDown_contract; assumption)
      | simp add: buffered_wf_def)+

subsection \<open>Properties\<close>

text \<open>A call in a running episode first takes every handled packet there is room for; when the
  frame is over or 1000 packets are held it then ends the episode with an empty buffer, having
  appended all of them in order to the list or freed them, and otherwise holds them all.\<close>

theorem throttle_episode_step:
  assumes "buffered_wf THROTTLE_KEEP_AT_MOST m" and "throttleStartTick m \<noteq> 0"
    and "take_hits (THROTTLE_KEEP_AT_MOST - bufSize m) (dir_match m) (rev xs) = (picked, rest)"
    and "timeGetTime e = (now, e1)" and "throttleProcess m xs e = (m', xs', e', t)"
  shows "if throttle_over m (length (rev picked @ buf m)) now then
      buf m' = [] \<and> throttleStartTick m' = 0 \<and>
      (if dropThrottled m then xs' = rev rest \<and> e' = fold freeNode (rev (rev picked @ buf m)) e1
       else xs' = rev rest @ (rev picked @ buf m) \<and> e' = e1)
    else buf m' = rev picked @ buf m \<and> throttleStartTick m' = throttleStartTick m \<and> xs' = rev rest \<and> e' = e1"
proof -
  have bs: "bufSize m = length (buf m)" using assms(1) by (simp add: buffered_wf_def)
  obtain m2 xs2 e2 where b: "throttle_block m xs e = (m2, xs2, e2)" by (metis prod_cases3)
  have res: "m2 = m'" "xs2 = xs'" "e2 = e'"
    using assms(2,5) b by (simp_all add: throttleProcess_def throttle_gate_def)
  show ?thesis using throttle_block_eq [OF assms(3,4) bs refl b] unfolding res by (elim conjE)
qed

definition throttle_example :: throttle_state where
  "throttle_example = throttle_init\<lparr>bufLinked := True, enabledFlag := True, throttleStartTick := 7\<rparr>"

theorem throttle_episode_step_witness:
  "buf (fst (throttleProcess throttle_example [packet_of 1 True [1]] (env_at 8))) = [packet_of 1 True [1]]"
proof -
  let ?p = "packet_of 1 True [1]"
  note defs = throttle_example_def throttle_init_def module_base.defs
  obtain m' xs' e' t where eq: "throttleProcess throttle_example [?p] (env_at 8) = (m', xs', e', t)" by (metis prod_cases4)
  have wf: "buffered_wf THROTTLE_KEEP_AT_MOST throttle_example" by (simp add: buffered_wf_def defs)
  have k: "1 \<le> THROTTLE_KEEP_AT_MOST - bufSize throttle_example" by (simp add: THROTTLE_KEEP_AT_MOST_def defs)
  have d: "dir_match throttle_example ?p"
    by (simp add: dir_match_def checkDirection_def packet_of_def zero_meta_def defs module_defaults_def)
  have th: "take_hits (THROTTLE_KEEP_AT_MOST - bufSize throttle_example) (dir_match throttle_example) (rev [?p]) = ([?p], [])"
    using take_hits_enough_room [of "dir_match throttle_example" "rev [?p]"] k d by simp
  have o: "buf throttle_example = []" "\<not> throttle_over throttle_example 1 8"
    by (simp_all add: defs throttle_over_def THROTTLE_KEEP_AT_MOST_def)
  have s: "throttleStartTick throttle_example \<noteq> 0" by (simp add: defs)
  from throttle_episode_step [OF wf s th env_at_simps(1) eq] o show ?thesis unfolding eq by simp
qed

text \<open>an episode that starts when the clock reads zero is taken for the idle state: the packets it
  holds stay where they are, however much time passes, as long as no packet arrives or the chance
  does not hit again.\<close>

theorem throttle_tick_zero_stalls:
  assumes "throttleStartTick m = 0" and "xs = [] \<or> throttleChance m = 0"
  shows "\<exists>e'. throttleProcess m xs e = (m, xs, e', False)"
proof (cases "xs = []")
  case True
  then show ?thesis using throttle_idle_skips [OF assms(1)] by auto
next
  case False
  with assms have c: "throttleChance m = 0" by simp
  obtain hit e1 where h: "calcChance 0 e = (hit, e1)" by (metis surj_pair)
  with calcChance_0 [OF h] have "throttleProcess m xs e = (m, xs, e1, False)"
    using False assms(1) c by (simp add: throttleProcess_def throttle_gate_def)
  then show ?thesis by blast
qed

definition throttle_stalled :: throttle_state where
  "throttle_stalled = throttle_init\<lparr>bufLinked := True, enabledFlag := True, buf := [packet_of 1 True [1]], bufSize := 1\<rparr>"

theorem throttle_tick_zero_stalls_witness:
  "\<exists>e'. throttleProcess throttle_stalled [] (env_at 100000) = (throttle_stalled, [], e', False)"
  by (rule throttle_tick_zero_stalls) (simp_all add: throttle_stalled_def throttle_init_def module_base.defs)

end
