(* ===== verification/Ood.thy ===== *)
theory Ood
  imports Module_Base
begin

text \<open>
  \<^verbatim>\<open>src/src/ood.cpp\<close>: up to \<open>maxBuffer\<close> packets are held back and released together in a random
  order (Fisher-Yates). \<open>shuffle_permutes\<close> shows that the release is a permutation for every
  sequence of draws, \<open>fisher_yates_reaches\<close> that every order of the packets is released for some
  sequence of draws, and \<open>ood_array_fits\<close> that the 50-element array is never overrun.
\<close>

record ood_state = buffered +
  oodChance :: int
  maxBuffer :: int
  maxDelay :: int

definition OOD_ARRAY :: nat where
  "OOD_ARRAY = 50"

definition ood_init :: ood_state where
  "ood_init = module_base.extend module_defaults
     \<lparr>bufLinked = False, buf = [], bufSize = 0, oodChance = 1000, maxBuffer = 5, maxDelay = 200\<rparr>"

definition oodStartUp :: "ood_state \<Rightarrow> env \<Rightarrow> ood_state \<times> env" where
  "oodStartUp m e = bufferStartUp m e"

definition oodCloseDown :: "ood_state \<Rightarrow> packet list \<Rightarrow> env \<Rightarrow> (ood_state \<times> packet list \<times> env) option" where
  "oodCloseDown m xs e = bufferCloseDown m xs e"

text \<open>
  The shuffle loop, from \<open>i\<close> down to 1; \<open>swap_cells\<close> is its body.
\<close>

definition swap_cells :: "nat \<Rightarrow> nat \<Rightarrow> 'a list \<Rightarrow> 'a list" where
  "swap_cells i j arr = arr[i := arr ! j, j := arr ! i]"

fun fisher_yates :: "nat \<Rightarrow> 'a list \<Rightarrow> env \<Rightarrow> 'a list \<times> env" where
  "fisher_yates 0 arr e = (arr, e)"
| "fisher_yates (Suc i) arr e =
     (case c_rand e of (r, e) \<Rightarrow> fisher_yates i (swap_cells (Suc i) (r mod (Suc i + 1)) arr) e)"

text \<open>
  \<^verbatim>\<open>releaseBufShuffled\<close>. The local array has 50 cells; \<open>ood_array_fits\<close> shows that \<open>count\<close> never
  exceeds them.
\<close>

definition releaseBufShuffled :: "ood_state \<Rightarrow> packet list \<Rightarrow> env \<Rightarrow> ood_state \<times> packet list \<times> env" where
  "releaseBufShuffled m xs e =
     (let count = bufSize m in
      if count = 0 then (m, xs, e)
      else
        (case fisher_yates (count - 1) (take count (rev (buf m))) e of (arr, e) \<Rightarrow>
           (m\<lparr>buf := take (length (buf m) - count) (buf m), bufSize := 0\<rparr>, rev arr @ xs, e)))"

text \<open>The capture loop, from \<^verbatim>\<open>tail->prev\<close> to the head: \<open>rs\<close> and the packets left behind are in that order.\<close>

definition ood_pick :: "u32 \<Rightarrow> packet \<Rightarrow> ood_state \<Rightarrow> ood_state" where
  "ood_pick now p m = count_affected (m\<lparr>buf := p\<lparr>timestamp := now\<rparr> # buf m, bufSize := bufSize m + 1\<rparr>)"

fun ood_capture :: "u32 \<Rightarrow> int \<Rightarrow> packet list \<Rightarrow> ood_state \<Rightarrow> env \<Rightarrow> ood_state \<times> packet list \<times> env" where
  "ood_capture now limit [] m e = (m, [], e)"
| "ood_capture now limit (p # rs) m e =
     (case (if int (bufSize m) < limit then chosen m (oodChance m) p e else (False, e)) of (hit, e) \<Rightarrow>
      if hit then ood_capture now limit rs (ood_pick now p m) e
      else (case ood_capture now limit rs m e of (m, rs, e) \<Rightarrow> (m, p # rs, e)))"

definition oodProcess :: "ood_state \<Rightarrow> packet list \<Rightarrow> env \<Rightarrow> ood_state \<times> packet list \<times> env \<times> bool" where
  "oodProcess m xs e =
     (case timeGetTime e of (now, e) \<Rightarrow>
      case ood_capture now (maxBuffer m) (rev xs) m e of (m, rs, e) \<Rightarrow>
      let xs = rev rs in
      if buf m \<noteq> [] \<and>
         (int (bufSize m) \<ge> maxBuffer m \<or> now - timestamp (last (buf m)) \<ge> of_int (maxDelay m))
      then (case releaseBufShuffled m xs e of (m, xs, e) \<Rightarrow> (m, xs, e, True))
      else (m, xs, e, bufSize m > 0))"

subsection \<open>The shuffle\<close>

lemma swap_cells_length [simp]: "length (swap_cells i j arr) = length arr"
  by (simp add: swap_cells_def)

lemma swap_cells_mset: "i < length arr \<Longrightarrow> j < length arr \<Longrightarrow> mset (swap_cells i j arr) = mset arr"
  unfolding swap_cells_def by (rule mset_swap)

lemma shuffle_permutes:
  "i < length arr \<Longrightarrow> fisher_yates i arr e = (arr', e') \<Longrightarrow> mset arr' = mset arr \<and> length arr' = length arr \<and> quiet e e'"
proof (induction i arr e rule: fisher_yates.induct)
  case (1 arr e)
  then show ?case by simp
next
  case (2 i arr e)
  obtain r e1 where r: "c_rand e = (r, e1)" by (metis surj_pair)
  let ?j = "r mod (Suc i + 1)"
  have j: "?j < Suc i + 1" by simp
  have "fisher_yates i (swap_cells (Suc i) ?j arr) e1 = (arr', e')" using "2.prems"(2) r by simp
  from "2.IH" [OF r [symmetric] _ this] "2.prems"(1)
  have ih: "mset arr' = mset (swap_cells (Suc i) ?j arr)" "length arr' = length arr" "quiet e1 e'" by simp_all
  have "mset (swap_cells (Suc i) ?j arr) = mset arr"
    by (rule swap_cells_mset) (use "2.prems"(1) j in linarith)+
  with ih quiet_trans [OF quiet_c_rand [OF r] ih(3)] show ?case by simp
qed

text \<open>The same loop for given values of \<^verbatim>\<open>j\<close>: every order of the cells up to \<open>i\<close> is reached.\<close>

fun shuffle_with :: "nat \<Rightarrow> nat list \<Rightarrow> 'a list \<Rightarrow> 'a list" where
  "shuffle_with (Suc i) (j # js) arr = shuffle_with i js (swap_cells (Suc i) j arr)"
| "shuffle_with i js arr = arr"

fun draws_ok :: "nat \<Rightarrow> nat list \<Rightarrow> bool" where
  "draws_ok 0 js \<longleftrightarrow> js = []"
| "draws_ok (Suc i) [] \<longleftrightarrow> False"
| "draws_ok (Suc i) (j # js) \<longleftrightarrow> j \<le> Suc i \<and> draws_ok i js"

lemma mset_agree_prefix:
  assumes "mset ys = mset arr" "drop k ys = drop k arr"
  shows "mset (take k ys) = mset (take k arr)"
proof -
  have "mset (take k ys) + mset (drop k ys) = mset (take k arr) + mset (drop k arr)"
    using assms(1) by (simp flip: mset_append)
  then show ?thesis by (simp add: assms(2))
qed

lemma shuffle_with_reaches:
  "i < length arr \<Longrightarrow> mset ys = mset arr \<Longrightarrow> drop (Suc i) ys = drop (Suc i) arr \<Longrightarrow>
     \<exists>js. draws_ok i js \<and> shuffle_with i js arr = ys"
proof (induction i arbitrary: arr)
  case 0
  have "mset (take 1 ys) = mset (take 1 arr)" by (rule mset_agree_prefix) (use 0 in simp_all)
  then have "take 1 ys = take 1 arr"
    by (cases arr; cases ys) auto
  then have "ys = arr" using 0 by (metis One_nat_def append_take_drop_id)
  then show ?case by (intro exI [of _ "[]"]) simp
next
  case (Suc i)
  have len: "length ys = length arr" using Suc.prems(2) by (metis size_mset)
  have "mset (take (Suc (Suc i)) ys) = mset (take (Suc (Suc i)) arr)"
    by (rule mset_agree_prefix) (use Suc in simp_all)
  moreover have "ys ! Suc i \<in> set (take (Suc (Suc i)) ys)"
    using Suc.prems(1) len by (auto simp: in_set_conv_nth intro!: exI [of _ "Suc i"])
  ultimately have "ys ! Suc i \<in> set (take (Suc (Suc i)) arr)" by (metis set_mset_mset)
  then obtain j where "j < Suc (Suc i)" "arr ! j = ys ! Suc i" by (auto simp: in_set_conv_nth)
  then have j: "j \<le> Suc i" "arr ! j = ys ! Suc i" by simp_all
  let ?arr = "swap_cells (Suc i) j arr"
  have m: "mset ys = mset ?arr" using Suc.prems(1,2) j(1) by (simp add: swap_cells_mset)
  have "drop (Suc i) ys = drop (Suc i) ?arr"
  proof (rule nth_equalityI)
    show "length (drop (Suc i) ys) = length (drop (Suc i) ?arr)" using len by simp
    fix k assume k: "k < length (drop (Suc i) ys)"
    show "drop (Suc i) ys ! k = drop (Suc i) ?arr ! k"
    proof (cases k)
      case 0
      have "?arr ! Suc i = arr ! j" using Suc.prems(1) j(1) by (cases "j = Suc i") (auto simp: swap_cells_def)
      then show ?thesis using 0 j Suc.prems(1) len by simp
    next
      case (Suc k')
      have "ys ! (Suc (Suc i) + k') = arr ! (Suc (Suc i) + k')"
        using arg_cong [OF Suc.prems(3), of "\<lambda>l. l ! k'"] k len Suc by simp
      moreover have "?arr ! (Suc (Suc i) + k') = arr ! (Suc (Suc i) + k')"
        using j(1) by (simp add: swap_cells_def)
      ultimately show ?thesis using Suc k len by simp
    qed
  qed
  with Suc.IH [of ?arr] Suc.prems(1) m obtain js where "draws_ok i js" "shuffle_with i js ?arr = ys"
    by auto
  with j(1) show ?case by (intro exI [of _ "j # js"]) simp
qed

lemma fisher_yates_shuffle_with:
  "draws_ok i js \<Longrightarrow> i < 2147483647 \<Longrightarrow> (\<And>k. k < i \<Longrightarrow> rand_src e (rand_pos e + k) = of_nat (js ! k)) \<Longrightarrow>
   fst (fisher_yates i arr e) = shuffle_with i js arr"
proof (induction i js arbitrary: arr e rule: draws_ok.induct)
  case (1 js)
  then show ?case by simp
next
  case (2 i)
  then show ?case by simp
next
  case (3 i j js)
  have j: "j \<le> Suc i" and ok: "draws_ok i js" using "3.prems"(1) by simp_all
  have "rand_src e (rand_pos e) = of_nat j" using "3.prems"(3) [of 0] by simp
  then have r: "c_rand e = (j, e\<lparr>rand_pos := rand_pos e + 1\<rparr>)"
    using j "3.prems"(2) by (simp add: c_rand_def unsigned_of_nat take_bit_nat_eq_self)
  have "fst (fisher_yates i (swap_cells (Suc i) j arr) (e\<lparr>rand_pos := rand_pos e + 1\<rparr>)) =
      shuffle_with i js (swap_cells (Suc i) j arr)"
  proof (rule "3.IH" [OF ok])
    show "i < 2147483647" using "3.prems"(2) by simp
    show "rand_src (e\<lparr>rand_pos := rand_pos e + 1\<rparr>) (rand_pos (e\<lparr>rand_pos := rand_pos e + 1\<rparr>) + k) = of_nat (js ! k)"
      if "k < i" for k using "3.prems"(3) [of "Suc k"] that by simp
  qed
  then show ?case using r j by simp
qed

lemma fisher_yates_reaches:
  assumes "mset ys = mset xs" "0 < length xs" "length xs \<le> OOD_ARRAY"
  shows "\<exists>src. fst (fisher_yates (length xs - 1) xs (e\<lparr>rand_src := src\<rparr>)) = ys"
proof -
  have "length ys = length xs" using assms(1) by (metis size_mset)
  with shuffle_with_reaches [of "length xs - 1" xs ys] assms obtain js where
    js: "draws_ok (length xs - 1) js" "shuffle_with (length xs - 1) js xs = ys" by auto
  have "fst (fisher_yates (length xs - 1) xs (e\<lparr>rand_src := \<lambda>k. of_nat (js ! (k - rand_pos e))\<rparr>)) = ys"
    by (subst fisher_yates_shuffle_with [OF js(1)]) (use js(2) assms(3) in \<open>auto simp: OOD_ARRAY_def\<close>)
  then show ?thesis by blast
qed

subsection \<open>The capture loop\<close>

lemma ood_pick_simps [simp]:
  "enabledFlag (ood_pick now p m) = enabledFlag m"
  "lastEnabled (ood_pick now p m) = lastEnabled m"
  "affectedCount (ood_pick now p m) = affectedCount m + 1"
  "bufLinked (ood_pick now p m) = bufLinked m"
  "buf (ood_pick now p m) = p\<lparr>timestamp := now\<rparr> # buf m"
  "bufSize (ood_pick now p m) = Suc (bufSize m)"
  "maxBuffer (ood_pick now p m) = maxBuffer m"
  "maxDelay (ood_pick now p m) = maxDelay m"
  "dir_match (ood_pick now p m) q = dir_match m q"
  by (simp_all add: ood_pick_def count_affected_def dir_match_def)

lemma ood_capture_spec:
  "ood_capture now limit rs m e = (m', rs', e') \<Longrightarrow> bufSize m = length (buf m) \<Longrightarrow>
     bufSize m' = length (buf m') \<and> bufLinked m' = bufLinked m \<and>
     (int (length (buf m')) \<le> max limit (int (length (buf m)))) \<and>
     enabledFlag m' = enabledFlag m \<and> lastEnabled m' = lastEnabled m \<and>
     maxBuffer m' = maxBuffer m \<and> maxDelay m' = maxDelay m \<and> quiet e e' \<and>
     length rs' + length (buf m') = length rs + length (buf m) \<and>
     owed_all rs' + owed_all (buf m') = owed_all rs + owed_all (buf m) \<and>
     filter (\<lambda>p. \<not> dir_match m p) rs' = filter (\<lambda>p. \<not> dir_match m p) rs"
proof (induction now limit rs m e arbitrary: rs' rule: ood_capture.induct)
  case (1 now limit m e)
  then show ?case by simp
next
  case (2 now limit p rs m e)
  obtain hit e1 where c: "(if int (bufSize m) < limit then chosen m (oodChance m) p e else (False, e)) = (hit, e1)"
    by (metis surj_pair)
  have qe: "quiet e e1" using c by (auto dest: quiet_chosen split: if_splits)
  show ?case
  proof (cases hit)
    case True
    then have room: "int (bufSize m) < limit" and d: "dir_match m p"
      using c by (auto dest: chosen_dir split: if_splits)
    have l: "ood_capture now limit rs (ood_pick now p m) e1 = (m', rs', e')"
      using "2.prems"(1) c True by simp
    have "bufSize (ood_pick now p m) = length (buf (ood_pick now p m))" using "2.prems"(2) by simp
    note ih = "2.IH"(1) [OF c [symmetric] True l this]
    have "quiet e e'" using ih quiet_trans [OF qe] by blast
    with ih room d "2.prems"(2) show ?thesis by (simp add: ac_simps)
  next
    case False
    obtain rs2 where l: "ood_capture now limit rs m e1 = (m', rs2, e')" and rs': "rs' = p # rs2"
      using "2.prems"(1) c False by (auto split: prod.splits)
    note ih = "2.IH"(2) [OF c [symmetric] False l "2.prems"(2)]
    have "quiet e e'" using ih quiet_trans [OF qe] by blast
    with ih rs' show ?thesis by (simp add: ac_simps)
  qed
qed

subsection \<open>The module contract\<close>

text \<open>\<^verbatim>\<open>maxBuffer\<close> is only ever set to a value between 2 and 50.\<close>

definition ood_wf :: "ood_state \<Rightarrow> bool" where
  "ood_wf m \<longleftrightarrow> buffered_wf OOD_ARRAY m \<and> maxBuffer m \<le> int OOD_ARRAY"

lemma ood_array_fits:
  assumes "ood_wf m" "ood_capture now (maxBuffer m) rs m e = (m', rs', e')"
  shows "bufSize m' \<le> OOD_ARRAY"
  using ood_capture_spec [OF assms(2)] assms(1) by (auto simp: ood_wf_def buffered_wf_def max_def split: if_splits)

lemma releaseBufShuffled_spec:
  assumes bs: "bufSize m = length (buf m)" and ne: "buf m \<noteq> []"
    and eq: "releaseBufShuffled m xs e = (m', xs', e')"
  shows "\<exists>arr. mset arr = mset (buf m) \<and> xs' = rev arr @ xs \<and> quiet e e' \<and>
    m' = m\<lparr>buf := [], bufSize := 0\<rparr>"
proof -
  obtain arr e1 where f: "fisher_yates (length (buf m) - 1) (rev (buf m)) e = (arr, e1)" by (metis surj_pair)
  from shuffle_permutes [OF _ f] ne have "mset arr = mset (buf m)" "quiet e e1" by simp_all
  moreover have "m' = m\<lparr>buf := [], bufSize := 0\<rparr>" "xs' = rev arr @ xs" "e' = e1"
    using eq ne by (simp_all add: releaseBufShuffled_def bs f [unfolded One_nat_def] Let_def)
  ultimately show ?thesis by blast
qed

lemma oodProcess_cases:
  assumes bs: "bufSize m = length (buf m)" and eq: "oodProcess m xs e = (m', xs', e', t)"
    and tm: "timeGetTime e = (now, e1)" and c: "ood_capture now (maxBuffer m) (rev xs) m e1 = (m1, rs, e2)"
  shows "quiet e e' \<and>
    (if buf m1 \<noteq> [] \<and> (int (length (buf m1)) \<ge> maxBuffer m \<or> now - timestamp (last (buf m1)) \<ge> of_int (maxDelay m))
     then t \<and> m' = m1\<lparr>buf := [], bufSize := 0\<rparr> \<and> (\<exists>arr. mset arr = mset (buf m1) \<and> xs' = arr @ rev rs)
     else m' = m1 \<and> xs' = rev rs \<and> (t \<longleftrightarrow> buf m1 \<noteq> []))"
proof -
  note sp = ood_capture_spec [OF c bs]
  have q: "quiet e e2" using quiet_trans [OF quiet_timeGetTime [OF tm]] sp by blast
  let ?rel = "buf m1 \<noteq> [] \<and> (int (length (buf m1)) \<ge> maxBuffer m \<or> now - timestamp (last (buf m1)) \<ge> of_int (maxDelay m))"
  have p: "oodProcess m xs e = (if ?rel then (case releaseBufShuffled m1 (rev rs) e2 of (m, xs, e) \<Rightarrow> (m, xs, e, True))
      else (m1, rev rs, e2, bufSize m1 > 0))"
    using sp by (simp add: oodProcess_def tm c)
  show ?thesis
  proof (cases ?rel)
    case True
    obtain m2 xs2 e3 where r: "releaseBufShuffled m1 (rev rs) e2 = (m2, xs2, e3)" by (metis prod_cases3)
    have "bufSize m1 = length (buf m1)" "buf m1 \<noteq> []" using sp True by simp_all
    from releaseBufShuffled_spec [OF this r] obtain arr where
      arr: "mset arr = mset (buf m1)" "xs2 = rev arr @ rev rs" "quiet e2 e3" "m2 = m1\<lparr>buf := [], bufSize := 0\<rparr>"
      by blast
    have "m' = m2" "xs' = xs2" "e' = e3" t using p eq r True by simp_all
    with arr True quiet_trans [OF q arr(3)] show ?thesis by (auto intro!: exI [of _ "rev arr"])
  next
    case False
    have "m' = m1" "xs' = rev rs" "e' = e2" "t = (bufSize m1 > 0)" using p eq by (simp_all only: if_not_P [OF False] prod.inject)
    with False q sp show ?thesis by auto
  qed
qed

lemma oodProcess_contract:
  assumes wf: "ood_wf m" and l: "bufLinked m" and q: "nfqQueue e" and eq: "oodProcess m xs e = (m', xs', e', t)"
  shows "ood_wf m' \<and> bufLinked m' \<and> nfqQueue e' \<and> enabledFlag m' = enabledFlag m \<and>
    lastEnabled m' = lastEnabled m \<and> ledger (xs' @ buf m') e' = ledger (xs @ buf m) e"
proof -
  obtain now e1 where tm: "timeGetTime e = (now, e1)" by (metis surj_pair)
  obtain m1 rs e2 where c: "ood_capture now (maxBuffer m) (rev xs) m e1 = (m1, rs, e2)" by (metis prod_cases3)
  have bs: "bufSize m = length (buf m)" using wf by (simp add: ood_wf_def buffered_wf_def)
  note sp = ood_capture_spec [OF c bs]
  note main = oodProcess_cases [OF bs eq tm c]
  note fits = ood_array_fits [OF wf c]
  have ow: "owed_all (xs' @ buf m') = owed_all (xs @ buf m)"
  proof (cases "buf m1 \<noteq> [] \<and> (int (length (buf m1)) \<ge> maxBuffer m \<or> now - timestamp (last (buf m1)) \<ge> of_int (maxDelay m))")
    case True
    with main obtain arr where "mset arr = mset (buf m1)" "xs' = arr @ rev rs" "buf m' = []" by auto
    then show ?thesis using sp owed_all_mset [of arr "buf m1"] by (simp add: add.commute)
  next
    case False
    with main have "m' = m1" "xs' = rev rs" by simp_all
    then show ?thesis using sp by simp
  qed
  have "m' = m1 \<or> m' = m1\<lparr>buf := [], bufSize := 0\<rparr>" using main by (auto split: if_splits)
  then have "ood_wf m' \<and> bufLinked m' \<and> enabledFlag m' = enabledFlag m \<and> lastEnabled m' = lastEnabled m"
    using sp fits wf l by (auto simp: ood_wf_def buffered_wf_def)
  moreover have "nfqQueue e'" "answered e' = answered e" using main q quiet_answered by blast+
  ultimately show ?thesis using ow by (simp only: ledger_def)
qed

lemma oodStartUp_contract:
  "ood_wf m \<Longrightarrow> oodStartUp m e = (m', e') \<Longrightarrow>
     ood_wf m' \<and> bufLinked m' \<and> buf m' = buf m \<and> quiet e e' \<and> enabledFlag m' = enabledFlag m"
  by (auto simp: oodStartUp_def bufferStartUp_def ood_wf_def buffered_wf_def split: if_splits)

lemma oodCloseDown_contract:
  "ood_wf m \<Longrightarrow> bufLinked m \<Longrightarrow>
     \<exists>m' xs' e'. oodCloseDown m xs e = Some (m', xs', e') \<and> ood_wf m' \<and> bufLinked m' \<and>
       buf m' = [] \<and> quiet e e' \<and> enabledFlag m' = enabledFlag m \<and>
       owed_all xs' = owed_all (xs @ buf m)"
  by (simp add: oodCloseDown_def bufferCloseDown_def ood_wf_def buffered_wf_def)

interpretation ood: bounded_module oodStartUp oodProcess oodCloseDown buf ood_wf bufLinked OOD_ARRAY
  by unfold_locales
    ((rule oodStartUp_contract oodProcess_contract oodCloseDown_contract; assumption)
      | simp add: ood_wf_def buffered_wf_def)+

subsection \<open>Properties\<close>

text \<open>C15: a call of \<^verbatim>\<open>oodProcess\<close> loses and invents no packet: when the buffer is full or its oldest
  packet is old enough, all held packets leave, as a permutation, ahead of the packets left alone;
  otherwise they stay. The 50-cell array is large enough for all of them.\<close>

theorem ood_release_permutes:
  assumes "ood_wf m" and "timeGetTime e = (now, e1)"
    and "ood_capture now (maxBuffer m) (rev xs) m e1 = (m1, rs, e2)" and "oodProcess m xs e = (m', xs', e', t)"
  shows "bufSize m1 \<le> OOD_ARRAY \<and> length rs + length (buf m1) = length xs + length (buf m) \<and>
    filter (\<lambda>p. \<not> dir_match m p) (rev rs) = filter (\<lambda>p. \<not> dir_match m p) xs \<and>
    (if buf m1 \<noteq> [] \<and> (int (length (buf m1)) \<ge> maxBuffer m \<or> now - timestamp (last (buf m1)) \<ge> of_int (maxDelay m))
     then t \<and> buf m' = [] \<and> (\<exists>arr. mset arr = mset (buf m1) \<and> xs' = arr @ rev rs)
     else m' = m1 \<and> xs' = rev rs)"
proof -
  have bs: "bufSize m = length (buf m)" using assms(1) by (simp add: ood_wf_def buffered_wf_def)
  note sp = ood_capture_spec [OF assms(3) bs]
  have f: "filter (\<lambda>p. \<not> dir_match m p) (rev rs) = filter (\<lambda>p. \<not> dir_match m p) xs"
    using sp by (metis rev_filter rev_rev_ident)
  show ?thesis using ood_array_fits [OF assms(1,3)] sp f oodProcess_cases [OF bs assms(4,2,3)]
    by (auto split: if_splits)
qed

theorem ood_release_permutes_witness:
  "bufSize (fst (ood_capture 3 (maxBuffer ood_init) (rev [packet_of 1 True [1]]) ood_init (env_at 3\<lparr>clock_pos := 1\<rparr>))) \<le> OOD_ARRAY"
proof -
  obtain m1 rs e2 where c: "ood_capture 3 (maxBuffer ood_init) (rev [packet_of 1 True [1]]) ood_init (env_at 3\<lparr>clock_pos := 1\<rparr>) = (m1, rs, e2)"
    by (metis prod_cases3)
  obtain m' xs' e' t where p: "oodProcess ood_init [packet_of 1 True [1]] (env_at 3) = (m', xs', e', t)" by (metis prod_cases4)
  have "ood_wf ood_init"
    by (simp add: ood_wf_def buffered_wf_def ood_init_def module_base.defs OOD_ARRAY_def)
  from ood_release_permutes [OF this env_at_simps(1) c p] show ?thesis unfolding c by simp
qed

text \<open>Every order of the held packets can come out of the shuffle: for each permutation there is a
  sequence of values of \<^verbatim>\<open>rand()\<close> for which the loop produces it.\<close>

theorem shuffle_reaches_every_order:
  assumes "mset ys = mset xs" "0 < length xs" "length xs \<le> OOD_ARRAY"
  shows "\<exists>src. fst (fisher_yates (length xs - 1) xs (e\<lparr>rand_src := src\<rparr>)) = ys"
  by (rule fisher_yates_reaches [OF assms])

theorem shuffle_reaches_every_order_witness:
  "\<exists>src. fst (fisher_yates (length [1, 2, 3 :: nat] - 1) [1, 2, 3 :: nat] (env_at 0\<lparr>rand_src := src\<rparr>)) = [3, 1, 2]"
  by (rule shuffle_reaches_every_order) (simp_all add: OOD_ARRAY_def)

end
