(* ===== verification/Jitter.thy ===== *)
theory Jitter
  imports Lag
begin

text \<open>
  \<^verbatim>\<open>src/src/jitter.cpp\<close>: every handled packet gets a random delay in \<open>[min, max]\<close> and leaves when its
  scheduled time has come. The distributions are over the reals (the rounding of doubles is not
  modelled). \<open>jitterSampleDelay_range\<close> bounds every draw of every distribution,
  \<open>jitterProcess_eq\<close> is the closed form of a call.
\<close>

definition DIST_UNIFORM :: int where "DIST_UNIFORM = 0"
definition DIST_NORMAL :: int where "DIST_NORMAL = 1"
definition DIST_PARETO :: int where "DIST_PARETO = 2"

definition JITTER_KEEP_AT_MOST :: nat where "JITTER_KEEP_AT_MOST = 2000"
definition JITTER_FLUSH_WHEN_FULL :: nat where "JITTER_FLUSH_WHEN_FULL = 800"

record jitter_state = buffered +
  jitterMin :: int
  jitterMax :: int
  jitterDist :: int

definition jitter_init :: jitter_state where
  "jitter_init = module_base.extend module_defaults
     \<lparr>bufLinked = False, buf = [], bufSize = 0, jitterMin = 20, jitterMax = 100, jitterDist = DIST_UNIFORM\<rparr>"

definition jitterStartUp :: "jitter_state \<Rightarrow> env \<Rightarrow> jitter_state \<times> env" where
  "jitterStartUp m e = bufferStartUp m e"

definition jitterCloseDown :: "jitter_state \<Rightarrow> packet list \<Rightarrow> env \<Rightarrow> (jitter_state \<times> packet list \<times> env) option" where
  "jitterCloseDown m xs e = bufferCloseDown m xs e"

definition jitter_draw :: "real \<Rightarrow> real \<Rightarrow> int \<Rightarrow> env \<Rightarrow> real \<times> env" where
  "jitter_draw lo hi dst e =
     (let range = hi - lo in
      if dst = DIST_NORMAL then
        (case randUnit e of (u1, e) \<Rightarrow> case randUnit e of (u2, e) \<Rightarrow>
         let z = sqrt (- 2 * ln u1) * cos (2 * 3.14159265358979323846 * u2)
         in ((lo + hi) / 2 + z * (range / 6), e))
      else if dst = DIST_PARETO then
        (case randUnit e of (u, e) \<Rightarrow>
         let p = (1 - u) powr (- 1 / 2) in (lo + (1 - 1 / p) * range, e))
      else (case randUnit e of (u, e) \<Rightarrow> (lo + u * range, e)))"

definition jitterSampleDelay :: "int \<Rightarrow> int \<Rightarrow> int \<Rightarrow> env \<Rightarrow> u32 \<times> env" where
  "jitterSampleDelay lo hi dst e =
     (if hi - lo \<le> 0 then (of_int lo, e)
      else
        (case jitter_draw (of_int lo) (of_int hi) dst e of (v, e) \<Rightarrow>
         let v = (if v < of_int lo then of_int lo else v);
             v = (if v > of_int hi then of_int hi else v)
         in (of_int \<lfloor>v + 1 / 2\<rfloor>, e)))"

definition jitter_pick :: "u32 \<Rightarrow> int \<Rightarrow> int \<Rightarrow> int \<Rightarrow> packet \<Rightarrow> jitter_state \<times> env \<Rightarrow> jitter_state \<times> env" where
  "jitter_pick now lo hi dst p s =
     (case s of (m, e) \<Rightarrow>
      case jitterSampleDelay lo hi dst e of (delay, e) \<Rightarrow>
        (count_affected
           (m\<lparr>buf := p\<lparr>enqueueTime := now, timestamp := now + delay\<rparr> # buf m, bufSize := bufSize m + 1\<rparr>), e))"

definition jitter_pickup ::
  "u32 \<Rightarrow> int \<Rightarrow> int \<Rightarrow> int \<Rightarrow> jitter_state \<Rightarrow> packet list \<Rightarrow> env \<Rightarrow> (jitter_state \<times> env) \<times> packet list" where
  "jitter_pickup now lo hi dst m xs e =
     scan_restart (\<lambda>(m, e). \<not> bufSize m < JITTER_KEEP_AT_MOST) (dir_match m) (jitter_pick now lo hi dst)
       (rev xs) [] (m, e)"

text \<open>The release scan over the whole buffer, oldest first. Ticks are compared as they are.\<close>

fun jitter_release ::
  "u32 \<Rightarrow> packet list \<Rightarrow> nat \<Rightarrow> packet list \<Rightarrow> env \<Rightarrow> packet list \<times> nat \<times> packet list \<times> env" where
  "jitter_release now [] n xs e = ([], n, xs, e)"
| "jitter_release now (p # rb) n xs e =
     (if now \<ge> timestamp p
      then jitter_release now rb (n - 1) (p # xs) (record_latency (now - enqueueTime p) e)
      else (case jitter_release now rb n xs e of (rb, n, xs, e) \<Rightarrow> (p # rb, n, xs, e)))"

fun jitter_flush ::
  "nat \<Rightarrow> u32 \<Rightarrow> packet list \<Rightarrow> nat \<Rightarrow> packet list \<Rightarrow> env \<Rightarrow> packet list \<times> nat \<times> packet list \<times> env" where
  "jitter_flush 0 now rb n xs e = (rb, n, xs, e)"
| "jitter_flush (Suc k) now [] n xs e = ([], n, xs, e)"
| "jitter_flush (Suc k) now (p # rb) n xs e =
     jitter_flush k now rb (n - 1) (p # xs) (record_latency (now - enqueueTime p) e)"

definition jitterProcess :: "jitter_state \<Rightarrow> packet list \<Rightarrow> env \<Rightarrow> jitter_state \<times> packet list \<times> env \<times> bool" where
  "jitterProcess m xs e =
     (case timeGetTime e of (currentTime, e) \<Rightarrow>
      let lo = (if jitterMin m > jitterMax m then jitterMax m else jitterMin m);
          hi = (if jitterMin m > jitterMax m then jitterMin m else jitterMax m) in
      case jitter_pickup currentTime lo hi (jitterDist m) m xs e of ((m, e), xs) \<Rightarrow>
      case jitter_release currentTime (rev (buf m)) (bufSize m) xs e of (rb, n, xs, e) \<Rightarrow>
      case (if n \<ge> JITTER_KEEP_AT_MOST then jitter_flush JITTER_FLUSH_WHEN_FULL currentTime rb n xs e
            else (rb, n, xs, e)) of (rb, n, xs, e) \<Rightarrow>
      (m\<lparr>buf := rev rb, bufSize := n\<rparr>, xs, e, n > 0))"

subsection \<open>The delay of a draw\<close>

lemma quiet_jitter_draw: "jitter_draw lo hi dst e = (v, e') \<Longrightarrow> quiet e e'"
  by (auto simp: jitter_draw_def Let_def quiet_def dest!: quiet_randUnit split: if_splits prod.splits)

lemma quiet_jitterSampleDelay: "jitterSampleDelay lo hi dst e = (d, e') \<Longrightarrow> quiet e e'"
  by (auto simp: jitterSampleDelay_def Let_def dest: quiet_jitter_draw split: if_splits prod.splits)

lemma jitterSampleDelay_range:
  assumes eq: "jitterSampleDelay lo hi dst e = (d, e')" and b: "0 \<le> lo" "lo \<le> hi" "hi \<le> 32767"
  shows "lo \<le> int (unat d) \<and> int (unat d) \<le> hi"
proof -
  have w: "int (unat (of_int k :: u32)) = k" if "0 \<le> k" "k \<le> 32767" for k
    using that by (simp add: unsigned_of_int take_bit_int_eq_self)
  show ?thesis
  proof (cases "hi - lo \<le> 0")
    case True
    then show ?thesis using eq b w [of lo] by (simp add: jitterSampleDelay_def)
  next
    case False
    obtain v e1 where v: "jitter_draw (of_int lo) (of_int hi) dst e = (v, e1)" by (metis surj_pair)
    define c where "c = (let v = (if v < of_int lo then of_int lo else v) in if v > of_int hi then of_int hi else v)"
    have c: "of_int lo \<le> c" "c \<le> of_int hi" using b by (auto simp: c_def Let_def)
    have d: "d = of_int \<lfloor>c + 1 / 2\<rfloor>" using eq False v by (auto simp: jitterSampleDelay_def c_def Let_def)
    have "lo \<le> \<lfloor>c + 1 / 2\<rfloor>" using c by (simp add: le_floor_iff)
    moreover have "\<lfloor>c + 1 / 2\<rfloor> \<le> hi" using c by (simp add: floor_le_iff)
    moreover have "int (unat d) = \<lfloor>c + 1 / 2\<rfloor>"
      unfolding d by (rule w) (use calculation b in linarith)+
    ultimately show ?thesis by simp
  qed
qed

subsection \<open>The loops\<close>

lemma jitter_release_eq:
  "jitter_release now rb n xs e =
     (filter (\<lambda>p. \<not> now \<ge> timestamp p) rb, n - length (filter (\<lambda>p. now \<ge> timestamp p) rb),
      rev (filter (\<lambda>p. now \<ge> timestamp p) rb) @ xs, delays_out now (filter (\<lambda>p. now \<ge> timestamp p) rb) e)"
  by (induction now rb n xs e rule: jitter_release.induct) (simp_all add: delays_out_def)

lemma jitter_flush_eq:
  "jitter_flush k now rb n xs e =
     (drop k rb, n - length (take k rb), rev (take k rb) @ xs, delays_out now (take k rb) e)"
  by (induction k now rb n xs e rule: jitter_flush.induct) (simp_all add: delays_out_def)

lemma jitter_pickup_eq:
  "jitter_pickup now lo hi dst m xs e =
     (case take_hits (JITTER_KEEP_AT_MOST - bufSize m) (dir_match m) (rev xs) of
        (picked, rest) \<Rightarrow> (fold (jitter_pick now lo hi dst) picked (m, e), rev rest))"
  using scan_restart_take_hits [where cap = JITTER_KEEP_AT_MOST and size_of = "\<lambda>(m, e). bufSize m"
      and full = "\<lambda>(m, e). \<not> bufSize m < JITTER_KEEP_AT_MOST" and pick = "jitter_pick now lo hi dst"
      and hit = "dir_match m" and xs = xs and s = "(m, e)"]
  by (simp add: jitter_pickup_def split_paired_all jitter_pick_def not_less split: prod.splits)

text \<open>What a packet carries once it has been scheduled with a delay of between \<open>lo\<close> and \<open>hi\<close>.\<close>

definition scheduled :: "u32 \<Rightarrow> int \<Rightarrow> int \<Rightarrow> packet \<Rightarrow> packet \<Rightarrow> bool" where
  "scheduled now lo hi p q \<longleftrightarrow>
     (\<exists>d. q = p\<lparr>enqueueTime := now, timestamp := now + d\<rparr> \<and> lo \<le> int (unat d) \<and> int (unat d) \<le> hi)"

lemma scheduled_owed: "scheduled now lo hi p q \<Longrightarrow> owed q = owed p"
  by (auto simp: scheduled_def)

lemma list_all2_scheduled_owed: "list_all2 (scheduled now lo hi) ps qs \<Longrightarrow> owed_all qs = owed_all ps"
  by (induction rule: list_all2_induct) (simp_all add: scheduled_owed)

lemma fold_jitter_pick:
  assumes "0 \<le> lo" "lo \<le> hi" "hi \<le> 32767" "fold (jitter_pick now lo hi dst) ps (m, e) = (m', e')"
  shows "\<exists>qs. list_all2 (scheduled now lo hi) ps qs \<and> buf m' = rev qs @ buf m \<and>
    bufSize m' = bufSize m + length ps \<and> affectedCount m' = affectedCount m + of_nat (length ps) \<and>
    enabledFlag m' = enabledFlag m \<and> lastEnabled m' = lastEnabled m \<and> bufLinked m' = bufLinked m \<and>
    jitterMin m' = jitterMin m \<and> jitterMax m' = jitterMax m \<and> quiet e e'"
  using assms(4)
proof (induction ps arbitrary: m e)
  case Nil
  then show ?case by simp
next
  case (Cons p ps)
  obtain d e1 where d: "jitterSampleDelay lo hi dst e = (d, e1)" by (metis surj_pair)
  let ?q = "p\<lparr>enqueueTime := now, timestamp := now + d\<rparr>"
  let ?m = "count_affected (m\<lparr>buf := ?q # buf m, bufSize := bufSize m + 1\<rparr>)"
  have q: "scheduled now lo hi p ?q"
    using jitterSampleDelay_range [OF d assms(1-3)] by (auto simp: scheduled_def)
  have "jitter_pick now lo hi dst p (m, e) = (?m, e1)" by (simp add: jitter_pick_def d)
  then have "fold (jitter_pick now lo hi dst) ps (?m, e1) = (m', e')" using Cons.prems by simp
  from Cons.IH [OF this] obtain qs where
    "list_all2 (scheduled now lo hi) ps qs" "buf m' = rev qs @ buf ?m" "bufSize m' = bufSize ?m + length ps"
    "affectedCount m' = affectedCount ?m + of_nat (length ps)" "enabledFlag m' = enabledFlag m"
    "lastEnabled m' = lastEnabled m" "bufLinked m' = bufLinked m" "jitterMin m' = jitterMin m"
    "jitterMax m' = jitterMax m" "quiet e1 e'"
    by (auto simp: count_affected_def)
  with q quiet_trans [OF quiet_jitterSampleDelay [OF d]] show ?case
    by (intro exI [of _ "?q # qs"]) simp
qed

subsection \<open>The closed form and the module contract\<close>

text \<open>\<open>rb\<close> is the filled buffer, oldest first; what leaves it are the due packets and, if 2000 are left, 800 more.\<close>

definition jitter_out :: "u32 \<Rightarrow> packet list \<Rightarrow> packet list \<times> packet list" where
  "jitter_out now rb =
     (let due = filter (\<lambda>p. now \<ge> timestamp p) rb; left = filter (\<lambda>p. \<not> now \<ge> timestamp p) rb in
      if length left \<ge> JITTER_KEEP_AT_MOST
      then (due @ take JITTER_FLUSH_WHEN_FULL left, drop JITTER_FLUSH_WHEN_FULL left)
      else (due, left))"

lemma jitter_out_owed: "jitter_out now rb = (out, left) \<Longrightarrow> owed_all out + owed_all left = owed_all rb"
proof -
  assume eq: "jitter_out now rb = (out, left)"
  let ?d = "filter (\<lambda>p. now \<ge> timestamp p) rb" and ?l = "filter (\<lambda>p. \<not> now \<ge> timestamp p) rb"
  have "out @ left = ?d @ ?l"
    using eq by (auto simp: jitter_out_def Let_def split: if_splits)
  then have "mset (out @ left) = mset (?d @ ?l)" by simp
  then have "mset out + mset left = mset ?d + mset ?l" by (simp only: mset_append)
  also have "\<dots> = mset rb" by simp
  finally show ?thesis using owed_all_mset [of "out @ left" rb] by simp
qed

lemma jitter_out_lengths:
  "jitter_out now rb = (out, left) \<Longrightarrow> length out + length left = length rb \<and> length left \<le> length rb"
proof -
  assume eq: "jitter_out now rb = (out, left)"
  have "length (filter (\<lambda>p. now \<ge> timestamp p) rb) + length (filter (\<lambda>p. \<not> now \<ge> timestamp p) rb) = length rb"
    by (rule sum_length_filter_compl)
  then show ?thesis using eq by (auto simp: jitter_out_def Let_def split: if_splits)
qed

abbreviation jitter_lo :: "jitter_state \<Rightarrow> int" where
  "jitter_lo m \<equiv> if jitterMin m > jitterMax m then jitterMax m else jitterMin m"

abbreviation jitter_hi :: "jitter_state \<Rightarrow> int" where
  "jitter_hi m \<equiv> if jitterMin m > jitterMax m then jitterMin m else jitterMax m"

lemma jitterProcess_eq:
  assumes th: "take_hits (JITTER_KEEP_AT_MOST - bufSize m) (dir_match m) (rev xs) = (picked, rest)"
    and t: "timeGetTime e = (now, e1)" and bs: "bufSize m = length (buf m)"
    and p: "0 \<le> jitterMin m" "jitterMin m \<le> 5000" "0 \<le> jitterMax m" "jitterMax m \<le> 5000"
  shows "\<exists>qs m1 e2 out left. list_all2 (scheduled now (jitter_lo m) (jitter_hi m)) picked qs \<and>
    quiet e e2 \<and> buf m1 = rev qs @ buf m \<and> affectedCount m1 = affectedCount m + of_nat (length picked) \<and>
    enabledFlag m1 = enabledFlag m \<and> lastEnabled m1 = lastEnabled m \<and> bufLinked m1 = bufLinked m \<and>
    jitterMin m1 = jitterMin m \<and> jitterMax m1 = jitterMax m \<and>
    jitter_out now (rev (buf m) @ qs) = (out, left) \<and>
    jitterProcess m xs e =
      (m1\<lparr>buf := rev left, bufSize := length left\<rparr>, rev out @ rev rest, delays_out now out e2, left \<noteq> [])"
proof -
  obtain m1 e2 where f: "fold (jitter_pick now (jitter_lo m) (jitter_hi m) (jitterDist m)) picked (m, e1) = (m1, e2)"
    by (metis surj_pair)
  have range: "0 \<le> jitter_lo m" "jitter_lo m \<le> jitter_hi m" "jitter_hi m \<le> 32767"
    using p by simp_all
  from fold_jitter_pick [OF range f] obtain qs where
    qs: "list_all2 (scheduled now (jitter_lo m) (jitter_hi m)) picked qs" "buf m1 = rev qs @ buf m"
      "bufSize m1 = bufSize m + length picked" "affectedCount m1 = affectedCount m + of_nat (length picked)"
      "enabledFlag m1 = enabledFlag m" "lastEnabled m1 = lastEnabled m" "bufLinked m1 = bufLinked m"
      "jitterMin m1 = jitterMin m" "jitterMax m1 = jitterMax m" and q: "quiet e1 e2"
    by blast
  let ?rb = "rev (buf m) @ qs"
  obtain out left where o: "jitter_out now ?rb = (out, left)" by (metis surj_pair)
  let ?due = "filter (\<lambda>p. now \<ge> timestamp p) ?rb" and ?left = "filter (\<lambda>p. \<not> now \<ge> timestamp p) ?rb"
  have n: "bufSize m1 = length ?rb" using qs(1,3) bs by (simp add: list_all2_lengthD)
  have nl: "length ?rb - length ?due = length ?left"
    using sum_length_filter_compl [of "\<lambda>p. now \<ge> timestamp p" ?rb] by simp
  have rb: "rev (buf m1) = ?rb" using qs(2) by simp
  have step: "jitterProcess m xs e =
    (case (if length ?left \<ge> JITTER_KEEP_AT_MOST
           then jitter_flush JITTER_FLUSH_WHEN_FULL now ?left (length ?left) (rev ?due @ rev rest) (delays_out now ?due e2)
           else (?left, length ?left, rev ?due @ rev rest, delays_out now ?due e2)) of
       (rb, n, xs, e) \<Rightarrow> (m1\<lparr>buf := rev rb, bufSize := n\<rparr>, xs, e, n > 0))"
    by (simp only: jitterProcess_def t prod.case Let_def jitter_pickup_eq th f rb n jitter_release_eq nl)
  have "jitterProcess m xs e =
      (m1\<lparr>buf := rev left, bufSize := length left\<rparr>, rev out @ rev rest, delays_out now out e2, left \<noteq> [])"
  proof (cases "length ?left \<ge> JITTER_KEEP_AT_MOST")
    case True
    then have "out = ?due @ take JITTER_FLUSH_WHEN_FULL ?left" "left = drop JITTER_FLUSH_WHEN_FULL ?left"
      using o by (simp_all add: jitter_out_def Let_def)
    moreover have "length ?left - length (take JITTER_FLUSH_WHEN_FULL ?left) = length (drop JITTER_FLUSH_WHEN_FULL ?left)"
      by simp
    ultimately show ?thesis
      by (simp only: step True if_True jitter_flush_eq prod.case rev_append append_assoc length_greater_0_conv)
        (simp only: delays_out_def fold_append comp_apply)
  next
    case False
    then have "out = ?due" "left = ?left" using o by (simp_all add: jitter_out_def Let_def)
    then show ?thesis by (simp only: step False if_False prod.case length_greater_0_conv)
  qed
  moreover have "quiet e e2" by (rule quiet_trans [OF quiet_timeGetTime [OF t] q])
  ultimately show ?thesis using qs o by blast
qed

text \<open>The two limits are only ever set to values between 0 and 5000.\<close>

definition jitter_wf :: "jitter_state \<Rightarrow> bool" where
  "jitter_wf m \<longleftrightarrow> buffered_wf JITTER_KEEP_AT_MOST m \<and>
     0 \<le> jitterMin m \<and> jitterMin m \<le> 5000 \<and> 0 \<le> jitterMax m \<and> jitterMax m \<le> 5000"

lemma jitterProcess_contract:
  assumes wf: "jitter_wf m" and l: "bufLinked m" and nq: "nfqQueue e"
    and eq: "jitterProcess m xs e = (m', xs', e', t)"
  shows "jitter_wf m' \<and> bufLinked m' \<and> nfqQueue e' \<and> enabledFlag m' = enabledFlag m \<and>
    lastEnabled m' = lastEnabled m \<and> ledger (xs' @ buf m') e' = ledger (xs @ buf m) e"
proof -
  obtain picked rest where th: "take_hits (JITTER_KEEP_AT_MOST - bufSize m) (dir_match m) (rev xs) = (picked, rest)"
    by (metis surj_pair)
  obtain now e1 where t: "timeGetTime e = (now, e1)" by (metis surj_pair)
  have bs: "bufSize m = length (buf m)" and cap: "length (buf m) \<le> JITTER_KEEP_AT_MOST"
    and p: "0 \<le> jitterMin m" "jitterMin m \<le> 5000" "0 \<le> jitterMax m" "jitterMax m \<le> 5000"
    using wf by (simp_all add: jitter_wf_def buffered_wf_def)
  from jitterProcess_eq [OF th t bs p] obtain qs m1 e2 out left where
    q: "list_all2 (scheduled now (jitter_lo m) (jitter_hi m)) picked qs" "quiet e e2" and
    m1: "enabledFlag m1 = enabledFlag m" "lastEnabled m1 = lastEnabled m" "bufLinked m1 = bufLinked m"
      "jitterMin m1 = jitterMin m" "jitterMax m1 = jitterMax m" and
    o: "jitter_out now (rev (buf m) @ qs) = (out, left)" and
    r: "jitterProcess m xs e =
      (m1\<lparr>buf := rev left, bufSize := length left\<rparr>, rev out @ rev rest, delays_out now out e2, left \<noteq> [])"
    by blast
  have res: "m' = m1\<lparr>buf := rev left, bufSize := length left\<rparr>" "xs' = rev out @ rev rest" "e' = delays_out now out e2"
    using eq r by simp_all
  have "picked = take (JITTER_KEEP_AT_MOST - bufSize m) (filter (dir_match m) (rev xs))"
    using take_hits_picked [of "JITTER_KEEP_AT_MOST - bufSize m" "dir_match m" "rev xs"] th by simp
  then have "length qs + length (buf m) \<le> JITTER_KEEP_AT_MOST"
    using bs cap list_all2_lengthD [OF q(1)] by simp
  then have len: "length left \<le> JITTER_KEEP_AT_MOST" using jitter_out_lengths [OF o] by simp
  have "owed_all (xs' @ buf m') = owed_all (rev (buf m) @ qs) + owed_all rest"
    using jitter_out_owed [OF o] by (simp add: res ac_simps)
  also have "\<dots> = owed_all (buf m) + (owed_all picked + owed_all rest)"
    by (simp add: list_all2_scheduled_owed [OF q(1)] ac_simps)
  also have "\<dots> = owed_all (xs @ buf m)" using owed_all_take_hits [OF th] by (simp add: ac_simps)
  finally have ow: "owed_all (xs' @ buf m') = owed_all (xs @ buf m)" .
  have "quiet e e'" unfolding res by (rule quiet_trans [OF q(2) quiet_delays_out])
  then have "nfqQueue e'" "answered e' = answered e" using nq quiet_answered by auto
  moreover have "jitter_wf m'" using len p m1 l by (simp add: jitter_wf_def buffered_wf_def res)
  ultimately show ?thesis using ow m1 l by (simp add: ledger_def res)
qed

lemma jitterStartUp_contract:
  "jitter_wf m \<Longrightarrow> jitterStartUp m e = (m', e') \<Longrightarrow>
     jitter_wf m' \<and> bufLinked m' \<and> buf m' = buf m \<and> quiet e e' \<and> enabledFlag m' = enabledFlag m"
  by (auto simp: jitterStartUp_def bufferStartUp_def jitter_wf_def buffered_wf_def split: if_splits)

lemma jitterCloseDown_contract:
  "jitter_wf m \<Longrightarrow> bufLinked m \<Longrightarrow>
     \<exists>m' xs' e'. jitterCloseDown m xs e = Some (m', xs', e') \<and> jitter_wf m' \<and> bufLinked m' \<and>
       buf m' = [] \<and> quiet e e' \<and> enabledFlag m' = enabledFlag m \<and>
       owed_all xs' = owed_all (xs @ buf m)"
  by (simp add: jitterCloseDown_def bufferCloseDown_def jitter_wf_def buffered_wf_def)

interpretation jitter: bounded_module jitterStartUp jitterProcess jitterCloseDown buf
    jitter_wf bufLinked JITTER_KEEP_AT_MOST
  by unfold_locales
    ((rule jitterStartUp_contract jitterProcess_contract jitterCloseDown_contract; assumption)
      | simp add: jitter_wf_def buffered_wf_def)+

subsection \<open>Properties\<close>

text \<open>Whatever the distribution and the random draws, the sampled delay lies between the two
  limits.\<close>

theorem jitter_delay_in_range:
  assumes "jitterSampleDelay lo hi dst e = (d, e')" and "0 \<le> lo" "lo \<le> hi" "hi \<le> 32767"
  shows "lo \<le> int (unat d) \<and> int (unat d) \<le> hi"
  by (rule jitterSampleDelay_range [OF assms])

theorem jitter_delay_in_range_witness:
  "20 \<le> int (unat (fst (jitterSampleDelay 20 100 DIST_NORMAL (env_at 0)))) \<and>
    int (unat (fst (jitterSampleDelay 20 100 DIST_NORMAL (env_at 0)))) \<le> 100"
proof -
  obtain d e' where eq: "jitterSampleDelay 20 100 DIST_NORMAL (env_at 0) = (d, e')" by (metis surj_pair)
  from jitter_delay_in_range [OF eq] show ?thesis unfolding eq by simp
qed

text \<open>C14: a call of \<^verbatim>\<open>jitterProcess\<close> schedules every handled packet that fits with a delay between the
  two limits (in either order), then releases exactly the packets whose time has come and, when 2000
  are left, the 800 oldest of those; no packet is lost.\<close>

theorem jitter_schedules_and_releases:
  assumes "jitter_wf m" and "timeGetTime e = (now, e1)"
    and "take_hits (JITTER_KEEP_AT_MOST - bufSize m) (dir_match m) (rev xs) = (picked, rest)"
    and "jitterProcess m xs e = (m', xs', e', t)"
  shows "\<exists>qs out left. list_all2 (scheduled now (jitter_lo m) (jitter_hi m)) picked qs \<and>
    jitter_out now (rev (buf m) @ qs) = (out, left) \<and> buf m' = rev left \<and> xs' = rev out @ rev rest \<and>
    length out + length left = length (buf m) + length picked \<and>
    affectedCount m' = affectedCount m + of_nat (length picked)"
proof -
  have bs: "bufSize m = length (buf m)" and p: "0 \<le> jitterMin m" "jitterMin m \<le> 5000" "0 \<le> jitterMax m" "jitterMax m \<le> 5000"
    using assms(1) by (simp_all add: jitter_wf_def buffered_wf_def)
  from jitterProcess_eq [OF assms(3,2) bs p] obtain qs m1 e2 out left where
    r: "list_all2 (scheduled now (jitter_lo m) (jitter_hi m)) picked qs"
      "affectedCount m1 = affectedCount m + of_nat (length picked)" "jitter_out now (rev (buf m) @ qs) = (out, left)"
      "jitterProcess m xs e =
        (m1\<lparr>buf := rev left, bufSize := length left\<rparr>, rev out @ rev rest, delays_out now out e2, left \<noteq> [])"
    by blast
  have "length out + length left = length (buf m) + length picked"
    using jitter_out_lengths [OF r(3)] list_all2_lengthD [OF r(1)] by simp
  moreover have "m' = m1\<lparr>buf := rev left, bufSize := length left\<rparr>" "xs' = rev out @ rev rest"
    using assms(4) r(4) by simp_all
  ultimately show ?thesis using r by (intro exI [of _ qs] exI [of _ out] exI [of _ left]) simp
qed

text \<open>At tick 9 a packet that was due at 5 leaves; the one that arrives stays, due in 20 to 100 ms.\<close>

definition sample_held :: packet where
  "sample_held = (packet_of 2 True [2])\<lparr>enqueueTime := 0, timestamp := 5\<rparr>"

definition sample_jitter :: jitter_state where
  "sample_jitter = jitter_init\<lparr>bufLinked := True, buf := [sample_held], bufSize := 1\<rparr>"

theorem jitter_schedules_and_releases_witness:
  "\<exists>m' e' t q. jitterProcess sample_jitter [packet_of 1 True [1]] (env_at 9) = (m', [sample_held], e', t) \<and> buf m' = [q] \<and>
     owed q = owed (packet_of 1 True [1]) \<and> enqueueTime q = 9 \<and> 29 \<le> unat (timestamp q) \<and> unat (timestamp q) \<le> 109"
proof -
  let ?m = sample_jitter and ?p = "packet_of 1 True [1]"
  note defs = sample_jitter_def jitter_init_def module_base.defs
  obtain m' xs' e' t where eq: "jitterProcess ?m [?p] (env_at 9) = (m', xs', e', t)" by (metis prod_cases4)
  have wf: "jitter_wf ?m" by (simp add: jitter_wf_def buffered_wf_def JITTER_KEEP_AT_MOST_def defs)
  have k: "1 \<le> JITTER_KEEP_AT_MOST - bufSize ?m" by (simp add: JITTER_KEEP_AT_MOST_def defs)
  have d: "dir_match ?m ?p"
    by (simp add: dir_match_def checkDirection_def packet_of_def zero_meta_def defs module_defaults_def)
  have th: "take_hits (JITTER_KEEP_AT_MOST - bufSize ?m) (dir_match ?m) (rev [?p]) = ([?p], [])"
    using take_hits_enough_room [of "dir_match ?m" "rev [?p]"] k d by simp
  have lim: "jitter_lo ?m = 20" "jitter_hi ?m = 100" "buf ?m = [sample_held]" by (simp_all add: defs)
  from jitter_schedules_and_releases [OF wf env_at_simps(1) th eq] obtain q out left where
    q: "scheduled 9 20 100 ?p q" and o: "jitter_out 9 [sample_held, q] = (out, left)" and
    r: "buf m' = rev left" "xs' = rev out" by (auto simp: lim list_all2_Cons1)
  from q obtain d where d0: "q = ?p\<lparr>enqueueTime := 9, timestamp := 9 + d\<rparr>" "20 \<le> int (unat d)" "int (unat d) \<le> 100"
    unfolding scheduled_def by blast
  then have d: "q = ?p\<lparr>enqueueTime := 9, timestamp := 9 + d\<rparr>" "20 \<le> unat d" "unat d \<le> 100" by linarith+
  have "unat (9 + d) = 9 + unat d" by (subst unat_plus_if_size) (use d in \<open>simp add: size_word_def\<close>)
  then have later: "unat (timestamp q) = 9 + unat d" by (simp add: d(1))
  then have "\<not> timestamp q \<le> 9" using d(2) by (simp add: word_le_nat_alt)
  then have "out = [sample_held]" "left = [q]"
    using o by (auto simp: jitter_out_def sample_held_def JITTER_KEEP_AT_MOST_def)
  then show ?thesis using eq r d later by simp
qed

end
