(* ===== verification/Bandwidth.thy ===== *)
theory Bandwidth
  imports Module_Base
begin

text \<open>
  \<^verbatim>\<open>src/src/bandwidth.cpp\<close>: a token bucket in front of a FIFO queue of at most 2000 packets, with
  tail drop. Tokens are rationals (the rounding of doubles is not modelled). The lemmas show that
  the bucket never leaves \<open>[0, maxTokens]\<close>, that every byte released is paid for
  (\<open>bw_drain_spec\<close>), that the queue is FIFO, and the long-run bound on what leaves it
  (\<open>bandwidth_session_rate\<close>).
\<close>

definition BW_KEEP_AT_MOST :: nat where "BW_KEEP_AT_MOST = 2000"
definition BUCKET_SECS :: rat where "BUCKET_SECS = 2"

record bandwidth_state = buffered +
  bandwidthLimit :: int
  tokenBucket :: rat
  maxTokens :: rat
  lastFillTime :: u32

definition bandwidth_init :: bandwidth_state where
  "bandwidth_init = module_base.extend module_defaults
     \<lparr>bufLinked = False, buf = [], bufSize = 0,
      bandwidthLimit = 10, tokenBucket = 0, maxTokens = 0, lastFillTime = 0\<rparr>"

definition bucket_size :: "int \<Rightarrow> rat" where
  "bucket_size limit = (let t = of_int limit * 1024 * BUCKET_SECS in if t < 65535 then 65535 else t)"

definition bandwidthStartUp :: "bandwidth_state \<Rightarrow> env \<Rightarrow> bandwidth_state \<times> env" where
  "bandwidthStartUp m e =
     (let m = (if \<not> bufLinked m then m\<lparr>bufLinked := True, buf := [], bufSize := 0\<rparr> else m);
          m = m\<lparr>maxTokens := bucket_size (bandwidthLimit m)\<rparr>;
          m = m\<lparr>tokenBucket := maxTokens m\<rparr> in
      case timeGetTime e of (now, e) \<Rightarrow> (m\<lparr>lastFillTime := now\<rparr>, startTimePeriod e))"

definition bandwidthCloseDown ::
  "bandwidth_state \<Rightarrow> packet list \<Rightarrow> env \<Rightarrow> (bandwidth_state \<times> packet list \<times> env) option" where
  "bandwidthCloseDown m xs e = bufferCloseDown m xs e"

text \<open>Step 1: tokens for the time since the last call.\<close>

definition bw_refill :: "u32 \<Rightarrow> bandwidth_state \<Rightarrow> bandwidth_state" where
  "bw_refill now m =
     (let limit = bandwidthLimit m in
      let m = (if limit > 0 then
                 (let elapsed = of_nat (unat (now - lastFillTime m)) / 1000;
                      m = m\<lparr>maxTokens := bucket_size limit\<rparr>;
                      m = m\<lparr>tokenBucket := tokenBucket m + elapsed * (of_int limit * 1024)\<rparr>
                  in if tokenBucket m > maxTokens m then m\<lparr>tokenBucket := maxTokens m\<rparr> else m)
               else m)
      in m\<lparr>lastFillTime := now\<rparr>)"

text \<open>Step 2: queue the handled packets, from \<^verbatim>\<open>tail->prev\<close> to the head; the rest stay in that order.\<close>

definition bw_pick :: "packet \<Rightarrow> bandwidth_state \<Rightarrow> bandwidth_state" where
  "bw_pick p m = count_affected (m\<lparr>buf := p # buf m, bufSize := bufSize m + 1\<rparr>)"

fun bw_enqueue :: "packet list \<Rightarrow> bandwidth_state \<Rightarrow> env \<Rightarrow> bandwidth_state \<times> packet list \<times> env" where
  "bw_enqueue [] m e = (m, [], e)"
| "bw_enqueue (p # rs) m e =
     (if dir_match m p then
        (if bufSize m < BW_KEEP_AT_MOST then bw_enqueue rs (bw_pick p m) e
         else bw_enqueue rs m (freeNode p e))
      else (case bw_enqueue rs m e of (m, rs, e) \<Rightarrow> (m, p # rs, e)))"

text \<open>Step 3: release from the oldest on while the tokens allow.\<close>

fun bw_drain :: "packet list \<Rightarrow> nat \<Rightarrow> rat \<Rightarrow> packet list \<Rightarrow> packet list \<times> nat \<times> rat \<times> packet list" where
  "bw_drain [] n tok xs = ([], n, tok, xs)"
| "bw_drain (p # rb) n tok xs =
     (if tok \<ge> of_nat (packetLen p) then bw_drain rb (n - 1) (tok - of_nat (packetLen p)) (p # xs)
      else (p # rb, n, tok, xs))"

definition bandwidthProcess ::
  "bandwidth_state \<Rightarrow> packet list \<Rightarrow> env \<Rightarrow> bandwidth_state \<times> packet list \<times> env \<times> bool" where
  "bandwidthProcess m xs e =
     (case timeGetTime e of (now, e) \<Rightarrow>
      let limit = bandwidthLimit m; m = bw_refill now m in
      case bw_enqueue (rev xs) m e of (m, rs, e) \<Rightarrow>
      let xs = rev rs in
      if limit > 0 then
        (case bw_drain (rev (buf m)) (bufSize m) (tokenBucket m) xs of (rb, n, tok, xs) \<Rightarrow>
           (m\<lparr>buf := rev rb, bufSize := n, tokenBucket := tok\<rparr>, xs, e, n > 0))
      else (m, xs, e, bufSize m > 0))"

subsection \<open>Tokens\<close>

lemma bucket_size_pos: "65535 \<le> bucket_size limit"
  by (simp add: bucket_size_def Let_def)

definition tokens_ok :: "bandwidth_state \<Rightarrow> bool" where
  "tokens_ok m \<longleftrightarrow> 0 \<le> tokenBucket m \<and> tokenBucket m \<le> maxTokens m"

lemma bw_refill_simps [simp]:
  "buf (bw_refill now m) = buf m" "bufSize (bw_refill now m) = bufSize m"
  "bufLinked (bw_refill now m) = bufLinked m" "enabledFlag (bw_refill now m) = enabledFlag m"
  "lastEnabled (bw_refill now m) = lastEnabled m" "affectedCount (bw_refill now m) = affectedCount m"
  "bandwidthLimit (bw_refill now m) = bandwidthLimit m" "lastFillTime (bw_refill now m) = now"
  "dir_match (bw_refill now m) = dir_match m"
  by (auto simp: bw_refill_def Let_def dir_match_def fun_eq_iff)

text \<open>The tokens after a refill: at most what the elapsed time pays for, and never above the bucket.\<close>

lemma bw_refill_tokens:
  assumes "tokens_ok m"
  shows "tokens_ok (bw_refill now m) \<and>
    tokenBucket (bw_refill now m) \<le> tokenBucket m +
      (if bandwidthLimit m > 0 then of_nat (unat (now - lastFillTime m)) / 1000 * (of_int (bandwidthLimit m) * 1024) else 0)"
proof (cases "bandwidthLimit m > 0")
  case False
  then show ?thesis using assms by (simp add: bw_refill_def tokens_ok_def)
next
  case True
  let ?add = "of_nat (unat (now - lastFillTime m)) / 1000 * (of_int (bandwidthLimit m) * 1024) :: rat"
  have "0 \<le> (of_nat (unat (now - lastFillTime m)) :: rat)" by (rule of_nat_0_le_iff)
  then have nn: "0 \<le> ?add" using True by (intro mult_nonneg_nonneg divide_nonneg_nonneg) simp_all
  have t: "tokenBucket (bw_refill now m) = (if tokenBucket m + ?add > bucket_size (bandwidthLimit m)
      then bucket_size (bandwidthLimit m) else tokenBucket m + ?add)"
    "maxTokens (bw_refill now m) = bucket_size (bandwidthLimit m)"
    using True by (simp_all add: bw_refill_def Let_def)
  have "0 \<le> tokenBucket m" using assms by (simp add: tokens_ok_def)
  with nn t True bucket_size_pos [of "bandwidthLimit m"] show ?thesis
    by (auto simp: tokens_ok_def)
qed

definition total_bytes :: "packet list \<Rightarrow> nat" where
  "total_bytes ps = sum_list (map packetLen ps)"

lemma bw_drain_spec:
  "bw_drain rb n tok xs = (rb', n', tok', xs') \<Longrightarrow> 0 \<le> tok \<Longrightarrow> length rb \<le> n \<Longrightarrow>
     \<exists>out. rb = out @ rb' \<and> xs' = rev out @ xs \<and> n' + length out = n \<and>
       tok' + of_nat (total_bytes out) = tok \<and> 0 \<le> tok' \<and>
       (case rb' of [] \<Rightarrow> True | p # _ \<Rightarrow> tok' < of_nat (packetLen p))"
proof (induction rb n tok xs rule: bw_drain.induct)
  case (1 n tok xs)
  then show ?case by (simp add: total_bytes_def)
next
  case (2 p rb n tok xs)
  show ?case
  proof (cases "tok \<ge> of_nat (packetLen p)")
    case False
    then show ?thesis using "2.prems" by (auto simp: total_bytes_def)
  next
    case True
    then have eq: "bw_drain rb (n - 1) (tok - of_nat (packetLen p)) (p # xs) = (rb', n', tok', xs')"
      using "2.prems"(1) by simp
    have "0 \<le> tok - of_nat (packetLen p)" "length rb \<le> n - 1" using True "2.prems"(3) by simp_all
    from "2.IH" [OF True eq this] obtain out where
      "rb = out @ rb'" "xs' = rev out @ p # xs" "n' + length out = n - 1"
      "tok' + of_nat (total_bytes out) = tok - of_nat (packetLen p)" "0 \<le> tok'"
      "case rb' of [] \<Rightarrow> True | p # _ \<Rightarrow> tok' < of_nat (packetLen p)" by (elim exE conjE) (rule that)
    with "2.prems"(3) show ?thesis
      by (intro exI [of _ "p # out"]) (auto simp: total_bytes_def)
  qed
qed

subsection \<open>The queue\<close>

lemma bw_pick_simps [simp]:
  "enabledFlag (bw_pick p m) = enabledFlag m" "lastEnabled (bw_pick p m) = lastEnabled m"
  "affectedCount (bw_pick p m) = affectedCount m + 1" "bufLinked (bw_pick p m) = bufLinked m"
  "buf (bw_pick p m) = p # buf m" "bufSize (bw_pick p m) = Suc (bufSize m)"
  "tokenBucket (bw_pick p m) = tokenBucket m" "maxTokens (bw_pick p m) = maxTokens m"
  "lastFillTime (bw_pick p m) = lastFillTime m" "bandwidthLimit (bw_pick p m) = bandwidthLimit m"
  "dir_match (bw_pick p m) = dir_match m"
  by (simp_all add: bw_pick_def count_affected_def dir_match_def fun_eq_iff)

text \<open>The handled packets that fit are queued in order, the others are dropped, the rest passes.\<close>

lemma bw_enqueue_spec:
  "bw_enqueue rs m e = (m', rs', e') \<Longrightarrow>
     (let hits = filter (dir_match m) rs; room = BW_KEEP_AT_MOST - bufSize m in
      buf m' = rev (take room hits) @ buf m \<and> bufSize m' = bufSize m + length (take room hits) \<and>
      rs' = filter (\<lambda>p. \<not> dir_match m p) rs \<and> e' = fold freeNode (drop room hits) e \<and>
      affectedCount m' = affectedCount m + of_nat (length (take room hits))) \<and>
     bufLinked m' = bufLinked m \<and> enabledFlag m' = enabledFlag m \<and> lastEnabled m' = lastEnabled m \<and>
     tokenBucket m' = tokenBucket m \<and> maxTokens m' = maxTokens m \<and> lastFillTime m' = lastFillTime m \<and>
     bandwidthLimit m' = bandwidthLimit m \<and> dir_match m' = dir_match m"
proof (induction rs m e arbitrary: rs' rule: bw_enqueue.induct)
  case (1 m e)
  then show ?case by simp
next
  case (2 p rs m e)
  show ?case
  proof (cases "dir_match m p")
    case False
    then obtain rs2 where l: "bw_enqueue rs m e = (m', rs2, e')" and rs': "rs' = p # rs2"
      using "2.prems" by (auto split: prod.splits)
    from "2.IH"(3) [OF False l] False rs' show ?thesis by (simp add: Let_def)
  next
    case d: True
    show ?thesis
    proof (cases "bufSize m < BW_KEEP_AT_MOST")
      case True
      then have l: "bw_enqueue rs (bw_pick p m) e = (m', rs', e')" using "2.prems" d by simp
      have "BW_KEEP_AT_MOST - bufSize m = Suc (BW_KEEP_AT_MOST - Suc (bufSize m))" using True by simp
      with "2.IH"(1) [OF d True l] d show ?thesis by (simp add: Let_def)
    next
      case False
      then have l: "bw_enqueue rs m (freeNode p e) = (m', rs', e')" using "2.prems" d by simp
      from "2.IH"(2) [OF d False l] d False show ?thesis by (simp add: Let_def)
    qed
  qed
qed

subsection \<open>The closed form\<close>

text \<open>
  \<open>hits\<close> are the handled packets, oldest first; those that fit join the queue \<open>q\<close> (oldest first), of
  which a prefix \<open>out\<close> is released and paid for.
\<close>

lemma bandwidthProcess_eq:
  assumes bs: "bufSize m = length (buf m)" and tk: "tokens_ok m"
    and t: "timeGetTime e = (now, e1)" and eq: "bandwidthProcess m xs e = (m', xs', e', trig)"
    and hits: "hits = filter (dir_match m) (rev xs)" and room: "room = BW_KEEP_AT_MOST - bufSize m"
    and q: "q = rev (buf m) @ take room hits"
  shows "\<exists>out. q = out @ rev (buf m') \<and> bufSize m' = length (buf m') \<and>
    xs' = rev out @ filter (\<lambda>p. \<not> dir_match m p) xs \<and> e' = fold freeNode (drop room hits) e1 \<and>
    tokenBucket m' + of_nat (total_bytes out) = tokenBucket (bw_refill now m) \<and> tokens_ok m' \<and>
    maxTokens m' = maxTokens (bw_refill now m) \<and>
    lastFillTime m' = now \<and> bandwidthLimit m' = bandwidthLimit m \<and>
    (if bandwidthLimit m > 0 then (case rev (buf m') of [] \<Rightarrow> True | p # _ \<Rightarrow> tokenBucket m' < of_nat (packetLen p))
     else out = []) \<and>
    affectedCount m' = affectedCount m + of_nat (length (take room hits)) \<and>
    bufLinked m' = bufLinked m \<and> enabledFlag m' = enabledFlag m \<and> lastEnabled m' = lastEnabled m"
proof -
  let ?m = "bw_refill now m"
  have tok: "tokens_ok ?m" using bw_refill_tokens [OF tk] by blast
  obtain m2 rs e2 where c: "bw_enqueue (rev xs) ?m e1 = (m2, rs, e2)" by (metis prod_cases3)
  from bw_enqueue_spec [OF c] have
    m2: "buf m2 = rev (take room hits) @ buf m" "bufSize m2 = bufSize m + length (take room hits)"
      "rs = filter (\<lambda>p. \<not> dir_match m p) (rev xs)" "e2 = fold freeNode (drop room hits) e1"
      "affectedCount m2 = affectedCount m + of_nat (length (take room hits))"
      "bufLinked m2 = bufLinked m" "enabledFlag m2 = enabledFlag m" "lastEnabled m2 = lastEnabled m"
      "tokenBucket m2 = tokenBucket ?m" "maxTokens m2 = maxTokens ?m" "lastFillTime m2 = now"
      "bandwidthLimit m2 = bandwidthLimit m"
    by (simp_all add: Let_def hits room)
  have rs: "rev rs = filter (\<lambda>p. \<not> dir_match m p) xs" using m2(3) by (simp add: rev_filter)
  have q2: "rev (buf m2) = q" using m2(1) q by simp
  show ?thesis
  proof (cases "bandwidthLimit m > 0")
    case False
    then have "m' = m2" "xs' = rev rs" "e' = e2" using eq t c by (simp_all add: bandwidthProcess_def)
    then show ?thesis using False m2 rs q2 tok bs
      by (intro exI [of _ "[]"]) (simp add: total_bytes_def tokens_ok_def)
  next
    case True
    obtain rb n tk' ys where d: "bw_drain q (bufSize m2) (tokenBucket ?m) (rev rs) = (rb, n, tk', ys)"
      by (metis prod_cases4)
    have "length q = bufSize m2" using q bs m2(2) by simp
    moreover have "0 \<le> tokenBucket ?m" using tok by (simp add: tokens_ok_def)
    ultimately obtain out where o: "q = out @ rb" "ys = rev out @ rev rs" "n + length out = bufSize m2"
      "tk' + of_nat (total_bytes out) = tokenBucket ?m" "0 \<le> tk'"
      "case rb of [] \<Rightarrow> True | p # _ \<Rightarrow> tk' < of_nat (packetLen p)"
      using bw_drain_spec [OF d] by auto
    have res: "m' = m2\<lparr>buf := rev rb, bufSize := n, tokenBucket := tk'\<rparr>" "xs' = ys" "e' = e2"
      using eq True t c d q2 m2(9) by (simp_all add: bandwidthProcess_def)
    have "n = length rb" using o(1,3) \<open>length q = bufSize m2\<close> by simp
    moreover have "0 \<le> (of_nat (total_bytes out) :: rat)" by simp
    then have "tk' \<le> tokenBucket ?m" using o(4) by linarith
    then have "tokens_ok m'" using tok o(5) m2(10) by (simp add: res tokens_ok_def)
    moreover have "tokenBucket m' = tk'" by (simp add: res)
    then have "case rb of [] \<Rightarrow> True | p # _ \<Rightarrow> tokenBucket m' < of_nat (packetLen p)" using o(6) by (simp only:)
    ultimately show ?thesis using True o m2 rs by (intro exI [of _ out]) (simp add: res)
  qed
qed

subsection \<open>The module contract\<close>

definition bandwidth_wf :: "bandwidth_state \<Rightarrow> bool" where
  "bandwidth_wf m \<longleftrightarrow> buffered_wf BW_KEEP_AT_MOST m \<and> (bufLinked m \<longrightarrow> tokens_ok m)"

text \<open>Once started, the bucket is within its bounds.\<close>

definition bandwidth_ready :: "bandwidth_state \<Rightarrow> bool" where
  "bandwidth_ready m \<longleftrightarrow> bufLinked m \<and> tokens_ok m"

lemma bandwidthProcess_contract:
  assumes wf: "bandwidth_wf m" and r: "bandwidth_ready m" and nq: "nfqQueue e"
    and eq: "bandwidthProcess m xs e = (m', xs', e', trig)"
  shows "bandwidth_wf m' \<and> bandwidth_ready m' \<and> nfqQueue e' \<and> enabledFlag m' = enabledFlag m \<and>
    lastEnabled m' = lastEnabled m \<and> ledger (xs' @ buf m') e' = ledger (xs @ buf m) e"
proof -
  obtain now e1 where t: "timeGetTime e = (now, e1)" by (metis surj_pair)
  have bs: "bufSize m = length (buf m)" and cap: "length (buf m) \<le> BW_KEEP_AT_MOST" and tk: "tokens_ok m"
    using wf r by (simp_all add: bandwidth_wf_def bandwidth_ready_def buffered_wf_def)
  let ?hits = "filter (dir_match m) (rev xs)" and ?room = "BW_KEEP_AT_MOST - bufSize m"
  from bandwidthProcess_eq [OF bs tk t eq refl refl refl] obtain out where
    o: "rev (buf m) @ take ?room ?hits = out @ rev (buf m')" "bufSize m' = length (buf m')"
      "xs' = rev out @ filter (\<lambda>p. \<not> dir_match m p) xs" "e' = fold freeNode (drop ?room ?hits) e1"
      "tokens_ok m'" "bufLinked m' = bufLinked m" "enabledFlag m' = enabledFlag m" "lastEnabled m' = lastEnabled m"
    by blast
  have "length (buf m') \<le> length (rev (buf m) @ take ?room ?hits)" unfolding o(1) by simp
  also have "\<dots> \<le> BW_KEEP_AT_MOST" using bs cap by simp
  finally have len: "length (buf m') \<le> BW_KEEP_AT_MOST" .
  note te = timeGetTime_env [OF t]
  have nq1: "nfqQueue e1" using nq te by simp
  note fr = free_all [OF nq1, of "drop ?room ?hits"]
  have "owed_all (rev (buf m) @ take ?room ?hits) = owed_all out + owed_all (buf m')" unfolding o(1) by simp
  then have h: "owed_all out + owed_all (buf m') = owed_all (buf m) + owed_all (take ?room ?hits)" by simp
  have split: "owed_all xs = owed_all (take ?room ?hits) + owed_all (drop ?room ?hits) + owed_all (filter (\<lambda>p. \<not> dir_match m p) xs)"
  proof -
    have "mset xs = mset (filter (dir_match m) xs) + mset (filter (\<lambda>p. \<not> dir_match m p) xs)" by simp
    then have "mset xs = mset (take ?room ?hits @ drop ?room ?hits @ filter (\<lambda>p. \<not> dir_match m p) xs)"
      by (simp add: rev_filter [symmetric] flip: append_assoc)
    then show ?thesis by (subst owed_all_mset) (assumption, simp add: add.assoc)
  qed
  have "ledger (xs' @ buf m') e' = owed_all out + owed_all (buf m') + owed_all (filter (\<lambda>p. \<not> dir_match m p) xs)
      + owed_all (drop ?room ?hits) + answered e1"
    using fr o(3,4) by (simp add: ledger_def ac_simps)
  also have "\<dots> = ledger (xs @ buf m) e" unfolding h using split te by (simp add: ledger_def ac_simps)
  finally have led: "ledger (xs' @ buf m') e' = ledger (xs @ buf m) e" .
  show ?thesis using led fr o len r
    by (simp add: bandwidth_wf_def bandwidth_ready_def buffered_wf_def)
qed

lemma bandwidthStartUp_contract:
  "bandwidth_wf m \<Longrightarrow> bandwidthStartUp m e = (m', e') \<Longrightarrow>
     bandwidth_wf m' \<and> bandwidth_ready m' \<and> buf m' = buf m \<and> quiet e e' \<and> enabledFlag m' = enabledFlag m"
proof -
  assume wf: "bandwidth_wf m" and eq: "bandwidthStartUp m e = (m', e')"
  obtain now e1 where t: "timeGetTime e = (now, e1)" by (metis surj_pair)
  have "quiet e (startTimePeriod e1)" by (rule quiet_trans [OF quiet_timeGetTime [OF t] quiet_simps(2)])
  moreover have "0 \<le> bucket_size (bandwidthLimit m)" using bucket_size_pos [of "bandwidthLimit m"] by linarith
  ultimately show ?thesis using wf eq t
    by (auto simp: bandwidthStartUp_def Let_def bandwidth_wf_def bandwidth_ready_def buffered_wf_def tokens_ok_def
        split: if_splits)
qed

lemma bandwidthCloseDown_contract:
  "bandwidth_wf m \<Longrightarrow> bandwidth_ready m \<Longrightarrow>
     \<exists>m' xs' e'. bandwidthCloseDown m xs e = Some (m', xs', e') \<and> bandwidth_wf m' \<and> bandwidth_ready m' \<and>
       buf m' = [] \<and> quiet e e' \<and> enabledFlag m' = enabledFlag m \<and>
       owed_all xs' = owed_all (xs @ buf m)"
  by (simp add: bandwidthCloseDown_def bufferCloseDown_def bandwidth_wf_def bandwidth_ready_def
      buffered_wf_def tokens_ok_def)

interpretation bandwidth: bounded_module bandwidthStartUp bandwidthProcess bandwidthCloseDown buf
    bandwidth_wf bandwidth_ready BW_KEEP_AT_MOST
  by unfold_locales
    ((rule bandwidthStartUp_contract bandwidthProcess_contract bandwidthCloseDown_contract; assumption)
      | simp add: bandwidth_wf_def bandwidth_ready_def buffered_wf_def tokens_ok_def)+

text \<open>A call never changes the direction flags.\<close>

lemma bw_enqueue_dirs:
  "bw_enqueue rs m e = (m', rs', e') \<Longrightarrow> handleInbound m' = handleInbound m \<and> handleOutbound m' = handleOutbound m"
  by (induction rs m e arbitrary: rs' rule: bw_enqueue.induct)
    (auto simp: bw_pick_def split: if_splits prod.splits)

lemma bandwidthProcess_dirs:
  "bandwidthProcess m xs e = (m', xs', e', t) \<Longrightarrow>
     handleInbound m' = handleInbound m \<and> handleOutbound m' = handleOutbound m"
proof -
  have "handleInbound (bw_refill now m) = handleInbound m \<and> handleOutbound (bw_refill now m) = handleOutbound m" for now
    by (simp add: bw_refill_def Let_def)
  then show "bandwidthProcess m xs e = (m', xs', e', t) \<Longrightarrow> ?thesis"
    by (auto simp: bandwidthProcess_def Let_def dest!: bw_enqueue_dirs split: prod.splits if_splits)
qed

subsection \<open>The rate over a session\<close>

text \<open>
  Consecutive calls with unchanged parameters: the bytes of the handled packets sent on, the
  milliseconds between the refills, and the final state.
\<close>

fun bw_session :: "bandwidth_state \<Rightarrow> packet list list \<Rightarrow> env \<Rightarrow> nat \<times> nat \<times> bandwidth_state \<times> env" where
  "bw_session m [] e = (0, 0, m, e)"
| "bw_session m (xs # xss) e =
     (case bandwidthProcess m xs e of (m', xs', e', _) \<Rightarrow>
      case bw_session m' xss e' of (b, ms, m'', e'') \<Rightarrow>
        (total_bytes (filter (dir_match m) xs') + b, unat (lastFillTime m' - lastFillTime m) + ms, m'', e''))"

definition bytes_per_ms :: "int \<Rightarrow> rat" where
  "bytes_per_ms limit = of_int limit * 1024 / 1000"

lemma bandwidth_step_rate:
  assumes bs: "bufSize m = length (buf m)" and tk: "tokens_ok m" and lim: "0 < bandwidthLimit m"
    and all: "\<forall>p \<in> set (buf m). dir_match m p"
    and eq: "bandwidthProcess m xs e = (m', xs', e', trig)"
  shows "of_nat (total_bytes (filter (dir_match m) xs')) + tokenBucket m' \<le>
      tokenBucket m + of_nat (unat (lastFillTime m' - lastFillTime m)) * bytes_per_ms (bandwidthLimit m) \<and>
    bufSize m' = length (buf m') \<and> tokens_ok m' \<and> bandwidthLimit m' = bandwidthLimit m \<and>
    dir_match m' = dir_match m \<and> (\<forall>p \<in> set (buf m'). dir_match m p)"
proof -
  obtain now e1 where t: "timeGetTime e = (now, e1)" by (metis surj_pair)
  let ?hits = "filter (dir_match m) (rev xs)" and ?room = "BW_KEEP_AT_MOST - bufSize m"
  from bandwidthProcess_eq [OF bs tk t eq refl refl refl] obtain out where
    o: "rev (buf m) @ take ?room ?hits = out @ rev (buf m')" "bufSize m' = length (buf m')"
      "xs' = rev out @ filter (\<lambda>p. \<not> dir_match m p) xs"
      "tokenBucket m' + of_nat (total_bytes out) = tokenBucket (bw_refill now m)"
      "tokens_ok m'" "lastFillTime m' = now" "bandwidthLimit m' = bandwidthLimit m"
    by blast
  have dm: "dir_match m' = dir_match m"
  proof -
    have "handleInbound m' = handleInbound m \<and> handleOutbound m' = handleOutbound m"
      by (rule bandwidthProcess_dirs [OF eq])
    then show ?thesis by (simp add: dir_match_def fun_eq_iff)
  qed
  have "set out \<union> set (buf m') = set (rev (buf m) @ take ?room ?hits)" unfolding o(1) by simp
  also have "\<dots> \<subseteq> {p. dir_match m p}" using all by (auto dest: in_set_takeD)
  finally have d: "\<forall>p \<in> set out. dir_match m p" "\<forall>p \<in> set (buf m'). dir_match m p" by auto
  have "filter (dir_match m) (rev out) = rev out" by (rule filter_True) (use d(1) in simp)
  then have "filter (dir_match m) xs' = rev out" by (simp add: o(3))
  then have b: "total_bytes (filter (dir_match m) xs') = total_bytes out"
    by (simp add: total_bytes_def sum_list_map_rev)
  have "tokenBucket (bw_refill now m) \<le> tokenBucket m +
      of_nat (unat (now - lastFillTime m)) * bytes_per_ms (bandwidthLimit m)"
    using bw_refill_tokens [OF tk, of now] lim by (simp add: bytes_per_ms_def mult.commute mult.left_commute)
  then show ?thesis using o b d dm by simp
qed

lemma bw_session_rate:
  "bufSize m = length (buf m) \<Longrightarrow> tokens_ok m \<Longrightarrow> 0 < bandwidthLimit m \<Longrightarrow>
   \<forall>p \<in> set (buf m). dir_match m p \<Longrightarrow> bw_session m xss e = (b, ms, m', e') \<Longrightarrow>
   of_nat b + tokenBucket m' \<le> tokenBucket m + of_nat ms * bytes_per_ms (bandwidthLimit m) \<and> tokens_ok m'"
proof (induction xss arbitrary: m e b ms m' e')
  case Nil
  then show ?case by simp
next
  case (Cons xs xss)
  obtain m1 xs1 e1 t1 where p: "bandwidthProcess m xs e = (m1, xs1, e1, t1)" by (metis prod_cases4)
  obtain b2 ms2 m2 e2 where s: "bw_session m1 xss e1 = (b2, ms2, m2, e2)" by (metis prod_cases4)
  have res: "b = total_bytes (filter (dir_match m) xs1) + b2" "ms = unat (lastFillTime m1 - lastFillTime m) + ms2" "m' = m2"
    using Cons.prems(5) p s by simp_all
  note st = bandwidth_step_rate [OF Cons.prems(1-4) p]
  have "of_nat b2 + tokenBucket m2 \<le> tokenBucket m1 + of_nat ms2 * bytes_per_ms (bandwidthLimit m1) \<and> tokens_ok m2"
    by (rule Cons.IH [OF _ _ _ _ s]) (use st Cons.prems(3) in auto)
  with st show ?case unfolding res by (simp only: of_nat_add distrib_right) simp
qed

subsection \<open>Properties\<close>

text \<open>C12: over any sequence of calls with a fixed positive limit, the bytes of the handled packets that
  get through are at most the tokens at the beginning plus the configured rate times the elapsed
  milliseconds; the bucket itself never holds more than its size.\<close>

theorem bandwidth_long_run_rate:
  assumes "bufSize m = length (buf m)" and "tokens_ok m" and "0 < bandwidthLimit m"
    and "\<forall>p \<in> set (buf m). dir_match m p" and "bw_session m xss e = (b, ms, m', e')"
  shows "of_nat b \<le> tokenBucket m + of_nat ms * bytes_per_ms (bandwidthLimit m) \<and> tokens_ok m'"
  using bw_session_rate [OF assms] by (auto simp: tokens_ok_def)

theorem bandwidth_long_run_rate_witness:
  "of_nat (fst (bw_session bandwidth_init [[packet_of 1 True [1]], []] (env_at 3))) \<le>
     (0 :: rat) + of_nat (fst (snd (bw_session bandwidth_init [[packet_of 1 True [1]], []] (env_at 3)))) * bytes_per_ms 10"
proof -
  obtain b ms m' e' where eq: "bw_session bandwidth_init [[packet_of 1 True [1]], []] (env_at 3) = (b, ms, m', e')"
    by (metis prod_cases4)
  have i: "bufSize bandwidth_init = length (buf bandwidth_init)" "tokens_ok bandwidth_init" "0 < bandwidthLimit bandwidth_init"
    "\<forall>p \<in> set (buf bandwidth_init). dir_match bandwidth_init p" "tokenBucket bandwidth_init = 0" "bandwidthLimit bandwidth_init = 10"
    by (simp_all add: bandwidth_init_def module_base.defs tokens_ok_def)
  from bandwidth_long_run_rate [OF i(1-4) eq] i(5,6) show ?thesis unfolding eq by simp
qed

text \<open>C13: a call of \<^verbatim>\<open>bandwidthProcess\<close> is a FIFO step with tail drop: the handled packets that fit join
  the queue in order and the others are freed; what leaves the queue is a prefix of it, paid for byte
  by byte, and the queue stops at the first packet the remaining tokens do not cover. A limit of zero
  releases nothing.\<close>

theorem bandwidth_fifo_paid:
  assumes "bufSize m = length (buf m)" and "tokens_ok m" and "timeGetTime e = (now, e1)"
    and "bandwidthProcess m xs e = (m', xs', e', trig)"
  shows "\<exists>out. rev (buf m) @ take (BW_KEEP_AT_MOST - bufSize m) (filter (dir_match m) (rev xs)) = out @ rev (buf m') \<and>
    xs' = rev out @ filter (\<lambda>p. \<not> dir_match m p) xs \<and>
    e' = fold freeNode (drop (BW_KEEP_AT_MOST - bufSize m) (filter (dir_match m) (rev xs))) e1 \<and>
    tokenBucket m' + of_nat (total_bytes out) = tokenBucket (bw_refill now m) \<and> tokens_ok m' \<and>
    (if bandwidthLimit m > 0 then (case rev (buf m') of [] \<Rightarrow> True | p # _ \<Rightarrow> tokenBucket m' < of_nat (packetLen p))
     else out = [])"
  using bandwidthProcess_eq [OF assms refl refl refl] by blast

theorem bandwidth_fifo_paid_witness:
  "tokens_ok (fst (bandwidthProcess bandwidth_init [packet_of 1 True [1]] (env_at 3)))"
proof -
  obtain m' xs' e' t where eq: "bandwidthProcess bandwidth_init [packet_of 1 True [1]] (env_at 3) = (m', xs', e', t)"
    by (metis prod_cases4)
  have i: "bufSize bandwidth_init = length (buf bandwidth_init)" "tokens_ok bandwidth_init"
    by (simp_all add: bandwidth_init_def module_base.defs tokens_ok_def)
  from bandwidth_fifo_paid [OF i env_at_simps(1) eq] show ?thesis unfolding eq by auto
qed

end
