(* ===== verification/Params.thy ===== *)
theory Params
  imports Text Lag Drop Burstloss Blackout Duplicate Tamper Corrupt Reset Throttle Ood Jitter Bandwidth
begin

text \<open>
  Reading and writing the modules' parameters: the helpers \<^verbatim>\<open>parseBoolValue\<close>, \<^verbatim>\<open>clampShort\<close>,
  \<^verbatim>\<open>clampLong\<close> of \<^verbatim>\<open>src/src/utils.cpp\<close>, and every module's \<^verbatim>\<open>setParam\<close>, \<^verbatim>\<open>getParams\<close> and table
  of \<^verbatim>\<open>ParamSpec\<close>. A setter returns whether it knew the key, and the module; \<open>None\<close> is the undefined
  conversion of a double that does not fit an \<^verbatim>\<open>int\<close>.
\<close>

subsection \<open>Values\<close>

definition parseBoolValue :: "string \<Rightarrow> bool" where
  "parseBoolValue v \<longleftrightarrow> v = ''true'' \<or> v = ''1'' \<or> stricmp_eq v ''on'' \<or> stricmp_eq v ''yes''"

definition show_bool :: "bool \<Rightarrow> string" where
  "show_bool b = (if b then ''true'' else ''false'')"

text \<open>\<^verbatim>\<open>clampShort((int)(atof(value) * 100.0 + 0.5), 0, 10000)\<close>: a percentage in hundredths.\<close>

definition percent_value :: "string \<Rightarrow> int option" where
  "percent_value v =
     Option.bind (atof v) (\<lambda>d. map_option (\<lambda>i. clampShort i 0 10000) (double_to_int (dbl (dbl (d * 100) + 1 / 2))))"

text \<open>\<^verbatim>\<open>%.1f\<close> of a number that is not negative.\<close>

definition show_fixed1 :: "rat \<Rightarrow> string" where
  "show_fixed1 x = (let n = nat (round_half_even (10 * x)) in show_nat (n div 10) @ ''.'' @ [digit_char (n mod 10)])"

text \<open>\<^verbatim>\<open>(float)chance / 100.0f\<close>, and \<^verbatim>\<open>(double)chance / 100.0\<close>.\<close>

definition show_percent :: "int \<Rightarrow> string" where
  "show_percent c = show_fixed1 (flt (of_int c / 100))"

definition show_percent_d :: "int \<Rightarrow> string" where
  "show_percent_d c = show_fixed1 (dbl (of_int c / 100))"

text \<open>\<^verbatim>\<open>ParamKV\<close> and \<^verbatim>\<open>ParamSpec\<close>.\<close>

type_synonym param_kv = "string \<times> string"

record param_spec =
  ps_key :: string
  ps_label :: string
  ps_type :: string
  ps_min :: int
  ps_max :: int
  ps_options :: string

definition spec :: "string \<Rightarrow> string \<Rightarrow> string \<Rightarrow> int \<Rightarrow> int \<Rightarrow> string \<Rightarrow> param_spec" where
  "spec k l t lo hi opts = \<lparr>ps_key = k, ps_label = l, ps_type = t, ps_min = lo, ps_max = hi, ps_options = opts\<rparr>"

subsection \<open>Percentages survive printing and reading\<close>

definition tenths_text :: "nat \<Rightarrow> string" where
  "tenths_text n = show_nat (n div 10) @ ''.'' @ [digit_char (n mod 10)]"

lemma show_fixed1_near:
  assumes "\<bar>x - of_nat n / 10\<bar> < 1 / 20" shows "show_fixed1 x = tenths_text n"
proof -
  have "10 * x - of_int (int n) = 10 * (x - of_nat n / 10)" by simp
  then have "\<bar>10 * x - of_int (int n)\<bar> = 10 * \<bar>x - of_nat n / 10\<bar>" by (simp only: abs_mult abs_numeral)
  then have "\<bar>10 * x - of_int (int n)\<bar> < 1 / 2" using assms by linarith
  then have "round_half_even (10 * x) = int n" by (rule round_half_even_near)
  then show ?thesis by (simp add: show_fixed1_def tenths_text_def Let_def)
qed

lemma show_percent_tenths:
  assumes "n \<le> 1000"
  shows "show_percent (10 * int n) = tenths_text n" "show_percent_d (10 * int n) = tenths_text n"
proof -
  define x :: rat where "x = of_nat n / 10"
  have x: "0 \<le> x" "x \<le> 100" using assms by (simp_all add: x_def)
  have eq: "(of_int (10 * int n) / 100 :: rat) = x" by (simp add: x_def)
  have e: "x / 2 ^ 24 \<le> 100 / 2 ^ 24" "x / 2 ^ 53 \<le> 100 / 2 ^ 53" using x(2) by (simp_all add: divide_right_mono)
  have b: "(100 :: rat) / 2 ^ 24 < 1 / 20" "(100 :: rat) / 2 ^ 53 < 1 / 20" by simp_all
  show "show_percent (10 * int n) = tenths_text n" unfolding show_percent_def eq flt_def
    by (rule show_fixed1_near) (use round_sig_error [of 24 x] x e(1) b(1) x_def in linarith)
  show "show_percent_d (10 * int n) = tenths_text n" unfolding show_percent_d_def eq dbl_def
    by (rule show_fixed1_near) (use round_sig_error [of 53 x] x e(2) b(2) x_def in linarith)
qed

lemma atof_tenths: "atof (tenths_text n) = Some (dbl (of_nat n / 10))"
proof -
  define s where "s = show_nat (n div 10)"
  define d where "d = digit_char (n mod 10)"
  have dd: "is_digit d" "code d = 48 + n mod 10" by (simp_all add: d_def code_digit_char)
  have sd: "\<And>c. c \<in> set s \<Longrightarrow> is_digit c" unfolding s_def by (rule show_nat_digits)
  obtain c u where cu: "s = c # u" unfolding s_def by (cases "show_nat (n div 10)") auto
  have c: "is_digit c" using sd cu by simp
  have t: "tenths_text n = s @ ''.'' @ [d]" by (simp add: tenths_text_def s_def d_def)
  have nd: "\<not> is_digit CHR ''.''" by (simp add: is_digit_def code_def)
  have r1: "read_run dec_value 10 (s @ ''.'' @ [d]) 0 0 = (n div 10, length s, ''.'' @ [d])"
    using read_run_digits [of s "''.'' @ [d]" 0 0] sd nd read_show_nat [of "n div 10"]
    by (simp add: read_digits_def s_def)
  have r2: "read_run dec_value 10 [d] v 0 = (10 * v + n mod 10, 1, [])" for v
    using dd by (simp add: dec_value_def)
  have val: "10 * (n div 10) + n mod 10 = n" by simp
  have m: "read_mantissa dec_value 10 (s @ ''.'' @ [d]) = Some (of_nat n / 10, [])"
    unfolding read_mantissa_def r1 using r2 [of "n div 10"] val by (simp add: cu split del: option.split)
  have lc: "lower_char c = c" using lower_digit [OF c] .
  have hd1: "c \<noteq> CHR ''i''" "c \<noteq> CHR ''n''" using c by (auto simp: is_digit_def code_def)
  have second: "take 2 (map lower_char (s @ ''.'' @ [d])) \<noteq> ''0x''"
  proof (cases u)
    case Nil
    then show ?thesis by (simp add: cu numeral_2_eq_2) (simp add: lower_char_def code_def)
  next
    case (Cons y ys)
    then have "is_digit y" using sd cu by simp
    then show ?thesis using lower_digit [of y] Cons by (auto simp: cu numeral_2_eq_2 is_digit_def code_def)
  qed
  have third: "take 3 (map lower_char (s @ ''.'' @ [d])) \<noteq> ''inf''" "take 3 (map lower_char (s @ ''.'' @ [d])) \<noteq> ''nan''"
    using hd1 lc by (auto simp: cu numeral_3_eq_3)
  have sp: "dropWhile is_space (s @ ''.'' @ [d]) = s @ ''.'' @ [d]"
    using digit_not_space [OF c] by (simp add: cu)
  have sg: "c \<noteq> CHR ''-''" "c \<noteq> CHR ''+''" using digit_not_sign [OF c] by simp_all
  have strip: "(case s @ ''.'' @ [d] of x # r \<Rightarrow> if x = CHR ''-'' \<or> x = CHR ''+'' then r else s @ ''.'' @ [d] | [] \<Rightarrow> []) = s @ ''.'' @ [d]"
    "(case s @ ''.'' @ [d] of x # _ \<Rightarrow> x = CHR ''-'' | [] \<Rightarrow> False) = False"
    using sg by (simp_all add: cu)
  show ?thesis
    unfolding t atof_def Let_def sp strip using second third m
    by (simp add: pow_int_def read_exponent_def)
qed

lemma percent_tenths:
  assumes "n \<le> 1000" shows "percent_value (tenths_text n) = Some (10 * int n)"
proof -
  define x :: rat where "x = of_nat n / 10"
  have x: "0 \<le> x" "x \<le> 100" using assms by (simp_all add: x_def)
  have small: "y / 2 ^ 53 \<le> 1 / 100" if "0 \<le> y" "y \<le> 20000" for y :: rat
    using that by (simp add: divide_le_eq)
  define d where "d = dbl x"
  have "\<bar>d - x\<bar> \<le> x / 2 ^ 53" unfolding d_def dbl_def by (rule round_sig_error) (simp_all add: x)
  then have e1: "\<bar>d * 100 - x * 100\<bar> \<le> 1 / 100"
  proof -
    assume e: "\<bar>d - x\<bar> \<le> x / 2 ^ 53"
    have "x * 100 / 2 ^ 53 \<le> 1 / 100" using x by (intro small) simp_all
    moreover have "\<bar>d * 100 - x * 100\<bar> = \<bar>d - x\<bar> * 100" by (simp only: left_diff_distrib [symmetric] abs_mult abs_numeral)
    ultimately show ?thesis using e by simp
  qed
  define y where "y = dbl (d * 100)"
  have d: "0 \<le> d"
  proof -
    have "x / 2 ^ 53 \<le> x" using x(1) by (simp add: divide_le_eq)
    moreover have "\<bar>d - x\<bar> \<le> x / 2 ^ 53" unfolding d_def dbl_def by (rule round_sig_error) (simp_all add: x)
    ultimately show ?thesis by linarith
  qed
  have d100: "d * 100 \<le> 10001" using e1 x by linarith
  have "\<bar>y - d * 100\<bar> \<le> d * 100 / 2 ^ 53" unfolding y_def dbl_def by (rule round_sig_error) (simp_all add: d)
  also have "\<dots> \<le> 1 / 100" using d d100 by (intro small) simp_all
  finally have e2: "\<bar>y - d * 100\<bar> \<le> 1 / 100" .
  have y0: "- 1 / 50 \<le> y" "y \<le> 10002" using e1 e2 d100 x by linarith+
  define z where "z = dbl (y + 1 / 2)"
  have "\<bar>z - (y + 1 / 2)\<bar> \<le> (y + 1 / 2) / 2 ^ 53" unfolding z_def dbl_def by (rule round_sig_error) (use y0 in simp_all)
  also have "\<dots> \<le> 1 / 100" by (rule small) (use y0 in simp_all)
  finally have e3: "\<bar>z - (y + 1 / 2)\<bar> \<le> 1 / 100" .
  have xn: "x * 100 = of_int (10 * int n)" by (simp add: x_def)
  have "\<bar>z - (of_int (10 * int n) + 1 / 2)\<bar> < 1 / 4"
    using e1 e2 e3 xn by linarith
  then have f: "of_int (10 * int n) \<le> z" "z < of_int (10 * int n) + 1" by linarith+
  then have "\<lfloor>z\<rfloor> = 10 * int n" by (simp add: floor_eq_iff)
  moreover have "0 \<le> z" using f(1) by (meson of_int_0_le_iff mult_nonneg_nonneg of_nat_0_le_iff order_trans zero_le_numeral)
  ultimately have "double_to_int z = Some (10 * int n)" using assms by (simp add: double_to_int_def trunc_rat_def Let_def)
  moreover have "clampShort (10 * int n) 0 10000 = 10 * int n" using assms by (intro clampShort_id) simp_all
  ultimately show ?thesis
    by (simp add: percent_value_def atof_tenths z_def y_def d_def x_def)
qed

lemma percent_range: "percent_value v = Some c \<Longrightarrow> 0 \<le> c \<and> c \<le> 10000"
  using clampShort_range [of 0 10000] by (auto simp: percent_value_def split: Option.bind_splits)

lemma parse_show_bool [simp]: "parseBoolValue (show_bool b) = b"
  by (cases b) (simp_all add: parseBoolValue_def show_bool_def stricmp_eq_def lower_char_def code_def)

subsection \<open>lag.cpp\<close>

definition lagSetParam :: "string \<Rightarrow> string \<Rightarrow> lag_state \<Rightarrow> (bool \<times> lag_state) option" where
  "lagSetParam key value m =
     (if key = ''lag-time'' then Some (True, m\<lparr>lagTime := clampShort (atoi value) 0 15000\<rparr>)
      else if key = ''lag-inbound'' then Some (True, m\<lparr>handleInbound := parseBoolValue value\<rparr>)
      else if key = ''lag-outbound'' then Some (True, m\<lparr>handleOutbound := parseBoolValue value\<rparr>)
      else Some (False, m))"

definition lagGetParams :: "lag_state \<Rightarrow> int \<Rightarrow> param_kv list" where
  "lagGetParams m maxKv =
     (if maxKv < 3 then []
      else [(''lag-time'', show_int (lagTime m)),
            (''lag-inbound'', show_bool (handleInbound m)),
            (''lag-outbound'', show_bool (handleOutbound m))])"

definition lagParamSpecs :: "param_spec list" where
  "lagParamSpecs =
    [spec ''lag-inbound'' ''Inbound'' ''bool'' 0 0 [],
     spec ''lag-outbound'' ''Outbound'' ''bool'' 0 0 [],
     spec ''lag-time'' ''Delay (ms)'' ''int'' 0 15000 []]"

subsection \<open>jitter.cpp\<close>

definition parse_dist :: "string \<Rightarrow> int" where
  "parse_dist value =
     (if stricmp_eq value ''normal'' then DIST_NORMAL
      else if stricmp_eq value ''pareto'' then DIST_PARETO
      else if \<not> stricmp_eq value ''uniform'' then
        (let n = atoi value in if n \<ge> DIST_UNIFORM \<and> n \<le> DIST_PARETO then i2s n else DIST_UNIFORM)
      else DIST_UNIFORM)"

definition jitterDistName :: "int \<Rightarrow> string" where
  "jitterDistName d = (if d = DIST_NORMAL then ''normal'' else if d = DIST_PARETO then ''pareto'' else ''uniform'')"

definition jitterSetParam :: "string \<Rightarrow> string \<Rightarrow> jitter_state \<Rightarrow> (bool \<times> jitter_state) option" where
  "jitterSetParam key value m =
     (if key = ''jitter-min'' then Some (True, m\<lparr>jitterMin := clampShort (atoi value) 0 5000\<rparr>)
      else if key = ''jitter-max'' then Some (True, m\<lparr>jitterMax := clampShort (atoi value) 0 5000\<rparr>)
      else if key = ''jitter-dist'' then Some (True, m\<lparr>jitterDist := parse_dist value\<rparr>)
      else if key = ''jitter-inbound'' then Some (True, m\<lparr>handleInbound := parseBoolValue value\<rparr>)
      else if key = ''jitter-outbound'' then Some (True, m\<lparr>handleOutbound := parseBoolValue value\<rparr>)
      else Some (False, m))"

definition jitterGetParams :: "jitter_state \<Rightarrow> int \<Rightarrow> param_kv list" where
  "jitterGetParams m maxKv =
     (if maxKv < 5 then []
      else [(''jitter-min'', show_int (jitterMin m)),
            (''jitter-max'', show_int (jitterMax m)),
            (''jitter-inbound'', show_bool (handleInbound m)),
            (''jitter-outbound'', show_bool (handleOutbound m)),
            (''jitter-dist'', jitterDistName (jitterDist m))])"

definition jitterParamSpecs :: "param_spec list" where
  "jitterParamSpecs =
    [spec ''jitter-inbound'' ''Inbound'' ''bool'' 0 0 [],
     spec ''jitter-outbound'' ''Outbound'' ''bool'' 0 0 [],
     spec ''jitter-min'' ''Min (ms)'' ''int'' 0 5000 [],
     spec ''jitter-max'' ''Max (ms)'' ''int'' 0 5000 [],
     spec ''jitter-dist'' ''Distribution'' ''enum'' 0 0 ''uniform,normal,pareto'']"

subsection \<open>drop.cpp\<close>

definition dropSetParam :: "string \<Rightarrow> string \<Rightarrow> drop_state \<Rightarrow> (bool \<times> drop_state) option" where
  "dropSetParam key value m =
     (if key = ''drop-chance'' then map_option (\<lambda>v. (True, m\<lparr>dropChance := v\<rparr>)) (percent_value value)
      else if key = ''drop-inbound'' then Some (True, m\<lparr>handleInbound := parseBoolValue value\<rparr>)
      else if key = ''drop-outbound'' then Some (True, m\<lparr>handleOutbound := parseBoolValue value\<rparr>)
      else Some (False, m))"

definition dropGetParams :: "drop_state \<Rightarrow> int \<Rightarrow> param_kv list" where
  "dropGetParams m maxKv =
     (if maxKv < 3 then []
      else [(''drop-chance'', show_percent (dropChance m)),
            (''drop-inbound'', show_bool (handleInbound m)),
            (''drop-outbound'', show_bool (handleOutbound m))])"

definition dropParamSpecs :: "param_spec list" where
  "dropParamSpecs =
    [spec ''drop-inbound'' ''Inbound'' ''bool'' 0 0 [],
     spec ''drop-outbound'' ''Outbound'' ''bool'' 0 0 [],
     spec ''drop-chance'' ''Chance (%)'' ''percent'' 0 100 []]"

subsection \<open>burstloss.cpp\<close>

definition burstlossSetParam :: "string \<Rightarrow> string \<Rightarrow> burstloss_state \<Rightarrow> (bool \<times> burstloss_state) option" where
  "burstlossSetParam key value m =
     (if key = ''burstloss-inbound'' then Some (True, m\<lparr>handleInbound := parseBoolValue value\<rparr>)
      else if key = ''burstloss-outbound'' then Some (True, m\<lparr>handleOutbound := parseBoolValue value\<rparr>)
      else Option.bind (percent_value value) (\<lambda>v.
        if key = ''burstloss-good'' then Some (True, m\<lparr>chanceGood := v\<rparr>)
        else if key = ''burstloss-bad'' then Some (True, m\<lparr>chanceBad := v\<rparr>)
        else if key = ''burstloss-gb'' then Some (True, m\<lparr>chanceGB := v\<rparr>)
        else if key = ''burstloss-bg'' then Some (True, m\<lparr>chanceBG := v\<rparr>)
        else Some (False, m)))"

definition burstlossGetParams :: "burstloss_state \<Rightarrow> int \<Rightarrow> param_kv list" where
  "burstlossGetParams m maxKv =
     (if maxKv < 6 then []
      else [(''burstloss-good'', show_percent (chanceGood m)),
            (''burstloss-bad'', show_percent (chanceBad m)),
            (''burstloss-gb'', show_percent (chanceGB m)),
            (''burstloss-bg'', show_percent (chanceBG m)),
            (''burstloss-inbound'', show_bool (handleInbound m)),
            (''burstloss-outbound'', show_bool (handleOutbound m))])"

definition burstlossParamSpecs :: "param_spec list" where
  "burstlossParamSpecs =
    [spec ''burstloss-inbound'' ''Inbound'' ''bool'' 0 0 [],
     spec ''burstloss-outbound'' ''Outbound'' ''bool'' 0 0 [],
     spec ''burstloss-good'' ''Good drop (%)'' ''percent'' 0 100 [],
     spec ''burstloss-bad'' ''Bad drop (%)'' ''percent'' 0 100 [],
     spec ''burstloss-gb'' ''Good to Bad (%)'' ''percent'' 0 100 [],
     spec ''burstloss-bg'' ''Bad to Good (%)'' ''percent'' 0 100 []]"

subsection \<open>blackout.cpp\<close>

definition blackoutSetParam :: "string \<Rightarrow> string \<Rightarrow> blackout_state \<Rightarrow> (bool \<times> blackout_state) option" where
  "blackoutSetParam key value m =
     (if key = ''blackout-duration'' then Some (True, m\<lparr>durationMs := clampLong (atol value) 100 60000\<rparr>)
      else if key = ''blackout-gap'' then Some (True, m\<lparr>gapMs := clampLong (atol value) 1000 300000\<rparr>)
      else if key = ''blackout-inbound'' then Some (True, m\<lparr>handleInbound := parseBoolValue value\<rparr>)
      else if key = ''blackout-outbound'' then Some (True, m\<lparr>handleOutbound := parseBoolValue value\<rparr>)
      else if key = ''blackout-trigger'' then Some (True, if parseBoolValue value \<and> enabledFlag m then m\<lparr>triggerPending := True\<rparr> else m)
      else Some (False, m))"

definition blackoutGetParams :: "blackout_state \<Rightarrow> int \<Rightarrow> param_kv list" where
  "blackoutGetParams m maxKv =
     (if maxKv < 4 then []
      else [(''blackout-duration'', show_int (durationMs m)),
            (''blackout-gap'', show_int (gapMs m)),
            (''blackout-inbound'', show_bool (handleInbound m)),
            (''blackout-outbound'', show_bool (handleOutbound m))])"

definition blackoutParamSpecs :: "param_spec list" where
  "blackoutParamSpecs =
    [spec ''blackout-inbound'' ''Inbound'' ''bool'' 0 0 [],
     spec ''blackout-outbound'' ''Outbound'' ''bool'' 0 0 [],
     spec ''blackout-duration'' ''Duration (ms)'' ''int'' 100 60000 [],
     spec ''blackout-gap'' ''Gap (ms)'' ''int'' 1000 300000 [],
     spec ''blackout-trigger'' ''Trigger now'' ''action'' 0 0 []]"

subsection \<open>throttle.cpp\<close>

definition throttleSetParam :: "string \<Rightarrow> string \<Rightarrow> throttle_state \<Rightarrow> (bool \<times> throttle_state) option" where
  "throttleSetParam key value m =
     (if key = ''throttle-chance'' then map_option (\<lambda>v. (True, m\<lparr>throttleChance := v\<rparr>)) (percent_value value)
      else if key = ''throttle-frame'' then Some (True, m\<lparr>throttleFrame := clampShort (atoi value) 0 1000\<rparr>)
      else if key = ''throttle-drop'' then Some (True, m\<lparr>dropThrottled := parseBoolValue value\<rparr>)
      else if key = ''throttle-inbound'' then Some (True, m\<lparr>handleInbound := parseBoolValue value\<rparr>)
      else if key = ''throttle-outbound'' then Some (True, m\<lparr>handleOutbound := parseBoolValue value\<rparr>)
      else Some (False, m))"

definition throttleGetParams :: "throttle_state \<Rightarrow> int \<Rightarrow> param_kv list" where
  "throttleGetParams m maxKv =
     (if maxKv < 5 then []
      else [(''throttle-chance'', show_percent (throttleChance m)),
            (''throttle-frame'', show_int (throttleFrame m)),
            (''throttle-drop'', show_bool (dropThrottled m)),
            (''throttle-inbound'', show_bool (handleInbound m)),
            (''throttle-outbound'', show_bool (handleOutbound m))])"

definition throttleParamSpecs :: "param_spec list" where
  "throttleParamSpecs =
    [spec ''throttle-inbound'' ''Inbound'' ''bool'' 0 0 [],
     spec ''throttle-outbound'' ''Outbound'' ''bool'' 0 0 [],
     spec ''throttle-drop'' ''Drop throttled'' ''bool'' 0 0 [],
     spec ''throttle-frame'' ''Timeframe (ms)'' ''int'' 0 1000 [],
     spec ''throttle-chance'' ''Chance (%)'' ''percent'' 0 100 []]"

subsection \<open>duplicate.cpp\<close>

definition dupSetParam :: "string \<Rightarrow> string \<Rightarrow> dup_state \<Rightarrow> (bool \<times> dup_state) option" where
  "dupSetParam key value m =
     (if key = ''duplicate-chance'' then map_option (\<lambda>v. (True, m\<lparr>dupChance := v\<rparr>)) (percent_value value)
      else if key = ''duplicate-count'' then Some (True, m\<lparr>dupCount := clampShort (atoi value) 2 50\<rparr>)
      else if key = ''duplicate-inbound'' then Some (True, m\<lparr>handleInbound := parseBoolValue value\<rparr>)
      else if key = ''duplicate-outbound'' then Some (True, m\<lparr>handleOutbound := parseBoolValue value\<rparr>)
      else Some (False, m))"

definition dupGetParams :: "dup_state \<Rightarrow> int \<Rightarrow> param_kv list" where
  "dupGetParams m maxKv =
     (if maxKv < 4 then []
      else [(''duplicate-chance'', show_percent (dupChance m)),
            (''duplicate-count'', show_int (dupCount m)),
            (''duplicate-inbound'', show_bool (handleInbound m)),
            (''duplicate-outbound'', show_bool (handleOutbound m))])"

definition dupParamSpecs :: "param_spec list" where
  "dupParamSpecs =
    [spec ''duplicate-inbound'' ''Inbound'' ''bool'' 0 0 [],
     spec ''duplicate-outbound'' ''Outbound'' ''bool'' 0 0 [],
     spec ''duplicate-count'' ''Copies'' ''int'' 2 50 [],
     spec ''duplicate-chance'' ''Chance (%)'' ''percent'' 0 100 []]"

subsection \<open>ood.cpp\<close>

definition oodSetParam :: "string \<Rightarrow> string \<Rightarrow> ood_state \<Rightarrow> (bool \<times> ood_state) option" where
  "oodSetParam key value m =
     (if key = ''ood-chance'' then map_option (\<lambda>v. (True, m\<lparr>oodChance := v\<rparr>)) (percent_value value)
      else if key = ''ood-buffer'' then Some (True, m\<lparr>maxBuffer := clampShort (atoi value) 2 50\<rparr>)
      else if key = ''ood-delay'' then Some (True, m\<lparr>maxDelay := clampShort (atoi value) 10 2000\<rparr>)
      else if key = ''ood-inbound'' then Some (True, m\<lparr>handleInbound := parseBoolValue value\<rparr>)
      else if key = ''ood-outbound'' then Some (True, m\<lparr>handleOutbound := parseBoolValue value\<rparr>)
      else Some (False, m))"

definition oodGetParams :: "ood_state \<Rightarrow> int \<Rightarrow> param_kv list" where
  "oodGetParams m maxKv =
     (if maxKv < 5 then []
      else [(''ood-chance'', show_percent (oodChance m)),
            (''ood-buffer'', show_int (maxBuffer m)),
            (''ood-delay'', show_int (maxDelay m)),
            (''ood-inbound'', show_bool (handleInbound m)),
            (''ood-outbound'', show_bool (handleOutbound m))])"

definition oodParamSpecs :: "param_spec list" where
  "oodParamSpecs =
    [spec ''ood-inbound'' ''Inbound'' ''bool'' 0 0 [],
     spec ''ood-outbound'' ''Outbound'' ''bool'' 0 0 [],
     spec ''ood-chance'' ''Chance (%)'' ''percent'' 0 100 [],
     spec ''ood-buffer'' ''Buffer'' ''int'' 2 50 [],
     spec ''ood-delay'' ''Delay (ms)'' ''int'' 10 2000 []]"

subsection \<open>tamper.cpp\<close>

definition tamperSetParam :: "string \<Rightarrow> string \<Rightarrow> tamper_state \<Rightarrow> (bool \<times> tamper_state) option" where
  "tamperSetParam key value m =
     (if key = ''tamper-chance'' then map_option (\<lambda>v. (True, m\<lparr>tamperChance := v\<rparr>)) (percent_value value)
      else if key = ''tamper-position'' then Some (True, m\<lparr>tamperPos := clampShort (atoi value) POS_FRONT POS_RANDOM\<rparr>)
      else if key = ''tamper-checksum'' then Some (True, m\<lparr>tamperChecksum := parseBoolValue value\<rparr>)
      else if key = ''tamper-inbound'' then Some (True, m\<lparr>handleInbound := parseBoolValue value\<rparr>)
      else if key = ''tamper-outbound'' then Some (True, m\<lparr>handleOutbound := parseBoolValue value\<rparr>)
      else Some (False, m))"

definition tamperGetParams :: "tamper_state \<Rightarrow> int \<Rightarrow> param_kv list" where
  "tamperGetParams m maxKv =
     (if maxKv < 5 then []
      else [(''tamper-chance'', show_percent (tamperChance m)),
            (''tamper-position'', show_int (tamperPos m)),
            (''tamper-checksum'', show_bool (tamperChecksum m)),
            (''tamper-inbound'', show_bool (handleInbound m)),
            (''tamper-outbound'', show_bool (handleOutbound m))])"

definition tamperParamSpecs :: "param_spec list" where
  "tamperParamSpecs =
    [spec ''tamper-inbound'' ''Inbound'' ''bool'' 0 0 [],
     spec ''tamper-outbound'' ''Outbound'' ''bool'' 0 0 [],
     spec ''tamper-checksum'' ''Redo checksum'' ''bool'' 0 0 [],
     spec ''tamper-chance'' ''Chance (%)'' ''percent'' 0 100 [],
     spec ''tamper-position'' ''Position (0=Front 1=Center 2=Back 3=Random)'' ''int'' 0 3 []]"

subsection \<open>corrupt.cpp\<close>

definition corruptSetParam :: "string \<Rightarrow> string \<Rightarrow> corrupt_state \<Rightarrow> (bool \<times> corrupt_state) option" where
  "corruptSetParam key value m =
     (if key = ''corrupt-chance'' then map_option (\<lambda>v. (True, m\<lparr>corruptChance := v\<rparr>)) (percent_value value)
      else if key = ''corrupt-ber'' then Some (True, m\<lparr>corruptBer := clampLong (atol value) 0 1000000\<rparr>)
      else if key = ''corrupt-checksum'' then Some (True, m\<lparr>corruptChecksum := parseBoolValue value\<rparr>)
      else if key = ''corrupt-inbound'' then Some (True, m\<lparr>handleInbound := parseBoolValue value\<rparr>)
      else if key = ''corrupt-outbound'' then Some (True, m\<lparr>handleOutbound := parseBoolValue value\<rparr>)
      else Some (False, m))"

definition corruptGetParams :: "corrupt_state \<Rightarrow> int \<Rightarrow> param_kv list" where
  "corruptGetParams m maxKv =
     (if maxKv < 5 then []
      else [(''corrupt-chance'', show_percent_d (corruptChance m)),
            (''corrupt-ber'', show_int (corruptBer m)),
            (''corrupt-checksum'', show_bool (corruptChecksum m)),
            (''corrupt-inbound'', show_bool (handleInbound m)),
            (''corrupt-outbound'', show_bool (handleOutbound m))])"

definition corruptParamSpecs :: "param_spec list" where
  "corruptParamSpecs =
    [spec ''corrupt-inbound'' ''Inbound'' ''bool'' 0 0 [],
     spec ''corrupt-outbound'' ''Outbound'' ''bool'' 0 0 [],
     spec ''corrupt-checksum'' ''Redo checksum'' ''bool'' 0 0 [],
     spec ''corrupt-chance'' ''Chance (%)'' ''percent'' 0 100 [],
     spec ''corrupt-ber'' ''Bit error (ppm)'' ''int'' 0 1000000 []]"

subsection \<open>reset.cpp\<close>

definition resetSetParam :: "string \<Rightarrow> string \<Rightarrow> reset_state \<Rightarrow> (bool \<times> reset_state) option" where
  "resetSetParam key value m =
     (if key = ''reset-chance'' then map_option (\<lambda>v. (True, m\<lparr>resetChance := v\<rparr>)) (percent_value value)
      else if key = ''reset-inbound'' then Some (True, m\<lparr>handleInbound := parseBoolValue value\<rparr>)
      else if key = ''reset-outbound'' then Some (True, m\<lparr>handleOutbound := parseBoolValue value\<rparr>)
      else if key = ''reset-next'' then Some (True, reset_trigger (parseBoolValue value) m)
      else Some (False, m))"

definition resetGetParams :: "reset_state \<Rightarrow> int \<Rightarrow> param_kv list" where
  "resetGetParams m maxKv =
     (if maxKv < 3 then []
      else [(''reset-chance'', show_percent (resetChance m)),
            (''reset-inbound'', show_bool (handleInbound m)),
            (''reset-outbound'', show_bool (handleOutbound m))])"

definition resetParamSpecs :: "param_spec list" where
  "resetParamSpecs =
    [spec ''reset-inbound'' ''Inbound'' ''bool'' 0 0 [],
     spec ''reset-outbound'' ''Outbound'' ''bool'' 0 0 [],
     spec ''reset-chance'' ''Chance (%)'' ''percent'' 0 100 [],
     spec ''reset-next'' ''RST next packet'' ''action'' 0 0 []]"

subsection \<open>bandwidth.cpp\<close>

definition bandwidthSetParam :: "string \<Rightarrow> string \<Rightarrow> bandwidth_state \<Rightarrow> (bool \<times> bandwidth_state) option" where
  "bandwidthSetParam key value m =
     (if key = ''bandwidth-bandwidth'' then Some (True, m\<lparr>bandwidthLimit := clampLong (atol value) 0 99999\<rparr>)
      else if key = ''bandwidth-inbound'' then Some (True, m\<lparr>handleInbound := parseBoolValue value\<rparr>)
      else if key = ''bandwidth-outbound'' then Some (True, m\<lparr>handleOutbound := parseBoolValue value\<rparr>)
      else Some (False, m))"

definition bandwidthGetParams :: "bandwidth_state \<Rightarrow> int \<Rightarrow> param_kv list" where
  "bandwidthGetParams m maxKv =
     (if maxKv < 3 then []
      else [(''bandwidth-bandwidth'', show_int (bandwidthLimit m)),
            (''bandwidth-inbound'', show_bool (handleInbound m)),
            (''bandwidth-outbound'', show_bool (handleOutbound m))])"

definition bandwidthParamSpecs :: "param_spec list" where
  "bandwidthParamSpecs =
    [spec ''bandwidth-inbound'' ''Inbound'' ''bool'' 0 0 [],
     spec ''bandwidth-outbound'' ''Outbound'' ''bool'' 0 0 [],
     spec ''bandwidth-bandwidth'' ''Limit (KB/s)'' ''int'' 0 99999 []]"

subsection \<open>The contract of a module with parameters\<close>

text \<open>Handing saved pairs back to a setter, which must know every key.\<close>

fun feed :: "(string \<Rightarrow> string \<Rightarrow> 'm \<Rightarrow> (bool \<times> 'm) option) \<Rightarrow> param_kv list \<Rightarrow> 'm \<Rightarrow> 'm option" where
  "feed put [] m = Some m"
| "feed put ((k, v) # r) m =
     (case put k v m of Some (ok, m) \<Rightarrow> (if ok then feed put r m else None) | None \<Rightarrow> None)"

locale param_module = packet_module startUp process closeDown held wf ready
  for startUp :: "'x module_base_scheme \<Rightarrow> env \<Rightarrow> 'x module_base_scheme \<times> env"
    and process closeDown held wf ready +
  fixes setParam :: "string \<Rightarrow> string \<Rightarrow> 'x module_base_scheme \<Rightarrow> (bool \<times> 'x module_base_scheme) option"
    and getParams :: "'x module_base_scheme \<Rightarrow> int \<Rightarrow> param_kv list"
    and params_ok :: "'x module_base_scheme \<Rightarrow> bool"
  assumes enable: "held (s\<lparr>enabledFlag := b\<rparr>) = held s" "wf (s\<lparr>enabledFlag := b\<rparr>) = wf s"
      "ready (s\<lparr>enabledFlag := b\<rparr>) = ready s" "params_ok (s\<lparr>enabledFlag := b\<rparr>) = params_ok s"
    and setParam: "setParam k v s = Some (ok, s') \<Longrightarrow>
      (wf s \<longrightarrow> wf s') \<and> (ready s \<longrightarrow> ready s') \<and> (params_ok s \<longrightarrow> params_ok s') \<and> held s' = held s \<and>
      enabledFlag s' = enabledFlag s \<and> lastEnabled s' = lastEnabled s \<and> (\<not> ok \<longrightarrow> s' = s)"
    and roundtrip: "params_ok s \<Longrightarrow> 6 \<le> mx \<Longrightarrow>
      \<exists>s'. feed setParam (getParams s mx) s0 = Some s' \<and> getParams s' mx = getParams s mx"
begin

lemma setParam_inv:
  "setParam k v s = Some (ok, s') \<Longrightarrow> mod_inv s \<Longrightarrow>
     mod_inv s' \<and> held s' = held s \<and> enabledFlag s' = enabledFlag s \<and> lastEnabled s' = lastEnabled s"
  using setParam by (auto simp: mod_inv_def)

lemma setParam_params: "setParam k v s = Some (ok, s') \<Longrightarrow> params_ok s \<Longrightarrow> params_ok s'"
  using setParam by blast

lemma enable_inv [simp]: "mod_inv (s\<lparr>enabledFlag := b\<rparr>) = mod_inv s"
  by (simp add: mod_inv_def enable)

end

subsection \<open>Ranges and printed forms\<close>

definition pct_ok :: "int \<Rightarrow> bool" where
  "pct_ok c \<longleftrightarrow> 0 \<le> c \<and> c \<le> 10000"

lemma percent_ok: "percent_value v = Some c \<Longrightarrow> pct_ok c"
  using percent_range by (simp add: pct_ok_def)

lemma round_half_even_bounds:
  assumes "0 \<le> x" "x \<le> 1000 + 1 / 4" shows "0 \<le> round_half_even x" "round_half_even x \<le> 1000"
  using round_half_even_error [of x] assms by linarith+

lemma show_percent_form:
  assumes "pct_ok c" obtains n where "n \<le> 1000" "show_percent c = tenths_text n"
proof -
  define x :: rat where "x = of_int c / 100"
  have x: "0 \<le> x" "x \<le> 100" using assms by (simp_all add: x_def pct_ok_def)
  have "\<bar>flt x - x\<bar> \<le> x / 2 ^ 24" unfolding flt_def by (rule round_sig_error) (simp_all add: x)
  moreover have "x / 2 ^ 24 \<le> 1 / 100" "x / 2 ^ 24 \<le> x" using x by (simp_all add: divide_le_eq)
  ultimately have "0 \<le> 10 * flt x" "10 * flt x \<le> 1000 + 1 / 4" using x by linarith+
  then have "nat (round_half_even (10 * flt x)) \<le> 1000" using round_half_even_bounds [of "10 * flt x"] by simp
  then show ?thesis by (intro that) (simp_all add: show_percent_def show_fixed1_def tenths_text_def Let_def x_def)
qed

lemma show_percent_d_form:
  assumes "pct_ok c" obtains n where "n \<le> 1000" "show_percent_d c = tenths_text n"
proof -
  define x :: rat where "x = of_int c / 100"
  have x: "0 \<le> x" "x \<le> 100" using assms by (simp_all add: x_def pct_ok_def)
  have "\<bar>dbl x - x\<bar> \<le> x / 2 ^ 53" unfolding dbl_def by (rule round_sig_error) (simp_all add: x)
  moreover have "x / 2 ^ 53 \<le> 1 / 100" "x / 2 ^ 53 \<le> x" using x by (simp_all add: divide_le_eq)
  ultimately have "0 \<le> 10 * dbl x" "10 * dbl x \<le> 1000 + 1 / 4" using x by linarith+
  then have "nat (round_half_even (10 * dbl x)) \<le> 1000" using round_half_even_bounds [of "10 * dbl x"] by simp
  then show ?thesis by (intro that) (simp_all add: show_percent_d_def show_fixed1_def tenths_text_def Let_def x_def)
qed

text \<open>Reading a printed percentage gives a chance that prints the same.\<close>

lemma percent_reprint:
  assumes "pct_ok c"
  shows "\<exists>c'. percent_value (show_percent c) = Some c' \<and> show_percent c' = show_percent c"
    "\<exists>c'. percent_value (show_percent_d c) = Some c' \<and> show_percent_d c' = show_percent_d c"
proof -
  obtain n where n: "n \<le> 1000" "show_percent c = tenths_text n" by (rule show_percent_form [OF assms])
  then show "\<exists>c'. percent_value (show_percent c) = Some c' \<and> show_percent c' = show_percent c"
    using percent_tenths [OF n(1)] show_percent_tenths(1) [OF n(1)] by simp
  obtain k where k: "k \<le> 1000" "show_percent_d c = tenths_text k" by (rule show_percent_d_form [OF assms])
  then show "\<exists>c'. percent_value (show_percent_d c) = Some c' \<and> show_percent_d c' = show_percent_d c"
    using percent_tenths [OF k(1)] show_percent_tenths(2) [OF k(1)] by simp
qed

lemma dist_roundtrip: "jitterDistName (parse_dist (jitterDistName d)) = jitterDistName d"
  by (simp add: jitterDistName_def parse_dist_def stricmp_eq_def DIST_NORMAL_def DIST_PARETO_def DIST_UNIFORM_def
      lower_char_def code_def)

lemma short_roundtrip: "0 \<le> lo \<Longrightarrow> hi \<le> 32767 \<Longrightarrow> lo \<le> x \<Longrightarrow> x \<le> hi \<Longrightarrow> clampShort (atoi (show_int x)) lo hi = x"
  by (simp add: atoi_show_int clampShort_id)

lemma long_roundtrip: "0 \<le> lo \<Longrightarrow> hi \<le> 2147483647 \<Longrightarrow> lo \<le> x \<Longrightarrow> x \<le> hi \<Longrightarrow> clampLong (atol (show_int x)) lo hi = x"
  by (simp add: atol_show_int clampLong_id)

lemma short_range: "0 \<le> lo \<Longrightarrow> lo \<le> hi \<Longrightarrow> hi \<le> 32767 \<Longrightarrow> lo \<le> clampShort v lo hi \<and> clampShort v lo hi \<le> hi"
  by (rule clampShort_range) simp_all

definition lag_params_ok :: "lag_state \<Rightarrow> bool" where
  "lag_params_ok m \<longleftrightarrow> 0 \<le> lagTime m \<and> lagTime m \<le> 15000"

definition jitter_params_ok :: "jitter_state \<Rightarrow> bool" where
  "jitter_params_ok m \<longleftrightarrow> 0 \<le> jitterMin m \<and> jitterMin m \<le> 5000 \<and> 0 \<le> jitterMax m \<and> jitterMax m \<le> 5000 \<and> jitterDist m \<in> {DIST_UNIFORM, DIST_NORMAL, DIST_PARETO}"

definition drop_params_ok :: "drop_state \<Rightarrow> bool" where
  "drop_params_ok m \<longleftrightarrow> pct_ok (dropChance m)"

definition burstloss_params_ok :: "burstloss_state \<Rightarrow> bool" where
  "burstloss_params_ok m \<longleftrightarrow> pct_ok (chanceGood m) \<and> pct_ok (chanceBad m) \<and> pct_ok (chanceGB m) \<and> pct_ok (chanceBG m)"

definition blackout_params_ok :: "blackout_state \<Rightarrow> bool" where
  "blackout_params_ok m \<longleftrightarrow> 100 \<le> durationMs m \<and> durationMs m \<le> 60000 \<and> 1000 \<le> gapMs m \<and> gapMs m \<le> 300000"

definition throttle_params_ok :: "throttle_state \<Rightarrow> bool" where
  "throttle_params_ok m \<longleftrightarrow> pct_ok (throttleChance m) \<and> 0 \<le> throttleFrame m \<and> throttleFrame m \<le> 1000"

definition dup_params_ok :: "dup_state \<Rightarrow> bool" where
  "dup_params_ok m \<longleftrightarrow> pct_ok (dupChance m) \<and> 2 \<le> dupCount m \<and> dupCount m \<le> 50"

definition ood_params_ok :: "ood_state \<Rightarrow> bool" where
  "ood_params_ok m \<longleftrightarrow> pct_ok (oodChance m) \<and> 2 \<le> maxBuffer m \<and> maxBuffer m \<le> 50 \<and> 10 \<le> maxDelay m \<and> maxDelay m \<le> 2000"

definition tamper_params_ok :: "tamper_state \<Rightarrow> bool" where
  "tamper_params_ok m \<longleftrightarrow> pct_ok (tamperChance m) \<and> POS_FRONT \<le> tamperPos m \<and> tamperPos m \<le> POS_RANDOM"

definition corrupt_params_ok :: "corrupt_state \<Rightarrow> bool" where
  "corrupt_params_ok m \<longleftrightarrow> pct_ok (corruptChance m) \<and> 0 \<le> corruptBer m \<and> corruptBer m \<le> 1000000"

definition reset_params_ok :: "reset_state \<Rightarrow> bool" where
  "reset_params_ok m \<longleftrightarrow> pct_ok (resetChance m)"

definition bandwidth_params_ok :: "bandwidth_state \<Rightarrow> bool" where
  "bandwidth_params_ok m \<longleftrightarrow> 0 \<le> bandwidthLimit m \<and> bandwidthLimit m \<le> 99999"

lemmas params_ok_defs = lag_params_ok_def jitter_params_ok_def drop_params_ok_def burstloss_params_ok_def blackout_params_ok_def throttle_params_ok_def dup_params_ok_def ood_params_ok_def tamper_params_ok_def corrupt_params_ok_def reset_params_ok_def bandwidth_params_ok_def

lemma dist_range: "parse_dist v \<in> {DIST_UNIFORM, DIST_NORMAL, DIST_PARETO}"
  by (auto simp: parse_dist_def Let_def DIST_UNIFORM_def DIST_NORMAL_def DIST_PARETO_def i2s_small)

lemmas value_ranges = percent_ok short_range clampLong_range

subsection \<open>The interface, for every module\<close>

lemma lagSetParam_ok:
  "lagSetParam k v m = Some (ok, m') \<Longrightarrow>
     (buffered_wf KEEP_AT_MOST m \<longrightarrow> buffered_wf KEEP_AT_MOST m') \<and> (bufLinked m \<longrightarrow> bufLinked m') \<and> (lag_params_ok m \<longrightarrow> lag_params_ok m') \<and> buf m' = buf m \<and>
     enabledFlag m' = enabledFlag m \<and> lastEnabled m' = lastEnabled m \<and> (\<not> ok \<longrightarrow> m' = m)"
  unfolding lagSetParam_def
  by (auto simp: lag_params_ok_def short_range clampLong_range buffered_wf_def  split: if_splits Option.bind_splits dest: percent_ok)

lemma lag_roundtrip:
  assumes "lag_params_ok m" "6 \<le> mx"
  shows "\<exists>m'. feed lagSetParam (lagGetParams m mx) m0 = Some m' \<and> lagGetParams m' mx = lagGetParams m mx"
proof -
  show ?thesis using assms
    by (simp add: lagGetParams_def lagSetParam_def lag_params_ok_def short_roundtrip long_roundtrip dist_roundtrip  )
qed

interpretation lag_param: param_module lagStartUp lagProcess lagCloseDown buf "buffered_wf KEEP_AT_MOST" bufLinked
    lagSetParam lagGetParams lag_params_ok
  by unfold_locales
    ((rule lag_roundtrip; assumption) | (drule lagSetParam_ok; simp) | simp add: lag_params_ok_def buffered_wf_def )+

lemma jitterSetParam_ok:
  "jitterSetParam k v m = Some (ok, m') \<Longrightarrow>
     (jitter_wf m \<longrightarrow> jitter_wf m') \<and> (bufLinked m \<longrightarrow> bufLinked m') \<and> (jitter_params_ok m \<longrightarrow> jitter_params_ok m') \<and> buf m' = buf m \<and>
     enabledFlag m' = enabledFlag m \<and> lastEnabled m' = lastEnabled m \<and> (\<not> ok \<longrightarrow> m' = m)"
  unfolding jitterSetParam_def
  using dist_range [of v] by (auto simp: jitter_params_ok_def short_range clampLong_range buffered_wf_def jitter_wf_def dist_range split: if_splits Option.bind_splits dest: percent_ok)

lemma jitter_roundtrip:
  assumes "jitter_params_ok m" "6 \<le> mx"
  shows "\<exists>m'. feed jitterSetParam (jitterGetParams m mx) m0 = Some m' \<and> jitterGetParams m' mx = jitterGetParams m mx"
proof -
  show ?thesis using assms
    by (simp add: jitterGetParams_def jitterSetParam_def jitter_params_ok_def short_roundtrip long_roundtrip dist_roundtrip  )
qed

interpretation jitter_param: param_module jitterStartUp jitterProcess jitterCloseDown buf jitter_wf bufLinked
    jitterSetParam jitterGetParams jitter_params_ok
  by unfold_locales
    ((rule jitter_roundtrip; assumption) | (drule jitterSetParam_ok; simp) | simp add: jitter_params_ok_def buffered_wf_def jitter_wf_def dist_range)+

lemma dropSetParam_ok:
  "dropSetParam k v m = Some (ok, m') \<Longrightarrow>
     (drop_params_ok m \<longrightarrow> drop_params_ok m') \<and>
     enabledFlag m' = enabledFlag m \<and> lastEnabled m' = lastEnabled m \<and> (\<not> ok \<longrightarrow> m' = m)"
  unfolding dropSetParam_def
  by (auto simp: drop_params_ok_def short_range clampLong_range  split: if_splits Option.bind_splits dest: percent_ok)

lemma drop_roundtrip:
  assumes "drop_params_ok m" "6 \<le> mx"
  shows "\<exists>m'. feed dropSetParam (dropGetParams m mx) m0 = Some m' \<and> dropGetParams m' mx = dropGetParams m mx"
proof -
  obtain c0 where c0: "percent_value (show_percent (dropChance m)) = Some c0" "show_percent c0 = show_percent (dropChance m)"
    using percent_reprint [of "dropChance m"] assms(1) by (auto simp: drop_params_ok_def)
  show ?thesis using assms
    by (simp add: dropGetParams_def dropSetParam_def drop_params_ok_def short_roundtrip long_roundtrip dist_roundtrip  c0)
qed

interpretation drop_param: param_module dropStartUp dropProcess dropCloseDown "\<lambda>_. []" "\<lambda>_. True" "\<lambda>_. True"
    dropSetParam dropGetParams drop_params_ok
  by unfold_locales
    ((rule drop_roundtrip; assumption) | (drule dropSetParam_ok; simp) | simp add: drop_params_ok_def )+

lemma burstlossSetParam_ok:
  "burstlossSetParam k v m = Some (ok, m') \<Longrightarrow>
     (burstloss_params_ok m \<longrightarrow> burstloss_params_ok m') \<and>
     enabledFlag m' = enabledFlag m \<and> lastEnabled m' = lastEnabled m \<and> (\<not> ok \<longrightarrow> m' = m)"
  unfolding burstlossSetParam_def
  by (auto simp: burstloss_params_ok_def short_range clampLong_range  split: if_splits Option.bind_splits dest: percent_ok)

lemma burstloss_roundtrip:
  assumes "burstloss_params_ok m" "6 \<le> mx"
  shows "\<exists>m'. feed burstlossSetParam (burstlossGetParams m mx) m0 = Some m' \<and> burstlossGetParams m' mx = burstlossGetParams m mx"
proof -
  obtain c0 where c0: "percent_value (show_percent (chanceGood m)) = Some c0" "show_percent c0 = show_percent (chanceGood m)"
    using percent_reprint [of "chanceGood m"] assms(1) by (auto simp: burstloss_params_ok_def)
  obtain c1 where c1: "percent_value (show_percent (chanceBad m)) = Some c1" "show_percent c1 = show_percent (chanceBad m)"
    using percent_reprint [of "chanceBad m"] assms(1) by (auto simp: burstloss_params_ok_def)
  obtain c2 where c2: "percent_value (show_percent (chanceGB m)) = Some c2" "show_percent c2 = show_percent (chanceGB m)"
    using percent_reprint [of "chanceGB m"] assms(1) by (auto simp: burstloss_params_ok_def)
  obtain c3 where c3: "percent_value (show_percent (chanceBG m)) = Some c3" "show_percent c3 = show_percent (chanceBG m)"
    using percent_reprint [of "chanceBG m"] assms(1) by (auto simp: burstloss_params_ok_def)
  show ?thesis using assms
    by (simp add: burstlossGetParams_def burstlossSetParam_def burstloss_params_ok_def short_roundtrip long_roundtrip dist_roundtrip  c0 c1 c2 c3)
qed

interpretation burstloss_param: param_module burstlossStartUp burstlossProcess burstlossCloseDown "\<lambda>_. []" "\<lambda>_. True" "\<lambda>_. True"
    burstlossSetParam burstlossGetParams burstloss_params_ok
  by unfold_locales
    ((rule burstloss_roundtrip; assumption) | (drule burstlossSetParam_ok; simp) | simp add: burstloss_params_ok_def )+

lemma blackoutSetParam_ok:
  "blackoutSetParam k v m = Some (ok, m') \<Longrightarrow>
     (blackout_params_ok m \<longrightarrow> blackout_params_ok m') \<and>
     enabledFlag m' = enabledFlag m \<and> lastEnabled m' = lastEnabled m \<and> (\<not> ok \<longrightarrow> m' = m)"
  unfolding blackoutSetParam_def
  by (auto simp: blackout_params_ok_def short_range clampLong_range  split: if_splits Option.bind_splits dest: percent_ok)

lemma blackout_roundtrip:
  assumes "blackout_params_ok m" "6 \<le> mx"
  shows "\<exists>m'. feed blackoutSetParam (blackoutGetParams m mx) m0 = Some m' \<and> blackoutGetParams m' mx = blackoutGetParams m mx"
proof -
  show ?thesis using assms
    by (simp add: blackoutGetParams_def blackoutSetParam_def blackout_params_ok_def short_roundtrip long_roundtrip dist_roundtrip  )
qed

interpretation blackout_param: param_module blackoutStartUp blackoutProcess blackoutCloseDown "\<lambda>_. []" "\<lambda>_. True" "\<lambda>_. True"
    blackoutSetParam blackoutGetParams blackout_params_ok
  by unfold_locales
    ((rule blackout_roundtrip; assumption) | (drule blackoutSetParam_ok; simp) | simp add: blackout_params_ok_def )+

lemma throttleSetParam_ok:
  "throttleSetParam k v m = Some (ok, m') \<Longrightarrow>
     (buffered_wf THROTTLE_KEEP_AT_MOST m \<longrightarrow> buffered_wf THROTTLE_KEEP_AT_MOST m') \<and> (bufLinked m \<longrightarrow> bufLinked m') \<and> (throttle_params_ok m \<longrightarrow> throttle_params_ok m') \<and> buf m' = buf m \<and>
     enabledFlag m' = enabledFlag m \<and> lastEnabled m' = lastEnabled m \<and> (\<not> ok \<longrightarrow> m' = m)"
  unfolding throttleSetParam_def
  by (auto simp: throttle_params_ok_def short_range clampLong_range buffered_wf_def  split: if_splits Option.bind_splits dest: percent_ok)

lemma throttle_roundtrip:
  assumes "throttle_params_ok m" "6 \<le> mx"
  shows "\<exists>m'. feed throttleSetParam (throttleGetParams m mx) m0 = Some m' \<and> throttleGetParams m' mx = throttleGetParams m mx"
proof -
  obtain c0 where c0: "percent_value (show_percent (throttleChance m)) = Some c0" "show_percent c0 = show_percent (throttleChance m)"
    using percent_reprint [of "throttleChance m"] assms(1) by (auto simp: throttle_params_ok_def)
  show ?thesis using assms
    by (simp add: throttleGetParams_def throttleSetParam_def throttle_params_ok_def short_roundtrip long_roundtrip dist_roundtrip  c0)
qed

interpretation throttle_param: param_module throttleStartUp throttleProcess throttleCloseDown buf "buffered_wf THROTTLE_KEEP_AT_MOST" bufLinked
    throttleSetParam throttleGetParams throttle_params_ok
  by unfold_locales
    ((rule throttle_roundtrip; assumption) | (drule throttleSetParam_ok; simp) | simp add: throttle_params_ok_def buffered_wf_def )+

lemma dupSetParam_ok:
  "dupSetParam k v m = Some (ok, m') \<Longrightarrow>
     (dup_params_ok m \<longrightarrow> dup_params_ok m') \<and>
     enabledFlag m' = enabledFlag m \<and> lastEnabled m' = lastEnabled m \<and> (\<not> ok \<longrightarrow> m' = m)"
  unfolding dupSetParam_def
  by (auto simp: dup_params_ok_def short_range clampLong_range  split: if_splits Option.bind_splits dest: percent_ok)

lemma dup_roundtrip:
  assumes "dup_params_ok m" "6 \<le> mx"
  shows "\<exists>m'. feed dupSetParam (dupGetParams m mx) m0 = Some m' \<and> dupGetParams m' mx = dupGetParams m mx"
proof -
  obtain c0 where c0: "percent_value (show_percent (dupChance m)) = Some c0" "show_percent c0 = show_percent (dupChance m)"
    using percent_reprint [of "dupChance m"] assms(1) by (auto simp: dup_params_ok_def)
  show ?thesis using assms
    by (simp add: dupGetParams_def dupSetParam_def dup_params_ok_def short_roundtrip long_roundtrip dist_roundtrip  c0)
qed

interpretation dup_param: param_module dupStartup dupProcess dupCloseDown "\<lambda>_. []" "\<lambda>_. True" "\<lambda>_. True"
    dupSetParam dupGetParams dup_params_ok
  by unfold_locales
    ((rule dup_roundtrip; assumption) | (drule dupSetParam_ok; simp) | simp add: dup_params_ok_def )+

lemma oodSetParam_ok:
  "oodSetParam k v m = Some (ok, m') \<Longrightarrow>
     (ood_wf m \<longrightarrow> ood_wf m') \<and> (bufLinked m \<longrightarrow> bufLinked m') \<and> (ood_params_ok m \<longrightarrow> ood_params_ok m') \<and> buf m' = buf m \<and>
     enabledFlag m' = enabledFlag m \<and> lastEnabled m' = lastEnabled m \<and> (\<not> ok \<longrightarrow> m' = m)"
  unfolding oodSetParam_def
  by (auto simp: ood_params_ok_def short_range clampLong_range buffered_wf_def ood_wf_def OOD_ARRAY_def split: if_splits Option.bind_splits dest: percent_ok)

lemma ood_roundtrip:
  assumes "ood_params_ok m" "6 \<le> mx"
  shows "\<exists>m'. feed oodSetParam (oodGetParams m mx) m0 = Some m' \<and> oodGetParams m' mx = oodGetParams m mx"
proof -
  obtain c0 where c0: "percent_value (show_percent (oodChance m)) = Some c0" "show_percent c0 = show_percent (oodChance m)"
    using percent_reprint [of "oodChance m"] assms(1) by (auto simp: ood_params_ok_def)
  show ?thesis using assms
    by (simp add: oodGetParams_def oodSetParam_def ood_params_ok_def short_roundtrip long_roundtrip dist_roundtrip  c0)
qed

interpretation ood_param: param_module oodStartUp oodProcess oodCloseDown buf ood_wf bufLinked
    oodSetParam oodGetParams ood_params_ok
  by unfold_locales
    ((rule ood_roundtrip; assumption) | (drule oodSetParam_ok; simp) | simp add: ood_params_ok_def buffered_wf_def ood_wf_def OOD_ARRAY_def)+

lemma tamperSetParam_ok:
  "tamperSetParam k v m = Some (ok, m') \<Longrightarrow>
     (tamper_params_ok m \<longrightarrow> tamper_params_ok m') \<and>
     enabledFlag m' = enabledFlag m \<and> lastEnabled m' = lastEnabled m \<and> (\<not> ok \<longrightarrow> m' = m)"
  unfolding tamperSetParam_def
  by (auto simp: tamper_params_ok_def short_range clampLong_range POS_FRONT_def POS_RANDOM_def split: if_splits Option.bind_splits dest: percent_ok)

lemma tamper_roundtrip:
  assumes "tamper_params_ok m" "6 \<le> mx"
  shows "\<exists>m'. feed tamperSetParam (tamperGetParams m mx) m0 = Some m' \<and> tamperGetParams m' mx = tamperGetParams m mx"
proof -
  obtain c0 where c0: "percent_value (show_percent (tamperChance m)) = Some c0" "show_percent c0 = show_percent (tamperChance m)"
    using percent_reprint [of "tamperChance m"] assms(1) by (auto simp: tamper_params_ok_def)
  show ?thesis using assms
    by (simp add: tamperGetParams_def tamperSetParam_def tamper_params_ok_def short_roundtrip long_roundtrip dist_roundtrip POS_FRONT_def POS_RANDOM_def c0)
qed

interpretation tamper_param: param_module tamperStartup tamperProcess tamperCloseDown "\<lambda>_. []" "\<lambda>_. True" "\<lambda>_. True"
    tamperSetParam tamperGetParams tamper_params_ok
  by unfold_locales
    ((rule tamper_roundtrip; assumption) | (drule tamperSetParam_ok; simp) | simp add: tamper_params_ok_def POS_FRONT_def POS_RANDOM_def)+

lemma corruptSetParam_ok:
  "corruptSetParam k v m = Some (ok, m') \<Longrightarrow>
     (corrupt_params_ok m \<longrightarrow> corrupt_params_ok m') \<and>
     enabledFlag m' = enabledFlag m \<and> lastEnabled m' = lastEnabled m \<and> (\<not> ok \<longrightarrow> m' = m)"
  unfolding corruptSetParam_def
  by (auto simp: corrupt_params_ok_def short_range clampLong_range  split: if_splits Option.bind_splits dest: percent_ok)

lemma corrupt_roundtrip:
  assumes "corrupt_params_ok m" "6 \<le> mx"
  shows "\<exists>m'. feed corruptSetParam (corruptGetParams m mx) m0 = Some m' \<and> corruptGetParams m' mx = corruptGetParams m mx"
proof -
  obtain c0 where c0: "percent_value (show_percent_d (corruptChance m)) = Some c0" "show_percent_d c0 = show_percent_d (corruptChance m)"
    using percent_reprint [of "corruptChance m"] assms(1) by (auto simp: corrupt_params_ok_def)
  show ?thesis using assms
    by (simp add: corruptGetParams_def corruptSetParam_def corrupt_params_ok_def short_roundtrip long_roundtrip dist_roundtrip  c0)
qed

interpretation corrupt_param: param_module corruptStartUp corruptProcess corruptCloseDown "\<lambda>_. []" "\<lambda>_. True" "\<lambda>_. True"
    corruptSetParam corruptGetParams corrupt_params_ok
  by unfold_locales
    ((rule corrupt_roundtrip; assumption) | (drule corruptSetParam_ok; simp) | simp add: corrupt_params_ok_def )+

lemma resetSetParam_ok:
  "resetSetParam k v m = Some (ok, m') \<Longrightarrow>
     (reset_params_ok m \<longrightarrow> reset_params_ok m') \<and>
     enabledFlag m' = enabledFlag m \<and> lastEnabled m' = lastEnabled m \<and> (\<not> ok \<longrightarrow> m' = m)"
  unfolding resetSetParam_def
  by (auto simp: reset_params_ok_def short_range clampLong_range reset_trigger_def split: if_splits Option.bind_splits dest: percent_ok)

lemma reset_roundtrip:
  assumes "reset_params_ok m" "6 \<le> mx"
  shows "\<exists>m'. feed resetSetParam (resetGetParams m mx) m0 = Some m' \<and> resetGetParams m' mx = resetGetParams m mx"
proof -
  obtain c0 where c0: "percent_value (show_percent (resetChance m)) = Some c0" "show_percent c0 = show_percent (resetChance m)"
    using percent_reprint [of "resetChance m"] assms(1) by (auto simp: reset_params_ok_def)
  show ?thesis using assms
    by (simp add: resetGetParams_def resetSetParam_def reset_params_ok_def short_roundtrip long_roundtrip dist_roundtrip  c0)
qed

interpretation reset_param: param_module resetStartup resetProcess resetCloseDown "\<lambda>_. []" "\<lambda>_. True" "\<lambda>_. True"
    resetSetParam resetGetParams reset_params_ok
  by unfold_locales
    ((rule reset_roundtrip; assumption) | (drule resetSetParam_ok; simp) | simp add: reset_params_ok_def reset_trigger_def)+

lemma bandwidthSetParam_ok:
  "bandwidthSetParam k v m = Some (ok, m') \<Longrightarrow>
     (bandwidth_wf m \<longrightarrow> bandwidth_wf m') \<and> (bandwidth_ready m \<longrightarrow> bandwidth_ready m') \<and> (bandwidth_params_ok m \<longrightarrow> bandwidth_params_ok m') \<and> buf m' = buf m \<and>
     enabledFlag m' = enabledFlag m \<and> lastEnabled m' = lastEnabled m \<and> (\<not> ok \<longrightarrow> m' = m)"
  unfolding bandwidthSetParam_def
  by (auto simp: bandwidth_params_ok_def short_range clampLong_range buffered_wf_def bandwidth_wf_def bandwidth_ready_def tokens_ok_def split: if_splits Option.bind_splits dest: percent_ok)

lemma bandwidth_roundtrip:
  assumes "bandwidth_params_ok m" "6 \<le> mx"
  shows "\<exists>m'. feed bandwidthSetParam (bandwidthGetParams m mx) m0 = Some m' \<and> bandwidthGetParams m' mx = bandwidthGetParams m mx"
proof -
  show ?thesis using assms
    by (simp add: bandwidthGetParams_def bandwidthSetParam_def bandwidth_params_ok_def short_roundtrip long_roundtrip dist_roundtrip  )
qed

interpretation bandwidth_param: param_module bandwidthStartUp bandwidthProcess bandwidthCloseDown buf bandwidth_wf bandwidth_ready
    bandwidthSetParam bandwidthGetParams bandwidth_params_ok
  by unfold_locales
    ((rule bandwidth_roundtrip; assumption) | (drule bandwidthSetParam_ok; simp) | simp add: bandwidth_params_ok_def buffered_wf_def bandwidth_wf_def bandwidth_ready_def tokens_ok_def)+

end
