(* ===== verification/Module_Table.thy ===== *)
theory Module_Table
  imports Params
begin

text \<open>
  The table \<^verbatim>\<open>modules\<close> of \<^verbatim>\<open>src/src/main.cpp\<close>: the twelve modules in pipeline order, and
  \<^verbatim>\<open>applyModuleKV\<close> of \<^verbatim>\<open>utils.cpp\<close>, through which the command line, profiles, scenarios and the
  control API write enabled flags and parameters. \<open>mods_ok\<close> is the invariant of the table: every
  module's own invariant and every parameter within the range its \<^verbatim>\<open>ParamSpec\<close> declares.
\<close>

subsection \<open>The table\<close>

record mods =
  m_lag :: lag_state
  m_jitter :: jitter_state
  m_drop :: drop_state
  m_burstloss :: burstloss_state
  m_blackout :: blackout_state
  m_throttle :: throttle_state
  m_dup :: dup_state
  m_ood :: ood_state
  m_tamper :: tamper_state
  m_corrupt :: corrupt_state
  m_reset :: reset_state
  m_bandwidth :: bandwidth_state

definition mods_init :: mods where
  "mods_init = \<lparr>m_lag = lag_init,
     m_jitter = jitter_init,
     m_drop = drop_init,
     m_burstloss = burstloss_init,
     m_blackout = blackout_init,
     m_throttle = throttle_init,
     m_dup = dup_init,
     m_ood = ood_init,
     m_tamper = tamper_init,
     m_corrupt = corrupt_init,
     m_reset = reset_init,
     m_bandwidth = bandwidth_init\<rparr>"

text \<open>The short names, with the enabled flag each of them stands for.\<close>

definition set_enabled :: "string \<Rightarrow> bool \<Rightarrow> 'a mods_scheme \<Rightarrow> 'a mods_scheme option" where
  "set_enabled key b s =
     (if key = ''lag'' then Some (s\<lparr>m_lag := (m_lag s)\<lparr>enabledFlag := b\<rparr>\<rparr>)
      else if key = ''jitter'' then Some (s\<lparr>m_jitter := (m_jitter s)\<lparr>enabledFlag := b\<rparr>\<rparr>)
      else if key = ''drop'' then Some (s\<lparr>m_drop := (m_drop s)\<lparr>enabledFlag := b\<rparr>\<rparr>)
      else if key = ''burstloss'' then Some (s\<lparr>m_burstloss := (m_burstloss s)\<lparr>enabledFlag := b\<rparr>\<rparr>)
      else if key = ''blackout'' then Some (s\<lparr>m_blackout := (m_blackout s)\<lparr>enabledFlag := b\<rparr>\<rparr>)
      else if key = ''throttle'' then Some (s\<lparr>m_throttle := (m_throttle s)\<lparr>enabledFlag := b\<rparr>\<rparr>)
      else if key = ''duplicate'' then Some (s\<lparr>m_dup := (m_dup s)\<lparr>enabledFlag := b\<rparr>\<rparr>)
      else if key = ''ood'' then Some (s\<lparr>m_ood := (m_ood s)\<lparr>enabledFlag := b\<rparr>\<rparr>)
      else if key = ''tamper'' then Some (s\<lparr>m_tamper := (m_tamper s)\<lparr>enabledFlag := b\<rparr>\<rparr>)
      else if key = ''corrupt'' then Some (s\<lparr>m_corrupt := (m_corrupt s)\<lparr>enabledFlag := b\<rparr>\<rparr>)
      else if key = ''reset'' then Some (s\<lparr>m_reset := (m_reset s)\<lparr>enabledFlag := b\<rparr>\<rparr>)
      else if key = ''bandwidth'' then Some (s\<lparr>m_bandwidth := (m_bandwidth s)\<lparr>enabledFlag := b\<rparr>\<rparr>)
      else None)"

text \<open>A module's \<^verbatim>\<open>setParam\<close> on the table.\<close>

type_synonym 'a setter = "string \<Rightarrow> string \<Rightarrow> 'a mods_scheme \<Rightarrow> (bool \<times> 'a mods_scheme) option"

definition set_lag :: "'a setter" where
  "set_lag k v s = map_option (\<lambda>(ok, m). (ok, s\<lparr>m_lag := m\<rparr>)) (lagSetParam k v (m_lag s))"

definition set_jitter :: "'a setter" where
  "set_jitter k v s = map_option (\<lambda>(ok, m). (ok, s\<lparr>m_jitter := m\<rparr>)) (jitterSetParam k v (m_jitter s))"

definition set_drop :: "'a setter" where
  "set_drop k v s = map_option (\<lambda>(ok, m). (ok, s\<lparr>m_drop := m\<rparr>)) (dropSetParam k v (m_drop s))"

definition set_burstloss :: "'a setter" where
  "set_burstloss k v s = map_option (\<lambda>(ok, m). (ok, s\<lparr>m_burstloss := m\<rparr>)) (burstlossSetParam k v (m_burstloss s))"

definition set_blackout :: "'a setter" where
  "set_blackout k v s = map_option (\<lambda>(ok, m). (ok, s\<lparr>m_blackout := m\<rparr>)) (blackoutSetParam k v (m_blackout s))"

definition set_throttle :: "'a setter" where
  "set_throttle k v s = map_option (\<lambda>(ok, m). (ok, s\<lparr>m_throttle := m\<rparr>)) (throttleSetParam k v (m_throttle s))"

definition set_dup :: "'a setter" where
  "set_dup k v s = map_option (\<lambda>(ok, m). (ok, s\<lparr>m_dup := m\<rparr>)) (dupSetParam k v (m_dup s))"

definition set_ood :: "'a setter" where
  "set_ood k v s = map_option (\<lambda>(ok, m). (ok, s\<lparr>m_ood := m\<rparr>)) (oodSetParam k v (m_ood s))"

definition set_tamper :: "'a setter" where
  "set_tamper k v s = map_option (\<lambda>(ok, m). (ok, s\<lparr>m_tamper := m\<rparr>)) (tamperSetParam k v (m_tamper s))"

definition set_corrupt :: "'a setter" where
  "set_corrupt k v s = map_option (\<lambda>(ok, m). (ok, s\<lparr>m_corrupt := m\<rparr>)) (corruptSetParam k v (m_corrupt s))"

definition set_reset :: "'a setter" where
  "set_reset k v s = map_option (\<lambda>(ok, m). (ok, s\<lparr>m_reset := m\<rparr>)) (resetSetParam k v (m_reset s))"

definition set_bandwidth :: "'a setter" where
  "set_bandwidth k v s = map_option (\<lambda>(ok, m). (ok, s\<lparr>m_bandwidth := m\<rparr>)) (bandwidthSetParam k v (m_bandwidth s))"

definition setters :: "'a setter list" where
  "setters = [set_lag, set_jitter, set_drop, set_burstloss, set_blackout, set_throttle, set_dup, set_ood, set_tamper, set_corrupt, set_reset, set_bandwidth]"

fun try_setters :: "'a setter list \<Rightarrow> 'a setter" where
  "try_setters [] k v s = Some (False, s)"
| "try_setters (f # fs) k v s =
     (case f k v s of None \<Rightarrow> None
      | Some (ok, s) \<Rightarrow> if ok then Some (True, s) else try_setters fs k v s)"

definition applyModuleKV :: "'a setter" where
  "applyModuleKV key value s =
     (case set_enabled key (parseBoolValue value) s of
        Some s \<Rightarrow> Some (True, s)
      | None \<Rightarrow> try_setters setters key value s)"

text \<open>Key/value pairs one after the other, as \<^verbatim>\<open>profileApply\<close> and the scenario steps do.\<close>

fun apply_all :: "param_kv list \<Rightarrow> 'a mods_scheme \<Rightarrow> 'a mods_scheme option" where
  "apply_all [] s = Some s"
| "apply_all ((k, v) # r) s = Option.bind (applyModuleKV k v s) (\<lambda>(ok, s). apply_all r s)"

subsection \<open>What the table holds\<close>

text \<open>
  The table read column by column, in pipeline order: the packets each module holds back, whether
  it is enabled, whether it has been started, and whether closing it is defined.
\<close>

definition helds :: "'a mods_scheme \<Rightarrow> packet list list" where
  "helds s = [buf (m_lag s), buf (m_jitter s), [], [], [], buf (m_throttle s), [], buf (m_ood s), [], [], [], buf (m_bandwidth s)]"

definition enabled_flags :: "'a mods_scheme \<Rightarrow> bool list" where
  "enabled_flags s = [enabledFlag (m_lag s),
     enabledFlag (m_jitter s),
     enabledFlag (m_drop s),
     enabledFlag (m_burstloss s),
     enabledFlag (m_blackout s),
     enabledFlag (m_throttle s),
     enabledFlag (m_dup s),
     enabledFlag (m_ood s),
     enabledFlag (m_tamper s),
     enabledFlag (m_corrupt s),
     enabledFlag (m_reset s),
     enabledFlag (m_bandwidth s)]"

definition started_flags :: "'a mods_scheme \<Rightarrow> bool list" where
  "started_flags s = [lastEnabled (m_lag s),
     lastEnabled (m_jitter s),
     lastEnabled (m_drop s),
     lastEnabled (m_burstloss s),
     lastEnabled (m_blackout s),
     lastEnabled (m_throttle s),
     lastEnabled (m_dup s),
     lastEnabled (m_ood s),
     lastEnabled (m_tamper s),
     lastEnabled (m_corrupt s),
     lastEnabled (m_reset s),
     lastEnabled (m_bandwidth s)]"

definition readies :: "'a mods_scheme \<Rightarrow> bool list" where
  "readies s = [bufLinked (m_lag s), bufLinked (m_jitter s), True, True, True, bufLinked (m_throttle s), True, bufLinked (m_ood s), True, True, True, bandwidth_ready (m_bandwidth s)]"

definition held_all :: "'a mods_scheme \<Rightarrow> packet list" where
  "held_all s = concat (helds s)"

text \<open>A module that is not started holds nothing.\<close>

definition idle_empty :: "'a mods_scheme \<Rightarrow> bool" where
  "idle_empty s \<longleftrightarrow> list_all2 (\<lambda>st h. st \<or> h = []) (started_flags s) (helds s)"

text \<open>Every enabled module has its buffer linked, so that closing it is defined.\<close>

definition closable :: "'a mods_scheme \<Rightarrow> bool" where
  "closable s \<longleftrightarrow> list_all2 (\<lambda>en rd. en \<longrightarrow> rd) (enabled_flags s) (readies s)"

text \<open>What sits in modules that are not enabled.\<close>

definition stranded :: "'a mods_scheme \<Rightarrow> packet list" where
  "stranded s = concat (map2 (\<lambda>en h. if en then [] else h) (enabled_flags s) (helds s))"

subsection \<open>The invariant of the table\<close>

definition mods_inv :: "'a mods_scheme \<Rightarrow> bool" where
  "mods_inv s \<longleftrightarrow>
     lag.mod_inv (m_lag s) \<and>
     jitter.mod_inv (m_jitter s) \<and>
     drop.mod_inv (m_drop s) \<and>
     burstloss.mod_inv (m_burstloss s) \<and>
     blackout.mod_inv (m_blackout s) \<and>
     throttle.mod_inv (m_throttle s) \<and>
     dup.mod_inv (m_dup s) \<and>
     ood.mod_inv (m_ood s) \<and>
     tamper.mod_inv (m_tamper s) \<and>
     corrupt.mod_inv (m_corrupt s) \<and>
     reset.mod_inv (m_reset s) \<and>
     bandwidth.mod_inv (m_bandwidth s)"

definition mods_params_ok :: "'a mods_scheme \<Rightarrow> bool" where
  "mods_params_ok s \<longleftrightarrow>
     lag_params_ok (m_lag s) \<and>
     jitter_params_ok (m_jitter s) \<and>
     drop_params_ok (m_drop s) \<and>
     burstloss_params_ok (m_burstloss s) \<and>
     blackout_params_ok (m_blackout s) \<and>
     throttle_params_ok (m_throttle s) \<and>
     dup_params_ok (m_dup s) \<and>
     ood_params_ok (m_ood s) \<and>
     tamper_params_ok (m_tamper s) \<and>
     corrupt_params_ok (m_corrupt s) \<and>
     reset_params_ok (m_reset s) \<and>
     bandwidth_params_ok (m_bandwidth s)"

lemmas mod_inv_defs = lag.mod_inv_def jitter.mod_inv_def drop.mod_inv_def burstloss.mod_inv_def blackout.mod_inv_def throttle.mod_inv_def dup.mod_inv_def ood.mod_inv_def tamper.mod_inv_def corrupt.mod_inv_def reset.mod_inv_def bandwidth.mod_inv_def

lemmas columns = helds_def enabled_flags_def started_flags_def readies_def

lemmas flags_columns = enabled_flags_def started_flags_def

lemma columns_length [simp]:
  "length (helds s) = 12" "length (enabled_flags s) = 12" "length (started_flags s) = 12" "length (readies s) = 12"
  by (simp_all add: columns)

lemma mods_init_ok:
  "mods_inv mods_init" "mods_params_ok mods_init" "idle_empty mods_init" "held_all mods_init = []" "closable mods_init"
  by (simp_all add: mods_init_def mods_inv_def mods_params_ok_def idle_empty_def held_all_def closable_def columns mod_inv_defs
      lag_init_def jitter_init_def drop_init_def burstloss_init_def blackout_init_def throttle_init_def dup_init_def ood_init_def tamper_init_def corrupt_init_def reset_init_def bandwidth_init_def
      module_defaults_def module_base.defs buffered_wf_def jitter_wf_def ood_wf_def bandwidth_wf_def
      params_ok_defs pct_ok_def OOD_ARRAY_def DIST_UNIFORM_def POS_CENTER_def POS_FRONT_def POS_RANDOM_def)

lemma held_bound:
  assumes "mods_inv s" shows "length (held_all s) \<le> KEEP_AT_MOST + JITTER_KEEP_AT_MOST + THROTTLE_KEEP_AT_MOST + OOD_ARRAY + BW_KEEP_AT_MOST"
  using assms lag.held_bound [OF lag.mod_inv_wf, of "m_lag s"] jitter.held_bound [OF jitter.mod_inv_wf, of "m_jitter s"]
    throttle.held_bound [OF throttle.mod_inv_wf, of "m_throttle s"] ood.held_bound [OF ood.mod_inv_wf, of "m_ood s"]
    bandwidth.held_bound [OF bandwidth.mod_inv_wf, of "m_bandwidth s"]
  by (simp add: mods_inv_def held_all_def helds_def)

subsection \<open>Writing through the table\<close>

text \<open>What no write to the table changes.\<close>

definition same_run :: "'a mods_scheme \<Rightarrow> 'a mods_scheme \<Rightarrow> bool" where
  "same_run s s' \<longleftrightarrow> helds s' = helds s \<and> started_flags s' = started_flags s \<and> mods.more s' = mods.more s \<and>
     (mods_inv s \<longrightarrow> mods_inv s') \<and> (mods_params_ok s \<longrightarrow> mods_params_ok s') \<and> (idle_empty s \<longrightarrow> idle_empty s')"

lemma same_run_refl [simp]: "same_run s s"
  by (simp add: same_run_def)

lemma same_run_trans: "same_run s t \<Longrightarrow> same_run t u \<Longrightarrow> same_run s u"
  by (simp add: same_run_def)

definition safe_setter :: "'a setter \<Rightarrow> bool" where
  "safe_setter f \<longleftrightarrow> (\<forall>k v s ok s'. f k v s = Some (ok, s') \<longrightarrow> same_run s s' \<and> (\<not> ok \<longrightarrow> s' = s))"

lemma safe_setterD: "safe_setter f \<Longrightarrow> f k v s = Some (ok, s') \<Longrightarrow> same_run s s' \<and> (\<not> ok \<longrightarrow> s' = s)"
  unfolding safe_setter_def by blast

subsection \<open>Driving the table\<close>

type_synonym 'a stage = "'a mods_scheme \<Rightarrow> packet list \<Rightarrow> env \<Rightarrow> ('a mods_scheme \<times> packet list \<times> env) option"

definition run_lag :: "'a stage" where
  "run_lag s xs e = map_option (\<lambda>(m, xs, e). (s\<lparr>m_lag := m\<rparr>, xs, e))
     (run_module lagStartUp lagProcess lagCloseDown (m_lag s) xs e)"

definition run_jitter :: "'a stage" where
  "run_jitter s xs e = map_option (\<lambda>(m, xs, e). (s\<lparr>m_jitter := m\<rparr>, xs, e))
     (run_module jitterStartUp jitterProcess jitterCloseDown (m_jitter s) xs e)"

definition run_drop :: "'a stage" where
  "run_drop s xs e = map_option (\<lambda>(m, xs, e). (s\<lparr>m_drop := m\<rparr>, xs, e))
     (run_module dropStartUp dropProcess dropCloseDown (m_drop s) xs e)"

definition run_burstloss :: "'a stage" where
  "run_burstloss s xs e = map_option (\<lambda>(m, xs, e). (s\<lparr>m_burstloss := m\<rparr>, xs, e))
     (run_module burstlossStartUp burstlossProcess burstlossCloseDown (m_burstloss s) xs e)"

definition run_blackout :: "'a stage" where
  "run_blackout s xs e = map_option (\<lambda>(m, xs, e). (s\<lparr>m_blackout := m\<rparr>, xs, e))
     (run_module blackoutStartUp blackoutProcess blackoutCloseDown (m_blackout s) xs e)"

definition run_throttle :: "'a stage" where
  "run_throttle s xs e = map_option (\<lambda>(m, xs, e). (s\<lparr>m_throttle := m\<rparr>, xs, e))
     (run_module throttleStartUp throttleProcess throttleCloseDown (m_throttle s) xs e)"

definition run_dup :: "'a stage" where
  "run_dup s xs e = map_option (\<lambda>(m, xs, e). (s\<lparr>m_dup := m\<rparr>, xs, e))
     (run_module dupStartup dupProcess dupCloseDown (m_dup s) xs e)"

definition run_ood :: "'a stage" where
  "run_ood s xs e = map_option (\<lambda>(m, xs, e). (s\<lparr>m_ood := m\<rparr>, xs, e))
     (run_module oodStartUp oodProcess oodCloseDown (m_ood s) xs e)"

definition run_tamper :: "'a stage" where
  "run_tamper s xs e = map_option (\<lambda>(m, xs, e). (s\<lparr>m_tamper := m\<rparr>, xs, e))
     (run_module tamperStartup tamperProcess tamperCloseDown (m_tamper s) xs e)"

definition run_corrupt :: "'a stage" where
  "run_corrupt s xs e = map_option (\<lambda>(m, xs, e). (s\<lparr>m_corrupt := m\<rparr>, xs, e))
     (run_module corruptStartUp corruptProcess corruptCloseDown (m_corrupt s) xs e)"

definition run_reset :: "'a stage" where
  "run_reset s xs e = map_option (\<lambda>(m, xs, e). (s\<lparr>m_reset := m\<rparr>, xs, e))
     (run_module resetStartup resetProcess resetCloseDown (m_reset s) xs e)"

definition run_bandwidth :: "'a stage" where
  "run_bandwidth s xs e = map_option (\<lambda>(m, xs, e). (s\<lparr>m_bandwidth := m\<rparr>, xs, e))
     (run_module bandwidthStartUp bandwidthProcess bandwidthCloseDown (m_bandwidth s) xs e)"

definition stop_lag :: "'a stage" where
  "stop_lag s xs e = map_option (\<lambda>(m, xs, e). (s\<lparr>m_lag := m\<rparr>, xs, e)) (stop_module lagCloseDown (m_lag s) xs e)"

definition stop_jitter :: "'a stage" where
  "stop_jitter s xs e = map_option (\<lambda>(m, xs, e). (s\<lparr>m_jitter := m\<rparr>, xs, e)) (stop_module jitterCloseDown (m_jitter s) xs e)"

definition stop_drop :: "'a stage" where
  "stop_drop s xs e = map_option (\<lambda>(m, xs, e). (s\<lparr>m_drop := m\<rparr>, xs, e)) (stop_module dropCloseDown (m_drop s) xs e)"

definition stop_burstloss :: "'a stage" where
  "stop_burstloss s xs e = map_option (\<lambda>(m, xs, e). (s\<lparr>m_burstloss := m\<rparr>, xs, e)) (stop_module burstlossCloseDown (m_burstloss s) xs e)"

definition stop_blackout :: "'a stage" where
  "stop_blackout s xs e = map_option (\<lambda>(m, xs, e). (s\<lparr>m_blackout := m\<rparr>, xs, e)) (stop_module blackoutCloseDown (m_blackout s) xs e)"

definition stop_throttle :: "'a stage" where
  "stop_throttle s xs e = map_option (\<lambda>(m, xs, e). (s\<lparr>m_throttle := m\<rparr>, xs, e)) (stop_module throttleCloseDown (m_throttle s) xs e)"

definition stop_dup :: "'a stage" where
  "stop_dup s xs e = map_option (\<lambda>(m, xs, e). (s\<lparr>m_dup := m\<rparr>, xs, e)) (stop_module dupCloseDown (m_dup s) xs e)"

definition stop_ood :: "'a stage" where
  "stop_ood s xs e = map_option (\<lambda>(m, xs, e). (s\<lparr>m_ood := m\<rparr>, xs, e)) (stop_module oodCloseDown (m_ood s) xs e)"

definition stop_tamper :: "'a stage" where
  "stop_tamper s xs e = map_option (\<lambda>(m, xs, e). (s\<lparr>m_tamper := m\<rparr>, xs, e)) (stop_module tamperCloseDown (m_tamper s) xs e)"

definition stop_corrupt :: "'a stage" where
  "stop_corrupt s xs e = map_option (\<lambda>(m, xs, e). (s\<lparr>m_corrupt := m\<rparr>, xs, e)) (stop_module corruptCloseDown (m_corrupt s) xs e)"

definition stop_reset :: "'a stage" where
  "stop_reset s xs e = map_option (\<lambda>(m, xs, e). (s\<lparr>m_reset := m\<rparr>, xs, e)) (stop_module resetCloseDown (m_reset s) xs e)"

definition stop_bandwidth :: "'a stage" where
  "stop_bandwidth s xs e = map_option (\<lambda>(m, xs, e). (s\<lparr>m_bandwidth := m\<rparr>, xs, e)) (stop_module bandwidthCloseDown (m_bandwidth s) xs e)"

fun run_stages :: "'a stage list \<Rightarrow> 'a stage" where
  "run_stages [] s xs e = Some (s, xs, e)"
| "run_stages (f # fs) s xs e = Option.bind (f s xs e) (\<lambda>(s, xs, e). run_stages fs s xs e)"

text \<open>The module loop of \<^verbatim>\<open>divertConsumeStep\<close>, and the closing loop of \<^verbatim>\<open>divertClockLoop\<close>.\<close>

definition run_list :: "'a stage list" where
  "run_list = [run_lag, run_jitter, run_drop, run_burstloss, run_blackout, run_throttle, run_dup, run_ood, run_tamper, run_corrupt, run_reset, run_bandwidth]"

definition stop_list :: "'a stage list" where
  "stop_list = [stop_lag, stop_jitter, stop_drop, stop_burstloss, stop_blackout, stop_throttle, stop_dup, stop_ood, stop_tamper, stop_corrupt, stop_reset, stop_bandwidth]"

definition run_modules :: "'a stage" where
  "run_modules = run_stages run_list"

definition stop_modules :: "'a stage" where
  "stop_modules = run_stages stop_list"

text \<open>What stage \<open>i\<close> of the module loop does: the module is started or closed as its flag says.\<close>

definition good_stage :: "nat \<Rightarrow> 'a stage \<Rightarrow> bool" where
  "good_stage i f \<longleftrightarrow> (\<forall>s xs e. mods_inv s \<longrightarrow> nfqQueue e \<longrightarrow>
     (\<exists>s' xs' e'. f s xs e = Some (s', xs', e') \<and> mods_inv s' \<and> nfqQueue e' \<and>
        ledger (xs' @ held_all s') e' = ledger (xs @ held_all s) e \<and> mods.more s' = mods.more s \<and>
        enabled_flags s' = enabled_flags s \<and> started_flags s' = (started_flags s)[i := enabled_flags s ! i] \<and>
        (idle_empty s \<longrightarrow> idle_empty s')))"

text \<open>What stage \<open>i\<close> of the closing loop does: it crashes exactly on an enabled module that is not ready.\<close>

definition good_stop :: "nat \<Rightarrow> 'a stage \<Rightarrow> bool" where
  "good_stop i f \<longleftrightarrow> (\<forall>s xs e. mods_inv s \<longrightarrow>
     (if enabled_flags s ! i \<and> \<not> readies s ! i then f s xs e = None
      else \<exists>s' xs' e'. f s xs e = Some (s', xs', e') \<and> mods_inv s' \<and> readies s' = readies s \<and> quiet e e' \<and>
        owed_all (xs' @ held_all s') = owed_all (xs @ held_all s) \<and> mods.more s' = mods.more s \<and>
        enabled_flags s' = enabled_flags s \<and>
        helds s' = (helds s)[i := if enabled_flags s ! i then [] else helds s ! i]))"

lemma owed_concat_update:
  "i < length hs \<Longrightarrow> owed_all (concat (hs[i := h])) + owed_all (hs ! i) = owed_all (concat hs) + owed_all h"
  by (induction hs arbitrary: i) (auto split: nat.splits simp: ac_simps)

text \<open>
  One row of the table: a module with the field of the record that holds it. The laws say that
  \<open>put\<close> replaces this row and nothing else.
\<close>

locale table_slot = param_module startUp process closeDown held wf ready setParam getParams params_ok
  for startUp :: "'x module_base_scheme \<Rightarrow> env \<Rightarrow> 'x module_base_scheme \<times> env"
    and process closeDown held wf ready setParam getParams params_ok +
  fixes get :: "'a mods_scheme \<Rightarrow> 'x module_base_scheme"
    and put :: "'x module_base_scheme \<Rightarrow> 'a mods_scheme \<Rightarrow> 'a mods_scheme"
    and i :: nat
  assumes inv: "mods_inv s \<Longrightarrow> mod_inv (get s)" "mods_inv s \<Longrightarrow> mod_inv m \<Longrightarrow> mods_inv (put m s)"
    and params: "mods_params_ok s \<Longrightarrow> params_ok (get s)"
      "mods_params_ok s \<Longrightarrow> params_ok m \<Longrightarrow> mods_params_ok (put m s)"
    and put_get: "put (get s) s = s"
    and rest: "mods.more (put m s) = mods.more s"
    and column_put: "helds (put m s) = (helds s)[i := held m]"
      "enabled_flags (put m s) = (enabled_flags s)[i := enabledFlag m]"
      "started_flags (put m s) = (started_flags s)[i := lastEnabled m]"
      "readies (put m s) = (readies s)[i := ready m]"
    and column_get: "helds s ! i = held (get s)" "enabled_flags s ! i = enabledFlag (get s)"
      "started_flags s ! i = lastEnabled (get s)" "readies s ! i = ready (get s)"
    and close_ready: "closeDown m xs e = Some r \<Longrightarrow> wf m \<Longrightarrow> ready m"
    and row: "i < 12"
begin

lemma keep_column: "held m = held (get s) \<Longrightarrow> (helds s)[i := held m] = helds s"
    "enabledFlag m = enabledFlag (get s) \<Longrightarrow> (enabled_flags s)[i := enabledFlag m] = enabled_flags s"
    "lastEnabled m = lastEnabled (get s) \<Longrightarrow> (started_flags s)[i := lastEnabled m] = started_flags s"
    "ready m = ready (get s) \<Longrightarrow> (readies s)[i := ready m] = readies s"
  by (simp_all flip: column_get)

lemma put_idle: "idle_empty s \<Longrightarrow> lastEnabled m \<or> held m = [] \<Longrightarrow> idle_empty (put m s)"
  unfolding idle_empty_def column_put by (rule list_all2_update_cong)

lemma get_idle: "idle_empty s \<Longrightarrow> lastEnabled (get s) \<or> held (get s) = []"
  unfolding idle_empty_def by (drule list_all2_nthD [of _ _ _ i]) (simp_all add: column_get row)

lemma put_owed: "owed_all (held_all (put m s)) + owed_all (held (get s)) = owed_all (held_all s) + owed_all (held m)"
  using owed_concat_update [of i "helds s" "held m"] by (simp add: held_all_def column_put column_get row)

lemma put_owed_all:
  assumes "owed_all xs' + owed_all (held m) + a' = owed_all xs + owed_all (held (get s)) + a"
  shows "owed_all xs' + owed_all (held_all (put m s)) + a' = owed_all xs + owed_all (held_all s) + a"
proof -
  have "(owed_all xs' + owed_all (held_all (put m s)) + a') + owed_all (held (get s)) =
      owed_all xs' + a' + (owed_all (held_all s) + owed_all (held m))"
    by (simp only: put_owed [of m s, symmetric] ac_simps)
  also have "\<dots> = (owed_all xs' + owed_all (held m) + a') + owed_all (held_all s)" by (simp add: ac_simps)
  also have "\<dots> = (owed_all xs + owed_all (held (get s)) + a) + owed_all (held_all s)" by (simp only: assms)
  also have "\<dots> = (owed_all xs + owed_all (held_all s) + a) + owed_all (held (get s))" by (simp only: ac_simps)
  finally show ?thesis by simp
qed

lemma put_same_run:
  assumes "mod_inv (get s) \<longrightarrow> mod_inv m" "params_ok (get s) \<longrightarrow> params_ok m" "held m = held (get s)"
    "lastEnabled m = lastEnabled (get s)"
  shows "same_run s (put m s)"
  using assms inv params put_idle [of s m] get_idle [of s]
  by (auto simp: same_run_def column_put keep_column rest)

lemma enable_same_run: "same_run s (put (get s\<lparr>enabledFlag := b\<rparr>) s)"
  by (rule put_same_run) (simp_all add: enable)

lemma safe:
  assumes f: "\<And>k v s. f k v s = map_option (\<lambda>(ok, m). (ok, put m s)) (setParam k v (get s))"
  shows "safe_setter f"
  unfolding safe_setter_def
proof (intro allI impI)
  fix k v ok and s s' :: "'a mods_scheme" assume "f k v s = Some (ok, s')"
  then obtain m where m: "setParam k v (get s) = Some (ok, m)" "s' = put m s"
    unfolding f by (auto simp: map_option_case split: option.splits)
  show "same_run s s' \<and> (\<not> ok \<longrightarrow> s' = s)" unfolding m(2)
    using setParam_inv [OF m(1)] setParam_params [OF m(1)] setParam [OF m(1)] put_get
    by (intro conjI put_same_run) auto
qed

lemma run_good:
  assumes f: "\<And>s xs e. f s xs e = map_option (\<lambda>(m, xs, e). (put m s, xs, e)) (run_module startUp process closeDown (get s) xs e)"
  shows "good_stage i f"
  unfolding good_stage_def
proof (intro allI impI)
  fix s :: "'a mods_scheme" and xs :: "packet list" and e :: env assume "mods_inv s" and q: "nfqQueue e"
  then have "mod_inv (get s)" by (simp add: inv)
  from run_module_ok [OF this q, of xs] obtain m xs' e' where
    r: "run_module startUp process closeDown (get s) xs e = Some (m, xs', e')" "mod_inv m" "nfqQueue e'"
      "enabledFlag m = enabledFlag (get s)" "lastEnabled m = enabledFlag (get s)"
      "\<not> enabledFlag (get s) \<and> lastEnabled (get s) \<longrightarrow> held m = []"
      "\<not> enabledFlag (get s) \<and> \<not> lastEnabled (get s) \<longrightarrow> held m = held (get s)"
    and l: "ledger (xs' @ held m) e' = ledger (xs @ held (get s)) e" by auto
  have "idle_empty (put m s)" if "idle_empty s"
    by (rule put_idle [OF that]) (use get_idle [OF that] r(5-7) in auto)
  moreover have "ledger (xs' @ held_all (put m s)) e' = ledger (xs @ held_all s) e"
    using l put_owed_all [of xs' m "answered e'" xs s "answered e"] by (simp add: ledger_def)
  moreover have "mods_inv (put m s)" using \<open>mods_inv s\<close> r(2) by (rule inv)
  ultimately show "\<exists>s' xs' e'. f s xs e = Some (s', xs', e') \<and> mods_inv s' \<and> nfqQueue e' \<and>
        ledger (xs' @ held_all s') e' = ledger (xs @ held_all s) e \<and> mods.more s' = mods.more s \<and>
        enabled_flags s' = enabled_flags s \<and> started_flags s' = (started_flags s)[i := enabled_flags s ! i] \<and>
        (idle_empty s \<longrightarrow> idle_empty s')"
    using r(3-5) by (simp add: f r(1) rest column_put keep_column column_get)
qed

lemma idle_stage:
  assumes f: "\<And>s xs e. f s xs e = map_option (\<lambda>(m, xs, e). (put m s, xs, e)) (run_module startUp process closeDown (get s) xs e)"
    and idle: "\<not> enabledFlag (get s)" "\<not> lastEnabled (get s)"
  shows "f s xs e = Some (s, xs, e)"
  using idle by (simp add: f run_module_def put_get)

lemma stop_good:
  assumes f: "\<And>s xs e. f s xs e = map_option (\<lambda>(m, xs, e). (put m s, xs, e)) (stop_module closeDown (get s) xs e)"
  shows "good_stop i f"
  unfolding good_stop_def
proof (intro allI impI)
  fix s :: "'a mods_scheme" and xs :: "packet list" and e :: env assume a: "mods_inv s"
  then have m: "mod_inv (get s)" by (simp add: inv)
  show "if enabled_flags s ! i \<and> \<not> readies s ! i then f s xs e = None
      else \<exists>s' xs' e'. f s xs e = Some (s', xs', e') \<and> mods_inv s' \<and> readies s' = readies s \<and> quiet e e' \<and>
        owed_all (xs' @ held_all s') = owed_all (xs @ held_all s) \<and> mods.more s' = mods.more s \<and>
        enabled_flags s' = enabled_flags s \<and>
        helds s' = (helds s)[i := if enabled_flags s ! i then [] else helds s ! i]"
  proof (cases "enabledFlag (get s) \<and> \<not> ready (get s)")
    case True
    then have "closeDown (get s) xs e = None" using close_ready mod_inv_wf [OF m] by (cases "closeDown (get s) xs e") auto
    then show ?thesis using True by (simp add: f stop_module_def column_get)
  next
    case False
    obtain m xs' e' where
      r: "stop_module closeDown (get s) xs e = Some (m, xs', e')" "mod_inv m" "quiet e e'"
         "held m = (if enabledFlag (get s) then [] else held (get s))"
         "owed_all (xs' @ held m) = owed_all (xs @ held (get s))"
         "enabledFlag m = enabledFlag (get s)" "ready m = ready (get s)"
    proof (cases "enabledFlag (get s)")
      case True
      then show ?thesis
        using that closeDown [OF mod_inv_wf [OF m], of xs e] False by (auto simp: stop_module_def mod_inv_def)
    next
      case False
      then show ?thesis using that [of "get s" xs e] m by (simp add: stop_module_def)
    qed
    have "mods_inv (put m s)" using a r(2) by (rule inv)
    moreover have "owed_all (xs' @ held_all (put m s)) = owed_all (xs @ held_all s)"
      using r(5) put_owed_all [of xs' m "{#}" xs s "{#}"] by simp
    moreover have "\<not> (enabled_flags s ! i \<and> \<not> readies s ! i)" using False by (simp add: column_get)
    ultimately show ?thesis
      using r(3,4,6,7) by (simp add: f r(1) rest column_put keep_column column_get)
  qed
qed

end

lemmas closing_defs = bufferCloseDown_def lagCloseDown_def jitterCloseDown_def throttleCloseDown_def oodCloseDown_def
  bandwidthCloseDown_def bandwidth_wf_def bandwidth_ready_def

interpretation lag_slot: table_slot lagStartUp lagProcess lagCloseDown buf "buffered_wf KEEP_AT_MOST" bufLinked
    lagSetParam lagGetParams lag_params_ok m_lag "\<lambda>m s. s\<lparr>m_lag := m\<rparr>" 0
  by unfold_locales (simp_all add: mods_inv_def mods_params_ok_def columns closing_defs split: if_splits)

interpretation jitter_slot: table_slot jitterStartUp jitterProcess jitterCloseDown buf jitter_wf bufLinked
    jitterSetParam jitterGetParams jitter_params_ok m_jitter "\<lambda>m s. s\<lparr>m_jitter := m\<rparr>" 1
  by unfold_locales (simp_all add: mods_inv_def mods_params_ok_def columns closing_defs split: if_splits)

interpretation drop_slot: table_slot dropStartUp dropProcess dropCloseDown "\<lambda>_. []" "\<lambda>_. True" "\<lambda>_. True"
    dropSetParam dropGetParams drop_params_ok m_drop "\<lambda>m s. s\<lparr>m_drop := m\<rparr>" 2
  by unfold_locales (simp_all add: mods_inv_def mods_params_ok_def columns closing_defs split: if_splits)

interpretation burstloss_slot: table_slot burstlossStartUp burstlossProcess burstlossCloseDown "\<lambda>_. []" "\<lambda>_. True" "\<lambda>_. True"
    burstlossSetParam burstlossGetParams burstloss_params_ok m_burstloss "\<lambda>m s. s\<lparr>m_burstloss := m\<rparr>" 3
  by unfold_locales (simp_all add: mods_inv_def mods_params_ok_def columns closing_defs split: if_splits)

interpretation blackout_slot: table_slot blackoutStartUp blackoutProcess blackoutCloseDown "\<lambda>_. []" "\<lambda>_. True" "\<lambda>_. True"
    blackoutSetParam blackoutGetParams blackout_params_ok m_blackout "\<lambda>m s. s\<lparr>m_blackout := m\<rparr>" 4
  by unfold_locales (simp_all add: mods_inv_def mods_params_ok_def columns closing_defs split: if_splits)

interpretation throttle_slot: table_slot throttleStartUp throttleProcess throttleCloseDown buf "buffered_wf THROTTLE_KEEP_AT_MOST" bufLinked
    throttleSetParam throttleGetParams throttle_params_ok m_throttle "\<lambda>m s. s\<lparr>m_throttle := m\<rparr>" 5
  by unfold_locales (simp_all add: mods_inv_def mods_params_ok_def columns closing_defs split: if_splits)

interpretation dup_slot: table_slot dupStartup dupProcess dupCloseDown "\<lambda>_. []" "\<lambda>_. True" "\<lambda>_. True"
    dupSetParam dupGetParams dup_params_ok m_dup "\<lambda>m s. s\<lparr>m_dup := m\<rparr>" 6
  by unfold_locales (simp_all add: mods_inv_def mods_params_ok_def columns closing_defs split: if_splits)

interpretation ood_slot: table_slot oodStartUp oodProcess oodCloseDown buf ood_wf bufLinked
    oodSetParam oodGetParams ood_params_ok m_ood "\<lambda>m s. s\<lparr>m_ood := m\<rparr>" 7
  by unfold_locales (simp_all add: mods_inv_def mods_params_ok_def columns closing_defs split: if_splits)

interpretation tamper_slot: table_slot tamperStartup tamperProcess tamperCloseDown "\<lambda>_. []" "\<lambda>_. True" "\<lambda>_. True"
    tamperSetParam tamperGetParams tamper_params_ok m_tamper "\<lambda>m s. s\<lparr>m_tamper := m\<rparr>" 8
  by unfold_locales (simp_all add: mods_inv_def mods_params_ok_def columns closing_defs split: if_splits)

interpretation corrupt_slot: table_slot corruptStartUp corruptProcess corruptCloseDown "\<lambda>_. []" "\<lambda>_. True" "\<lambda>_. True"
    corruptSetParam corruptGetParams corrupt_params_ok m_corrupt "\<lambda>m s. s\<lparr>m_corrupt := m\<rparr>" 9
  by unfold_locales (simp_all add: mods_inv_def mods_params_ok_def columns closing_defs split: if_splits)

interpretation reset_slot: table_slot resetStartup resetProcess resetCloseDown "\<lambda>_. []" "\<lambda>_. True" "\<lambda>_. True"
    resetSetParam resetGetParams reset_params_ok m_reset "\<lambda>m s. s\<lparr>m_reset := m\<rparr>" 10
  by unfold_locales (simp_all add: mods_inv_def mods_params_ok_def columns closing_defs split: if_splits)

interpretation bandwidth_slot: table_slot bandwidthStartUp bandwidthProcess bandwidthCloseDown buf bandwidth_wf bandwidth_ready
    bandwidthSetParam bandwidthGetParams bandwidth_params_ok m_bandwidth "\<lambda>m s. s\<lparr>m_bandwidth := m\<rparr>" 11
  by unfold_locales (simp_all add: mods_inv_def mods_params_ok_def columns closing_defs split: if_splits)

subsection \<open>Writing any row\<close>

lemma if_SomeE: "(if c then Some a else r) = Some s' \<Longrightarrow> (s' = a \<Longrightarrow> P) \<Longrightarrow> (r = Some s' \<Longrightarrow> P) \<Longrightarrow> P"
  by (cases c) auto

lemma set_enabled_same_run: "set_enabled key b s = Some s' \<Longrightarrow> same_run s s'"
  unfolding set_enabled_def
  by (elim if_SomeE) (simp_all add: lag_slot.enable_same_run jitter_slot.enable_same_run drop_slot.enable_same_run burstloss_slot.enable_same_run blackout_slot.enable_same_run throttle_slot.enable_same_run dup_slot.enable_same_run ood_slot.enable_same_run tamper_slot.enable_same_run corrupt_slot.enable_same_run reset_slot.enable_same_run bandwidth_slot.enable_same_run)

lemma try_setters_safe: "\<forall>f \<in> set fs. safe_setter f \<Longrightarrow> safe_setter (try_setters fs)"
proof (induction fs)
  case Nil
  then show ?case by (simp add: safe_setter_def)
next
  case (Cons f fs)
  then have f: "safe_setter f" and fs: "safe_setter (try_setters fs)" by simp_all
  show ?case unfolding safe_setter_def
  proof (intro allI impI)
    fix k v ok and s s' :: "'a mods_scheme" assume r: "try_setters (f # fs) k v s = Some (ok, s')"
    then obtain b t where t: "f k v s = Some (b, t)" by (auto split: option.splits)
    note st = safe_setterD [OF f t]
    show "same_run s s' \<and> (\<not> ok \<longrightarrow> s' = s)"
    proof (cases b)
      case True
      then have "ok" "s' = t" using r t by simp_all
      then show ?thesis using st by simp
    next
      case False
      then have "t = s" using st by simp
      moreover have "try_setters fs k v t = Some (ok, s')" using r t False by simp
      ultimately show ?thesis using safe_setterD [OF fs] by simp
    qed
  qed
qed

lemma setters_safe: "\<forall>f \<in> set setters. safe_setter f"
  by (simp add: setters_def lag_slot.safe set_lag_def jitter_slot.safe set_jitter_def drop_slot.safe set_drop_def burstloss_slot.safe set_burstloss_def blackout_slot.safe set_blackout_def throttle_slot.safe set_throttle_def dup_slot.safe set_dup_def ood_slot.safe set_ood_def tamper_slot.safe set_tamper_def corrupt_slot.safe set_corrupt_def reset_slot.safe set_reset_def bandwidth_slot.safe set_bandwidth_def)

lemma applyModuleKV_safe: "safe_setter applyModuleKV"
  unfolding safe_setter_def
proof (intro allI impI)
  fix k v ok and s s' :: "'a mods_scheme" assume r: "applyModuleKV k v s = Some (ok, s')"
  show "same_run s s' \<and> (\<not> ok \<longrightarrow> s' = s)"
  proof (cases "set_enabled k (parseBoolValue v) s")
    case None
    then show ?thesis using r safe_setterD [OF try_setters_safe [OF setters_safe]] by (simp add: applyModuleKV_def)
  next
    case (Some t)
    then show ?thesis using r set_enabled_same_run [OF Some] by (simp add: applyModuleKV_def)
  qed
qed

lemma applyModuleKV_same_run: "applyModuleKV k v s = Some (ok, s') \<Longrightarrow> same_run s s'"
  using safe_setterD [OF applyModuleKV_safe] by blast

lemma apply_all_same_run: "apply_all kvs s = Some s' \<Longrightarrow> same_run s s'"
proof (induction kvs s rule: apply_all.induct)
  case (2 k v r s)
  then obtain ok t where t: "applyModuleKV k v s = Some (ok, t)" "apply_all r t = Some s'"
    by (auto split: Option.bind_splits)
  show ?case using 2(1) [OF t(1) _ t(2)] applyModuleKV_same_run [OF t(1)] same_run_trans by blast
qed simp

subsection \<open>The whole module loop\<close>

lemma rows: "[0..<12] = [0, 1, 2, 3, 4, 5, 6, 7, 8, 9, 10, 11::nat]"
  by (simp add: upt_conv_Cons)

lemma run_list_good: "list_all2 good_stage [0..<12] run_list"
  by (simp add: run_list_def rows del: One_nat_def add: lag_slot.run_good [OF run_lag_def] jitter_slot.run_good [OF run_jitter_def] drop_slot.run_good [OF run_drop_def] burstloss_slot.run_good [OF run_burstloss_def] blackout_slot.run_good [OF run_blackout_def] throttle_slot.run_good [OF run_throttle_def] dup_slot.run_good [OF run_dup_def] ood_slot.run_good [OF run_ood_def] tamper_slot.run_good [OF run_tamper_def] corrupt_slot.run_good [OF run_corrupt_def] reset_slot.run_good [OF run_reset_def] bandwidth_slot.run_good [OF run_bandwidth_def])

lemma stop_list_good: "list_all2 good_stop [0..<12] stop_list"
  by (simp add: stop_list_def rows del: One_nat_def add: lag_slot.stop_good [OF stop_lag_def] jitter_slot.stop_good [OF stop_jitter_def] drop_slot.stop_good [OF stop_drop_def] burstloss_slot.stop_good [OF stop_burstloss_def] blackout_slot.stop_good [OF stop_blackout_def] throttle_slot.stop_good [OF stop_throttle_def] dup_slot.stop_good [OF stop_dup_def] ood_slot.stop_good [OF stop_ood_def] tamper_slot.stop_good [OF stop_tamper_def] corrupt_slot.stop_good [OF stop_corrupt_def] reset_slot.stop_good [OF stop_reset_def] bandwidth_slot.stop_good [OF stop_bandwidth_def])

lemma fold_update_each:
  "n \<le> length a \<Longrightarrow> fold (\<lambda>i h. h[i := g i (h ! i)]) [0..<n] a = map (\<lambda>i. g i (a ! i)) [0..<n] @ drop n a"
proof (induction n)
  case (Suc n)
  then have "drop n a = a ! n # drop (Suc n) a" by (simp add: Cons_nth_drop_Suc)
  with Suc show ?case by (simp add: nth_append list_update_append)
qed simp

lemma run_stages_good:
  "list_all2 good_stage is fs \<Longrightarrow> mods_inv s \<Longrightarrow> nfqQueue e \<Longrightarrow>
   \<exists>s' xs' e'. run_stages fs s xs e = Some (s', xs', e') \<and> mods_inv s' \<and> nfqQueue e' \<and>
     ledger (xs' @ held_all s') e' = ledger (xs @ held_all s) e \<and> mods.more s' = mods.more s \<and>
     enabled_flags s' = enabled_flags s \<and>
     started_flags s' = fold (\<lambda>i st. st[i := enabled_flags s ! i]) is (started_flags s) \<and>
     (idle_empty s \<longrightarrow> idle_empty s')"
proof (induction "is" fs arbitrary: s xs e rule: list_all2_induct)
  case (Cons i "is" f fs)
  obtain s1 xs1 e1 where r: "f s xs e = Some (s1, xs1, e1)" "mods_inv s1" "nfqQueue e1"
      "ledger (xs1 @ held_all s1) e1 = ledger (xs @ held_all s) e" "mods.more s1 = mods.more s"
      "enabled_flags s1 = enabled_flags s" "started_flags s1 = (started_flags s)[i := enabled_flags s ! i]"
      "idle_empty s \<longrightarrow> idle_empty s1"
    using Cons.hyps(1) Cons.prems unfolding good_stage_def by meson
  from Cons.IH [OF r(2,3), of xs1] r show ?case by auto
qed simp

lemma stop_stages_good:
  "list_all2 good_stop is fs \<Longrightarrow> mods_inv s \<Longrightarrow>
   (if \<exists>i \<in> set is. enabled_flags s ! i \<and> \<not> readies s ! i then run_stages fs s xs e = None
    else \<exists>s' xs' e'. run_stages fs s xs e = Some (s', xs', e') \<and> mods_inv s' \<and> readies s' = readies s \<and> quiet e e' \<and>
     owed_all (xs' @ held_all s') = owed_all (xs @ held_all s) \<and> mods.more s' = mods.more s \<and>
     enabled_flags s' = enabled_flags s \<and>
     helds s' = fold (\<lambda>i h. h[i := if enabled_flags s ! i then [] else h ! i]) is (helds s))"
proof (induction "is" fs arbitrary: s xs e rule: list_all2_induct)
  case (Cons i "is" f fs)
  show ?case
  proof (cases "enabled_flags s ! i \<and> \<not> readies s ! i")
    case True
    then have "f s xs e = None" using Cons.hyps(1) Cons.prems unfolding good_stop_def by meson
    then show ?thesis using True by simp
  next
    case False
    then obtain s1 xs1 e1 where r: "f s xs e = Some (s1, xs1, e1)" "mods_inv s1" "readies s1 = readies s" "quiet e e1"
      "owed_all (xs1 @ held_all s1) = owed_all (xs @ held_all s)" "mods.more s1 = mods.more s"
      "enabled_flags s1 = enabled_flags s" "helds s1 = (helds s)[i := if enabled_flags s ! i then [] else helds s ! i]"
      using Cons.hyps(1) Cons.prems unfolding good_stop_def by meson
    have q: "quiet e1 e2 \<Longrightarrow> quiet e e2" for e2 using r(4) by (rule quiet_trans)
    from Cons.IH [OF r(2), of xs1 e1] r(1,3,5-8) False q show ?thesis
      by (cases "\<exists>i \<in> set is. enabled_flags s ! i \<and> \<not> readies s ! i") auto
  qed
qed simp

text \<open>One run of the module loop leaves exactly the enabled modules started.\<close>

lemma run_modules_ok:
  assumes "mods_inv s" "nfqQueue e"
  shows "\<exists>s' xs' e'. run_modules s xs e = Some (s', xs', e') \<and> mods_inv s' \<and> nfqQueue e' \<and>
     ledger (xs' @ held_all s') e' = ledger (xs @ held_all s) e \<and> mods.more s' = mods.more s \<and>
     enabled_flags s' = enabled_flags s \<and> started_flags s' = enabled_flags s \<and> (idle_empty s \<longrightarrow> idle_empty s')"
proof -
  have "fold (\<lambda>i st. st[i := enabled_flags s ! i]) [0..<12] (started_flags s) = enabled_flags s"
    using fold_update_each [of 12 "started_flags s" "\<lambda>i _. enabled_flags s ! i"] map_nth [of "enabled_flags s"] by simp
  with run_stages_good [OF run_list_good assms, of xs] show ?thesis by (simp add: run_modules_def)
qed

text \<open>With nothing enabled and nothing started the loop does nothing.\<close>

lemmas idle_stages = lag_slot.idle_stage [OF run_lag_def] jitter_slot.idle_stage [OF run_jitter_def] drop_slot.idle_stage [OF run_drop_def] burstloss_slot.idle_stage [OF run_burstloss_def] blackout_slot.idle_stage [OF run_blackout_def] throttle_slot.idle_stage [OF run_throttle_def] dup_slot.idle_stage [OF run_dup_def] ood_slot.idle_stage [OF run_ood_def] tamper_slot.idle_stage [OF run_tamper_def] corrupt_slot.idle_stage [OF run_corrupt_def] reset_slot.idle_stage [OF run_reset_def] bandwidth_slot.idle_stage [OF run_bandwidth_def]

lemma run_modules_idle:
  assumes "True \<notin> set (enabled_flags s)" "True \<notin> set (started_flags s)"
  shows "run_modules s xs e = Some (s, xs, e)"
  using assms by (simp add: run_modules_def run_list_def flags_columns idle_stages)

text \<open>The closing loop empties every enabled module and leaves the others alone.\<close>

lemma not_closable: "\<not> closable s \<longleftrightarrow> (\<exists>i \<in> set [0..<12]. enabled_flags s ! i \<and> \<not> readies s ! i)"
  by (auto simp: closable_def list_all2_conv_all_nth)

lemma stop_modules_crash: "mods_inv s \<Longrightarrow> \<not> closable s \<Longrightarrow> stop_modules s xs e = None"
  using stop_stages_good [OF stop_list_good, of s xs e] by (simp only: not_closable if_True stop_modules_def)

lemma stop_modules_ok:
  assumes "mods_inv s" "closable s"
  shows "\<exists>s' xs' e'. stop_modules s xs e = Some (s', xs', e') \<and> mods_inv s' \<and> closable s' \<and> quiet e e' \<and>
     owed_all (xs' @ held_all s') = owed_all (xs @ held_all s) \<and> mods.more s' = mods.more s \<and>
     enabled_flags s' = enabled_flags s \<and> held_all s' = stranded s"
proof -
  have "fold (\<lambda>i h. h[i := if enabled_flags s ! i then [] else h ! i]) [0..<12] (helds s) =
      map2 (\<lambda>en h. if en then [] else h) (enabled_flags s) (helds s)"
    using fold_update_each [of 12 "helds s" "\<lambda>i h. if enabled_flags s ! i then [] else h"]
    by (simp add: list_eq_iff_nth_eq)
  moreover have "\<not> (\<exists>i \<in> set [0..<12]. enabled_flags s ! i \<and> \<not> readies s ! i)"
    using assms(2) not_closable [of s] by blast
  ultimately show ?thesis using stop_stages_good [OF stop_list_good assms(1), of xs e] assms(2)
    by (simp only: if_False) (auto simp: stop_modules_def held_all_def stranded_def closable_def)
qed

lemma started_closable:
  assumes "mods_inv s" "started_flags s = enabled_flags s" shows "closable s"
  using assms by (simp add: mods_inv_def closable_def columns mod_inv_defs)

lemma idle_stranded:
  assumes "idle_empty s" "started_flags s = enabled_flags s" shows "stranded s = []"
proof -
  have "list_all2 (\<lambda>st h. st \<or> h = []) sts hs \<Longrightarrow> concat (map2 (\<lambda>en h. if en then [] else h) sts hs) = []" for sts and hs :: "packet list list"
    by (induction rule: list_all2_induct) auto
  then show ?thesis using assms by (simp add: idle_empty_def stranded_def)
qed

subsection \<open>What writing parameters can and cannot do\<close>

text \<open>C24: Whatever keys and values arrive through \<^verbatim>\<open>applyModuleKV\<close> from the command line, a profile, a
  scenario or the control API, in whatever number and order, every parameter of every module stays
  within the range its \<^verbatim>\<open>ParamSpec\<close> declares, every module's invariant is kept, and no module gains
  or loses a held packet or is marked started.\<close>

theorem param_writes_in_range:
  assumes "apply_all kvs s = Some s'" "mods_inv s" "mods_params_ok s"
  shows "mods_params_ok s' \<and> mods_inv s' \<and> helds s' = helds s \<and> started_flags s' = started_flags s"
  using apply_all_same_run [OF assms(1)] assms(2,3) by (simp add: same_run_def)

lemma percent_value_5: "percent_value ''5'' = Some 500"
  by code_simp

lemma write_examples:
  "applyModuleKV ''lag'' ''on'' s = Some (True, s\<lparr>m_lag := (m_lag s)\<lparr>enabledFlag := True\<rparr>\<rparr>)"
  "applyModuleKV ''lag-time'' v s = Some (True, s\<lparr>m_lag := (m_lag s)\<lparr>lagTime := clampShort (atoi v) 0 15000\<rparr>\<rparr>)"
  "applyModuleKV ''lag-tim'' ''5'' s = Some (False, s)"
  by (simp_all add: applyModuleKV_def set_enabled_def setters_def percent_value_5 parseBoolValue_def stricmp_eq_def lower_char_def code_def
    set_lag_def lagSetParam_def set_jitter_def jitterSetParam_def set_drop_def dropSetParam_def set_burstloss_def burstlossSetParam_def set_blackout_def blackoutSetParam_def set_throttle_def throttleSetParam_def set_dup_def dupSetParam_def set_ood_def oodSetParam_def set_tamper_def tamperSetParam_def set_corrupt_def corruptSetParam_def set_reset_def resetSetParam_def set_bandwidth_def bandwidthSetParam_def)

lemma param_writes_in_range_witness:
  "\<exists>s'. apply_all [(''lag'', ''on''), (''lag-time'', ''99999'')] mods_init = Some s' \<and>
     mods_params_ok s' \<and> helds s' = helds mods_init \<and> enabledFlag (m_lag s')"
proof -
  let ?s = "mods_init\<lparr>m_lag := (m_lag mods_init)\<lparr>enabledFlag := True, lagTime := clampShort (atoi ''99999'') 0 15000\<rparr>\<rparr>"
  have a: "apply_all [(''lag'', ''on''), (''lag-time'', ''99999'')] mods_init = Some ?s"
    by (simp add: write_examples)
  show ?thesis using param_writes_in_range [OF a mods_init_ok(1,2)] a by (intro exI [of _ ?s]) simp
qed

text \<open>A key that no module knows, and that \<^verbatim>\<open>applyModuleKV\<close> therefore answers with 0, leaves the
  whole table exactly as it was.\<close>

theorem rejected_key_changes_nothing:
  assumes "applyModuleKV k v s = Some (False, s')" shows "s' = s"
  using safe_setterD [OF applyModuleKV_safe assms] by simp

lemma rejected_key_changes_nothing_witness:
  "\<exists>s'. applyModuleKV ''lag-tim'' ''5'' mods_init = Some (False, s') \<and> s' = mods_init"
  using rejected_key_changes_nothing [OF write_examples(3)] write_examples(3) by blast

end
