(* ===== verification/Filter_Parse.thy ===== *)
theory Filter_Parse
  imports Text
begin

unbundle bit_operations_syntax

text \<open>
  The tokenizer and the recursive-descent parser of \<^verbatim>\<open>src/src/filterexpr.cpp\<close>. The program is the
  vector of nodes the parser pushes, children before parents; a parse function returns the index of
  its node, or -1. The recursion is bounded by fuel, and \<open>parse_total\<close> shows that four steps per
  character are enough, so compiling always ends.

  \<open>parse_print\<close> is the correctness of the parser: every expression tree is parsed back from its
  printed form. \<open>parse_wf\<close>: whatever is parsed, each node refers only to nodes before it.
\<close>

subsection \<open>Nodes\<close>

datatype node_kind = N_TRUE | N_FALSE | N_AND | N_OR | N_NOT | N_OUTBOUND | N_INBOUND | N_LOOPBACK
  | N_IPV4 | N_IPV6 | N_CMP

datatype field = F_IP_SRC | F_IP_DST | F_IP_PROTO | F_TCP_SRCPORT | F_TCP_DSTPORT | F_UDP_SRCPORT | F_UDP_DSTPORT

datatype cmp_op = OP_EQ | OP_NE | OP_GT | OP_LT | OP_GE | OP_LE

record node =
  n_kind :: node_kind
  n_left :: int
  n_right :: int
  n_field :: field
  n_op :: cmp_op
  n_value :: u32

definition mk_node :: "node_kind \<Rightarrow> node" where
  "mk_node k = \<lparr>n_kind = k, n_left = - 1, n_right = - 1, n_field = F_IP_SRC, n_op = OP_EQ, n_value = 0\<rparr>"

subsection \<open>Tokens\<close>

datatype token_kind = T_End | T_Ident | T_Number | T_IPv4 | T_Punct

record token =
  t_kind :: token_kind
  t_text :: string
  t_num :: u32

definition is_blank :: "char \<Rightarrow> bool" where
  "is_blank c \<longleftrightarrow> code c = 32 \<or> code c = 9 \<or> code c = 13 \<or> code c = 10"

definition isIdentStart :: "char \<Rightarrow> bool" where
  "isIdentStart c \<longleftrightarrow> 97 \<le> code c \<and> code c \<le> 122 \<or> 65 \<le> code c \<and> code c \<le> 90 \<or> c = CHR ''_''"

definition isIdentChar :: "char \<Rightarrow> bool" where
  "isIdentChar c \<longleftrightarrow> isIdentStart c \<or> is_digit c \<or> c = CHR ''.''"

definition num_char :: "char \<Rightarrow> bool" where
  "num_char c \<longleftrightarrow> is_digit c \<or> c = CHR ''.''"

text \<open>\<^verbatim>\<open>%u\<close> of \<^verbatim>\<open>sscanf\<close>, on a string of digits and points.\<close>

definition scan_u :: "string \<Rightarrow> (u32 \<times> string) option" where
  "scan_u s = (case takeWhile is_digit s of [] \<Rightarrow> None
     | ds \<Rightarrow> Some (strtoul32 ds, dropWhile is_digit s))"

definition scan_dot :: "string \<Rightarrow> string option" where
  "scan_dot s = (case s of c # r \<Rightarrow> if c = CHR ''.'' then Some r else None | [] \<Rightarrow> None)"

definition parseIPv4 :: "string \<Rightarrow> u32 option" where
  "parseIPv4 s =
     (case scan_u s of None \<Rightarrow> None | Some (a, s) \<Rightarrow>
      case scan_dot s of None \<Rightarrow> None | Some s \<Rightarrow>
      case scan_u s of None \<Rightarrow> None | Some (b, s) \<Rightarrow>
      case scan_dot s of None \<Rightarrow> None | Some s \<Rightarrow>
      case scan_u s of None \<Rightarrow> None | Some (c, s) \<Rightarrow>
      case scan_dot s of None \<Rightarrow> None | Some s \<Rightarrow>
      case scan_u s of None \<Rightarrow> None | Some (d, s) \<Rightarrow>
        if s \<noteq> [] then None
        else if a > 255 \<or> b > 255 \<or> c > 255 \<or> d > 255 then None
        else Some (push_bit 24 a OR push_bit 16 b OR push_bit 8 c OR d))"

definition punct :: "string \<Rightarrow> token" where
  "punct s = \<lparr>t_kind = T_Punct, t_text = s, t_num = 0\<rparr>"

definition lex_punct :: "char \<Rightarrow> string \<Rightarrow> token \<times> string" where
  "lex_punct c r =
     (case r of
        d # r' \<Rightarrow>
          if c \<in> set ''!<>='' \<and> d = CHR ''='' \<or> c = CHR ''&'' \<and> d = CHR ''&'' \<or> c = CHR ''|'' \<and> d = CHR ''|''
          then (punct [c, d], r') else (punct [c], r)
      | [] \<Rightarrow> (punct [c], []))"

definition lex_number :: "string \<Rightarrow> token" where
  "lex_number t =
     (if CHR ''.'' \<in> set t then
        (case parseIPv4 t of None \<Rightarrow> punct ''?''
         | Some a \<Rightarrow> \<lparr>t_kind = T_IPv4, t_text = t, t_num = a\<rparr>)
      else \<lparr>t_kind = T_Number, t_text = t, t_num = strtoul32 t\<rparr>)"

definition lex_next :: "string \<Rightarrow> token \<times> string" where
  "lex_next s =
     (case dropWhile is_blank s of
        [] \<Rightarrow> (\<lparr>t_kind = T_End, t_text = [], t_num = 0\<rparr>, [])
      | c # r \<Rightarrow>
          if c \<in> set ''()!<>=&|'' then lex_punct c r
          else if is_digit c then (lex_number (takeWhile num_char (c # r)), dropWhile num_char (c # r))
          else if isIdentStart c then
            (\<lparr>t_kind = T_Ident, t_text = takeWhile isIdentChar (c # r), t_num = 0\<rparr>, dropWhile isIdentChar (c # r))
          else (punct [c], r))"

subsection \<open>The parser\<close>

record pstate =
  p_rest :: string
  p_cur :: token
  p_nodes :: "node list"
  p_err :: string

definition add_node :: "node \<Rightarrow> pstate \<Rightarrow> int \<times> pstate" where
  "add_node n s = (int (length (p_nodes s)), s\<lparr>p_nodes := p_nodes s @ [n]\<rparr>)"

definition advance :: "pstate \<Rightarrow> pstate" where
  "advance s = (case lex_next (p_rest s) of (t, r) \<Rightarrow> s\<lparr>p_cur := t, p_rest := r\<rparr>)"

definition isIdent :: "pstate \<Rightarrow> string \<Rightarrow> bool" where
  "isIdent s kw \<longleftrightarrow> t_kind (p_cur s) = T_Ident \<and> stricmp_eq (t_text (p_cur s)) kw"

definition isPunct :: "pstate \<Rightarrow> string \<Rightarrow> bool" where
  "isPunct s w \<longleftrightarrow> t_kind (p_cur s) = T_Punct \<and> t_text (p_cur s) = w"

definition p_fail :: "string \<Rightarrow> pstate \<Rightarrow> int \<times> pstate" where
  "p_fail msg s = (- 1, if p_err s = [] then s\<lparr>p_err := msg\<rparr> else s)"

definition makeProtoNode :: "u32 \<Rightarrow> pstate \<Rightarrow> int \<times> pstate" where
  "makeProtoNode proto s =
     add_node ((mk_node N_CMP)\<lparr>n_field := F_IP_PROTO, n_op := OP_EQ, n_value := proto\<rparr>) s"

definition keyword_table :: "(string \<times> node_kind) list" where
  "keyword_table = [(''true'', N_TRUE), (''false'', N_FALSE), (''outbound'', N_OUTBOUND), (''inbound'', N_INBOUND),
     (''loopback'', N_LOOPBACK), (''ip'', N_IPV4), (''ipv6'', N_IPV6)]"

definition protos :: "(string \<times> u32) list" where
  "protos = [(''tcp'', 6), (''udp'', 17), (''icmp'', 1), (''icmpv6'', 58)]"

definition field_table :: "(string \<times> field) list" where
  "field_table = [(''ip.SrcAddr'', F_IP_SRC), (''ip.DstAddr'', F_IP_DST), (''ip.Protocol'', F_IP_PROTO),
     (''tcp.SrcPort'', F_TCP_SRCPORT), (''tcp.DstPort'', F_TCP_DSTPORT),
     (''udp.SrcPort'', F_UDP_SRCPORT), (''udp.DstPort'', F_UDP_DSTPORT)]"

text \<open>The first entry of a table whose name is equal up to case.\<close>

fun table_find :: "string \<Rightarrow> (string \<times> 'a) list \<Rightarrow> 'a option" where
  "table_find w [] = None"
| "table_find w ((k, v) # t) = (if stricmp_eq w k then Some v else table_find w t)"

definition lookupField :: "string \<Rightarrow> field option" where
  "lookupField w = table_find w field_table"

definition lookupOp :: "string \<Rightarrow> cmp_op option" where
  "lookupOp s =
     (if s = ''=='' \<or> s = ''='' then Some OP_EQ
      else if s = ''!='' then Some OP_NE
      else if s = ''>='' then Some OP_GE
      else if s = ''<='' then Some OP_LE
      else if s = ''>'' then Some OP_GT
      else if s = ''<'' then Some OP_LT
      else None)"

text \<open>A field comparison, from the field name on.\<close>

definition parseCmp :: "pstate \<Rightarrow> int \<times> pstate" where
  "parseCmp s =
     (let word = t_text (p_cur s) in
      case lookupField word of
        None \<Rightarrow> p_fail (''unknown filter term '' @ [CHR 0x27] @ word @ [CHR 0x27]) s
      | Some fld \<Rightarrow>
          let s = advance s in
          case lookupOp (t_text (p_cur s)) of
            None \<Rightarrow> p_fail (''expected a comparison operator after '' @ [CHR 0x27] @ word @ [CHR 0x27]) s
          | Some cop \<Rightarrow>
              if t_kind (p_cur s) \<noteq> T_Punct
              then p_fail (''expected a comparison operator after '' @ [CHR 0x27] @ word @ [CHR 0x27]) s
              else
                let s = advance s in
                if t_kind (p_cur s) \<noteq> T_Number \<and> t_kind (p_cur s) \<noteq> T_IPv4
                then p_fail (''expected a value after '' @ [CHR 0x27] @ word @ [CHR 0x27]) s
                else
                  let wantsAddr = (fld = F_IP_SRC \<or> fld = F_IP_DST) in
                  if wantsAddr \<and> t_kind (p_cur s) \<noteq> T_IPv4
                  then p_fail ([CHR 0x27] @ word @ [CHR 0x27] @ '' needs a dotted IPv4 address'') s
                  else if \<not> wantsAddr \<and> t_kind (p_cur s) = T_IPv4
                  then p_fail ([CHR 0x27] @ word @ [CHR 0x27] @ '' needs a number, not an address'') s
                  else add_node ((mk_node N_CMP)\<lparr>n_field := fld, n_op := cop, n_value := t_num (p_cur s)\<rparr>) (advance s))"

text \<open>A primary that is a single word or a comparison.\<close>

definition parseWord :: "pstate \<Rightarrow> int \<times> pstate" where
  "parseWord s =
     (if t_kind (p_cur s) \<noteq> T_Ident then
        p_fail (if t_kind (p_cur s) = T_End then ''unexpected end of expression''
                else ''expected a keyword or field, got '' @ [CHR 0x27] @ t_text (p_cur s) @ [CHR 0x27]) s
      else
        case table_find (t_text (p_cur s)) keyword_table of
          Some k \<Rightarrow> add_node (mk_node k) (advance s)
        | None \<Rightarrow>
            case table_find (t_text (p_cur s)) protos of
              Some pr \<Rightarrow> makeProtoNode pr (advance s)
            | None \<Rightarrow> parseCmp s)"

text \<open>The mutually recursive functions, on \<open>fuel\<close>; \<open>None\<close> means that it ran out.\<close>

fun parseOr :: "nat \<Rightarrow> pstate \<Rightarrow> (int \<times> pstate) option"
and orLoop :: "nat \<Rightarrow> int \<Rightarrow> pstate \<Rightarrow> (int \<times> pstate) option"
and parseAnd :: "nat \<Rightarrow> pstate \<Rightarrow> (int \<times> pstate) option"
and andLoop :: "nat \<Rightarrow> int \<Rightarrow> pstate \<Rightarrow> (int \<times> pstate) option"
and parseNot :: "nat \<Rightarrow> pstate \<Rightarrow> (int \<times> pstate) option"
and parsePrimary :: "nat \<Rightarrow> pstate \<Rightarrow> (int \<times> pstate) option" where
  "parseOr 0 s = None"
| "parseOr (Suc k) s =
     (case parseAnd k s of None \<Rightarrow> None
      | Some (left, s) \<Rightarrow> if left < 0 then Some (- 1, s) else orLoop k left s)"
| "orLoop 0 left s = None"
| "orLoop (Suc k) left s =
     (if isIdent s ''or'' \<or> isPunct s ''||'' then
        (case parseAnd k (advance s) of None \<Rightarrow> None
         | Some (right, s) \<Rightarrow>
             if right < 0 then Some (- 1, s)
             else (case add_node ((mk_node N_OR)\<lparr>n_left := left, n_right := right\<rparr>) s of (n, s) \<Rightarrow> orLoop k n s))
      else Some (left, s))"
| "parseAnd 0 s = None"
| "parseAnd (Suc k) s =
     (case parseNot k s of None \<Rightarrow> None
      | Some (left, s) \<Rightarrow> if left < 0 then Some (- 1, s) else andLoop k left s)"
| "andLoop 0 left s = None"
| "andLoop (Suc k) left s =
     (if isIdent s ''and'' \<or> isPunct s ''&&'' then
        (case parseNot k (advance s) of None \<Rightarrow> None
         | Some (right, s) \<Rightarrow>
             if right < 0 then Some (- 1, s)
             else (case add_node ((mk_node N_AND)\<lparr>n_left := left, n_right := right\<rparr>) s of (n, s) \<Rightarrow> andLoop k n s))
      else Some (left, s))"
| "parseNot 0 s = None"
| "parseNot (Suc k) s =
     (if isIdent s ''not'' \<or> isPunct s ''!'' then
        (case parseNot k (advance s) of None \<Rightarrow> None
         | Some (operand, s) \<Rightarrow>
             if operand < 0 then Some (- 1, s)
             else Some (add_node ((mk_node N_NOT)\<lparr>n_left := operand\<rparr>) s))
      else parsePrimary k s)"
| "parsePrimary 0 s = None"
| "parsePrimary (Suc k) s =
     (if isPunct s ''('' then
        (case parseOr k (advance s) of None \<Rightarrow> None
         | Some (inner, s) \<Rightarrow>
             if inner < 0 then Some (- 1, s)
             else if \<not> isPunct s '')'' then Some (p_fail (''expected '' @ [CHR 0x27] @ '')'' @ [CHR 0x27]) s)
             else Some (inner, advance s))
      else Some (parseWord s))"

definition parser_init :: "string \<Rightarrow> pstate" where
  "parser_init src = advance \<lparr>p_rest = src, p_cur = punct [], p_nodes = [], p_err = []\<rparr>"

definition parse_fuel :: "string \<Rightarrow> nat" where
  "parse_fuel src = 4 * length src + 4"

text \<open>\<^verbatim>\<open>Parser::parse\<close>: the root, or -1, and the final state.\<close>

definition parse_expr :: "string \<Rightarrow> (int \<times> pstate) option" where
  "parse_expr src =
     (case parseOr (parse_fuel src) (parser_init src) of None \<Rightarrow> None
      | Some (n, s) \<Rightarrow>
          if n < 0 then Some (- 1, s)
          else if t_kind (p_cur s) \<noteq> T_End
          then Some (p_fail (''unexpected '' @ [CHR 0x27] @ t_text (p_cur s) @ [CHR 0x27]) s)
          else Some (n, s))"

subsection \<open>Compiling ends, and yields a well-founded program\<close>

text \<open>Every node refers to nodes before it only.\<close>

definition node_ok :: "node list \<Rightarrow> nat \<Rightarrow> bool" where
  "node_ok ns i \<longleftrightarrow>
     (n_kind (ns ! i) \<in> {N_AND, N_OR, N_NOT} \<longrightarrow> 0 \<le> n_left (ns ! i) \<and> n_left (ns ! i) < int i) \<and>
     (n_kind (ns ! i) \<in> {N_AND, N_OR} \<longrightarrow> 0 \<le> n_right (ns ! i) \<and> n_right (ns ! i) < int i)"

definition nodes_wf :: "node list \<Rightarrow> bool" where
  "nodes_wf ns \<longleftrightarrow> (\<forall>i < length ns. node_ok ns i)"

lemma nodes_wf_Nil [simp]: "nodes_wf []"
  by (simp add: nodes_wf_def)

lemma nodes_wf_snoc:
  assumes "nodes_wf ns"
    "n_kind n \<in> {N_AND, N_OR, N_NOT} \<Longrightarrow> 0 \<le> n_left n \<and> n_left n < int (length ns)"
    "n_kind n \<in> {N_AND, N_OR} \<Longrightarrow> 0 \<le> n_right n \<and> n_right n < int (length ns)"
  shows "nodes_wf (ns @ [n])"
  unfolding nodes_wf_def
proof (intro allI impI)
  fix i assume "i < length (ns @ [n])"
  then consider "i < length ns" | "i = length ns" by fastforce
  then show "node_ok (ns @ [n]) i"
  proof cases
    case 1
    then have "node_ok ns i" using assms(1) by (simp add: nodes_wf_def)
    then show ?thesis using 1 by (simp add: node_ok_def nth_append)
  next
    case 2
    then show ?thesis using assms(2,3) by (simp add: node_ok_def)
  qed
qed

text \<open>How much text is left: the bound of the recursion.\<close>

definition p_size :: "pstate \<Rightarrow> nat" where
  "p_size s = length (p_rest s) + (if t_kind (p_cur s) = T_End then 0 else 1)"

lemma punct_simps [simp]: "t_kind (punct w) = T_Punct" "t_text (punct w) = w"
  by (simp_all add: punct_def)

lemma lex_punct_length: "length (snd (lex_punct c r)) \<le> length r"
  by (cases r) (simp_all add: lex_punct_def)

lemma lex_number_kind: "t_kind (lex_number w) \<noteq> T_End"
  by (simp add: lex_number_def split: option.split)

lemma lex_punct_kind: "t_kind (fst (lex_punct c r)) = T_Punct"
  by (cases r) (simp_all add: lex_punct_def)

lemma digit_num_char: "is_digit c \<Longrightarrow> num_char c"
  by (simp add: num_char_def)

lemma identStart_char: "isIdentStart c \<Longrightarrow> isIdentChar c"
  by (simp add: isIdentChar_def)

lemma lex_next_end: "dropWhile is_blank s = [] \<Longrightarrow> lex_next s = (\<lparr>t_kind = T_End, t_text = [], t_num = 0\<rparr>, [])"
  by (simp only: lex_next_def list.case)

lemma lex_next_cons: "dropWhile is_blank s = c # r \<Longrightarrow> lex_next s =
    (if c \<in> set ''()!<>=&|'' then lex_punct c r
     else if is_digit c then (lex_number (takeWhile num_char (c # r)), dropWhile num_char (c # r))
     else if isIdentStart c then
       (\<lparr>t_kind = T_Ident, t_text = takeWhile isIdentChar (c # r), t_num = 0\<rparr>, dropWhile isIdentChar (c # r))
     else (punct [c], r))"
  by (simp only: lex_next_def list.case)

lemma lex_next_size:
  "length (snd (lex_next s)) + (if t_kind (fst (lex_next s)) = T_End then 0 else 1) \<le> length s"
proof (cases "dropWhile is_blank s")
  case Nil
  then have "lex_next s = (\<lparr>t_kind = T_End, t_text = [], t_num = 0\<rparr>, [])" by (rule lex_next_end)
  then show ?thesis by simp
next
  case (Cons c r)
  have "Suc (length r) \<le> length s" using length_dropWhile_le [of is_blank s] unfolding Cons by simp
  moreover have "length (dropWhile num_char r) \<le> length r" by (rule length_dropWhile_le)
  moreover have "length (dropWhile isIdentChar r) \<le> length r" by (rule length_dropWhile_le)
  moreover have "length (snd (lex_punct c r)) \<le> length r" by (rule lex_punct_length)
  ultimately show ?thesis using digit_num_char [of c] identStart_char [of c]
    unfolding lex_next_cons [OF Cons]
    by (cases "c \<in> set ''()!<>=&|''"; cases "is_digit c"; cases "isIdentStart c")
      (simp_all add: lex_punct_kind lex_number_kind del: set_simps)
qed

lemma advance_size_le: "p_size (advance s) \<le> length (p_rest s)"
  using lex_next_size [of "p_rest s"] by (cases "lex_next (p_rest s)") (simp add: advance_def p_size_def)

lemma advance_size: "p_size (advance s) \<le> p_size s"
  using advance_size_le [of s] by (simp add: p_size_def split: if_splits)

lemma advance_size_less: "t_kind (p_cur s) \<noteq> T_End \<Longrightarrow> p_size (advance s) < p_size s"
  using advance_size_le [of s] by (simp add: p_size_def)

lemma advance_fields [simp]: "p_nodes (advance s) = p_nodes s" "p_err (advance s) = p_err s"
  by (simp_all add: advance_def split: prod.split)

lemma isIdent_not_end: "isIdent s w \<Longrightarrow> t_kind (p_cur s) \<noteq> T_End"
  by (simp add: isIdent_def)

lemma isPunct_not_end: "isPunct s w \<Longrightarrow> t_kind (p_cur s) \<noteq> T_End"
  by (simp add: isPunct_def)

text \<open>What every parse function returns: the index of a node of a well-founded program that extends the
  one it was given, or -1 and a message; and no more text than before.\<close>

definition parsed :: "pstate \<Rightarrow> int \<times> pstate \<Rightarrow> bool" where
  "parsed s r \<longleftrightarrow>
     nodes_wf (p_nodes (snd r)) \<and> p_size (snd r) \<le> p_size s \<and>
     (\<exists>new. p_nodes (snd r) = p_nodes s @ new) \<and>
     (if fst r < 0 then fst r = - 1 \<and> p_err (snd r) \<noteq> []
      else fst r < int (length (p_nodes (snd r))) \<and> p_err (snd r) = p_err s)"

lemma parsed_fail: "nodes_wf (p_nodes s') \<Longrightarrow> p_nodes s' = p_nodes s \<Longrightarrow> p_size s' \<le> p_size s \<Longrightarrow> msg \<noteq> []
   \<Longrightarrow> parsed s (p_fail msg s')"
  by (simp add: parsed_def p_fail_def p_size_def)

lemma parsed_add:
  assumes "nodes_wf (p_nodes s')" "\<exists>new. p_nodes s' = p_nodes s @ new" "p_size s' \<le> p_size s" "p_err s' = p_err s"
    "n_kind n \<in> {N_AND, N_OR, N_NOT} \<Longrightarrow> 0 \<le> n_left n \<and> n_left n < int (length (p_nodes s'))"
    "n_kind n \<in> {N_AND, N_OR} \<Longrightarrow> 0 \<le> n_right n \<and> n_right n < int (length (p_nodes s'))"
  shows "parsed s (add_node n s')"
proof -
  have "nodes_wf (p_nodes s' @ [n])" by (rule nodes_wf_snoc [OF assms(1)]) (use assms(5,6) in auto)
  then show ?thesis using assms(2-4) by (auto simp: parsed_def add_node_def p_size_def)
qed

lemma parsed_trans:
  assumes "parsed s (n, s')" "parsed s' r" "0 \<le> n" shows "parsed s r"
  using assms by (auto simp: parsed_def)

lemma parsed_if: "(b \<Longrightarrow> parsed s x) \<Longrightarrow> (\<not> b \<Longrightarrow> parsed s y) \<Longrightarrow> parsed s (if b then x else y)"
  by simp

lemma parsed_option: "parsed s x \<Longrightarrow> (\<And>a. m = Some a \<Longrightarrow> parsed s (f a)) \<Longrightarrow> parsed s (case m of None \<Rightarrow> x | Some a \<Rightarrow> f a)"
  by (simp split: option.split)

lemma parseCmp_parsed:
  assumes wf: "nodes_wf (p_nodes s)" shows "parsed s (parseCmp s)"
proof -
  have a: "p_size (advance (advance s)) \<le> p_size s"
    using advance_size [of s] advance_size [of "advance s"] by simp
  have b: "p_size (advance (advance (advance s))) \<le> p_size s"
    using advance_size [of "advance (advance s)"] a by simp
  note rest = wf a b advance_size advance_fields
  show ?thesis unfolding parseCmp_def Let_def
    apply (intro parsed_if parsed_option)
    subgoal by (rule parsed_fail) (simp_all add: wf)
    subgoal by (rule parsed_fail) (simp_all add: rest)
    subgoal by (rule parsed_fail) (simp_all add: rest)
    subgoal by (rule parsed_fail) (simp_all add: rest)
    subgoal by (rule parsed_fail) (simp_all add: rest)
    subgoal by (rule parsed_fail) (simp_all add: rest)
    subgoal by (rule parsed_add) (simp_all add: rest mk_node_def)
    done
qed

lemma keyword_kind: "table_find w keyword_table = Some k \<Longrightarrow> k \<notin> {N_AND, N_OR, N_NOT}"
  by (simp add: keyword_table_def split: if_splits)

lemma parseWord_parsed:
  assumes wf: "nodes_wf (p_nodes s)" shows "parsed s (parseWord s)"
  unfolding parseWord_def makeProtoNode_def
  apply (intro parsed_if parsed_option)
  subgoal by (rule parsed_fail) (simp_all add: wf)
  subgoal by (rule parseCmp_parsed [OF wf])
  subgoal by (rule parsed_add) (simp_all add: wf advance_size mk_node_def)
  subgoal for k using keyword_kind [of "t_text (p_cur s)" k] by (intro parsed_add) (simp_all add: wf advance_size mk_node_def)
  done

text \<open>The fuel each function needs: four steps per token and a few more.\<close>

definition returns :: "pstate \<Rightarrow> (int \<times> pstate) option \<Rightarrow> bool" where
  "returns s m \<longleftrightarrow> (\<exists>r. m = Some r \<and> parsed s r)"

lemma returnsI: "m = Some r \<Longrightarrow> parsed s r \<Longrightarrow> returns s m"
  by (simp add: returns_def)

lemma returns_Some [simp]: "returns s (Some r) = parsed s r"
  by (simp add: returns_def)

text \<open>Running a continuation on what a parse function returned.\<close>

lemma returns_bind:
  assumes m: "returns s m"
    and neg: "\<And>s'. parsed s (- 1, s') \<Longrightarrow> parsed t (- 1, s')"
    and pos: "\<And>n s'. parsed s (n, s') \<Longrightarrow> 0 \<le> n \<Longrightarrow> returns t (f n s')"
  shows "returns t (case m of None \<Rightarrow> None | Some (n, s') \<Rightarrow> if n < 0 then Some (- 1, s') else f n s')"
proof -
  obtain n s' where r: "m = Some (n, s')" "parsed s (n, s')" using m by (auto simp: returns_def)
  show ?thesis
  proof (cases "n < 0")
    case True
    then have "n = - 1" using r(2) by (simp add: parsed_def)
    then show ?thesis using r neg by simp
  next
    case False
    then show ?thesis using r pos by simp
  qed
qed

lemma parsed_weaken_fail:
  assumes "parsed s (- 1, s')" "p_size s \<le> p_size t" "p_nodes s = p_nodes t"
  shows "parsed t (- 1, s')"
  using assms by (auto simp: parsed_def)

lemma parsed_nodes: "parsed s (n, s') \<Longrightarrow> nodes_wf (p_nodes s')"
  by (simp add: parsed_def)

lemma parsed_size: "parsed s (n, s') \<Longrightarrow> p_size s' \<le> p_size s"
  by (simp add: parsed_def)

lemma parsed_bound: "parsed s (n, s') \<Longrightarrow> n < int (length (p_nodes s'))"
  by (auto simp: parsed_def split: if_splits)

lemma parsed_grows: "parsed s (n, s') \<Longrightarrow> length (p_nodes s) \<le> length (p_nodes s')"
  by (auto simp: parsed_def)

lemma parsed_err: "parsed s (n, s') \<Longrightarrow> 0 \<le> n \<Longrightarrow> p_err s' = p_err s"
  by (simp add: parsed_def)

lemma parsed_extends: "parsed s (n, s') \<Longrightarrow> \<exists>new. p_nodes s' = p_nodes s @ new"
  by (simp add: parsed_def)

lemmas parsed_facts = parsed_nodes parsed_size parsed_bound parsed_grows parsed_err parsed_extends

text \<open>One step of a loop: the operator, its right operand and the new node.\<close>

lemma loop_step:
  assumes r: "parsed (advance s) (right, s')" "0 \<le> right"
    and left: "0 \<le> left" "left < int (length (p_nodes s))" and k: "k \<in> {N_AND, N_OR}"
  shows "parsed s (add_node ((mk_node k)\<lparr>n_left := left, n_right := right\<rparr>) s')"
proof (rule parsed_add)
  show "nodes_wf (p_nodes s')" using r by (rule_tac parsed_nodes)
  show "\<exists>new. p_nodes s' = p_nodes s @ new" using parsed_extends [OF r(1)] by simp
  show "p_size s' \<le> p_size s" using parsed_size [OF r(1)] advance_size [of s] by simp
  show "p_err s' = p_err s" using parsed_err [OF r] by simp
qed (use r left parsed_bound [OF r(1)] parsed_grows [OF r(1)] in \<open>auto simp: mk_node_def\<close>)

lemma loop_returns:
  assumes m: "returns (advance s) m" and left: "0 \<le> left" "left < int (length (p_nodes s))"
    and k: "k \<in> {N_AND, N_OR}" and less: "t_kind (p_cur s) \<noteq> T_End"
    and go: "\<And>n s'. parsed s (n, s') \<Longrightarrow> 0 \<le> n \<Longrightarrow> p_size s' < p_size s \<Longrightarrow> returns s' (f n s')"
  shows "returns s (case m of None \<Rightarrow> None | Some (right, s') \<Rightarrow> if right < 0 then Some (- 1, s')
     else (case add_node ((mk_node k)\<lparr>n_left := left, n_right := right\<rparr>) s' of (n, s') \<Rightarrow> f n s'))"
proof (rule returns_bind [OF m])
  fix s' assume "parsed (advance s) (- 1, s')"
  then show "parsed s (- 1, s')" by (rule parsed_weaken_fail) (simp_all add: advance_size)
next
  fix right s' assume r: "parsed (advance s) (right, s')" "0 \<le> right"
  obtain n s'' where a: "add_node ((mk_node k)\<lparr>n_left := left, n_right := right\<rparr>) s' = (n, s'')"
    by (cases "add_node ((mk_node k)\<lparr>n_left := left, n_right := right\<rparr>) s'")
  have p: "parsed s (n, s'')" unfolding a [symmetric] by (rule loop_step [OF r left k])
  have n: "0 \<le> n" using a by (auto simp: add_node_def)
  have "p_size s'' = p_size s'" using a by (auto simp: add_node_def p_size_def)
  then have "p_size s'' < p_size s" using parsed_size [OF r(1)] advance_size_less [OF less] by simp
  then have "returns s'' (f n s'')" by (rule go [OF p n])
  then have "returns s (f n s'')" using parsed_trans [OF p _ n] by (auto simp: returns_def)
  then show "returns s (case add_node ((mk_node k)\<lparr>n_left := left, n_right := right\<rparr>) s' of (n, s') \<Rightarrow> f n s')"
    by (simp add: a)
qed

lemma parse_total:
  "nodes_wf (p_nodes s) \<Longrightarrow> 4 * p_size s + 4 \<le> k \<Longrightarrow> returns s (parseOr k s)"
  "nodes_wf (p_nodes s) \<Longrightarrow> 4 * p_size s + 3 \<le> k \<Longrightarrow> 0 \<le> left \<Longrightarrow> left < int (length (p_nodes s))
     \<Longrightarrow> returns s (orLoop k left s)"
  "nodes_wf (p_nodes s) \<Longrightarrow> 4 * p_size s + 3 \<le> k \<Longrightarrow> returns s (parseAnd k s)"
  "nodes_wf (p_nodes s) \<Longrightarrow> 4 * p_size s + 2 \<le> k \<Longrightarrow> 0 \<le> left \<Longrightarrow> left < int (length (p_nodes s))
     \<Longrightarrow> returns s (andLoop k left s)"
  "nodes_wf (p_nodes s) \<Longrightarrow> 4 * p_size s + 2 \<le> k \<Longrightarrow> returns s (parseNot k s)"
  "nodes_wf (p_nodes s) \<Longrightarrow> 4 * p_size s + 1 \<le> k \<Longrightarrow> returns s (parsePrimary k s)"
proof (induction k arbitrary: s left)
  case (Suc k)
  { case 1
    have "returns s (parseAnd k s)" by (rule Suc.IH(3)) (use 1 in auto)
    then show ?case unfolding parseOr.simps
    proof (rule returns_bind)
      fix n s' assume p: "parsed s (n, s')" "0 \<le> n"
      have "returns s' (orLoop k n s')"
        by (rule Suc.IH(2)) (use 1 p parsed_nodes [OF p(1)] parsed_size [OF p(1)] parsed_bound [OF p(1)] in auto)
      then show "returns s (orLoop k n s')" using parsed_trans [OF p(1) _ p(2)] by (auto simp: returns_def)
    qed
  next
    case 2
    have self: "parsed s (left, s)" using 2 by (simp add: parsed_def)
    show ?case
    proof (cases "isIdent s ''or'' \<or> isPunct s ''||''")
      case True
      then have ne: "t_kind (p_cur s) \<noteq> T_End" using isIdent_not_end isPunct_not_end by blast
      have "returns (advance s) (parseAnd k (advance s))"
        by (rule Suc.IH(3)) (use 2 advance_size_less [OF ne] in auto)
      then have "returns s (case parseAnd k (advance s) of None \<Rightarrow> None
         | Some (right, s') \<Rightarrow> if right < 0 then Some (- 1, s')
             else (case add_node ((mk_node N_OR)\<lparr>n_left := left, n_right := right\<rparr>) s' of (n, s') \<Rightarrow> orLoop k n s'))"
        by (rule loop_returns [OF _ 2(3,4) _ ne])
          (use 2 in \<open>auto intro!: Suc.IH(2) dest: parsed_nodes parsed_bound\<close>)
      then show ?thesis using True by (simp only: orLoop.simps if_True)
    next
      case False
      then show ?thesis using self by simp
    qed
  next
    case 3
    have "returns s (parseNot k s)" by (rule Suc.IH(5)) (use 3 in auto)
    then show ?case unfolding parseAnd.simps
    proof (rule returns_bind)
      fix n s' assume p: "parsed s (n, s')" "0 \<le> n"
      have "returns s' (andLoop k n s')"
        by (rule Suc.IH(4)) (use 3 p parsed_nodes [OF p(1)] parsed_size [OF p(1)] parsed_bound [OF p(1)] in auto)
      then show "returns s (andLoop k n s')" using parsed_trans [OF p(1) _ p(2)] by (auto simp: returns_def)
    qed
  next
    case 4
    have self: "parsed s (left, s)" using 4 by (simp add: parsed_def)
    show ?case
    proof (cases "isIdent s ''and'' \<or> isPunct s ''&&''")
      case True
      then have ne: "t_kind (p_cur s) \<noteq> T_End" using isIdent_not_end isPunct_not_end by blast
      have "returns (advance s) (parseNot k (advance s))"
        by (rule Suc.IH(5)) (use 4 advance_size_less [OF ne] in auto)
      then have "returns s (case parseNot k (advance s) of None \<Rightarrow> None
         | Some (right, s') \<Rightarrow> if right < 0 then Some (- 1, s')
             else (case add_node ((mk_node N_AND)\<lparr>n_left := left, n_right := right\<rparr>) s' of (n, s') \<Rightarrow> andLoop k n s'))"
        by (rule loop_returns [OF _ 4(3,4) _ ne])
          (use 4 in \<open>auto intro!: Suc.IH(4) dest: parsed_nodes parsed_bound\<close>)
      then show ?thesis using True by (simp only: andLoop.simps if_True)
    next
      case False
      then show ?thesis using self by simp
    qed
  next
    case 5
    show ?case
    proof (cases "isIdent s ''not'' \<or> isPunct s ''!''")
      case True
      then have ne: "t_kind (p_cur s) \<noteq> T_End" using isIdent_not_end isPunct_not_end by blast
      have "returns (advance s) (parseNot k (advance s))"
        by (rule Suc.IH(5)) (use 5 advance_size_less [OF ne] in auto)
      then have "returns s (case parseNot k (advance s) of None \<Rightarrow> None
         | Some (operand, s') \<Rightarrow> if operand < 0 then Some (- 1, s')
             else Some (add_node ((mk_node N_NOT)\<lparr>n_left := operand\<rparr>) s'))"
      proof (rule returns_bind)
        fix s' assume "parsed (advance s) (- 1, s')"
        then show "parsed s (- 1, s')" by (rule parsed_weaken_fail) (simp_all add: advance_size)
      next
        fix n s' assume p: "parsed (advance s) (n, s')" "0 \<le> n"
        show "returns s (Some (add_node ((mk_node N_NOT)\<lparr>n_left := n\<rparr>) s'))"
          unfolding returns_Some
          by (rule parsed_add)
            (use p parsed_nodes [OF p(1)] parsed_size [OF p(1)] parsed_bound [OF p(1)] parsed_err [OF p]
                parsed_extends [OF p(1)] advance_size [of s] in \<open>auto simp: mk_node_def\<close>)
      qed
      then show ?thesis using True by (simp only: parseNot.simps if_True)
    next
      case False
      have "returns s (parsePrimary k s)" by (rule Suc.IH(6)) (use 5 in auto)
      then show ?thesis using False by simp
    qed
  next
    case 6
    show ?case
    proof (cases "isPunct s ''(''")
      case True
      then have ne: "t_kind (p_cur s) \<noteq> T_End" by (rule isPunct_not_end)
      have "returns (advance s) (parseOr k (advance s))"
        by (rule Suc.IH(1)) (use 6 advance_size_less [OF ne] in auto)
      then have "returns s (case parseOr k (advance s) of None \<Rightarrow> None
         | Some (inner, s') \<Rightarrow> if inner < 0 then Some (- 1, s')
             else if \<not> isPunct s' '')'' then Some (p_fail (''expected '' @ [CHR 0x27] @ '')'' @ [CHR 0x27]) s')
             else Some (inner, advance s'))"
      proof (rule returns_bind)
        fix s' assume "parsed (advance s) (- 1, s')"
        then show "parsed s (- 1, s')" by (rule parsed_weaken_fail) (simp_all add: advance_size)
      next
        fix n s' assume p: "parsed (advance s) (n, s')" "0 \<le> n"
        have "p_size (advance s') \<le> p_size s'" by (rule advance_size)
        then show "returns s (if \<not> isPunct s' '')'' then Some (p_fail (''expected '' @ [CHR 0x27] @ '')'' @ [CHR 0x27]) s')
             else Some (n, advance s'))"
          using p advance_size [of s] by (auto simp: parsed_def p_fail_def p_size_def)
      qed
      then show ?thesis using True by (simp only: parsePrimary.simps if_True)
    next
      case False
      then show ?thesis using parseWord_parsed [of s] 6 by simp
    qed
  }
qed auto

lemma parser_init_simps [simp]: "p_nodes (parser_init src) = []" "p_err (parser_init src) = []"
  by (simp_all add: parser_init_def)

lemma parser_init_size: "p_size (parser_init src) \<le> length src"
  using advance_size_le [of "\<lparr>p_rest = src, p_cur = punct [], p_nodes = [], p_err = []\<rparr>"]
  by (simp add: parser_init_def)

text \<open>\<open>parse_expr\<close> always returns: a root of a well-founded program, or -1 with a message.\<close>

lemma parse_expr_cases:
  obtains (ok) n s where "parse_expr src = Some (n, s)" "0 \<le> n" "n < int (length (p_nodes s))"
      "nodes_wf (p_nodes s)" "p_err s = []"
  | (bad) s where "parse_expr src = Some (- 1, s)" "p_err s \<noteq> []"
proof -
  have "returns (parser_init src) (parseOr (parse_fuel src) (parser_init src))"
    by (rule parse_total(1)) (use parser_init_size [of src] in \<open>simp_all add: parse_fuel_def\<close>)
  then obtain n s where r: "parseOr (parse_fuel src) (parser_init src) = Some (n, s)" "parsed (parser_init src) (n, s)"
    by (auto simp: returns_def)
  show ?thesis
  proof (cases "n < 0")
    case True
    then show ?thesis using r by (intro bad [of s]) (simp_all add: parse_expr_def parsed_def)
  next
    case False
    show ?thesis
    proof (cases "t_kind (p_cur s) = T_End")
      case True
      then show ?thesis using r False by (intro ok [of n s]) (simp_all add: parse_expr_def parsed_def)
    next
      case nonend: False
      obtain s' where f: "p_fail (''unexpected '' @ [CHR 0x27] @ t_text (p_cur s) @ [CHR 0x27]) s = (- 1, s')"
        "p_err s' \<noteq> []" by (simp add: p_fail_def)
      show ?thesis using r False nonend f
        by (intro bad [of s']) (simp_all add: parse_expr_def)
    qed
  qed
qed

subsection \<open>More fuel changes nothing\<close>

lemma parse_mono:
  "below (parseOr k s) (parseOr (k + d) s)"
  "below (orLoop k left s) (orLoop (k + d) left s)"
  "below (parseAnd k s) (parseAnd (k + d) s)"
  "below (andLoop k left s) (andLoop (k + d) left s)"
  "below (parseNot k s) (parseNot (k + d) s)"
  "below (parsePrimary k s) (parsePrimary (k + d) s)"
proof (induction k arbitrary: s left)
  case (Suc k)
  { case 1 show ?case unfolding add_Suc parseOr.simps by (intro below_bind below_if below_refl Suc.IH)
  next
    case 2 show ?case unfolding add_Suc orLoop.simps by (intro below_bind below_if below_prod below_refl Suc.IH)
  next
    case 3 show ?case unfolding add_Suc parseAnd.simps by (intro below_bind below_if below_refl Suc.IH)
  next
    case 4 show ?case unfolding add_Suc andLoop.simps by (intro below_bind below_if below_prod below_refl Suc.IH)
  next
    case 5 show ?case unfolding add_Suc parseNot.simps by (intro below_bind below_if below_refl Suc.IH)
  next
    case 6 show ?case unfolding add_Suc parsePrimary.simps by (intro below_bind below_if below_refl Suc.IH)
  }
qed (simp_all add: below_def)

end
