(* ===== verification/Filter_Tree.thy ===== *)
theory Filter_Tree
  imports Filter_Parse
begin

unbundle bit_operations_syntax

text \<open>
  The grammar of \<^verbatim>\<open>src/src/filterexpr.cpp\<close> as expression trees: how a tree is written, and the nodes
  the parser makes for it. \<open>parse_print\<close>: a tree written with the fewest brackets is parsed back to
  exactly its nodes, which fixes precedence, associativity and the lexing of every token.
\<close>

subsection \<open>Expression trees\<close>

datatype fkeyword = K_TRUE | K_FALSE | K_OUTBOUND | K_INBOUND | K_LOOPBACK | K_IPV4 | K_IPV6

datatype fexpr = FKey fkeyword | FCmp field cmp_op u32 | FNot fexpr | FAnd fexpr fexpr | FOr fexpr fexpr

fun kw_kind :: "fkeyword \<Rightarrow> node_kind" where
  "kw_kind K_TRUE = N_TRUE" | "kw_kind K_FALSE = N_FALSE" | "kw_kind K_OUTBOUND = N_OUTBOUND"
| "kw_kind K_INBOUND = N_INBOUND" | "kw_kind K_LOOPBACK = N_LOOPBACK" | "kw_kind K_IPV4 = N_IPV4"
| "kw_kind K_IPV6 = N_IPV6"

fun kw_text :: "fkeyword \<Rightarrow> string" where
  "kw_text K_TRUE = ''true''" | "kw_text K_FALSE = ''false''" | "kw_text K_OUTBOUND = ''outbound''"
| "kw_text K_INBOUND = ''inbound''" | "kw_text K_LOOPBACK = ''loopback''" | "kw_text K_IPV4 = ''ip''"
| "kw_text K_IPV6 = ''ipv6''"

fun field_text :: "field \<Rightarrow> string" where
  "field_text F_IP_SRC = ''ip.SrcAddr''" | "field_text F_IP_DST = ''ip.DstAddr''"
| "field_text F_IP_PROTO = ''ip.Protocol''" | "field_text F_TCP_SRCPORT = ''tcp.SrcPort''"
| "field_text F_TCP_DSTPORT = ''tcp.DstPort''" | "field_text F_UDP_SRCPORT = ''udp.SrcPort''"
| "field_text F_UDP_DSTPORT = ''udp.DstPort''"

fun op_text :: "cmp_op \<Rightarrow> string" where
  "op_text OP_EQ = ''==''" | "op_text OP_NE = ''!=''" | "op_text OP_GT = ''>''" | "op_text OP_LT = ''<''"
| "op_text OP_GE = ''>=''" | "op_text OP_LE = ''<=''"

text \<open>\<^verbatim>\<open>formatAddr\<close>: the dotted form of an address.\<close>

definition octet :: "nat \<Rightarrow> u32 \<Rightarrow> u32" where
  "octet k a = drop_bit k a AND 255"

definition formatAddr :: "u32 \<Rightarrow> string" where
  "formatAddr a = show_nat (unat (octet 24 a)) @ ''.'' @ show_nat (unat (octet 16 a)) @ ''.'' @
     show_nat (unat (octet 8 a)) @ ''.'' @ show_nat (unat (octet 0 a))"

definition value_text :: "field \<Rightarrow> u32 \<Rightarrow> string" where
  "value_text fld v = (if fld = F_IP_SRC \<or> fld = F_IP_DST then formatAddr v else show_nat (unat v))"

text \<open>The written form at a precedence level: 0 for an operand of \<^verbatim>\<open>or\<close>, 1 of \<^verbatim>\<open>and\<close>, 2 of \<^verbatim>\<open>not\<close>.\<close>

definition bracket :: "bool \<Rightarrow> string \<Rightarrow> string" where
  "bracket b t = (if b then ''('' @ t @ '')'' else t)"

primrec print_at :: "fexpr \<Rightarrow> nat \<Rightarrow> string" where
  "print_at (FKey k) l = kw_text k"
| "print_at (FCmp fld cop v) l = field_text fld @ '' '' @ op_text cop @ '' '' @ value_text fld v"
| "print_at (FNot a) l = ''not '' @ print_at a 2"
| "print_at (FAnd a b) l = bracket (1 < l) (print_at a 1 @ '' and '' @ print_at b 2)"
| "print_at (FOr a b) l = bracket (0 < l) (print_at a 0 @ '' or '' @ print_at b 1)"

text \<open>The nodes of a tree, from index \<open>i\<close> on; the root is the last.\<close>

primrec tree_nodes :: "fexpr \<Rightarrow> nat \<Rightarrow> node list" where
  "tree_nodes (FKey k) i = [mk_node (kw_kind k)]"
| "tree_nodes (FCmp fld cop v) i = [(mk_node N_CMP)\<lparr>n_field := fld, n_op := cop, n_value := v\<rparr>]"
| "tree_nodes (FNot a) i =
     (let na = tree_nodes a i in na @ [(mk_node N_NOT)\<lparr>n_left := int (i + length na) - 1\<rparr>])"
| "tree_nodes (FAnd a b) i =
     (let na = tree_nodes a i; nb = tree_nodes b (i + length na) in
      na @ nb @ [(mk_node N_AND)\<lparr>n_left := int (i + length na) - 1, n_right := int (i + length na + length nb) - 1\<rparr>])"
| "tree_nodes (FOr a b) i =
     (let na = tree_nodes a i; nb = tree_nodes b (i + length na) in
      na @ nb @ [(mk_node N_OR)\<lparr>n_left := int (i + length na) - 1, n_right := int (i + length na + length nb) - 1\<rparr>])"

lemma tree_nodes_nonempty [simp]: "tree_nodes e i \<noteq> []"
  by (cases e) (simp_all add: Let_def)

subsection \<open>Words of the language\<close>

text \<open>What may follow a token in a written tree.\<close>

definition delim :: "string \<Rightarrow> bool" where
  "delim w \<longleftrightarrow> w = [] \<or> hd w = CHR '' '' \<or> hd w = CHR '')''"

lemma delim_simps [simp]: "delim []" "delim (CHR '' '' # w)" "delim (CHR '')'' # w)"
  by (simp_all add: delim_def)

lemma delim_ident: "delim w \<Longrightarrow> w = [] \<or> \<not> isIdentChar (hd w)"
  by (auto simp: delim_def isIdentChar_def isIdentStart_def is_digit_def code_def)

lemma delim_num: "delim w \<Longrightarrow> w = [] \<or> \<not> num_char (hd w)"
  by (auto simp: delim_def num_char_def is_digit_def code_def)

lemma lex_blank: "lex_next (CHR '' '' # w) = lex_next w"
proof -
  have "is_blank CHR '' ''" by (simp add: is_blank_def code_def)
  then have "dropWhile is_blank (CHR '' '' # w) = dropWhile is_blank w" by simp
  then show ?thesis by (simp only: lex_next_def)
qed

lemma ident_start_plain: "isIdentStart c \<Longrightarrow> \<not> is_blank c \<and> c \<notin> set ''()!<>=&|'' \<and> \<not> is_digit c"
  by (auto simp: isIdentStart_def is_blank_def is_digit_def code_def)

lemma digit_plain: "is_digit c \<Longrightarrow> \<not> is_blank c \<and> c \<notin> set ''()!<>=&|''"
  by (auto simp: is_blank_def is_digit_def code_def)

lemma lex_word:
  assumes "isIdentStart c" "list_all isIdentChar u" "delim w"
  shows "lex_next (c # u @ w) = (\<lparr>t_kind = T_Ident, t_text = c # u, t_num = 0\<rparr>, w)"
proof -
  have c: "\<not> is_blank c" "c \<notin> set ''()!<>=&|''" "\<not> is_digit c" using ident_start_plain [OF assms(1)] by simp_all
  have all: "\<And>d. d \<in> set (c # u) \<Longrightarrow> isIdentChar d"
    using assms(1,2) by (auto simp: list_all_iff identStart_char)
  have "dropWhile is_blank (c # u @ w) = c # u @ w" using c by simp
  from lex_next_cons [OF this]
  have "lex_next (c # u @ w) =
      (\<lparr>t_kind = T_Ident, t_text = takeWhile isIdentChar ((c # u) @ w), t_num = 0\<rparr>, dropWhile isIdentChar ((c # u) @ w))"
    using c assms(1) by (simp only: if_False if_True append_Cons)
  then show ?thesis using span_digits [of "c # u" isIdentChar w] all delim_ident [OF assms(3)] by simp
qed

lemma lex_numeral:
  assumes "is_digit c" "list_all num_char u" "delim w"
  shows "lex_next (c # u @ w) = (lex_number (c # u), w)"
proof -
  have c: "\<not> is_blank c" "c \<notin> set ''()!<>=&|''" using digit_plain [OF assms(1)] by simp_all
  have all: "\<And>d. d \<in> set (c # u) \<Longrightarrow> num_char d"
    using assms(1,2) by (auto simp: list_all_iff digit_num_char)
  have "dropWhile is_blank (c # u @ w) = c # u @ w" using c by simp
  from lex_next_cons [OF this]
  have "lex_next (c # u @ w) = (lex_number (takeWhile num_char ((c # u) @ w)), dropWhile num_char ((c # u) @ w))"
    using c assms(1) by (simp only: if_False if_True append_Cons)
  then show ?thesis using span_digits [of "c # u" num_char w] all delim_num [OF assms(3)] by simp
qed

lemma lex_open: "lex_next (CHR ''('' # w) = (punct ''('', w)"
proof -
  have "dropWhile is_blank (CHR ''('' # w) = CHR ''('' # w" by (simp add: is_blank_def code_def)
  from lex_next_cons [OF this] show ?thesis by (cases w) (simp_all add: lex_punct_def)
qed

lemma lex_close: "lex_next (CHR '')'' # w) = (punct '')'', w)"
proof -
  have "dropWhile is_blank (CHR '')'' # w) = CHR '')'' # w" by (simp add: is_blank_def code_def)
  from lex_next_cons [OF this] show ?thesis by (cases w) (simp_all add: lex_punct_def)
qed

lemma lex_op: "lex_next (op_text cop @ CHR '' '' # w) = (punct (op_text cop), CHR '' '' # w)"
proof -
  obtain c u where c: "op_text cop = c # u" "\<not> is_blank c" "c \<in> set ''()!<>=&|''"
    by (cases cop) (simp_all add: is_blank_def code_def)
  have "dropWhile is_blank (op_text cop @ CHR '' '' # w) = c # u @ CHR '' '' # w" using c by simp
  from lex_next_cons [OF this] c(3)
  have "lex_next (op_text cop @ CHR '' '' # w) = lex_punct c (u @ CHR '' '' # w)" by (simp only: if_True)
  moreover have "lex_punct c (u @ CHR '' '' # w) = (punct (op_text cop), CHR '' '' # w)"
    using c(1) by (cases cop) (auto simp: lex_punct_def)
  ultimately show ?thesis by simp
qed

subsection \<open>Numbers and addresses\<close>

lemma show_nat_cons: obtains c u where "show_nat n = c # u" "is_digit c" "list_all is_digit u"
proof -
  obtain c u where s: "show_nat n = c # u" by (cases "show_nat n") auto
  have "\<And>d. d \<in> set (c # u) \<Longrightarrow> is_digit d" unfolding s [symmetric] by (rule show_nat_digits)
  then show ?thesis using s by (intro that) (auto simp: list_all_iff)
qed

lemma not_digit_dot [simp]: "\<not> is_digit CHR ''.''"
  by (simp add: is_digit_def code_def)

lemma scan_u_show:
  assumes "w = [] \<or> \<not> is_digit (hd w)"
  shows "scan_u (show_nat (unat v) @ w) = Some (v, w)"
proof -
  have d: "\<And>c. c \<in> set (show_nat (unat v)) \<Longrightarrow> is_digit c" by (rule show_nat_digits)
  obtain c u where s: "show_nat (unat v) = c # u" by (cases "show_nat (unat v)") auto
  have "takeWhile is_digit (show_nat (unat v) @ w) = show_nat (unat v)" "dropWhile is_digit (show_nat (unat v) @ w) = w"
    using span_digits [of "show_nat (unat v)" is_digit w] d assms by simp_all
  then show ?thesis using strtoul32_show [of v] unfolding scan_u_def s by (simp only: list.case)
qed

lemma octet_le: "octet k a \<le> 255"
  unfolding octet_def by (metis word_and_le1)

lemma bit_octet: "bit (octet k a) j \<longleftrightarrow> j < 8 \<and> bit a (k + j)"
proof -
  have "octet k a = take_bit 8 (drop_bit k a)"
    by (simp add: octet_def take_bit_eq_mask mask_eq_exp_minus_1)
  then show ?thesis by (auto simp: bit_take_bit_iff bit_drop_bit_eq)
qed

lemma octets_join: "push_bit 24 (octet 24 a) OR push_bit 16 (octet 16 a) OR push_bit 8 (octet 8 a) OR octet 0 a = a"
proof (rule bit_word_eqI)
  fix n assume n: "n < LENGTH(32)"
  consider "n < 8" | "8 \<le> n" "n < 16" | "16 \<le> n" "n < 24" | "24 \<le> n" by linarith
  then show "bit (push_bit 24 (octet 24 a) OR push_bit 16 (octet 16 a) OR push_bit 8 (octet 8 a) OR octet 0 a) n = bit a n"
    using n by cases (auto simp: bit_or_iff bit_push_bit_iff bit_octet)
qed

lemma parseIPv4_formatAddr [simp]: "parseIPv4 (formatAddr a) = Some a"
proof -
  have le: "\<not> 255 < octet k a" for k using octet_le [of k a] by simp
  have d: "\<And>w. CHR ''.'' # w = [] \<or> \<not> is_digit (hd (CHR ''.'' # w))" by simp
  show ?thesis
    by (simp add: parseIPv4_def formatAddr_def scan_u_show scan_u_show [where w = "[]", simplified] scan_dot_def le octets_join)
qed

lemma formatAddr_cons: obtains c u where "formatAddr a = c # u" "is_digit c" "list_all num_char u"
proof -
  obtain c u where s: "show_nat (unat (octet 24 a)) = c # u" "is_digit c" "list_all is_digit u" by (rule show_nat_cons)
  have dots: "list_all num_char (show_nat n)" for n
    by (auto simp: list_all_iff intro: digit_num_char show_nat_digits)
  have u: "list_all num_char u" using s(3) by (auto simp: list_all_iff digit_num_char)
  have "num_char CHR ''.''" by (simp add: num_char_def)
  then show ?thesis using s u dots by (intro that [of c "u @ drop (length (c # u)) (formatAddr a)"]) (simp_all add: formatAddr_def)
qed

lemma lex_number_show: "lex_number (show_nat (unat v)) = \<lparr>t_kind = T_Number, t_text = show_nat (unat v), t_num = v\<rparr>"
proof -
  have "CHR ''.'' \<notin> set (show_nat (unat v))" using show_nat_digits not_digit_dot by blast
  then show ?thesis by (simp add: lex_number_def)
qed

lemma lex_number_addr: "lex_number (formatAddr a) = \<lparr>t_kind = T_IPv4, t_text = formatAddr a, t_num = a\<rparr>"
proof -
  have "CHR ''.'' \<in> set (formatAddr a)" by (simp add: formatAddr_def)
  then show ?thesis by (simp add: lex_number_def)
qed

lemma lex_value:
  assumes "delim w"
  shows "lex_next (value_text fld v @ w) =
    (\<lparr>t_kind = if fld = F_IP_SRC \<or> fld = F_IP_DST then T_IPv4 else T_Number, t_text = value_text fld v, t_num = v\<rparr>, w)"
proof (cases "fld = F_IP_SRC \<or> fld = F_IP_DST")
  case True
  obtain c u where s: "formatAddr v = c # u" "is_digit c" "list_all num_char u" by (rule formatAddr_cons)
  have "lex_next (formatAddr v @ w) = (lex_number (formatAddr v), w)"
    unfolding s(1) using lex_numeral [OF s(2,3) assms] by simp
  then show ?thesis using True by (simp add: value_text_def lex_number_addr)
next
  case False
  obtain c u where s: "show_nat (unat v) = c # u" "is_digit c" "list_all is_digit u" by (rule show_nat_cons)
  have "list_all num_char u" using s(3) by (auto simp: list_all_iff digit_num_char)
  from lex_numeral [OF s(2) this assms]
  have "lex_next (show_nat (unat v) @ w) = (lex_number (show_nat (unat v)), w)" unfolding s(1) by simp
  then show ?thesis using False by (simp add: value_text_def lex_number_show)
qed

subsection \<open>Names\<close>

lemma kw_found: "table_find (kw_text k) keyword_table = Some (kw_kind k)"
  by (induct k; simp add: keyword_table_def stricmp_eq_def lower_char_def code_def)

lemma field_not_keyword: "table_find (field_text fld) keyword_table = None"
  by (induct fld; simp add: keyword_table_def protos_def field_table_def lookupField_def stricmp_eq_def lower_char_def code_def)

lemma field_not_proto: "table_find (field_text fld) protos = None"
  by (induct fld; simp add: keyword_table_def protos_def field_table_def lookupField_def stricmp_eq_def lower_char_def code_def)

lemma field_lookup: "lookupField (field_text fld) = Some fld"
  by (induct fld; simp add: keyword_table_def protos_def field_table_def lookupField_def stricmp_eq_def lower_char_def code_def)

lemmas field_found = field_not_keyword field_not_proto field_lookup

lemma op_found: "lookupOp (op_text cop) = Some cop"
  by (cases cop) (simp_all add: lookupOp_def)

text \<open>The words \<^verbatim>\<open>not\<close>, \<^verbatim>\<open>and\<close> and \<^verbatim>\<open>or\<close> are none of these.\<close>

lemma kw_not_operator: "\<not> stricmp_eq (kw_text k) ''not''"
  by (induct k; code_simp)

lemma field_not_operator: "\<not> stricmp_eq (field_text fld) ''not''"
  by (induct fld; simp add: keyword_table_def protos_def field_table_def lookupField_def stricmp_eq_def lower_char_def code_def)

lemma lex_kw: "delim w \<Longrightarrow> lex_next (kw_text k @ w) = (\<lparr>t_kind = T_Ident, t_text = kw_text k, t_num = 0\<rparr>, w)"
proof -
  assume w: "delim w"
  obtain c u where c: "kw_text k = c # u" by (cases k) simp_all
  have "isIdentStart (hd (kw_text k)) \<and> list_all isIdentChar (tl (kw_text k))" by (induct k; code_simp)
  then have "isIdentStart c" "list_all isIdentChar u" by (simp_all add: c)
  then show ?thesis using lex_word [of c u w] w by (simp add: c)
qed

lemma lex_field: "delim w \<Longrightarrow> lex_next (field_text k @ w) = (\<lparr>t_kind = T_Ident, t_text = field_text k, t_num = 0\<rparr>, w)"
proof -
  assume w: "delim w"
  obtain c u where c: "field_text k = c # u" by (cases k) simp_all
  have "isIdentStart (hd (field_text k)) \<and> list_all isIdentChar (tl (field_text k))" by (induct k; code_simp)
  then have "isIdentStart c" "list_all isIdentChar u" by (simp_all add: c)
  then show ?thesis using lex_word [of c u w] w by (simp add: c)
qed

lemma lex_operator:
  assumes "u \<in> {''not'', ''and'', ''or''}" "delim w"
  shows "lex_next (u @ w) = (\<lparr>t_kind = T_Ident, t_text = u, t_num = 0\<rparr>, w)"
proof -
  obtain c v where c: "u = c # v" using assms(1) by auto
  have "isIdentStart (hd ''not'') \<and> list_all isIdentChar (tl ''not'') \<and>
    isIdentStart (hd ''and'') \<and> list_all isIdentChar (tl ''and'') \<and>
    isIdentStart (hd ''or'') \<and> list_all isIdentChar (tl ''or'')" by code_simp
  then have "isIdentStart c" "list_all isIdentChar v" using assms(1) by (auto simp: c)
  then show ?thesis using lex_word [of c v w] assms(2) by (simp add: c)
qed

subsection \<open>Runs of the parser, whatever the fuel\<close>

definition runsOr :: "pstate \<Rightarrow> int \<times> pstate \<Rightarrow> bool" where
  "runsOr s r \<longleftrightarrow> (\<exists>k. parseOr k s = Some r)"

definition runsOrLoop :: "int \<Rightarrow> pstate \<Rightarrow> int \<times> pstate \<Rightarrow> bool" where
  "runsOrLoop n s r \<longleftrightarrow> (\<exists>k. orLoop k n s = Some r)"

definition runsAnd :: "pstate \<Rightarrow> int \<times> pstate \<Rightarrow> bool" where
  "runsAnd s r \<longleftrightarrow> (\<exists>k. parseAnd k s = Some r)"

definition runsAndLoop :: "int \<Rightarrow> pstate \<Rightarrow> int \<times> pstate \<Rightarrow> bool" where
  "runsAndLoop n s r \<longleftrightarrow> (\<exists>k. andLoop k n s = Some r)"

definition runsNot :: "pstate \<Rightarrow> int \<times> pstate \<Rightarrow> bool" where
  "runsNot s r \<longleftrightarrow> (\<exists>k. parseNot k s = Some r)"

lemmas runs_defs = runsOr_def runsOrLoop_def runsAnd_def runsAndLoop_def runsNot_def

lemma more_fuel:
  "parseOr k s = Some r \<Longrightarrow> parseOr (k + d) s = Some r"
  "orLoop k n s = Some r \<Longrightarrow> orLoop (k + d) n s = Some r"
  "parseAnd k s = Some r \<Longrightarrow> parseAnd (k + d) s = Some r"
  "andLoop k n s = Some r \<Longrightarrow> andLoop (k + d) n s = Some r"
  "parseNot k s = Some r \<Longrightarrow> parseNot (k + d) s = Some r"
  by (erule belowD [OF parse_mono(1)] belowD [OF parse_mono(2)] belowD [OF parse_mono(3)]
      belowD [OF parse_mono(4)] belowD [OF parse_mono(5)])+

lemma runsOr_step:
  assumes "runsAnd s (n, s')" "0 \<le> n" "runsOrLoop n s' r" shows "runsOr s r"
proof -
  obtain a b where ab: "parseAnd a s = Some (n, s')" "orLoop b n s' = Some r" using assms by (auto simp: runs_defs)
  have "parseAnd (a + b) s = Some (n, s')" "orLoop (a + b) n s' = Some r"
    using more_fuel(3) [OF ab(1), of b] more_fuel(2) [OF ab(2), of a] by (simp_all add: add.commute)
  then have "parseOr (Suc (a + b)) s = Some r" using assms(2) by simp
  then show ?thesis unfolding runs_defs by (rule exI)
qed

lemma runsAnd_step:
  assumes "runsNot s (n, s')" "0 \<le> n" "runsAndLoop n s' r" shows "runsAnd s r"
proof -
  obtain a b where ab: "parseNot a s = Some (n, s')" "andLoop b n s' = Some r" using assms by (auto simp: runs_defs)
  have "parseNot (a + b) s = Some (n, s')" "andLoop (a + b) n s' = Some r"
    using more_fuel(5) [OF ab(1), of b] more_fuel(4) [OF ab(2), of a] by (simp_all add: add.commute)
  then have "parseAnd (Suc (a + b)) s = Some r" using assms(2) by simp
  then show ?thesis unfolding runs_defs by (rule exI)
qed

lemma runsOrLoop_step:
  assumes or: "isIdent s ''or'' \<or> isPunct s ''||''" and run: "runsAnd (advance s) (m, s')" "0 \<le> m"
    and add: "add_node ((mk_node N_OR)\<lparr>n_left := n, n_right := m\<rparr>) s' = (q, s'')" and go: "runsOrLoop q s'' r"
  shows "runsOrLoop n s r"
proof -
  obtain a b where ab: "parseAnd a (advance s) = Some (m, s')" "orLoop b q s'' = Some r"
    using run go by (auto simp: runs_defs)
  have "parseAnd (a + b) (advance s) = Some (m, s')" "orLoop (a + b) q s'' = Some r"
    using more_fuel(3) [OF ab(1), of b] more_fuel(2) [OF ab(2), of a] by (simp_all add: add.commute)
  then have "orLoop (Suc (a + b)) n s = Some r" using or run(2) add by simp
  then show ?thesis unfolding runs_defs by (rule exI)
qed

lemma runsAndLoop_step:
  assumes an: "isIdent s ''and'' \<or> isPunct s ''&&''" and run: "runsNot (advance s) (m, s')" "0 \<le> m"
    and add: "add_node ((mk_node N_AND)\<lparr>n_left := n, n_right := m\<rparr>) s' = (q, s'')" and go: "runsAndLoop q s'' r"
  shows "runsAndLoop n s r"
proof -
  obtain a b where ab: "parseNot a (advance s) = Some (m, s')" "andLoop b q s'' = Some r"
    using run go by (auto simp: runs_defs)
  have "parseNot (a + b) (advance s) = Some (m, s')" "andLoop (a + b) q s'' = Some r"
    using more_fuel(5) [OF ab(1), of b] more_fuel(4) [OF ab(2), of a] by (simp_all add: add.commute)
  then have "andLoop (Suc (a + b)) n s = Some r" using an run(2) add by simp
  then show ?thesis unfolding runs_defs by (rule exI)
qed

lemma runsOrLoop_stop: "\<not> (isIdent s ''or'' \<or> isPunct s ''||'') \<Longrightarrow> runsOrLoop n s (n, s)"
  unfolding runs_defs by (rule exI [of _ 1]) simp

lemma runsAndLoop_stop: "\<not> (isIdent s ''and'' \<or> isPunct s ''&&'') \<Longrightarrow> runsAndLoop n s (n, s)"
  unfolding runs_defs by (rule exI [of _ 1]) simp

lemma runsNot_not:
  assumes "isIdent s ''not'' \<or> isPunct s ''!''" "runsNot (advance s) (n, s')" "0 \<le> n"
  shows "runsNot s (add_node ((mk_node N_NOT)\<lparr>n_left := n\<rparr>) s')"
proof -
  obtain a where "parseNot a (advance s) = Some (n, s')" using assms by (auto simp: runs_defs)
  then have "parseNot (Suc a) s = Some (add_node ((mk_node N_NOT)\<lparr>n_left := n\<rparr>) s')" using assms by simp
  then show ?thesis unfolding runs_defs by (rule exI)
qed

lemma runsNot_word:
  assumes "\<not> isIdent s ''not''" "\<not> isPunct s ''!''" "\<not> isPunct s ''(''"
  shows "runsNot s (parseWord s)"
  unfolding runs_defs by (rule exI [of _ 2]) (simp add: assms numeral_2_eq_2)

lemma runsNot_bracket:
  assumes "isPunct s ''(''" "runsOr (advance s) (n, s')" "0 \<le> n" "isPunct s' '')''"
  shows "runsNot s (n, advance s')"
proof -
  obtain a where a: "parseOr a (advance s) = Some (n, s')" using assms by (auto simp: runs_defs)
  have "\<not> isIdent s ''not''" "\<not> isPunct s ''!''" using assms(1) by (simp_all add: isIdent_def isPunct_def)
  then have "parseNot (Suc (Suc a)) s = Some (n, advance s')" using assms a by simp
  then show ?thesis unfolding runs_defs by (rule exI)
qed

subsection \<open>Parsing what was written\<close>

text \<open>The parser standing in front of a text: its first token is read.\<close>

definition at_text :: "string \<Rightarrow> pstate \<Rightarrow> pstate" where
  "at_text w s = advance (s\<lparr>p_rest := w\<rparr>)"

lemma at_text_simps [simp]: "p_nodes (at_text w s) = p_nodes s" "p_err (at_text w s) = p_err s"
  by (simp_all add: at_text_def)

lemma at_text_again [simp]: "at_text w (at_text u s) = at_text w s"
  by (cases s; cases "lex_next u"; cases "lex_next w") (simp add: at_text_def advance_def)

lemma at_text_nodes [simp]: "(at_text w s)\<lparr>p_nodes := ns\<rparr> = at_text w (s\<lparr>p_nodes := ns\<rparr>)"
  by (cases s; cases "lex_next w") (simp add: at_text_def advance_def)

lemma at_text_again_nodes [simp]: "at_text w ((at_text u s)\<lparr>p_nodes := ns\<rparr>) = at_text w (s\<lparr>p_nodes := ns\<rparr>)"
  by simp

lemma at_text_lex:
  assumes "lex_next u = (t, w)"
  shows "p_cur (at_text u s) = t" "advance (at_text u s) = at_text w s"
  using assms by (cases s; simp add: at_text_def advance_def)+

lemma at_text_blank [simp]: "at_text (CHR '' '' # w) s = at_text w s"
  by (simp add: at_text_def advance_def lex_blank)

definition opens_not :: "string \<Rightarrow> string \<Rightarrow> string \<Rightarrow> bool" where
  "opens_not w kw pn \<longleftrightarrow> (let t = fst (lex_next w) in
     \<not> (t_kind t = T_Ident \<and> stricmp_eq (t_text t) kw \<or> t_kind t = T_Punct \<and> t_text t = pn))"

lemma opens_notD: "opens_not w kw pn \<Longrightarrow> \<not> (isIdent (at_text w s) kw \<or> isPunct (at_text w s) pn)"
  by (cases "lex_next w") (simp add: opens_not_def isIdent_def isPunct_def at_text_lex)

lemma opens_not_close [simp]: "opens_not (CHR '')'' # w) ''and'' ''&&''" "opens_not (CHR '')'' # w) ''or'' ''||''"
  by (simp_all add: opens_not_def lex_close Let_def)

lemma opens_not_end [simp]: "opens_not [] kw pn"
  by (simp add: opens_not_def lex_next_end Let_def)

lemma opens_not_or: "delim w \<Longrightarrow> opens_not (CHR '' '' # ''or'' @ w) ''and'' ''&&''"
  using lex_operator [of "''or''" w]
  by (simp add: opens_not_def lex_blank Let_def stricmp_eq_def lower_char_def code_def)

text \<open>The state after a tree has been read, and the index of its root.\<close>

definition after_tree :: "fexpr \<Rightarrow> string \<Rightarrow> pstate \<Rightarrow> pstate" where
  "after_tree e w s = at_text w (s\<lparr>p_nodes := p_nodes s @ tree_nodes e (length (p_nodes s))\<rparr>)"

definition root_index :: "fexpr \<Rightarrow> pstate \<Rightarrow> int" where
  "root_index e s = int (length (p_nodes s) + length (tree_nodes e (length (p_nodes s)))) - 1"

lemma root_index_nonneg: "0 \<le> root_index e s"
proof -
  have "0 < length (tree_nodes e (length (p_nodes s)))" by simp
  then show ?thesis unfolding root_index_def by linarith
qed

lemma root_index_at [simp]: "root_index e (at_text w s) = root_index e s"
  by (simp add: root_index_def)

text \<open>A tree that is a single primary or a negation is what \<open>parseNot\<close> reads; from there upwards.\<close>

lemma and_of_not:
  assumes "runsNot (at_text (print_at e 2 @ w) s) (root_index e s, after_tree e w s)" "print_at e 1 = print_at e 2"
    "runsAndLoop (root_index e s) (after_tree e w s) r"
  shows "runsAnd (at_text (print_at e 1 @ w) s) r"
  using runsAnd_step [OF assms(1) root_index_nonneg assms(3)] assms(2) by simp

lemma or_of_and:
  assumes and1: "\<And>r. runsAndLoop (root_index e s) (after_tree e w s) r \<Longrightarrow> runsAnd (at_text (print_at e 1 @ w) s) r"
    and eq: "print_at e 0 = print_at e 1" and w: "opens_not w ''and'' ''&&''"
    and go: "runsOrLoop (root_index e s) (after_tree e w s) r"
  shows "runsOr (at_text (print_at e 0 @ w) s) r"
proof -
  have "runsAndLoop (root_index e s) (after_tree e w s) (root_index e s, after_tree e w s)"
    unfolding after_tree_def by (rule runsAndLoop_stop) (rule opens_notD [OF w])
  from runsOr_step [OF and1 [OF this] root_index_nonneg go] show ?thesis by (simp add: eq)
qed

lemma bracket_of_or:
  assumes or0: "\<And>w r. delim w \<Longrightarrow> opens_not w ''and'' ''&&'' \<Longrightarrow> runsOrLoop (root_index e s) (after_tree e w s) r \<Longrightarrow>
      runsOr (at_text (print_at e 0 @ w) s) r"
    and eq: "print_at e 2 = ''('' @ print_at e 0 @ '')''"
  shows "runsNot (at_text (print_at e 2 @ w) s) (root_index e s, after_tree e w s)"
proof -
  let ?w = "CHR '')'' # w"
  have lex: "lex_next (print_at e 2 @ w) = (punct ''('', print_at e 0 @ ?w)"
    using lex_open [of "print_at e 0 @ ?w"] by (simp add: eq)
  have "runsOrLoop (root_index e s) (after_tree e ?w s) (root_index e s, after_tree e ?w s)"
    unfolding after_tree_def by (rule runsOrLoop_stop) (rule opens_notD, simp)
  then have or: "runsOr (advance (at_text (print_at e 2 @ w) s)) (root_index e s, after_tree e ?w s)"
    unfolding at_text_lex(2) [OF lex] by (intro or0) simp_all
  have close: "p_cur (after_tree e ?w s) = punct '')''" "advance (after_tree e ?w s) = after_tree e w s"
    unfolding after_tree_def by (simp_all add: at_text_lex [OF lex_close])
  have "runsNot (at_text (print_at e 2 @ w) s) (root_index e s, advance (after_tree e ?w s))"
    by (rule runsNot_bracket [OF _ or root_index_nonneg]) (simp_all add: isPunct_def at_text_lex(1) [OF lex] close)
  then show ?thesis by (simp add: close)
qed

lemma parse_keyword:
  assumes "delim w"
  shows "runsNot (at_text (kw_text k @ w) s) (root_index (FKey k) s, after_tree (FKey k) w s)"
proof -
  note cur = at_text_lex [OF lex_kw [OF assms, of k], of s]
  have "parseWord (at_text (kw_text k @ w) s) = (root_index (FKey k) s, after_tree (FKey k) w s)"
    by (simp add: parseWord_def cur kw_found add_node_def root_index_def after_tree_def)
  then show ?thesis using runsNot_word [of "at_text (kw_text k @ w) s"] kw_not_operator [of k]
    by (simp add: isIdent_def isPunct_def cur)
qed

lemma parse_comparison:
  assumes "delim w"
  shows "runsNot (at_text (print_at (FCmp fld cop v) 2 @ w) s) (root_index (FCmp fld cop v) s, after_tree (FCmp fld cop v) w s)"
proof -
  let ?v = "CHR '' '' # value_text fld v @ w"
  let ?o = "CHR '' '' # op_text cop @ ?v"
  have f: "lex_next (field_text fld @ ?o) = (\<lparr>t_kind = T_Ident, t_text = field_text fld, t_num = 0\<rparr>, ?o)"
    by (rule lex_field) simp
  have o': "lex_next (op_text cop @ ?v) = (punct (op_text cop), ?v)" by (rule lex_op)
  note cur = at_text_lex [OF f, of s] at_text_lex [OF o', of s] at_text_lex [OF lex_value [OF assms, of fld v], of s]
  have "parseCmp (at_text (field_text fld @ ?o) s) = (root_index (FCmp fld cop v) s, after_tree (FCmp fld cop v) w s)"
    by (simp add: parseCmp_def cur field_found op_found add_node_def root_index_def after_tree_def Let_def)
  then have "parseWord (at_text (field_text fld @ ?o) s) = (root_index (FCmp fld cop v) s, after_tree (FCmp fld cop v) w s)"
    by (simp add: parseWord_def cur field_found)
  then show ?thesis using runsNot_word [of "at_text (field_text fld @ ?o) s"] field_not_operator [of fld]
    by (simp add: isIdent_def isPunct_def cur)
qed

text \<open>The three levels of the grammar, for one tree.\<close>

definition reads_back :: "fexpr \<Rightarrow> bool" where
  "reads_back e \<longleftrightarrow> (\<forall>s w. delim w \<longrightarrow>
     runsNot (at_text (print_at e 2 @ w) s) (root_index e s, after_tree e w s) \<and>
     (\<forall>r. runsAndLoop (root_index e s) (after_tree e w s) r \<longrightarrow> runsAnd (at_text (print_at e 1 @ w) s) r) \<and>
     (\<forall>r. opens_not w ''and'' ''&&'' \<longrightarrow> runsOrLoop (root_index e s) (after_tree e w s) r \<longrightarrow>
        runsOr (at_text (print_at e 0 @ w) s) r))"

lemma reads_backD:
  assumes "reads_back e" "delim w"
  shows "runsNot (at_text (print_at e 2 @ w) s) (root_index e s, after_tree e w s)"
    "runsAndLoop (root_index e s) (after_tree e w s) r \<Longrightarrow> runsAnd (at_text (print_at e 1 @ w) s) r"
    "opens_not w ''and'' ''&&'' \<Longrightarrow> runsOrLoop (root_index e s) (after_tree e w s) r \<Longrightarrow>
      runsOr (at_text (print_at e 0 @ w) s) r"
  using assms unfolding reads_back_def by blast+

lemma reads_back_primary:
  assumes "\<And>s w. delim w \<Longrightarrow> runsNot (at_text (print_at e 2 @ w) s) (root_index e s, after_tree e w s)"
    "print_at e 1 = print_at e 2" "print_at e 0 = print_at e 2"
  shows "reads_back e"
  unfolding reads_back_def
proof (intro allI impI conjI)
  fix s w r assume w: "delim w"
  show n: "runsNot (at_text (print_at e 2 @ w) s) (root_index e s, after_tree e w s)" by (rule assms(1) [OF w])
  show a: "runsAndLoop (root_index e s) (after_tree e w s) r \<Longrightarrow> runsAnd (at_text (print_at e 1 @ w) s) r" for r
    by (rule and_of_not [OF n assms(2)])
  show "opens_not w ''and'' ''&&'' \<Longrightarrow> runsOrLoop (root_index e s) (after_tree e w s) r \<Longrightarrow> runsOr (at_text (print_at e 0 @ w) s) r"
    using assms(2,3) by (intro or_of_and [OF a]) simp_all
qed

lemma reads_back_not:
  assumes a: "reads_back a" shows "reads_back (FNot a)"
proof (rule reads_back_primary)
  fix s w assume w: "delim w"
  let ?u = "CHR '' '' # print_at a 2 @ w"
  have lex: "lex_next (print_at (FNot a) 2 @ w) = (\<lparr>t_kind = T_Ident, t_text = ''not'', t_num = 0\<rparr>, ?u)"
    using lex_operator [of "''not''" ?u] by simp
  note cur = at_text_lex [OF lex, of s]
  have "runsNot (advance (at_text (print_at (FNot a) 2 @ w) s)) (root_index a s, after_tree a w s)"
    unfolding cur(2) using reads_backD(1) [OF a w] by simp
  from runsNot_not [OF _ this root_index_nonneg]
  have "runsNot (at_text (print_at (FNot a) 2 @ w) s)
      (add_node ((mk_node N_NOT)\<lparr>n_left := root_index a s\<rparr>) (after_tree a w s))"
    by (simp only: isIdent_def cur(1)) simp
  then show "runsNot (at_text (print_at (FNot a) 2 @ w) s) (root_index (FNot a) s, after_tree (FNot a) w s)"
    by (simp add: add_node_def after_tree_def root_index_def Let_def)
qed simp_all

text \<open>What a loop does with an operator, its right operand and the node for them.\<close>

lemma binary_after:
  assumes "na = tree_nodes a (length (p_nodes s))" "nb = tree_nodes b (length (p_nodes s) + length na)"
    "s1 = s\<lparr>p_nodes := p_nodes s @ na\<rparr>"
  shows "add_node n (after_tree b w s1) = (int (length (p_nodes s) + length na + length nb), at_text w (s\<lparr>p_nodes := p_nodes s @ na @ nb @ [n]\<rparr>))"
    "root_index b s1 = int (length (p_nodes s) + length na + length nb) - 1"
    "root_index a s = int (length (p_nodes s) + length na) - 1"
  using assms by (simp_all add: add_node_def after_tree_def root_index_def)

lemma binary_tree:
  assumes "na = tree_nodes a (length (p_nodes s))" "nb = tree_nodes b (length (p_nodes s) + length na)"
    "s1 = s\<lparr>p_nodes := p_nodes s @ na\<rparr>"
  shows "root_index (FOr a b) s = int (length (p_nodes s) + length na + length nb)"
    "root_index (FAnd a b) s = int (length (p_nodes s) + length na + length nb)"
    "after_tree (FOr a b) w s = at_text w (s\<lparr>p_nodes := p_nodes s @ na @ nb @
       [(mk_node N_OR)\<lparr>n_left := root_index a s, n_right := root_index b s1\<rparr>]\<rparr>)"
    "after_tree (FAnd a b) w s = at_text w (s\<lparr>p_nodes := p_nodes s @ na @ nb @
       [(mk_node N_AND)\<lparr>n_left := root_index a s, n_right := root_index b s1\<rparr>]\<rparr>)"
  unfolding binary_after [OF assms]
  using assms by (simp_all add: after_tree_def root_index_def Let_def)

lemma read_or:
  assumes a: "reads_back a" and b: "reads_back b" and w: "delim w" "opens_not w ''and'' ''&&''"
    and go: "runsOrLoop (root_index (FOr a b) s) (after_tree (FOr a b) w s) r"
  shows "runsOr (at_text (print_at (FOr a b) 0 @ w) s) r"
proof -
  let ?u = "CHR '' '' # print_at b 1 @ w"
  let ?o = "CHR '' '' # ''or'' @ ?u"
  define na where "na = tree_nodes a (length (p_nodes s))"
  define nb where "nb = tree_nodes b (length (p_nodes s) + length na)"
  define s1 where "s1 = s\<lparr>p_nodes := p_nodes s @ na\<rparr>"
  note bin = binary_after [OF na_def nb_def s1_def]
  have lex: "lex_next ?o = (\<lparr>t_kind = T_Ident, t_text = ''or'', t_num = 0\<rparr>, ?u)"
    using lex_operator [of "''or''" ?u] by (simp add: lex_blank)
  have st: "after_tree a ?o s = at_text ?o s1" by (simp only: after_tree_def s1_def na_def)
  have bl: "runsAndLoop (root_index b s1) (after_tree b w s1) (root_index b s1, after_tree b w s1)"
    unfolding after_tree_def by (rule runsAndLoop_stop) (rule opens_notD [OF w(2)])
  have rb: "runsAnd (advance (at_text ?o s1)) (root_index b s1, after_tree b w s1)"
    unfolding at_text_lex(2) [OF lex] using reads_backD(2) [OF b w(1) bl] by simp
  have "runsOrLoop (root_index a s) (at_text ?o s1) r"
  proof (rule runsOrLoop_step [OF _ rb root_index_nonneg bin(1)])
    show "isIdent (at_text ?o s1) ''or'' \<or> isPunct (at_text ?o s1) ''||''"
      by (simp only: isIdent_def at_text_lex(1) [OF lex]) simp
    show "runsOrLoop (int (length (p_nodes s) + length na + length nb))
        (at_text w (s\<lparr>p_nodes := p_nodes s @ na @ nb @
           [(mk_node N_OR)\<lparr>n_left := root_index a s, n_right := root_index b s1\<rparr>]\<rparr>)) r"
      using go unfolding binary_tree [OF na_def nb_def s1_def] .
  qed
  then have "runsOr (at_text (print_at a 0 @ ?o) s) r"
    by (intro reads_backD(3) [OF a]) (simp_all only: st delim_simps opens_not_or)
  then show ?thesis by (simp add: bracket_def)
qed

lemma read_and:
  assumes a: "reads_back a" and b: "reads_back b" and w: "delim w"
    and go: "runsAndLoop (root_index (FAnd a b) s) (after_tree (FAnd a b) w s) r"
  shows "runsAnd (at_text (print_at (FAnd a b) 1 @ w) s) r"
proof -
  let ?u = "CHR '' '' # print_at b 2 @ w"
  let ?o = "CHR '' '' # ''and'' @ ?u"
  define na where "na = tree_nodes a (length (p_nodes s))"
  define nb where "nb = tree_nodes b (length (p_nodes s) + length na)"
  define s1 where "s1 = s\<lparr>p_nodes := p_nodes s @ na\<rparr>"
  note bin = binary_after [OF na_def nb_def s1_def]
  have lex: "lex_next ?o = (\<lparr>t_kind = T_Ident, t_text = ''and'', t_num = 0\<rparr>, ?u)"
    using lex_operator [of "''and''" ?u] by (simp add: lex_blank)
  have st: "after_tree a ?o s = at_text ?o s1" by (simp only: after_tree_def s1_def na_def)
  have rb: "runsNot (advance (at_text ?o s1)) (root_index b s1, after_tree b w s1)"
    unfolding at_text_lex(2) [OF lex] using reads_backD(1) [OF b w] by simp
  have "runsAndLoop (root_index a s) (at_text ?o s1) r"
  proof (rule runsAndLoop_step [OF _ rb root_index_nonneg bin(1)])
    show "isIdent (at_text ?o s1) ''and'' \<or> isPunct (at_text ?o s1) ''&&''"
      by (simp only: isIdent_def at_text_lex(1) [OF lex]) simp
    show "runsAndLoop (int (length (p_nodes s) + length na + length nb))
        (at_text w (s\<lparr>p_nodes := p_nodes s @ na @ nb @
           [(mk_node N_AND)\<lparr>n_left := root_index a s, n_right := root_index b s1\<rparr>]\<rparr>)) r"
      using go unfolding binary_tree [OF na_def nb_def s1_def] .
  qed
  then have "runsAnd (at_text (print_at a 1 @ ?o) s) r"
    by (intro reads_backD(2) [OF a]) (simp_all only: st delim_simps)
  then show ?thesis by (simp add: bracket_def)
qed

lemma reads_back_and:
  assumes a: "reads_back a" and b: "reads_back b" shows "reads_back (FAnd a b)"
proof -
  have up: "runsOr (at_text (print_at (FAnd a b) 0 @ w) s) r"
    if "delim w" "opens_not w ''and'' ''&&''" "runsOrLoop (root_index (FAnd a b) s) (after_tree (FAnd a b) w s) r" for s w r
    by (rule or_of_and [OF read_and [OF a b that(1)] _ that(2,3)]) (simp_all add: bracket_def)
  show ?thesis unfolding reads_back_def
  proof (intro allI impI conjI)
    fix s w assume w: "delim w"
    show "runsNot (at_text (print_at (FAnd a b) 2 @ w) s) (root_index (FAnd a b) s, after_tree (FAnd a b) w s)"
      by (rule bracket_of_or [OF up]) (simp_all add: bracket_def)
  qed (use up read_and [OF a b] in blast)+
qed

lemma reads_back_or:
  assumes a: "reads_back a" and b: "reads_back b" shows "reads_back (FOr a b)"
proof -
  note up = read_or [OF a b]
  have n: "runsNot (at_text (print_at (FOr a b) 2 @ w) s) (root_index (FOr a b) s, after_tree (FOr a b) w s)" for s w
    by (rule bracket_of_or [OF up]) (simp_all add: bracket_def)
  show ?thesis unfolding reads_back_def
  proof (intro allI impI conjI)
    fix s w r assume "delim w" "runsAndLoop (root_index (FOr a b) s) (after_tree (FOr a b) w s) r"
    then show "runsAnd (at_text (print_at (FOr a b) 1 @ w) s) r"
      by (intro and_of_not [OF n]) (simp_all add: bracket_def)
  qed (use up n in blast)+
qed

lemma reads_back_all: "reads_back e"
proof (induction e)
  case (FKey k)
  show ?case using parse_keyword by (intro reads_back_primary) simp_all
next
  case (FCmp fld cop v)
  show ?case by (rule reads_back_primary) (rule parse_comparison, simp_all)
qed (simp_all add: reads_back_not reads_back_and reads_back_or)

lemma parse_print_state:
  "parse_expr (print_at e 0) = Some (int (length (tree_nodes e 0)) - 1, after_tree e [] \<lparr>p_rest = [], p_cur = punct [], p_nodes = [], p_err = []\<rparr>)"
proof -
  let ?s = "\<lparr>p_rest = [], p_cur = punct [], p_nodes = [], p_err = []\<rparr>"
  let ?r = "(root_index e ?s, after_tree e [] ?s)"
  have init: "parser_init (print_at e 0) = at_text (print_at e 0) ?s" by (simp add: parser_init_def at_text_def)
  have "lex_next [] = (\<lparr>t_kind = T_End, t_text = [], t_num = 0\<rparr>, [])" by (simp add: lex_next_end)
  then have fin: "t_kind (p_cur (after_tree e [] ?s)) = T_End" unfolding after_tree_def by (simp add: at_text_lex(1))
  then have "runsOrLoop (root_index e ?s) (after_tree e [] ?s) ?r"
    by (intro runsOrLoop_stop) (simp add: isIdent_def isPunct_def)
  with reads_backD(3) [OF reads_back_all, of "[]" e ?s ?r]
  have "runsOr (parser_init (print_at e 0)) ?r" by (simp add: init)
  then obtain k where k: "parseOr k (parser_init (print_at e 0)) = Some ?r" by (auto simp: runsOr_def)
  have "returns (parser_init (print_at e 0)) (parseOr (parse_fuel (print_at e 0)) (parser_init (print_at e 0)))"
    by (rule parse_total(1)) (use parser_init_size [of "print_at e 0"] in \<open>simp_all add: parse_fuel_def\<close>)
  then obtain r where r: "parseOr (parse_fuel (print_at e 0)) (parser_init (print_at e 0)) = Some r" by (auto simp: returns_def)
  have "r = ?r" using more_fuel(1) [OF r, of k] more_fuel(1) [OF k, of "parse_fuel (print_at e 0)"]
    by (simp add: add.commute)
  then show ?thesis using r fin root_index_nonneg [of e ?s] by (simp add: parse_expr_def root_index_def)
qed

end
