(* ===== verification/Filter_Eval.thy ===== *)
theory Filter_Eval
  imports Filter_Tree Packet_Util
begin

unbundle bit_operations_syntax

text \<open>
  Evaluation of a compiled filter (\<^verbatim>\<open>src/src/filterexpr.cpp\<close>): \<^verbatim>\<open>extractFields\<close>, \<^verbatim>\<open>compare\<close>,
  \<^verbatim>\<open>evalNode\<close>, and the public \<^verbatim>\<open>filterCompile\<close> and \<^verbatim>\<open>filterMatch\<close>. \<open>feval\<close> is the meaning of an
  expression tree; \<open>evalNode\<close> follows indices through the program and is a partial function, since
  nothing in its type excludes a cycle. A compiled program is well founded, so on it the evaluation
  ends and is the meaning of some tree (\<open>eval_repr\<close>, \<open>wf_repr\<close>).
\<close>

subsection \<open>Fields of a packet\<close>

record packet_fields =
  valid :: bool
  isV4 :: bool
  srcAddr :: u32
  dstAddr :: u32
  protocol :: u32
  hasPorts :: bool
  srcPort :: u32
  dstPort :: u32

definition no_fields :: packet_fields where
  "no_fields = \<lparr>valid = False, isV4 = False, srcAddr = 0, dstAddr = 0, protocol = 0, hasPorts = False,
     srcPort = 0, dstPort = 0\<rparr>"

definition read32be :: "u8 list \<Rightarrow> nat \<Rightarrow> u32" where
  "read32be p i = push_bit 24 (ucast (p ! i)) OR push_bit 16 (ucast (p ! (i + 1))) OR
     push_bit 8 (ucast (p ! (i + 2))) OR ucast (p ! (i + 3))"

text \<open>The common end of the two address families: the ports, when there is room for them.\<close>

definition extract_ports :: "u8 list \<Rightarrow> nat \<Rightarrow> packet_fields \<Rightarrow> packet_fields" where
  "extract_ports p transportOffset f =
     (let f = (if (protocol f = 6 \<or> protocol f = 17) \<and> length p \<ge> transportOffset + 4
               then f\<lparr>hasPorts := True, srcPort := ucast (read16be p transportOffset),
                      dstPort := ucast (read16be p (transportOffset + 2))\<rparr>
               else f)
      in f\<lparr>valid := True\<rparr>)"

definition extractFields :: "u8 list \<Rightarrow> packet_fields \<Rightarrow> packet_fields" where
  "extractFields p f =
     (if length p < 20 then f
      else
        let version = drop_bit 4 (p ! 0) in
        if version = 4 then
          let ihl = unat (p ! 0 AND 0x0F) * 4 in
          if ihl < 20 \<or> length p < ihl then f
          else
            let f = f\<lparr>isV4 := True, protocol := ucast (p ! 9), srcAddr := read32be p 12, dstAddr := read32be p 16\<rparr> in
            if read16be p 6 AND 0x1FFF \<noteq> 0 then f\<lparr>valid := True\<rparr>
            else extract_ports p ihl f
        else if version = 6 then
          if length p < 40 then f
          else extract_ports p 40 (f\<lparr>isV4 := False, protocol := ucast (p ! 6)\<rparr>)
        else f)"

definition compare_op :: "u32 \<Rightarrow> cmp_op \<Rightarrow> u32 \<Rightarrow> bool" where
  "compare_op lhs cop rhs =
     (case cop of OP_NE \<Rightarrow> lhs \<noteq> rhs | OP_GT \<Rightarrow> lhs > rhs | OP_LT \<Rightarrow> lhs < rhs
      | OP_GE \<Rightarrow> lhs \<ge> rhs | OP_LE \<Rightarrow> lhs \<le> rhs | OP_EQ \<Rightarrow> lhs = rhs)"

text \<open>The comparison of one field, the inner switch of \<^verbatim>\<open>evalNode\<close>.\<close>

definition eval_cmp :: "field \<Rightarrow> cmp_op \<Rightarrow> u32 \<Rightarrow> packet_fields \<Rightarrow> bool" where
  "eval_cmp fld cop v f =
     (if \<not> valid f then False
      else case fld of
        F_IP_SRC \<Rightarrow> isV4 f \<and> compare_op (srcAddr f) cop v
      | F_IP_DST \<Rightarrow> isV4 f \<and> compare_op (dstAddr f) cop v
      | F_IP_PROTO \<Rightarrow> compare_op (protocol f) cop v
      | F_TCP_SRCPORT \<Rightarrow> hasPorts f \<and> protocol f = 6 \<and> compare_op (srcPort f) cop v
      | F_TCP_DSTPORT \<Rightarrow> hasPorts f \<and> protocol f = 6 \<and> compare_op (dstPort f) cop v
      | F_UDP_SRCPORT \<Rightarrow> hasPorts f \<and> protocol f = 17 \<and> compare_op (srcPort f) cop v
      | F_UDP_DSTPORT \<Rightarrow> hasPorts f \<and> protocol f = 17 \<and> compare_op (dstPort f) cop v)"

partial_function (option) evalNode :: "node list \<Rightarrow> int \<Rightarrow> packet_meta \<Rightarrow> packet_fields \<Rightarrow> bool option" where
  "evalNode prog idx mt f =
     (if idx < 0 \<or> idx \<ge> int (length prog) then Some False
      else let n = prog ! nat idx in
        case n_kind n of
          N_TRUE \<Rightarrow> Some True
        | N_FALSE \<Rightarrow> Some False
        | N_AND \<Rightarrow> Option.bind (evalNode prog (n_left n) mt f)
                     (\<lambda>a. if a then evalNode prog (n_right n) mt f else Some False)
        | N_OR \<Rightarrow> Option.bind (evalNode prog (n_left n) mt f)
                     (\<lambda>a. if a then Some True else evalNode prog (n_right n) mt f)
        | N_NOT \<Rightarrow> Option.bind (evalNode prog (n_left n) mt f) (\<lambda>a. Some (\<not> a))
        | N_OUTBOUND \<Rightarrow> Some (outbound mt)
        | N_INBOUND \<Rightarrow> Some (\<not> outbound mt)
        | N_LOOPBACK \<Rightarrow> Some (loopback mt)
        | N_IPV4 \<Rightarrow> Some (valid f \<and> isV4 f)
        | N_IPV6 \<Rightarrow> Some (valid f \<and> \<not> isV4 f)
        | N_CMP \<Rightarrow> Some (eval_cmp (n_field n) (n_op n) (n_value n) f))"

subsection \<open>The public functions\<close>

record filter_program =
  prog_nodes :: "node list"
  prog_root :: int

definition isBlank :: "string option \<Rightarrow> bool" where
  "isBlank s = (case s of None \<Rightarrow> True | Some t \<Rightarrow> list_all is_blank t)"

text \<open>\<^verbatim>\<open>snprintf\<close> into a buffer of \<open>n\<close> bytes keeps what fits before the terminating NUL.\<close>

definition snprintf :: "int \<Rightarrow> string \<Rightarrow> string" where
  "snprintf n t = (if n \<le> 0 then [] else take (nat n - 1) t)"

text \<open>\<open>Inl\<close> is a null program and the text left in \<^verbatim>\<open>errBuf\<close>; the outer \<open>None\<close> would be fuel that ran out.\<close>

definition filterCompile :: "string option \<Rightarrow> int \<Rightarrow> (string + filter_program) option" where
  "filterCompile expr errSize =
     (if isBlank expr then Some (Inr \<lparr>prog_nodes = [mk_node N_TRUE], prog_root = 0\<rparr>)
      else case parse_expr (the expr) of None \<Rightarrow> None
        | Some (rt, s) \<Rightarrow>
            if rt < 0
            then Some (Inl (snprintf errSize (''filter syntax error: '' @
                    (if p_err s = [] then ''invalid expression'' else p_err s))))
            else Some (Inr \<lparr>prog_nodes = p_nodes s, prog_root = rt\<rparr>))"

definition filterMatch :: "filter_program option \<Rightarrow> packet_meta \<Rightarrow> u8 list \<Rightarrow> bool option" where
  "filterMatch prog mt p =
     (case prog of None \<Rightarrow> Some True
      | Some pr \<Rightarrow>
          if prog_root pr < 0 then Some True
          else evalNode (prog_nodes pr) (prog_root pr) mt (extractFields p no_fields))"

subsection \<open>The meaning of a tree\<close>

fun kw_eval :: "fkeyword \<Rightarrow> packet_meta \<Rightarrow> packet_fields \<Rightarrow> bool" where
  "kw_eval K_TRUE mt f = True"
| "kw_eval K_FALSE mt f = False"
| "kw_eval K_OUTBOUND mt f = outbound mt"
| "kw_eval K_INBOUND mt f = (\<not> outbound mt)"
| "kw_eval K_LOOPBACK mt f = loopback mt"
| "kw_eval K_IPV4 mt f = (valid f \<and> isV4 f)"
| "kw_eval K_IPV6 mt f = (valid f \<and> \<not> isV4 f)"

primrec feval :: "fexpr \<Rightarrow> packet_meta \<Rightarrow> packet_fields \<Rightarrow> bool" where
  "feval (FKey k) mt f = kw_eval k mt f"
| "feval (FCmp fld cop v) mt f = eval_cmp fld cop v f"
| "feval (FNot a) mt f = (\<not> feval a mt f)"
| "feval (FAnd a b) mt f = (feval a mt f \<and> feval b mt f)"
| "feval (FOr a b) mt f = (feval a mt f \<or> feval b mt f)"

text \<open>Node \<open>i\<close> of a program is the root of a tree.\<close>

definition in_prog :: "node list \<Rightarrow> int \<Rightarrow> bool" where
  "in_prog ns i \<longleftrightarrow> 0 \<le> i \<and> i < int (length ns)"

primrec repr :: "fexpr \<Rightarrow> node list \<Rightarrow> int \<Rightarrow> bool" where
  "repr (FKey k) ns i \<longleftrightarrow> in_prog ns i \<and> n_kind (ns ! nat i) = kw_kind k"
| "repr (FCmp fld cop v) ns i \<longleftrightarrow> in_prog ns i \<and> n_kind (ns ! nat i) = N_CMP \<and> n_field (ns ! nat i) = fld \<and>
     n_op (ns ! nat i) = cop \<and> n_value (ns ! nat i) = v"
| "repr (FNot a) ns i \<longleftrightarrow> in_prog ns i \<and> n_kind (ns ! nat i) = N_NOT \<and> repr a ns (n_left (ns ! nat i))"
| "repr (FAnd a b) ns i \<longleftrightarrow> in_prog ns i \<and> n_kind (ns ! nat i) = N_AND \<and> repr a ns (n_left (ns ! nat i)) \<and>
     repr b ns (n_right (ns ! nat i))"
| "repr (FOr a b) ns i \<longleftrightarrow> in_prog ns i \<and> n_kind (ns ! nat i) = N_OR \<and> repr a ns (n_left (ns ! nat i)) \<and>
     repr b ns (n_right (ns ! nat i))"

lemma repr_in_prog: "repr e ns i \<Longrightarrow> in_prog ns i"
  by (cases e) simp_all

lemma eval_repr: "repr e ns i \<Longrightarrow> evalNode ns i mt f = Some (feval e mt f)"
proof (induction e arbitrary: i)
  case (FKey k)
  then show ?case by (subst evalNode.simps, cases k) (simp_all add: in_prog_def Let_def)
next
  case (FCmp fld cop v)
  then show ?case by (subst evalNode.simps) (simp add: in_prog_def Let_def)
next
  case (FNot a)
  then show ?case by (subst evalNode.simps) (simp add: in_prog_def Let_def)
next
  case (FAnd a b)
  then show ?case by (subst evalNode.simps) (simp add: in_prog_def Let_def)
next
  case (FOr a b)
  then show ?case by (subst evalNode.simps) (simp add: in_prog_def Let_def)
qed

lemma wf_repr:
  assumes wf: "nodes_wf ns" shows "i < length ns \<Longrightarrow> \<exists>e. repr e ns (int i)"
proof (induction i rule: less_induct)
  case (less i)
  have ok: "node_ok ns i" using wf less.prems by (simp add: nodes_wf_def)
  have ip: "in_prog ns (int i)" using less.prems by (simp add: in_prog_def)
  have left: "\<exists>a. repr a ns (n_left (ns ! i))" if "n_kind (ns ! i) \<in> {N_AND, N_OR, N_NOT}"
  proof -
    have "0 \<le> n_left (ns ! i)" "n_left (ns ! i) < int i" using ok that unfolding node_ok_def by blast+
    then show ?thesis using less.IH [of "nat (n_left (ns ! i))"] less.prems by simp
  qed
  have right: "\<exists>b. repr b ns (n_right (ns ! i))" if "n_kind (ns ! i) \<in> {N_AND, N_OR}"
  proof -
    have "0 \<le> n_right (ns ! i)" "n_right (ns ! i) < int i" using ok that unfolding node_ok_def by blast+
    then show ?thesis using less.IH [of "nat (n_right (ns ! i))"] less.prems by simp
  qed
  have key: "\<exists>e. repr e ns (int i)" if "n_kind (ns ! i) = kw_kind k" for k
    using that ip by (intro exI [of _ "FKey k"]) simp
  show ?case
  proof (cases "n_kind (ns ! i)")
    case N_TRUE then show ?thesis using key [of K_TRUE] by simp
  next
    case N_FALSE then show ?thesis using key [of K_FALSE] by simp
  next
    case N_OUTBOUND then show ?thesis using key [of K_OUTBOUND] by simp
  next
    case N_INBOUND then show ?thesis using key [of K_INBOUND] by simp
  next
    case N_LOOPBACK then show ?thesis using key [of K_LOOPBACK] by simp
  next
    case N_IPV4 then show ?thesis using key [of K_IPV4] by simp
  next
    case N_IPV6 then show ?thesis using key [of K_IPV6] by simp
  next
    case N_CMP
    then show ?thesis using ip by (intro exI [of _ "FCmp (n_field (ns ! i)) (n_op (ns ! i)) (n_value (ns ! i))"]) simp
  next
    case N_NOT
    then obtain a where "repr a ns (n_left (ns ! i))" using left by auto
    then show ?thesis using ip N_NOT by (intro exI [of _ "FNot a"]) simp
  next
    case N_AND
    then obtain a b where "repr a ns (n_left (ns ! i))" "repr b ns (n_right (ns ! i))" using left right by auto
    then show ?thesis using ip N_AND by (intro exI [of _ "FAnd a b"]) simp
  next
    case N_OR
    then obtain a b where "repr a ns (n_left (ns ! i))" "repr b ns (n_right (ns ! i))" using left right by auto
    then show ?thesis using ip N_OR by (intro exI [of _ "FOr a b"]) simp
  qed
qed

lemma repr_append: "repr e ns i \<Longrightarrow> repr e (ns @ ms) i"
  by (induction e arbitrary: i) (auto simp: in_prog_def nth_append)

lemma repr_last:
  assumes "ns = ms @ [n]" "i = int (length ms)"
  shows "n_kind n = N_NOT \<Longrightarrow> repr a ns (n_left n) \<Longrightarrow> repr (FNot a) ns i"
    "n_kind n = N_AND \<Longrightarrow> repr a ns (n_left n) \<Longrightarrow> repr b ns (n_right n) \<Longrightarrow> repr (FAnd a b) ns i"
    "n_kind n = N_OR \<Longrightarrow> repr a ns (n_left n) \<Longrightarrow> repr b ns (n_right n) \<Longrightarrow> repr (FOr a b) ns i"
  using assms by (simp_all add: in_prog_def)

lemma tree_nodes_repr:
  "n = length pre \<Longrightarrow> repr e (pre @ tree_nodes e n) (int (n + length (tree_nodes e n)) - 1)"
proof (induction e arbitrary: pre n)
  case (FNot a)
  define na where "na = tree_nodes a n"
  have a: "repr a ((pre @ na) @ [x]) (int (n + length na) - 1)" for x
    by (rule repr_append) (use FNot in \<open>simp add: na_def\<close>)
  have "repr (FNot a) ((pre @ na) @ [(mk_node N_NOT)\<lparr>n_left := int (n + length na) - 1\<rparr>]) (int (n + length na))"
    by (rule repr_last(1) [OF refl]) (use a FNot.prems in \<open>simp_all add: mk_node_def\<close>)
  then show ?case by (simp add: Let_def na_def)
next
  case (FAnd a b)
  define na where "na = tree_nodes a n"
  define nb where "nb = tree_nodes b (n + length na)"
  have a: "repr a ((pre @ na) @ (nb @ [x])) (int (n + length na) - 1)" for x
    by (rule repr_append) (use FAnd in \<open>simp add: na_def\<close>)
  have b: "repr b (((pre @ na) @ nb) @ [x]) (int (n + length na + length nb) - 1)" for x
    by (rule repr_append) (unfold nb_def, rule FAnd.IH(2), use FAnd.prems in simp)
  have "repr (FAnd a b) ((pre @ na @ nb) @ [(mk_node N_AND)\<lparr>n_left := int (n + length na) - 1,
      n_right := int (n + length na + length nb) - 1\<rparr>]) (int (n + length na + length nb))"
    by (rule repr_last(2) [OF refl]) (use a b FAnd.prems in \<open>simp_all add: mk_node_def\<close>)
  then show ?case by (simp add: Let_def na_def nb_def add.assoc)
next
  case (FOr a b)
  define na where "na = tree_nodes a n"
  define nb where "nb = tree_nodes b (n + length na)"
  have a: "repr a ((pre @ na) @ (nb @ [x])) (int (n + length na) - 1)" for x
    by (rule repr_append) (use FOr in \<open>simp add: na_def\<close>)
  have b: "repr b (((pre @ na) @ nb) @ [x]) (int (n + length na + length nb) - 1)" for x
    by (rule repr_append) (unfold nb_def, rule FOr.IH(2), use FOr.prems in simp)
  have "repr (FOr a b) ((pre @ na @ nb) @ [(mk_node N_OR)\<lparr>n_left := int (n + length na) - 1,
      n_right := int (n + length na + length nb) - 1\<rparr>]) (int (n + length na + length nb))"
    by (rule repr_last(3) [OF refl]) (use a b FOr.prems in \<open>simp_all add: mk_node_def\<close>)
  then show ?case by (simp add: Let_def na_def nb_def add.assoc)
qed (simp_all add: in_prog_def mk_node_def)

lemma print_not_blank: "\<exists>c \<in> set (print_at e l). \<not> is_blank c"
proof (induction e arbitrary: l)
  case (FKey k)
  then show ?case by (cases k) (simp_all add: is_blank_def code_def)
next
  case (FCmp fld cop v)
  then show ?case by (cases fld) (simp_all add: is_blank_def code_def)
next
  case (FNot a)
  then show ?case by (simp add: is_blank_def code_def)
next
  case (FAnd a b)
  then show ?case using FAnd.IH(1) [of 1] by (auto simp: bracket_def)
next
  case (FOr a b)
  then show ?case using FOr.IH(1) [of 0] by (auto simp: bracket_def)
qed

lemma filterCompile_blank: "isBlank expr \<Longrightarrow> filterCompile expr n = Some (Inr \<lparr>prog_nodes = [mk_node N_TRUE], prog_root = 0\<rparr>)"
  by (simp add: filterCompile_def)

text \<open>The two ways a compilation ends.\<close>

lemma filterCompile_cases:
  obtains (prog) pr where "filterCompile expr n = Some (Inr pr)" "nodes_wf (prog_nodes pr)"
      "in_prog (prog_nodes pr) (prog_root pr)"
  | (error) msg where "filterCompile expr n = Some (Inl (snprintf n (''filter syntax error: '' @ msg)))" "msg \<noteq> []"
proof (cases "isBlank expr")
  case True
  show ?thesis by (rule prog [OF filterCompile_blank [OF True]])
    (simp_all add: in_prog_def nodes_wf_def node_ok_def mk_node_def)
next
  case False
  show ?thesis
  proof (cases rule: parse_expr_cases [of "the expr"])
    case (ok i s)
    then show ?thesis using False
      by (intro prog [of "\<lparr>prog_nodes = p_nodes s, prog_root = i\<rparr>"]) (simp_all add: filterCompile_def in_prog_def)
  next
    case (bad s)
    then show ?thesis using False by (intro error [of "p_err s"]) (simp_all add: filterCompile_def)
  qed
qed

lemma filterMatch_repr:
  "repr e (prog_nodes pr) (prog_root pr) \<Longrightarrow> filterMatch (Some pr) mt p = Some (feval e mt (extractFields p no_fields))"
  using repr_in_prog [of e "prog_nodes pr" "prog_root pr"] by (simp add: filterMatch_def in_prog_def eval_repr)

lemma compiled_repr:
  assumes "filterCompile expr n = Some (Inr pr)" obtains e where "repr e (prog_nodes pr) (prog_root pr)"
proof (cases rule: filterCompile_cases [of expr n])
  case (prog pr')
  then have "pr' = pr" using assms by simp
  moreover obtain e where "repr e (prog_nodes pr') (int (nat (prog_root pr')))"
    using wf_repr [OF prog(2), of "nat (prog_root pr')"] prog(3) by (auto simp: in_prog_def nat_less_iff)
  ultimately show ?thesis using prog(3) that by (simp add: in_prog_def)
next
  case (error msg)
  then show ?thesis using assms by simp
qed

lemma compile_print:
  "filterCompile (Some (print_at e 0)) n = Some (Inr \<lparr>prog_nodes = tree_nodes e 0, prog_root = int (length (tree_nodes e 0)) - 1\<rparr>)"
proof -
  have "\<not> isBlank (Some (print_at e 0))" using print_not_blank [of e 0] by (simp add: isBlank_def list_all_iff)
  moreover have "0 < length (tree_nodes e 0)" by simp
  then have "\<not> int (length (tree_nodes e 0)) - 1 < 0" by linarith
  ultimately show ?thesis by (simp add: filterCompile_def parse_print_state after_tree_def)
qed

lemma tree_nodes_repr0: "repr e (tree_nodes e 0) (int (length (tree_nodes e 0)) - 1)"
  using tree_nodes_repr [of 0 "[]" e] by simp

subsection \<open>Properties\<close>

text \<open>C9: Compiling any text ends within the fuel: it yields a program whose every node refers only to
  nodes before it and whose root is one of its nodes, or a null program with a message, never an empty
  one.\<close>

theorem filter_compile_total:
  "\<exists>r. filterCompile expr n = Some r \<and>
     (case r of Inr pr \<Rightarrow> nodes_wf (prog_nodes pr) \<and> in_prog (prog_nodes pr) (prog_root pr)
      | Inl msg \<Rightarrow> \<exists>why. why \<noteq> [] \<and> msg = snprintf n (''filter syntax error: '' @ why))"
  by (cases rule: filterCompile_cases [of expr n]) auto

text \<open>Matching a packet against a compiled filter always ends, and the answer is the meaning of one
  expression tree, the same for every packet.\<close>

theorem filter_match_total:
  assumes "filterCompile expr n = Some (Inr pr)"
  shows "\<exists>e. \<forall>mt p. filterMatch (Some pr) mt p = Some (feval e mt (extractFields p no_fields))"
  using compiled_repr [OF assms] filterMatch_repr by metis

theorem filter_match_total_witness:
  "\<exists>e. \<forall>mt p. filterMatch (Some \<lparr>prog_nodes = [mk_node N_OUTBOUND], prog_root = 0\<rparr>) mt p =
     Some (feval e mt (extractFields p no_fields))"
  by (rule filter_match_total [of "Some ''outbound''" 256])
    (use compile_print [of "FKey K_OUTBOUND" 256] in simp)

text \<open>C7: A filter written from an expression tree with only the brackets that precedence requires
  compiles, to the nodes of that tree, and selects exactly the packets the tree means.\<close>

theorem filter_print_parse:
  "\<exists>pr. filterCompile (Some (print_at e 0)) n = Some (Inr pr) \<and> prog_nodes pr = tree_nodes e 0 \<and>
     (\<forall>mt p. filterMatch (Some pr) mt p = Some (feval e mt (extractFields p no_fields)))"
  using compile_print [of e n] filterMatch_repr [of e "\<lparr>prog_nodes = tree_nodes e 0, prog_root = int (length (tree_nodes e 0)) - 1\<rparr>"]
    tree_nodes_repr0 [of e] by auto

text \<open>Reading back the dotted form \<open>formatAddr\<close> writes gives the same address.\<close>

theorem address_roundtrip: "parseIPv4 (formatAddr a) = Some a"
  by (fact parseIPv4_formatAddr)

end
