(* ===== verification/Filter_Rules.thy ===== *)
theory Filter_Rules
  imports Filter_Eval
begin

text \<open>
  The derivation of iptables rules from a compiled filter (\<^verbatim>\<open>src/src/filterexpr.cpp\<close>): \<^verbatim>\<open>collect\<close>,
  \<^verbatim>\<open>splitOr\<close>, \<^verbatim>\<open>buildMatch\<close>, \<^verbatim>\<open>emitRules\<close>, \<^verbatim>\<open>dedupeRules\<close>, \<^verbatim>\<open>filterDeriveIptables\<close>, with
  \<^verbatim>\<open>appendf\<close> of \<^verbatim>\<open>utils.cpp\<close>. The header file promises that the rules select a superset of the packets
  the filter matches. What a rule selects (\<open>rule_selects\<close>) is read off its argument text, as iptables
  documents \<^verbatim>\<open>-p\<close>, \<^verbatim>\<open>--dport\<close>, \<^verbatim>\<open>--sport\<close>, \<^verbatim>\<open>-s\<close> and \<^verbatim>\<open>-d\<close>.

  The promise holds for filters in which no NOT stands under an AND under a NOT (\<open>sound_pos\<close>), that have
  at most \<open>SPLIT_BRANCH_LIMIT\<close> branches, on packets whose ICMP version fits their IP version; two
  counterexamples show that it fails without the first two conditions.
\<close>

subsection \<open>Constraints\<close>

definition IPT_CHAIN_OUTPUT :: nat where "IPT_CHAIN_OUTPUT = 1"
definition IPT_CHAIN_INPUT :: nat where "IPT_CHAIN_INPUT = 2"
definition SPLIT_BRANCH_LIMIT :: nat where "SPLIT_BRANCH_LIMIT = 64"
definition MAX_DERIVED_RULES :: nat where "MAX_DERIVED_RULES = 8"

lemmas rule_constants = IPT_CHAIN_OUTPUT_def IPT_CHAIN_INPUT_def SPLIT_BRANCH_LIMIT_def MAX_DERIVED_RULES_def

record constraints =
  k_chains :: nat
  k_proto :: int
  k_ipv6 :: int
  k_dstPort :: int
  k_srcPort :: int
  k_dstAddr :: u32
  k_srcAddr :: u32
  k_widened :: bool

text \<open>\<^verbatim>\<open>IPT_CHAIN_OUTPUT | IPT_CHAIN_INPUT\<close> is 3.\<close>

definition no_constraints :: constraints where
  "no_constraints = \<lparr>k_chains = 3, k_proto = 0, k_ipv6 = - 1, k_dstPort = - 1, k_srcPort = - 1,
     k_dstAddr = 0, k_srcAddr = 0, k_widened = False\<rparr>"

definition collect_proto :: "u32 \<Rightarrow> constraints \<Rightarrow> constraints" where
  "collect_proto v c =
     (let c = c\<lparr>k_proto := sint v\<rparr>;
          c = (if k_proto c = 1 then c\<lparr>k_ipv6 := 0\<rparr> else c)
      in if k_proto c = 58 then c\<lparr>k_ipv6 := 1\<rparr> else c)"

definition collect_cmp :: "field \<Rightarrow> cmp_op \<Rightarrow> u32 \<Rightarrow> constraints \<Rightarrow> bool \<Rightarrow> constraints" where
  "collect_cmp fld cop v c negated =
     (if negated \<or> cop \<noteq> OP_EQ then c\<lparr>k_widened := True\<rparr>
      else case fld of
        F_IP_PROTO \<Rightarrow> collect_proto v c
      | F_TCP_SRCPORT \<Rightarrow> c\<lparr>k_proto := 6, k_srcPort := uint v\<rparr>
      | F_TCP_DSTPORT \<Rightarrow> c\<lparr>k_proto := 6, k_dstPort := uint v\<rparr>
      | F_UDP_SRCPORT \<Rightarrow> c\<lparr>k_proto := 17, k_srcPort := uint v\<rparr>
      | F_UDP_DSTPORT \<Rightarrow> c\<lparr>k_proto := 17, k_dstPort := uint v\<rparr>
      | F_IP_SRC \<Rightarrow> c\<lparr>k_srcAddr := v, k_ipv6 := 0\<rparr>
      | F_IP_DST \<Rightarrow> c\<lparr>k_dstAddr := v, k_ipv6 := 0\<rparr>)"

partial_function (option) collect :: "node list \<Rightarrow> int \<Rightarrow> constraints \<Rightarrow> bool \<Rightarrow> constraints option" where
  "collect prog idx c negated =
     (if idx < 0 \<or> idx \<ge> int (length prog) then Some c
      else let n = prog ! nat idx in
        case n_kind n of
          N_AND \<Rightarrow> Option.bind (collect prog (n_left n) c negated) (\<lambda>c. collect prog (n_right n) c negated)
        | N_NOT \<Rightarrow> collect prog (n_left n) (c\<lparr>k_widened := True\<rparr>) (\<not> negated)
        | N_OR \<Rightarrow> Some (c\<lparr>k_widened := True\<rparr>)
        | N_TRUE \<Rightarrow> Some c
        | N_FALSE \<Rightarrow> Some (c\<lparr>k_widened := True\<rparr>)
        | N_OUTBOUND \<Rightarrow> Some (if \<not> negated then c\<lparr>k_chains := IPT_CHAIN_OUTPUT\<rparr> else c)
        | N_INBOUND \<Rightarrow> Some (if \<not> negated then c\<lparr>k_chains := IPT_CHAIN_INPUT\<rparr> else c)
        | N_LOOPBACK \<Rightarrow> Some (c\<lparr>k_widened := True\<rparr>)
        | N_IPV4 \<Rightarrow> Some (if \<not> negated then c\<lparr>k_ipv6 := 0\<rparr> else c)
        | N_IPV6 \<Rightarrow> Some (if \<not> negated then c\<lparr>k_ipv6 := 1\<rparr> else c)
        | N_CMP \<Rightarrow> Some (collect_cmp (n_field n) (n_op n) (n_value n) c negated))"

function splitOr :: "node list \<Rightarrow> int \<Rightarrow> int list \<Rightarrow> nat \<Rightarrow> int list" where
  "splitOr prog idx out depth =
     (if idx < 0 \<or> idx \<ge> int (length prog) then out
      else if length out \<ge> SPLIT_BRANCH_LIMIT then out
      else
        let n = prog ! nat idx in
        if n_kind n = N_OR \<and> depth < 16 then
          splitOr prog (n_right n) (splitOr prog (n_left n) out (depth + 1)) (depth + 1)
        else out @ [idx])"
  by pat_completeness auto

termination
  by (relation "measure (\<lambda>(_, _, _, depth). 16 - depth)") auto

declare splitOr.simps [simp del]

subsection \<open>Rules\<close>

text \<open>\<^verbatim>\<open>appendf\<close> on the text already in the buffer, its length being \<^verbatim>\<open>pos\<close>.\<close>

definition appendf :: "nat \<Rightarrow> string \<Rightarrow> string \<Rightarrow> string" where
  "appendf bufSize b t = (if length b \<ge> bufSize - 1 then b else take (bufSize - 1) (b @ t))"

definition trim_end :: "string \<Rightarrow> string" where
  "trim_end s = rev (dropWhile (\<lambda>c. c = CHR '' '') (rev s))"

definition buildMatch :: "constraints \<Rightarrow> bool \<Rightarrow> string" where
  "buildMatch c v6 =
     (let b = [];
          b = (if k_proto c = 6 then appendf 256 b ''-p tcp ''
               else if k_proto c = 17 then appendf 256 b ''-p udp ''
               else if k_proto c = 1 \<and> \<not> v6 then appendf 256 b ''-p icmp ''
               else if k_proto c = 58 \<and> v6 then appendf 256 b ''-p icmpv6 ''
               else if k_proto c > 0 then appendf 256 b (''-p '' @ show_int (k_proto c) @ '' '')
               else b);
          b = (if k_proto c = 6 \<or> k_proto c = 17 then
                 let b = (if k_dstPort c \<ge> 0 then appendf 256 b (''--dport '' @ show_int (k_dstPort c) @ '' '') else b)
                 in (if k_srcPort c \<ge> 0 then appendf 256 b (''--sport '' @ show_int (k_srcPort c) @ '' '') else b)
               else b);
          b = (if k_srcAddr c \<noteq> 0 then appendf 256 b (''-s '' @ formatAddr (k_srcAddr c) @ '' '') else b);
          b = (if k_dstAddr c \<noteq> 0 then appendf 256 b (''-d '' @ formatAddr (k_dstAddr c) @ '' '') else b)
      in snprintf 256 (trim_end b))"

record rule =
  r_chains :: nat
  r_match :: string
  r_ipv6 :: bool

definition rules_of :: "constraints \<Rightarrow> rule list" where
  "rules_of c =
     (if k_ipv6 c \<noteq> 1 then [\<lparr>r_chains = k_chains c, r_match = buildMatch c False, r_ipv6 = False\<rparr>] else []) @
     (if k_ipv6 c \<noteq> 0 then [\<lparr>r_chains = k_chains c, r_match = buildMatch c True, r_ipv6 = True\<rparr>] else [])"

text \<open>The rules of one branch are appended; the flag is cleared when the branch was widened.\<close>

definition emitRules :: "node list \<Rightarrow> int \<Rightarrow> rule list \<times> bool \<Rightarrow> (rule list \<times> bool) option" where
  "emitRules prog branch s =
     (case s of (out, exact) \<Rightarrow>
      Option.bind (collect prog branch no_constraints False)
        (\<lambda>c. Some (out @ rules_of c, exact \<and> \<not> k_widened c)))"

fun emit_all :: "node list \<Rightarrow> int list \<Rightarrow> rule list \<times> bool \<Rightarrow> (rule list \<times> bool) option" where
  "emit_all prog [] s = Some s"
| "emit_all prog (b # bs) s = Option.bind (emitRules prog b s) (emit_all prog bs)"

text \<open>\<^verbatim>\<open>dedupeRules\<close> keeps the first of equal rules.\<close>

definition dedupeRules :: "rule list \<Rightarrow> rule list" where
  "dedupeRules v = foldl (\<lambda>uniq r. if r \<in> set uniq then uniq else uniq @ [r]) [] v"

definition filterDeriveIptables :: "filter_program option \<Rightarrow> int \<Rightarrow> (rule list \<times> bool) option" where
  "filterDeriveIptables prog maxRules =
     (case prog of None \<Rightarrow> Some ([], True)
      | Some pr \<Rightarrow>
          if maxRules \<le> 0 then Some ([], True)
          else
            let branches = (if prog_root pr \<ge> 0 then splitOr (prog_nodes pr) (prog_root pr) [] 0 else []);
                branches = (if branches = [] then [prog_root pr] else branches)
            in Option.bind (emit_all (prog_nodes pr) branches ([], True)) (\<lambda>(derived, localExact).
                 let derived = dedupeRules derived in
                 if length derived > nat maxRules then
                   Option.bind (emitRules (prog_nodes pr) (prog_root pr) ([], False)) (\<lambda>(derived, localExact).
                     Some (take (nat maxRules) (dedupeRules derived), False))
                 else Some (take (nat maxRules) derived, localExact)))"

subsection \<open>What a rule selects\<close>

fun words_of :: "string \<Rightarrow> string \<Rightarrow> string list" where
  "words_of w [] = (if w = [] then [] else [rev w])"
| "words_of w (c # s) = (if c = CHR '' '' then (if w = [] then words_of [] s else rev w # words_of [] s) else words_of (c # w) s)"

definition proto_number :: "string \<Rightarrow> nat" where
  "proto_number w = (if w = ''tcp'' then 6 else if w = ''udp'' then 17 else if w = ''icmp'' then 1
     else if w = ''icmpv6'' then 58 else read_digits w)"

fun args_select :: "string list \<Rightarrow> packet_fields \<Rightarrow> bool" where
  "args_select (k # v # r) f \<longleftrightarrow>
     (if k = ''-p'' then unat (protocol f) = proto_number v
      else if k = ''--dport'' then hasPorts f \<and> unat (dstPort f) = read_digits v
      else if k = ''--sport'' then hasPorts f \<and> unat (srcPort f) = read_digits v
      else if k = ''-s'' then isV4 f \<and> parseIPv4 v = Some (srcAddr f)
      else if k = ''-d'' then isV4 f \<and> parseIPv4 v = Some (dstAddr f)
      else False) \<and> args_select r f"
| "args_select [] f \<longleftrightarrow> True"
| "args_select [k] f \<longleftrightarrow> False"

text \<open>A rule is installed in the OUTPUT or the INPUT chain (or both) of its family's table.\<close>

definition chain_selects :: "nat \<Rightarrow> bool \<Rightarrow> bool" where
  "chain_selects n out \<longleftrightarrow> n = 3 \<or> (if out then n = IPT_CHAIN_OUTPUT else n = IPT_CHAIN_INPUT)"

definition rule_selects :: "rule \<Rightarrow> packet_meta \<Rightarrow> packet_fields \<Rightarrow> bool" where
  "rule_selects r mt f \<longleftrightarrow>
     r_ipv6 r = (\<not> isV4 f) \<and>
     chain_selects (r_chains r) (outbound mt) \<and>
     args_select (words_of [] (r_match r)) f"

text \<open>A well-formed packet: of a known version, and ICMP of the version it belongs to.\<close>

definition sane_packet :: "packet_fields \<Rightarrow> bool" where
  "sane_packet f \<longleftrightarrow> valid f \<and> (protocol f = 1 \<longrightarrow> isV4 f) \<and> (protocol f = 58 \<longrightarrow> \<not> isV4 f)"

subsection \<open>The text of a rule\<close>

lemma octet_length: "length (show_nat (unat (octet k a))) \<le> 3"
proof (rule show_nat_length)
  have "unat (octet k a) \<le> unat (255 :: u32)" using octet_le [of k a] by (simp only: word_le_nat_alt)
  then show "unat (octet k a) < 10 ^ 3" by simp
qed simp

lemma formatAddr_length: "length (formatAddr a) \<le> 15"
  using octet_length [of 24 a] octet_length [of 16 a] octet_length [of 8 a] octet_length [of 0 a]
  by (simp add: formatAddr_def)

definition no_blank :: "string \<Rightarrow> bool" where
  "no_blank w \<longleftrightarrow> w \<noteq> [] \<and> CHR '' '' \<notin> set w"

lemma digit_not_blank: "is_digit c \<Longrightarrow> c \<noteq> CHR '' ''"
  by (auto simp: is_digit_def code_def)

lemma no_blank_show [simp]: "no_blank (show_nat n)"
  using show_nat_digits digit_not_blank by (auto simp: no_blank_def)

lemma no_blank_addr [simp]: "no_blank (formatAddr a)"
  using show_nat_digits digit_not_blank by (auto simp: no_blank_def formatAddr_def)

lemma words_of_word: "CHR '' '' \<notin> set u \<Longrightarrow> words_of w (u @ s) = words_of (rev u @ w) s"
  by (induction u arbitrary: w) auto

lemma words_of_blank: "words_of w (s @ [CHR '' '']) = words_of w s"
  by (induction w s rule: words_of.induct) auto

lemma words_of_trim: "words_of w (trim_end s) = words_of w s"
proof (induction s rule: rev_induct)
  case (snoc c s)
  then show ?case by (cases "c = CHR '' ''") (simp_all add: trim_end_def words_of_blank)
qed (simp add: trim_end_def)

text \<open>One option and its value.\<close>

definition piece :: "bool \<Rightarrow> string \<Rightarrow> string \<Rightarrow> string" where
  "piece b k v = (if b then k @ '' '' @ v @ '' '' else [])"

lemma words_of_piece: "no_blank k \<Longrightarrow> no_blank v \<Longrightarrow>
   words_of [] (piece b k v @ s) = (if b then k # v # words_of [] s else words_of [] s)"
proof -
  assume k: "no_blank k" and v: "no_blank v"
  have "words_of [] (k @ CHR '' '' # (v @ CHR '' '' # s)) = k # v # words_of [] s"
    using k v by (simp add: no_blank_def words_of_word)
  then show ?thesis by (simp add: piece_def)
qed

definition proto_text :: "int \<Rightarrow> bool \<Rightarrow> string" where
  "proto_text p v6 = (if p = 6 then ''tcp'' else if p = 17 then ''udp'' else if p = 1 \<and> \<not> v6 then ''icmp''
     else if p = 58 \<and> v6 then ''icmpv6'' else show_nat (nat p))"

lemma proto_text_ok:
  assumes "0 < p" shows "no_blank (proto_text p v6)" "proto_number (proto_text p v6) = nat p"
proof -
  have d: "\<And>c u. show_nat (nat p) \<noteq> c # u \<or> is_digit c" using show_nat_digits [of _ "nat p"] by (metis list.set_intros(1))
  have "show_nat (nat p) \<notin> {''tcp'', ''udp'', ''icmp'', ''icmpv6''}"
    using d [of "CHR ''t''"] d [of "CHR ''u''"] d [of "CHR ''i''"] by (auto simp: is_digit_def code_def)
  then show "proto_number (proto_text p v6) = nat p" using assms
    by (simp add: proto_text_def proto_number_def)
  show "no_blank (proto_text p v6)" by (simp add: proto_text_def) (simp add: no_blank_def)
qed

text \<open>The constraints as texts; none is long enough for the buffer to cut anything.\<close>

definition pieces :: "constraints \<Rightarrow> bool \<Rightarrow> string list" where
  "pieces c v6 =
     (let ports = (k_proto c = 6 \<or> k_proto c = 17) in
      [piece (0 < k_proto c) ''-p'' (proto_text (k_proto c) v6),
       piece (ports \<and> 0 \<le> k_dstPort c) ''--dport'' (show_nat (nat (k_dstPort c))),
       piece (ports \<and> 0 \<le> k_srcPort c) ''--sport'' (show_nat (nat (k_srcPort c))),
       piece (k_srcAddr c \<noteq> 0) ''-s'' (formatAddr (k_srcAddr c)),
       piece (k_dstAddr c \<noteq> 0) ''-d'' (formatAddr (k_dstAddr c))])"

definition in_range :: "constraints \<Rightarrow> bool" where
  "in_range c \<longleftrightarrow> k_proto c < 4294967296 \<and> k_dstPort c < 4294967296 \<and> k_srcPort c < 4294967296"

lemma piece_length: "length (piece b k v) \<le> length k + length v + 2"
  by (simp add: piece_def)

lemma num_length: "i < 4294967296 \<Longrightarrow> length (show_nat (nat i)) \<le> 10"
  by (rule show_nat_length) simp_all

lemma proto_length: "p < 4294967296 \<Longrightarrow> length (proto_text p v6) \<le> 10"
  using num_length [of p] by (simp add: proto_text_def)

lemma appendf_fits: "length b + length t \<le> 255 \<Longrightarrow> appendf 256 b t = b @ t"
  by (cases t) (auto simp: appendf_def)

lemma appendf_piece: "length b \<le> 200 \<Longrightarrow> length k + length v \<le> 50 \<Longrightarrow>
   (if p then appendf 256 b (k @ '' '' @ v @ '' '') else b) = b @ piece p k v"
  by (simp add: piece_def appendf_fits)

lemma buildMatch_pieces:
  assumes "in_range c"
  shows "buildMatch c v6 = trim_end (concat (pieces c v6))"
proof -
  let ?ports = "k_proto c = 6 \<or> k_proto c = 17"
  define b1 where "b1 = piece (0 < k_proto c) ''-p'' (proto_text (k_proto c) v6)"
  define b2 where "b2 = b1 @ piece (?ports \<and> 0 \<le> k_dstPort c) ''--dport'' (show_nat (nat (k_dstPort c)))"
  define b3 where "b3 = b2 @ piece (?ports \<and> 0 \<le> k_srcPort c) ''--sport'' (show_nat (nat (k_srcPort c)))"
  define b4 where "b4 = b3 @ piece (k_srcAddr c \<noteq> 0) ''-s'' (formatAddr (k_srcAddr c))"
  define b5 where "b5 = b4 @ piece (k_dstAddr c \<noteq> 0) ''-d'' (formatAddr (k_dstAddr c))"
  have l: "length (proto_text (k_proto c) v6) \<le> 10" "length (show_nat (nat (k_dstPort c))) \<le> 10"
    "length (show_nat (nat (k_srcPort c))) \<le> 10" "length (formatAddr a) \<le> 15" for a
    using assms proto_length num_length formatAddr_length by (simp_all add: in_range_def)
  have l1: "length b1 \<le> 14" unfolding b1_def using piece_length [of "0 < k_proto c" "''-p''" "proto_text (k_proto c) v6"] l by simp
  have l2: "length b2 \<le> 33" unfolding b2_def
    using piece_length [of "?ports \<and> 0 \<le> k_dstPort c" "''--dport''" "show_nat (nat (k_dstPort c))"] l l1 by simp
  have l3: "length b3 \<le> 52" unfolding b3_def
    using piece_length [of "?ports \<and> 0 \<le> k_srcPort c" "''--sport''" "show_nat (nat (k_srcPort c))"] l l2 by simp
  have l4: "length b4 \<le> 71" unfolding b4_def
    using piece_length [of "k_srcAddr c \<noteq> 0" "''-s''" "formatAddr (k_srcAddr c)"] l(4) [of "k_srcAddr c"] l3 by simp
  have l5: "length b5 \<le> 90" unfolding b5_def
    using piece_length [of "k_dstAddr c \<noteq> 0" "''-d''" "formatAddr (k_dstAddr c)"] l(4) [of "k_dstAddr c"] l4 by simp
  have e1: "(if k_proto c = 6 then appendf 256 [] ''-p tcp ''
       else if k_proto c = 17 then appendf 256 [] ''-p udp ''
       else if k_proto c = 1 \<and> \<not> v6 then appendf 256 [] ''-p icmp ''
       else if k_proto c = 58 \<and> v6 then appendf 256 [] ''-p icmpv6 ''
       else if k_proto c > 0 then appendf 256 [] (''-p '' @ show_int (k_proto c) @ '' '') else []) = b1"
    using num_length [of "k_proto c"] assms
    by (simp add: b1_def piece_def proto_text_def show_int_def appendf_fits in_range_def)
  have e3: "(if ?ports then
       let b = (if k_dstPort c \<ge> 0 then appendf 256 b1 (''--dport '' @ show_int (k_dstPort c) @ '' '') else b1)
       in (if k_srcPort c \<ge> 0 then appendf 256 b (''--sport '' @ show_int (k_srcPort c) @ '' '') else b) else b1) = b3"
    using l l1 l2 by (auto simp: b3_def b2_def piece_def show_int_def appendf_fits Let_def)
  have e4: "(if k_srcAddr c \<noteq> 0 then appendf 256 b3 (''-s '' @ formatAddr (k_srcAddr c) @ '' '') else b3) = b4"
    using l(4) [of "k_srcAddr c"] l3 by (simp add: b4_def piece_def appendf_fits)
  have e5: "(if k_dstAddr c \<noteq> 0 then appendf 256 b4 (''-d '' @ formatAddr (k_dstAddr c) @ '' '') else b4) = b5"
    using l(4) [of "k_dstAddr c"] l4 by (simp add: b5_def piece_def appendf_fits)
  have "length (trim_end b5) \<le> length b5"
    using length_dropWhile_le [of "\<lambda>c. c = CHR '' ''" "rev b5"] by (simp add: trim_end_def)
  then have s: "snprintf 256 (trim_end b5) = trim_end b5" using l5 by (simp add: snprintf_def)
  have "buildMatch c v6 = snprintf 256 (trim_end b5)"
    unfolding buildMatch_def Let_def [of "[]"] e1 by (simp only: Let_def) (use e3 e4 e5 in \<open>simp only: Let_def\<close>)
  moreover have "b5 = concat (pieces c v6)" by (simp add: b5_def b4_def b3_def b2_def b1_def pieces_def Let_def)
  ultimately show ?thesis using s by simp
qed

text \<open>What a rule's text asks of a packet.\<close>

lemma select_piece:
  assumes "no_blank k" "b \<Longrightarrow> no_blank v"
  shows "args_select (words_of [] (piece b k v @ s)) f \<longleftrightarrow> (b \<longrightarrow> args_select [k, v] f) \<and> args_select (words_of [] s) f"
proof (cases b)
  case True
  then show ?thesis using words_of_piece [OF assms(1) assms(2) [OF True], of b s] by simp
next
  case False
  then show ?thesis by (simp add: piece_def)
qed

lemma buildMatch_selects:
  assumes "in_range c"
  shows "args_select (words_of [] (buildMatch c v6)) f \<longleftrightarrow>
    (0 < k_proto c \<longrightarrow> unat (protocol f) = nat (k_proto c)) \<and>
    (k_proto c = 6 \<or> k_proto c = 17 \<longrightarrow>
       (0 \<le> k_dstPort c \<longrightarrow> hasPorts f \<and> unat (dstPort f) = nat (k_dstPort c)) \<and>
       (0 \<le> k_srcPort c \<longrightarrow> hasPorts f \<and> unat (srcPort f) = nat (k_srcPort c))) \<and>
    (k_srcAddr c \<noteq> 0 \<longrightarrow> isV4 f \<and> srcAddr f = k_srcAddr c) \<and>
    (k_dstAddr c \<noteq> 0 \<longrightarrow> isV4 f \<and> dstAddr f = k_dstAddr c)"
proof -
  have nb: "no_blank ''-p''" "no_blank ''--dport''" "no_blank ''--sport''" "no_blank ''-s''" "no_blank ''-d''"
    by (simp_all add: no_blank_def)
  define P where "P = (k_proto c = 6 \<or> k_proto c = 17)"
  have sel: "args_select (words_of [] (piece (0 < k_proto c) ''-p'' (proto_text (k_proto c) v6) @ s)) f \<longleftrightarrow>
      (0 < k_proto c \<longrightarrow> args_select [''-p'', proto_text (k_proto c) v6] f) \<and> args_select (words_of [] s) f"
    "args_select (words_of [] (piece b ''--dport'' (show_nat n) @ s)) f \<longleftrightarrow>
      (b \<longrightarrow> args_select [''--dport'', show_nat n] f) \<and> args_select (words_of [] s) f"
    "args_select (words_of [] (piece b ''--sport'' (show_nat n) @ s)) f \<longleftrightarrow>
      (b \<longrightarrow> args_select [''--sport'', show_nat n] f) \<and> args_select (words_of [] s) f"
    "args_select (words_of [] (piece b ''-s'' (formatAddr a) @ s)) f \<longleftrightarrow>
      (b \<longrightarrow> args_select [''-s'', formatAddr a] f) \<and> args_select (words_of [] s) f"
    "args_select (words_of [] (piece b ''-d'' (formatAddr a) @ s)) f \<longleftrightarrow>
      (b \<longrightarrow> args_select [''-d'', formatAddr a] f) \<and> args_select (words_of [] s) f" for s b n a
    by (rule select_piece; simp add: nb proto_text_ok(1))+
  have "args_select (words_of [] (concat (pieces c v6) @ [])) f \<longleftrightarrow>
     (0 < k_proto c \<longrightarrow> args_select [''-p'', proto_text (k_proto c) v6] f) \<and>
     (P \<and> 0 \<le> k_dstPort c \<longrightarrow> args_select [''--dport'', show_nat (nat (k_dstPort c))] f) \<and>
     (P \<and> 0 \<le> k_srcPort c \<longrightarrow> args_select [''--sport'', show_nat (nat (k_srcPort c))] f) \<and>
     (k_srcAddr c \<noteq> 0 \<longrightarrow> args_select [''-s'', formatAddr (k_srcAddr c)] f) \<and>
     (k_dstAddr c \<noteq> 0 \<longrightarrow> args_select [''-d'', formatAddr (k_dstAddr c)] f)"
    unfolding pieces_def Let_def P_def [symmetric] concat.simps append_assoc append_Nil sel
    by (simp only: words_of.simps(1) args_select.simps(2) if_True simp_thms)
  moreover have "0 < k_proto c \<Longrightarrow> args_select [''-p'', proto_text (k_proto c) v6] f \<longleftrightarrow> unat (protocol f) = nat (k_proto c)"
    by (simp add: proto_text_ok(2))
  moreover have "args_select [''--dport'', show_nat n] f \<longleftrightarrow> hasPorts f \<and> unat (dstPort f) = n"
    "args_select [''--sport'', show_nat n] f \<longleftrightarrow> hasPorts f \<and> unat (srcPort f) = n"
    "args_select [''-s'', formatAddr a] f \<longleftrightarrow> isV4 f \<and> srcAddr f = a"
    "args_select [''-d'', formatAddr a] f \<longleftrightarrow> isV4 f \<and> dstAddr f = a" for n a
    by (simp_all add: eq_commute)
  ultimately show ?thesis
    unfolding buildMatch_pieces [OF assms] words_of_trim P_def append_Nil2 by blast
qed

subsection \<open>Collecting, on trees\<close>

fun kw_collect :: "fkeyword \<Rightarrow> constraints \<Rightarrow> bool \<Rightarrow> constraints" where
  "kw_collect K_TRUE c ng = c"
| "kw_collect K_FALSE c ng = c\<lparr>k_widened := True\<rparr>"
| "kw_collect K_OUTBOUND c ng = (if \<not> ng then c\<lparr>k_chains := IPT_CHAIN_OUTPUT\<rparr> else c)"
| "kw_collect K_INBOUND c ng = (if \<not> ng then c\<lparr>k_chains := IPT_CHAIN_INPUT\<rparr> else c)"
| "kw_collect K_LOOPBACK c ng = c\<lparr>k_widened := True\<rparr>"
| "kw_collect K_IPV4 c ng = (if \<not> ng then c\<lparr>k_ipv6 := 0\<rparr> else c)"
| "kw_collect K_IPV6 c ng = (if \<not> ng then c\<lparr>k_ipv6 := 1\<rparr> else c)"

primrec tree_collect :: "fexpr \<Rightarrow> constraints \<Rightarrow> bool \<Rightarrow> constraints" where
  "tree_collect (FKey k) c ng = kw_collect k c ng"
| "tree_collect (FCmp fld cop v) c ng = collect_cmp fld cop v c ng"
| "tree_collect (FNot a) c ng = tree_collect a (c\<lparr>k_widened := True\<rparr>) (\<not> ng)"
| "tree_collect (FAnd a b) c ng = tree_collect b (tree_collect a c ng) ng"
| "tree_collect (FOr a b) c ng = c\<lparr>k_widened := True\<rparr>"

lemma collect_repr: "repr e ns i \<Longrightarrow> collect ns i c ng = Some (tree_collect e c ng)"
proof (induction e arbitrary: i c ng)
  case (FKey k)
  then show ?case by (subst collect.simps, cases k) (simp_all add: in_prog_def Let_def)
next
  case (FCmp fld cop v)
  then show ?case by (subst collect.simps) (simp add: in_prog_def Let_def)
next
  case (FNot a)
  then show ?case by (subst collect.simps) (simp add: in_prog_def Let_def)
next
  case (FAnd a b)
  then show ?case by (subst collect.simps) (simp add: in_prog_def Let_def)
next
  case (FOr a b)
  then show ?case by (subst collect.simps) (simp add: in_prog_def Let_def)
qed

text \<open>What the constraints ask of a packet.\<close>

definition holds_for :: "constraints \<Rightarrow> packet_meta \<Rightarrow> packet_fields \<Rightarrow> bool" where
  "holds_for c mt f \<longleftrightarrow>
     chain_selects (k_chains c) (outbound mt) \<and>
     (k_ipv6 c = 0 \<longrightarrow> isV4 f) \<and> (k_ipv6 c = 1 \<longrightarrow> \<not> isV4 f) \<and>
     (0 < k_proto c \<longrightarrow> uint (protocol f) = k_proto c) \<and>
     (0 \<le> k_dstPort c \<longrightarrow> hasPorts f \<and> uint (dstPort f) = k_dstPort c) \<and>
     (0 \<le> k_srcPort c \<longrightarrow> hasPorts f \<and> uint (srcPort f) = k_srcPort c) \<and>
     (k_dstAddr c \<noteq> 0 \<longrightarrow> isV4 f \<and> dstAddr f = k_dstAddr c) \<and>
     (k_srcAddr c \<noteq> 0 \<longrightarrow> isV4 f \<and> srcAddr f = k_srcAddr c)"

lemma holds_for_none: "holds_for no_constraints mt f"
  by (simp add: holds_for_def no_constraints_def chain_selects_def)

lemma holds_for_widened [simp]: "holds_for (c\<lparr>k_widened := b\<rparr>) mt f = holds_for c mt f"
  by (simp add: holds_for_def)

lemma sint_pos_uint: "0 < sint v \<Longrightarrow> sint v = uint v" for v :: u32
proof -
  assume "0 < sint v"
  moreover have "sint v < 2 ^ 31" using sint_less [of v] by simp
  ultimately have "take_bit 32 (sint v) = sint v" by (simp add: take_bit_int_eq_self)
  then show ?thesis using uint_sint [of v] by simp
qed

text \<open>One constraint more.\<close>

lemma holds_for_update:
  assumes "holds_for c mt f"
  shows "chain_selects n (outbound mt) \<Longrightarrow> holds_for (c\<lparr>k_chains := n\<rparr>) mt f"
    "(x = 0 \<longrightarrow> isV4 f) \<and> (x = 1 \<longrightarrow> \<not> isV4 f) \<Longrightarrow> holds_for (c\<lparr>k_ipv6 := x\<rparr>) mt f"
    "(0 < x \<longrightarrow> uint (protocol f) = x) \<Longrightarrow> holds_for (c\<lparr>k_proto := x\<rparr>) mt f"
    "hasPorts f \<and> uint (dstPort f) = x \<Longrightarrow> holds_for (c\<lparr>k_dstPort := x\<rparr>) mt f"
    "hasPorts f \<and> uint (srcPort f) = x \<Longrightarrow> holds_for (c\<lparr>k_srcPort := x\<rparr>) mt f"
    "isV4 f \<and> dstAddr f = v \<Longrightarrow> holds_for (c\<lparr>k_dstAddr := v\<rparr>) mt f"
    "isV4 f \<and> srcAddr f = v \<Longrightarrow> holds_for (c\<lparr>k_srcAddr := v\<rparr>) mt f"
  using assms by (simp_all add: holds_for_def)

text \<open>A true term keeps the constraints true.\<close>

lemma holds_for_proto:
  assumes c: "holds_for c mt f" and t: "protocol f = v" and s: "sane_packet f"
  shows "holds_for (collect_proto v c) mt f"
proof -
  have "0 < sint v \<longrightarrow> uint (protocol f) = sint v" using t sint_pos_uint [of v] by simp
  from holds_for_update(3) [OF c this] have p: "holds_for (c\<lparr>k_proto := sint v\<rparr>) mt f" .
  have icmp: "isV4 f" if "sint v = 1"
  proof -
    have "uint v = uint (1 :: u32)" using sint_pos_uint [of v] that by simp
    then have "v = 1" by (simp only: word_uint_eq_iff)
    then show ?thesis using t s by (simp add: sane_packet_def)
  qed
  have icmp6: "\<not> isV4 f" if "sint v = 58"
  proof -
    have "uint v = uint (58 :: u32)" using sint_pos_uint [of v] that by simp
    then have "v = 58" by (simp only: word_uint_eq_iff)
    then show ?thesis using t s by (simp add: sane_packet_def)
  qed
  consider "sint v = 1" | "sint v = 58" | "sint v \<noteq> 1" "sint v \<noteq> 58" by blast
  then show ?thesis
  proof cases
    case 1 then show ?thesis using icmp p by (simp add: collect_proto_def Let_def holds_for_update(2))
  next
    case 2 then show ?thesis using icmp6 p by (simp add: collect_proto_def Let_def holds_for_update(2))
  next
    case 3 then show ?thesis using p by (simp add: collect_proto_def Let_def)
  qed
qed

lemma holds_for_port:
  assumes c: "holds_for c mt f" and "protocol f = k" "sint k = uint k" "hasPorts f"
  shows "dstPort f = v \<Longrightarrow> holds_for (c\<lparr>k_proto := uint k, k_dstPort := uint v\<rparr>) mt f"
    "srcPort f = v \<Longrightarrow> holds_for (c\<lparr>k_proto := uint k, k_srcPort := uint v\<rparr>) mt f"
  using assms by (auto intro!: holds_for_update)

lemma holds_for_cmp:
  assumes c: "holds_for c mt f" and s: "sane_packet f" and ev: "ng \<or> eval_cmp fld cop v f"
  shows "holds_for (collect_cmp fld cop v c ng) mt f"
proof (cases "ng \<or> cop \<noteq> OP_EQ")
  case True
  then show ?thesis using c unfolding collect_cmp_def if_P [OF True] by simp
next
  case False
  then have ev: "eval_cmp fld OP_EQ v f" and eq: "\<not> (False \<or> OP_EQ \<noteq> OP_EQ)" "cop = OP_EQ" "ng = False" using ev by simp_all
  have v: "valid f" using s by (simp add: sane_packet_def)
  note tcp = holds_for_port [OF c, of 6, simplified] and udp = holds_for_port [OF c, of 17, simplified]
  have up: "isV4 f \<Longrightarrow> holds_for (c\<lparr>k_ipv6 := 0\<rparr>) mt f" by (rule holds_for_update(2) [OF c]) simp
  show ?thesis unfolding eq(2,3) collect_cmp_def if_not_P [OF eq(1)]
  proof (cases fld)
    case F_IP_PROTO
    then show "holds_for (case fld of
        F_IP_PROTO \<Rightarrow> collect_proto v c
      | F_TCP_SRCPORT \<Rightarrow> c\<lparr>k_proto := 6, k_srcPort := uint v\<rparr>
      | F_TCP_DSTPORT \<Rightarrow> c\<lparr>k_proto := 6, k_dstPort := uint v\<rparr>
      | F_UDP_SRCPORT \<Rightarrow> c\<lparr>k_proto := 17, k_srcPort := uint v\<rparr>
      | F_UDP_DSTPORT \<Rightarrow> c\<lparr>k_proto := 17, k_dstPort := uint v\<rparr>
      | F_IP_SRC \<Rightarrow> c\<lparr>k_srcAddr := v, k_ipv6 := 0\<rparr>
      | F_IP_DST \<Rightarrow> c\<lparr>k_dstAddr := v, k_ipv6 := 0\<rparr>) mt f"
      using ev v holds_for_proto [OF c _ s, of v] by (simp add: eval_cmp_def compare_op_def)
  qed (use ev v tcp udp c holds_for_update(7) [OF c, of v] holds_for_update(6) [OF c, of v]
      in \<open>simp_all add: eval_cmp_def compare_op_def holds_for_update(2)\<close>)
qed

lemma holds_for_kw: "holds_for c mt f \<Longrightarrow> ng \<or> kw_eval k mt f \<Longrightarrow> holds_for (kw_collect k c ng) mt f"
  by (cases k) (auto intro!: holds_for_update simp: chain_selects_def)

text \<open>
  \<open>no_terms\<close>: collecting under a NOT adds nothing. \<open>sound_pos\<close> and \<open>sound_neg\<close>: no NOT stands under an
  AND under a NOT.
\<close>

primrec no_terms :: "fexpr \<Rightarrow> bool" where
  "no_terms (FKey k) \<longleftrightarrow> True"
| "no_terms (FCmp fld cop v) \<longleftrightarrow> True"
| "no_terms (FNot a) \<longleftrightarrow> False"
| "no_terms (FAnd a b) \<longleftrightarrow> no_terms a \<and> no_terms b"
| "no_terms (FOr a b) \<longleftrightarrow> True"

primrec sound_at :: "fexpr \<Rightarrow> bool \<Rightarrow> bool" where
  "sound_at (FKey k) ng \<longleftrightarrow> True"
| "sound_at (FCmp fld cop v) ng \<longleftrightarrow> True"
| "sound_at (FNot a) ng \<longleftrightarrow> sound_at a (\<not> ng)"
| "sound_at (FAnd a b) ng \<longleftrightarrow> (if ng then no_terms a \<and> no_terms b else sound_at a ng \<and> sound_at b ng)"
| "sound_at (FOr a b) ng \<longleftrightarrow> (if ng then True else sound_at a ng \<and> sound_at b ng)"

lemma collect_no_terms: "sane_packet f \<Longrightarrow> no_terms e \<Longrightarrow> holds_for c mt f \<Longrightarrow> holds_for (tree_collect e c True) mt f"
  by (induction e arbitrary: c) (simp_all add: holds_for_kw holds_for_cmp)

lemma collect_sound:
  "sane_packet f \<Longrightarrow> sound_at e ng \<Longrightarrow> holds_for c mt f \<Longrightarrow> feval e mt f = (\<not> ng) \<Longrightarrow> holds_for (tree_collect e c ng) mt f"
proof (induction e arbitrary: c ng)
  case (FAnd a b)
  show ?case
  proof (cases ng)
    case True
    then show ?thesis using FAnd.prems collect_no_terms by simp
  next
    case False
    have "holds_for (tree_collect a c False) mt f"
      by (rule FAnd.IH(1)) (use FAnd.prems False in simp_all)
    then have "holds_for (tree_collect b (tree_collect a c False) False) mt f"
      by (rule FAnd.IH(2) [rotated 2]) (use FAnd.prems False in simp_all)
    then show ?thesis using False by simp
  qed
qed (auto simp: holds_for_kw holds_for_cmp)

text \<open>Ranges, so that the text of the rule is never cut.\<close>

lemma collect_cmp_range: "in_range c \<Longrightarrow> in_range (collect_cmp fld cop v c ng)"
proof -
  have "sint v < 4294967296" using sint_less [of v] by simp
  moreover have "uint v < 4294967296" using uint_lt2p [of v] by simp
  ultimately show "in_range c \<Longrightarrow> in_range (collect_cmp fld cop v c ng)"
    by (cases fld) (simp_all add: in_range_def collect_cmp_def collect_proto_def Let_def)
qed

lemma tree_collect_range: "in_range c \<Longrightarrow> in_range (tree_collect e c ng)"
proof (induction e arbitrary: c ng)
  case (FKey k)
  then show ?case by (cases k) (simp_all add: in_range_def)
next
  case (FNot a)
  then show ?case by (simp add: in_range_def)
next
  case (FOr a b)
  then show ?case by (simp add: in_range_def)
qed (simp_all add: collect_cmp_range)

lemma range_none: "in_range no_constraints"
  by (simp add: in_range_def no_constraints_def)

text \<open>The rules for a branch that matches a packet include one that selects it.\<close>

lemma uint_nat_eq: "uint (w :: u32) = k \<Longrightarrow> unat w = nat k"
  by auto

lemma rules_of_select:
  assumes h: "holds_for c mt f" and r: "in_range c"
  shows "\<exists>r \<in> set (rules_of c). rule_selects r mt f"
proof -
  have args: "args_select (words_of [] (buildMatch c v6)) f" for v6
    using h unfolding buildMatch_selects [OF r] holds_for_def by (auto dest: uint_nat_eq)
  define r0 where "r0 = \<lparr>r_chains = k_chains c, r_match = buildMatch c (\<not> isV4 f), r_ipv6 = (\<not> isV4 f)\<rparr>"
  have "r0 \<in> set (rules_of c)" using h by (cases "isV4 f") (simp_all add: r0_def rules_of_def holds_for_def)
  moreover have "rule_selects r0 mt f" using h args by (simp add: rule_selects_def r0_def holds_for_def)
  ultimately show ?thesis by blast
qed

subsection \<open>Branches and rules of a program\<close>

primrec branches :: "fexpr \<Rightarrow> nat \<Rightarrow> fexpr list" where
  "branches (FKey k) d = [FKey k]"
| "branches (FCmp fld cop v) d = [FCmp fld cop v]"
| "branches (FNot a) d = [FNot a]"
| "branches (FAnd a b) d = [FAnd a b]"
| "branches (FOr a b) d = (if d < 16 then branches a (d + 1) @ branches b (d + 1) else [FOr a b])"

lemma branches_feval: "feval e mt f \<longleftrightarrow> (\<exists>t \<in> set (branches e d). feval t mt f)"
proof (induction e arbitrary: d)
  case (FOr a b)
  show ?case using FOr.IH(1) [of "d + 1"] FOr.IH(2) [of "d + 1"] by auto
qed simp_all

lemma branches_sound: "sound_at e False \<Longrightarrow> t \<in> set (branches e d) \<Longrightarrow> sound_at t False"
  by (induction e arbitrary: d) (auto split: if_splits)

lemma branches_nonempty [simp]: "branches e d \<noteq> []"
  by (induction e arbitrary: d) simp_all

definition branches_at :: "node list \<Rightarrow> fexpr list \<Rightarrow> int list \<Rightarrow> bool" where
  "branches_at ns ts js \<longleftrightarrow> list_all2 (\<lambda>t j. repr t ns j) ts js"

lemma take_sat: "length out \<ge> n \<Longrightarrow> take n out = out \<Longrightarrow> take n (out @ xs) = out"
  by simp

lemma splitOr_leaf:
  assumes "in_prog ns i" "n_kind (ns ! nat i) \<noteq> N_OR \<or> \<not> d < 16" "length out \<le> SPLIT_BRANCH_LIMIT"
  shows "splitOr ns i out d = take SPLIT_BRANCH_LIMIT (out @ [i])"
  using assms by (subst splitOr.simps) (auto simp: in_prog_def Let_def)

lemma kw_kind_not_or: "kw_kind k \<noteq> N_OR"
  by (cases k) simp_all

text \<open>\<open>splitOr\<close> lists the branches from left to right and stops at the limit.\<close>

lemma splitOr_branches:
  "repr e ns i \<Longrightarrow> \<exists>js. branches_at ns (branches e d) js \<and>
     (\<forall>out. length out \<le> SPLIT_BRANCH_LIMIT \<longrightarrow> splitOr ns i out d = take SPLIT_BRANCH_LIMIT (out @ js))"
proof (induction e arbitrary: i d)
  case (FOr a b)
  note r = FOr.prems
  show ?case
  proof (cases "d < 16")
    case True
    obtain ja where ja: "branches_at ns (branches a (d + 1)) ja"
      "\<And>out. length out \<le> SPLIT_BRANCH_LIMIT \<Longrightarrow>
        splitOr ns (n_left (ns ! nat i)) out (d + 1) = take SPLIT_BRANCH_LIMIT (out @ ja)"
      using FOr.IH(1) [of "n_left (ns ! nat i)" "d + 1"] r by auto
    obtain jb where jb: "branches_at ns (branches b (d + 1)) jb"
      "\<And>out. length out \<le> SPLIT_BRANCH_LIMIT \<Longrightarrow>
        splitOr ns (n_right (ns ! nat i)) out (d + 1) = take SPLIT_BRANCH_LIMIT (out @ jb)"
      using FOr.IH(2) [of "n_right (ns ! nat i)" "d + 1"] r by auto
    have "splitOr ns i out d = take SPLIT_BRANCH_LIMIT (out @ ja @ jb)" if l: "length out \<le> SPLIT_BRANCH_LIMIT" for out
    proof (cases "length out = SPLIT_BRANCH_LIMIT")
      case full: True
      then show ?thesis using r by (subst splitOr.simps) (simp add: in_prog_def)
    next
      case False
      have "splitOr ns i out d = splitOr ns (n_right (ns ! nat i)) (take SPLIT_BRANCH_LIMIT (out @ ja)) (d + 1)"
        using r True False l ja(2) [OF l] by (subst splitOr.simps) (simp add: in_prog_def Let_def)
      also have "\<dots> = take SPLIT_BRANCH_LIMIT (take SPLIT_BRANCH_LIMIT (out @ ja) @ jb)" by (rule jb(2)) simp
      also have "\<dots> = take SPLIT_BRANCH_LIMIT (out @ ja @ jb)" by (simp add: min_def)
      finally show ?thesis .
    qed
    moreover have "branches_at ns (branches (FOr a b) d) (ja @ jb)"
      using ja(1) jb(1) True by (simp add: branches_at_def list_all2_appendI)
    ultimately show ?thesis by blast
  next
    case False
    show ?thesis
    proof (intro exI [of _ "[i]"] conjI allI impI)
      show "branches_at ns (branches (FOr a b) d) [i]" using r False by (simp add: branches_at_def)
      fix out :: "int list" assume "length out \<le> SPLIT_BRANCH_LIMIT"
      then show "splitOr ns i out d = take SPLIT_BRANCH_LIMIT (out @ [i])"
        using r False by (intro splitOr_leaf) simp_all
    qed
  qed
qed (auto intro!: exI [of _ "[i]" for i] simp: splitOr_leaf branches_at_def kw_kind_not_or)

definition tree_rules :: "fexpr \<Rightarrow> rule list" where
  "tree_rules t = rules_of (tree_collect t no_constraints False)"

lemma tree_rules_length: "length (tree_rules t) \<le> 2"
  by (simp add: tree_rules_def rules_of_def)

lemma tree_rules_match: "q \<in> set (tree_rules t) \<Longrightarrow> \<exists>v6. r_match q = buildMatch (tree_collect t no_constraints False) v6"
  unfolding tree_rules_def rules_of_def by (auto split: if_splits)

lemma emitRules_repr: "repr t ns j \<Longrightarrow>
   emitRules ns j (out, ex) = Some (out @ tree_rules t, ex \<and> \<not> k_widened (tree_collect t no_constraints False))"
  by (simp add: emitRules_def collect_repr tree_rules_def)

lemma emit_all_repr: "branches_at ns ts js \<Longrightarrow>
   \<exists>ex'. emit_all ns js (out, ex) = Some (out @ concat (map tree_rules ts), ex') \<and>
     (ex' \<longleftrightarrow> ex \<and> (\<forall>t \<in> set ts. \<not> k_widened (tree_collect t no_constraints False)))"
proof (induction ts arbitrary: js out ex)
  case Nil
  then show ?case by (simp add: branches_at_def)
next
  case (Cons t ts)
  then obtain j js' where js: "js = j # js'" "repr t ns j" "branches_at ns ts js'"
    by (auto simp: branches_at_def list_all2_Cons1)
  then show ?case using Cons.IH [OF js(3), of "out @ tree_rules t" "ex \<and> \<not> k_widened (tree_collect t no_constraints False)"]
    by (auto simp: emitRules_repr)
qed

lemma dedupe_step: "set (foldl (\<lambda>uniq r. if r \<in> set uniq then uniq else uniq @ [r]) u v) = set u \<union> set v"
  by (induction v arbitrary: u) auto

lemma dedupe_set [simp]: "set (dedupeRules v) = set v"
  by (simp add: dedupeRules_def dedupe_step)

lemma dedupe_length: "length (foldl (\<lambda>uniq r. if r \<in> set uniq then uniq else uniq @ [r]) u v) \<le> length u + length v"
proof (induction v arbitrary: u)
  case (Cons r v)
  show ?case using Cons [of u] Cons [of "u @ [r]"] by auto
qed simp

lemma dedupe_distinct: "distinct u \<Longrightarrow> distinct (foldl (\<lambda>uniq r. if r \<in> set uniq then uniq else uniq @ [r]) u v)"
  by (induction v arbitrary: u) auto

lemma dedupeRules_card: "length (dedupeRules v) = card (set v)"
  using dedupe_distinct [of "[]" v] distinct_card [of "dedupeRules v"] by (simp add: dedupeRules_def [symmetric])

lemma dedupeRules_length: "length (dedupeRules v) \<le> length v"
  using dedupe_length [of "[]" v] by (simp add: dedupeRules_def)

text \<open>The two results of a derivation.\<close>

lemma derive_cases:
  assumes r: "repr e (prog_nodes pr) (prog_root pr)" and m: "2 \<le> mx"
  obtains (split) ex where "filterDeriveIptables (Some pr) mx =
        Some (dedupeRules (concat (map tree_rules (take SPLIT_BRANCH_LIMIT (branches e 0)))), ex)"
      "length (dedupeRules (concat (map tree_rules (take SPLIT_BRANCH_LIMIT (branches e 0))))) \<le> nat mx"
      "ex \<longleftrightarrow> (\<forall>t \<in> set (take SPLIT_BRANCH_LIMIT (branches e 0)). \<not> k_widened (tree_collect t no_constraints False))"
  | (wide) "filterDeriveIptables (Some pr) mx = Some (dedupeRules (tree_rules e), False)"
      "nat mx < length (dedupeRules (concat (map tree_rules (take SPLIT_BRANCH_LIMIT (branches e 0)))))"
proof -
  let ?ts = "take SPLIT_BRANCH_LIMIT (branches e 0)"
  obtain js where js: "branches_at (prog_nodes pr) (branches e 0) js"
    "splitOr (prog_nodes pr) (prog_root pr) [] 0 = take SPLIT_BRANCH_LIMIT js"
    using splitOr_branches [OF r, of 0] by auto
  have ts: "branches_at (prog_nodes pr) ?ts (take SPLIT_BRANCH_LIMIT js)"
    using js(1) by (simp add: branches_at_def list_all2_takeI)
  have ne: "take SPLIT_BRANCH_LIMIT js \<noteq> []"
    using js(1) branches_nonempty [of e 0] by (auto simp: branches_at_def SPLIT_BRANCH_LIMIT_def)
  obtain ex where em: "emit_all (prog_nodes pr) (take SPLIT_BRANCH_LIMIT js) ([], True) = Some (concat (map tree_rules ?ts), ex)"
    "ex \<longleftrightarrow> (\<forall>t \<in> set ?ts. \<not> k_widened (tree_collect t no_constraints False))"
    using emit_all_repr [OF ts, of "[]" True] by auto
  have pos: "0 \<le> prog_root pr" using repr_in_prog [OF r] by (simp add: in_prog_def)
  have eq: "filterDeriveIptables (Some pr) mx =
     (if length (dedupeRules (concat (map tree_rules ?ts))) > nat mx then
        Some (take (nat mx) (dedupeRules (tree_rules e)), False)
      else Some (take (nat mx) (dedupeRules (concat (map tree_rules ?ts))), ex))"
    using m pos ne js(2) em(1) emitRules_repr [OF r, of "[]" False]
    by (simp add: filterDeriveIptables_def Let_def)
  have two: "length (dedupeRules (tree_rules e)) \<le> nat mx"
    using dedupeRules_length [of "tree_rules e"] tree_rules_length [of e] m by linarith
  show ?thesis
  proof (cases "length (dedupeRules (concat (map tree_rules ?ts))) > nat mx")
    case True
    then show ?thesis using eq two by (intro wide) simp_all
  next
    case False
    then show ?thesis using eq em(2) by (intro split [of ex]) simp_all
  qed
qed

lemma tree_rules_superset:
  assumes "sane_packet f" "sound_at t False" "feval t mt f"
  shows "\<exists>r \<in> set (tree_rules t). rule_selects r mt f"
  unfolding tree_rules_def
  by (intro rules_of_select tree_collect_range range_none collect_sound holds_for_none) (use assms in simp_all)

subsection \<open>Properties\<close>

text \<open>C8: The derived rules select every well-formed packet the filter matches, provided that no NOT
  stands under an AND under a NOT and that there are at most 64 branches; and no more rules are returned
  than were asked for.\<close>

theorem derived_rules_superset:
  assumes "repr e (prog_nodes pr) (prog_root pr)" "2 \<le> mx"
    "sound_at e False" "length (branches e 0) \<le> SPLIT_BRANCH_LIMIT"
  shows "\<exists>rules ex. filterDeriveIptables (Some pr) mx = Some (rules, ex) \<and> length rules \<le> nat mx \<and>
    (\<forall>mt p. filterMatch (Some pr) mt p = Some True \<longrightarrow> sane_packet (extractFields p no_fields) \<longrightarrow>
       (\<exists>r \<in> set rules. rule_selects r mt (extractFields p no_fields)))"
proof -
  have sel: "\<exists>r \<in> set (tree_rules t). rule_selects r mt (extractFields p no_fields)"
    if "sound_at t False" "feval t mt (extractFields p no_fields)" "sane_packet (extractFields p no_fields)" for t mt p
    using tree_rules_superset [OF that(3,1,2)] .
  have m: "filterMatch (Some pr) mt p = Some True \<longleftrightarrow> feval e mt (extractFields p no_fields)" for mt p
    using filterMatch_repr [OF assms(1)] by simp
  show ?thesis
    using assms(1,2)
  proof (cases rule: derive_cases)
    case (split ex)
    have "\<exists>r \<in> set (dedupeRules (concat (map tree_rules (take SPLIT_BRANCH_LIMIT (branches e 0))))).
        rule_selects r mt (extractFields p no_fields)"
      if ev: "feval e mt (extractFields p no_fields)" "sane_packet (extractFields p no_fields)" for mt p
    proof -
      obtain t where t: "t \<in> set (branches e 0)" "feval t mt (extractFields p no_fields)"
        using iffD1 [OF branches_feval ev(1), of 0] by blast
      then show ?thesis using sel [OF branches_sound [OF assms(3) t(1)] t(2) ev(2)] assms(4) by auto
    qed
    then show ?thesis using split m by blast
  next
    case wide
    have "length (dedupeRules (tree_rules e)) \<le> nat mx"
      using dedupeRules_length [of "tree_rules e"] tree_rules_length [of e] assms(2) by linarith
    then show ?thesis using wide(1) m sel [OF assms(3)] by auto
  qed
qed

theorem derived_rules_superset_witness:
  "\<exists>rules ex. filterDeriveIptables (Some \<lparr>prog_nodes = tree_nodes (FOr (FKey K_INBOUND) (FCmp F_UDP_DSTPORT OP_EQ 7777)) 0,
      prog_root = 2\<rparr>) 8 = Some (rules, ex) \<and> length rules \<le> nat 8 \<and>
    (\<forall>mt p. filterMatch (Some \<lparr>prog_nodes = tree_nodes (FOr (FKey K_INBOUND) (FCmp F_UDP_DSTPORT OP_EQ 7777)) 0,
        prog_root = 2\<rparr>) mt p = Some True \<longrightarrow> sane_packet (extractFields p no_fields) \<longrightarrow>
       (\<exists>r \<in> set rules. rule_selects r mt (extractFields p no_fields)))"
  by (rule derived_rules_superset [of "FOr (FKey K_INBOUND) (FCmp F_UDP_DSTPORT OP_EQ 7777)"])
    (use tree_nodes_repr0 [of "FOr (FKey K_INBOUND) (FCmp F_UDP_DSTPORT OP_EQ 7777)"] in
      \<open>simp_all add: SPLIT_BRANCH_LIMIT_def\<close>)

text \<open>An outbound IPv4 packet of 28 bytes, of the given protocol, with two ports.\<close>

definition sample_packet :: "u8 \<Rightarrow> u8 \<Rightarrow> u8 list" where
  "sample_packet pr port = [0x45, 0, 0, 28, 0, 0, 0, 0, 64, pr, 0, 0, 10, 0, 0, 1, 10, 0, 0, 2, 0, port, 0, port, 0, 8, 0, 0]"

definition outbound_meta :: packet_meta where
  "outbound_meta = zero_meta\<lparr>outbound := True, ipVersion := 4\<rparr>"

lemma sample_fields: "extractFields (sample_packet pr port) no_fields =
   extract_ports (sample_packet pr port) 20 \<lparr>valid = False, isV4 = True, srcAddr = 0x0A000001, dstAddr = 0x0A000002,
     protocol = ucast pr, hasPorts = False, srcPort = 0, dstPort = 0\<rparr>"
  unfolding extractFields_def sample_packet_def read32be_def read16be_def be16_def no_fields_def by simp

text \<open>Without the first condition the promise fails: for \<open>not (tcp and not udp)\<close> the only rules are
  those for UDP, and an ICMP packet the filter matches reaches neither.\<close>

theorem nested_not_narrows:
  "\<exists>pr rules ex. filterCompile (Some ''not (ip.Protocol == 6 and not ip.Protocol == 17)'') 256 = Some (Inr pr) \<and>
     filterDeriveIptables (Some pr) 8 = Some (rules, ex) \<and>
     filterMatch (Some pr) outbound_meta (sample_packet 1 0) = Some True \<and>
     sane_packet (extractFields (sample_packet 1 0) no_fields) \<and>
     (\<forall>r \<in> set rules. \<not> rule_selects r outbound_meta (extractFields (sample_packet 1 0) no_fields))"
proof -
  let ?e = "FNot (FAnd (FCmp F_IP_PROTO OP_EQ 6) (FNot (FCmp F_IP_PROTO OP_EQ 17)))"
  let ?f = "extractFields (sample_packet 1 0) no_fields"
  let ?pr = "\<lparr>prog_nodes = tree_nodes ?e 0, prog_root = int (length (tree_nodes ?e 0)) - 1\<rparr>"
  have written: "print_at ?e 0 = ''not (ip.Protocol == 6 and not ip.Protocol == 17)''"
    by code_simp
  have f: "valid ?f" "isV4 ?f" "protocol ?f = 1" unfolding sample_fields by (simp_all add: extract_ports_def)
  have r: "repr ?e (prog_nodes ?pr) (prog_root ?pr)" using tree_nodes_repr0 [of ?e] by (simp only: filter_program.simps)
  have k: "k_proto (tree_collect ?e no_constraints False) = 17"
    by (simp add: collect_cmp_def collect_proto_def no_constraints_def Let_def)
  have ir: "in_range (tree_collect ?e no_constraints False)" by (rule tree_collect_range [OF range_none])
  have none: "\<not> rule_selects q outbound_meta ?f" if q: "q \<in> set (tree_rules ?e)" for q
  proof -
    obtain v6 where "r_match q = buildMatch (tree_collect ?e no_constraints False) v6"
      using tree_rules_match [OF q] by blast
    then have "\<not> args_select (words_of [] (r_match q)) ?f"
      using buildMatch_selects [OF ir, of v6 ?f] k f(3) by auto
    then show ?thesis by (simp add: rule_selects_def)
  qed
  have m: "filterMatch (Some ?pr) outbound_meta (sample_packet 1 0) = Some True"
    unfolding filterMatch_repr [OF r] using f by (simp add: eval_cmp_def compare_op_def)
  have s: "sane_packet ?f" using f by (simp add: sane_packet_def)
  obtain rules ex where d: "filterDeriveIptables (Some ?pr) 8 = Some (rules, ex)" "set rules \<subseteq> set (tree_rules ?e)"
    by (rule derive_cases [OF r, of 8]) (auto simp: SPLIT_BRANCH_LIMIT_def)
  have c: "filterCompile (Some ''not (ip.Protocol == 6 and not ip.Protocol == 17)'') 256 = Some (Inr ?pr)"
    using compile_print [of ?e 256] unfolding written .
  show ?thesis using c d m s none by blast
qed

text \<open>A balanced OR of \<open>2 ^ n\<close> copies of a term.\<close>

primrec or_tree :: "fexpr \<Rightarrow> nat \<Rightarrow> fexpr" where
  "or_tree t 0 = t"
| "or_tree t (Suc n) = FOr (or_tree t n) (or_tree t n)"

lemma branches_or_tree:
  assumes "branches t (d + n) = [t]" "d + n \<le> 16" shows "branches (or_tree t n) d = replicate (2 ^ n) t"
  using assms
proof (induction n arbitrary: d)
  case (Suc n)
  have "branches (or_tree t n) (d + 1) = replicate (2 ^ n) t" by (rule Suc.IH) (use Suc.prems in simp_all)
  then show ?case using Suc.prems(2) by (simp add: mult_2 replicate_add)
qed simp

text \<open>Without the second condition it fails too: after 64 branches on one UDP port a 65th on TCP gives
  no rule, and the TCP packets the filter matches are not selected.\<close>

theorem branch_limit_narrows:
  "\<exists>e pr rules ex. filterCompile (Some (print_at e 0)) 256 = Some (Inr pr) \<and> sound_at e False \<and>
     filterDeriveIptables (Some pr) 8 = Some (rules, ex) \<and>
     filterMatch (Some pr) outbound_meta (sample_packet 6 0) = Some True \<and>
     sane_packet (extractFields (sample_packet 6 0) no_fields) \<and>
     (\<forall>r \<in> set rules. \<not> rule_selects r outbound_meta (extractFields (sample_packet 6 0) no_fields))"
proof -
  let ?u = "FCmp F_UDP_DSTPORT OP_EQ 7777"
  define e where "e = FOr (or_tree ?u 6) (FCmp F_IP_PROTO OP_EQ 6)"
  let ?f = "extractFields (sample_packet 6 0) no_fields"
  let ?pr = "\<lparr>prog_nodes = tree_nodes e 0, prog_root = int (length (tree_nodes e 0)) - 1\<rparr>"
  have f: "valid ?f" "isV4 ?f" "protocol ?f = 6" unfolding sample_fields by (simp_all add: extract_ports_def)
  have r: "repr e (prog_nodes ?pr) (prog_root ?pr)" using tree_nodes_repr0 [of e] by (simp only: filter_program.simps)
  have b: "take SPLIT_BRANCH_LIMIT (branches e 0) = replicate 64 ?u"
    using branches_or_tree [of ?u 1 6] by (simp add: e_def SPLIT_BRANCH_LIMIT_def)
  have few: "length (dedupeRules (concat (map tree_rules (replicate 64 ?u)))) \<le> 2"
  proof -
    have "set (concat (map tree_rules (replicate 64 ?u))) = set (tree_rules ?u)" by simp
    moreover have "card (set (tree_rules ?u)) \<le> 2"
      using card_length [of "tree_rules ?u"] tree_rules_length [of ?u] by linarith
    ultimately show ?thesis by (simp only: dedupeRules_card)
  qed
  obtain rules ex where d: "filterDeriveIptables (Some ?pr) 8 = Some (rules, ex)" "set rules = set (tree_rules ?u)"
    using few by (rule_tac derive_cases [OF r, of 8]) (auto simp: b)
  have k: "k_proto (tree_collect ?u no_constraints False) = 17"
    by (simp add: collect_cmp_def no_constraints_def)
  have ir: "in_range (tree_collect ?u no_constraints False)" by (rule tree_collect_range [OF range_none])
  have none: "\<not> rule_selects q outbound_meta ?f" if q: "q \<in> set rules" for q
  proof -
    obtain v6 where "r_match q = buildMatch (tree_collect ?u no_constraints False) v6"
      using tree_rules_match [of q ?u] q unfolding d(2) by blast
    then have "\<not> args_select (words_of [] (r_match q)) ?f"
      using buildMatch_selects [OF ir, of v6 ?f] k f(3) by auto
    then show ?thesis by (simp add: rule_selects_def)
  qed
  have so: "sound_at (or_tree ?u n) False" for n by (induction n) simp_all
  have "feval e outbound_meta ?f" using f by (simp add: e_def eval_cmp_def compare_op_def)
  then have m: "filterMatch (Some ?pr) outbound_meta (sample_packet 6 0) = Some True"
    unfolding filterMatch_repr [OF r] by simp
  have s: "sane_packet ?f" using f by (simp add: sane_packet_def)
  have "sound_at e False" using so by (simp add: e_def)
  then show ?thesis using compile_print [of e 256] d(1) m s none by blast
qed

end
