(* ===== verification/Iptables.thy ===== *)
theory Iptables
  imports Filter_Rules
begin

text \<open>
  \<^verbatim>\<open>src/src/iptables_linux.cpp\<close>: installing the rules derived from the filter and taking them out
  again. The \<^verbatim>\<open>iptables\<close> program is not part of the repository: it is the parameter \<open>run\<close>, called
  with the tool, \<^verbatim>\<open>-I\<close> or \<^verbatim>\<open>-D\<close>, the chain, the rule text and the kernel's state, answering with
  its exit status and the new state; \<open>view\<close> reads a chain out of that state. What the code relies on is
  \<open>iptables_documented\<close> (insertion prepends, deletion takes the first equal rule, a failing call
  changes nothing).
\<close>

type_synonym 'k iptables_run = "string \<Rightarrow> string \<Rightarrow> string \<Rightarrow> string \<Rightarrow> 'k \<Rightarrow> int \<times> 'k"
type_synonym tables = "string \<times> string \<Rightarrow> string list"

definition MAX_INSTALLED :: nat where
  "MAX_INSTALLED = 24"

record installed_rule =
  i_tool :: string
  i_chain :: string
  i_spec :: string

record 'k iptables =
  installed :: "installed_rule list"
  autoEnabled :: bool
  kern :: 'k

definition iptables_init :: "'k \<Rightarrow> 'k iptables" where
  "iptables_init k = \<lparr>installed = [], autoEnabled = False, kern = k\<rparr>"

subsection \<open>The operations\<close>

definition recordAndInstall ::
  "'k iptables_run \<Rightarrow> string \<Rightarrow> string \<Rightarrow> string \<Rightarrow> 'k iptables \<Rightarrow> bool \<times> 'k iptables" where
  "recordAndInstall run tool chain spec s =
     (if length (installed s) \<ge> MAX_INSTALLED then (False, s)
      else (case run tool ''-I'' chain spec (kern s) of (rc, k) \<Rightarrow>
        if rc \<noteq> 0 then (False, s\<lparr>kern := k\<rparr>)
        else (True, s\<lparr>kern := k, installed := installed s @
               [\<lparr>i_tool = snprintf 16 tool, i_chain = snprintf 16 chain, i_spec = snprintf 320 spec\<rparr>]\<rparr>)))"

text \<open>The loop of \<^verbatim>\<open>iptablesAutoRemove\<close>, last installed first; failures are only counted.\<close>

fun remove_loop :: "'k iptables_run \<Rightarrow> installed_rule list \<Rightarrow> nat \<Rightarrow> 'k \<Rightarrow> nat \<times> 'k" where
  "remove_loop run [] failures k = (failures, k)"
| "remove_loop run (r # rs) failures k =
     (case run (i_tool r) ''-D'' (i_chain r) (i_spec r) k of (rc, k) \<Rightarrow>
        remove_loop run rs (if rc \<noteq> 0 then failures + 1 else failures) k)"

definition iptablesAutoRemove :: "'k iptables_run \<Rightarrow> 'k iptables \<Rightarrow> 'k iptables" where
  "iptablesAutoRemove run s =
     (if installed s = [] then s
      else s\<lparr>kern := snd (remove_loop run (rev (installed s)) 0 (kern s)), installed := [], autoEnabled := False\<rparr>)"

definition queue_spec :: "rule \<Rightarrow> int \<Rightarrow> string" where
  "queue_spec r queueNum =
     snprintf 320 (r_match r @ '' -j NFQUEUE --queue-num '' @ show_int queueNum @ '' --queue-bypass'')"

fun show_hex :: "nat \<Rightarrow> string" where
  "show_hex n = (if n < 16 then [] else show_hex (n div 16)) @
     [if n mod 16 < 10 then digit_char (n mod 16) else char_of (87 + n mod 16)]"

declare show_hex.simps [simp del]

definition bypass_spec :: "u32 \<Rightarrow> string" where
  "bypass_spec mark = snprintf 320 (''-m mark --mark 0x'' @ show_hex (unat mark) @ '' -j ACCEPT'')"

definition tool_of :: "rule \<Rightarrow> string" where
  "tool_of r = (if r_ipv6 r then ''ip6tables'' else ''iptables'')"

text \<open>One derived rule: into \<^verbatim>\<open>OUTPUT\<close>, then into \<^verbatim>\<open>INPUT\<close>, as its chain mask says.\<close>

definition install_rule :: "'k iptables_run \<Rightarrow> int \<Rightarrow> rule \<Rightarrow> 'k iptables \<Rightarrow> bool \<times> 'k iptables" where
  "install_rule run queueNum r s =
     (let spec = queue_spec r queueNum in
      case (if r_chains r AND IPT_CHAIN_OUTPUT \<noteq> 0 then recordAndInstall run (tool_of r) ''OUTPUT'' spec s else (True, s)) of
        (ok, s) \<Rightarrow>
          if \<not> ok then (False, s)
          else if r_chains r AND IPT_CHAIN_INPUT \<noteq> 0 then recordAndInstall run (tool_of r) ''INPUT'' spec s
          else (True, s))"

fun install_rules :: "'k iptables_run \<Rightarrow> int \<Rightarrow> rule list \<Rightarrow> 'k iptables \<Rightarrow> bool \<times> 'k iptables" where
  "install_rules run queueNum [] s = (True, s)"
| "install_rules run queueNum (r # rs) s =
     (case install_rule run queueNum r s of (ok, s) \<Rightarrow> if ok then install_rules run queueNum rs s else (False, s))"

text \<open>The mark bypass goes last, so that it ends up first in its chain.\<close>

definition install_bypass :: "'k iptables_run \<Rightarrow> u32 \<Rightarrow> bool \<Rightarrow> bool \<Rightarrow> 'k iptables \<Rightarrow> bool \<times> 'k iptables" where
  "install_bypass run mark anyV4 anyV6 s =
     (case (if anyV4 then recordAndInstall run ''iptables'' ''OUTPUT'' (bypass_spec mark) s else (True, s)) of
        (ok, s) \<Rightarrow>
          if \<not> ok then (False, s)
          else if anyV6 then recordAndInstall run ''ip6tables'' ''OUTPUT'' (bypass_spec mark) s
          else (True, s))"

definition iptablesAutoInstall ::
  "'k iptables_run \<Rightarrow> bool \<Rightarrow> filter_program option \<Rightarrow> int \<Rightarrow> u32 \<Rightarrow> 'k iptables \<Rightarrow> (bool \<times> 'k iptables) option" where
  "iptablesAutoInstall run requested prog queueNum mark s =
     (if \<not> requested then Some (True, s\<lparr>autoEnabled := False\<rparr>)
      else case filterDeriveIptables prog (int MAX_DERIVED_RULES) of
        None \<Rightarrow> None
      | Some (rules, exact) \<Rightarrow>
          if rules = [] then Some (False, s)
          else
            let s = s\<lparr>installed := [], autoEnabled := True\<rparr>;
                rollback = (\<lambda>s. (iptablesAutoRemove run s)\<lparr>autoEnabled := False\<rparr>)
            in case install_rules run queueNum rules s of (ok, s) \<Rightarrow>
                 if \<not> ok then Some (False, rollback s)
                 else case install_bypass run mark (\<exists>r \<in> set rules. \<not> r_ipv6 r) (\<exists>r \<in> set rules. r_ipv6 r) s of (ok, s) \<Rightarrow>
                   Some (if ok then (True, s) else (False, rollback s)))"

subsection \<open>What the tool is relied on for\<close>

definition iptables_documented :: "'k iptables_run \<Rightarrow> ('k \<Rightarrow> tables) \<Rightarrow> bool" where
  "iptables_documented run view \<longleftrightarrow>
     (\<forall>tool chain spec k rc k'. run tool ''-I'' chain spec k = (rc, k') \<longrightarrow>
        view k' = (if rc = 0 then (view k)((tool, chain) := spec # view k (tool, chain)) else view k)) \<and>
     (\<forall>tool chain spec k rc k'. run tool ''-D'' chain spec k = (rc, k') \<longrightarrow>
        view k' = (if rc = 0 then (view k)((tool, chain) := remove1 spec (view k (tool, chain))) else view k))"

definition deletes_present :: "'k iptables_run \<Rightarrow> ('k \<Rightarrow> tables) \<Rightarrow> bool" where
  "deletes_present run view \<longleftrightarrow>
     (\<forall>tool chain spec k. spec \<in> set (view k (tool, chain)) \<longrightarrow> fst (run tool ''-D'' chain spec k) = 0)"

text \<open>The tables after prepending the recorded rules, oldest first.\<close>

definition prepend_rule :: "installed_rule \<Rightarrow> tables \<Rightarrow> tables" where
  "prepend_rule r v = v((i_tool r, i_chain r) := i_spec r # v (i_tool r, i_chain r))"

definition tracks :: "('k \<Rightarrow> tables) \<Rightarrow> tables \<Rightarrow> 'k iptables \<Rightarrow> bool" where
  "tracks view v0 s \<longleftrightarrow> view (kern s) = fold prepend_rule (installed s) v0"

lemma record_tracks:
  assumes doc: "iptables_documented run view" and t: "tracks view v0 s"
    and r: "recordAndInstall run tool chain spec s = (ok, s')"
    and short: "length tool < 16" "length chain < 16" "length spec < 320"
  shows "tracks view v0 s'"
proof (cases "length (installed s) \<ge> MAX_INSTALLED")
  case True
  then show ?thesis using r t by (simp add: recordAndInstall_def)
next
  case False
  obtain rc k where run: "run tool ''-I'' chain spec (kern s) = (rc, k)" by (metis surj_pair)
  have k: "view k = (if rc = 0 then (view (kern s))((tool, chain) := spec # view (kern s) (tool, chain)) else view (kern s))"
    using doc run unfolding iptables_documented_def by blast
  show ?thesis using r t False run k short
    by (auto simp: recordAndInstall_def tracks_def snprintf_def prepend_rule_def split: if_splits)
qed

subsection \<open>What is installed\<close>

definition planned_rule :: "int \<Rightarrow> rule \<Rightarrow> installed_rule list" where
  "planned_rule queueNum r =
     (if r_chains r AND IPT_CHAIN_OUTPUT \<noteq> 0
      then [\<lparr>i_tool = tool_of r, i_chain = ''OUTPUT'', i_spec = queue_spec r queueNum\<rparr>] else []) @
     (if r_chains r AND IPT_CHAIN_INPUT \<noteq> 0
      then [\<lparr>i_tool = tool_of r, i_chain = ''INPUT'', i_spec = queue_spec r queueNum\<rparr>] else [])"

definition planned_bypass :: "u32 \<Rightarrow> rule list \<Rightarrow> installed_rule list" where
  "planned_bypass mark rules =
     (if \<exists>r \<in> set rules. \<not> r_ipv6 r
      then [\<lparr>i_tool = ''iptables'', i_chain = ''OUTPUT'', i_spec = bypass_spec mark\<rparr>] else []) @
     (if \<exists>r \<in> set rules. r_ipv6 r
      then [\<lparr>i_tool = ''ip6tables'', i_chain = ''OUTPUT'', i_spec = bypass_spec mark\<rparr>] else [])"

definition planned :: "int \<Rightarrow> u32 \<Rightarrow> rule list \<Rightarrow> installed_rule list" where
  "planned queueNum mark rules = concat (map (planned_rule queueNum) rules) @ planned_bypass mark rules"

text \<open>A step that installs a list of rules, all of them or, failing, a part of them.\<close>

definition installs :: "('k \<Rightarrow> tables) \<Rightarrow> tables \<Rightarrow> 'k iptables \<Rightarrow> installed_rule list \<Rightarrow> bool \<times> 'k iptables \<Rightarrow> bool" where
  "installs view v0 s rs res \<longleftrightarrow> (tracks view v0 s \<longrightarrow> tracks view v0 (snd res)) \<and>
     (fst res \<longrightarrow> installed (snd res) = installed s @ rs) \<and> autoEnabled (snd res) = autoEnabled s"

lemma snprintf_length: "0 < n \<Longrightarrow> int (length (snprintf n t)) < n"
  by (simp add: snprintf_def)

lemma spec_lengths [simp]: "length (queue_spec r q) < 320" "length (bypass_spec m) < 320"
  using snprintf_length [of 320] by (simp_all add: queue_spec_def bypass_spec_def)

lemma snprintf_short: "int (length t) < n \<Longrightarrow> snprintf n t = t"
  by (simp add: snprintf_def)

lemma tool_short [simp]: "length (tool_of r) < 16"
  by (simp add: tool_of_def)

lemma record_installs:
  assumes doc: "iptables_documented run view" and short: "length tool < 16" "length chain < 16" "length sp < 320"
  shows "installs view v0 s [\<lparr>i_tool = tool, i_chain = chain, i_spec = sp\<rparr>] (recordAndInstall run tool chain sp s)"
  unfolding installs_def
  using record_tracks [OF doc _ _ short, of v0 s "fst (recordAndInstall run tool chain sp s)"] short
  by (auto simp: recordAndInstall_def snprintf_short split: prod.splits)

lemma installs_none: "installs view v0 s [] (True, s)"
  by (simp add: installs_def)

lemma installs_seq:
  assumes "installs view v0 s rs res" "\<And>s. installs view v0 s rs' (f s)"
  shows "installs view v0 s (rs @ rs') (case res of (ok, s) \<Rightarrow> if \<not> ok then (False, s) else f s)"
  using assms(1) assms(2) [of "snd res"] by (cases res) (auto simp: installs_def)

lemma rule_installs:
  assumes doc: "iptables_documented run view"
  shows "installs view v0 s (planned_rule q r) (install_rule run q r s)"
  unfolding install_rule_def planned_rule_def Let_def
  by (rule installs_seq) (auto intro: record_installs [OF doc] installs_none)

lemma rules_install:
  assumes doc: "iptables_documented run view"
  shows "installs view v0 s (concat (map (planned_rule q) rs)) (install_rules run q rs s)"
proof (induction rs arbitrary: s)
  case Nil
  then show ?case by (simp add: installs_none)
next
  case (Cons r rs)
  have "install_rules run q (r # rs) s =
      (case install_rule run q r s of (ok, s) \<Rightarrow> if \<not> ok then (False, s) else install_rules run q rs s)"
    by (simp split: prod.splits)
  then show ?case using installs_seq [OF rule_installs [OF doc] Cons.IH] by (simp only: list.map concat.simps)
qed

lemma bypass_installs:
  assumes doc: "iptables_documented run view"
  shows "installs view v0 s (planned_bypass mark rules)
    (install_bypass run mark (\<exists>r \<in> set rules. \<not> r_ipv6 r) (\<exists>r \<in> set rules. r_ipv6 r) s)"
  unfolding install_bypass_def planned_bypass_def
  by (rule installs_seq) (auto intro: record_installs [OF doc] installs_none)

text \<open>Removal undoes the recorded insertions, newest first.\<close>

lemma remove_loop_restores:
  assumes doc: "iptables_documented run view" and del: "deletes_present run view"
  shows "view k = fold prepend_rule rs v0 \<Longrightarrow> remove_loop run (rev rs) n k = (m, k') \<Longrightarrow> m = n \<and> view k' = v0"
proof (induction rs arbitrary: k k' rule: rev_induct)
  case Nil
  then show ?case by simp
next
  case (snoc r rs)
  obtain rc k1 where run: "run (i_tool r) ''-D'' (i_chain r) (i_spec r) k = (rc, k1)" by (metis surj_pair)
  have v: "view k = prepend_rule r (fold prepend_rule rs v0)" using snoc.prems(1) by simp
  then have "i_spec r \<in> set (view k (i_tool r, i_chain r))" by (simp add: prepend_rule_def)
  then have rc: "rc = 0" using del run unfolding deletes_present_def by (metis fst_conv)
  have "view k1 = (view k)((i_tool r, i_chain r) := remove1 (i_spec r) (view k (i_tool r, i_chain r)))"
    using doc run rc unfolding iptables_documented_def by (metis (no_types, lifting))
  then have "view k1 = fold prepend_rule rs v0" by (simp add: v prepend_rule_def)
  then show ?case using snoc.IH [of k1 k'] snoc.prems(2) run rc by simp
qed

lemma remove_restores:
  assumes "iptables_documented run view" "deletes_present run view" "tracks view v0 s"
  shows "view (kern (iptablesAutoRemove run s)) = v0 \<and> installed (iptablesAutoRemove run s) = []"
proof (cases "installed s = []")
  case True
  then show ?thesis using assms(3) by (simp add: iptablesAutoRemove_def tracks_def)
next
  case False
  obtain m k' where "remove_loop run (rev (installed s)) 0 (kern s) = (m, k')" by (metis surj_pair)
  with remove_loop_restores [OF assms(1,2) assms(3)[unfolded tracks_def] this] False show ?thesis
    by (simp add: iptablesAutoRemove_def)
qed

text \<open>The result of an installation that was asked for.\<close>

lemma auto_install_cases:
  assumes doc: "iptables_documented run view"
    and r: "iptablesAutoInstall run True prog q mark s = Some (ok, s')"
  obtains (none_derived) exact where "filterDeriveIptables prog (int MAX_DERIVED_RULES) = Some ([], exact)" "\<not> ok" "s' = s"
  | (all_in) rules exact where "filterDeriveIptables prog (int MAX_DERIVED_RULES) = Some (rules, exact)" "rules \<noteq> []" "ok"
      "installed s' = planned q mark rules" "tracks view (view (kern s)) s'"
  | (rolled_back) t where "\<not> ok" "tracks view (view (kern s)) t" "s' = (iptablesAutoRemove run t)\<lparr>autoEnabled := False\<rparr>"
proof -
  obtain rules exact where d: "filterDeriveIptables prog (int MAX_DERIVED_RULES) = Some (rules, exact)"
    using r by (auto simp: iptablesAutoInstall_def split: option.splits)
  let ?s = "s\<lparr>installed := [], autoEnabled := True\<rparr>"
  obtain ok1 s1 where i1: "install_rules run q rules ?s = (ok1, s1)" by (metis surj_pair)
  obtain ok2 s2 where i2: "install_bypass run mark (\<exists>r \<in> set rules. \<not> r_ipv6 r) (\<exists>r \<in> set rules. r_ipv6 r) s1 = (ok2, s2)"
    by (metis surj_pair)
  have t0: "tracks view (view (kern s)) ?s" by (simp add: tracks_def)
  have t1: "tracks view (view (kern s)) s1" "ok1 \<Longrightarrow> installed s1 = concat (map (planned_rule q) rules)"
    using rules_install [OF doc, of "view (kern s)" ?s q rules] t0 by (auto simp: i1 installs_def)
  have t2: "tracks view (view (kern s)) s2" "ok2 \<Longrightarrow> installed s2 = installed s1 @ planned_bypass mark rules"
    using bypass_installs [OF doc, of "view (kern s)" s1 mark rules] t1(1) by (auto simp: i2 installs_def)
  note body = r [unfolded iptablesAutoInstall_def d, simplified, unfolded Let_def]
  show ?thesis
  proof (cases "rules = []")
    case True
    then have "\<not> ok" "s' = s" using body by auto
    then show ?thesis by (rule none_derived [OF d [unfolded True]])
  next
    case ne: False
    show ?thesis
    proof (cases ok1)
      case False
      then show ?thesis using body ne i1 by (intro rolled_back [OF _ t1(1)]) auto
    next
      case ok1: True
      show ?thesis
      proof (cases ok2)
        case False
        then show ?thesis using body ne i1 i2 ok1 by (intro rolled_back [OF _ t2(1)]) auto
      next
        case True
        then show ?thesis using body ne i1 i2 ok1 d t1 t2 by (intro all_in [of rules exact]) (auto simp: planned_def)
      qed
    qed
  qed
qed

lemma in_fold_prepend:
  "x \<in> set (v (t, c)) \<Longrightarrow> x \<in> set (fold prepend_rule rs v (t, c))"
proof (induction rs arbitrary: v)
  case (Cons r rs)
  have "x \<in> set (prepend_rule r v (t, c))" using Cons.prems by (auto simp: prepend_rule_def)
  from Cons.IH [of "prepend_rule r v", OF this] show ?case by simp
qed simp

lemma fold_prepend_has:
  "r \<in> set rs \<Longrightarrow> i_spec r \<in> set (fold prepend_rule rs v (i_tool r, i_chain r))"
proof (induction rs arbitrary: v)
  case (Cons a rs)
  show ?case
  proof (cases "r \<in> set rs")
    case True
    then show ?thesis using Cons.IH by simp
  next
    case False
    then have "a = r" using Cons.prems by simp
    moreover have "i_spec r \<in> set (prepend_rule r v (i_tool r, i_chain r))" by (simp add: prepend_rule_def)
    ultimately show ?thesis using in_fold_prepend [of _ "prepend_rule r v"] by simp
  qed
qed simp

lemma bypass_top:
  assumes "r \<in> set rules"
  shows "fold prepend_rule (planned_bypass mark rules) v (tool_of r, ''OUTPUT'') = bypass_spec mark # v (tool_of r, ''OUTPUT'')"
proof (cases "r_ipv6 r")
  case True
  then show ?thesis using assms by (auto simp: planned_bypass_def prepend_rule_def tool_of_def)
next
  case False
  then show ?thesis using assms by (auto simp: planned_bypass_def prepend_rule_def tool_of_def)
qed

lemma derived_at_most: "filterDeriveIptables prog n = Some (rules, exact) \<Longrightarrow> length rules \<le> nat n"
  by (auto simp: filterDeriveIptables_def Let_def split: option.splits if_splits Option.bind_splits)

text \<open>An \<^verbatim>\<open>iptables\<close> whose insertions succeed, on a table given as a function.\<close>

definition always_inserts :: "'k iptables_run \<Rightarrow> bool" where
  "always_inserts run \<longleftrightarrow> (\<forall>tool chain sp k. fst (run tool ''-I'' chain sp k) = 0)"

definition table_iptables :: "tables iptables_run" where
  "table_iptables tool op chain sp k =
     (if op = ''-I'' then (0, k((tool, chain) := sp # k (tool, chain)))
      else if sp \<in> set (k (tool, chain)) then (0, k((tool, chain) := remove1 sp (k (tool, chain))))
      else (1, k))"

lemma table_iptables_ok:
  "iptables_documented table_iptables id" "deletes_present table_iptables id" "always_inserts table_iptables"
  by (auto simp: iptables_documented_def deletes_present_def always_inserts_def table_iptables_def)

lemma record_succeeds:
  assumes "always_inserts run" "length (installed s) < MAX_INSTALLED"
  shows "\<exists>s'. recordAndInstall run tool chain sp s = (True, s') \<and> length (installed s') = Suc (length (installed s))"
  using assms by (auto simp: recordAndInstall_def always_inserts_def split: prod.splits) (metis fst_conv)

lemma maybe_succeeds:
  assumes "always_inserts run" "length (installed s) < MAX_INSTALLED"
  obtains s' where "(if c then recordAndInstall run tool chain sp s else (True, s)) = (True, s')"
    "length (installed s') \<le> length (installed s) + 1"
  using record_succeeds [OF assms, of tool chain sp] by (cases c) auto

lemma rule_succeeds:
  assumes "always_inserts run" "length (installed s) + 2 \<le> MAX_INSTALLED"
  shows "\<exists>s'. install_rule run q r s = (True, s') \<and> length (installed s') \<le> length (installed s) + 2"
proof -
  obtain s1 where s1: "(if r_chains r AND IPT_CHAIN_OUTPUT \<noteq> 0 then recordAndInstall run (tool_of r) ''OUTPUT'' (queue_spec r q) s
      else (True, s)) = (True, s1)" "length (installed s1) \<le> length (installed s) + 1"
    by (rule maybe_succeeds [OF assms(1), of s]) (use assms(2) in auto)
  obtain s2 where "(if r_chains r AND IPT_CHAIN_INPUT \<noteq> 0 then recordAndInstall run (tool_of r) ''INPUT'' (queue_spec r q) s1
      else (True, s1)) = (True, s2)" "length (installed s2) \<le> length (installed s1) + 1"
    by (rule maybe_succeeds [OF assms(1), of s1]) (use s1(2) assms(2) in auto)
  then show ?thesis using s1 by (auto simp: install_rule_def Let_def)
qed

lemma rules_succeed:
  "always_inserts run \<Longrightarrow> length (installed s) + 2 * length rs \<le> MAX_INSTALLED \<Longrightarrow>
     \<exists>s'. install_rules run q rs s = (True, s') \<and> length (installed s') \<le> length (installed s) + 2 * length rs"
proof (induction rs arbitrary: s)
  case (Cons r rs)
  obtain s1 where s1: "install_rule run q r s = (True, s1)" "length (installed s1) \<le> length (installed s) + 2"
    using rule_succeeds [OF Cons.prems(1), of s q r] Cons.prems(2) by auto
  obtain s2 where "install_rules run q rs s1 = (True, s2)" "length (installed s2) \<le> length (installed s1) + 2 * length rs"
    using Cons.IH [OF Cons.prems(1), of s1] s1(2) Cons.prems(2) by auto
  then show ?case using s1 by auto
qed simp

lemma bypass_succeeds:
  assumes "always_inserts run" "length (installed s) + 2 \<le> MAX_INSTALLED"
  shows "fst (install_bypass run mark a b s)"
proof -
  obtain s1 where s1: "(if a then recordAndInstall run ''iptables'' ''OUTPUT'' (bypass_spec mark) s else (True, s)) = (True, s1)"
      "length (installed s1) \<le> length (installed s) + 1"
    by (rule maybe_succeeds [OF assms(1), of s]) (use assms(2) in auto)
  obtain s2 where "(if b then recordAndInstall run ''ip6tables'' ''OUTPUT'' (bypass_spec mark) s1 else (True, s1)) = (True, s2)"
    by (rule maybe_succeeds [OF assms(1), of s1]) (use s1(2) assms(2) in auto)
  then show ?thesis using s1 by (simp add: install_bypass_def)
qed

lemma install_succeeds:
  assumes ins: "always_inserts run" and d: "filterDeriveIptables prog (int MAX_DERIVED_RULES) = Some (rules, exact)" "rules \<noteq> []"
  shows "\<exists>s'. iptablesAutoInstall run True prog q mark s = Some (True, s')"
proof -
  have len: "length rules \<le> 8" using derived_at_most [OF d(1)] by (simp add: MAX_DERIVED_RULES_def)
  let ?s = "s\<lparr>installed := [], autoEnabled := True\<rparr>"
  obtain s1 where s1: "install_rules run q rules ?s = (True, s1)" "length (installed s1) \<le> 2 * length rules"
    using rules_succeed [OF ins, of ?s rules q] len by (auto simp: MAX_INSTALLED_def)
  have "fst (install_bypass run mark a b s1)" for a b
    using bypass_succeeds [OF ins, of s1] s1(2) len by (simp add: MAX_INSTALLED_def)
  then show ?thesis using d s1(1) by (auto simp: iptablesAutoInstall_def Let_def split: prod.splits) (metis fst_conv)
qed

subsection \<open>Properties\<close>

definition all_traffic :: "filter_program option" where
  "all_traffic = Some \<lparr>prog_nodes = [mk_node N_TRUE], prog_root = 0\<rparr>"

lemma all_traffic_compiled: "filterCompile None 256 = Some (Inr (the all_traffic))"
  by (simp add: all_traffic_def filterCompile_blank isBlank_def)

text \<open>Every compiled filter yields a rule.\<close>

lemma compiled_rules:
  assumes "filterCompile expr n = Some (Inr pr)"
  shows "\<exists>rules exact. filterDeriveIptables (Some pr) (int MAX_DERIVED_RULES) = Some (rules, exact) \<and> rules \<noteq> []"
proof -
  obtain e where r: "repr e (prog_nodes pr) (prog_root pr)" by (rule compiled_repr [OF assms])
  have ne: "tree_rules t \<noteq> []" for t by (auto simp: tree_rules_def rules_of_def)
  have b: "take SPLIT_BRANCH_LIMIT (branches e 0) \<noteq> []" using branches_nonempty [of e 0] by (simp add: SPLIT_BRANCH_LIMIT_def)
  have d: "dedupeRules v \<noteq> []" if "v \<noteq> []" for v using that dedupe_set [of v] by (metis set_empty)
  have "concat (map tree_rules (take SPLIT_BRANCH_LIMIT (branches e 0))) \<noteq> []"
    using b ne by (cases "take SPLIT_BRANCH_LIMIT (branches e 0)") auto
  then show ?thesis using d d [OF ne]
    by (cases rule: derive_cases [OF r, of "int MAX_DERIVED_RULES"]) (auto simp: MAX_DERIVED_RULES_def)
qed

lemma all_traffic_rules: "\<exists>rules exact. filterDeriveIptables all_traffic (int MAX_DERIVED_RULES) = Some (rules, exact) \<and> rules \<noteq> []"
  using compiled_rules [OF all_traffic_compiled] by (simp add: all_traffic_def)

text \<open>C20: Automatic rules never outlive the capture: if \<^verbatim>\<open>iptables\<close> behaves as documented and deletes rules
  that are present, a failed \<^verbatim>\<open>iptablesAutoInstall\<close> leaves every chain of both tools exactly as it found
  it, and after a successful one \<^verbatim>\<open>iptablesAutoRemove\<close> restores every chain exactly - also chains
  that already held rules equal to the ones installed.\<close>

theorem iptables_leave_nothing_behind:
  assumes doc: "iptables_documented run view" and del: "deletes_present run view"
    and r: "iptablesAutoInstall run True prog q mark s = Some (ok, s')"
  shows "view (kern (if ok then iptablesAutoRemove run s' else s')) = view (kern s)"
  using doc r
proof (cases rule: auto_install_cases)
  case none_derived
  then show ?thesis by simp
next
  case all_in
  then show ?thesis using remove_restores [OF doc del] by simp
next
  case (rolled_back t)
  then show ?thesis using remove_restores [OF doc del rolled_back(2)] by simp
qed

lemma iptables_leave_nothing_behind_witness:
  "\<exists>s'. iptablesAutoInstall table_iptables True all_traffic 0 193 (iptables_init (\<lambda>_. [''-j DROP''])) = Some (True, s') \<and>
     id (kern (iptablesAutoRemove table_iptables s')) = (\<lambda>_. [''-j DROP''])"
proof -
  obtain s' where s': "iptablesAutoInstall table_iptables True all_traffic 0 193 (iptables_init (\<lambda>_. [''-j DROP''])) = Some (True, s')"
    using install_succeeds [OF table_iptables_ok(3)] all_traffic_rules by blast
  show ?thesis using iptables_leave_nothing_behind [OF table_iptables_ok(1,2) s'] s' by (auto simp: iptables_init_def)
qed

text \<open>After a successful installation every derived rule is in its chains, and in the \<^verbatim>\<open>OUTPUT\<close> chain
  of every tool that got one the mark bypass stands above all of them, so that injected packets do
  not come back into the queue.\<close>

theorem bypass_above_queue_rules:
  assumes doc: "iptables_documented run view"
    and r: "iptablesAutoInstall run True prog q mark s = Some (True, s')"
  shows "\<exists>rules exact. filterDeriveIptables prog (int MAX_DERIVED_RULES) = Some (rules, exact) \<and> rules \<noteq> [] \<and>
    (\<forall>r \<in> set rules. \<exists>rest. view (kern s') (tool_of r, ''OUTPUT'') = bypass_spec mark # rest \<and>
       (r_chains r AND IPT_CHAIN_OUTPUT \<noteq> 0 \<longrightarrow> queue_spec r q \<in> set rest) \<and>
       (r_chains r AND IPT_CHAIN_INPUT \<noteq> 0 \<longrightarrow> queue_spec r q \<in> set (view (kern s') (tool_of r, ''INPUT''))))"
  using doc r
proof (cases rule: auto_install_cases)
  case (all_in rules exact)
  define v1 where "v1 = fold prepend_rule (concat (map (planned_rule q) rules)) (view (kern s))"
  have v: "view (kern s') = fold prepend_rule (planned_bypass mark rules) v1"
    using all_in by (simp add: tracks_def planned_def v1_def)
  have "\<exists>rest. view (kern s') (tool_of r, ''OUTPUT'') = bypass_spec mark # rest \<and>
       (r_chains r AND IPT_CHAIN_OUTPUT \<noteq> 0 \<longrightarrow> queue_spec r q \<in> set rest) \<and>
       (r_chains r AND IPT_CHAIN_INPUT \<noteq> 0 \<longrightarrow> queue_spec r q \<in> set (view (kern s') (tool_of r, ''INPUT'')))"
    if "r \<in> set rules" for r
  proof (intro exI conjI impI)
    have has: "i_spec x \<in> set (v1 (i_tool x, i_chain x))" if "x \<in> set (planned_rule q r)" for x
      unfolding v1_def by (rule fold_prepend_has) (use that \<open>r \<in> set rules\<close> in auto)
    show "view (kern s') (tool_of r, ''OUTPUT'') = bypass_spec mark # v1 (tool_of r, ''OUTPUT'')"
      unfolding v by (rule bypass_top [OF that])
    show "queue_spec r q \<in> set (v1 (tool_of r, ''OUTPUT''))" if "r_chains r AND IPT_CHAIN_OUTPUT \<noteq> 0"
      using has [of "\<lparr>i_tool = tool_of r, i_chain = ''OUTPUT'', i_spec = queue_spec r q\<rparr>"] that by (simp add: planned_rule_def)
    show "queue_spec r q \<in> set (view (kern s') (tool_of r, ''INPUT''))" if "r_chains r AND IPT_CHAIN_INPUT \<noteq> 0"
      unfolding v by (rule in_fold_prepend)
        (use has [of "\<lparr>i_tool = tool_of r, i_chain = ''INPUT'', i_spec = queue_spec r q\<rparr>"] that in \<open>simp add: planned_rule_def\<close>)
  qed
  then show ?thesis using all_in by blast
qed simp_all

lemma bypass_above_queue_rules_witness:
  "\<exists>s' rules exact. iptablesAutoInstall table_iptables True all_traffic 0 193 (iptables_init (\<lambda>_. [])) = Some (True, s') \<and>
     filterDeriveIptables all_traffic (int MAX_DERIVED_RULES) = Some (rules, exact) \<and>
     (\<forall>r \<in> set rules. hd (kern s' (tool_of r, ''OUTPUT'')) = bypass_spec 193)"
proof -
  obtain s' where s': "iptablesAutoInstall table_iptables True all_traffic 0 193 (iptables_init (\<lambda>_. [])) = Some (True, s')"
    using install_succeeds [OF table_iptables_ok(3)] all_traffic_rules by blast
  show ?thesis using bypass_above_queue_rules [OF table_iptables_ok(1) s'] s' by force
qed

text \<open>The table of 24 installed rules is never the reason for a failure: for every filter text that
  compiles, an \<^verbatim>\<open>iptables\<close> that accepts every insertion makes the installation succeed.\<close>

theorem install_succeeds_for_every_filter:
  assumes "filterCompile expr n = Some (Inr pr)" "always_inserts run"
  shows "\<exists>s'. iptablesAutoInstall run True (Some pr) q mark s = Some (True, s')"
  using compiled_rules [OF assms(1)] install_succeeds [OF assms(2)] by blast

lemma install_succeeds_for_every_filter_witness:
  "\<exists>s'. iptablesAutoInstall table_iptables True (Some (the all_traffic)) 7 193 (iptables_init (\<lambda>_. [])) = Some (True, s')"
  by (rule install_succeeds_for_every_filter [OF all_traffic_compiled table_iptables_ok(3)])

end
