(* ===== verification/Divert.thy ===== *)
theory Divert
  imports Module_Table Iptables
begin

text \<open>
  The Linux capture backend, \<^verbatim>\<open>src/src/divert_linux.cpp\<close>: the NFQUEUE callback, the module step, the
  sending of the survivors and clones, the closing sequence of the clock thread, \<^verbatim>\<open>divertStart\<close>,
  \<^verbatim>\<open>divertStop\<close> and \<^verbatim>\<open>statsReset\<close>, on one record that extends the module table by the backend's
  globals.

  The two threads run their critical sections under one mutex, so an execution is a sequence of
  whole steps (\<open>Reach\<close> in theory \<open>Capture\<close>). \<open>None\<close> is a crash: a module's close on a buffer whose
  sentinels were never linked, or an evaluation of the filter on a malformed program (which
  \<open>filter_match_total\<close> excludes for compiled filters).

  From outside: the messages of the queue, the clock (in the environment), what \<^verbatim>\<open>sendto\<close> answers and,
  for \<^verbatim>\<open>divertStart\<close>, the outcome of every call to the system.
\<close>

subsection \<open>State\<close>

datatype send_result = SEND_OK | SEND_FULL | SEND_ERR

text \<open>What a raw socket was handed: the address family, the destination bytes and the data.\<close>

record raw_packet =
  raw_v6 :: bool
  raw_dst :: "u8 list"
  raw_data :: "u8 list"

datatype send_status = STATUS_NONE | STATUS_SEND | STATUS_FAIL

record 'k divert = mods +
  main_list :: "packet list"
  denv :: env
  nfqHandle :: bool
  rawSocket :: bool
  rawSocket6 :: bool
  rawHdrIncl6 :: bool
  rawDropCount :: nat
  injectMark :: u32
  injectWindowCount :: nat
  injectWindowStart :: u32
  injectDisabled :: bool
  send_src :: "nat \<Rightarrow> send_result"
  send_pos :: nat
  injected :: "raw_packet list"
  sendState :: send_status
  statsCapturedTotal :: u64
  statsSentTotal :: u64
  filterProg :: "filter_program option"
  queueNum :: int
  stopLooping :: bool
  loopThread :: bool
  clockThread :: bool
  mutex :: bool
  ipt :: "'k iptables"

definition INJECT_RATE_LIMIT :: nat where
  "INJECT_RATE_LIMIT = 5000"

definition NFQ_QUEUE_MAXLEN :: nat where
  "NFQ_QUEUE_MAXLEN = 8192"

definition DEFAULT_INJECT_MARK :: int where
  "DEFAULT_INJECT_MARK = 0xC1"

definition IPHDR :: nat where
  "IPHDR = 20"

definition IP6_HDR :: nat where
  "IP6_HDR = 40"

subsection \<open>Raw injection of clones\<close>

text \<open>One non-blocking \<^verbatim>\<open>sendto\<close> and what the code makes of its result.\<close>

definition raw_send :: "raw_packet \<Rightarrow> ('k, 'a) divert_scheme \<Rightarrow> bool \<times> ('k, 'a) divert_scheme" where
  "raw_send r s =
     (case send_src s (send_pos s) of
        SEND_OK \<Rightarrow> (True, s\<lparr>send_pos := send_pos s + 1, injected := injected s @ [r]\<rparr>)
      | SEND_FULL \<Rightarrow> (False, s\<lparr>send_pos := send_pos s + 1, rawDropCount := rawDropCount s + 1\<rparr>)
      | SEND_ERR \<Rightarrow> (False, s\<lparr>send_pos := send_pos s + 1\<rparr>))"

text \<open>The one-second window of the runaway guard.\<close>

definition inject_window :: "u32 \<Rightarrow> ('k, 'a) divert_scheme \<Rightarrow> ('k, 'a) divert_scheme" where
  "inject_window now s =
     (let s = (if injectWindowStart s = 0 \<or> now - injectWindowStart s \<ge> 1000
               then s\<lparr>injectWindowStart := now, injectWindowCount := 0\<rparr> else s)
      in s\<lparr>injectWindowCount := injectWindowCount s + 1\<rparr>)"

text \<open>The part behind the guard: the address family is the packet's version field.\<close>

definition inject_send :: "packet \<Rightarrow> ('k, 'a) divert_scheme \<Rightarrow> bool \<times> ('k, 'a) divert_scheme" where
  "inject_send p s =
     (if drop_bit 4 (pdata p ! 0) = 6 then
        (if \<not> rawSocket6 s \<or> packetLen p \<le> IP6_HDR then (False, s)
         else raw_send \<lparr>raw_v6 = True, raw_dst = take 16 (drop 24 (pdata p)),
                raw_data = (if rawHdrIncl6 s then pdata p else drop IP6_HDR (pdata p))\<rparr> s)
      else if \<not> rawSocket s then (False, s)
      else raw_send \<lparr>raw_v6 = False, raw_dst = take 4 (drop 16 (pdata p)), raw_data = pdata p\<rparr> s)"

definition injectRawPacket :: "packet \<Rightarrow> ('k, 'a) divert_scheme \<Rightarrow> bool \<times> ('k, 'a) divert_scheme" where
  "injectRawPacket p s =
     (if packetLen p < IPHDR then (False, s)
      else if \<not> rawSocket s \<and> \<not> rawSocket6 s then (False, s)
      else if \<not> outbound (meta p) then (False, s)
      else if injectDisabled s then (False, s)
      else (case timeGetTime (denv s) of (now, e) \<Rightarrow>
        let s = inject_window now (s\<lparr>denv := e\<rparr>) in
        if injectWindowCount s > INJECT_RATE_LIMIT then (False, s\<lparr>injectDisabled := True\<rparr>)
        else inject_send p s))"

subsection \<open>Sending\<close>

text \<open>One turn of the loop of \<^verbatim>\<open>sendAllListPackets\<close>, for the packet popped from the tail.\<close>

definition send_packet :: "packet \<Rightarrow> ('k, 'a) divert_scheme \<Rightarrow> ('k, 'a) divert_scheme" where
  "send_packet p s =
     (let (p, s) =
        (if synthetic (backend p)
         then (case injectRawPacket p s of (ok, s) \<Rightarrow> (p, s\<lparr>sendState := if ok then STATUS_SEND else STATUS_FAIL\<rparr>))
         else (case settleVerdict p True (denv s) of (p, e) \<Rightarrow> (p, s\<lparr>denv := e, sendState := STATUS_SEND\<rparr>)))
      in s\<lparr>denv := freeNode p (denv s), statsSentTotal := statsSentTotal s + 1\<rparr>)"

fun send_loop :: "packet list \<Rightarrow> ('k, 'a) divert_scheme \<Rightarrow> ('k, 'a) divert_scheme" where
  "send_loop [] s = s"
| "send_loop (p # ps) s = send_loop ps (send_packet p s)"

text \<open>The list is emptied from its tail.\<close>

definition sendAllListPackets :: "('k, 'a) divert_scheme \<Rightarrow> ('k, 'a) divert_scheme" where
  "sendAllListPackets s = send_loop (rev (main_list s)) (s\<lparr>main_list := []\<rparr>)"

subsection \<open>The step and the callback\<close>

definition divertConsumeStep :: "('k, 'a) divert_scheme \<Rightarrow> ('k, 'a) divert_scheme option" where
  "divertConsumeStep s =
     map_option (\<lambda>(s, xs, e). sendAllListPackets (s\<lparr>main_list := xs, denv := e\<rparr>))
       (run_modules s (main_list s) (denv s))"

record nfq_msg =
  msg_id :: "u32 option"
  msg_payload :: "u8 list option"
  msg_indev :: u32
  msg_outdev :: u32
  msg_physindev :: u32
  msg_physoutdev :: u32

definition msg_meta :: "nfq_msg \<Rightarrow> u8 list \<Rightarrow> packet_meta" where
  "msg_meta msg payload =
     (let ob = (msg_indev msg = 0) in
      zero_meta\<lparr>outbound := ob,
        ipVersion := (if drop_bit 4 (payload ! 0) = 6 then 6 else 4),
        ifIdx := (if ob then msg_outdev msg else msg_indev msg),
        subIfIdx := 0,
        loopback := (msg_physindev msg = 1 \<or> msg_physoutdev msg = 1)\<rparr>)"

text \<open>\<^verbatim>\<open>nfq_set_verdict(qh, id, NF_ACCEPT, 0, NULL)\<close>: accepted with its own bytes.\<close>

definition accept_untouched :: "u32 \<Rightarrow> env \<Rightarrow> env" where
  "accept_untouched i e = e\<lparr>verdicts := verdicts e @ [(i, NF_ACCEPT [])]\<rparr>"

definition appendMain :: "packet \<Rightarrow> ('k, 'a) divert_scheme \<Rightarrow> ('k, 'a) divert_scheme" where
  "appendMain p s = s\<lparr>main_list := main_list s @ [p]\<rparr>"

definition nfqCallback :: "nfq_msg \<Rightarrow> ('k, 'a) divert_scheme \<Rightarrow> ('k, 'a) divert_scheme option" where
  "nfqCallback msg s =
     (case msg_id msg of None \<Rightarrow> Some s
      | Some i \<Rightarrow>
        (let payload = (case msg_payload msg of Some p \<Rightarrow> p | None \<Rightarrow> []) in
         if payload = [] then Some (s\<lparr>denv := accept_untouched i (denv s)\<rparr>)
         else
           let mt = msg_meta msg payload in
           Option.bind (filterMatch (filterProg s) mt payload) (\<lambda>hit.
             if \<not> hit then Some (s\<lparr>denv := accept_untouched i (denv s)\<rparr>)
             else (case createNode payload (Some mt) (Some (zero_backend\<lparr>packetId := i\<rparr>)) (denv s) of
                 (None, e) \<Rightarrow> Some (s\<lparr>denv := accept_untouched i e\<rparr>)
               | (Some p, e) \<Rightarrow>
                   divertConsumeStep (appendMain p
                     (s\<lparr>denv := e, statsCapturedTotal := statsCapturedTotal s + 1\<rparr>))))))"

text \<open>What the clock thread does once it sees \<^verbatim>\<open>stopLooping\<close>.\<close>

definition clock_close :: "('k, 'a) divert_scheme \<Rightarrow> ('k, 'a) divert_scheme option" where
  "clock_close s =
     map_option (\<lambda>(s, xs, e). (sendAllListPackets (s\<lparr>main_list := xs, denv := e\<rparr>))\<lparr>clockThread := False\<rparr>)
       (stop_modules s (main_list s) (denv s))"

subsection \<open>Starting and stopping\<close>

definition statsReset :: "('k, 'a) divert_scheme \<Rightarrow> ('k, 'a) divert_scheme" where
  "statsReset s =
     (let s = s\<lparr>statsCapturedTotal := 0, statsSentTotal := 0, denv := (denv s)\<lparr>hist := latencyReset\<rparr>\<rparr>;
          s = s\<lparr>m_corrupt := corruptResetStats (m_corrupt s)\<rparr>
      in s\<lparr>m_lag := (m_lag s)\<lparr>affectedCount := 0\<rparr>,
           m_jitter := (m_jitter s)\<lparr>affectedCount := 0\<rparr>,
           m_drop := (m_drop s)\<lparr>affectedCount := 0\<rparr>,
           m_burstloss := (m_burstloss s)\<lparr>affectedCount := 0\<rparr>,
           m_blackout := (m_blackout s)\<lparr>affectedCount := 0\<rparr>,
           m_throttle := (m_throttle s)\<lparr>affectedCount := 0\<rparr>,
           m_dup := (m_dup s)\<lparr>affectedCount := 0\<rparr>,
           m_ood := (m_ood s)\<lparr>affectedCount := 0\<rparr>,
           m_tamper := (m_tamper s)\<lparr>affectedCount := 0\<rparr>,
           m_corrupt := (m_corrupt s)\<lparr>affectedCount := 0\<rparr>,
           m_reset := (m_reset s)\<lparr>affectedCount := 0\<rparr>,
           m_bandwidth := (m_bandwidth s)\<lparr>affectedCount := 0\<rparr>\<rparr>)"

text \<open>\<^verbatim>\<open>for (ix ...) modules[ix]->lastEnabled = 0;\<close>\<close>

definition forget_started :: "('k, 'a) divert_scheme \<Rightarrow> ('k, 'a) divert_scheme" where
  "forget_started s =
     s\<lparr>m_lag := (m_lag s)\<lparr>lastEnabled := False\<rparr>,
       m_jitter := (m_jitter s)\<lparr>lastEnabled := False\<rparr>,
       m_drop := (m_drop s)\<lparr>lastEnabled := False\<rparr>,
       m_burstloss := (m_burstloss s)\<lparr>lastEnabled := False\<rparr>,
       m_blackout := (m_blackout s)\<lparr>lastEnabled := False\<rparr>,
       m_throttle := (m_throttle s)\<lparr>lastEnabled := False\<rparr>,
       m_dup := (m_dup s)\<lparr>lastEnabled := False\<rparr>,
       m_ood := (m_ood s)\<lparr>lastEnabled := False\<rparr>,
       m_tamper := (m_tamper s)\<lparr>lastEnabled := False\<rparr>,
       m_corrupt := (m_corrupt s)\<lparr>lastEnabled := False\<rparr>,
       m_reset := (m_reset s)\<lparr>lastEnabled := False\<rparr>,
       m_bandwidth := (m_bandwidth s)\<lparr>lastEnabled := False\<rparr>\<rparr>"

text \<open>The answers of the system during one \<^verbatim>\<open>divertStart\<close>, and the arguments it reads.\<close>

record start_os =
  os_open :: bool
  os_bind :: bool
  os_queue :: bool
  os_mode :: bool
  os_raw :: bool
  os_raw6 :: bool
  os_hdrincl :: bool
  os_mutex :: bool
  os_read_thread :: bool
  os_clock_thread :: bool
  os_joined :: bool
  os_last_step :: bool
  arg_queue_num :: "string option"
  arg_inject_mark :: "string option"
  arg_auto_iptables :: "string option"

datatype start_error = ERR_FILTER string | ERR_OPEN | ERR_BIND | ERR_QUEUE | ERR_MODE | ERR_MUTEX
  | ERR_READ_THREAD | ERR_CLOCK_THREAD | ERR_IPTABLES

definition arg_int :: "string option \<Rightarrow> int \<Rightarrow> int" where
  "arg_int v d = (case v of Some t \<Rightarrow> atoi t | None \<Rightarrow> d)"

text \<open>The label \<^verbatim>\<open>fail\<close>; it leaves the mutex alone.\<close>

definition start_fail :: "('k, 'a) divert_scheme \<Rightarrow> ('k, 'a) divert_scheme" where
  "start_fail s = s\<lparr>denv := (denv s)\<lparr>nfqQueue := False\<rparr>, nfqHandle := False, rawSocket := False,
     rawSocket6 := False, filterProg := None\<rparr>"

text \<open>The raw sockets and the counters that are reset with them.\<close>

definition open_raw :: "start_os \<Rightarrow> ('k, 'a) divert_scheme \<Rightarrow> ('k, 'a) divert_scheme" where
  "open_raw os s =
     (if os_raw os then
        s\<lparr>rawSocket := True, rawDropCount := 0, injectWindowCount := 0, injectWindowStart := 0,
          injectDisabled := False, rawSocket6 := os_raw6 os,
          rawHdrIncl6 := (if os_raw6 os then os_hdrincl os else rawHdrIncl6 s)\<rparr>
      else s\<lparr>rawSocket := False\<rparr>)"

text \<open>
  Everything up to the two threads. A new queue has answered nothing yet. \<^verbatim>\<open>initPacketNodeList\<close> links the two sentinels the
  first time (the list of a program that has just started is empty) and leaves a list in use as it is. The state
  comes back with the error that sends it to \<^verbatim>\<open>fail\<close>; the filter and \<^verbatim>\<open>nfq_open\<close> errors return before that.
\<close>

definition start_setup :: "start_os \<Rightarrow> ('k, 'a) divert_scheme \<Rightarrow> start_error option \<times> ('k, 'a) divert_scheme" where
  "start_setup os s =
     (if \<not> os_bind os then (Some ERR_BIND, s)
      else if \<not> os_queue os then (Some ERR_QUEUE, s)
      else
        let s = s\<lparr>denv := (denv s)\<lparr>nfqQueue := True, verdicts := []\<rparr>\<rparr> in
        if \<not> os_mode os then (Some ERR_MODE, s)
        else
          let s = open_raw os (s\<lparr>injectMark := word_of_int (arg_int (arg_inject_mark os) DEFAULT_INJECT_MARK)\<rparr>);
              s = (forget_started s)\<lparr>stopLooping := False, mutex := os_mutex os\<rparr>
          in if \<not> os_mutex os then (Some ERR_MUTEX, s)
             else if \<not> os_read_thread os then (Some ERR_READ_THREAD, s\<lparr>loopThread := False\<rparr>)
             else if \<not> os_clock_thread os then (Some ERR_CLOCK_THREAD, s\<lparr>loopThread := True, clockThread := False\<rparr>)
             else (None, s\<lparr>loopThread := True, clockThread := True\<rparr>))"

text \<open>
  When the rules cannot be installed both threads are told to stop and are waited for during three seconds. \<open>os_joined\<close>:
  both ended in that time; \<open>os_last_step\<close>: the clock thread made a step before it closed. The code goes on in the same
  way when they did not end, so that both still run. Packets received while the rules were being installed are left out.
\<close>

definition divertStart ::
  "'k iptables_run \<Rightarrow> start_os \<Rightarrow> string \<Rightarrow> ('k, 'a) divert_scheme \<Rightarrow> (start_error option \<times> ('k, 'a) divert_scheme) option" where
  "divertStart run os expr s =
     (let s = s\<lparr>queueNum := arg_int (arg_queue_num os) 0\<rparr> in
      case filterCompile (Some expr) 512 of None \<Rightarrow> None
      | Some (Inl err) \<Rightarrow> Some (Some (ERR_FILTER err), s\<lparr>filterProg := None\<rparr>)
      | Some (Inr pr) \<Rightarrow>
          let s = s\<lparr>filterProg := Some pr\<rparr> in
          if \<not> os_open os then Some (Some ERR_OPEN, s\<lparr>nfqHandle := False, filterProg := None\<rparr>)
          else (case start_setup os (s\<lparr>nfqHandle := True\<rparr>) of
              (Some err, s) \<Rightarrow> Some (Some err, start_fail s)
            | (None, s) \<Rightarrow>
                let auto = (case arg_auto_iptables os of None \<Rightarrow> False | Some v \<Rightarrow> parseBoolValue v) in
                if \<not> auto then Some (None, s)
                else (case iptablesAutoInstall run auto (filterProg s) (queueNum s) (injectMark s) (ipt s) of
                    None \<Rightarrow> None
                  | Some (ok, t) \<Rightarrow>
                      let s = s\<lparr>ipt := t\<rparr> in
                      if ok then Some (None, s)
                      else
                        let s = s\<lparr>stopLooping := True\<rparr> in
                        if \<not> os_joined os then Some (Some ERR_IPTABLES, start_fail s)
                        else map_option (\<lambda>s. (Some ERR_IPTABLES, (start_fail s)\<lparr>loopThread := False\<rparr>))
                               (Option.bind (if os_last_step os then divertConsumeStep s else Some s) clock_close))))"

text \<open>
  The second half of \<^verbatim>\<open>divertStop\<close>, after \<^verbatim>\<open>stopLooping\<close> was raised and both threads were waited for.
  \<open>joined\<close> says whether they ended within five seconds.
\<close>

definition divertStop_finish :: "'k iptables_run \<Rightarrow> bool \<Rightarrow> ('k, 'a) divert_scheme \<Rightarrow> ('k, 'a) divert_scheme" where
  "divertStop_finish run joined s =
     (let s = s\<lparr>ipt := iptablesAutoRemove run (ipt s), rawSocket := False, rawSocket6 := False\<rparr> in
      if \<not> joined then s
      else s\<lparr>denv := (denv s)\<lparr>nfqQueue := False\<rparr>, nfqHandle := False, mutex := False, filterProg := None\<rparr>)"

subsection \<open>What sending leaves alone\<close>

text \<open>The module table and the control fields.\<close>

definition same_rows :: "('k, 'a) divert_scheme \<Rightarrow> ('k, 'a) divert_scheme \<Rightarrow> bool" where
  "same_rows s s' \<longleftrightarrow> mods.truncate s' = mods.truncate s \<and> filterProg s' = filterProg s \<and> ipt s' = ipt s \<and>
     stopLooping s' = stopLooping s \<and> loopThread s' = loopThread s \<and> clockThread s' = clockThread s"

lemma same_rows_refl [simp]: "same_rows s s"
  by (simp add: same_rows_def)

lemma same_rows_trans: "same_rows s t \<Longrightarrow> same_rows t u \<Longrightarrow> same_rows s u"
  by (simp add: same_rows_def)

lemma truncated_columns:
  "helds (mods.truncate s) = helds s" "enabled_flags (mods.truncate s) = enabled_flags s"
  "started_flags (mods.truncate s) = started_flags s" "readies (mods.truncate s) = readies s"
  "mods_inv (mods.truncate s) = mods_inv s" "mods_params_ok (mods.truncate s) = mods_params_ok s"
  by (simp_all add: columns mods_inv_def mods_params_ok_def mods.defs)

lemma truncated_held: "held_all (mods.truncate s) = held_all s"
  by (simp add: held_all_def truncated_columns)

lemma truncated_idle: "idle_empty (mods.truncate s) = idle_empty s"
  by (simp add: idle_empty_def truncated_columns)

lemma truncated_closable: "closable (mods.truncate s) = closable s"
  by (simp add: closable_def truncated_columns)

lemma truncate_columns:
  assumes "mods.truncate s' = mods.truncate s"
  shows "helds s' = helds s" "enabled_flags s' = enabled_flags s" "started_flags s' = started_flags s"
    "held_all s' = held_all s" "mods_inv s' = mods_inv s"
    "idle_empty s' = idle_empty s" "closable s' = closable s"
  using truncated_columns [of s] truncated_columns [of s'] truncated_held [of s] truncated_held [of s']
    truncated_idle [of s] truncated_idle [of s'] truncated_closable [of s] truncated_closable [of s'] assms by simp_all

lemma truncate_updates [simp]:
  "mods.truncate (s\<lparr>main_list := a\<rparr>) = mods.truncate s" "mods.truncate (s\<lparr>denv := b\<rparr>) = mods.truncate s"
  "mods.truncate (s\<lparr>rawDropCount := n\<rparr>) = mods.truncate s" "mods.truncate (s\<lparr>injectWindowCount := n\<rparr>) = mods.truncate s"
  "mods.truncate (s\<lparr>injectWindowStart := w\<rparr>) = mods.truncate s" "mods.truncate (s\<lparr>injectDisabled := d\<rparr>) = mods.truncate s"
  "mods.truncate (s\<lparr>send_pos := n\<rparr>) = mods.truncate s" "mods.truncate (s\<lparr>injected := i\<rparr>) = mods.truncate s"
  "mods.truncate (s\<lparr>sendState := st\<rparr>) = mods.truncate s" "mods.truncate (s\<lparr>statsSentTotal := u\<rparr>) = mods.truncate s"
  "mods.truncate (s\<lparr>statsCapturedTotal := u\<rparr>) = mods.truncate s" "mods.truncate (s\<lparr>stopLooping := d\<rparr>) = mods.truncate s"
  "mods.truncate (s\<lparr>loopThread := d\<rparr>) = mods.truncate s" "mods.truncate (s\<lparr>clockThread := d\<rparr>) = mods.truncate s" "mods.truncate (s\<lparr>mutex := d\<rparr>) = mods.truncate s"
  "mods.truncate (s\<lparr>injectMark := w\<rparr>) = mods.truncate s" "mods.truncate (s\<lparr>filterProg := fp\<rparr>) = mods.truncate s"
  "mods.truncate (s\<lparr>nfqHandle := d\<rparr>) = mods.truncate s" "mods.truncate (s\<lparr>ipt := t\<rparr>) = mods.truncate s"
  "mods.truncate (s\<lparr>queueNum := q\<rparr>) = mods.truncate s"
  by (simp_all add: mods.defs)

lemma raw_send_frame: "raw_send r s = (ok, s') \<Longrightarrow> same_rows s s' \<and> main_list s' = main_list s \<and> denv s' = denv s"
  by (auto simp: raw_send_def same_rows_def split: send_result.splits)

lemma inject_send_frame: "inject_send p s = (ok, s') \<Longrightarrow> same_rows s s' \<and> main_list s' = main_list s \<and> denv s' = denv s"
  by (auto simp: inject_send_def split: if_splits dest: raw_send_frame)

lemma inject_window_frame: "same_rows s (inject_window now s) \<and> main_list (inject_window now s) = main_list s \<and> denv (inject_window now s) = denv s"
  by (simp add: inject_window_def same_rows_def)

lemma injectRawPacket_frame:
  assumes "injectRawPacket p s = (ok, s')"
  shows "same_rows s s' \<and> main_list s' = main_list s \<and> quiet (denv s) (denv s')"
proof (cases "packetLen p < IPHDR \<or> \<not> rawSocket s \<and> \<not> rawSocket6 s \<or> \<not> outbound (meta p) \<or> injectDisabled s")
  case True
  then have "s' = s" using assms by (auto simp: injectRawPacket_def split: if_splits)
  then show ?thesis by simp
next
  case False
  obtain now e where t: "timeGetTime (denv s) = (now, e)" by (metis surj_pair)
  define w where "w = inject_window now (s\<lparr>denv := e\<rparr>)"
  have w: "same_rows s w" "main_list w = main_list s" "denv w = e"
    using inject_window_frame [of "s\<lparr>denv := e\<rparr>" now] by (auto simp: w_def same_rows_def)
  have q: "quiet (denv s) e" by (rule quiet_timeGetTime [OF t])
  have r: "(if injectWindowCount w > INJECT_RATE_LIMIT then (False, w\<lparr>injectDisabled := True\<rparr>) else inject_send p w) = (ok, s')"
    using assms False t by (auto simp: injectRawPacket_def w_def Let_def split: if_splits)
  show ?thesis
  proof (cases "injectWindowCount w > INJECT_RATE_LIMIT")
    case True
    then have "s' = w\<lparr>injectDisabled := True\<rparr>" using r by simp
    then show ?thesis using w q by (simp add: same_rows_def)
  next
    case False
    then have "inject_send p w = (ok, s')" using r by simp
    then show ?thesis using inject_send_frame [of p w ok s'] w q same_rows_trans by auto
  qed
qed

lemma settle_free:
  assumes "settleVerdict p True e = (p', e')" "nfqQueue e"
  shows "nfqQueue (freeNode p' e') \<and> answered (freeNode p' e') = answered e + owed p"
  using settleVerdict_ledger [OF assms] answered_freeNode [of e' p'] by simp

lemma send_packet_ok:
  assumes q: "nfqQueue (denv s)"
  shows "same_rows s (send_packet p s) \<and> main_list (send_packet p s) = main_list s \<and>
     nfqQueue (denv (send_packet p s)) \<and> answered (denv (send_packet p s)) = answered (denv s) + owed p"
proof (cases "synthetic (backend p)")
  case True
  obtain ok s' where i: "injectRawPacket p s = (ok, s')" by (metis surj_pair)
  have f: "same_rows s s'" "main_list s' = main_list s" "quiet (denv s) (denv s')"
    using injectRawPacket_frame [OF i] by simp_all
  have "nfqQueue (denv s')" "answered (denv s') = answered (denv s)" using f(3) q quiet_answered by simp_all
  moreover have "owed p = {#}" using True by (simp add: owed_def)
  ultimately show ?thesis using True i f answered_freeNode [of "denv s'" p]
    by (simp add: send_packet_def same_rows_def)
next
  case False
  obtain p' e' where v: "settleVerdict p True (denv s) = (p', e')" by (metis surj_pair)
  show ?thesis using settle_free [OF v q] False v by (simp add: send_packet_def same_rows_def)
qed


lemma send_loop_ok:
  "nfqQueue (denv s) \<Longrightarrow> same_rows s (send_loop ps s) \<and> main_list (send_loop ps s) = main_list s \<and>
     nfqQueue (denv (send_loop ps s)) \<and> answered (denv (send_loop ps s)) = answered (denv s) + owed_all ps"
proof (induction ps arbitrary: s)
  case (Cons p ps)
  note sp = send_packet_ok [OF Cons.prems, of p]
  show ?case using Cons.IH [of "send_packet p s"] sp same_rows_trans by (auto simp: ac_simps)
qed simp

text \<open>After sending, the list is empty and everything it owed is answered.\<close>

lemma sendAll_ok:
  assumes "nfqQueue (denv s)"
  shows "same_rows s (sendAllListPackets s) \<and> main_list (sendAllListPackets s) = [] \<and>
     nfqQueue (denv (sendAllListPackets s)) \<and>
     answered (denv (sendAllListPackets s)) = ledger (main_list s) (denv s)"
  using send_loop_ok [of "s\<lparr>main_list := []\<rparr>" "rev (main_list s)"] assms
  by (simp add: sendAllListPackets_def same_rows_def ledger_def add.commute)

text \<open>What every stage of the table leaves alone.\<close>

lemma more_fields:
  assumes "mods.more s' = mods.more (s :: ('k, 'a) divert_scheme)"
  shows "filterProg s' = filterProg s" "ipt s' = ipt s" "stopLooping s' = stopLooping s"
    "loopThread s' = loopThread s" "clockThread s' = clockThread s" "main_list s' = main_list s"
  using assms by (cases s; cases s'; simp)+

definition leaves_more :: "'a stage \<Rightarrow> bool" where
  "leaves_more f \<longleftrightarrow> (\<forall>s xs e s' xs' e'. f s xs e = Some (s', xs', e') \<longrightarrow> mods.more s' = mods.more s)"

lemma stages_more: "\<forall>f\<in>set fs. leaves_more f \<Longrightarrow> run_stages fs s xs e = Some (s', xs', e') \<Longrightarrow> mods.more s' = mods.more s"
proof (induction fs s xs e rule: run_stages.induct)
  case (2 f fs s xs e)
  then obtain t ys d where "f s xs e = Some (t, ys, d)" "run_stages fs t ys d = Some (s', xs', e')"
    by (auto split: Option.bind_splits)
  with 2 show ?case by (fastforce simp: leaves_more_def)
qed simp

lemma lists_leave_more: "\<forall>f\<in>set run_list. leaves_more f" "\<forall>f\<in>set stop_list. leaves_more f"
  unfolding run_list_def stop_list_def leaves_more_def
  by (auto simp: run_lag_def run_jitter_def run_drop_def run_burstloss_def run_blackout_def run_throttle_def run_dup_def run_ood_def
      run_tamper_def run_corrupt_def run_reset_def run_bandwidth_def stop_lag_def stop_jitter_def stop_drop_def stop_burstloss_def
      stop_blackout_def stop_throttle_def stop_dup_def stop_ood_def stop_tamper_def stop_corrupt_def stop_reset_def stop_bandwidth_def)

text \<open>The fields that no step and no closing touches: the mutex, and what a larger state adds.\<close>

definition kept :: "('k, 'a) divert_scheme \<Rightarrow> ('k, 'a) divert_scheme \<Rightarrow> bool" where
  "kept s s' \<longleftrightarrow> divert.more s' = divert.more s \<and> mutex s' = mutex s"

lemma kept_refl [simp]: "kept s s"
  by (simp add: kept_def)

lemma divert_more: "mods.more s' = mods.more (s :: ('k, 'a) divert_scheme) \<Longrightarrow> divert.more s' = divert.more s"
  by (cases s; cases s') simp

lemma kept_mods: "mods.more s' = mods.more s \<Longrightarrow> kept s s'"
  by (cases s; cases s') (simp add: kept_def)

lemma injectRawPacket_kept: "injectRawPacket p s = (ok, s') \<Longrightarrow> kept s s'"
  by (auto simp: injectRawPacket_def inject_window_def inject_send_def raw_send_def kept_def Let_def
      split: if_splits prod.splits send_result.splits)

lemma send_packet_kept: "kept s (send_packet p s)"
  by (auto simp: send_packet_def Let_def kept_def dest: injectRawPacket_kept [unfolded kept_def] split: prod.splits)

lemma sendAll_kept:
  fixes s :: "('k, 'a) divert_scheme"
  shows "kept s (sendAllListPackets s)"
proof -
  have "kept t (send_loop ps t)" for ps and t :: "('k, 'a) divert_scheme"
    by (induction ps arbitrary: t) (use send_packet_kept in \<open>auto simp: kept_def\<close>)
  from this [of "s\<lparr>main_list := []\<rparr>" "rev (main_list s)"] show ?thesis by (simp add: sendAllListPackets_def kept_def)
qed

lemma sent_kept:
  fixes s t :: "('k, 'a) divert_scheme"
  shows "mods.more t = mods.more s \<Longrightarrow> kept s (sendAllListPackets (t\<lparr>main_list := xs, denv := e\<rparr>))"
  using sendAll_kept [of "t\<lparr>main_list := xs, denv := e\<rparr>"] kept_mods [of t s] by (simp add: kept_def)

lemma consume_kept: "divertConsumeStep s = Some s' \<Longrightarrow> kept s s'"
  by (auto simp: divertConsumeStep_def run_modules_def intro!: sent_kept dest: stages_more [OF lists_leave_more(1)])

lemma close_kept: "clock_close s = Some s' \<Longrightarrow> kept s s'"
  using sent_kept by (fastforce simp: clock_close_def stop_modules_def kept_def dest: stages_more [OF lists_leave_more(2)])

text \<open>One step: no crash, nothing left in the list, the table's flags in step, the ledger kept.\<close>

lemma consume_ok:
  assumes inv: "mods_inv s" and q: "nfqQueue (denv s)"
  obtains s' where "divertConsumeStep s = Some s'" "mods_inv s'" "nfqQueue (denv s')" "main_list s' = []"
    "ledger (held_all s') (denv s') = ledger (main_list s @ held_all s) (denv s)"
    "started_flags s' = enabled_flags s" "enabled_flags s' = enabled_flags s" "idle_empty s \<longrightarrow> idle_empty s'"
    "filterProg s' = filterProg s" "ipt s' = ipt s" "stopLooping s' = stopLooping s"
    "loopThread s' = loopThread s" "clockThread s' = clockThread s"
proof -
  obtain t xs e where r: "run_modules s (main_list s) (denv s) = Some (t, xs, e)" "mods_inv t" "nfqQueue e"
     "ledger (xs @ held_all t) e = ledger (main_list s @ held_all s) (denv s)" "mods.more t = mods.more s"
     "enabled_flags t = enabled_flags s" "started_flags t = enabled_flags s" "idle_empty s \<longrightarrow> idle_empty t"
    using run_modules_ok [OF inv q, of "main_list s"] by blast
  let ?t = "t\<lparr>main_list := xs, denv := e\<rparr>"
  have tt: "mods.truncate ?t = mods.truncate t" by simp
  note tc = truncate_columns [OF tt]
  have sa: "same_rows ?t (sendAllListPackets ?t)" "main_list (sendAllListPackets ?t) = []"
     "nfqQueue (denv (sendAllListPackets ?t))" "answered (denv (sendAllListPackets ?t)) = ledger xs e"
    using sendAll_ok [of ?t] r(3) by simp_all
  have tr: "mods.truncate (sendAllListPackets ?t) = mods.truncate ?t" using sa(1) by (simp add: same_rows_def)
  note sc = truncate_columns [OF tr]
  show ?thesis
  proof (rule that [of "sendAllListPackets ?t"])
    show "divertConsumeStep s = Some (sendAllListPackets ?t)" by (simp add: divertConsumeStep_def r(1))
    show "ledger (held_all (sendAllListPackets ?t)) (denv (sendAllListPackets ?t)) = ledger (main_list s @ held_all s) (denv s)"
      using r(4) by (simp add: ledger_def sa(4) sc tc ac_simps)
  qed (use sa sc tc r more_fields [OF r(5)] in \<open>simp_all add: same_rows_def\<close>)
qed

text \<open>The closing sequence, when closing is defined.\<close>

lemma close_ok:
  assumes inv: "mods_inv s" and cl: "closable s" and q: "nfqQueue (denv s)"
  obtains s' where "clock_close s = Some s'" "mods_inv s'" "nfqQueue (denv s')" "main_list s' = []"
    "held_all s' = stranded s" "ledger (held_all s') (denv s') = ledger (main_list s @ held_all s) (denv s)"
    "filterProg s' = filterProg s" "ipt s' = ipt s" "stopLooping s' = stopLooping s"
    "loopThread s' = loopThread s" "\<not> clockThread s'"
proof -
  obtain t xs e where r: "stop_modules s (main_list s) (denv s) = Some (t, xs, e)" "mods_inv t" "quiet (denv s) e"
     "owed_all (xs @ held_all t) = owed_all (main_list s @ held_all s)" "mods.more t = mods.more s"
     "held_all t = stranded s"
    using stop_modules_ok [OF inv cl, of "main_list s" "denv s"] by blast
  have qe: "nfqQueue e" "answered e = answered (denv s)" using r(3) q quiet_answered by simp_all
  let ?t = "t\<lparr>main_list := xs, denv := e\<rparr>"
  let ?u = "sendAllListPackets ?t"
  have tt: "mods.truncate ?t = mods.truncate t" by simp
  note tc = truncate_columns [OF tt]
  have sa: "same_rows ?t ?u" "main_list ?u = []" "nfqQueue (denv ?u)" "answered (denv ?u) = ledger xs e"
    using sendAll_ok [of ?t] qe(1) by simp_all
  have tr: "mods.truncate (?u\<lparr>clockThread := False\<rparr>) = mods.truncate ?t" using sa(1) by (simp add: same_rows_def)
  note sc = truncate_columns [OF tr]
  show ?thesis
  proof (rule that [of "?u\<lparr>clockThread := False\<rparr>"])
    show "clock_close s = Some (?u\<lparr>clockThread := False\<rparr>)" by (simp add: clock_close_def r(1))
    show "ledger (held_all (?u\<lparr>clockThread := False\<rparr>)) (denv (?u\<lparr>clockThread := False\<rparr>)) =
        ledger (main_list s @ held_all s) (denv s)"
      using r(4) qe(2) by (simp add: ledger_def sa(4) sc tc ac_simps)
  qed (use sa sc tc r more_fields [OF r(5)] in \<open>simp_all add: same_rows_def\<close>)
qed

lemma close_crash: "mods_inv s \<Longrightarrow> \<not> closable s \<Longrightarrow> clock_close s = None"
  by (simp add: clock_close_def stop_modules_crash)


subsection \<open>The runaway guard\<close>

fun inject_all :: "packet list \<Rightarrow> ('k, 'a) divert_scheme \<Rightarrow> ('k, 'a) divert_scheme" where
  "inject_all [] s = s"
| "inject_all (p # ps) s = inject_all ps (snd (injectRawPacket p s))"

lemma raw_send_sent: "raw_send r s = (ok, s') \<Longrightarrow>
   length (injected s') \<le> length (injected s) + 1 \<and> injectWindowCount s' = injectWindowCount s \<and>
   injectWindowStart s' = injectWindowStart s \<and> injectDisabled s' = injectDisabled s"
  by (auto simp: raw_send_def split: send_result.splits)

lemma inject_send_sent: "inject_send p s = (ok, s') \<Longrightarrow>
   length (injected s') \<le> length (injected s) + 1 \<and> injectWindowCount s' = injectWindowCount s \<and>
   injectWindowStart s' = injectWindowStart s \<and> injectDisabled s' = injectDisabled s"
  by (auto simp: inject_send_def split: if_splits dest: raw_send_sent)

text \<open>One call while the window is open: what is sent is paid for by the window's count.\<close>

lemma inject_in_window:
  assumes w: "injectWindowStart s \<noteq> 0" "\<forall>k. clock_src (denv s) k - injectWindowStart s < 1000"
    and r: "injectRawPacket p s = (ok, s')"
  shows "injectWindowStart s' = injectWindowStart s \<and> clock_src (denv s') = clock_src (denv s) \<and>
    length (injected s') + (INJECT_RATE_LIMIT - injectWindowCount s') \<le>
      length (injected s) + (INJECT_RATE_LIMIT - injectWindowCount s)"
proof (cases "packetLen p < IPHDR \<or> \<not> rawSocket s \<and> \<not> rawSocket6 s \<or> \<not> outbound (meta p) \<or> injectDisabled s")
  case True
  then have "s' = s" using r by (auto simp: injectRawPacket_def split: if_splits)
  then show ?thesis by simp
next
  case False
  obtain now e where t: "timeGetTime (denv s) = (now, e)" by (metis surj_pair)
  have now: "\<not> now - injectWindowStart s \<ge> 1000" "clock_src e = clock_src (denv s)"
    using t w(2) by (auto simp: timeGetTime_def not_le)
  let ?w = "s\<lparr>denv := e, injectWindowCount := injectWindowCount s + 1\<rparr>"
  have eq: "inject_window now (s\<lparr>denv := e\<rparr>) = ?w" using w(1) now(1) by (simp add: inject_window_def)
  have r': "(if injectWindowCount ?w > INJECT_RATE_LIMIT then (False, ?w\<lparr>injectDisabled := True\<rparr>) else inject_send p ?w) = (ok, s')"
    using r False t eq by (auto simp: injectRawPacket_def Let_def split: if_splits)
  show ?thesis
  proof (cases "injectWindowCount ?w > INJECT_RATE_LIMIT")
    case True
    then have "s' = ?w\<lparr>injectDisabled := True\<rparr>" using r' by simp
    then show ?thesis using now(2) by simp
  next
    case False
    then have i: "inject_send p ?w = (ok, s')" using r' by simp
    have "denv s' = e" using inject_send_frame [OF i] by simp
    moreover have "Suc (injectWindowCount s) \<le> INJECT_RATE_LIMIT" using False by simp
    ultimately show ?thesis using inject_send_sent [OF i] now(2) by simp arith
  qed
qed

lemma inject_disabled_stays: "injectDisabled s \<Longrightarrow> snd (injectRawPacket p s) = s"
  by (simp add: injectRawPacket_def)

end
