(* ===== verification/Capture.thy ===== *)
theory Capture
  imports Divert
begin

text \<open>
  A running capture as a state machine: the read thread's and the clock thread's critical sections
  (serialised by the mutex), the writes of the control interfaces between them, and the stop request.
  \<open>capture s0 ids s\<close> says that \<open>s\<close> is reached from \<open>s0\<close> and that the queue delivered the ids \<open>ids\<close> on
  the way.

  The invariant is the ledger of theory \<open>Packet\<close>: every id the queue delivered is answered once, or is
  owed by exactly one packet that a module holds. From it follow the exactly-one-verdict property,
  the bound on what is held against the queue's length, and that a stop answers everything, together
  with the two orders of events in which it does not.
\<close>

subsection \<open>Steps\<close>

datatype event = Received nfq_msg | ClockTick | Write string string | StatsReset | StopRequest
  | ReadExit | ClockClose

fun ids_of :: "event \<Rightarrow> u32 list" where
  "ids_of (Received msg) = (case msg_id msg of Some i \<Rightarrow> [i] | None \<Rightarrow> [])"
| "ids_of _ = []"

inductive capture_step :: "('k, 'a) divert_scheme \<Rightarrow> event \<Rightarrow> ('k, 'a) divert_scheme \<Rightarrow> bool" where
  received: "loopThread s \<Longrightarrow> \<not> stopLooping s \<Longrightarrow> nfqCallback msg s = Some s' \<Longrightarrow> capture_step s (Received msg) s'"
| tick: "clockThread s \<Longrightarrow> divertConsumeStep s = Some s' \<Longrightarrow> capture_step s ClockTick s'"
| control: "applyModuleKV k v s = Some (ok, s') \<Longrightarrow> capture_step s (Write k v) s'"
| stats: "capture_step s StatsReset (statsReset s)"
| stop: "capture_step s StopRequest (s\<lparr>stopLooping := True\<rparr>)"
| read_exit: "loopThread s \<Longrightarrow> capture_step s ReadExit (s\<lparr>loopThread := False\<rparr>)"
| close: "clockThread s \<Longrightarrow> stopLooping s \<Longrightarrow> clock_close s = Some s' \<Longrightarrow> capture_step s ClockClose s'"

inductive_cases capture_stepE: "capture_step s ev s'"

inductive capture :: "('k, 'a) divert_scheme \<Rightarrow> u32 list \<Rightarrow> ('k, 'a) divert_scheme \<Rightarrow> bool" where
  start: "capture s [] s"
| step: "capture s0 ids s \<Longrightarrow> capture_step s ev s' \<Longrightarrow> capture s0 (ids @ ids_of ev) s'"

text \<open>A filter program as \<^verbatim>\<open>filterCompile\<close> leaves it.\<close>

definition filter_ok :: "filter_program option \<Rightarrow> bool" where
  "filter_ok prog \<longleftrightarrow> (\<forall>mt p. filterMatch prog mt p \<noteq> None)"

text \<open>A capture that has just been started.\<close>

definition fresh :: "('k, 'a) divert_scheme \<Rightarrow> bool" where
  "fresh s \<longleftrightarrow> mods_inv s \<and> held_all s = [] \<and> main_list s = [] \<and> nfqQueue (denv s) \<and>
     verdicts (denv s) = [] \<and> filter_ok (filterProg s) \<and> loopThread s \<and> clockThread s \<and> \<not> stopLooping s"

definition capture_inv :: "u32 list \<Rightarrow> ('k, 'a) divert_scheme \<Rightarrow> bool" where
  "capture_inv ids s \<longleftrightarrow> mods_inv s \<and> main_list s = [] \<and> nfqQueue (denv s) \<and> filter_ok (filterProg s) \<and>
     (clockThread s \<longrightarrow> idle_empty s) \<and> ledger (held_all s) (denv s) = mset ids"

subsection \<open>The steps keep the invariant\<close>

lemma more_denv: "mods.more s' = mods.more (s :: ('k, 'a) divert_scheme) \<Longrightarrow> denv s' = denv s"
  by (cases s; cases s') simp

lemma empty_idle: "held_all s = [] \<Longrightarrow> idle_empty s"
  by (auto simp: held_all_def idle_empty_def list_all2_conv_all_nth)

lemma fresh_inv: "fresh s \<Longrightarrow> capture_inv [] s"
  by (simp add: fresh_def capture_inv_def empty_idle ledger_def answered_def)

lemma statsReset_rows:
  "mods_inv s \<Longrightarrow> mods_inv (statsReset s)" "helds (statsReset s) = helds s"
  "enabled_flags (statsReset s) = enabled_flags s" "started_flags (statsReset s) = started_flags s"
  by (simp_all add: statsReset_def mods_inv_def mod_inv_defs columns Let_def corruptResetStats_def buffered_wf_def
      jitter_wf_def ood_wf_def bandwidth_wf_def bandwidth_ready_def tokens_ok_def)

lemma statsReset_fields:
  "main_list (statsReset s) = main_list s" "verdicts (denv (statsReset s)) = verdicts (denv s)"
  "nfqQueue (denv (statsReset s)) = nfqQueue (denv s)" "filterProg (statsReset s) = filterProg s"
  "clockThread (statsReset s) = clockThread s"
  by (simp_all add: statsReset_def Let_def)

lemma untouched_inv:
  assumes "capture_inv ids s"
  shows "capture_inv (ids @ [i]) (s\<lparr>denv := accept_untouched i (denv s)\<rparr>)"
proof -
  let ?t = "s\<lparr>denv := accept_untouched i (denv s)\<rparr>"
  have tr: "mods.truncate ?t = mods.truncate s" by simp
  show ?thesis using assms unfolding capture_inv_def truncate_columns [OF tr]
    by (simp add: accept_untouched_def ledger_def answered_def ac_simps)
qed

lemma inv_env:
  assumes "capture_inv ids s" "quiet (denv s) e" shows "capture_inv ids (s\<lparr>denv := e\<rparr>)"
proof -
  have tr: "mods.truncate (s\<lparr>denv := e\<rparr>) = mods.truncate s" by simp
  show ?thesis using assms quiet_answered [OF assms(2)] unfolding capture_inv_def truncate_columns [OF tr]
    by (simp add: ledger_def)
qed

lemma owed_new: "createNode d mt (Some (zero_backend\<lparr>packetId := i\<rparr>)) e = (Some p, e') \<Longrightarrow> i \<noteq> 0 \<Longrightarrow> owed p = {#i#}"
  by (auto simp: createNode_def owed_def zero_backend_def Let_def split: prod.splits if_splits)

text \<open>A captured packet that the filter lets in: its id joins the ledger, and the step keeps it.\<close>

lemma consume_inv:
  assumes inv: "capture_inv ids s" and owe: "owed p = {#i#}"
    and r: "divertConsumeStep (appendMain p (s\<lparr>statsCapturedTotal := c\<rparr>)) = Some s'"
  shows "capture_inv (ids @ [i]) s'"
proof -
  let ?t = "appendMain p (s\<lparr>statsCapturedTotal := c\<rparr>)"
  have tr: "mods.truncate ?t = mods.truncate s" by (simp add: appendMain_def)
  note tc = truncate_columns [OF tr]
  have pre: "mods_inv ?t" "nfqQueue (denv ?t)" using inv by (simp_all add: capture_inv_def tc, simp add: appendMain_def)
  show ?thesis
  proof (rule consume_ok [OF pre])
    fix u assume u: "divertConsumeStep ?t = Some u" "mods_inv u" "nfqQueue (denv u)" "main_list u = []"
      "ledger (held_all u) (denv u) = ledger (main_list ?t @ held_all ?t) (denv ?t)" "idle_empty ?t \<longrightarrow> idle_empty u"
      "filterProg u = filterProg ?t" "clockThread u = clockThread ?t"
    have "s' = u" using u(1) r by simp
    moreover have "ledger (main_list ?t @ held_all ?t) (denv ?t) = mset (ids @ [i])"
      using inv owe by (simp add: capture_inv_def tc) (simp add: appendMain_def ledger_def ac_simps)
    ultimately show ?thesis using inv u(2-8) by (simp add: capture_inv_def tc) (simp add: appendMain_def)
  qed
qed

lemma callback_inv:
  assumes inv: "capture_inv ids s" and nz: "0 \<notin> set (ids_of (Received msg))"
    and r: "nfqCallback msg s = Some s'"
  shows "capture_inv (ids @ ids_of (Received msg)) s'"
proof (cases "msg_id msg")
  case None
  then show ?thesis using r inv by (simp add: nfqCallback_def)
next
  case (Some i)
  define payload where "payload = (case msg_payload msg of Some p \<Rightarrow> p | None \<Rightarrow> [])"
  have ids: "ids_of (Received msg) = [i]" "i \<noteq> 0" using Some nz by simp_all
  show ?thesis
  proof (cases "payload = []")
    case True
    then show ?thesis using r Some ids untouched_inv [OF inv] by (auto simp: nfqCallback_def payload_def)
  next
    case np: False
    obtain hit where hit: "filterMatch (filterProg s) (msg_meta msg payload) payload = Some hit"
      using inv by (auto simp: capture_inv_def filter_ok_def)
    note body = r [unfolded nfqCallback_def Some payload_def [symmetric], simplified, unfolded Let_def, simplified np hit, simplified]
    show ?thesis
    proof (cases hit)
      case False
      then show ?thesis using body ids untouched_inv [OF inv] by auto
    next
      case True
      obtain po e where c: "createNode payload (Some (msg_meta msg payload)) (Some (zero_backend\<lparr>packetId := i\<rparr>)) (denv s) = (po, e)"
        by (metis surj_pair)
      have inv_e: "capture_inv ids (s\<lparr>denv := e\<rparr>)" by (rule inv_env [OF inv quiet_createNode [OF c]])
      show ?thesis
      proof (cases po)
        case None
        then show ?thesis using body c True ids untouched_inv [OF inv_e] by auto
      next
        case (Some p)
        then show ?thesis using body c True ids consume_inv [OF inv_e owed_new [of _ _ i _ p]] by auto
      qed
    qed
  qed
qed


lemma step_inv:
  assumes inv: "capture_inv ids s" and nz: "0 \<notin> set (ids_of ev)" and st: "capture_step s ev s'"
  shows "capture_inv (ids @ ids_of ev) s'"
  using st
proof cases
  case (received msg)
  then show ?thesis using callback_inv [OF inv, of msg s'] nz by simp
next
  case tick
  have pre: "mods_inv s" "nfqQueue (denv s)" using inv by (simp_all add: capture_inv_def)
  show ?thesis using tick inv by (rule_tac consume_ok [OF pre]) (auto simp: capture_inv_def)
next
  case (control k v ok)
  have sr: "same_run s s'" by (rule applyModuleKV_same_run [OF control(2)])
  then have "held_all s' = held_all s" by (simp add: same_run_def held_all_def)
  moreover have "main_list s' = main_list s" "filterProg s' = filterProg s" "clockThread s' = clockThread s" "denv s' = denv s"
    using sr more_fields [of s' s] more_denv [of s' s] by (simp_all add: same_run_def)
  ultimately show ?thesis using control sr inv by (simp add: capture_inv_def same_run_def)
next
  case stats
  have "idle_empty (statsReset s) = idle_empty s" "held_all (statsReset s) = held_all s"
    by (simp_all add: idle_empty_def held_all_def statsReset_rows)
  then show ?thesis using stats inv statsReset_rows(1) [of s] by (simp add: capture_inv_def statsReset_fields ledger_def answered_def)
next
  case stop
  have tr: "mods.truncate s' = mods.truncate s" using stop by simp
  show ?thesis using stop inv truncate_columns [OF tr] by (simp add: capture_inv_def)
next
  case read_exit
  have tr: "mods.truncate s' = mods.truncate s" using read_exit by simp
  show ?thesis using read_exit inv truncate_columns [OF tr] by (simp add: capture_inv_def)
next
  case close
  have pre: "mods_inv s" "nfqQueue (denv s)" using inv by (simp_all add: capture_inv_def)
  have cl: "closable s" using close_crash [OF pre(1)] close(4) by (cases "closable s") simp_all
  show ?thesis using close inv by (rule_tac close_ok [OF pre(1) cl pre(2)]) (auto simp: capture_inv_def)
qed

lemma capture_keeps_inv:
  "capture s0 ids s \<Longrightarrow> fresh s0 \<Longrightarrow> 0 \<notin> set ids \<Longrightarrow> capture_inv ids s"
proof (induction rule: capture.induct)
  case (start s)
  then show ?case by (simp add: fresh_inv)
next
  case (step s0 ids s ev s')
  have inv: "capture_inv ids s" using step.IH step.prems by simp
  have nz: "0 \<notin> set (ids_of ev)" using step.prems(2) by simp
  show ?case by (rule step_inv [OF inv nz step.hyps(2)])
qed

text \<open>The callback never crashes.\<close>

lemma callback_total:
  assumes inv: "capture_inv ids s" shows "nfqCallback msg s \<noteq> None"
proof (cases "msg_id msg")
  case None
  then show ?thesis by (simp add: nfqCallback_def)
next
  case (Some i)
  have step: "divertConsumeStep (appendMain p (s\<lparr>denv := e, statsCapturedTotal := c\<rparr>)) \<noteq> None" if q: "quiet (denv s) e" for p e c
  proof -
    let ?t = "appendMain p (s\<lparr>denv := e, statsCapturedTotal := c\<rparr>)"
    have tr: "mods.truncate ?t = mods.truncate s" by (simp add: appendMain_def)
    have pre: "mods_inv ?t" "nfqQueue (denv ?t)"
      using inv quiet_answered [OF q] by (simp_all add: capture_inv_def truncate_columns [OF tr], simp add: appendMain_def)
    show ?thesis by (rule consume_ok [OF pre]) simp
  qed
  define payload where "payload = (case msg_payload msg of Some p \<Rightarrow> p | None \<Rightarrow> [])"
  obtain hit where hit: "filterMatch (filterProg s) (msg_meta msg payload) payload = Some hit"
    using inv by (auto simp: capture_inv_def filter_ok_def)
  obtain po e where c: "createNode payload (Some (msg_meta msg payload)) (Some (zero_backend\<lparr>packetId := i\<rparr>)) (denv s) = (po, e)"
    by (metis surj_pair)
  show ?thesis
    using Some hit c step [OF quiet_createNode [OF c]]
    by (cases po) (simp_all add: nfqCallback_def payload_def [symmetric] Let_def)
qed

text \<open>The last step of the clock thread and its closing sequence, from any state of a capture.\<close>

lemma last_step_close:
  assumes inv: "capture_inv ids s" and clock: "clockThread s"
  obtains s1 s2 where "divertConsumeStep s = Some s1" "clockThread s1" "clock_close (s1\<lparr>stopLooping := True\<rparr>) = Some s2"
    "answered (denv s2) = mset ids" "held_all s2 = []" "main_list s2 = []" "\<not> clockThread s2"
    "mods_inv s2" "stopLooping s1 = stopLooping s"
proof -
  have pre: "mods_inv s" "nfqQueue (denv s)" using inv by (simp_all add: capture_inv_def)
  obtain s1 where s1: "divertConsumeStep s = Some s1" "mods_inv s1" "nfqQueue (denv s1)" "main_list s1 = []"
    "ledger (held_all s1) (denv s1) = ledger (main_list s @ held_all s) (denv s)"
    "started_flags s1 = enabled_flags s" "enabled_flags s1 = enabled_flags s" "idle_empty s \<longrightarrow> idle_empty s1"
    "clockThread s1 = clockThread s" "stopLooping s1 = stopLooping s" by (rule consume_ok [OF pre])
  let ?t = "s1\<lparr>stopLooping := True\<rparr>"
  have tr: "mods.truncate ?t = mods.truncate s1" by simp
  note tc = truncate_columns [OF tr]
  have idle: "idle_empty s1" using s1(8) inv clock by (simp add: capture_inv_def)
  have cl: "closable ?t" using started_closable [of s1] s1(2,6,7) by (simp add: tc)
  have str: "stranded ?t = []" using idle_stranded [of ?t] idle s1(6,7) by (simp add: tc)
  have pre1: "mods_inv ?t" "nfqQueue (denv ?t)" using s1(2,3) tc by simp_all
  obtain s2 where s2: "clock_close ?t = Some s2" "mods_inv s2" "main_list s2 = []" "held_all s2 = stranded ?t"
    "ledger (held_all s2) (denv s2) = ledger (main_list ?t @ held_all ?t) (denv ?t)" "\<not> clockThread s2"
    by (rule close_ok [OF pre1(1) cl pre1(2)])
  have "ledger (held_all s2) (denv s2) = mset ids"
    using s2(5) s1(4,5) inv tc by (simp add: capture_inv_def)
  then have "answered (denv s2) = mset ids" using s2(4) str by (simp add: ledger_def)
  then show ?thesis using s1(1,9,10) s2 str clock by (intro that [of s1 s2]) simp_all
qed

lemma running_filter:
  assumes "filterCompile expr n = Some (Inr pr)" shows "filter_ok (Some pr)"
proof -
  obtain e where "repr e (prog_nodes pr) (prog_root pr)" by (rule compiled_repr [OF assms])
  from filterMatch_repr [OF this] show ?thesis by (simp add: filter_ok_def)
qed

subsection \<open>Starting\<close>

lemma forget_rows:
  "mods_inv s \<Longrightarrow> mods_inv (forget_started s)" "helds (forget_started s) = helds s"
  by (simp_all add: forget_started_def mods_inv_def mod_inv_defs columns buffered_wf_def jitter_wf_def ood_wf_def
      bandwidth_wf_def tokens_ok_def)

lemma forget_fields:
  "main_list (forget_started s) = main_list s" "denv (forget_started s) = denv s" "filterProg (forget_started s) = filterProg s"
  "nfqHandle (forget_started s) = nfqHandle s" "ipt (forget_started s) = ipt s" "loopThread (forget_started s) = loopThread s"
  "clockThread (forget_started s) = clockThread s"
  by (simp_all add: forget_started_def)

lemma open_raw_fields:
  "mods.truncate (open_raw os s) = mods.truncate s" "main_list (open_raw os s) = main_list s" "denv (open_raw os s) = denv s"
  "filterProg (open_raw os s) = filterProg s" "loopThread (open_raw os s) = loopThread s"
  "clockThread (open_raw os s) = clockThread s"
  by (simp_all add: open_raw_def mods.defs)

text \<open>What the setup leaves behind when every call succeeds.\<close>

lemma setup_fresh:
  assumes "mods_inv s" "held_all s = []" "main_list s = []" "filter_ok (filterProg s)" "start_setup os s = (None, s')"
  shows "fresh s'"
proof -
  let ?u = "open_raw os ((s\<lparr>denv := (denv s)\<lparr>nfqQueue := True, verdicts := []\<rparr>\<rparr>)
      \<lparr>injectMark := word_of_int (arg_int (arg_inject_mark os) DEFAULT_INJECT_MARK)\<rparr>)"
  let ?v = "forget_started ?u"
  have s': "s' = ?v\<lparr>stopLooping := False, mutex := True, loopThread := True, clockThread := True\<rparr>"
    using assms(5) by (auto simp: start_setup_def Let_def split: if_splits)
  have tr: "mods.truncate ?u = mods.truncate s" by (simp add: open_raw_fields)
  have u: "mods_inv ?u" "held_all ?u = []" using assms(1,2) truncate_columns [OF tr] by simp_all
  have v: "mods_inv ?v" "held_all ?v = []" using u by (simp_all add: held_all_def forget_rows)
  have tr2: "mods.truncate s' = mods.truncate ?v" unfolding s' by simp
  show ?thesis unfolding fresh_def using v truncate_columns [OF tr2] assms(3,4)
    by (simp add: s' forget_fields open_raw_fields)
qed

lemma setup_error:
  assumes "start_setup os s = (Some err, s')" "\<not> loopThread s" "\<not> clockThread s" "\<not> mutex s"
  shows "err \<in> {ERR_BIND, ERR_QUEUE, ERR_MODE, ERR_MUTEX, ERR_READ_THREAD, ERR_CLOCK_THREAD} \<and>
    (loopThread s' \<longleftrightarrow> err = ERR_CLOCK_THREAD) \<and> (err = ERR_CLOCK_THREAD \<longrightarrow> \<not> stopLooping s') \<and> \<not> clockThread s' \<and>
    (mutex s' \<longleftrightarrow> err = ERR_READ_THREAD \<or> err = ERR_CLOCK_THREAD)"
  using assms by (auto simp: start_setup_def Let_def forget_fields open_raw_fields split: if_splits)

lemma started_fresh:
  assumes "mods_inv s" "held_all s = []" "main_list s = []" "divertStart run os expr s = Some (None, s')"
  shows "fresh s'"
proof -
  obtain pr where pr: "filterCompile (Some expr) 512 = Some (Inr pr)"
    using assms(4) by (auto simp: divertStart_def Let_def split: option.splits sum.splits)
  let ?t = "s\<lparr>queueNum := arg_int (arg_queue_num os) 0, filterProg := Some pr, nfqHandle := True\<rparr>"
  have tr: "mods.truncate ?t = mods.truncate s" by simp
  obtain u t where u: "start_setup os ?t = (None, u)" "s' = u \<or> s' = u\<lparr>ipt := t\<rparr>"
    using assms(4) pr by (auto simp: divertStart_def Let_def split: option.splits if_splits prod.splits)
  have f: "fresh u" by (rule setup_fresh [OF _ _ _ _ u(1)])
    (use assms(1-3) truncate_columns [OF tr] running_filter [OF pr] in simp_all)
  have "mods.truncate s' = mods.truncate u" using u(2) by auto
  from truncate_columns [OF this] f u(2) show ?thesis unfolding fresh_def by auto
qed

subsection \<open>A concrete capture\<close>

definition idle_divert :: "tables divert" where
  "idle_divert = mods.extend mods_init
     \<lparr>main_list = [], denv = (env_at 1000)\<lparr>nfqQueue := False\<rparr>, nfqHandle = False, rawSocket = False, rawSocket6 = False,
      rawHdrIncl6 = False, rawDropCount = 0, injectMark = 0, injectWindowCount = 0, injectWindowStart = 0,
      injectDisabled = False, send_src = (\<lambda>_. SEND_OK), send_pos = 0, injected = [], sendState = STATUS_NONE,
      statsCapturedTotal = 0, statsSentTotal = 0, filterProg = None, queueNum = 0, stopLooping = False,
      loopThread = False, clockThread = False, mutex = False, ipt = iptables_init (\<lambda>_. [])\<rparr>"

definition running_divert :: "tables divert" where
  "running_divert = idle_divert\<lparr>denv := env_at 1000, nfqHandle := True, rawSocket := True, loopThread := True,
     clockThread := True\<rparr>"

definition message :: "u32 \<Rightarrow> u8 list \<Rightarrow> nfq_msg" where
  "message i d = \<lparr>msg_id = Some i, msg_payload = Some d, msg_indev = 0, msg_outdev = 2, msg_physindev = 0, msg_physoutdev = 0\<rparr>"

lemma idle_truncate: "mods.truncate idle_divert = mods_init"
  by (simp add: idle_divert_def mods.defs mods_init_def)

lemma idle_columns:
  "mods_inv idle_divert" "held_all idle_divert = []" "idle_empty idle_divert" "closable idle_divert"
  using truncated_columns [of idle_divert] truncated_held [of idle_divert] truncated_idle [of idle_divert]
    truncated_closable [of idle_divert] mods_init_ok by (simp_all add: idle_truncate)

lemma filter_ok_None: "filter_ok None"
  by (simp add: filter_ok_def filterMatch_def)

lemma running_fresh: "fresh running_divert"
proof -
  have tr: "mods.truncate running_divert = mods.truncate idle_divert" by (simp add: running_divert_def mods.defs)
  show ?thesis unfolding fresh_def truncate_columns [OF tr] using idle_columns filter_ok_None
    by (simp add: running_divert_def) (simp add: idle_divert_def mods.defs)
qed

lemma empty_message: "nfqCallback (message i []) s = Some (s\<lparr>denv := accept_untouched i (denv s)\<rparr>)"
  by (simp add: nfqCallback_def message_def)

lemma capture_one: "capture_step s ev s' \<Longrightarrow> capture s (ids_of ev) s'"
  using capture.step [OF capture.start, of s ev s'] by simp

lemma running_receives:
  "capture running_divert [7] (running_divert\<lparr>denv := accept_untouched 7 (denv running_divert)\<rparr>)"
proof -
  have "capture_step running_divert (Received (message 7 [])) (running_divert\<lparr>denv := accept_untouched 7 (denv running_divert)\<rparr>)"
    using running_fresh by (intro capture_step.received) (simp_all add: empty_message fresh_def)
  from capture_one [OF this] show ?thesis by (simp add: message_def)
qed

subsection \<open>Properties\<close>

text \<open>C1: In every state a capture can reach, from its start through any interleaving of received packets,
  clock steps, parameter and enable writes, resets of the counters and the stop sequence, every queue
  id received so far is accounted for exactly once: it has been answered by one verdict or is owed by
  exactly one packet that a module still holds. In particular no id is ever answered twice. (Queue ids
  are not 0, as NFQUEUE numbers packets from 1.)\<close>

theorem one_verdict_per_packet:
  assumes "fresh s0" "capture s0 ids s" "0 \<notin> set ids"
  shows "main_list s = [] \<and> owed_all (held_all s) + answered (denv s) = mset ids \<and>
    (distinct ids \<longrightarrow> distinct (map fst (verdicts (denv s))))"
proof -
  have inv: "capture_inv ids s" by (rule capture_keeps_inv [OF assms(2,1,3)])
  then have l: "owed_all (held_all s) + answered (denv s) = mset ids" by (simp add: capture_inv_def ledger_def)
  have "distinct (map fst (verdicts (denv s)))" if "distinct ids"
  proof -
    have sub: "answered (denv s) \<subseteq># mset ids" unfolding l [symmetric] by simp
    have "count (answered (denv s)) x \<le> 1" for x
      using mset_subset_eq_count [OF sub, of x] that distinct_count_atmost_1 [of ids] by (simp split: if_splits)
    then show ?thesis
      unfolding answered_def distinct_count_atmost_1
      by (metis One_nat_def Suc_leI count_mset_0_iff le_antisym not_gr_zero)
  qed
  then show ?thesis using inv l by (simp add: capture_inv_def)
qed

lemma one_verdict_per_packet_witness:
  "owed_all (held_all (running_divert\<lparr>denv := accept_untouched 7 (denv running_divert)\<rparr>)) +
     answered (denv (running_divert\<lparr>denv := accept_untouched 7 (denv running_divert)\<rparr>)) = {#7#}"
  using one_verdict_per_packet [OF running_fresh running_receives] by simp

text \<open>C4: A running capture never crashes: in every reachable state the clock thread's step is defined (no
  module ever touches a buffer that was never linked) and so is the callback for every message the
  queue can deliver.\<close>

theorem capture_never_stuck:
  assumes "fresh s0" "capture s0 ids s" "0 \<notin> set ids"
  shows "(\<exists>s'. divertConsumeStep s = Some s') \<and> (\<forall>msg. \<exists>s'. nfqCallback msg s = Some s')"
proof -
  have inv: "capture_inv ids s" by (rule capture_keeps_inv [OF assms(2,1,3)])
  then have pre: "mods_inv s" "nfqQueue (denv s)" by (simp_all add: capture_inv_def)
  show ?thesis using callback_total [OF inv] by (rule_tac consume_ok [OF pre]) auto
qed

lemma capture_never_stuck_witness:
  "\<exists>s'. nfqCallback (message 8 [0x45]) (running_divert\<lparr>denv := accept_untouched 7 (denv running_divert)\<rparr>) = Some s'"
  using capture_never_stuck [OF running_fresh running_receives] by simp

text \<open>C18: What clumsy holds back at any moment fits the kernel's queue: at most 7050 packets, less than the
  8192 the queue was told to keep, whatever traffic arrives and however the modules are switched.\<close>

theorem held_fits_queue:
  assumes "fresh s0" "capture s0 ids s" "0 \<notin> set ids"
  shows "length (main_list s @ held_all s) \<le> 7050 \<and> length (main_list s @ held_all s) < NFQ_QUEUE_MAXLEN"
proof -
  have inv: "capture_inv ids s" by (rule capture_keeps_inv [OF assms(2,1,3)])
  then have "length (held_all s) \<le> 7050" using held_bound [of s]
    by (simp add: capture_inv_def KEEP_AT_MOST_def JITTER_KEEP_AT_MOST_def THROTTLE_KEEP_AT_MOST_def OOD_ARRAY_def BW_KEEP_AT_MOST_def)
  then show ?thesis using inv by (simp add: capture_inv_def NFQ_QUEUE_MAXLEN_def)
qed

lemma held_fits_queue_witness:
  "length (held_all (running_divert\<lparr>denv := accept_untouched 7 (denv running_divert)\<rparr>)) \<le> 7050"
  using held_fits_queue [OF running_fresh running_receives] by simp


text \<open>C3: A stop answers everything: from every reachable state in which the clock thread runs, its next step
  followed by its closing sequence leaves no packet behind, and the answered ids are exactly the
  received ones.\<close>

theorem stop_answers_everything:
  assumes "fresh s0" "capture s0 ids s" "0 \<notin> set ids" "clockThread s"
  shows "\<exists>s1 s2. capture_step s ClockTick s1 \<and> capture_step (s1\<lparr>stopLooping := True\<rparr>) ClockClose s2 \<and>
    answered (denv s2) = mset ids \<and> held_all s2 = [] \<and> main_list s2 = [] \<and> \<not> clockThread s2"
proof -
  have inv: "capture_inv ids s" by (rule capture_keeps_inv [OF assms(2,1,3)])
  obtain s1 s2 where s: "divertConsumeStep s = Some s1" "clockThread s1" "clock_close (s1\<lparr>stopLooping := True\<rparr>) = Some s2"
    "answered (denv s2) = mset ids" "held_all s2 = []" "main_list s2 = []" "\<not> clockThread s2"
    by (rule last_step_close [OF inv assms(4)])
  have "capture_step s ClockTick s1" using assms(4) s(1) by (rule capture_step.tick)
  moreover have "capture_step (s1\<lparr>stopLooping := True\<rparr>) ClockClose s2" using s(2,3) by (intro capture_step.close) simp_all
  ultimately show ?thesis using s(4-7) by blast
qed

lemma stop_answers_everything_witness:
  "\<exists>s1 s2. capture_step (running_divert\<lparr>denv := accept_untouched 7 (denv running_divert)\<rparr>) ClockTick s1 \<and>
     capture_step (s1\<lparr>stopLooping := True\<rparr>) ClockClose s2 \<and> answered (denv s2) = {#7#}"
  using stop_answers_everything [OF running_fresh running_receives] by (force simp: running_divert_def)

text \<open>C6: The closing sequence exactly: it crashes if and only if some module is enabled whose buffer has
  never been linked (one switched on after the last step and never started before); otherwise it
  answers every received id except those of the packets sitting in modules that are not enabled.\<close>

theorem closing_exactly:
  assumes "fresh s0" "capture s0 ids s" "0 \<notin> set ids"
  shows "(clock_close s = None \<longleftrightarrow> \<not> closable s) \<and>
    (\<forall>s'. clock_close s = Some s' \<longrightarrow> main_list s' = [] \<and> held_all s' = stranded s \<and>
       answered (denv s') + owed_all (stranded s) = mset ids)"
proof -
  have inv: "capture_inv ids s" by (rule capture_keeps_inv [OF assms(2,1,3)])
  then have pre: "mods_inv s" "nfqQueue (denv s)" by (simp_all add: capture_inv_def)
  show ?thesis
  proof (cases "closable s")
    case False
    then show ?thesis using close_crash [OF pre(1)] by simp
  next
    case True
    obtain s' where s': "clock_close s = Some s'" "main_list s' = []" "held_all s' = stranded s"
      "ledger (held_all s') (denv s') = ledger (main_list s @ held_all s) (denv s)"
      by (rule close_ok [OF pre(1) True pre(2)])
    have "ledger (held_all s') (denv s') = mset ids" using s'(4) inv by (simp add: capture_inv_def)
    then show ?thesis using s'(1-3) True by (simp add: ledger_def add.commute)
  qed
qed

lemma closing_exactly_witness:
  "\<exists>s'. clock_close (running_divert\<lparr>denv := accept_untouched 7 (denv running_divert)\<rparr>) = Some s' \<and>
     answered (denv s') + owed_all (stranded (running_divert\<lparr>denv := accept_untouched 7 (denv running_divert)\<rparr>)) = {#7#}"
proof -
  let ?s = "running_divert\<lparr>denv := accept_untouched 7 (denv running_divert)\<rparr>"
  have tr: "mods.truncate ?s = mods.truncate idle_divert" by (simp add: running_divert_def mods.defs)
  have "closable ?s" using idle_columns truncate_columns [OF tr] by simp
  then show ?thesis using closing_exactly [OF running_fresh running_receives] by fastforce
qed

text \<open>Both exceptions are reachable. Switching a module on for the first time and stopping before the next
  clock step makes the closing sequence dereference a null sentinel.\<close>

theorem late_enable_crashes_close:
  "\<exists>s0 s :: tables divert. fresh s0 \<and> capture s0 [] s \<and> clockThread s \<and> stopLooping s \<and> clock_close s = None"
proof -
  let ?s1 = "running_divert\<lparr>m_lag := (m_lag running_divert)\<lparr>enabledFlag := True\<rparr>\<rparr>"
  let ?s2 = "?s1\<lparr>stopLooping := True\<rparr>"
  have "capture_step running_divert (Write ''lag'' ''on'') ?s1"
    by (rule capture_step.control [OF write_examples(1)])
  from capture.step [OF capture_one [OF this] capture_step.stop] have r: "capture running_divert [] ?s2" by simp
  have nc: "\<not> closable ?s2"
    by (simp add: closable_def columns running_divert_def idle_divert_def mods.defs mods_init_def lag_init_def module_defaults_def module_base.defs)
  have "mods_inv ?s2" using capture_keeps_inv [OF r running_fresh] by (simp add: capture_inv_def)
  then have "clock_close ?s2 = None" using nc by (rule close_crash)
  moreover have "clockThread ?s2" by (simp add: running_divert_def)
  ultimately show ?thesis using running_fresh r by (intro exI [of _ running_divert] exI [of _ ?s2]) simp
qed


subsection \<open>A run that strands a packet\<close>

lemma run_modules_lag_only:
  assumes r: "run_lag s xs e = Some (s', xs', e')"
    and off: "True \<notin> set (tl (enabled_flags s))" "True \<notin> set (tl (started_flags s))"
  shows "run_modules s xs e = Some (s', xs', e')"
proof -
  obtain m where "s' = s\<lparr>m_lag := m\<rparr>" using r by (auto simp: run_lag_def)
  then show ?thesis using off by (simp add: run_modules_def run_list_def r flags_columns idle_stages)
qed

lemma lag_takes_one:
  assumes "outbound (meta p)" "timeGetTime (startTimePeriod e) = (now, e1)" "\<not> now > now + 50"
  shows "run_module lagStartUp lagProcess lagCloseDown (lag_init\<lparr>enabledFlag := True\<rparr>) [p] e =
    Some (lag_init\<lparr>enabledFlag := True, lastEnabled := True, processTriggered := 1, affectedCount := 1, bufLinked := True,
      buf := [p\<lparr>timestamp := now, enqueueTime := now\<rparr>], bufSize := 1\<rparr>, [], e1)"
  using assms
  by (simp add: run_module_def lagStartUp_def bufferStartUp_def lagProcess_def lag_pickup_def lag_pick_def dir_match_def checkDirection_def
      KEEP_AT_MOST_def lag_init_def module_defaults_def module_base.defs count_affected_def Let_def)

lemma off_map2: "True \<notin> set ens \<Longrightarrow> length ens = length hs \<Longrightarrow> concat (map2 (\<lambda>en h. if en then [] else h) ens hs) = concat hs"
proof (induction ens arbitrary: hs)
  case (Cons en ens)
  then show ?case by (cases hs) auto
qed simp

lemma callback_captures:
  assumes "filterProg s = None" "msg_id msg = Some i" "msg_payload msg = Some d" "d \<noteq> []"
    "createNode d (Some (msg_meta msg d)) (Some (zero_backend\<lparr>packetId := i\<rparr>)) (denv s) = (Some p, e)"
  shows "nfqCallback msg s = divertConsumeStep (appendMain p (s\<lparr>denv := e, statsCapturedTotal := statsCapturedTotal s + 1\<rparr>))"
  using assms by (simp add: nfqCallback_def filterMatch_def Let_def)

text \<open>Switching a module off and stopping before the next clock step strands what it holds: from a fresh
  capture, one packet received by the enabled lag module, the module switched off, and the stop
  sequence, the capture ends with the packet's id never answered.\<close>

theorem disable_then_stop_strands:
  "\<exists>s0 s :: tables divert. fresh s0 \<and> capture s0 [7] s \<and> stopLooping s \<and> \<not> clockThread s \<and> verdicts (denv s) = []"
proof -
  let ?s1 = "running_divert\<lparr>m_lag := (m_lag running_divert)\<lparr>enabledFlag := True\<rparr>\<rparr>"
  have c1: "capture running_divert [] ?s1"
    using capture_one [OF capture_step.control [OF write_examples(1)], of running_divert] by simp
  let ?e = "(env_at 1000)\<lparr>mem_pos := 2\<rparr>"
  define p where "p = \<lparr>pdata = [0x45], meta = msg_meta (message 7 [0x45]) [0x45], backend = zero_backend\<lparr>packetId := 7\<rparr>,
    timestamp = 0, enqueueTime = 0\<rparr>"
  have node: "createNode [0x45] (Some (msg_meta (message 7 [0x45]) [0x45])) (Some (zero_backend\<lparr>packetId := 7\<rparr>)) (env_at 1000) = (Some p, ?e)"
    by (simp add: createNode_def c_malloc_def env_at_def p_def)
  let ?t = "appendMain p (?s1\<lparr>denv := ?e, statsCapturedTotal := 1\<rparr>)"
  let ?e1 = "?e\<lparr>resolutionSet := True, clock_pos := 1\<rparr>"
  let ?q = "p\<lparr>timestamp := 1000, enqueueTime := 1000\<rparr>"
  let ?m = "lag_init\<lparr>enabledFlag := True, lastEnabled := True, processTriggered := 1, affectedCount := 1, bufLinked := True,
      buf := [?q], bufSize := 1\<rparr>"
  have rows: "m_lag ?t = lag_init\<lparr>enabledFlag := True\<rparr>" "True \<notin> set (tl (enabled_flags ?t))" "True \<notin> set (tl (started_flags ?t))"
    "main_list ?t = [p]" "denv ?t = ?e"
    by (simp_all add: appendMain_def running_divert_def idle_divert_def mods.defs mods_init_def flags_columns
        jitter_init_def drop_init_def burstloss_init_def blackout_init_def throttle_init_def dup_init_def
        ood_init_def tamper_init_def corrupt_init_def reset_init_def bandwidth_init_def module_defaults_def module_base.defs)
  have out: "outbound (meta p)" by (simp add: p_def msg_meta_def message_def zero_meta_def Let_def)
  have tick: "timeGetTime (startTimePeriod ?e) = (1000, ?e1)"
    by (simp add: timeGetTime_def startTimePeriod_def env_at_def)
  have "run_lag ?t [p] ?e = Some (?t\<lparr>m_lag := ?m\<rparr>, [], ?e1)"
    unfolding run_lag_def rows(1) by (subst lag_takes_one [OF out tick]) simp_all
  then have "run_modules ?t [p] ?e = Some (?t\<lparr>m_lag := ?m\<rparr>, [], ?e1)"
    by (rule run_modules_lag_only) (rule rows)+
  then have "divertConsumeStep ?t = Some (sendAllListPackets (?t\<lparr>m_lag := ?m, main_list := [], denv := ?e1\<rparr>))"
    unfolding divertConsumeStep_def rows(4,5) by simp
  then have cons: "divertConsumeStep ?t = Some (?t\<lparr>m_lag := ?m, main_list := [], denv := ?e1\<rparr>)"
    by (simp add: sendAllListPackets_def)
  let ?s2 = "?t\<lparr>m_lag := ?m, main_list := [], denv := ?e1\<rparr>"
  have st: "loopThread ?s1" "\<not> stopLooping ?s1" "filterProg ?s1 = None" "denv ?s1 = env_at 1000" "statsCapturedTotal ?s1 = 0"
    by (simp_all add: running_divert_def idle_divert_def mods.defs)
  have cb: "nfqCallback (message 7 [0x45]) ?s1 = Some ?s2"
    using callback_captures [of ?s1 "message 7 [0x45]" 7 "[0x45]" p ?e] node cons st by (simp add: message_def)
  have c2: "capture running_divert [7] ?s2"
    using capture.step [OF c1 capture_step.received [OF st(1,2) cb]] by (simp add: message_def)
  have off: "applyModuleKV ''lag'' ''off'' s = Some (True, s\<lparr>m_lag := (m_lag s)\<lparr>enabledFlag := False\<rparr>\<rparr>)" for s :: "tables divert"
    by (simp add: applyModuleKV_def set_enabled_def parseBoolValue_def stricmp_eq_def lower_char_def code_def)
  let ?s3 = "?s2\<lparr>m_lag := ?m\<lparr>enabledFlag := False\<rparr>\<rparr>"
  let ?s4 = "?s3\<lparr>stopLooping := True\<rparr>"
  have c4: "capture running_divert [7] ?s4"
    using capture.step [OF capture.step [OF c2 capture_step.control [OF off]] capture_step.stop] by simp
  have inv: "capture_inv [7] ?s4" by (rule capture_keeps_inv [OF c4 running_fresh]) simp
  then have pre: "mods_inv ?s4" "nfqQueue (denv ?s4)" by (simp_all only: capture_inv_def)
  have rows4: "True \<notin> set (enabled_flags ?s4)" "helds ?s4 = [?q] # replicate 11 []" "main_list ?s4 = []" "clockThread ?s4"
    by (simp_all add: running_divert_def idle_divert_def mods.defs mods_init_def columns appendMain_def numeral_eq_Suc
        lag_init_def jitter_init_def drop_init_def burstloss_init_def blackout_init_def throttle_init_def dup_init_def
        ood_init_def tamper_init_def corrupt_init_def reset_init_def bandwidth_init_def module_defaults_def module_base.defs)
  have cl: "closable ?s4" using rows4(1) by (simp add: closable_def list_all2_conv_all_nth) (metis nth_mem columns_length(2))
  obtain s' where s': "clock_close ?s4 = Some s'" "held_all s' = stranded ?s4" "stopLooping s' = stopLooping ?s4" "\<not> clockThread s'"
    "ledger (held_all s') (denv s') = ledger (main_list ?s4 @ held_all ?s4) (denv ?s4)"
    by (rule close_ok [OF pre(1) cl pre(2)])
  have c5: "capture running_divert [7] s'"
    using capture.step [OF c4 capture_step.close [OF rows4(4) _ s'(1)]] by simp
  have "stranded ?s4 = [?q]" using rows4(1,2) off_map2 [of "enabled_flags ?s4" "helds ?s4"] by (simp add: stranded_def)
  moreover have "owed ?q = {#7#}" by (simp add: p_def owed_def zero_backend_def Let_def)
  moreover have "ledger (held_all s') (denv s') = {#7#}" using s'(5) inv by (simp add: capture_inv_def)
  ultimately have "answered (denv s') = {#}" using s'(2) by (simp add: ledger_def)
  then have "verdicts (denv s') = []" by (simp add: answered_def)
  then show ?thesis using running_fresh c5 s'(3,4) by (intro exI [of _ running_divert] exI [of _ s']) simp
qed

subsection \<open>Clones, transparency, starting\<close>

text \<open>C22: The runaway guard: however many clones are sent while the clock stays within a second of the window's
  start, at most 5000 of them (less those already counted) reach a raw socket; and once the guard has
  tripped, nothing is injected any more, in this window or a later one.\<close>

theorem injection_rate_bounded:
  assumes "injectWindowStart s \<noteq> 0" "\<forall>k. clock_src (denv s) k - injectWindowStart s < 1000"
  shows "length (injected (inject_all ps s)) \<le> length (injected s) + (INJECT_RATE_LIMIT - injectWindowCount s) \<and>
    (injectDisabled s \<longrightarrow> inject_all ps s = s)"
proof
  show "length (injected (inject_all ps s)) \<le> length (injected s) + (INJECT_RATE_LIMIT - injectWindowCount s)"
    using assms
  proof (induction ps arbitrary: s)
    case (Cons p ps)
    obtain ok s' where r: "injectRawPacket p s = (ok, s')" by (metis surj_pair)
    note w = inject_in_window [OF Cons.prems r]
    show ?case using Cons.IH [of s'] Cons.prems w r by simp
  qed simp
  show "injectDisabled s \<longrightarrow> inject_all ps s = s"
    by (induction ps) (simp_all add: inject_disabled_stays)
qed

lemma injection_rate_bounded_witness:
  "length (injected (inject_all (replicate 9000 (packet_of 0 True (replicate 20 0x45)))
      (running_divert\<lparr>injectWindowStart := 999\<rparr>))) \<le> 5000"
proof -
  let ?s = "running_divert\<lparr>injectWindowStart := 999\<rparr>"
  have "injectWindowStart ?s \<noteq> 0" "\<forall>k. clock_src (denv ?s) k - injectWindowStart ?s < 1000"
    "length (injected ?s) = 0" "injectWindowCount ?s = 0"
    by (simp_all add: running_divert_def idle_divert_def mods.defs env_at_def)
  with injection_rate_bounded [OF this(1,2), of "replicate 9000 (packet_of 0 True (replicate 20 0x45))"]
  show ?thesis by (simp only: INJECT_RATE_LIMIT_def) simp
qed

text \<open>C19: With every module off and none started, clumsy is transparent: whatever the filter says and even
  when memory runs out, a queued packet is accepted at once with its own bytes, and nothing is held.\<close>

theorem disabled_is_transparent:
  assumes off: "True \<notin> set (enabled_flags s)" "True \<notin> set (started_flags s)" and s: "main_list s = []" "nfqQueue (denv s)"
    "filter_ok (filterProg s)" and msg: "msg_id msg = Some i" "i \<noteq> 0" "msg_payload msg = Some d"
  shows "\<exists>s' b. nfqCallback msg s = Some s' \<and> helds s' = helds s \<and> main_list s' = [] \<and>
    verdicts (denv s') = verdicts (denv s) @ [(i, NF_ACCEPT b)] \<and> (b = d \<or> b = [])"
proof -
  have untouched: "helds (s\<lparr>denv := accept_untouched i e\<rparr>) = helds s \<and> main_list (s\<lparr>denv := accept_untouched i e\<rparr>) = [] \<and>
      verdicts (denv (s\<lparr>denv := accept_untouched i e\<rparr>)) = verdicts (denv s) @ [(i, NF_ACCEPT [])]"
    if "verdicts e = verdicts (denv s)" for e
    using that s(1) by (simp add: accept_untouched_def columns)
  obtain hit where hit: "filterMatch (filterProg s) (msg_meta msg d) d = Some hit"
    using s(3) by (auto simp: filter_ok_def)
  obtain po e where c: "createNode d (Some (msg_meta msg d)) (Some (zero_backend\<lparr>packetId := i\<rparr>)) (denv s) = (po, e)"
    by (metis surj_pair)
  have q: "quiet (denv s) e" by (rule quiet_createNode [OF c])
  show ?thesis
  proof (cases "d = [] \<or> \<not> hit \<or> po = None")
    case True
    then have "\<exists>e. verdicts e = verdicts (denv s) \<and> nfqCallback msg s = Some (s\<lparr>denv := accept_untouched i e\<rparr>)"
      using msg hit c q by (auto simp: nfqCallback_def Let_def quiet_def)
    then show ?thesis using untouched by blast
  next
    case False
    then obtain p where p: "po = Some p" "d \<noteq> []" "hit" by auto
    have pn: "pdata p = d" "backend p = zero_backend\<lparr>packetId := i\<rparr>"
      using c p(1) by (auto simp: createNode_def split: prod.splits if_splits)
    let ?t = "appendMain p (s\<lparr>denv := e, statsCapturedTotal := statsCapturedTotal s + 1\<rparr>)"
    have tr: "mods.truncate ?t = mods.truncate s" by (simp add: appendMain_def)
    have r: "run_modules ?t (main_list ?t) (denv ?t) = Some (?t, main_list ?t, denv ?t)"
      by (rule run_modules_idle) (use off truncate_columns [OF tr] in simp_all)
    have ml: "main_list ?t = [p]" "denv ?t = e" using s(1) by (simp_all add: appendMain_def)
    have qe: "nfqQueue e" "verdicts e = verdicts (denv s)" using q s(2) by (simp_all add: quiet_def)
    have "nfqCallback msg s = Some (sendAllListPackets ?t)"
      using msg hit c p r by (simp add: nfqCallback_def Let_def divertConsumeStep_def)
    moreover have "sendAllListPackets ?t = send_packet p (?t\<lparr>main_list := []\<rparr>)" by (simp add: sendAllListPackets_def ml)
    moreover have "verdicts (denv (send_packet p (?t\<lparr>main_list := []\<rparr>))) = verdicts (denv s) @ [(i, NF_ACCEPT d)]"
      using pn qe msg(2) ml
      by (simp add: send_packet_def settleVerdict_def freeNode_def packetBackendOnFree_def zero_backend_def Let_def)
    moreover have "helds (send_packet p (?t\<lparr>main_list := []\<rparr>)) = helds s" "main_list (send_packet p (?t\<lparr>main_list := []\<rparr>)) = []"
      using send_packet_ok [of "?t\<lparr>main_list := []\<rparr>" p] qe(1) ml(2) truncate_columns [OF tr]
        truncate_columns [of "send_packet p (?t\<lparr>main_list := []\<rparr>)" ?t] by (auto simp: same_rows_def)
    ultimately show ?thesis by auto
  qed
qed

lemma disabled_is_transparent_witness:
  "\<exists>s' b. nfqCallback (message 9 [0x45, 1]) running_divert = Some s' \<and> helds s' = helds running_divert \<and> main_list s' = [] \<and>
     verdicts (denv s') = verdicts (denv running_divert) @ [(9, NF_ACCEPT b)] \<and> (b = [0x45, 1] \<or> b = [])"
proof (rule disabled_is_transparent)
  have tr: "mods.truncate running_divert = mods_init"
    using idle_truncate by (simp add: running_divert_def mods.defs)
  show "True \<notin> set (enabled_flags running_divert)" "True \<notin> set (started_flags running_divert)"
    using truncated_columns(2,3) [of running_divert]
    by (simp_all add: tr flags_columns mods_init_def jitter_init_def drop_init_def burstloss_init_def blackout_init_def
        throttle_init_def dup_init_def ood_init_def tamper_init_def corrupt_init_def reset_init_def bandwidth_init_def
        lag_init_def module_defaults_def module_base.defs)
qed (use running_fresh in \<open>simp_all add: fresh_def message_def\<close>)


text \<open>A successful \<^verbatim>\<open>divertStart\<close> on modules that hold nothing gives a fresh capture: an open queue
  that has answered nothing, an empty packet list, no module marked started, a well-formed filter and
  both threads running - whatever the previous session left in the other fields.\<close>

theorem start_is_fresh:
  assumes "mods_inv s" "held_all s = []" "main_list s = []" "divertStart run os expr s = Some (None, s')"
  shows "fresh s'"
  by (rule started_fresh [OF assms])

definition sample_os :: start_os where
  "sample_os = \<lparr>os_open = True, os_bind = True, os_queue = True, os_mode = True, os_raw = True, os_raw6 = True,
     os_hdrincl = True, os_mutex = True, os_read_thread = True, os_clock_thread = True, os_joined = True, os_last_step = True, arg_queue_num = None,
     arg_inject_mark = None, arg_auto_iptables = None\<rparr>"

lemma blank_compiled: "filterCompile (Some []) 512 = Some (Inr \<lparr>prog_nodes = [mk_node N_TRUE], prog_root = 0\<rparr>)"
  by (rule filterCompile_blank) (simp add: isBlank_def)

lemma start_is_fresh_witness:
  "\<exists>s'. divertStart table_iptables sample_os [] idle_divert = Some (None, s') \<and> fresh s'"
proof -
  obtain s' where s': "divertStart table_iptables sample_os [] idle_divert = Some (None, s')"
    by (simp add: divertStart_def blank_compiled start_setup_def sample_os_def Let_def)
  have "main_list idle_divert = []" by (simp add: idle_divert_def mods.defs)
  then show ?thesis using start_is_fresh [OF idle_columns(1,2) _ s'] s' by blast
qed



end
