(* ===== verification/Number_Text.thy ===== *)
theory Number_Text
  imports Text
begin

text \<open>
  Doubles as the text interfaces of the program meet them: \<^verbatim>\<open>strtod\<close> with the rest of the text, the
  comparisons, and \<^verbatim>\<open>printf\<close>'s \<open>%g\<close>. A double is a rational number, an infinity or a NaN, the last two
  with their sign; the sign of a zero is not kept.
\<close>

datatype double = Fin rat | Infinite bool | NotANumber bool

text \<open>Rounding to a double: below the smallest normal number the last place is \<open>2 ^ -1074\<close>.\<close>

definition double_of :: "rat \<Rightarrow> double" where
  "double_of x =
     (let r = (if \<bar>x\<bar> < scale2 (- 1022) then of_int (round_half_even (x / scale2 (- 1074))) * scale2 (- 1074)
               else dbl x)
      in if \<bar>r\<bar> \<ge> scale2 1024 then Infinite (x < 0) else Fin r)"

definition exponent_rest :: "char \<Rightarrow> string \<Rightarrow> string" where
  "exponent_rest mark s =
     (case s of c # r \<Rightarrow>
        if lower_char c = mark then
          (let r = (case r of d # r' \<Rightarrow> if d = CHR ''-'' \<or> d = CHR ''+'' then r' else r | [] \<Rightarrow> [])
           in if takeWhile is_digit r = [] then s else dropWhile is_digit r)
        else s
      | [] \<Rightarrow> [])"

definition word_char :: "char \<Rightarrow> bool" where
  "word_char c \<longleftrightarrow> is_digit c \<or> 97 \<le> code (lower_char c) \<and> code (lower_char c) \<le> 122 \<or> c = CHR ''_''"

text \<open>A NaN may carry a word in brackets.\<close>

definition nan_rest :: "string \<Rightarrow> string" where
  "nan_rest s =
     (case s of c # r \<Rightarrow>
        if c = CHR ''('' then
          (case dropWhile word_char r of d # q \<Rightarrow> if d = CHR '')'' then q else s | [] \<Rightarrow> s)
        else s
      | [] \<Rightarrow> [])"

text \<open>What follows the blanks and the sign.\<close>

definition strtod_unsigned :: "bool \<Rightarrow> string \<Rightarrow> (double \<times> string) option" where
  "strtod_unsigned neg s =
     (let l = map lower_char s
      in if take 8 l = ''infinity'' then Some (Infinite neg, drop 8 s)
         else if take 3 l = ''inf'' then Some (Infinite neg, drop 3 s)
         else if take 3 l = ''nan'' then Some (NotANumber neg, nan_rest (drop 3 s))
         else
           (case (if take 2 l = ''0x'' then read_mantissa hex_value 16 (drop 2 s) else None) of
              Some (x, r) \<Rightarrow>
                (let v = x * pow_int 2 (read_exponent CHR ''p'' r)
                 in Some (double_of (if neg then - v else v), exponent_rest CHR ''p'' r))
            | None \<Rightarrow>
                (case read_mantissa dec_value 10 s of
                   Some (x, r) \<Rightarrow>
                     (let v = x * pow_int 10 (read_exponent CHR ''e'' r)
                      in Some (double_of (if neg then - v else v), exponent_rest CHR ''e'' r))
                 | None \<Rightarrow> None)))"

definition strtod :: "string \<Rightarrow> (double \<times> string) option" where
  "strtod s =
     (case dropWhile is_space s of [] \<Rightarrow> None
      | c # r \<Rightarrow>
         if c = CHR ''-'' then strtod_unsigned True r
         else if c = CHR ''+'' then strtod_unsigned False r
         else strtod_unsigned False (c # r))"

definition atof_double :: "string \<Rightarrow> double" where
  "atof_double s = (case strtod s of Some (d, _) \<Rightarrow> d | None \<Rightarrow> Fin 0)"

subsection \<open>Comparisons\<close>

text \<open>A NaN compares false with everything.\<close>

fun double_less :: "double \<Rightarrow> double \<Rightarrow> bool" where
  "double_less (Fin x) (Fin y) = (x < y)"
| "double_less (Fin x) (Infinite neg) = (\<not> neg)"
| "double_less (Infinite neg) (Fin y) = neg"
| "double_less (Infinite neg) (Infinite neg') = (neg \<and> \<not> neg')"
| "double_less _ _ = False"

fun double_eq :: "double \<Rightarrow> double \<Rightarrow> bool" where
  "double_eq (Fin x) (Fin y) = (x = y)"
| "double_eq (Infinite neg) (Infinite neg') = (neg = neg')"
| "double_eq _ _ = False"

subsection \<open>Printing\<close>

text \<open>The exponent of the leading decimal digit of a positive rational.\<close>

definition decimal_exponent :: "rat \<Rightarrow> int" where
  "decimal_exponent x =
     (case quotient_of x of (a, b) \<Rightarrow>
      let k = int (length (show_nat (nat a))) - int (length (show_nat (nat b)))
      in if x \<ge> pow_int 10 k then k else k - 1)"

definition strip_zeros :: "string \<Rightarrow> string" where
  "strip_zeros s = rev (dropWhile (\<lambda>c. c = CHR ''0'') (rev s))"

definition with_point :: "string \<Rightarrow> string" where
  "with_point s = (if s = [] then [] else CHR ''.'' # s)"

text \<open>\<open>%.<p>g\<close>: \<open>p\<close> significant digits, trailing zeros removed; scientific outside \<open>[10^-4, 10^p)\<close>.\<close>

definition show_g :: "nat \<Rightarrow> rat \<Rightarrow> string" where
  "show_g p x =
     (if x = 0 then ''0''
      else
        let e = decimal_exponent \<bar>x\<bar>;
            m = round_half_even (\<bar>x\<bar> * pow_int 10 (int p - 1 - e));
            (m, e) = (if m \<ge> 10 ^ p then (10 ^ (p - 1), e + 1) else (m, e));
            ds = show_nat (nat m);
            body =
              (if e < - 4 \<or> int p \<le> e then
                 take 1 ds @ with_point (strip_zeros (drop 1 ds)) @ ''e'' @
                 (if e < 0 then ''-'' else ''+'') @
                 (if \<bar>e\<bar> < 10 then ''0'' else []) @ show_nat (nat \<bar>e\<bar>)
               else if 0 \<le> e then take (nat e + 1) ds @ with_point (strip_zeros (drop (nat e + 1) ds))
               else ''0.'' @ replicate (nat (- e - 1)) CHR ''0'' @ strip_zeros ds)
        in (if x < 0 then ''-'' else []) @ body)"

fun show_double_g :: "nat \<Rightarrow> double \<Rightarrow> string" where
  "show_double_g p (Fin x) = show_g p x"
| "show_double_g p (Infinite neg) = (if neg then ''-inf'' else ''inf'')"
| "show_double_g p (NotANumber neg) = (if neg then ''-nan'' else ''nan'')"

text \<open>
  Integral values below \<open>10^15\<close> are printed without a point, the rest with \<open>%.<p>g\<close>: the shape both
  \<^verbatim>\<open>JsonValue::asString\<close> and \<^verbatim>\<open>dblToStr\<close> use.
\<close>

definition show_plain :: "nat \<Rightarrow> double \<Rightarrow> string" where
  "show_plain p d =
     (case d of
        Fin x \<Rightarrow>
          (if x < 1000000000000000 \<and> - 1000000000000000 < x \<and> x = of_int (trunc_rat x)
           then show_int (trunc_rat x) else show_g p x)
      | _ \<Rightarrow> show_double_g p d)"

subsection \<open>Integers are exact\<close>

lemma round_half_even_int [simp]: "round_half_even (of_int i) = i"
  by (simp add: round_half_even_def Let_def)

lemma trunc_rat_int [simp]: "trunc_rat (of_int i) = i"
  by (simp add: trunc_rat_def)

lemma scale2_minus: "scale2 (- int n) = 1 / 2 ^ n"
  by (cases "n = 0") (simp_all add: scale2_def)

lemma scale2_neg: "x / scale2 (- int n) = x * 2 ^ n"
  by (simp add: scale2_minus)

lemma dbl_of_nat:
  assumes i: "0 < i" "i < (2 :: nat) ^ 53" shows "dbl (of_int (int i)) = of_int (int i)"
proof -
  define l where "l = floorlog 2 i"
  have l: "2 ^ (l - 1) \<le> i" "i < 2 ^ l" "0 < l" using floorlog2_bounds [OF i(1)] by (simp_all add: l_def)
  have "(2 :: nat) ^ (l - 1) < 2 ^ 53" using l(1) i(2) by simp
  then have l53: "l \<le> 53" using power_less_imp_less_exp [of "2 :: nat" "l - 1" 53] by simp
  have one: "floorlog 2 (Suc 0) = 1" by (simp add: floorlog_def)
  have q: "quotient_of \<bar>of_int (int i)\<bar> = (int i, 1)" by simp
  have sc: "scale2 (int l - 1 - 53) = scale2 (- int (54 - l))" "scale2 (int l - 1 - 53 + 1) = scale2 (- int (53 - l))"
    using l53 by (simp_all add: of_nat_diff)
  have big: "(2 :: rat) ^ 53 \<le> \<bar>of_int (int i)\<bar> / scale2 (int l - 1 - 53)"
  proof -
    have "(2 :: nat) ^ 53 = 2 ^ (l - 1) * 2 ^ (54 - l)" using l(3) l53 by (simp flip: power_add)
    also have "\<dots> \<le> i * 2 ^ (54 - l)" using l(1) by (rule mult_right_mono) simp
    finally have "(of_nat (2 ^ 53) :: rat) \<le> of_nat (i * 2 ^ (54 - l))" by (simp only: of_nat_le_iff)
    then show ?thesis unfolding sc scale2_neg by simp
  qed
  have half: "round_half_even (\<bar>of_int (int i)\<bar> / scale2 (int l - 1 - 53 + 1)) = int i * 2 ^ (53 - l)"
  proof -
    have "\<bar>of_int (int i)\<bar> / scale2 (int l - 1 - 53 + 1) = (of_int (int i * 2 ^ (53 - l)) :: rat)"
      unfolding sc scale2_neg by simp
    then show ?thesis by (simp only: round_half_even_int)
  qed
  have "of_int (int i * 2 ^ (53 - l)) * scale2 (int l - 1 - 53 + 1) = (of_int (int i) :: rat)"
    unfolding sc scale2_minus by simp
  then show ?thesis using i(1) q big half
    by (simp add: dbl_def round_sig_def Let_def one l_def [symmetric])
qed

lemma round_sig_minus: "round_sig p (- x) = - round_sig p x"
  by (cases "x = 0") (auto simp: round_sig_def Let_def split: prod.split)

lemma dbl_of_int: "\<bar>i\<bar> < 2 ^ 53 \<Longrightarrow> dbl (of_int i) = of_int i"
proof (cases "i = 0")
  case False
  assume i: "\<bar>i\<bar> < 2 ^ 53"
  have "dbl (of_int (int (nat \<bar>i\<bar>))) = of_int (int (nat \<bar>i\<bar>))"
    by (rule dbl_of_nat) (use False i nat_less_iff [of "\<bar>i\<bar>" "2 ^ 53"] in \<open>simp_all add: nat_less_iff\<close>)
  then show ?thesis using False round_sig_minus [of 53 "of_int \<bar>i\<bar>"]
    by (cases "i < 0") (simp_all add: dbl_def)
qed (simp add: dbl_def round_sig_def)

lemma scale2_mono: "a \<le> b \<Longrightarrow> scale2 a \<le> scale2 b"
proof -
  assume "a \<le> b"
  then have "scale2 b = 2 ^ nat (b - a) * scale2 a" using scale2_add [of a "nat (b - a)"] by simp
  moreover have "(1 :: rat) \<le> 2 ^ nat (b - a)" by simp
  ultimately show ?thesis using scale2_pos [of a] mult_right_mono [of 1 "2 ^ nat (b - a)" "scale2 a"] by simp
qed

lemma double_of_int: "\<bar>i\<bar> < 2 ^ 53 \<Longrightarrow> double_of (of_int i) = Fin (of_int i)"
proof -
  assume i: "\<bar>i\<bar> < 2 ^ 53"
  have "of_int \<bar>i\<bar> < (of_int (2 ^ 53) :: rat)" using i by (simp only: of_int_less_iff)
  moreover have "scale2 53 = of_int (2 ^ 53)" by (simp add: scale2_def)
  ultimately have "\<bar>of_int i\<bar> < scale2 1024" using scale2_mono [of 53 1024] by simp
  moreover have "i \<noteq> 0 \<Longrightarrow> \<not> \<bar>of_int i\<bar> < scale2 (- 1022)"
  proof -
    assume "i \<noteq> 0"
    then have "(1 :: rat) \<le> of_int \<bar>i\<bar>" by simp
    moreover have "scale2 (- 1022) \<le> scale2 0" by (rule scale2_mono) simp
    ultimately show ?thesis by (simp add: scale2_def)
  qed
  moreover have "round_half_even 0 = 0" using round_half_even_int [of 0] by simp
  moreover have "\<not> scale2 1024 \<le> 0" using scale2_pos [of 1024] by (simp only: not_le)
  ultimately show ?thesis using i by (cases "i = 0") (simp_all add: double_of_def Let_def dbl_of_int)
qed

text \<open>What may follow a number without being read as part of it.\<close>

definition number_ends :: "string \<Rightarrow> bool" where
  "number_ends w \<longleftrightarrow> (case w of [] \<Rightarrow> True
     | c # _ \<Rightarrow> \<not> is_digit c \<and> c \<noteq> CHR ''.'' \<and> lower_char c \<noteq> CHR ''e'' \<and> lower_char c \<noteq> CHR ''x'')"

lemma read_mantissa_nat:
  assumes "number_ends w" shows "read_mantissa dec_value 10 (show_nat n @ w) = Some (of_nat n, w)"
proof -
  have "read_run dec_value 10 (show_nat n @ w) 0 0 = (n, length (show_nat n), w)"
    using read_run_digits [of "show_nat n" w 0 0] show_nat_digits assms read_show_nat [of n]
    by (cases w) (auto simp: number_ends_def read_digits_def)
  then show ?thesis using assms
    by (cases w) (simp_all add: read_mantissa_def number_ends_def)
qed

lemma number_ends_exponent: "number_ends w \<Longrightarrow> read_exponent CHR ''e'' w = 0 \<and> exponent_rest CHR ''e'' w = w"
  by (cases w) (simp_all add: number_ends_def read_exponent_def exponent_rest_def)

subsection \<open>The numbers of JSON\<close>

text \<open>
  The value of a number written in the form of RFC 8259: an optional minus sign, digits \<open>i\<close>, a fraction \<open>f\<close> behind a point and
  an exponent, read in base ten. (Leading zeros, which the RFC forbids, are allowed here.)
\<close>

definition exponent_value :: "string \<Rightarrow> string \<Rightarrow> int" where
  "exponent_value sg e = (if sg = ''-'' then - int (read_digits e) else int (read_digits e))"

definition number_value :: "bool \<Rightarrow> string \<Rightarrow> string \<Rightarrow> int \<Rightarrow> rat" where
  "number_value neg i f e =
     (let v = of_nat (read_digits (i @ f)) / 10 ^ length f * pow_int 10 e in if neg then - v else v)"

inductive number_form :: "double \<Rightarrow> string \<Rightarrow> bool" where
  plain_number: "i \<noteq> [] \<Longrightarrow> \<forall>c\<in>set (i @ f). is_digit c \<Longrightarrow>
    number_form (double_of (number_value neg i f 0)) ((if neg then ''-'' else []) @ i @ with_point f)"
| exponent_number: "i \<noteq> [] \<Longrightarrow> \<forall>c\<in>set (i @ f @ e). is_digit c \<Longrightarrow> e \<noteq> [] \<Longrightarrow> lower_char mark = CHR ''e'' \<Longrightarrow>
    sg = [] \<or> sg = ''+'' \<or> sg = ''-'' \<Longrightarrow>
    number_form (double_of (number_value neg i f (exponent_value sg e)))
      ((if neg then ''-'' else []) @ i @ with_point f @ mark # sg @ e)"

text \<open>What may stand behind the digits: nothing that makes them the start of something else.\<close>

definition digits_end :: "string \<Rightarrow> bool" where
  "digits_end u \<longleftrightarrow> (case u of [] \<Rightarrow> True | c # _ \<Rightarrow> \<not> is_digit c \<and> lower_char c \<noteq> CHR ''x'')"

lemma plain_start:
  assumes d: "is_digit c" and ds: "\<forall>d\<in>set ds. is_digit d" and u: "digits_end u"
  shows "take 8 (map lower_char (c # ds @ u)) \<noteq> ''infinity''" "take 3 (map lower_char (c # ds @ u)) \<noteq> ''inf''"
    "take 3 (map lower_char (c # ds @ u)) \<noteq> ''nan''" "take 2 (map lower_char (c # ds @ u)) \<noteq> ''0x''"
proof -
  have "lower_char c = c" "c \<noteq> CHR ''i''" "c \<noteq> CHR ''n''" using d lower_digit by (auto simp: is_digit_def code_def)
  then show "take 8 (map lower_char (c # ds @ u)) \<noteq> ''infinity''" "take 3 (map lower_char (c # ds @ u)) \<noteq> ''inf''"
    "take 3 (map lower_char (c # ds @ u)) \<noteq> ''nan''"
    by (auto simp: numeral_eq_Suc)
  show "take 2 (map lower_char (c # ds @ u)) \<noteq> ''0x''"
  proof (cases ds)
    case Nil
    then show ?thesis using u by (cases u) (auto simp: digits_end_def numeral_2_eq_2)
  next
    case (Cons d' r)
    then have "is_digit d'" using ds by simp
    then have "lower_char d' \<noteq> CHR ''x''" using lower_digit [of d'] by (auto simp: is_digit_def code_def)
    then show ?thesis using Cons by (simp add: numeral_2_eq_2)
  qed
qed

lemma number_ends_digits: "number_ends w \<Longrightarrow> digits_end w"
  by (cases w) (simp_all add: number_ends_def digits_end_def)

lemma read_mantissa_point:
  assumes i: "i \<noteq> []" "\<forall>c\<in>set (i @ f). is_digit c" and u: "u = [] \<or> \<not> is_digit (hd u) \<and> hd u \<noteq> CHR ''.''"
  shows "read_mantissa dec_value 10 (i @ with_point f @ u) = Some (of_nat (read_digits (i @ f)) / 10 ^ length f, u)"
proof (cases "f = []")
  case True
  have "read_run dec_value 10 (i @ u) 0 0 = (read_digits i, length i, u)"
    using read_run_digits [of i u 0 0] i(2) u by (auto simp: read_digits_def)
  then show ?thesis using True i(1) u by (cases u) (simp_all add: read_mantissa_def with_point_def)
next
  case False
  have pt: "\<not> is_digit CHR ''.''" by (simp add: is_digit_def code_def)
  have "read_run dec_value 10 (i @ CHR ''.'' # f @ u) 0 0 = (read_digits i, length i, CHR ''.'' # f @ u)"
    using read_run_digits [of i "CHR ''.'' # f @ u" 0 0] i(2) pt by (auto simp: read_digits_def)
  moreover have "read_run dec_value 10 (f @ u) (read_digits i) 0 = (read_digits (i @ f), length f, u)"
    using read_run_digits [of f u "read_digits i" 0] i(2) u by (auto simp: read_digits_def)
  ultimately show ?thesis using False i(1) by (simp add: read_mantissa_def with_point_def)
qed

lemma read_exponent_written:
  assumes "lower_char mark = CHR ''e''" "sg = [] \<or> sg = ''+'' \<or> sg = ''-''" "e \<noteq> []" "\<forall>c\<in>set e. is_digit c" "number_ends w"
  shows "read_exponent CHR ''e'' (mark # sg @ e @ w) = exponent_value sg e" "exponent_rest CHR ''e'' (mark # sg @ e @ w) = w"
proof -
  obtain c r where e: "e = c # r" using assms(3) by (cases e) auto
  have c: "c \<noteq> CHR ''-''" "c \<noteq> CHR ''+''" using digit_not_sign [of c] assms(4) by (simp_all add: e)
  have "w = [] \<or> \<not> is_digit (hd w)" using assms(5) by (cases w) (simp_all add: number_ends_def)
  then have "takeWhile is_digit (e @ w) = e" "dropWhile is_digit (e @ w) = w"
    using span_digits [of e is_digit w] assms(4) by simp_all
  then show "read_exponent CHR ''e'' (mark # sg @ e @ w) = exponent_value sg e" "exponent_rest CHR ''e'' (mark # sg @ e @ w) = w"
    using assms(1-3) c by (auto simp: read_exponent_def exponent_rest_def exponent_value_def e)
qed

text \<open>The reader of the C library finds that value and stops behind the number.\<close>

lemma strtod_digits:
  assumes i: "i \<noteq> []" "\<forall>c\<in>set (i @ f). is_digit c" and u: "u = [] \<or> \<not> is_digit (hd u) \<and> hd u \<noteq> CHR ''.'' \<and> lower_char (hd u) \<noteq> CHR ''x''"
    and e: "read_exponent CHR ''e'' u = ex" "exponent_rest CHR ''e'' u = w"
  shows "strtod ((if neg then ''-'' else []) @ i @ with_point f @ u) = Some (double_of (number_value neg i f ex), w)"
proof -
  obtain c ds where c: "i = c # ds" using i(1) by (cases i) auto
  have dg: "is_digit c" "\<forall>d\<in>set ds. is_digit d" using i(2) by (simp_all add: c)
  have "lower_char CHR ''.'' \<noteq> CHR ''x''" "\<not> is_digit CHR ''.''" by (simp_all add: lower_char_def is_digit_def code_def)
  then have de: "digits_end (with_point f @ u)" using u by (cases u) (auto simp: digits_end_def with_point_def)
  note sp = plain_start [OF dg de]
  have m: "read_mantissa dec_value 10 (c # ds @ with_point f @ u) = Some (of_nat (read_digits (i @ f)) / 10 ^ length f, u)"
    using read_mantissa_point [OF i, of u] u by (auto simp: c)
  have core: "strtod_unsigned neg (c # ds @ with_point f @ u) = Some (double_of (number_value neg i f ex), w)" for neg
    unfolding strtod_unsigned_def Let_def if_not_P [OF sp(1)] if_not_P [OF sp(2)] if_not_P [OF sp(3)] if_not_P [OF sp(4)] m
    by (simp only: option.case prod.case e number_value_def Let_def)
  have "\<not> is_space c" "c \<noteq> CHR ''-''" "c \<noteq> CHR ''+''" "\<not> is_space CHR ''-''"
    using digit_not_space [OF dg(1)] digit_not_sign [OF dg(1)] by (simp_all add: is_space_def code_def)
  then show ?thesis using core [of neg] by (cases neg) (simp_all add: strtod_def c)
qed

lemma number_form_strtod: "number_form d t \<Longrightarrow> number_ends w \<Longrightarrow> strtod (t @ w) = Some (d, w)"
proof (induction rule: number_form.cases)
  case (plain_number i f neg)
  have "w = [] \<or> \<not> is_digit (hd w) \<and> hd w \<noteq> CHR ''.'' \<and> lower_char (hd w) \<noteq> CHR ''x''"
    using plain_number(5) by (cases w) (simp_all add: number_ends_def)
  from strtod_digits [OF plain_number(3,4) this, of 0 w neg] number_ends_exponent [OF plain_number(5)]
  show ?case by (simp add: plain_number(1,2))
next
  case (exponent_number i f e mark sg neg)
  have m: "mark \<noteq> CHR ''.''" "\<not> is_digit mark" "lower_char mark \<noteq> CHR ''x''"
    using exponent_number(6) lower_digit [of mark] by (auto simp: lower_char_def is_digit_def code_def)
  have i: "i \<noteq> []" "\<forall>c\<in>set (i @ f). is_digit c" and e: "\<forall>c\<in>set e. is_digit c" using exponent_number(3,4) by auto
  have u: "mark # sg @ e @ w = [] \<or> \<not> is_digit (hd (mark # sg @ e @ w)) \<and> hd (mark # sg @ e @ w) \<noteq> CHR ''.'' \<and>
    lower_char (hd (mark # sg @ e @ w)) \<noteq> CHR ''x''" using m by simp
  from strtod_digits [OF i u read_exponent_written [OF exponent_number(6,7,5) e exponent_number(8)], of neg]
  show ?case unfolding exponent_number(1,2) by (simp only: append_assoc append_Cons)
qed

lemma number_form_start: "number_form d t \<Longrightarrow> \<exists>c r. t = c # r \<and> (is_digit c \<or> c = CHR ''-'')"
proof (induction rule: number_form.cases)
  case (plain_number i f neg)
  then show ?case by (cases i; cases neg) auto
next
  case (exponent_number i f e mark sg neg)
  then show ?case by (cases i; cases neg) auto
qed

lemma number_form_int:
  assumes "\<bar>i\<bar> < 2 ^ 53" shows "number_form (Fin (of_int i)) (show_int i)"
proof -
  let ?n = "show_nat (nat \<bar>i\<bar>)"
  have "number_value (i < 0) ?n [] 0 = of_int i" by (simp add: number_value_def pow_int_def Let_def)
  then show ?thesis
    using plain_number [of ?n "[]" "i < 0"] show_nat_digits [of _ "nat \<bar>i\<bar>"] double_of_int [OF assms]
    by (cases "i < 0") (simp_all add: show_int_def with_point_def)
qed

lemma strtod_show_int:
  assumes "\<bar>i\<bar> < 2 ^ 53" "number_ends w"
  shows "strtod (show_int i @ w) = Some (Fin (of_int i), w)"
  by (rule number_form_strtod [OF number_form_int [OF assms(1)] assms(2)])

lemma show_plain_int: "\<bar>i\<bar> < 1000000000000000 \<Longrightarrow> show_plain p (Fin (of_int i)) = show_int i"
proof -
  assume "\<bar>i\<bar> < 1000000000000000"
  then have "i < 1000000000000000" "- 1000000000000000 < i" by linarith+
  then have "of_int i < (of_int 1000000000000000 :: rat)" "of_int (- 1000000000000000) < (of_int i :: rat)"
    by (simp_all only: of_int_less_iff)
  then show ?thesis by (simp add: show_plain_def)
qed

end
