(* ===== verification/Json.thy ===== *)
theory Json
  imports Number_Text
begin

text \<open>
  \<^verbatim>\<open>src/src/json.cpp\<close>: the JSON reader of the control API and the escaping its replies use. A parser's
  state is the text not yet read; \<^verbatim>\<open>depth\<close> is an argument, since every function restores it. The reader
  calls itself through objects and arrays, so it recurses on fuel; \<open>json_fuel\<close> is shown to be enough.
\<close>

datatype json = JNull | JBool bool | JNumber double | JString string | JArray "json list"
  | JObject "(string \<times> json) list"

subsection \<open>Accessors\<close>

definition isObject :: "json \<Rightarrow> bool" where
  "isObject v = (case v of JObject _ \<Rightarrow> True | _ \<Rightarrow> False)"

definition json_find :: "json \<Rightarrow> string \<Rightarrow> json option" where
  "json_find v key = (case v of JObject kvs \<Rightarrow> map_of kvs key | _ \<Rightarrow> None)"

fun asString :: "json \<Rightarrow> string" where
  "asString (JString s) = s"
| "asString (JBool b) = (if b then ''true'' else ''false'')"
| "asString JNull = []"
| "asString (JNumber d) = show_plain 6 d"
| "asString (JArray _) = []"
| "asString (JObject _) = []"

fun asNumber :: "json \<Rightarrow> double" where
  "asNumber (JNumber d) = d"
| "asNumber (JBool b) = Fin (if b then 1 else 0)"
| "asNumber (JString s) = atof_double s"
| "asNumber _ = Fin 0"

fun asBool :: "json \<Rightarrow> bool" where
  "asBool (JBool b) = b"
| "asBool (JNumber d) = (\<not> double_eq d (Fin 0))"
| "asBool (JString s) = (s = ''true'' \<or> s = ''1'' \<or> s = ''on'' \<or> s = ''yes'')"
| "asBool _ = False"

definition json_str :: "json \<Rightarrow> string \<Rightarrow> string \<Rightarrow> string" where
  "json_str v key fallback = (case json_find v key of Some x \<Rightarrow> asString x | None \<Rightarrow> fallback)"

subsection \<open>The reader\<close>

definition MAX_DEPTH :: nat where
  "MAX_DEPTH = 32"

definition json_blank :: "char \<Rightarrow> bool" where
  "json_blank c \<longleftrightarrow> c = CHR '' '' \<or> c = CHR 0x09 \<or> c = CHR 0x0D \<or> c = CHR 0x0A"

definition skipWs :: "string \<Rightarrow> string" where
  "skipWs s = dropWhile json_blank s"

definition unescape :: "char \<Rightarrow> char" where
  "unescape c =
     (if c = CHR ''b'' then CHR 0x08 else if c = CHR ''f'' then CHR 0x0C else if c = CHR ''n'' then CHR 0x0A
      else if c = CHR ''r'' then CHR 0x0D else if c = CHR ''t'' then CHR 0x09 else c)"

text \<open>The loop of \<^verbatim>\<open>parseString\<close>, after the opening quote.\<close>

fun string_body :: "string \<Rightarrow> (string \<times> string) option" where
  "string_body [] = None"
| "string_body (c # r) =
     (if c = CHR 0x22 then Some ([], r)
      else if c \<noteq> CHR 0x5C then map_option (\<lambda>(out, rest). (c # out, rest)) (string_body r)
      else
        (case r of [] \<Rightarrow> None
         | e # q \<Rightarrow>
            if e = CHR ''u'' then
              map_option (\<lambda>(out, rest). (CHR 0x5C # CHR ''u'' # take 4 q @ out, rest)) (string_body (drop 4 q))
            else map_option (\<lambda>(out, rest). (unescape e # out, rest)) (string_body q)))"

definition parseString :: "string \<Rightarrow> (string \<times> string) option" where
  "parseString s = (case s of c # r \<Rightarrow> if c = CHR 0x22 then string_body r else None | [] \<Rightarrow> None)"

definition parseNumber :: "string \<Rightarrow> (json \<times> string) option" where
  "parseNumber s = map_option (\<lambda>(d, r). (JNumber d, r)) (strtod s)"

text \<open>The remaining cases of \<^verbatim>\<open>parseValue\<close>'s switch.\<close>

definition parseScalar :: "string \<Rightarrow> (json \<times> string) option" where
  "parseScalar s =
     (if take 1 s = [CHR 0x22] then map_option (\<lambda>(t, q). (JString t, q)) (parseString s)
      else if take 1 s = ''t'' then (if take 4 s = ''true'' then Some (JBool True, drop 4 s) else None)
      else if take 1 s = ''f'' then (if take 5 s = ''false'' then Some (JBool False, drop 5 s) else None)
      else if take 1 s = ''n'' then (if take 4 s = ''null'' then Some (JNull, drop 4 s) else None)
      else parseNumber s)"

text \<open>
  \<open>None\<close>: out of fuel; \<open>Some None\<close>: the function returned false. \<open>array_items\<close> and \<open>object_items\<close> are the
  \<^verbatim>\<open>for (;;)\<close> loops of \<^verbatim>\<open>parseArray\<close> and \<^verbatim>\<open>parseObject\<close>; \<open>d\<close> is the depth the items are read at.
\<close>

type_synonym 'a parse_result = "('a \<times> string) option option"

fun parseValue :: "nat \<Rightarrow> nat \<Rightarrow> string \<Rightarrow> json parse_result"
  and array_items :: "nat \<Rightarrow> nat \<Rightarrow> string \<Rightarrow> json list parse_result"
  and object_items :: "nat \<Rightarrow> nat \<Rightarrow> string \<Rightarrow> (string \<times> json) list parse_result"
where
  "parseValue 0 d s = None"
| "parseValue (Suc k) d s =
     (if MAX_DEPTH \<le> d then Some None
      else
        (case skipWs s of [] \<Rightarrow> Some None
         | c # r \<Rightarrow>
            if c = CHR ''{'' then
              (if take 1 (skipWs r) = [CHR 0x7D] then Some (Some (JObject [], drop 1 (skipWs r)))
               else
                  (case object_items k (d + 1) r of None \<Rightarrow> None
                   | Some None \<Rightarrow> Some None
                   | Some (Some (kvs, q)) \<Rightarrow> Some (Some (JObject kvs, q))))
            else if c = CHR ''['' then
              (if take 1 (skipWs r) = [CHR 0x5D] then Some (Some (JArray [], drop 1 (skipWs r)))
               else
                  (case array_items k (d + 1) r of None \<Rightarrow> None
                   | Some None \<Rightarrow> Some None
                   | Some (Some (vs, q)) \<Rightarrow> Some (Some (JArray vs, q))))
            else Some (parseScalar (c # r))))"
| "array_items 0 d s = None"
| "array_items (Suc k) d s =
     (case parseValue k d (skipWs s) of None \<Rightarrow> None
      | Some None \<Rightarrow> Some None
      | Some (Some (v, r)) \<Rightarrow>
         (case skipWs r of [] \<Rightarrow> Some None
          | c # q \<Rightarrow>
             if c = CHR '','' then
               (case array_items k d q of None \<Rightarrow> None
                | Some None \<Rightarrow> Some None
                | Some (Some (vs, q')) \<Rightarrow> Some (Some (v # vs, q')))
             else if c = CHR 0x5D then Some (Some ([v], q))
             else Some None))"
| "object_items 0 d s = None"
| "object_items (Suc k) d s =
     (case parseString (skipWs s) of None \<Rightarrow> Some None
      | Some (key, r) \<Rightarrow>
         (case skipWs r of [] \<Rightarrow> Some None
          | c # q \<Rightarrow>
             if c \<noteq> CHR '':'' then Some None
             else
               (case parseValue k d (skipWs q) of None \<Rightarrow> None
                | Some None \<Rightarrow> Some None
                | Some (Some (v, r)) \<Rightarrow>
                   (case skipWs r of [] \<Rightarrow> Some None
                    | c # q \<Rightarrow>
                       if c = CHR '','' then
                         (case object_items k d q of None \<Rightarrow> None
                          | Some None \<Rightarrow> Some None
                          | Some (Some (kvs, q')) \<Rightarrow> Some (Some ((key, v) # kvs, q')))
                       else if c = CHR 0x7D then Some (Some ([(key, v)], q))
                       else Some None))))"

definition json_fuel :: "string \<Rightarrow> nat" where
  "json_fuel s = 2 * length s + 1"

text \<open>\<open>None\<close>: \<^verbatim>\<open>jsonParse\<close> returned false. What follows the value is not looked at.\<close>

definition jsonParse :: "string \<Rightarrow> json option" where
  "jsonParse s = (case parseValue (json_fuel s) 0 s of Some (Some (v, _)) \<Rightarrow> Some v | _ \<Rightarrow> None)"

subsection \<open>Escaping\<close>

definition hex_char :: "nat \<Rightarrow> char" where
  "hex_char d = (if d < 10 then digit_char d else char_of (87 + d))"

definition escape_char :: "char \<Rightarrow> string" where
  "escape_char c =
     (if c = CHR 0x22 then [CHR 0x5C, CHR 0x22]
      else if c = CHR 0x5C then [CHR 0x5C, CHR 0x5C]
      else if c = CHR 0x08 then [CHR 0x5C, CHR ''b'']
      else if c = CHR 0x0C then [CHR 0x5C, CHR ''f'']
      else if c = CHR 0x0A then [CHR 0x5C, CHR ''n'']
      else if c = CHR 0x0D then [CHR 0x5C, CHR ''r'']
      else if c = CHR 0x09 then [CHR 0x5C, CHR ''t'']
      else if code c < 32 then CHR 0x5C # ''u00'' @ [hex_char (code c div 16), hex_char (code c mod 16)]
      else [c])"

definition jsonEscape :: "string \<Rightarrow> string" where
  "jsonEscape s = concat (map escape_char s)"

definition quoted :: "string \<Rightarrow> string" where
  "quoted s = CHR 0x22 # jsonEscape s @ [CHR 0x22]"

subsection \<open>The reader always returns\<close>

definition shorter :: "string \<Rightarrow> ('a \<times> string) option \<Rightarrow> bool" where
  "shorter s r \<longleftrightarrow> (\<forall>v q. r = Some (v, q) \<longrightarrow> length q < length s)"

lemma shorter_None [simp]: "shorter s None"
  by (simp add: shorter_def)

lemma shorter_Some [simp]: "shorter s (Some (v, q)) \<longleftrightarrow> length q < length s"
  by (simp add: shorter_def)

lemma skipWs_length: "length (skipWs s) \<le> length s"
  by (simp add: skipWs_def length_dropWhile_le)

lemma shorter_map: "shorter s m \<Longrightarrow> length s \<le> length t \<Longrightarrow> shorter t (map_option (\<lambda>(x, q). (f x, q)) m)"
  by (auto simp: shorter_def)

lemma string_body_shorter: "shorter s (string_body s)"
proof (induction s rule: string_body.induct)
  case (2 c r)
  have plain: "shorter (c # r) (map_option (\<lambda>(out, rest). (c # out, rest)) (string_body r))"
    if "c \<noteq> CHR 0x22" "c \<noteq> CHR 0x5C" by (rule shorter_map [OF 2(1) [OF that]]) simp
  show ?case
  proof (cases "c = CHR 0x5C")
    case True
    then have c: "c \<noteq> CHR 0x22" "\<not> c \<noteq> CHR 0x5C" by simp_all
    show ?thesis
    proof (cases r)
      case (Cons e q)
      have other: "shorter (c # r) (map_option (\<lambda>(out, rest). (f out, rest)) (string_body q))" if "e \<noteq> CHR ''u''" for f
        by (rule shorter_map [OF 2(3) [OF c Cons that]]) (simp add: Cons)
      have uni: "shorter (c # r) (map_option (\<lambda>(out, rest). (f out, rest)) (string_body (drop 4 q)))"
        if "e = CHR ''u''" for f
        by (rule shorter_map [OF 2(2) [OF c Cons that]]) (simp add: Cons)
      show ?thesis using c other [of "Cons (unescape e)"] uni [of "\<lambda>out. CHR 0x5C # CHR ''u'' # take 4 q @ out"]
        by (simp add: Cons)
    qed (use c in simp)
  next
    case False
    then show ?thesis using plain by (simp del: map_option_eq_Some)
  qed
qed simp

lemma parseString_shorter: "shorter s (parseString s)"
proof (cases s)
  case (Cons c r)
  then show ?thesis using string_body_shorter [of r] by (simp add: parseString_def) (auto simp: shorter_def)
qed (simp add: parseString_def)

lemma read_run_length: "read_run val b s v n = (w, m, r) \<Longrightarrow> length r + m = length s + n"
  by (induction val b s v n rule: read_run.induct) (auto split: option.splits)

lemma read_mantissa_shorter: "shorter s (read_mantissa val b s)"
proof (cases "read_run val b s 0 0")
  case (fields v n r)
  note l = read_run_length [OF fields]
  show ?thesis
  proof (cases r)
    case Nil
    then show ?thesis using l fields by (auto simp: read_mantissa_def)
  next
    case (Cons c r')
    obtain v' n' q where q: "read_run val b r' v 0 = (v', n', q)" by (cases "read_run val b r' v 0")
    show ?thesis using l Cons q read_run_length [OF q] by (auto simp: read_mantissa_def fields)
  qed
qed

lemma exponent_rest_length: "length (exponent_rest m s) \<le> length s"
proof (cases s)
  case (Cons c r)
  have "length (dropWhile is_digit q) \<le> length q" for q by (rule length_dropWhile_le)
  then show ?thesis using Cons by (auto simp: exponent_rest_def Let_def le_SucI split: list.split)
qed (simp add: exponent_rest_def)

lemma nan_rest_length: "length (nan_rest s) \<le> length s"
proof (cases s)
  case (Cons c r)
  have "length (dropWhile word_char r) \<le> length r" by (rule length_dropWhile_le)
  then show ?thesis using Cons by (auto simp: nan_rest_def split: list.split)
qed (simp add: nan_rest_def)

lemma strtod_unsigned_shorter: "shorter s (strtod_unsigned neg s)"
proof -
  have hex: "read_mantissa hex_value 16 (drop 2 s) = Some (x, r) \<Longrightarrow> length (exponent_rest m r) < length s" for x r m
    using read_mantissa_shorter [of "drop 2 s" hex_value 16] exponent_rest_length [of m r] by (auto simp: shorter_def)
  have dec: "read_mantissa dec_value 10 s = Some (x, r) \<Longrightarrow> length (exponent_rest m r) < length s" for x r m
    using read_mantissa_shorter [of s dec_value 10] exponent_rest_length [of m r] by (auto simp: shorter_def)
  have nan: "length (nan_rest (drop 3 s)) < length s" if "take 3 (map lower_char s) = ''nan''"
    using that nan_rest_length [of "drop 3 s"] by (cases s) auto
  show ?thesis unfolding shorter_def
    using hex dec nan by (cases s) (auto simp: strtod_unsigned_def Let_def split: option.splits if_splits)
qed

lemma parseNumber_shorter: "shorter s (parseNumber s)"
proof -
  have "length q < length s" if "strtod s = Some (d, q)" for d q
  proof (cases "dropWhile is_space s")
    case Nil
    then show ?thesis using that unfolding strtod_def Nil list.case by simp
  next
    case (Cons c r)
    have l: "length (c # r) \<le> length s" using length_dropWhile_le [of is_space s] by (simp only: Cons)
    have "length q < length (c # r)"
      using that Cons strtod_unsigned_shorter [of r True] strtod_unsigned_shorter [of r False]
        strtod_unsigned_shorter [of "c # r" False]
      by (auto simp: strtod_def shorter_def less_SucI split: if_splits)
    then show ?thesis using l by (rule less_le_trans)
  qed
  then show ?thesis by (auto simp: parseNumber_def shorter_def)
qed

lemma parseScalar_shorter: "shorter s (parseScalar s)"
proof -
  have "shorter s (map_option (\<lambda>(t, q). (JString t, q)) (parseString s))"
    using parseString_shorter [of s] by (auto simp: shorter_def)
  moreover have "s \<noteq> []" if "take n s = c # w" for n c w using that by auto
  ultimately show ?thesis using parseNumber_shorter [of s]
    by (cases "s = []") (simp_all add: parseScalar_def)
qed

definition returns_shorter :: "string \<Rightarrow> 'a parse_result \<Rightarrow> bool" where
  "returns_shorter s m \<longleftrightarrow> (\<exists>r. m = Some r \<and> shorter s r)"

lemma returns_shorter_Some [simp]: "returns_shorter s (Some r) = shorter s r"
  by (simp add: returns_shorter_def)

lemma returns_shorter_bind:
  assumes "returns_shorter t m" and "\<And>v q. length q < length t \<Longrightarrow> returns_shorter s (f v q)"
  shows "returns_shorter s (case m of None \<Rightarrow> None | Some None \<Rightarrow> Some None | Some (Some (v, q)) \<Rightarrow> f v q)"
  using assms by (auto simp: returns_shorter_def shorter_def split: option.split)

lemma json_reader_total:
  "2 * length s + 1 \<le> k \<Longrightarrow> returns_shorter s (parseValue k d s)"
  "2 * length s + 2 \<le> k \<Longrightarrow> returns_shorter s (array_items k d s)"
  "2 * length s + 2 \<le> k \<Longrightarrow> returns_shorter s (object_items k d s)"
proof (induction k arbitrary: s d)
  case (Suc k)
  { case 1
    show ?case
    proof (cases "skipWs s")
      case Nil
      then show ?thesis by simp
    next
      case (Cons c r)
      then have len: "length (c # r) \<le> length s" using skipWs_length [of s] by simp
      have scalar: "shorter s (parseScalar (c # r))"
        using parseScalar_shorter [of "c # r"] len by (auto simp: shorter_def)
      have less: "length r < length s" using len by simp
      have empty: "length (skipWs r) - 1 < length s" using skipWs_length [of r] less by linarith
      have obj: "returns_shorter s (case object_items k (d + 1) r of None \<Rightarrow> None | Some None \<Rightarrow> Some None
            | Some (Some (kvs, q)) \<Rightarrow> Some (Some (JObject kvs, q)))"
        by (rule returns_shorter_bind [OF Suc.IH(3)]) (use 1 less in auto)
      have arr: "returns_shorter s (case array_items k (d + 1) r of None \<Rightarrow> None | Some None \<Rightarrow> Some None
            | Some (Some (vs, q)) \<Rightarrow> Some (Some (JArray vs, q)))"
        by (rule returns_shorter_bind [OF Suc.IH(2)]) (use 1 less in auto)
      show ?thesis unfolding parseValue.simps Cons list.case
        using obj arr scalar less empty by (simp split del: option.split)
    qed
  next
    case 2
    have len: "length (skipWs s) \<le> length s" by (rule skipWs_length)
    show ?case unfolding array_items.simps
    proof (rule returns_shorter_bind [OF Suc.IH(1)])
      show "2 * length (skipWs s) + 1 \<le> k" using 2 len by linarith
    next
      fix v :: json and r :: string assume r: "length r < length (skipWs s)"
      show "returns_shorter s (case skipWs r of [] \<Rightarrow> Some None
          | c # q \<Rightarrow> if c = CHR '','' then (case array_items k d q of None \<Rightarrow> None | Some None \<Rightarrow> Some None
                       | Some (Some (vs, q')) \<Rightarrow> Some (Some (v # vs, q')))
                    else if c = CHR 0x5D then Some (Some ([v], q)) else Some None)"
      proof (cases "skipWs r")
        case (Cons c q)
        then have q: "length q < length s" "2 * length q + 2 \<le> k" using skipWs_length [of r] r len 2 by auto
        have "returns_shorter s (case array_items k d q of None \<Rightarrow> None | Some None \<Rightarrow> Some None
                       | Some (Some (vs, q')) \<Rightarrow> Some (Some (v # vs, q')))"
          by (rule returns_shorter_bind [OF Suc.IH(2)]) (use q in auto)
        then show ?thesis using Cons q by simp
      qed simp
    qed
  next
    case 3
    have len: "length (skipWs s) \<le> length s" by (rule skipWs_length)
    show ?case
    proof (cases "parseString (skipWs s)")
      case (Some kr)
      obtain key r where kr: "kr = (key, r)" by (cases kr)
      have r: "length r < length s" using parseString_shorter [of "skipWs s"] Some kr len by (simp add: shorter_def)
      show ?thesis
      proof (cases "skipWs r")
        case (Cons c q)
        then have q: "length (skipWs q) < length s" using skipWs_length [of r] skipWs_length [of q] r by simp
        have "returns_shorter s (case parseValue k d (skipWs q) of None \<Rightarrow> None | Some None \<Rightarrow> Some None
                | Some (Some (v, r)) \<Rightarrow>
                   (case skipWs r of [] \<Rightarrow> Some None
                    | c # q \<Rightarrow>
                       if c = CHR '','' then
                         (case object_items k d q of None \<Rightarrow> None
                          | Some None \<Rightarrow> Some None
                          | Some (Some (kvs, q')) \<Rightarrow> Some (Some ((key, v) # kvs, q')))
                       else if c = CHR 0x7D then Some (Some ([(key, v)], q))
                       else Some None))"
        proof (rule returns_shorter_bind [OF Suc.IH(1)])
          show "2 * length (skipWs q) + 1 \<le> k" using 3 q by linarith
        next
          fix v :: json and r' :: string assume r': "length r' < length (skipWs q)"
          show "returns_shorter s (case skipWs r' of [] \<Rightarrow> Some None
                    | c # q \<Rightarrow>
                       if c = CHR '','' then
                         (case object_items k d q of None \<Rightarrow> None
                          | Some None \<Rightarrow> Some None
                          | Some (Some (kvs, q')) \<Rightarrow> Some (Some ((key, v) # kvs, q')))
                       else if c = CHR 0x7D then Some (Some ([(key, v)], q))
                       else Some None)"
          proof (cases "skipWs r'")
            case (Cons c' q')
            then have q': "length q' < length s" "2 * length q' + 2 \<le> k"
              using skipWs_length [of r'] r' q 3 by auto
            have "returns_shorter s (case object_items k d q' of None \<Rightarrow> None | Some None \<Rightarrow> Some None
                           | Some (Some (kvs, q')) \<Rightarrow> Some (Some ((key, v) # kvs, q')))"
              by (rule returns_shorter_bind [OF Suc.IH(3)]) (use q' in auto)
            then show ?thesis using Cons q' by simp
          qed simp
        qed
        then show ?thesis using Some kr Cons by simp
      qed (simp add: Some kr)
    qed simp
  }
qed auto

lemma json_reader_mono:
  "below (parseValue k d s) (parseValue (k + e) d s)"
  "below (array_items k d s) (array_items (k + e) d s)"
  "below (object_items k d s) (object_items (k + e) d s)"
proof (induction k arbitrary: s d)
  case (Suc k)
  have bind: "below m m' \<Longrightarrow> (\<And>v q. below (f v q) (f' v q)) \<Longrightarrow>
     below (case m of None \<Rightarrow> None | Some None \<Rightarrow> Some None | Some (Some (v, q)) \<Rightarrow> f v q)
       (case m' of None \<Rightarrow> None | Some None \<Rightarrow> Some None | Some (Some (v, q)) \<Rightarrow> f' v q)"
    for m m' :: "'x parse_result" and f f' :: "'x \<Rightarrow> string \<Rightarrow> 'y parse_result"
    by (auto simp: below_def split: option.split)
  have list: "(\<And>c q. below (f c q) (f' c q)) \<Longrightarrow>
     below (case t of [] \<Rightarrow> x | c # q \<Rightarrow> f c q) (case t of [] \<Rightarrow> x | c # q \<Rightarrow> f' c q)"
    for t :: string and x :: "'x parse_result" and f f' by (cases t) simp_all
  { case 1 show ?case unfolding add_Suc parseValue.simps by (intro below_if below_refl list bind Suc.IH)
  next
    case 2 show ?case unfolding add_Suc array_items.simps by (intro below_if below_refl list bind Suc.IH)
  next
    case 3
    show ?case
    proof (cases "parseString (skipWs s)")
      case (Some kr)
      show ?thesis unfolding add_Suc object_items.simps Some option.case
        by (cases kr) (simp only: prod.case, intro below_if below_refl list bind Suc.IH)
    qed simp
  }
qed (simp_all add: below_def)

text \<open>The fuel of \<open>jsonParse\<close> is enough: more of it gives the same answer.\<close>

lemma json_fuel_enough: "json_fuel s \<le> k \<Longrightarrow> parseValue k d s = parseValue (json_fuel s) d s \<and> parseValue k d s \<noteq> None"
proof -
  assume k: "json_fuel s \<le> k"
  have "returns_shorter s (parseValue (json_fuel s) d s)" by (rule json_reader_total) (simp add: json_fuel_def)
  moreover have "below (parseValue (json_fuel s) d s) (parseValue (json_fuel s + (k - json_fuel s)) d s)"
    by (rule json_reader_mono)
  ultimately show ?thesis using k by (auto simp: below_def returns_shorter_def)
qed

subsection \<open>What is written is read back\<close>

text \<open>
  The reader keeps a \<open>\uXXXX\<close> escape as it stands, so a control character without a short escape comes
  back as the six characters of its escape.
\<close>

definition seen_char :: "char \<Rightarrow> string" where
  "seen_char c =
     (if code c < 32 \<and> c \<notin> {CHR 0x08, CHR 0x0C, CHR 0x0A, CHR 0x0D, CHR 0x09} then escape_char c else [c])"

definition seen :: "string \<Rightarrow> string" where
  "seen s = concat (map seen_char s)"

lemma seen_plain: "\<forall>c\<in>set s. 32 \<le> code c \<Longrightarrow> seen s = s"
  by (induction s) (auto simp: seen_def seen_char_def)

lemma seen_Nil [simp]: "seen [] = []"
  by (simp add: seen_def)

lemma string_body_escape:
  "string_body (escape_char c @ w) = map_option (\<lambda>(out, rest). (seen_char c @ out, rest)) (string_body w)"
proof (cases "c \<in> {CHR 0x22, CHR 0x5C, CHR 0x08, CHR 0x0C, CHR 0x0A, CHR 0x0D, CHR 0x09}")
  case True
  then show ?thesis by (auto simp: escape_char_def seen_char_def unescape_def code_def)
next
  case False
  then show ?thesis by (cases "code c < 32") (auto simp: escape_char_def seen_char_def)
qed

lemma string_body_jsonEscape: "string_body (jsonEscape s @ CHR 0x22 # w) = Some (seen s, w)"
  by (induction s) (simp_all add: jsonEscape_def seen_def string_body_escape)

lemma parseString_quoted: "parseString (quoted s @ w) = Some (seen s, w)"
  by (simp add: parseString_def quoted_def string_body_jsonEscape)

text \<open>
  \<open>json_writes v t\<close>: the text \<open>t\<close> is a JSON text for \<open>v\<close>, without blanks and with its strings as the program escapes them. A number is any
  text of RFC 8259 whose value in base ten, rounded to a double, is the number.
\<close>

inductive json_writes :: "json \<Rightarrow> string \<Rightarrow> bool"
  and writes_items :: "json list \<Rightarrow> string \<Rightarrow> bool"
  and writes_members :: "(string \<times> json) list \<Rightarrow> string \<Rightarrow> bool"
where
  w_null: "json_writes JNull ''null''"
| w_true: "json_writes (JBool True) ''true''"
| w_false: "json_writes (JBool False) ''false''"
| w_string: "json_writes (JString (seen s)) (quoted s)"
| w_number: "number_form d t \<Longrightarrow> json_writes (JNumber d) t"
| w_array_empty: "json_writes (JArray []) ''[]''"
| w_array: "writes_items vs t \<Longrightarrow> json_writes (JArray vs) (CHR ''['' # t @ '']'')"
| w_object_empty: "json_writes (JObject []) ''{}''"
| w_object: "writes_members kvs t \<Longrightarrow> json_writes (JObject kvs) (CHR ''{'' # t @ ''}'')"
| w_item: "json_writes v t \<Longrightarrow> writes_items [v] t"
| w_items: "json_writes v t \<Longrightarrow> writes_items vs ts \<Longrightarrow> writes_items (v # vs) (t @ CHR '','' # ts)"
| w_member: "json_writes v t \<Longrightarrow> writes_members [(seen k, v)] (quoted k @ CHR '':'' # t)"
| w_members: "json_writes v t \<Longrightarrow> writes_members kvs ts \<Longrightarrow>
    writes_members ((seen k, v) # kvs) (quoted k @ CHR '':'' # t @ CHR '','' # ts)"

text \<open>How deep a value nests.\<close>

fun json_height :: "json \<Rightarrow> nat" where
  "json_height (JArray vs) = Suc (fold max (map json_height vs) 0)"
| "json_height (JObject kvs) = Suc (fold max (map (\<lambda>(k, v). json_height v) kvs) 0)"
| "json_height _ = 1"

lemma fold_max_le: "fold max xs a \<le> (b :: nat) \<longleftrightarrow> a \<le> b \<and> (\<forall>x\<in>set xs. x \<le> b)"
  by (induction xs arbitrary: a) auto

text \<open>With enough fuel the result is \<open>r\<close>.\<close>

definition reads :: "(nat \<Rightarrow> 'a option) \<Rightarrow> 'a \<Rightarrow> bool" where
  "reads f r \<longleftrightarrow> (\<exists>k0. \<forall>k\<ge>k0. f k = Some r)"

lemma reads_const [simp]: "reads (\<lambda>k. Some r) r'\<longleftrightarrow> r = r'"
  by (auto simp: reads_def)

lemma reads_Suc: "reads (\<lambda>k. f (Suc k)) r \<Longrightarrow> reads f r"
  unfolding reads_def by (metis Suc_le_D Suc_le_mono)

lemma reads_None:
  "reads m None \<Longrightarrow> reads (\<lambda>k. case m k of None \<Rightarrow> None | Some None \<Rightarrow> Some None | Some (Some (v, q)) \<Rightarrow> f k v q) None"
  unfolding reads_def by (elim exE, rule exI) auto

lemma reads_bind:
  assumes "reads m (Some (v, q))" "reads (\<lambda>k. f k v q) r"
  shows "reads (\<lambda>k. case m k of None \<Rightarrow> None | Some None \<Rightarrow> Some None | Some (Some (v, q)) \<Rightarrow> f k v q) r"
proof -
  obtain a b where "\<And>k. a \<le> k \<Longrightarrow> m k = Some (Some (v, q))" "\<And>k. b \<le> k \<Longrightarrow> f k v q = Some r"
    using assms by (auto simp: reads_def)
  then show ?thesis unfolding reads_def by (intro exI [of _ "max a b"]) simp
qed

lemma skipWs_Cons: "\<not> json_blank c \<Longrightarrow> skipWs (c # r) = c # r"
  by (simp add: skipWs_def)

lemma skipWs_punct [simp]:
  "skipWs (CHR ''['' # x) = CHR ''['' # x" "skipWs (CHR ''{'' # x) = CHR ''{'' # x" "skipWs (CHR '']'' # x) = CHR '']'' # x"
  "skipWs (CHR ''}'' # x) = CHR ''}'' # x" "skipWs (CHR '','' # x) = CHR '','' # x" "skipWs (CHR '':'' # x) = CHR '':'' # x"
  "skipWs (CHR 0x22 # x) = CHR 0x22 # x"
  by (simp_all add: skipWs_Cons json_blank_def)

text \<open>The first character of a written value is neither a blank nor the end of anything.\<close>

definition value_start :: "string \<Rightarrow> bool" where
  "value_start t \<longleftrightarrow> (\<exists>c r. t = c # r \<and> \<not> json_blank c \<and> c \<noteq> CHR '']'' \<and> c \<noteq> CHR ''}'')"

lemma value_start_skip: "value_start t \<Longrightarrow> skipWs (t @ w) = t @ w"
  by (auto simp: value_start_def skipWs_Cons)

lemma value_start_append [intro]: "value_start t \<Longrightarrow> value_start (t @ w)"
  by (auto simp: value_start_def)

lemma value_start_quoted: "value_start (quoted s)"
  by (auto simp: value_start_def quoted_def json_blank_def)

lemma writes_start:
  "json_writes v t \<Longrightarrow> value_start t"
  "writes_items vs t \<Longrightarrow> value_start t"
  "writes_members kvs t \<Longrightarrow> value_start t"
proof (induction rule: json_writes_writes_items_writes_members.inducts)
  case (w_number d t)
  then show ?case using number_form_start [of d t] by (auto simp: value_start_def json_blank_def is_digit_def code_def)
qed (auto simp: value_start_def quoted_def json_blank_def)

definition in_depth :: "nat \<Rightarrow> json \<Rightarrow> bool" where
  "in_depth d v \<longleftrightarrow> d + json_height v \<le> MAX_DEPTH"

lemma height_pos: "0 < json_height v"
  by (cases v) simp_all

lemma in_depth_less: "in_depth d v \<Longrightarrow> d < MAX_DEPTH"
  using height_pos [of v] by (simp add: in_depth_def)

lemma in_depth_array: "vs \<noteq> [] \<Longrightarrow> in_depth d (JArray vs) \<longleftrightarrow> (\<forall>v\<in>set vs. in_depth (d + 1) v)"
proof -
  assume ne: "vs \<noteq> []"
  have "json_height (JArray vs) \<le> Suc b \<longleftrightarrow> (\<forall>v\<in>set vs. json_height v \<le> b)" for b by (auto simp: fold_max_le)
  from this [of "MAX_DEPTH - Suc d"] show ?thesis using ne height_pos [of "hd vs"]
    by (cases vs) (auto simp: in_depth_def MAX_DEPTH_def)
qed

lemma in_depth_object: "kvs \<noteq> [] \<Longrightarrow> in_depth d (JObject kvs) \<longleftrightarrow> (\<forall>kv\<in>set kvs. in_depth (d + 1) (snd kv))"
proof -
  assume ne: "kvs \<noteq> []"
  have "fold max (map (\<lambda>(k, v). json_height v) kvs) 0 \<le> b \<longleftrightarrow> (\<forall>kv\<in>set kvs. json_height (snd kv) \<le> b)" for b
    by (auto simp: fold_max_le)
  then have "json_height (JObject kvs) \<le> Suc b \<longleftrightarrow> (\<forall>kv\<in>set kvs. json_height (snd kv) \<le> b)" for b by simp
  from this [of "MAX_DEPTH - Suc d"] show ?thesis using ne height_pos [of "snd (hd kvs)"]
    by (cases kvs) (auto simp: in_depth_def MAX_DEPTH_def)
qed

lemma in_depth_scalar: "json_height v = 1 \<Longrightarrow> in_depth d v \<longleftrightarrow> d < MAX_DEPTH"
  by (auto simp: in_depth_def)

text \<open>A value that is not an object or an array is read in one step.\<close>

lemma reads_scalar:
  assumes s: "skipWs s = c # r" "c \<noteq> CHR ''{''" "c \<noteq> CHR ''[''" and p: "parseScalar (c # r) = Some (v, w)"
    and h: "json_height v = 1"
  shows "reads (\<lambda>k. parseValue k d s) (if in_depth d v then Some (v, w) else None)"
  by (rule reads_Suc) (use s p in_depth_scalar [OF h, of d] in \<open>simp add: not_le\<close>)

lemma reads_array:
  assumes t: "value_start t" and vs: "vs \<noteq> []"
    and items: "\<And>d. reads (\<lambda>k. array_items k d (t @ CHR '']'' # w)) (if \<forall>v\<in>set vs. in_depth d v then Some (vs, w) else None)"
  shows "reads (\<lambda>k. parseValue k d (CHR ''['' # t @ CHR '']'' # w)) (if in_depth d (JArray vs) then Some (JArray vs, w) else None)"
proof (rule reads_Suc)
  obtain c r where st: "t = c # r" "\<not> json_blank c" "c \<noteq> CHR '']''" using t by (auto simp: value_start_def)
  have step: "parseValue (Suc k) d (CHR ''['' # t @ CHR '']'' # w) =
     (if MAX_DEPTH \<le> d then Some None
      else (case array_items k (d + 1) (t @ CHR '']'' # w) of None \<Rightarrow> None | Some None \<Rightarrow> Some None
            | Some (Some (vs, q)) \<Rightarrow> Some (Some (JArray vs, q))))" for k
    by (simp add: st skipWs_Cons)
  show "reads (\<lambda>k. parseValue (Suc k) d (CHR ''['' # t @ CHR '']'' # w)) (if in_depth d (JArray vs) then Some (JArray vs, w) else None)"
  proof (cases "in_depth d (JArray vs)")
    case True
    then have "reads (\<lambda>k. array_items k (d + 1) (t @ CHR '']'' # w)) (Some (vs, w))"
      using items [of "d + 1"] in_depth_array [OF vs, of d] by simp
    then show ?thesis using True in_depth_less [OF True] by (simp only: step) (auto intro: reads_bind)
  next
    case False
    then have "reads (\<lambda>k. array_items k (d + 1) (t @ CHR '']'' # w)) None"
      using items [of "d + 1"] False unfolding in_depth_array [OF vs] by (simp only: if_False)
    then show ?thesis using False by (cases "MAX_DEPTH \<le> d") (simp_all only: step if_True if_False reads_const reads_None)
  qed
qed

lemma reads_object:
  assumes t: "value_start t" and vs: "kvs \<noteq> []"
    and items: "\<And>d. reads (\<lambda>k. object_items k d (t @ CHR ''}'' # w)) (if \<forall>kv\<in>set kvs. in_depth d (snd kv) then Some (kvs, w) else None)"
  shows "reads (\<lambda>k. parseValue k d (CHR ''{'' # t @ CHR ''}'' # w)) (if in_depth d (JObject kvs) then Some (JObject kvs, w) else None)"
proof (rule reads_Suc)
  obtain c r where st: "t = c # r" "\<not> json_blank c" "c \<noteq> CHR ''}''" using t by (auto simp: value_start_def)
  have step: "parseValue (Suc k) d (CHR ''{'' # t @ CHR ''}'' # w) =
     (if MAX_DEPTH \<le> d then Some None
      else (case object_items k (d + 1) (t @ CHR ''}'' # w) of None \<Rightarrow> None | Some None \<Rightarrow> Some None
            | Some (Some (kvs, q)) \<Rightarrow> Some (Some (JObject kvs, q))))" for k
    by (simp add: st skipWs_Cons)
  show "reads (\<lambda>k. parseValue (Suc k) d (CHR ''{'' # t @ CHR ''}'' # w)) (if in_depth d (JObject kvs) then Some (JObject kvs, w) else None)"
  proof (cases "in_depth d (JObject kvs)")
    case True
    then have "reads (\<lambda>k. object_items k (d + 1) (t @ CHR ''}'' # w)) (Some (kvs, w))"
      using items [of "d + 1"] in_depth_object [OF vs, of d] by simp
    then show ?thesis using True in_depth_less [OF True] by (simp only: step) (auto intro: reads_bind)
  next
    case False
    then have "reads (\<lambda>k. object_items k (d + 1) (t @ CHR ''}'' # w)) None"
      using items [of "d + 1"] False unfolding in_depth_object [OF vs] by (simp only: if_False)
    then show ?thesis using False by (cases "MAX_DEPTH \<le> d") (simp_all only: step if_True if_False reads_const reads_None)
  qed
qed

lemma number_scalar: "number_form d t \<Longrightarrow> number_ends w \<Longrightarrow> parseScalar (t @ w) = Some (JNumber d, w)"
  using number_form_strtod [of d t w] number_form_start [of d t] by (auto simp: parseScalar_def parseNumber_def is_digit_def code_def)

lemma number_ends_after [simp]: "number_ends []" "number_ends (CHR '','' # w)" "number_ends (CHR '']'' # w)" "number_ends (CHR ''}'' # w)"
  by (simp_all add: number_ends_def is_digit_def lower_char_def code_def)

text \<open>Only behind a number does it matter what follows.\<close>

definition ends_value :: "json \<Rightarrow> string \<Rightarrow> bool" where
  "ends_value v w \<longleftrightarrow> (\<forall>d. v = JNumber d \<longrightarrow> number_ends w)"

lemma ends_value_after [simp]: "ends_value v []" "ends_value v (CHR '','' # w)" "ends_value v (CHR '']'' # w)" "ends_value v (CHR ''}'' # w)"
  by (simp_all add: ends_value_def)

lemma reads_bind_if:
  assumes m: "reads m (if b then Some (v, q) else None)" and r: "b \<Longrightarrow> reads (\<lambda>k. f k v q) r" "\<not> b \<Longrightarrow> r = None"
  shows "reads (\<lambda>k. case m k of None \<Rightarrow> None | Some None \<Rightarrow> Some None | Some (Some (v, q)) \<Rightarrow> f k v q) r"
proof (cases b)
  case True
  then show ?thesis using m r(1) by (intro reads_bind) simp_all
next
  case False
  then show ?thesis using m r(2) by (simp add: reads_None)
qed

lemma reads_last_item:
  assumes t: "value_start t"
    and v: "reads (\<lambda>k. parseValue k d (t @ CHR '']'' # w)) (if in_depth d v then Some (v, CHR '']'' # w) else None)"
  shows "reads (\<lambda>k. array_items k d (t @ CHR '']'' # w)) (if \<forall>v\<in>set [v]. in_depth d v then Some ([v], w) else None)"
  by (rule reads_Suc, unfold array_items.simps value_start_skip [OF t], rule reads_bind_if [OF v]) simp_all

lemma reads_next_item:
  assumes t: "value_start t"
    and v: "reads (\<lambda>k. parseValue k d (t @ CHR '','' # ts @ CHR '']'' # w))
              (if in_depth d v then Some (v, CHR '','' # ts @ CHR '']'' # w) else None)"
    and vs: "reads (\<lambda>k. array_items k d (ts @ CHR '']'' # w)) (if \<forall>v\<in>set vs. in_depth d v then Some (vs, w) else None)"
  shows "reads (\<lambda>k. array_items k d (t @ CHR '','' # ts @ CHR '']'' # w))
           (if \<forall>v\<in>set (v # vs). in_depth d v then Some (v # vs, w) else None)"
proof (rule reads_Suc, unfold array_items.simps value_start_skip [OF t], rule reads_bind_if [OF v])
  assume v: "in_depth d v"
  have "reads (\<lambda>k. case array_items k d (ts @ CHR '']'' # w) of None \<Rightarrow> None | Some None \<Rightarrow> Some None
       | Some (Some (vs, q')) \<Rightarrow> Some (Some (v # vs, q')))
      (if \<forall>v\<in>set (v # vs). in_depth d v then Some (v # vs, w) else None)"
    by (rule reads_bind_if [OF vs]) (use v in simp_all)
  then show "reads (\<lambda>k. case skipWs (CHR '','' # ts @ CHR '']'' # w) of [] \<Rightarrow> Some None
      | c # q \<Rightarrow>
         if c = CHR '','' then
           (case array_items k d q of None \<Rightarrow> None
            | Some None \<Rightarrow> Some None
            | Some (Some (vs, q')) \<Rightarrow> Some (Some (v # vs, q')))
         else if c = CHR 0x5D then Some (Some ([v], q))
         else Some None) (if \<forall>v\<in>set (v # vs). in_depth d v then Some (v # vs, w) else None)"
    by simp
qed simp

lemma object_items_quoted:
  assumes t: "value_start t"
  shows "object_items (Suc k) d (quoted key @ CHR '':'' # t @ x) =
     (case parseValue k d (t @ x) of None \<Rightarrow> None
      | Some None \<Rightarrow> Some None
      | Some (Some (v, r)) \<Rightarrow>
         (case skipWs r of [] \<Rightarrow> Some None
          | c # q \<Rightarrow>
             if c = CHR '','' then
               (case object_items k d q of None \<Rightarrow> None
                | Some None \<Rightarrow> Some None
                | Some (Some (kvs, q')) \<Rightarrow> Some (Some ((seen key, v) # kvs, q')))
             else if c = CHR 0x7D then Some (Some ([(seen key, v)], q))
             else Some None))"
  by (simp add: value_start_skip [OF value_start_quoted] value_start_skip [OF t] parseString_quoted)

lemma reads_last_member:
  assumes t: "value_start t"
    and v: "reads (\<lambda>k. parseValue k d (t @ CHR ''}'' # w)) (if in_depth d v then Some (v, CHR ''}'' # w) else None)"
  shows "reads (\<lambda>k. object_items k d (quoted key @ CHR '':'' # t @ CHR ''}'' # w))
           (if \<forall>kv\<in>set [(seen key, v)]. in_depth d (snd kv) then Some ([(seen key, v)], w) else None)"
  by (rule reads_Suc, unfold object_items_quoted [OF t], rule reads_bind_if [OF v]) simp_all

lemma reads_next_member:
  assumes t: "value_start t"
    and v: "reads (\<lambda>k. parseValue k d (t @ CHR '','' # ts @ CHR ''}'' # w))
              (if in_depth d v then Some (v, CHR '','' # ts @ CHR ''}'' # w) else None)"
    and kvs: "reads (\<lambda>k. object_items k d (ts @ CHR ''}'' # w))
              (if \<forall>kv\<in>set kvs. in_depth d (snd kv) then Some (kvs, w) else None)"
  shows "reads (\<lambda>k. object_items k d (quoted key @ CHR '':'' # t @ CHR '','' # ts @ CHR ''}'' # w))
           (if \<forall>kv\<in>set ((seen key, v) # kvs). in_depth d (snd kv) then Some ((seen key, v) # kvs, w) else None)"
proof (rule reads_Suc, unfold object_items_quoted [OF t], rule reads_bind_if [OF v])
  assume v: "in_depth d v"
  have "reads (\<lambda>k. case object_items k d (ts @ CHR ''}'' # w) of None \<Rightarrow> None | Some None \<Rightarrow> Some None
       | Some (Some (kvs, q')) \<Rightarrow> Some (Some ((seen key, v) # kvs, q')))
      (if \<forall>kv\<in>set ((seen key, v) # kvs). in_depth d (snd kv) then Some ((seen key, v) # kvs, w) else None)"
    by (rule reads_bind_if [OF kvs]) (use v in simp_all)
  then show "reads (\<lambda>k. case skipWs (CHR '','' # ts @ CHR ''}'' # w) of [] \<Rightarrow> Some None
      | c # q \<Rightarrow>
         if c = CHR '','' then
           (case object_items k d q of None \<Rightarrow> None
            | Some None \<Rightarrow> Some None
            | Some (Some (kvs, q')) \<Rightarrow> Some (Some ((seen key, v) # kvs, q')))
         else if c = CHR 0x7D then Some (Some ([(seen key, v)], q))
         else Some None) (if \<forall>kv\<in>set ((seen key, v) # kvs). in_depth d (snd kv) then Some ((seen key, v) # kvs, w) else None)"
    by simp
qed simp

lemma written_value_reads:
  "json_writes v t \<Longrightarrow> ends_value v w \<Longrightarrow>
     reads (\<lambda>k. parseValue k d (t @ w)) (if in_depth d v then Some (v, w) else None)"
  "writes_items vs t \<Longrightarrow>
     reads (\<lambda>k. array_items k d (t @ CHR '']'' # w)) (if \<forall>v\<in>set vs. in_depth d v then Some (vs, w) else None)"
  "writes_members kvs t \<Longrightarrow>
     reads (\<lambda>k. object_items k d (t @ CHR ''}'' # w)) (if \<forall>kv\<in>set kvs. in_depth d (snd kv) then Some (kvs, w) else None)"
proof (induction arbitrary: d w and d w and d w rule: json_writes_writes_items_writes_members.inducts)
  case w_null
  then show ?case by (intro reads_scalar) (auto simp: skipWs_Cons json_blank_def parseScalar_def)
next
  case w_true
  then show ?case by (intro reads_scalar) (auto simp: skipWs_Cons json_blank_def parseScalar_def)
next
  case w_false
  then show ?case by (intro reads_scalar) (auto simp: skipWs_Cons json_blank_def parseScalar_def)
next
  case (w_string s)
  obtain c r where c: "quoted s @ w = c # r" "c = CHR 0x22" by (simp add: quoted_def)
  show ?case unfolding c(1)
    by (intro reads_scalar)
      (use c parseString_quoted [of s w] in \<open>auto simp: skipWs_Cons json_blank_def parseScalar_def\<close>)
next
  case (w_number dd t)
  then obtain c r where c: "t = c # r" "is_digit c \<or> c = CHR ''-''" using number_form_start by blast
  then have "\<not> json_blank c" "c \<noteq> CHR ''{''" "c \<noteq> CHR ''[''" by (auto simp: json_blank_def is_digit_def code_def)
  moreover have "number_ends w" using w_number(2) by (simp add: ends_value_def)
  ultimately show ?case using number_scalar [OF w_number(1)] c
    by (intro reads_scalar [where c = c and r = "r @ w"]) (simp_all add: skipWs_Cons)
next
  case w_array_empty
  show ?case by (rule reads_Suc) (auto simp: skipWs_Cons json_blank_def in_depth_scalar)
next
  case (w_array vs t)
  have "vs \<noteq> []" using w_array(1) by (auto elim: writes_items.cases)
  then show ?case unfolding append_Cons append_assoc append_Nil
    by (intro reads_array [OF writes_start(2) [OF w_array(1)]] w_array(2))
next
  case w_object_empty
  show ?case by (rule reads_Suc) (auto simp: skipWs_Cons json_blank_def in_depth_scalar)
next
  case (w_object kvs t)
  have "kvs \<noteq> []" using w_object(1) by (auto elim: writes_members.cases)
  then show ?case unfolding append_Cons append_assoc append_Nil
    by (intro reads_object [OF writes_start(3) [OF w_object(1)]] w_object(2))
next
  case (w_item v t)
  show ?case by (rule reads_last_item [OF writes_start(1) [OF w_item(1)] w_item(2)]) simp
next
  case (w_items v t vs ts)
  show ?case unfolding append_Cons append_assoc append_Nil
    by (rule reads_next_item [OF writes_start(1) [OF w_items(1)] w_items(3) w_items(4)]) simp
next
  case (w_member v t k)
  show ?case unfolding append_Cons append_assoc append_Nil
    by (rule reads_last_member [OF writes_start(1) [OF w_member(1)] w_member(2)]) simp
next
  case (w_members v t kvs ts k)
  show ?case unfolding append_Cons append_assoc append_Nil
    by (rule reads_next_member [OF writes_start(1) [OF w_members(1)] w_members(3) w_members(4)]) simp
qed

lemma jsonParse_written:
  assumes t: "json_writes v t" and w: "ends_value v w"
  shows "jsonParse (t @ w) = (if json_height v \<le> MAX_DEPTH then Some v else None)"
proof -
  obtain k0 where k0: "\<And>k. k0 \<le> k \<Longrightarrow> parseValue k 0 (t @ w) = Some (if in_depth 0 v then Some (v, w) else None)"
    using written_value_reads(1) [OF t w, of 0] by (auto simp: reads_def)
  have "parseValue (json_fuel (t @ w)) 0 (t @ w) = Some (if in_depth 0 v then Some (v, w) else None)"
    using k0 [of "max k0 (json_fuel (t @ w))"] json_fuel_enough [of "t @ w" "max k0 (json_fuel (t @ w))" 0] by simp
  then show ?thesis by (simp add: jsonParse_def in_depth_def)
qed

lemma writes_string: "\<forall>c\<in>set s. 32 \<le> code c \<Longrightarrow> json_writes (JString s) (quoted s)"
  using w_string [of s] by (simp add: seen_plain)

text \<open>Nothing nested deeper than \<open>MAX_DEPTH\<close> comes out of the reader.\<close>

lemma parse_bind_SomeE:
  assumes "(case m of None \<Rightarrow> None | Some None \<Rightarrow> Some None | Some (Some (v, q)) \<Rightarrow> f v q) = Some (Some r)"
  obtains v q where "m = Some (Some (v, q))" "f v q = Some (Some r)"
  using assms by (auto split: option.splits)

lemma parse_list_SomeE:
  assumes "(case s of [] \<Rightarrow> Some None | c # q \<Rightarrow> f c q) = Some (Some r)"
  obtains c q where "s = c # q" "f c q = Some (Some r)"
  using assms by (cases s) auto

lemma parseScalar_height: "parseScalar s = Some (v, q) \<Longrightarrow> json_height v = 1"
  by (auto simp: parseScalar_def parseNumber_def split: if_splits)

lemma reader_depth:
  "parseValue k d s = Some (Some (v, q)) \<Longrightarrow> in_depth d v"
  "array_items k d s = Some (Some (vs, q)) \<Longrightarrow> vs \<noteq> [] \<and> (\<forall>v\<in>set vs. in_depth d v)"
  "object_items k d s = Some (Some (kvs, q)) \<Longrightarrow> kvs \<noteq> [] \<and> (\<forall>kv\<in>set kvs. in_depth d (snd kv))"
proof (induction k arbitrary: d s v vs kvs q)
  case (Suc k)
  { case 1
    have d: "\<not> MAX_DEPTH \<le> d" using 1 by (auto split: if_splits)
    then obtain c r where c: "skipWs s = c # r" using 1 by (auto elim: parse_list_SomeE)
    note p = 1 [unfolded parseValue.simps if_not_P [OF d] c list.case]
    consider (obj) "c = CHR ''{''" "take 1 (skipWs r) \<noteq> [CHR ''}'']" | (arr) "c = CHR ''[''" "take 1 (skipWs r) \<noteq> [CHR '']'']"
      | (empty) "v = JObject [] \<or> v = JArray []" | (scalar) "parseScalar (c # r) = Some (v, q)"
      using p by (auto split: if_splits)
    then show ?case
    proof cases
      case obj
      have e: "(case object_items k (d + 1) r of None \<Rightarrow> None | Some None \<Rightarrow> Some None
         | Some (Some (kvs, q)) \<Rightarrow> Some (Some (JObject kvs, q))) = Some (Some (v, q))"
        using p unfolding if_P [OF obj(1)] if_not_P [OF obj(2)] .
      then obtain kvs q' where o: "object_items k (d + 1) r = Some (Some (kvs, q'))" "v = JObject kvs"
        by (elim parse_bind_SomeE) simp
      show ?thesis using Suc.IH(3) [OF o(1)] in_depth_object by (simp add: o(2))
    next
      case arr
      have nb: "c \<noteq> CHR ''{''" using arr(1) by simp
      have e: "(case array_items k (d + 1) r of None \<Rightarrow> None | Some None \<Rightarrow> Some None
         | Some (Some (vs, q)) \<Rightarrow> Some (Some (JArray vs, q))) = Some (Some (v, q))"
        using p unfolding if_not_P [OF nb] if_P [OF arr(1)] if_not_P [OF arr(2)] .
      then obtain vs q' where o: "array_items k (d + 1) r = Some (Some (vs, q'))" "v = JArray vs"
        by (elim parse_bind_SomeE) simp
      show ?thesis using Suc.IH(2) [OF o(1)] in_depth_array by (simp add: o(2))
    next
      case empty
      then show ?thesis using d by (auto simp: in_depth_def)
    next
      case scalar
      then show ?thesis using d parseScalar_height [OF scalar] by (simp add: in_depth_def)
    qed
  next
    case 2
    from 2 [unfolded array_items.simps] obtain v r where v: "parseValue k d (skipWs s) = Some (Some (v, r))"
      "(case skipWs r of [] \<Rightarrow> Some None
          | c # q \<Rightarrow>
             if c = CHR '','' then
               (case array_items k d q of None \<Rightarrow> None
                | Some None \<Rightarrow> Some None
                | Some (Some (vs, q')) \<Rightarrow> Some (Some (v # vs, q')))
             else if c = CHR 0x5D then Some (Some ([v], q))
             else Some None) = Some (Some (vs, q))"
      by (elim parse_bind_SomeE)
    note dv = Suc.IH(1) [OF v(1)]
    from v(2) obtain c q1 where c: "(if c = CHR '','' then
               (case array_items k d q1 of None \<Rightarrow> None
                | Some None \<Rightarrow> Some None
                | Some (Some (vs, q')) \<Rightarrow> Some (Some (v # vs, q')))
             else if c = CHR 0x5D then Some (Some ([v], q1))
             else Some None) = Some (Some (vs, q))"
      by (elim parse_list_SomeE)
    show ?case
    proof (cases "c = CHR '',''")
      case True
      from c [unfolded if_P [OF True]] obtain vs' q' where i: "array_items k d q1 = Some (Some (vs', q'))" "vs = v # vs'"
        by (elim parse_bind_SomeE) simp
      show ?thesis using Suc.IH(2) [OF i(1)] dv i(2) by simp
    next
      case False
      then show ?thesis using c dv by (auto split: if_splits)
    qed
  next
    case 3
    obtain key r where kr: "parseString (skipWs s) = Some (key, r)"
      using 3 by (auto split: option.splits)
    from 3 [unfolded object_items.simps kr option.case prod.case] obtain c q0 where c0: "skipWs r = c # q0" "c = CHR '':''"
      by (elim parse_list_SomeE) (auto split: if_splits)
    from 3 [unfolded object_items.simps kr option.case prod.case c0(1) list.case] c0(2)
    have "(case parseValue k d (skipWs q0) of None \<Rightarrow> None
                | Some None \<Rightarrow> Some None
                | Some (Some (v, r)) \<Rightarrow>
                   (case skipWs r of [] \<Rightarrow> Some None
                    | c # q \<Rightarrow>
                       if c = CHR '','' then
                         (case object_items k d q of None \<Rightarrow> None
                          | Some None \<Rightarrow> Some None
                          | Some (Some (kvs, q')) \<Rightarrow> Some (Some ((key, v) # kvs, q')))
                       else if c = CHR 0x7D then Some (Some ([(key, v)], q))
                       else Some None)) = Some (Some (kvs, q))" by (simp only: refl not_True_eq_False if_False)
    then obtain v r' where v: "parseValue k d (skipWs q0) = Some (Some (v, r'))"
      "(case skipWs r' of [] \<Rightarrow> Some None
                    | c # q \<Rightarrow>
                       if c = CHR '','' then
                         (case object_items k d q of None \<Rightarrow> None
                          | Some None \<Rightarrow> Some None
                          | Some (Some (kvs, q')) \<Rightarrow> Some (Some ((key, v) # kvs, q')))
                       else if c = CHR 0x7D then Some (Some ([(key, v)], q))
                       else Some None) = Some (Some (kvs, q))"
      by (elim parse_bind_SomeE)
    note dv = Suc.IH(1) [OF v(1)]
    from v(2) obtain c q1 where c: "(if c = CHR '','' then
                         (case object_items k d q1 of None \<Rightarrow> None
                          | Some None \<Rightarrow> Some None
                          | Some (Some (kvs, q')) \<Rightarrow> Some (Some ((key, v) # kvs, q')))
                       else if c = CHR 0x7D then Some (Some ([(key, v)], q1))
                       else Some None) = Some (Some (kvs, q))"
      by (elim parse_list_SomeE)
    show ?case
    proof (cases "c = CHR '',''")
      case True
      from c [unfolded if_P [OF True]] obtain kvs' q' where i: "object_items k d q1 = Some (Some (kvs', q'))" "kvs = (key, v) # kvs'"
        by (elim parse_bind_SomeE) simp
      show ?thesis using Suc.IH(3) [OF i(1)] dv i(2) by simp
    next
      case False
      then show ?thesis using c dv by (auto split: if_splits)
    qed
  }
qed simp_all

subsection \<open>Properties\<close>

text \<open>C25: reading a JSON text for a value gives that value back when it nests at most \<open>MAX_DEPTH\<close> deep, and nothing when it
  nests deeper, whatever text follows it; behind a number that text must not continue it (begin with a digit, a point, an e or an x).
  Numbers in all forms of RFC 8259 come back as the double nearest to their decimal value. A string the program
  escapes comes back as it was, except that a control character without a short escape comes back as the six characters of its escape.\<close>

theorem json_roundtrip:
  assumes "json_writes v t" "ends_value v w"
  shows "jsonParse (t @ w) = (if json_height v \<le> MAX_DEPTH then Some v else None) \<and>
    jsonParse (quoted s @ u) = Some (JString (seen s)) \<and>
    ((\<forall>c\<in>set s. 32 \<le> code c \<or> c \<in> {CHR 0x08, CHR 0x0C, CHR 0x0A, CHR 0x0D, CHR 0x09}) \<longrightarrow> seen s = s)"
proof (intro conjI impI)
  show "jsonParse (t @ w) = (if json_height v \<le> MAX_DEPTH then Some v else None)" by (rule jsonParse_written [OF assms])
  have "ends_value (JString (seen s)) u" by (simp add: ends_value_def)
  from jsonParse_written [OF w_string this] show "jsonParse (quoted s @ u) = Some (JString (seen s))" by (simp add: MAX_DEPTH_def)
  show "seen s = s" if "\<forall>c\<in>set s. 32 \<le> code c \<or> c \<in> {CHR 0x08, CHR 0x0C, CHR 0x0A, CHR 0x0D, CHR 0x09}"
    using that by (induction s) (auto simp: seen_def seen_char_def)
qed

theorem json_roundtrip_witness:
  "jsonParse (''{'' @ quoted ''name'' @ '':'' @ quoted ''a b'' @ '','' @ quoted ''n'' @ '':[-5,true,25e-1]} rest'') =
     Some (JObject [(''name'', JString ''a b''), (''n'', JArray [JNumber (Fin (- 5)), JBool True, JNumber (double_of (5 / 2))])])"
proof -
  have n: "json_writes (JNumber (Fin (- 5))) ''-5''"
    using w_number [OF number_form_int [of "- 5"]] by (simp add: show_int_def show_nat.simps digit_char_def char_of_def bit_0)
  have dg: "\<forall>c\<in>set ''251''. is_digit c" by (simp add: is_digit_def code_def)
  have v: "number_value False ''25'' [] (exponent_value ''-'' ''1'') = 5 / 2"
    by (simp add: number_value_def exponent_value_def read_digits_def code_def pow_int_def)
  have "number_form (double_of (number_value False ''25'' [] (exponent_value ''-'' ''1'')))
      ((if False then ''-'' else []) @ ''25'' @ with_point [] @ CHR ''e'' # ''-'' @ ''1'')"
    by (rule exponent_number) (use dg in \<open>simp_all add: lower_char_def code_def\<close>)
  then have "number_form (double_of (5 / 2)) ''25e-1''" unfolding v by (simp add: with_point_def)
  then have f: "json_writes (JNumber (double_of (5 / 2))) ''25e-1''" by (rule w_number)
  have a: "json_writes (JArray [JNumber (Fin (- 5)), JBool True, JNumber (double_of (5 / 2))]) ''[-5,true,25e-1]''"
    using w_array [OF w_items [OF n w_items [OF w_true w_item [OF f]]]] by simp
  have k: "seen ''name'' = ''name''" "seen ''n'' = ''n''" by (simp_all add: seen_plain code_def)
  have b: "json_writes (JString ''a b'') (quoted ''a b'')" by (rule writes_string) (simp add: code_def)
  have j: "json_writes (JObject [(''name'', JString ''a b''), (''n'', JArray [JNumber (Fin (- 5)), JBool True, JNumber (double_of (5 / 2))])])
     (''{'' @ quoted ''name'' @ '':'' @ quoted ''a b'' @ '','' @ quoted ''n'' @ '':[-5,true,25e-1]}'')"
    using w_object [OF w_members [OF b w_member [OF a, of "''n''"], of "''name''"]] by (simp add: k)
  have e: "ends_value (JObject [(''name'', JString ''a b''), (''n'', JArray [JNumber (Fin (- 5)), JBool True, JNumber (double_of (5 / 2))])]) '' rest''"
    by (simp add: ends_value_def)
  show ?thesis using json_roundtrip [OF j e] by (simp add: MAX_DEPTH_def)
qed

text \<open>C26: the reader returns on every text, however it is broken or nested: the fuel \<open>jsonParse\<close> gives it is enough
  (more changes nothing), and no value it returns nests deeper than \<open>MAX_DEPTH\<close>, so neither does
  the C++ recursion.\<close>

theorem json_reader_returns:
  "parseValue (json_fuel s) 0 s \<noteq> None \<and> parseValue (json_fuel s + k) 0 s = parseValue (json_fuel s) 0 s \<and>
   pred_option (\<lambda>v. json_height v \<le> MAX_DEPTH) (jsonParse s)"
  using json_fuel_enough [of s "json_fuel s + k" 0] json_fuel_enough [of s "json_fuel s" 0] reader_depth(1) [of "json_fuel s" 0 s]
  by (fastforce simp: jsonParse_def in_depth_def split: option.splits)

end
