(* ===== verification/Module_Route.thy ===== *)
theory Module_Route
  imports Module_Table Number_Text
begin

text \<open>
  Where a key goes: a module's own keys, with values as its \<^verbatim>\<open>getParams\<close> prints them, pass the setters
  of the modules before it and change its row of the table only. So the pairs a module prints restore
  its row, whatever the table held before.
\<close>

text \<open>The module table as \<^verbatim>\<open>profileSaveCurrent\<close> reads it: short name, enabled flag, \<^verbatim>\<open>getParams\<close>.\<close>

definition module_rows :: "'a mods_scheme \<Rightarrow> (string \<times> bool \<times> (int \<Rightarrow> param_kv list)) list" where
  "module_rows s =
     [(''lag'', enabledFlag (m_lag s), lagGetParams (m_lag s)),
      (''jitter'', enabledFlag (m_jitter s), jitterGetParams (m_jitter s)),
      (''drop'', enabledFlag (m_drop s), dropGetParams (m_drop s)),
      (''burstloss'', enabledFlag (m_burstloss s), burstlossGetParams (m_burstloss s)),
      (''blackout'', enabledFlag (m_blackout s), blackoutGetParams (m_blackout s)),
      (''throttle'', enabledFlag (m_throttle s), throttleGetParams (m_throttle s)),
      (''duplicate'', enabledFlag (m_dup s), dupGetParams (m_dup s)),
      (''ood'', enabledFlag (m_ood s), oodGetParams (m_ood s)),
      (''tamper'', enabledFlag (m_tamper s), tamperGetParams (m_tamper s)),
      (''corrupt'', enabledFlag (m_corrupt s), corruptGetParams (m_corrupt s)),
      (''reset'', enabledFlag (m_reset s), resetGetParams (m_reset s)),
      (''bandwidth'', enabledFlag (m_bandwidth s), bandwidthGetParams (m_bandwidth s))]"

subsection \<open>Values every setter survives\<close>

text \<open>
  \<^verbatim>\<open>burstlossSetParam\<close> converts the value of every key it does not know by then, so a value must survive
  the conversion to a percentage even when it is meant for a module further down the table.
\<close>

definition harmless :: "string \<Rightarrow> bool" where
  "harmless v \<longleftrightarrow> percent_value v \<noteq> None"

lemma harmless_atof:
  assumes a: "atof v = Some d" and d: "0 \<le> d" "d \<le> 10000000" shows "harmless v"
proof -
  have small: "y / 2 ^ 53 \<le> 1" if "0 \<le> y" "y \<le> 2000000000" for y :: rat using that by (simp add: divide_le_eq)
  define x where "x = dbl (d * 100)"
  have "\<bar>x - d * 100\<bar> \<le> (d * 100) / 2 ^ 53" unfolding x_def dbl_def by (rule round_sig_error) (use d in simp_all)
  also have "\<dots> \<le> 1" by (rule small) (use d in simp_all)
  finally have x: "- 1 \<le> x" "x \<le> 1000000001" using d by linarith+
  have x0: "0 \<le> x"
  proof -
    have "\<bar>x - d * 100\<bar> \<le> (d * 100) / 2 ^ 53" unfolding x_def dbl_def by (rule round_sig_error) (use d in simp_all)
    moreover have "(d * 100) / 2 ^ 53 \<le> d * 100" using d by (simp add: divide_le_eq)
    ultimately show ?thesis by linarith
  qed
  define z where "z = dbl (x + 1 / 2)"
  have "\<bar>z - (x + 1 / 2)\<bar> \<le> (x + 1 / 2) / 2 ^ 53" unfolding z_def dbl_def by (rule round_sig_error) (use x0 in simp_all)
  also have "\<dots> \<le> 1" by (rule small) (use x0 x in simp_all)
  finally have z: "- 1 \<le> z" "z \<le> 1000000003" using x0 x by linarith+
  moreover have "0 \<le> \<lfloor>- z\<rfloor>" if "z < 0" using that by simp
  ultimately have "- 1 \<le> trunc_rat z" "trunc_rat z \<le> 1000000003"
    by (cases "z < 0"; simp add: trunc_rat_def floor_le_iff le_floor_iff; linarith?)+
  then have "double_to_int z \<noteq> None" by (simp add: double_to_int_def Let_def)
  then show ?thesis by (simp add: harmless_def percent_value_def a x_def z_def)
qed

lemma atof_words: "atof ''true'' = Some 0" "atof ''false'' = Some 0" "atof ''uniform'' = Some 0" "atof ''normal'' = Some 0"
    "atof ''pareto'' = Some 0"
  by (simp_all add: atof_def Let_def lower_char_def code_def is_space_def read_mantissa_def dec_value_def is_digit_def
      dbl_def round_sig_def)

lemma harmless_bool: "harmless (show_bool b)"
  by (cases b) (auto simp: show_bool_def atof_words intro: harmless_atof)

lemma harmless_dist: "harmless (jitterDistName d)"
  by (auto simp: jitterDistName_def atof_words intro: harmless_atof)

lemma atof_show_int:
  assumes i: "0 \<le> i" "i < 2 ^ 53" shows "atof (show_int i) = Some (of_int i)"
proof -
  obtain c ds where s: "show_nat (nat i) = c # ds" by (cases "show_nat (nat i)") auto
  have dg: "is_digit c" "\<forall>d\<in>set ds. is_digit d"
    using show_nat_digits [of _ "nat i"] by (simp_all add: s)
  have w: "number_ends []" by (simp add: number_ends_def)
  note sp = plain_start [OF dg number_ends_digits [OF w], unfolded append_Nil2]
  have m: "read_mantissa dec_value 10 (c # ds) = Some (of_nat (nat i), [])"
    using read_mantissa_nat [OF w, of "nat i"] by (simp add: s)
  have sg: "\<not> is_space c" "c \<noteq> CHR ''-''" "c \<noteq> CHR ''+''"
    using digit_not_space [OF dg(1)] digit_not_sign [OF dg(1)] by simp_all
  have st: "dropWhile is_space (c # ds) = c # ds"
    "(case c # ds of x # r \<Rightarrow> if x = CHR ''-'' \<or> x = CHR ''+'' then r else c # ds | [] \<Rightarrow> []) = c # ds"
    "(case c # ds of x # _ \<Rightarrow> x = CHR ''-'' | [] \<Rightarrow> False) = False"
    using sg by simp_all
  have "show_int i = c # ds" "of_nat (nat i) = (of_int i :: rat)" using i s by (simp_all add: show_int_def)
  moreover have "atof (c # ds) = Some (dbl (of_nat (nat i)))"
    unfolding atof_def Let_def st if_not_P [OF sp(4)] m
    by (simp only: sp simp_thms if_False option.case prod.case read_exponent_def list.case pow_int_def) simp
  ultimately show ?thesis using dbl_of_int [of i] i by simp
qed

lemma harmless_int: "0 \<le> i \<Longrightarrow> i \<le> 1000000 \<Longrightarrow> harmless (show_int i)"
  by (rule harmless_atof [OF atof_show_int]) (simp_all add: order_trans [of "of_int i" "of_int 1000000 :: rat"])

lemma harmless_percent: "pct_ok c \<Longrightarrow> harmless (show_percent c)" "pct_ok c \<Longrightarrow> harmless (show_percent_d c)"
  using percent_reprint [of c] by (auto simp: harmless_def)

subsection \<open>Keys of other modules are turned away\<close>

text \<open>All keys of a module begin with its short name and a hyphen.\<close>

lemma other_key: "take n k \<noteq> p \<Longrightarrow> take n key = p \<Longrightarrow> (k = key) = False"
  by blast

lemma lag_away:
  assumes a: "take 4 k \<noteq> ''lag-''" shows "set_lag k v s = Some (False, s)"
  by (simp add: set_lag_def lagSetParam_def other_key [OF a])

lemma jitter_away:
  assumes a: "take 7 k \<noteq> ''jitter-''" shows "set_jitter k v s = Some (False, s)"
  by (simp add: set_jitter_def jitterSetParam_def other_key [OF a])

lemma drop_away:
  assumes a: "take 5 k \<noteq> ''drop-''" shows "set_drop k v s = Some (False, s)"
  by (simp add: set_drop_def dropSetParam_def other_key [OF a])

lemma burstloss_away:
  assumes a: "take 10 k \<noteq> ''burstloss-''" and h: "harmless v" shows "set_burstloss k v s = Some (False, s)"
proof -
  obtain c where "percent_value v = Some c" using h by (auto simp: harmless_def)
  then show ?thesis by (simp add: set_burstloss_def burstlossSetParam_def other_key [OF a])
qed

lemma blackout_away:
  assumes a: "take 9 k \<noteq> ''blackout-''" shows "set_blackout k v s = Some (False, s)"
  by (simp add: set_blackout_def blackoutSetParam_def other_key [OF a])

lemma throttle_away:
  assumes a: "take 9 k \<noteq> ''throttle-''" shows "set_throttle k v s = Some (False, s)"
  by (simp add: set_throttle_def throttleSetParam_def other_key [OF a])

lemma dup_away:
  assumes a: "take 10 k \<noteq> ''duplicate-''" shows "set_dup k v s = Some (False, s)"
  by (simp add: set_dup_def dupSetParam_def other_key [OF a])

lemma ood_away:
  assumes a: "take 4 k \<noteq> ''ood-''" shows "set_ood k v s = Some (False, s)"
  by (simp add: set_ood_def oodSetParam_def other_key [OF a])

lemma tamper_away:
  assumes a: "take 7 k \<noteq> ''tamper-''" shows "set_tamper k v s = Some (False, s)"
  by (simp add: set_tamper_def tamperSetParam_def other_key [OF a])

lemma corrupt_away:
  assumes a: "take 8 k \<noteq> ''corrupt-''" shows "set_corrupt k v s = Some (False, s)"
  by (simp add: set_corrupt_def corruptSetParam_def other_key [OF a])

lemma reset_away:
  assumes a: "take 6 k \<noteq> ''reset-''" shows "set_reset k v s = Some (False, s)"
  by (simp add: set_reset_def resetSetParam_def other_key [OF a])

lemmas turned_away = lag_away jitter_away drop_away burstloss_away blackout_away throttle_away dup_away ood_away tamper_away corrupt_away reset_away

subsection \<open>One row of the table\<close>

text \<open>What the control interfaces see of a module: its short name, its enabled flag and its parameters.\<close>

type_synonym setting = "string \<times> bool \<times> param_kv list"

definition settings :: "'a mods_scheme \<Rightarrow> setting list" where
  "settings s = map (\<lambda>(name, enabled, getParams). (name, enabled, getParams 32)) (module_rows s)"

definition setting_pairs :: "setting \<Rightarrow> param_kv list" where
  "setting_pairs r = (case r of (name, enabled, kvs) \<Rightarrow> if enabled then (name, ''true'') # kvs else [])"

definition restores :: "nat \<Rightarrow> setting \<Rightarrow> 'a mods_scheme \<Rightarrow> bool" where
  "restores i r s0 \<longleftrightarrow> (\<exists>s'. apply_all (setting_pairs r) s0 = Some s' \<and>
     settings s' = (if fst (snd r) then (settings s0)[i := r] else settings s0))"

locale routed_slot = table_slot startUp process closeDown held wf ready setParam getParams params_ok get put i
  for startUp :: "'x module_base_scheme \<Rightarrow> env \<Rightarrow> 'x module_base_scheme \<times> env"
    and process closeDown held wf ready setParam getParams params_ok
    and get :: "'a mods_scheme \<Rightarrow> 'x module_base_scheme"
    and put :: "'x module_base_scheme \<Rightarrow> 'a mods_scheme \<Rightarrow> 'a mods_scheme"
    and i :: nat +
  fixes name :: string
  assumes switch: "set_enabled name b s = Some (put ((get s)\<lparr>enabledFlag := b\<rparr>) s)"
    and route: "params_ok m \<Longrightarrow> kv \<in> set (getParams m 32) \<Longrightarrow>
      applyModuleKV (fst kv) (snd kv) s = map_option (\<lambda>(ok, m). (ok, put m s)) (setParam (fst kv) (snd kv) (get s))"
    and get_put: "get (put m s) = m" and put_put: "put m (put m' s) = put m s"
    and settings_put: "settings (put m s) = (settings s)[i := (name, enabledFlag m, getParams m 32)]"
begin

lemma apply_feed:
  assumes "\<And>kv s. kv \<in> set kvs \<Longrightarrow>
      applyModuleKV (fst kv) (snd kv) s = map_option (\<lambda>(ok, m). (ok, put m s)) (setParam (fst kv) (snd kv) (get s))"
    and "feed setParam kvs (get s) = Some m"
  shows "apply_all kvs s = Some (put m s)"
  using assms
proof (induction kvs arbitrary: s)
  case Nil
  then have "m = get s" by simp
  then show ?case by (simp add: put_get)
next
  case (Cons kv r)
  obtain k v where kv: "kv = (k, v)" by (cases kv)
  obtain m1 where m1: "setParam k v (get s) = Some (True, m1)" "feed setParam r m1 = Some m"
    using Cons.prems(2) by (auto simp: kv split: option.splits if_splits)
  have "apply_all r (put m1 s) = Some (put m (put m1 s))"
    by (rule Cons.IH) (use Cons.prems(1) m1(2) in \<open>auto simp: get_put\<close>)
  then show ?case using Cons.prems(1) [of kv s] m1(1) by (simp add: kv put_put)
qed

lemma feed_enabled: "feed setParam kvs m = Some m' \<Longrightarrow> enabledFlag m' = enabledFlag m"
proof (induction kvs arbitrary: m)
  case (Cons kv r)
  obtain k v where kv: "kv = (k, v)" by (cases kv)
  obtain m1 where m1: "setParam k v m = Some (True, m1)" "feed setParam r m1 = Some m'"
    using Cons.prems by (auto simp: kv split: option.splits if_splits)
  then show ?case using Cons.IH [OF m1(2)] setParam [OF m1(1)] by simp
qed simp

lemma restores:
  fixes s0 :: "'a mods_scheme"
  assumes m: "params_ok m" shows "restores i (name, b, getParams m 32) s0"
proof (cases b)
  case True
  let ?s = "put ((get s0)\<lparr>enabledFlag := True\<rparr>) s0"
  obtain m' where m': "feed setParam (getParams m 32) ((get s0)\<lparr>enabledFlag := True\<rparr>) = Some m'"
    "getParams m' 32 = getParams m 32"
    using roundtrip [OF m, of 32] by auto
  have "apply_all (getParams m 32) ?s = Some (put m' ?s)"
    by (rule apply_feed [OF route [OF m]]) (use m'(1) in \<open>simp_all add: get_put\<close>)
  moreover have "parseBoolValue ''true''" using parse_show_bool [of True] by (simp add: show_bool_def)
  moreover have "enabledFlag m'" using feed_enabled [OF m'(1)] by simp
  ultimately show ?thesis using True m'(2)
    by (simp add: restores_def setting_pairs_def applyModuleKV_def switch settings_put put_put)
qed (simp add: restores_def setting_pairs_def)

end

lemmas harmless_values = harmless_bool harmless_dist harmless_int harmless_percent

text \<open>A harmless percentage is accepted.\<close>

lemma harmless_percent_value: "harmless v \<Longrightarrow> \<exists>c. percent_value v = Some c"
  by (auto simp: harmless_def)

lemma lag_reach:
  assumes "harmless v" "set_lag (''lag-'' @ w) v s = Some (True, s')" shows "applyModuleKV (''lag-'' @ w) v s = Some (True, s')"
proof -
  have "set_enabled (''lag-'' @ w) b s = None" for b by (simp add: set_enabled_def)
  then show ?thesis using assms by (simp add: applyModuleKV_def setters_def turned_away)
qed

lemma lag_own:
  assumes m: "lag_params_ok m" and kv: "kv \<in> set (lagGetParams m 32)"
  shows "harmless (snd kv)" "fst kv = ''lag-'' @ drop 4 (fst kv)" "\<exists>m'. lagSetParam (fst kv) (snd kv) m0 = Some (True, m')"
proof -
  show h: "harmless (snd kv)" using m kv by (auto simp: lagGetParams_def params_ok_defs POS_FRONT_def POS_RANDOM_def harmless_values)
  show "fst kv = ''lag-'' @ drop 4 (fst kv)" using kv by (auto simp: lagGetParams_def)
  show "\<exists>m'. lagSetParam (fst kv) (snd kv) m0 = Some (True, m')"
    using kv harmless_percent_value [OF h] by (auto simp: lagGetParams_def lagSetParam_def)
qed

lemma lag_route:
  assumes "lag_params_ok m" "kv \<in> set (lagGetParams m 32)"
  shows "applyModuleKV (fst kv) (snd kv) s = map_option (\<lambda>(ok, m). (ok, s\<lparr>m_lag := m\<rparr>)) (lagSetParam (fst kv) (snd kv) (m_lag s))"
proof -
  note own = lag_own [OF assms]
  obtain m' where m': "lagSetParam (fst kv) (snd kv) (m_lag s) = Some (True, m')" using own(3) by blast
  have "set_lag (''lag-'' @ drop 4 (fst kv)) (snd kv) s = Some (True, s\<lparr>m_lag := m'\<rparr>)"
    unfolding own(2) [symmetric] by (simp add: set_lag_def m')
  from lag_reach [OF own(1) this] show ?thesis unfolding own(2) [symmetric] by (simp add: m')
qed

lemma jitter_reach:
  assumes "harmless v" "set_jitter (''jitter-'' @ w) v s = Some (True, s')" shows "applyModuleKV (''jitter-'' @ w) v s = Some (True, s')"
proof -
  have "set_enabled (''jitter-'' @ w) b s = None" for b by (simp add: set_enabled_def)
  then show ?thesis using assms by (simp add: applyModuleKV_def setters_def turned_away)
qed

lemma jitter_own:
  assumes m: "jitter_params_ok m" and kv: "kv \<in> set (jitterGetParams m 32)"
  shows "harmless (snd kv)" "fst kv = ''jitter-'' @ drop 7 (fst kv)" "\<exists>m'. jitterSetParam (fst kv) (snd kv) m0 = Some (True, m')"
proof -
  show h: "harmless (snd kv)" using m kv by (auto simp: jitterGetParams_def params_ok_defs POS_FRONT_def POS_RANDOM_def harmless_values)
  show "fst kv = ''jitter-'' @ drop 7 (fst kv)" using kv by (auto simp: jitterGetParams_def)
  show "\<exists>m'. jitterSetParam (fst kv) (snd kv) m0 = Some (True, m')"
    using kv harmless_percent_value [OF h] by (auto simp: jitterGetParams_def jitterSetParam_def)
qed

lemma jitter_route:
  assumes "jitter_params_ok m" "kv \<in> set (jitterGetParams m 32)"
  shows "applyModuleKV (fst kv) (snd kv) s = map_option (\<lambda>(ok, m). (ok, s\<lparr>m_jitter := m\<rparr>)) (jitterSetParam (fst kv) (snd kv) (m_jitter s))"
proof -
  note own = jitter_own [OF assms]
  obtain m' where m': "jitterSetParam (fst kv) (snd kv) (m_jitter s) = Some (True, m')" using own(3) by blast
  have "set_jitter (''jitter-'' @ drop 7 (fst kv)) (snd kv) s = Some (True, s\<lparr>m_jitter := m'\<rparr>)"
    unfolding own(2) [symmetric] by (simp add: set_jitter_def m')
  from jitter_reach [OF own(1) this] show ?thesis unfolding own(2) [symmetric] by (simp add: m')
qed

lemma drop_reach:
  assumes "harmless v" "set_drop (''drop-'' @ w) v s = Some (True, s')" shows "applyModuleKV (''drop-'' @ w) v s = Some (True, s')"
proof -
  have "set_enabled (''drop-'' @ w) b s = None" for b by (simp add: set_enabled_def)
  then show ?thesis using assms by (simp add: applyModuleKV_def setters_def turned_away)
qed

lemma drop_own:
  assumes m: "drop_params_ok m" and kv: "kv \<in> set (dropGetParams m 32)"
  shows "harmless (snd kv)" "fst kv = ''drop-'' @ drop 5 (fst kv)" "\<exists>m'. dropSetParam (fst kv) (snd kv) m0 = Some (True, m')"
proof -
  show h: "harmless (snd kv)" using m kv by (auto simp: dropGetParams_def params_ok_defs POS_FRONT_def POS_RANDOM_def harmless_values)
  show "fst kv = ''drop-'' @ drop 5 (fst kv)" using kv by (auto simp: dropGetParams_def)
  show "\<exists>m'. dropSetParam (fst kv) (snd kv) m0 = Some (True, m')"
    using kv harmless_percent_value [OF h] by (auto simp: dropGetParams_def dropSetParam_def)
qed

lemma drop_route:
  assumes "drop_params_ok m" "kv \<in> set (dropGetParams m 32)"
  shows "applyModuleKV (fst kv) (snd kv) s = map_option (\<lambda>(ok, m). (ok, s\<lparr>m_drop := m\<rparr>)) (dropSetParam (fst kv) (snd kv) (m_drop s))"
proof -
  note own = drop_own [OF assms]
  obtain m' where m': "dropSetParam (fst kv) (snd kv) (m_drop s) = Some (True, m')" using own(3) by blast
  have "set_drop (''drop-'' @ drop 5 (fst kv)) (snd kv) s = Some (True, s\<lparr>m_drop := m'\<rparr>)"
    unfolding own(2) [symmetric] by (simp add: set_drop_def m')
  from drop_reach [OF own(1) this] show ?thesis unfolding own(2) [symmetric] by (simp add: m')
qed

lemma burstloss_reach:
  assumes "harmless v" "set_burstloss (''burstloss-'' @ w) v s = Some (True, s')" shows "applyModuleKV (''burstloss-'' @ w) v s = Some (True, s')"
proof -
  have "set_enabled (''burstloss-'' @ w) b s = None" for b by (simp add: set_enabled_def)
  then show ?thesis using assms by (simp add: applyModuleKV_def setters_def turned_away)
qed

lemma burstloss_own:
  assumes m: "burstloss_params_ok m" and kv: "kv \<in> set (burstlossGetParams m 32)"
  shows "harmless (snd kv)" "fst kv = ''burstloss-'' @ drop 10 (fst kv)" "\<exists>m'. burstlossSetParam (fst kv) (snd kv) m0 = Some (True, m')"
proof -
  show h: "harmless (snd kv)" using m kv by (auto simp: burstlossGetParams_def params_ok_defs POS_FRONT_def POS_RANDOM_def harmless_values)
  show "fst kv = ''burstloss-'' @ drop 10 (fst kv)" using kv by (auto simp: burstlossGetParams_def)
  show "\<exists>m'. burstlossSetParam (fst kv) (snd kv) m0 = Some (True, m')"
    using kv harmless_percent_value [OF h] by (auto simp: burstlossGetParams_def burstlossSetParam_def)
qed

lemma burstloss_route:
  assumes "burstloss_params_ok m" "kv \<in> set (burstlossGetParams m 32)"
  shows "applyModuleKV (fst kv) (snd kv) s = map_option (\<lambda>(ok, m). (ok, s\<lparr>m_burstloss := m\<rparr>)) (burstlossSetParam (fst kv) (snd kv) (m_burstloss s))"
proof -
  note own = burstloss_own [OF assms]
  obtain m' where m': "burstlossSetParam (fst kv) (snd kv) (m_burstloss s) = Some (True, m')" using own(3) by blast
  have "set_burstloss (''burstloss-'' @ drop 10 (fst kv)) (snd kv) s = Some (True, s\<lparr>m_burstloss := m'\<rparr>)"
    unfolding own(2) [symmetric] by (simp add: set_burstloss_def m')
  from burstloss_reach [OF own(1) this] show ?thesis unfolding own(2) [symmetric] by (simp add: m')
qed

lemma blackout_reach:
  assumes "harmless v" "set_blackout (''blackout-'' @ w) v s = Some (True, s')" shows "applyModuleKV (''blackout-'' @ w) v s = Some (True, s')"
proof -
  have "set_enabled (''blackout-'' @ w) b s = None" for b by (simp add: set_enabled_def)
  then show ?thesis using assms by (simp add: applyModuleKV_def setters_def turned_away)
qed

lemma blackout_own:
  assumes m: "blackout_params_ok m" and kv: "kv \<in> set (blackoutGetParams m 32)"
  shows "harmless (snd kv)" "fst kv = ''blackout-'' @ drop 9 (fst kv)" "\<exists>m'. blackoutSetParam (fst kv) (snd kv) m0 = Some (True, m')"
proof -
  show h: "harmless (snd kv)" using m kv by (auto simp: blackoutGetParams_def params_ok_defs POS_FRONT_def POS_RANDOM_def harmless_values)
  show "fst kv = ''blackout-'' @ drop 9 (fst kv)" using kv by (auto simp: blackoutGetParams_def)
  show "\<exists>m'. blackoutSetParam (fst kv) (snd kv) m0 = Some (True, m')"
    using kv harmless_percent_value [OF h] by (auto simp: blackoutGetParams_def blackoutSetParam_def)
qed

lemma blackout_route:
  assumes "blackout_params_ok m" "kv \<in> set (blackoutGetParams m 32)"
  shows "applyModuleKV (fst kv) (snd kv) s = map_option (\<lambda>(ok, m). (ok, s\<lparr>m_blackout := m\<rparr>)) (blackoutSetParam (fst kv) (snd kv) (m_blackout s))"
proof -
  note own = blackout_own [OF assms]
  obtain m' where m': "blackoutSetParam (fst kv) (snd kv) (m_blackout s) = Some (True, m')" using own(3) by blast
  have "set_blackout (''blackout-'' @ drop 9 (fst kv)) (snd kv) s = Some (True, s\<lparr>m_blackout := m'\<rparr>)"
    unfolding own(2) [symmetric] by (simp add: set_blackout_def m')
  from blackout_reach [OF own(1) this] show ?thesis unfolding own(2) [symmetric] by (simp add: m')
qed

lemma throttle_reach:
  assumes "harmless v" "set_throttle (''throttle-'' @ w) v s = Some (True, s')" shows "applyModuleKV (''throttle-'' @ w) v s = Some (True, s')"
proof -
  have "set_enabled (''throttle-'' @ w) b s = None" for b by (simp add: set_enabled_def)
  then show ?thesis using assms by (simp add: applyModuleKV_def setters_def turned_away)
qed

lemma throttle_own:
  assumes m: "throttle_params_ok m" and kv: "kv \<in> set (throttleGetParams m 32)"
  shows "harmless (snd kv)" "fst kv = ''throttle-'' @ drop 9 (fst kv)" "\<exists>m'. throttleSetParam (fst kv) (snd kv) m0 = Some (True, m')"
proof -
  show h: "harmless (snd kv)" using m kv by (auto simp: throttleGetParams_def params_ok_defs POS_FRONT_def POS_RANDOM_def harmless_values)
  show "fst kv = ''throttle-'' @ drop 9 (fst kv)" using kv by (auto simp: throttleGetParams_def)
  show "\<exists>m'. throttleSetParam (fst kv) (snd kv) m0 = Some (True, m')"
    using kv harmless_percent_value [OF h] by (auto simp: throttleGetParams_def throttleSetParam_def)
qed

lemma throttle_route:
  assumes "throttle_params_ok m" "kv \<in> set (throttleGetParams m 32)"
  shows "applyModuleKV (fst kv) (snd kv) s = map_option (\<lambda>(ok, m). (ok, s\<lparr>m_throttle := m\<rparr>)) (throttleSetParam (fst kv) (snd kv) (m_throttle s))"
proof -
  note own = throttle_own [OF assms]
  obtain m' where m': "throttleSetParam (fst kv) (snd kv) (m_throttle s) = Some (True, m')" using own(3) by blast
  have "set_throttle (''throttle-'' @ drop 9 (fst kv)) (snd kv) s = Some (True, s\<lparr>m_throttle := m'\<rparr>)"
    unfolding own(2) [symmetric] by (simp add: set_throttle_def m')
  from throttle_reach [OF own(1) this] show ?thesis unfolding own(2) [symmetric] by (simp add: m')
qed

lemma dup_reach:
  assumes "harmless v" "set_dup (''duplicate-'' @ w) v s = Some (True, s')" shows "applyModuleKV (''duplicate-'' @ w) v s = Some (True, s')"
proof -
  have "set_enabled (''duplicate-'' @ w) b s = None" for b by (simp add: set_enabled_def)
  then show ?thesis using assms by (simp add: applyModuleKV_def setters_def turned_away)
qed

lemma dup_own:
  assumes m: "dup_params_ok m" and kv: "kv \<in> set (dupGetParams m 32)"
  shows "harmless (snd kv)" "fst kv = ''duplicate-'' @ drop 10 (fst kv)" "\<exists>m'. dupSetParam (fst kv) (snd kv) m0 = Some (True, m')"
proof -
  show h: "harmless (snd kv)" using m kv by (auto simp: dupGetParams_def params_ok_defs POS_FRONT_def POS_RANDOM_def harmless_values)
  show "fst kv = ''duplicate-'' @ drop 10 (fst kv)" using kv by (auto simp: dupGetParams_def)
  show "\<exists>m'. dupSetParam (fst kv) (snd kv) m0 = Some (True, m')"
    using kv harmless_percent_value [OF h] by (auto simp: dupGetParams_def dupSetParam_def)
qed

lemma dup_route:
  assumes "dup_params_ok m" "kv \<in> set (dupGetParams m 32)"
  shows "applyModuleKV (fst kv) (snd kv) s = map_option (\<lambda>(ok, m). (ok, s\<lparr>m_dup := m\<rparr>)) (dupSetParam (fst kv) (snd kv) (m_dup s))"
proof -
  note own = dup_own [OF assms]
  obtain m' where m': "dupSetParam (fst kv) (snd kv) (m_dup s) = Some (True, m')" using own(3) by blast
  have "set_dup (''duplicate-'' @ drop 10 (fst kv)) (snd kv) s = Some (True, s\<lparr>m_dup := m'\<rparr>)"
    unfolding own(2) [symmetric] by (simp add: set_dup_def m')
  from dup_reach [OF own(1) this] show ?thesis unfolding own(2) [symmetric] by (simp add: m')
qed

lemma ood_reach:
  assumes "harmless v" "set_ood (''ood-'' @ w) v s = Some (True, s')" shows "applyModuleKV (''ood-'' @ w) v s = Some (True, s')"
proof -
  have "set_enabled (''ood-'' @ w) b s = None" for b by (simp add: set_enabled_def)
  then show ?thesis using assms by (simp add: applyModuleKV_def setters_def turned_away)
qed

lemma ood_own:
  assumes m: "ood_params_ok m" and kv: "kv \<in> set (oodGetParams m 32)"
  shows "harmless (snd kv)" "fst kv = ''ood-'' @ drop 4 (fst kv)" "\<exists>m'. oodSetParam (fst kv) (snd kv) m0 = Some (True, m')"
proof -
  show h: "harmless (snd kv)" using m kv by (auto simp: oodGetParams_def params_ok_defs POS_FRONT_def POS_RANDOM_def harmless_values)
  show "fst kv = ''ood-'' @ drop 4 (fst kv)" using kv by (auto simp: oodGetParams_def)
  show "\<exists>m'. oodSetParam (fst kv) (snd kv) m0 = Some (True, m')"
    using kv harmless_percent_value [OF h] by (auto simp: oodGetParams_def oodSetParam_def)
qed

lemma ood_route:
  assumes "ood_params_ok m" "kv \<in> set (oodGetParams m 32)"
  shows "applyModuleKV (fst kv) (snd kv) s = map_option (\<lambda>(ok, m). (ok, s\<lparr>m_ood := m\<rparr>)) (oodSetParam (fst kv) (snd kv) (m_ood s))"
proof -
  note own = ood_own [OF assms]
  obtain m' where m': "oodSetParam (fst kv) (snd kv) (m_ood s) = Some (True, m')" using own(3) by blast
  have "set_ood (''ood-'' @ drop 4 (fst kv)) (snd kv) s = Some (True, s\<lparr>m_ood := m'\<rparr>)"
    unfolding own(2) [symmetric] by (simp add: set_ood_def m')
  from ood_reach [OF own(1) this] show ?thesis unfolding own(2) [symmetric] by (simp add: m')
qed

lemma tamper_reach:
  assumes "harmless v" "set_tamper (''tamper-'' @ w) v s = Some (True, s')" shows "applyModuleKV (''tamper-'' @ w) v s = Some (True, s')"
proof -
  have "set_enabled (''tamper-'' @ w) b s = None" for b by (simp add: set_enabled_def)
  then show ?thesis using assms by (simp add: applyModuleKV_def setters_def turned_away)
qed

lemma tamper_own:
  assumes m: "tamper_params_ok m" and kv: "kv \<in> set (tamperGetParams m 32)"
  shows "harmless (snd kv)" "fst kv = ''tamper-'' @ drop 7 (fst kv)" "\<exists>m'. tamperSetParam (fst kv) (snd kv) m0 = Some (True, m')"
proof -
  show h: "harmless (snd kv)" using m kv by (auto simp: tamperGetParams_def params_ok_defs POS_FRONT_def POS_RANDOM_def harmless_values)
  show "fst kv = ''tamper-'' @ drop 7 (fst kv)" using kv by (auto simp: tamperGetParams_def)
  show "\<exists>m'. tamperSetParam (fst kv) (snd kv) m0 = Some (True, m')"
    using kv harmless_percent_value [OF h] by (auto simp: tamperGetParams_def tamperSetParam_def)
qed

lemma tamper_route:
  assumes "tamper_params_ok m" "kv \<in> set (tamperGetParams m 32)"
  shows "applyModuleKV (fst kv) (snd kv) s = map_option (\<lambda>(ok, m). (ok, s\<lparr>m_tamper := m\<rparr>)) (tamperSetParam (fst kv) (snd kv) (m_tamper s))"
proof -
  note own = tamper_own [OF assms]
  obtain m' where m': "tamperSetParam (fst kv) (snd kv) (m_tamper s) = Some (True, m')" using own(3) by blast
  have "set_tamper (''tamper-'' @ drop 7 (fst kv)) (snd kv) s = Some (True, s\<lparr>m_tamper := m'\<rparr>)"
    unfolding own(2) [symmetric] by (simp add: set_tamper_def m')
  from tamper_reach [OF own(1) this] show ?thesis unfolding own(2) [symmetric] by (simp add: m')
qed

lemma corrupt_reach:
  assumes "harmless v" "set_corrupt (''corrupt-'' @ w) v s = Some (True, s')" shows "applyModuleKV (''corrupt-'' @ w) v s = Some (True, s')"
proof -
  have "set_enabled (''corrupt-'' @ w) b s = None" for b by (simp add: set_enabled_def)
  then show ?thesis using assms by (simp add: applyModuleKV_def setters_def turned_away)
qed

lemma corrupt_own:
  assumes m: "corrupt_params_ok m" and kv: "kv \<in> set (corruptGetParams m 32)"
  shows "harmless (snd kv)" "fst kv = ''corrupt-'' @ drop 8 (fst kv)" "\<exists>m'. corruptSetParam (fst kv) (snd kv) m0 = Some (True, m')"
proof -
  show h: "harmless (snd kv)" using m kv by (auto simp: corruptGetParams_def params_ok_defs POS_FRONT_def POS_RANDOM_def harmless_values)
  show "fst kv = ''corrupt-'' @ drop 8 (fst kv)" using kv by (auto simp: corruptGetParams_def)
  show "\<exists>m'. corruptSetParam (fst kv) (snd kv) m0 = Some (True, m')"
    using kv harmless_percent_value [OF h] by (auto simp: corruptGetParams_def corruptSetParam_def)
qed

lemma corrupt_route:
  assumes "corrupt_params_ok m" "kv \<in> set (corruptGetParams m 32)"
  shows "applyModuleKV (fst kv) (snd kv) s = map_option (\<lambda>(ok, m). (ok, s\<lparr>m_corrupt := m\<rparr>)) (corruptSetParam (fst kv) (snd kv) (m_corrupt s))"
proof -
  note own = corrupt_own [OF assms]
  obtain m' where m': "corruptSetParam (fst kv) (snd kv) (m_corrupt s) = Some (True, m')" using own(3) by blast
  have "set_corrupt (''corrupt-'' @ drop 8 (fst kv)) (snd kv) s = Some (True, s\<lparr>m_corrupt := m'\<rparr>)"
    unfolding own(2) [symmetric] by (simp add: set_corrupt_def m')
  from corrupt_reach [OF own(1) this] show ?thesis unfolding own(2) [symmetric] by (simp add: m')
qed

lemma reset_reach:
  assumes "harmless v" "set_reset (''reset-'' @ w) v s = Some (True, s')" shows "applyModuleKV (''reset-'' @ w) v s = Some (True, s')"
proof -
  have "set_enabled (''reset-'' @ w) b s = None" for b by (simp add: set_enabled_def)
  then show ?thesis using assms by (simp add: applyModuleKV_def setters_def turned_away)
qed

lemma reset_own:
  assumes m: "reset_params_ok m" and kv: "kv \<in> set (resetGetParams m 32)"
  shows "harmless (snd kv)" "fst kv = ''reset-'' @ drop 6 (fst kv)" "\<exists>m'. resetSetParam (fst kv) (snd kv) m0 = Some (True, m')"
proof -
  show h: "harmless (snd kv)" using m kv by (auto simp: resetGetParams_def params_ok_defs POS_FRONT_def POS_RANDOM_def harmless_values)
  show "fst kv = ''reset-'' @ drop 6 (fst kv)" using kv by (auto simp: resetGetParams_def)
  show "\<exists>m'. resetSetParam (fst kv) (snd kv) m0 = Some (True, m')"
    using kv harmless_percent_value [OF h] by (auto simp: resetGetParams_def resetSetParam_def)
qed

lemma reset_route:
  assumes "reset_params_ok m" "kv \<in> set (resetGetParams m 32)"
  shows "applyModuleKV (fst kv) (snd kv) s = map_option (\<lambda>(ok, m). (ok, s\<lparr>m_reset := m\<rparr>)) (resetSetParam (fst kv) (snd kv) (m_reset s))"
proof -
  note own = reset_own [OF assms]
  obtain m' where m': "resetSetParam (fst kv) (snd kv) (m_reset s) = Some (True, m')" using own(3) by blast
  have "set_reset (''reset-'' @ drop 6 (fst kv)) (snd kv) s = Some (True, s\<lparr>m_reset := m'\<rparr>)"
    unfolding own(2) [symmetric] by (simp add: set_reset_def m')
  from reset_reach [OF own(1) this] show ?thesis unfolding own(2) [symmetric] by (simp add: m')
qed

lemma bandwidth_reach:
  assumes "harmless v" "set_bandwidth (''bandwidth-'' @ w) v s = Some (True, s')" shows "applyModuleKV (''bandwidth-'' @ w) v s = Some (True, s')"
proof -
  have "set_enabled (''bandwidth-'' @ w) b s = None" for b by (simp add: set_enabled_def)
  then show ?thesis using assms by (simp add: applyModuleKV_def setters_def turned_away)
qed

lemma bandwidth_own:
  assumes m: "bandwidth_params_ok m" and kv: "kv \<in> set (bandwidthGetParams m 32)"
  shows "harmless (snd kv)" "fst kv = ''bandwidth-'' @ drop 10 (fst kv)" "\<exists>m'. bandwidthSetParam (fst kv) (snd kv) m0 = Some (True, m')"
proof -
  show h: "harmless (snd kv)" using m kv by (auto simp: bandwidthGetParams_def params_ok_defs POS_FRONT_def POS_RANDOM_def harmless_values)
  show "fst kv = ''bandwidth-'' @ drop 10 (fst kv)" using kv by (auto simp: bandwidthGetParams_def)
  show "\<exists>m'. bandwidthSetParam (fst kv) (snd kv) m0 = Some (True, m')"
    using kv harmless_percent_value [OF h] by (auto simp: bandwidthGetParams_def bandwidthSetParam_def)
qed

lemma bandwidth_route:
  assumes "bandwidth_params_ok m" "kv \<in> set (bandwidthGetParams m 32)"
  shows "applyModuleKV (fst kv) (snd kv) s = map_option (\<lambda>(ok, m). (ok, s\<lparr>m_bandwidth := m\<rparr>)) (bandwidthSetParam (fst kv) (snd kv) (m_bandwidth s))"
proof -
  note own = bandwidth_own [OF assms]
  obtain m' where m': "bandwidthSetParam (fst kv) (snd kv) (m_bandwidth s) = Some (True, m')" using own(3) by blast
  have "set_bandwidth (''bandwidth-'' @ drop 10 (fst kv)) (snd kv) s = Some (True, s\<lparr>m_bandwidth := m'\<rparr>)"
    unfolding own(2) [symmetric] by (simp add: set_bandwidth_def m')
  from bandwidth_reach [OF own(1) this] show ?thesis unfolding own(2) [symmetric] by (simp add: m')
qed

interpretation lag_routed: routed_slot lagStartUp lagProcess lagCloseDown buf "buffered_wf KEEP_AT_MOST" bufLinked
    lagSetParam lagGetParams lag_params_ok m_lag "\<lambda>m s. s\<lparr>m_lag := m\<rparr>" 0 "''lag''"
  by unfold_locales (simp_all add: set_enabled_def lag_route settings_def module_rows_def)

interpretation jitter_routed: routed_slot jitterStartUp jitterProcess jitterCloseDown buf jitter_wf bufLinked
    jitterSetParam jitterGetParams jitter_params_ok m_jitter "\<lambda>m s. s\<lparr>m_jitter := m\<rparr>" 1 "''jitter''"
  by unfold_locales (simp_all add: set_enabled_def jitter_route settings_def module_rows_def)

interpretation drop_routed: routed_slot dropStartUp dropProcess dropCloseDown "\<lambda>_. []" "\<lambda>_. True" "\<lambda>_. True"
    dropSetParam dropGetParams drop_params_ok m_drop "\<lambda>m s. s\<lparr>m_drop := m\<rparr>" 2 "''drop''"
  by unfold_locales (simp_all add: set_enabled_def drop_route settings_def module_rows_def)

interpretation burstloss_routed: routed_slot burstlossStartUp burstlossProcess burstlossCloseDown "\<lambda>_. []" "\<lambda>_. True" "\<lambda>_. True"
    burstlossSetParam burstlossGetParams burstloss_params_ok m_burstloss "\<lambda>m s. s\<lparr>m_burstloss := m\<rparr>" 3 "''burstloss''"
  by unfold_locales (simp_all add: set_enabled_def burstloss_route settings_def module_rows_def)

interpretation blackout_routed: routed_slot blackoutStartUp blackoutProcess blackoutCloseDown "\<lambda>_. []" "\<lambda>_. True" "\<lambda>_. True"
    blackoutSetParam blackoutGetParams blackout_params_ok m_blackout "\<lambda>m s. s\<lparr>m_blackout := m\<rparr>" 4 "''blackout''"
  by unfold_locales (simp_all add: set_enabled_def blackout_route settings_def module_rows_def)

interpretation throttle_routed: routed_slot throttleStartUp throttleProcess throttleCloseDown buf "buffered_wf THROTTLE_KEEP_AT_MOST" bufLinked
    throttleSetParam throttleGetParams throttle_params_ok m_throttle "\<lambda>m s. s\<lparr>m_throttle := m\<rparr>" 5 "''throttle''"
  by unfold_locales (simp_all add: set_enabled_def throttle_route settings_def module_rows_def)

interpretation dup_routed: routed_slot dupStartup dupProcess dupCloseDown "\<lambda>_. []" "\<lambda>_. True" "\<lambda>_. True"
    dupSetParam dupGetParams dup_params_ok m_dup "\<lambda>m s. s\<lparr>m_dup := m\<rparr>" 6 "''duplicate''"
  by unfold_locales (simp_all add: set_enabled_def dup_route settings_def module_rows_def)

interpretation ood_routed: routed_slot oodStartUp oodProcess oodCloseDown buf ood_wf bufLinked
    oodSetParam oodGetParams ood_params_ok m_ood "\<lambda>m s. s\<lparr>m_ood := m\<rparr>" 7 "''ood''"
  by unfold_locales (simp_all add: set_enabled_def ood_route settings_def module_rows_def)

interpretation tamper_routed: routed_slot tamperStartup tamperProcess tamperCloseDown "\<lambda>_. []" "\<lambda>_. True" "\<lambda>_. True"
    tamperSetParam tamperGetParams tamper_params_ok m_tamper "\<lambda>m s. s\<lparr>m_tamper := m\<rparr>" 8 "''tamper''"
  by unfold_locales (simp_all add: set_enabled_def tamper_route settings_def module_rows_def)

interpretation corrupt_routed: routed_slot corruptStartUp corruptProcess corruptCloseDown "\<lambda>_. []" "\<lambda>_. True" "\<lambda>_. True"
    corruptSetParam corruptGetParams corrupt_params_ok m_corrupt "\<lambda>m s. s\<lparr>m_corrupt := m\<rparr>" 9 "''corrupt''"
  by unfold_locales (simp_all add: set_enabled_def corrupt_route settings_def module_rows_def)

interpretation reset_routed: routed_slot resetStartup resetProcess resetCloseDown "\<lambda>_. []" "\<lambda>_. True" "\<lambda>_. True"
    resetSetParam resetGetParams reset_params_ok m_reset "\<lambda>m s. s\<lparr>m_reset := m\<rparr>" 10 "''reset''"
  by unfold_locales (simp_all add: set_enabled_def reset_route settings_def module_rows_def)

interpretation bandwidth_routed: routed_slot bandwidthStartUp bandwidthProcess bandwidthCloseDown buf bandwidth_wf bandwidth_ready
    bandwidthSetParam bandwidthGetParams bandwidth_params_ok m_bandwidth "\<lambda>m s. s\<lparr>m_bandwidth := m\<rparr>" 11 "''bandwidth''"
  by unfold_locales (simp_all add: set_enabled_def bandwidth_route settings_def module_rows_def)

subsection \<open>The whole table\<close>

lemma settings_length [simp]: "length (settings s) = 12"
  by (simp add: settings_def module_rows_def)

lemma less_12: "i < 12 \<Longrightarrow> i \<in> {0, 1, 2, 3, 4, 5, 6, 7, 8, 9, 10, 11 :: nat}"
  by (simp add: numeral_eq_Suc less_Suc_eq)

lemma setting_restores:
  assumes i: "i < 12" and p: "mods_params_ok s" shows "restores i (settings s ! i) s0"
proof -
  note ok = lag_slot.params [OF p] jitter_slot.params [OF p] drop_slot.params [OF p] burstloss_slot.params [OF p]
    blackout_slot.params [OF p] throttle_slot.params [OF p] dup_slot.params [OF p] ood_slot.params [OF p]
    tamper_slot.params [OF p] corrupt_slot.params [OF p] reset_slot.params [OF p] bandwidth_slot.params [OF p]
  show ?thesis using less_12 [OF i] unfolding insert_iff empty_iff
    by (elim disjE)
      (simp_all add: settings_def module_rows_def lag_routed.restores jitter_routed.restores drop_routed.restores
        burstloss_routed.restores blackout_routed.restores throttle_routed.restores dup_routed.restores ood_routed.restores
        tamper_routed.restores corrupt_routed.restores reset_routed.restores bandwidth_routed.restores ok del: One_nat_def)
qed

lemma apply_all_append: "apply_all (xs @ ys) s = Option.bind (apply_all xs s) (apply_all ys)"
proof (induction xs arbitrary: s)
  case (Cons kv r)
  then show ?case by (cases kv; cases "applyModuleKV (fst kv) (snd kv) s") auto
qed simp

text \<open>The enabled rows of \<open>s\<close> over the rows of \<open>s0\<close>.\<close>

definition merged :: "setting list \<Rightarrow> setting list \<Rightarrow> setting list" where
  "merged rs rs0 = map2 (\<lambda>r r0. if fst (snd r) then r else r0) rs rs0"

lemma merged_step:
  assumes "i < length rs" "length rs = length rs0"
  shows "(if fst (snd (rs ! i)) then (merged (take i rs) (take i rs0) @ drop i rs0)[i := rs ! i]
      else merged (take i rs) (take i rs0) @ drop i rs0) = merged (take (Suc i) rs) (take (Suc i) rs0) @ drop (Suc i) rs0"
proof -
  have "drop i rs0 = rs0 ! i # drop (Suc i) rs0" using assms by (simp add: Cons_nth_drop_Suc)
  moreover have "take (Suc i) rs = take i rs @ [rs ! i]" "take (Suc i) rs0 = take i rs0 @ [rs0 ! i]"
    using assms by (simp_all add: take_Suc_conv_app_nth)
  ultimately show ?thesis using assms by (simp add: merged_def list_update_append)
qed

lemma restore_rows:
  assumes p: "mods_params_ok s" and n: "n \<le> 12"
  shows "\<exists>s'. apply_all (concat (map setting_pairs (take n (settings s)))) s0 = Some s' \<and>
     settings s' = merged (take n (settings s)) (take n (settings s0)) @ drop n (settings s0)"
  using n
proof (induction n)
  case 0
  then show ?case by (simp add: merged_def)
next
  case (Suc n)
  then obtain s1 where s1: "apply_all (concat (map setting_pairs (take n (settings s)))) s0 = Some s1"
    "settings s1 = merged (take n (settings s)) (take n (settings s0)) @ drop n (settings s0)" by auto
  obtain s2 where s2: "apply_all (setting_pairs (settings s ! n)) s1 = Some s2"
    "settings s2 = (if fst (snd (settings s ! n)) then (settings s1)[n := settings s ! n] else settings s1)"
    using setting_restores [OF _ p, of n s1] Suc.prems by (auto simp: restores_def)
  have "take (Suc n) (settings s) = take n (settings s) @ [settings s ! n]"
    using Suc.prems by (simp add: take_Suc_conv_app_nth)
  then have "apply_all (concat (map setting_pairs (take (Suc n) (settings s)))) s0 = Some s2"
    using s1(1) s2(1) by (simp add: apply_all_append)
  moreover have "settings s2 = merged (take (Suc n) (settings s)) (take (Suc n) (settings s0)) @ drop (Suc n) (settings s0)"
    unfolding s2(2) s1(2) by (rule merged_step) (use Suc.prems in simp_all)
  ultimately show ?case by blast
qed

lemma restore_settings:
  assumes "mods_params_ok s"
  shows "\<exists>s'. apply_all (concat (map setting_pairs (settings s))) s0 = Some s' \<and> settings s' = merged (settings s) (settings s0)"
  using restore_rows [OF assms, of 12 s0] by simp

end
