(* ===== verification/Flat_Text.thy ===== *)
theory Flat_Text
  imports Text
begin

text \<open>
  The scanners that \<^verbatim>\<open>profile.cpp\<close> and \<^verbatim>\<open>scenario.cpp\<close> share: one pair of a flat JSON object, and the
  loop that looks for the brace closing an object. Both files have their own copy of the code, which
  differs only in the buffer sizes. The text is a C string, so it holds no NUL.
\<close>

definition blank :: "char \<Rightarrow> bool" where
  "blank c \<longleftrightarrow> c = CHR '' '' \<or> c = CHR 0x09 \<or> c = CHR 0x0D \<or> c = CHR 0x0A"

text \<open>A file as \<^verbatim>\<open>fread\<close> into a buffer of \<open>n\<close> bytes leaves it: cut at the size and at the first NUL.\<close>

definition read_buffer :: "nat \<Rightarrow> string \<Rightarrow> string" where
  "read_buffer n s = takeWhile (\<lambda>c. c \<noteq> CHR 0x00) (take (n - 1) s)"

text \<open>What one turn of the loop over an object's text comes to.\<close>

datatype scan = Stop | Skip string | Found string string string

definition scan_value :: "nat \<Rightarrow> string \<Rightarrow> string \<Rightarrow> scan" where
  "scan_value val_size key s =
     (case s of [] \<Rightarrow> Stop
      | c # r \<Rightarrow>
         if c = CHR 0x22 then
           Found key (take (val_size - 1) (takeWhile (\<lambda>c. c \<noteq> CHR 0x22) r)) (drop 1 (dropWhile (\<lambda>c. c \<noteq> CHR 0x22) r))
         else
           Found key (take (val_size - 1) (takeWhile (\<lambda>c. c \<noteq> CHR '','' \<and> c \<noteq> CHR ''}'' \<and> \<not> blank c) s))
             (dropWhile (\<lambda>c. c \<noteq> CHR '','' \<and> c \<noteq> CHR ''}'' \<and> \<not> blank c) s))"

definition scan_pair :: "nat \<Rightarrow> nat \<Rightarrow> string \<Rightarrow> scan" where
  "scan_pair key_size val_size s =
     (case dropWhile (\<lambda>c. blank c \<or> c = CHR '','') s of [] \<Rightarrow> Stop
      | c # r \<Rightarrow>
         if c = CHR ''}'' then Stop
         else if c \<noteq> CHR 0x22 then Skip r
         else
           (let key = takeWhile (\<lambda>c. c \<noteq> CHR 0x22) r
            in case dropWhile (\<lambda>c. c \<noteq> CHR 0x22) r of [] \<Rightarrow> Stop
               | _ # q \<Rightarrow>
                  if key = [] \<or> key_size \<le> length key then Skip q
                  else scan_value val_size key (dropWhile (\<lambda>c. blank c \<or> c = CHR '':'') q)))"

fun scan_rest :: "scan \<Rightarrow> nat" where
  "scan_rest Stop = 0"
| "scan_rest (Skip r) = Suc (length r)"
| "scan_rest (Found k v r) = Suc (length r)"

lemma scan_value_rest: "scan_rest (scan_value n key s) \<le> Suc (length s)"
  by (cases s) (auto simp: scan_value_def le_SucI length_dropWhile_le intro: le_trans [OF diff_le_self])

lemma scan_pair_rest: "scan_rest (scan_pair ks vs s) \<le> length s"
proof (cases "dropWhile (\<lambda>c. blank c \<or> c = CHR '','') s")
  case Nil
  show ?thesis unfolding scan_pair_def Nil by simp
next
  case (Cons c r)
  note start = Cons
  have s: "Suc (length r) \<le> length s"
    using length_dropWhile_le [of "\<lambda>c. blank c \<or> c = CHR '',''" s] by (simp add: start)
  show ?thesis
  proof (cases "dropWhile (\<lambda>c. c \<noteq> CHR 0x22) r")
    case Nil
    then show ?thesis unfolding scan_pair_def start list.case Let_def Nil using s by simp
  next
    case (Cons d q)
    have q: "Suc (length q) \<le> length r" using length_dropWhile_le [of "\<lambda>c. c \<noteq> CHR 0x22" r] by (simp add: Cons)
    have "scan_rest (scan_value vs key (dropWhile (\<lambda>c. blank c \<or> c = CHR '':'') q)) \<le> length s" for key
      using scan_value_rest [of vs key "dropWhile (\<lambda>c. blank c \<or> c = CHR '':'') q"]
        length_dropWhile_le [of "\<lambda>c. blank c \<or> c = CHR '':''" q] q s by linarith
    then show ?thesis using Cons q s start by (auto simp: scan_pair_def Let_def)
  qed
qed

text \<open>All pairs of an object. A bound on their number cuts this list short, since a full array ends the loop.\<close>

function flat_pairs :: "nat \<Rightarrow> nat \<Rightarrow> string \<Rightarrow> (string \<times> string) list" where
  "flat_pairs ks vs s =
     (case scan_pair ks vs s of Stop \<Rightarrow> [] | Skip r \<Rightarrow> flat_pairs ks vs r | Found k v r \<Rightarrow> (k, v) # flat_pairs ks vs r)"
  by pat_completeness auto
termination
proof (relation "measure (\<lambda>(ks, vs, s). length s)", goal_cases)
  case (2 ks vs s r)
  then show ?case using scan_pair_rest [of ks vs s] by simp
next
  case (3 ks vs s k v r)
  then show ?case using scan_pair_rest [of ks vs s] by simp
qed simp

declare flat_pairs.simps [simp del]

text \<open>
  From just after an opening brace: the text up to the matching closing brace, and what follows it. When
  the text ends first, its last character is taken for the brace, as the code's \<^verbatim>\<open>p - 1\<close> does.
\<close>

fun to_close :: "nat \<Rightarrow> string \<Rightarrow> string \<times> string" where
  "to_close depth [] = ([], [])"
| "to_close depth (c # r) =
     (if depth = 0 then ([], c # r)
      else case to_close (if c = CHR ''{'' then depth + 1 else if c = CHR ''}'' then depth - 1 else depth) r of
        (body, rest) \<Rightarrow> (c # body, rest))"

definition object_text :: "string \<Rightarrow> string \<times> string" where
  "object_text s = (case to_close 1 s of (body, rest) \<Rightarrow> (butlast body, rest))"

lemma to_close_length: "to_close d s = (b, r) \<Longrightarrow> length r \<le> length s"
  by (induction d s arbitrary: b r rule: to_close.induct) (fastforce split: if_splits prod.splits)+

lemma object_text_length: "object_text s = (b, r) \<Longrightarrow> length r \<le> length s"
  using to_close_length [of 1 s] by (auto simp: object_text_def split: prod.splits)

subsection \<open>Reading back what is written\<close>

definition plain_key :: "nat \<Rightarrow> string \<Rightarrow> bool" where
  "plain_key n k \<longleftrightarrow> k \<noteq> [] \<and> length k < n \<and> CHR 0x22 \<notin> set k"

definition plain_value :: "nat \<Rightarrow> string \<Rightarrow> bool" where
  "plain_value n v \<longleftrightarrow> v \<noteq> [] \<and> length v < n \<and> hd v \<noteq> CHR 0x22 \<and> hd v \<noteq> CHR '':'' \<and>
     (\<forall>c\<in>set v. c \<noteq> CHR '','' \<and> c \<noteq> CHR ''}'' \<and> \<not> blank c)"

lemma takeWhile_stop: "(\<forall>c\<in>set s. P c) \<Longrightarrow> \<not> P d \<Longrightarrow> takeWhile P (s @ d # w) = s \<and> dropWhile P (s @ d # w) = d # w"
  by (induction s) auto

lemma scan_pair_written:
  assumes k: "plain_key ks k" and v: "plain_value vs v" and pre: "\<forall>c\<in>set pre. blank c \<or> c = CHR '',''"
    and post: "post = d # w" "d = CHR '','' \<or> d = CHR ''}'' \<or> blank d"
  shows "scan_pair ks vs (pre @ CHR 0x22 # k @ CHR 0x22 # CHR '':'' # CHR '' '' # v @ post) = Found k v post"
proof -
  obtain c r where vc: "v = c # r" "c \<noteq> CHR 0x22" "c \<noteq> CHR '':''" "\<not> blank c" using v by (cases v) (auto simp: plain_value_def)
  have q: "\<not> (blank CHR 0x22 \<or> CHR 0x22 = CHR '','')" by (simp add: blank_def)
  have "takeWhile (\<lambda>c. c \<noteq> CHR '','' \<and> c \<noteq> CHR ''}'' \<and> \<not> blank c) (v @ d # w) = v \<and>
      dropWhile (\<lambda>c. c \<noteq> CHR '','' \<and> c \<noteq> CHR ''}'' \<and> \<not> blank c) (v @ d # w) = d # w"
    by (rule takeWhile_stop) (use v post(2) in \<open>auto simp: plain_value_def\<close>)
  moreover have "take (vs - 1) v = v" using v by (simp add: plain_value_def) linarith
  ultimately have "scan_value vs k (v @ post) = Found k v post"
    using vc by (simp add: scan_value_def post(1))
  moreover have "dropWhile (\<lambda>c. blank c \<or> c = CHR '':'') (CHR '':'' # CHR '' '' # v @ post) = v @ post"
    using vc by (simp add: blank_def)
  moreover have "takeWhile (\<lambda>c. c \<noteq> CHR 0x22) (k @ CHR 0x22 # x) = k \<and> dropWhile (\<lambda>c. c \<noteq> CHR 0x22) (k @ CHR 0x22 # x) = CHR 0x22 # x" for x
    by (rule takeWhile_stop) (use k in \<open>auto simp: plain_key_def\<close>)
  moreover have "dropWhile (\<lambda>c. blank c \<or> c = CHR '','') (pre @ CHR 0x22 # x) = CHR 0x22 # x" for x
    using takeWhile_stop [of pre "\<lambda>c. blank c \<or> c = CHR '',''" "CHR 0x22" x] pre q by blast
  ultimately show ?thesis using k by (simp add: scan_pair_def plain_key_def not_le)
qed

end
