(* ===== verification/Profile.thy ===== *)
theory Profile
  imports Module_Route Flat_Text
begin

text \<open>
  \<^verbatim>\<open>src/src/profile.cpp\<close>: named presets of module parameters. The array \<^verbatim>\<open>profiles\<close> is a list, the file
  \<^verbatim>\<open>profiles.json\<close> its text (\<open>None\<close> when it does not exist); every operation runs under one lock and is one
  step. That a file can be opened for writing and that memory suffices are arguments.
\<close>

definition MAX_PROFILE_PARAMS :: nat where "MAX_PROFILE_PARAMS = 32"
definition PROFILES_BUF_SIZE :: nat where "PROFILES_BUF_SIZE = 65536"
definition MAX_PROFILES :: nat where "MAX_PROFILES = 32"
definition PROFILE_NAME_SIZE :: nat where "PROFILE_NAME_SIZE = 48"
definition PARAM_KEY_SIZE :: nat where "PARAM_KEY_SIZE = 48"
definition PARAM_VAL_SIZE :: nat where "PARAM_VAL_SIZE = 64"

lemmas profile_sizes = MAX_PROFILE_PARAMS_def PROFILES_BUF_SIZE_def MAX_PROFILES_def PROFILE_NAME_SIZE_def
  PARAM_KEY_SIZE_def PARAM_VAL_SIZE_def

record profile =
  pname :: string
  pparams :: "param_kv list"

record profile_store =
  profiles :: "profile list"
  profiles_file :: "string option"

subsection \<open>Loading\<close>

definition parseInnerObject :: "string \<Rightarrow> param_kv list" where
  "parseInnerObject body = take MAX_PROFILE_PARAMS (flat_pairs PARAM_KEY_SIZE PARAM_VAL_SIZE body)"

text \<open>The loop of \<^verbatim>\<open>profilesLoad\<close>, on the text after the outer brace.\<close>

function load_loop :: "string \<Rightarrow> profile list \<Rightarrow> profile list" where
  "load_loop s ps =
     (if MAX_PROFILES \<le> length ps then ps
      else
        (case dropWhile (\<lambda>c. blank c \<or> c = CHR '','') s of [] \<Rightarrow> ps
         | c # r \<Rightarrow>
            if c = CHR ''}'' then ps
            else if c \<noteq> CHR 0x22 then load_loop r ps
            else
              (case dropWhile (\<lambda>c. c \<noteq> CHR 0x22) r of [] \<Rightarrow> ps
               | _ # q \<Rightarrow>
                  let name = takeWhile (\<lambda>c. c \<noteq> CHR 0x22) r in
                  if name = [] \<or> PROFILE_NAME_SIZE \<le> length name then load_loop q ps
                  else
                    (case dropWhile (\<lambda>c. blank c \<or> c = CHR '':'') q of [] \<Rightarrow> ps
                     | d # t \<Rightarrow>
                        if d \<noteq> CHR ''{'' then load_loop (d # t) ps
                        else
                          (case object_text t of (body, rest) \<Rightarrow>
                             load_loop rest (ps @ [\<lparr>pname = name, pparams = parseInnerObject body\<rparr>]))))))"
  by pat_completeness auto
termination
proof (relation "measure (\<lambda>(s, ps). length s)", goal_cases)
  case 1
  then show ?case by simp
next
  case (2 s ps c r)
  then show ?case using length_dropWhile_le [of "\<lambda>c. blank c \<or> c = CHR '',''" s] by simp
next
  case (3 s ps c r a q name)
  then show ?case using length_dropWhile_le [of "\<lambda>c. blank c \<or> c = CHR '',''" s] length_dropWhile_le [of "\<lambda>c. c \<noteq> CHR 0x22" r] by simp
next
  case (4 s ps c r a q name d t)
  then show ?case using length_dropWhile_le [of "\<lambda>c. blank c \<or> c = CHR '',''" s] length_dropWhile_le [of "\<lambda>c. c \<noteq> CHR 0x22" r]
      length_dropWhile_le [of "\<lambda>c. blank c \<or> c = CHR '':''" q] by simp
next
  case (5 s ps c r a q name d t body rest)
  then show ?case using length_dropWhile_le [of "\<lambda>c. blank c \<or> c = CHR '',''" s] length_dropWhile_le [of "\<lambda>c. c \<noteq> CHR 0x22" r]
      length_dropWhile_le [of "\<lambda>c. blank c \<or> c = CHR '':''" q] object_text_length [of t body rest] by simp
qed

declare load_loop.simps [simp del]

definition profilesLoad :: "bool \<Rightarrow> profile_store \<Rightarrow> profile_store" where
  "profilesLoad mem st =
     (case profiles_file st of None \<Rightarrow> st\<lparr>profiles := []\<rparr>
      | Some t \<Rightarrow>
         if \<not> mem then st
         else
           (case dropWhile (\<lambda>c. c \<noteq> CHR ''{'') (read_buffer PROFILES_BUF_SIZE t) of [] \<Rightarrow> st
            | _ # r \<Rightarrow> st\<lparr>profiles := load_loop r []\<rparr>))"

subsection \<open>Writing\<close>

fun param_lines :: "param_kv list \<Rightarrow> string" where
  "param_lines [] = []"
| "param_lines ((k, v) # r) =
     ''    '' @ [CHR 0x22] @ k @ [CHR 0x22] @ '': '' @ v @ (if r = [] then [] else '','') @ [CHR 0x0A] @ param_lines r"

fun profile_lines :: "profile list \<Rightarrow> string" where
  "profile_lines [] = []"
| "profile_lines (p # r) =
     ''  '' @ [CHR 0x22] @ pname p @ [CHR 0x22] @ '': {'' @ [CHR 0x0A] @ param_lines (pparams p) @ ''  }'' @
     (if r = [] then [] else '','') @ [CHR 0x0A] @ profile_lines r"

definition profiles_text :: "profile list \<Rightarrow> string" where
  "profiles_text ps = ''{'' @ [CHR 0x0A] @ profile_lines ps @ ''}'' @ [CHR 0x0A]"

definition profilesWriteAll :: "bool \<Rightarrow> profile_store \<Rightarrow> profile_store" where
  "profilesWriteAll can_write st =
     (if can_write then st\<lparr>profiles_file := Some (profiles_text (profiles st))\<rparr> else st)"

subsection \<open>Saving, applying, deleting\<close>

definition find_profile :: "string \<Rightarrow> profile list \<Rightarrow> profile option" where
  "find_profile name ps = find (\<lambda>p. pname p = name) ps"

fun collect_params :: "(string \<times> bool \<times> (int \<Rightarrow> param_kv list)) list \<Rightarrow> param_kv list \<Rightarrow> param_kv list" where
  "collect_params [] acc = acc"
| "collect_params ((name, enabled, getParams) # r) acc =
     (if enabled then
        (if MAX_PROFILE_PARAMS \<le> length acc then acc
         else
           (let acc = acc @ [(take (PARAM_KEY_SIZE - 1) name, ''true'')]
            in collect_params r (acc @ getParams (int (MAX_PROFILE_PARAMS - length acc)))))
      else collect_params r acc)"

fun replace_profile :: "string \<Rightarrow> profile \<Rightarrow> profile list \<Rightarrow> profile list" where
  "replace_profile name p [] = []"
| "replace_profile name p (q # r) = (if pname q = name then p # r else q # replace_profile name p r)"

definition profileSaveCurrent :: "bool \<Rightarrow> string \<Rightarrow> 'a mods_scheme \<Rightarrow> profile_store \<Rightarrow> bool \<times> profile_store" where
  "profileSaveCurrent can_write name s st =
     (let p = \<lparr>pname = take (PROFILE_NAME_SIZE - 1) name, pparams = collect_params (module_rows s) []\<rparr>
      in case find_profile name (profiles st) of
           Some _ \<Rightarrow> (True, profilesWriteAll can_write (st\<lparr>profiles := replace_profile name p (profiles st)\<rparr>))
         | None \<Rightarrow>
            if MAX_PROFILES \<le> length (profiles st) then (False, st)
            else (True, profilesWriteAll can_write (st\<lparr>profiles := profiles st @ [p]\<rparr>)))"

definition profileApply :: "string \<Rightarrow> profile_store \<Rightarrow> 'a mods_scheme \<Rightarrow> (bool \<times> 'a mods_scheme) option" where
  "profileApply name st s =
     (case find_profile name (profiles st) of None \<Rightarrow> Some (False, s)
      | Some p \<Rightarrow> map_option (Pair True) (apply_all (pparams p) s))"

fun remove_profile :: "string \<Rightarrow> profile list \<Rightarrow> profile list" where
  "remove_profile name [] = []"
| "remove_profile name (q # r) = (if pname q = name then r else q # remove_profile name r)"

definition profileDelete :: "bool \<Rightarrow> string \<Rightarrow> profile_store \<Rightarrow> bool \<times> profile_store" where
  "profileDelete can_write name st =
     (case find_profile name (profiles st) of None \<Rightarrow> (False, st)
      | Some _ \<Rightarrow> (True, profilesWriteAll can_write (st\<lparr>profiles := remove_profile name (profiles st)\<rparr>)))"

definition profileCount :: "profile_store \<Rightarrow> nat" where
  "profileCount st = length (profiles st)"

definition profileNamesSnapshot :: "nat \<Rightarrow> profile_store \<Rightarrow> string list" where
  "profileNamesSnapshot maxNames st = map pname (take maxNames (profiles st))"

subsection \<open>A written file is read back\<close>

definition no_brace :: "string \<Rightarrow> bool" where
  "no_brace s \<longleftrightarrow> CHR ''{'' \<notin> set s \<and> CHR ''}'' \<notin> set s"

definition plain_pair :: "param_kv \<Rightarrow> bool" where
  "plain_pair kv \<longleftrightarrow> plain_key PARAM_KEY_SIZE (fst kv) \<and> plain_value PARAM_VAL_SIZE (snd kv) \<and>
     no_brace (fst kv) \<and> no_brace (snd kv) \<and> CHR 0x00 \<notin> set (fst kv) \<and> CHR 0x00 \<notin> set (snd kv)"

definition plain_name :: "string \<Rightarrow> bool" where
  "plain_name n \<longleftrightarrow> plain_key PROFILE_NAME_SIZE n \<and> CHR 0x00 \<notin> set n"

definition plain_profile :: "profile \<Rightarrow> bool" where
  "plain_profile p \<longleftrightarrow> plain_name (pname p) \<and> length (pparams p) \<le> MAX_PROFILE_PARAMS \<and> list_all plain_pair (pparams p)"

definition skips :: "string \<Rightarrow> bool" where
  "skips s \<longleftrightarrow> (\<forall>c\<in>set s. blank c \<or> c = CHR '','')"

lemma skips_simps [simp]: "skips []" "skips (c # s) \<longleftrightarrow> (blank c \<or> c = CHR '','') \<and> skips s"
    "skips (s @ t) \<longleftrightarrow> skips s \<and> skips t"
  by (auto simp: skips_def)

lemma blank_simps [simp]: "blank CHR '' ''" "blank CHR 0x0A" "\<not> blank CHR 0x22" "\<not> blank CHR ''}''" "\<not> blank CHR ''{''" "\<not> blank CHR '':''"
  by (simp_all add: blank_def)

lemma scan_pair_skips: "skips s \<Longrightarrow> scan_pair ks vs s = Stop"
proof -
  assume "skips s"
  then have "dropWhile (\<lambda>c. blank c \<or> c = CHR '','') s = []" by (simp add: skips_def)
  then show ?thesis unfolding scan_pair_def by (simp only: list.case)
qed

lemma flat_pairs_lines:
  "list_all plain_pair kvs \<Longrightarrow> skips pre \<Longrightarrow> skips post \<Longrightarrow>
     flat_pairs PARAM_KEY_SIZE PARAM_VAL_SIZE (pre @ param_lines kvs @ post) = kvs"
proof (induction kvs arbitrary: pre)
  case Nil
  then show ?case by (subst flat_pairs.simps) (simp add: scan_pair_skips)
next
  case (Cons kv r)
  obtain k v where kv: "kv = (k, v)" by (cases kv)
  define w where "w = (if r = [] then [] else '','') @ [CHR 0x0A]"
  have p: "plain_key PARAM_KEY_SIZE k" "plain_value PARAM_VAL_SIZE v" using Cons.prems(1) by (simp_all add: kv plain_pair_def)
  have w: "skips w" by (simp add: w_def)
  have "scan_pair PARAM_KEY_SIZE PARAM_VAL_SIZE ((pre @ ''    '') @ CHR 0x22 # k @ CHR 0x22 # CHR '':'' # CHR '' '' # v @ (w @ param_lines r @ post)) =
      Found k v (w @ param_lines r @ post)"
  proof (rule scan_pair_written [OF p])
    show "\<forall>c\<in>set (pre @ ''    ''). blank c \<or> c = CHR '',''" using Cons.prems(2) by (auto simp: skips_def)
  next
    show "w @ param_lines r @ post = hd w # (tl w @ param_lines r @ post)" by (simp add: w_def)
  next
    show "hd w = CHR '','' \<or> hd w = CHR ''}'' \<or> blank (hd w)" by (simp add: w_def)
  qed
  moreover have "pre @ param_lines (kv # r) @ post =
      (pre @ ''    '') @ CHR 0x22 # k @ CHR 0x22 # CHR '':'' # CHR '' '' # v @ (w @ param_lines r @ post)"
    by (simp add: kv w_def)
  moreover have "flat_pairs PARAM_KEY_SIZE PARAM_VAL_SIZE (w @ param_lines r @ post) = r"
    by (rule Cons.IH) (use Cons.prems w in simp_all)
  ultimately show ?case by (subst flat_pairs.simps) (simp only: scan.case kv)
qed

lemma param_lines_no_brace: "list_all plain_pair kvs \<Longrightarrow> no_brace (param_lines kvs)"
  by (induction kvs rule: param_lines.induct) (auto simp: plain_pair_def no_brace_def)

lemma to_close_body: "no_brace b \<Longrightarrow> to_close 1 (b @ CHR ''}'' # w) = (b @ ''}'', w)"
proof (induction b)
  case Nil
  then show ?case by (cases w) simp_all
next
  case (Cons a b)
  then have "a \<noteq> CHR ''{''" "a \<noteq> CHR ''}''" "no_brace b" by (auto simp: no_brace_def)
  then show ?case using Cons.IH by simp
qed

lemma load_loop_name:
  assumes n: "plain_name n" and pre: "skips pre" and room: "length ps < MAX_PROFILES"
  shows "load_loop (pre @ CHR 0x22 # n @ CHR 0x22 # CHR '':'' # CHR '' '' # CHR ''{'' # t) ps =
     (case object_text t of (body, rest) \<Rightarrow> load_loop rest (ps @ [\<lparr>pname = n, pparams = parseInnerObject body\<rparr>]))"
proof -
  have q: "\<not> (blank CHR 0x22 \<or> CHR 0x22 = CHR '','')" by (simp add: blank_def)
  have 1: "dropWhile (\<lambda>c. blank c \<or> c = CHR '','') (pre @ CHR 0x22 # x) = CHR 0x22 # x" for x
    using takeWhile_stop [of pre "\<lambda>c. blank c \<or> c = CHR '',''" "CHR 0x22" x] pre q by (simp add: skips_def)
  have 2: "takeWhile (\<lambda>c. c \<noteq> CHR 0x22) (n @ CHR 0x22 # x) = n \<and> dropWhile (\<lambda>c. c \<noteq> CHR 0x22) (n @ CHR 0x22 # x) = CHR 0x22 # x" for x
    by (rule takeWhile_stop) (use n in \<open>auto simp: plain_name_def plain_key_def\<close>)
  have 3: "dropWhile (\<lambda>c. blank c \<or> c = CHR '':'') (CHR '':'' # CHR '' '' # CHR ''{'' # t) = CHR ''{'' # t" by simp
  show ?thesis
    by (subst load_loop.simps)
      (use n room 2 in \<open>simp add: 1 Let_def plain_name_def plain_key_def not_le\<close>)
qed

lemma load_loop_lines:
  assumes "list_all plain_profile ps" "length acc + length ps \<le> MAX_PROFILES" "skips pre"
  shows "load_loop (pre @ profile_lines ps @ ''}'' @ w) acc = acc @ ps"
  using assms
proof (induction ps arbitrary: acc pre)
  case Nil
  have "dropWhile (\<lambda>c. blank c \<or> c = CHR '','') (pre @ CHR ''}'' # w) = CHR ''}'' # w"
    using takeWhile_stop [of pre "\<lambda>c. blank c \<or> c = CHR '',''" "CHR ''}''" w] Nil.prems by (simp add: skips_def)
  then show ?case by (subst load_loop.simps) simp
next
  case (Cons p r)
  define b where "b = [CHR 0x0A] @ param_lines (pparams p) @ ''  ''"
  define x where "x = (if r = [] then [] else '','') @ [CHR 0x0A]"
  have p: "plain_name (pname p)" "list_all plain_pair (pparams p)" "length (pparams p) \<le> MAX_PROFILE_PARAMS"
    using Cons.prems(1) by (simp_all add: plain_profile_def)
  have "no_brace b" using param_lines_no_brace [OF p(2)] by (simp add: b_def no_brace_def)
  then have o: "object_text (b @ CHR ''}'' # y) = (b, y)" for y by (simp add: object_text_def to_close_body [simplified] butlast_append)
  have "parseInnerObject b = pparams p"
    using flat_pairs_lines [OF p(2), of "[CHR 0x0A]" "''  ''"] p(3) by (simp add: b_def parseInnerObject_def)
  then have "\<lparr>pname = pname p, pparams = parseInnerObject b\<rparr> = p" by simp
  moreover have "pre @ profile_lines (p # r) @ ''}'' @ w =
      (pre @ ''  '') @ CHR 0x22 # pname p @ CHR 0x22 # CHR '':'' # CHR '' '' # CHR ''{'' # b @ CHR ''}'' # (x @ profile_lines r @ ''}'' @ w)"
    by (simp add: b_def x_def)
  moreover have "load_loop (x @ profile_lines r @ ''}'' @ w) (acc @ [p]) = (acc @ [p]) @ r"
    by (rule Cons.IH) (use Cons.prems in \<open>simp_all add: x_def\<close>)
  ultimately show ?case
    using Cons.prems by (simp only:) (subst load_loop_name [OF p(1)], simp_all add: o)
qed

lemma plain_lines_no_nul: "list_all plain_pair kvs \<Longrightarrow> CHR 0x00 \<notin> set (param_lines kvs)"
  by (induction kvs rule: param_lines.induct) (auto simp: plain_pair_def)

lemma profile_lines_no_nul: "list_all plain_profile ps \<Longrightarrow> CHR 0x00 \<notin> set (profile_lines ps)"
  by (induction ps) (auto simp: plain_profile_def plain_name_def dest: plain_lines_no_nul)

definition plain_store :: "profile list \<Rightarrow> bool" where
  "plain_store ps \<longleftrightarrow> list_all plain_profile ps \<and> length ps \<le> MAX_PROFILES \<and>
     length (profiles_text ps) < PROFILES_BUF_SIZE"

lemma load_written:
  assumes "plain_store ps" "profiles_file st = Some (profiles_text ps)"
  shows "profilesLoad True st = st\<lparr>profiles := ps\<rparr>"
proof -
  have "CHR 0x00 \<notin> set (profiles_text ps)"
    using assms(1) profile_lines_no_nul [of ps] by (auto simp: plain_store_def profiles_text_def)
  then have "read_buffer PROFILES_BUF_SIZE (profiles_text ps) = profiles_text ps"
    using assms(1) by (auto simp: read_buffer_def plain_store_def takeWhile_eq_all_conv)
  moreover have "load_loop ([CHR 0x0A] @ profile_lines ps @ ''}'' @ [CHR 0x0A]) [] = [] @ ps"
    by (rule load_loop_lines) (use assms(1) in \<open>simp_all add: plain_store_def\<close>)
  ultimately show ?thesis using assms(2) by (simp add: profilesLoad_def) (simp add: profiles_text_def)
qed

subsection \<open>What a save writes\<close>

definition row_ok :: "(string \<times> bool \<times> (int \<Rightarrow> param_kv list)) \<Rightarrow> bool" where
  "row_ok r \<longleftrightarrow> (case r of (name, enabled, g) \<Rightarrow> length name < PARAM_KEY_SIZE \<and>
     (\<forall>mx. int (length (g 32)) \<le> mx \<longrightarrow> g mx = g 32))"

lemma module_rows_ok: "list_all row_ok (module_rows s)"
  by (simp add: module_rows_def row_ok_def PARAM_KEY_SIZE_def lagGetParams_def jitterGetParams_def dropGetParams_def
      burstlossGetParams_def blackoutGetParams_def throttleGetParams_def dupGetParams_def oodGetParams_def
      tamperGetParams_def corruptGetParams_def resetGetParams_def bandwidthGetParams_def)

text \<open>The pairs a profile has to hold to keep the settings of every enabled module.\<close>

definition full_pairs :: "'a mods_scheme \<Rightarrow> param_kv list" where
  "full_pairs s = concat (map setting_pairs (settings s))"

lemma collect_all:
  "list_all row_ok rows \<Longrightarrow>
   length acc + length (concat (map (\<lambda>(n, en, g). setting_pairs (n, en, g 32)) rows)) \<le> MAX_PROFILE_PARAMS \<Longrightarrow>
   collect_params rows acc = acc @ concat (map (\<lambda>(n, en, g). setting_pairs (n, en, g 32)) rows)"
proof (induction rows arbitrary: acc)
  case (Cons r rows)
  obtain n en g where r: "r = (n, en, g)" by (cases r)
  show ?case
  proof (cases en)
    case True
    have len: "length acc + (1 + length (g 32) + length (concat (map (\<lambda>(n, en, g). setting_pairs (n, en, g 32)) rows))) \<le> MAX_PROFILE_PARAMS"
      using Cons.prems(2) True by (simp add: r setting_pairs_def)
    then have "g (int (MAX_PROFILE_PARAMS - Suc (length acc))) = g 32"
      using Cons.prems(1) by (simp add: r row_ok_def)
    moreover have "take (PARAM_KEY_SIZE - 1) n = n" using Cons.prems(1) by (simp add: r row_ok_def PARAM_KEY_SIZE_def)
    moreover have "collect_params rows (acc @ (n, ''true'') # g 32) =
        (acc @ (n, ''true'') # g 32) @ concat (map (\<lambda>(n, en, g). setting_pairs (n, en, g 32)) rows)"
      by (rule Cons.IH) (use Cons.prems len in \<open>simp_all add: r\<close>)
    ultimately show ?thesis using True len by (simp add: r setting_pairs_def not_le)
  next
    case False
    then show ?thesis using Cons by (simp add: r setting_pairs_def)
  qed
qed simp

lemma collect_full:
  "length (full_pairs s) \<le> MAX_PROFILE_PARAMS \<Longrightarrow> collect_params (module_rows s) [] = full_pairs s"
  using collect_all [OF module_rows_ok, of "[]" s]
  by (simp add: full_pairs_def settings_def map_concat comp_def case_prod_unfold)

lemma plain_digits:
  assumes "\<forall>c\<in>set v. is_digit c \<or> c = CHR ''.''" "v \<noteq> []" "length v < PARAM_VAL_SIZE"
  shows "plain_value PARAM_VAL_SIZE v \<and> no_brace v \<and> CHR 0x00 \<notin> set v"
proof -
  have "c \<noteq> CHR 0x22 \<and> c \<noteq> CHR '':'' \<and> c \<noteq> CHR '','' \<and> c \<noteq> CHR ''}'' \<and> c \<noteq> CHR ''{'' \<and> c \<noteq> CHR 0x00 \<and> \<not> blank c"
    if "is_digit c \<or> c = CHR ''.''" for c
    using that by (auto simp: is_digit_def code_def blank_def)
  then have all: "\<forall>c\<in>set v. c \<noteq> CHR 0x22 \<and> c \<noteq> CHR '':'' \<and> c \<noteq> CHR '','' \<and> c \<noteq> CHR ''}'' \<and> c \<noteq> CHR ''{'' \<and>
      c \<noteq> CHR 0x00 \<and> \<not> blank c" using assms(1) by blast
  moreover have "hd v \<in> set v" using assms(2) by simp
  ultimately show ?thesis using assms(2,3) unfolding plain_value_def no_brace_def by blast
qed

definition plain_text :: "string \<Rightarrow> bool" where
  "plain_text v \<longleftrightarrow> plain_value PARAM_VAL_SIZE v \<and> no_brace v \<and> CHR 0x00 \<notin> set v"

lemma plain_int: "0 \<le> i \<Longrightarrow> i \<le> 1000000 \<Longrightarrow> plain_text (show_int i)"
  unfolding plain_text_def
  by (rule plain_digits)
    (use show_nat_digits [of _ "nat i"] show_int_length [of i] in \<open>auto simp: show_int_def PARAM_VAL_SIZE_def\<close>)

lemma plain_tenths: "n \<le> 1000 \<Longrightarrow> plain_text (tenths_text n)"
proof -
  assume n: "n \<le> 1000"
  then have "length (show_nat (n div 10)) \<le> 3" by (intro show_nat_length) simp_all
  then show ?thesis unfolding plain_text_def tenths_text_def
    by (intro plain_digits) (use show_nat_digits [of _ "n div 10"] in \<open>auto simp: PARAM_VAL_SIZE_def\<close>)
qed

lemma plain_percent: "pct_ok c \<Longrightarrow> plain_text (show_percent c)" "pct_ok c \<Longrightarrow> plain_text (show_percent_d c)"
  by (metis show_percent_form plain_tenths) (metis show_percent_d_form plain_tenths)

lemma plain_words: "plain_text (show_bool b)" "plain_text ''true''" "plain_text (jitterDistName d)"
  by (auto simp: show_bool_def jitterDistName_def plain_text_def plain_value_def no_brace_def blank_def PARAM_VAL_SIZE_def)

lemmas plain_values = plain_int plain_percent plain_words

lemma plain_pair_key:
  "plain_key PARAM_KEY_SIZE k \<Longrightarrow> no_brace k \<Longrightarrow> CHR 0x00 \<notin> set k \<Longrightarrow> plain_pair (k, v) \<longleftrightarrow> plain_text v"
  by (simp add: plain_pair_def plain_text_def)

lemmas plain_key_simps = plain_pair_key plain_key_def no_brace_def PARAM_KEY_SIZE_def

lemma lag_plain: "lag_params_ok m \<Longrightarrow> list_all plain_pair (lagGetParams m 32)"
  by (simp add: lagGetParams_def plain_key_simps params_ok_defs POS_FRONT_def POS_RANDOM_def plain_values)

lemma jitter_plain: "jitter_params_ok m \<Longrightarrow> list_all plain_pair (jitterGetParams m 32)"
  by (simp add: jitterGetParams_def plain_key_simps params_ok_defs POS_FRONT_def POS_RANDOM_def plain_values)

lemma drop_plain: "drop_params_ok m \<Longrightarrow> list_all plain_pair (dropGetParams m 32)"
  by (simp add: dropGetParams_def plain_key_simps params_ok_defs POS_FRONT_def POS_RANDOM_def plain_values)

lemma burstloss_plain: "burstloss_params_ok m \<Longrightarrow> list_all plain_pair (burstlossGetParams m 32)"
  by (simp add: burstlossGetParams_def plain_key_simps params_ok_defs POS_FRONT_def POS_RANDOM_def plain_values)

lemma blackout_plain: "blackout_params_ok m \<Longrightarrow> list_all plain_pair (blackoutGetParams m 32)"
  by (simp add: blackoutGetParams_def plain_key_simps params_ok_defs POS_FRONT_def POS_RANDOM_def plain_values)

lemma throttle_plain: "throttle_params_ok m \<Longrightarrow> list_all plain_pair (throttleGetParams m 32)"
  by (simp add: throttleGetParams_def plain_key_simps params_ok_defs POS_FRONT_def POS_RANDOM_def plain_values)

lemma dup_plain: "dup_params_ok m \<Longrightarrow> list_all plain_pair (dupGetParams m 32)"
  by (simp add: dupGetParams_def plain_key_simps params_ok_defs POS_FRONT_def POS_RANDOM_def plain_values)

lemma ood_plain: "ood_params_ok m \<Longrightarrow> list_all plain_pair (oodGetParams m 32)"
  by (simp add: oodGetParams_def plain_key_simps params_ok_defs POS_FRONT_def POS_RANDOM_def plain_values)

lemma tamper_plain: "tamper_params_ok m \<Longrightarrow> list_all plain_pair (tamperGetParams m 32)"
  by (simp add: tamperGetParams_def plain_key_simps params_ok_defs POS_FRONT_def POS_RANDOM_def plain_values)

lemma corrupt_plain: "corrupt_params_ok m \<Longrightarrow> list_all plain_pair (corruptGetParams m 32)"
  by (simp add: corruptGetParams_def plain_key_simps params_ok_defs POS_FRONT_def POS_RANDOM_def plain_values)

lemma reset_plain: "reset_params_ok m \<Longrightarrow> list_all plain_pair (resetGetParams m 32)"
  by (simp add: resetGetParams_def plain_key_simps params_ok_defs POS_FRONT_def POS_RANDOM_def plain_values)

lemma bandwidth_plain: "bandwidth_params_ok m \<Longrightarrow> list_all plain_pair (bandwidthGetParams m 32)"
  by (simp add: bandwidthGetParams_def plain_key_simps params_ok_defs POS_FRONT_def POS_RANDOM_def plain_values)

lemma setting_pairs_plain: "plain_pair (n, ''true'') \<Longrightarrow> list_all plain_pair kvs \<Longrightarrow> list_all plain_pair (setting_pairs (n, en, kvs))"
  by (simp add: setting_pairs_def)

lemma full_pairs_plain: "mods_params_ok s \<Longrightarrow> list_all plain_pair (full_pairs s)"
proof -
  assume p: "mods_params_ok s"
  note ok = lag_plain [OF lag_slot.params(1) [OF p]] jitter_plain [OF jitter_slot.params(1) [OF p]] drop_plain [OF drop_slot.params(1) [OF p]] burstloss_plain [OF burstloss_slot.params(1) [OF p]] blackout_plain [OF blackout_slot.params(1) [OF p]] throttle_plain [OF throttle_slot.params(1) [OF p]] dup_plain [OF dup_slot.params(1) [OF p]] ood_plain [OF ood_slot.params(1) [OF p]] tamper_plain [OF tamper_slot.params(1) [OF p]] corrupt_plain [OF corrupt_slot.params(1) [OF p]] reset_plain [OF reset_slot.params(1) [OF p]] bandwidth_plain [OF bandwidth_slot.params(1) [OF p]]
  show ?thesis
    by (simp add: full_pairs_def settings_def module_rows_def setting_pairs_plain ok plain_key_simps plain_words)
qed

lemma find_replace:
  "find_profile name ps \<noteq> None \<Longrightarrow> pname p = name \<Longrightarrow> find_profile name (replace_profile name p ps) = Some p"
  by (induction ps) (auto simp: find_profile_def)

lemma find_append: "find_profile name ps = None \<Longrightarrow> pname p = name \<Longrightarrow> find_profile name (ps @ [p]) = Some p"
  by (induction ps) (auto simp: find_profile_def split: if_splits)

lemma replace_plain:
  "list_all plain_profile ps \<Longrightarrow> plain_profile p \<Longrightarrow> list_all plain_profile (replace_profile name p ps)"
  "length (replace_profile name p ps) = length ps"
  by (induction ps) auto

text \<open>C27: a profile saved from a table whose enabled modules fit into 32 pairs survives the file: after the
  program is restarted and the file is read, applying the profile to any table succeeds, gives every module
  that was enabled at the save its enabled flag and its printed parameters back, and leaves the settings of all other
  modules as they are. (Names without quotes, the file below the size of the read buffer.)\<close>

theorem profile_restores_settings:
  assumes s: "mods_params_ok s" and fits: "length (full_pairs s) \<le> MAX_PROFILE_PARAMS"
    and name: "plain_name name" and old: "list_all plain_profile (profiles st)" "length (profiles st) \<le> MAX_PROFILES"
    and save: "profileSaveCurrent True name s st = (True, st')"
    and small: "length (profiles_text (profiles st')) < PROFILES_BUF_SIZE"
  shows "\<exists>s'. profileApply name (profilesLoad True (st'\<lparr>profiles := []\<rparr>)) s0 = Some (True, s') \<and>
    settings s' = merged (settings s) (settings s0)"
proof -
  define p where "p = \<lparr>pname = take (PROFILE_NAME_SIZE - 1) name, pparams = collect_params (module_rows s) []\<rparr>"
  have nm: "pname p = name" using name by (simp add: p_def plain_name_def plain_key_def PROFILE_NAME_SIZE_def)
  have pp: "pparams p = full_pairs s" using collect_full [OF fits] by (simp add: p_def)
  have plain: "plain_profile p" using name nm pp fits full_pairs_plain [OF s] by (simp add: plain_profile_def)
  have st': "find_profile name (profiles st') = Some p \<and> list_all plain_profile (profiles st') \<and>
      length (profiles st') \<le> MAX_PROFILES \<and> profiles_file st' = Some (profiles_text (profiles st'))"
    using save [unfolded profileSaveCurrent_def Let_def p_def [symmetric]] old plain
      find_replace [OF _ nm, of "profiles st"] find_append [OF _ nm, of "profiles st"]
      replace_plain [where ps = "profiles st" and p = p and name = name]
    by (auto simp: profilesWriteAll_def split: option.splits if_splits)
  have "profilesLoad True (st'\<lparr>profiles := []\<rparr>) = st'"
    using load_written [of "profiles st'" "st'\<lparr>profiles := []\<rparr>"] st' small by (simp add: plain_store_def)
  then show ?thesis using st' restore_settings [OF s, of s0] by (auto simp: profileApply_def pp full_pairs_def)
qed

definition lag_only :: mods where
  "lag_only = mods_init\<lparr>m_lag := (m_lag mods_init)\<lparr>enabledFlag := True\<rparr>\<rparr>"

lemma lag_only_ok: "mods_params_ok lag_only"
  by (simp add: lag_only_def mods_params_ok_def lag_params_ok_def) (use mods_init_ok(2) in \<open>simp add: mods_params_ok_def lag_params_ok_def\<close>)

lemma lag_only_pairs:
  "full_pairs lag_only = (''lag'', ''true'') # lagGetParams (m_lag mods_init) 32"
  by (simp add: full_pairs_def settings_def module_rows_def setting_pairs_def lag_only_def mods_init_def module_defaults_def
      lagGetParams_def lag_init_def jitter_init_def drop_init_def burstloss_init_def blackout_init_def throttle_init_def
      dup_init_def ood_init_def tamper_init_def corrupt_init_def reset_init_def bandwidth_init_def module_base.defs)

theorem profile_restores_settings_witness:
  "\<exists>st' s'. profileSaveCurrent True ''mobile'' lag_only \<lparr>profiles = [], profiles_file = None\<rparr> = (True, st') \<and>
     profileApply ''mobile'' (profilesLoad True (st'\<lparr>profiles := []\<rparr>)) mods_init = Some (True, s') \<and>
     settings s' = merged (settings lag_only) (settings mods_init)"
proof -
  define p where "p = \<lparr>pname = ''mobile'', pparams = full_pairs lag_only\<rparr>"
  have fits: "length (full_pairs lag_only) \<le> MAX_PROFILE_PARAMS"
    by (simp add: lag_only_pairs lagGetParams_def MAX_PROFILE_PARAMS_def)
  let ?st = "\<lparr>profiles = [p], profiles_file = Some (profiles_text [p])\<rparr>"
  have save: "profileSaveCurrent True ''mobile'' lag_only \<lparr>profiles = [], profiles_file = None\<rparr> = (True, ?st)"
    by (simp add: profileSaveCurrent_def find_profile_def MAX_PROFILES_def profilesWriteAll_def collect_full [OF fits]
        PROFILE_NAME_SIZE_def p_def Let_def)
  have "length (show_int (lagTime (m_lag mods_init))) \<le> 10"
    by (rule show_int_length) (simp_all add: mods_init_def lag_init_def module_defaults_def module_base.defs)
  then have small: "length (profiles_text [p]) < PROFILES_BUF_SIZE"
    by (simp add: p_def profiles_text_def lag_only_pairs lagGetParams_def PROFILES_BUF_SIZE_def show_bool_def)
  have "\<exists>s'. profileApply ''mobile'' (profilesLoad True (?st\<lparr>profiles := []\<rparr>)) mods_init = Some (True, s') \<and>
      settings s' = merged (settings lag_only) (settings mods_init)"
    by (rule profile_restores_settings [OF lag_only_ok fits _ _ _ save])
      (use small in \<open>simp_all add: plain_name_def plain_key_def PROFILE_NAME_SIZE_def MAX_PROFILES_def\<close>)
  then show ?thesis using save by blast
qed

text \<open>
  With all modules enabled only the settings of the first six are saved, and nothing says so: the 63 pairs
  they need do not fit into the 32 of a profile.
\<close>

theorem full_table_truncated:
  assumes "\<forall>r\<in>set (settings s). fst (snd r)"
  shows "collect_params (module_rows s) [] = concat (map setting_pairs (take 6 (settings s)))"
  using assms
  by (simp add: settings_def module_rows_def MAX_PROFILE_PARAMS_def PARAM_KEY_SIZE_def setting_pairs_def
      lagGetParams_def jitterGetParams_def dropGetParams_def burstlossGetParams_def blackoutGetParams_def throttleGetParams_def)

end
