(* ===== verification/Scenario.thy ===== *)
theory Scenario
  imports Capture Module_Route Flat_Text
begin

text \<open>
  \<^verbatim>\<open>src/src/scenario.cpp\<close>: steps that change module parameters at a time or when a metric crosses a value.
  The array \<^verbatim>\<open>steps\<close> is a list, the file's globals are the record \<open>scenario\<close>; a tick reads the backend's
  counters and clock and writes through \<^verbatim>\<open>applyModuleKV\<close>, so it works on the \<open>divert\<close> record. Log lines
  and the report's event notes are left out.
\<close>

definition SCENARIO_BUF_SIZE :: nat where "SCENARIO_BUF_SIZE = 65536"
definition MAX_STEPS :: nat where "MAX_STEPS = 128"
definition MAX_PARAMS_PER_STEP :: nat where "MAX_PARAMS_PER_STEP = 32"
definition KEY_SIZE :: nat where "KEY_SIZE = 48"
definition VAL_SIZE :: nat where "VAL_SIZE = 64"

lemmas scenario_sizes = SCENARIO_BUF_SIZE_def MAX_STEPS_def MAX_PARAMS_PER_STEP_def KEY_SIZE_def VAL_SIZE_def

datatype trigger = TRIGGER_TIME | TRIGGER_CONDITION

datatype when_op = WHEN_GE | WHEN_GT | WHEN_LE | WHEN_LT | WHEN_EQ

record scenario_step =
  triggerType :: trigger
  atSec :: int
  whenMetric :: string
  step_op :: when_op
  step_value :: double
  repeatSec :: int
  maxTimes :: int
  step_params :: "param_kv list"
  fireCount :: int
  nextFireMs :: u32
  step_done :: bool

record scenario =
  steps :: "scenario_step list"
  startMs :: u32
  active :: bool
  prevCaptured :: u64
  prevPpsMs :: u32
  lastPps :: double

definition scenario_init :: scenario where
  "scenario_init = \<lparr>steps = [], startMs = 0, active = False, prevCaptured = 0, prevPpsMs = 0, lastPps = Fin 0\<rparr>"

subsection \<open>Parsing\<close>

definition parseOp :: "string \<Rightarrow> when_op" where
  "parseOp s =
     (if s = ''>'' then WHEN_GT else if s = ''<='' then WHEN_LE else if s = ''<'' then WHEN_LT
      else if s = ''=='' \<or> s = ''='' then WHEN_EQ else WHEN_GE)"

text \<open>The zeroed step with the two defaults \<^verbatim>\<open>parseObject\<close> begins with.\<close>

definition blank_step :: scenario_step where
  "blank_step = \<lparr>triggerType = TRIGGER_TIME, atSec = - 1, whenMetric = [], step_op = WHEN_GE, step_value = Fin 0,
     repeatSec = 0, maxTimes = 0, step_params = [], fireCount = 0, nextFireMs = 0, step_done = False\<rparr>"

text \<open>One pair of the object: the step so far with \<^verbatim>\<open>hasAt\<close> and \<^verbatim>\<open>hasWhen\<close>.\<close>

fun step_pair :: "param_kv \<Rightarrow> scenario_step \<times> bool \<times> bool \<Rightarrow> scenario_step \<times> bool \<times> bool" where
  "step_pair (key, val) (x, hasAt, hasWhen) =
     (if key = ''at'' then (x\<lparr>atSec := atoi val\<rparr>, True, hasWhen)
      else if key = ''when'' then (x\<lparr>whenMetric := take (KEY_SIZE - 1) val\<rparr>, hasAt, True)
      else if key = ''op'' then (x\<lparr>step_op := parseOp val\<rparr>, hasAt, hasWhen)
      else if key = ''value'' then (x\<lparr>step_value := atof_double val\<rparr>, hasAt, hasWhen)
      else if key = ''repeat'' then (x\<lparr>repeatSec := atoi val\<rparr>, hasAt, hasWhen)
      else if key = ''times'' then (x\<lparr>maxTimes := atoi val\<rparr>, hasAt, hasWhen)
      else if length (step_params x) < MAX_PARAMS_PER_STEP
        then (x\<lparr>step_params := step_params x @ [(key, val)]\<rparr>, hasAt, hasWhen)
      else (x, hasAt, hasWhen))"

text \<open>\<open>None\<close>: the object has no usable trigger.\<close>

definition parse_step :: "string \<Rightarrow> scenario_step option" where
  "parse_step body =
     (case fold step_pair (flat_pairs KEY_SIZE VAL_SIZE body) (blank_step, False, False) of
        (x, hasAt, hasWhen) \<Rightarrow>
          if hasWhen then Some (x\<lparr>triggerType := TRIGGER_CONDITION\<rparr>)
          else if hasAt \<and> 0 \<le> atSec x then Some (x\<lparr>triggerType := TRIGGER_TIME\<rparr>)
          else None)"

definition step_key :: "scenario_step \<Rightarrow> int" where
  "step_key x = (case triggerType x of TRIGGER_TIME \<Rightarrow> atSec x | TRIGGER_CONDITION \<Rightarrow> 0x7FFFFFFF)"

text \<open>The inner loop of \<^verbatim>\<open>sortSteps\<close>, from the last sorted step to the first.\<close>

fun sift_back :: "scenario_step \<Rightarrow> scenario_step list \<Rightarrow> scenario_step list" where
  "sift_back tmp [] = [tmp]"
| "sift_back tmp (y # r) = (if step_key y \<le> step_key tmp then tmp # y # r else y # sift_back tmp r)"

definition sortSteps :: "scenario_step list \<Rightarrow> scenario_step list" where
  "sortSteps xs = foldl (\<lambda>sorted tmp. rev (sift_back tmp (rev sorted))) [] xs"

function parse_loop :: "string \<Rightarrow> scenario_step list \<Rightarrow> scenario_step list" where
  "parse_loop s xs =
     (if MAX_STEPS \<le> length xs then xs
      else
        (case dropWhile (\<lambda>c. c \<noteq> CHR ''{'' \<and> c \<noteq> CHR '']'') s of [] \<Rightarrow> xs
         | c # r \<Rightarrow>
            if c = CHR '']'' then xs
            else
              (case object_text r of (body, rest) \<Rightarrow>
                 parse_loop rest (case parse_step body of Some x \<Rightarrow> xs @ [x] | None \<Rightarrow> xs))))"
  by pat_completeness auto
termination
proof (relation "measure (\<lambda>(s, xs). length s)", goal_cases)
  case (2 s xs c r body rest)
  then show ?case
    using length_dropWhile_le [of "\<lambda>c. c \<noteq> CHR ''{'' \<and> c \<noteq> CHR '']''" s] object_text_length [of r body rest] by simp
qed simp

declare parse_loop.simps [simp del]

definition scenarioParse :: "string \<Rightarrow> scenario \<Rightarrow> scenario" where
  "scenarioParse text sc =
     (case dropWhile (\<lambda>c. c \<noteq> CHR ''['') text of [] \<Rightarrow> sc\<lparr>steps := []\<rparr>
      | _ # r \<Rightarrow> sc\<lparr>steps := sortSteps (parse_loop r [])\<rparr>)"

text \<open>The file is \<open>None\<close> when it cannot be opened; \<open>mem\<close>: the buffer could be allocated.\<close>

definition scenarioLoad :: "bool \<Rightarrow> string option \<Rightarrow> scenario \<Rightarrow> scenario" where
  "scenarioLoad mem file sc =
     (case file of None \<Rightarrow> sc\<lparr>steps := []\<rparr>
      | Some t \<Rightarrow> if mem then scenarioParse (read_buffer SCENARIO_BUF_SIZE t) sc else sc\<lparr>steps := []\<rparr>)"

text \<open>A posted scenario is a \<^verbatim>\<open>std::string\<close> seen as a C string; \<open>None\<close> is a null pointer.\<close>

definition scenarioLoadString :: "string option \<Rightarrow> scenario \<Rightarrow> scenario" where
  "scenarioLoadString json sc =
     (case json of None \<Rightarrow> sc\<lparr>steps := []\<rparr>
      | Some text \<Rightarrow> scenarioParse (takeWhile (\<lambda>c. c \<noteq> CHR 0x00) text) sc)"

subsection \<open>Metrics\<close>

definition jitterGetBufSize :: "jitter_state \<Rightarrow> nat" where
  "jitterGetBufSize m = bufSize m"

definition bandwidthGetBufSize :: "bandwidth_state \<Rightarrow> nat" where
  "bandwidthGetBufSize m = bufSize m"

definition affected_counts :: "'a mods_scheme \<Rightarrow> (string \<times> u64) list" where
  "affected_counts s =
     [(''lag'', affectedCount (m_lag s)), (''jitter'', affectedCount (m_jitter s)),
      (''drop'', affectedCount (m_drop s)), (''burstloss'', affectedCount (m_burstloss s)),
      (''blackout'', affectedCount (m_blackout s)), (''throttle'', affectedCount (m_throttle s)),
      (''duplicate'', affectedCount (m_dup s)), (''ood'', affectedCount (m_ood s)),
      (''tamper'', affectedCount (m_tamper s)), (''corrupt'', affectedCount (m_corrupt s)),
      (''reset'', affectedCount (m_reset s)), (''bandwidth'', affectedCount (m_bandwidth s))]"

text \<open>A \<^verbatim>\<open>LONG\<close> converted to double.\<close>

definition long_double :: "u64 \<Rightarrow> double" where
  "long_double n = double_of (of_int (sint n))"

definition readMetric :: "string \<Rightarrow> u32 \<Rightarrow> double \<Rightarrow> ('k, 'a) divert_scheme \<Rightarrow> double" where
  "readMetric name elapsed pps s =
     (if name = ''captured_count'' then long_double (statsCapturedTotal s)
      else if name = ''sent_count'' then long_double (statsSentTotal s)
      else if name = ''elapsed_sec'' then double_of (of_nat (unat elapsed) / 1000)
      else if name = ''pps'' then pps
      else if name = ''lag_buf'' then Fin (of_nat (lagGetBufSize (m_lag s)))
      else if name = ''jitter_buf'' then Fin (of_nat (jitterGetBufSize (m_jitter s)))
      else if name = ''bandwidth_buf'' then Fin (of_nat (bandwidthGetBufSize (m_bandwidth s)))
      else if take 9 name = ''affected:'' then
        (case map_of (affected_counts s) (drop 9 name) of Some n \<Rightarrow> long_double n | None \<Rightarrow> Fin 0)
      else Fin 0)"

definition compareOp :: "double \<Rightarrow> when_op \<Rightarrow> double \<Rightarrow> bool" where
  "compareOp lhs op rhs =
     (case op of WHEN_GT \<Rightarrow> double_less rhs lhs
      | WHEN_LE \<Rightarrow> double_less lhs rhs \<or> double_eq lhs rhs
      | WHEN_LT \<Rightarrow> double_less lhs rhs
      | WHEN_EQ \<Rightarrow> double_eq lhs rhs
      | WHEN_GE \<Rightarrow> double_less rhs lhs \<or> double_eq lhs rhs)"

subsection \<open>Running\<close>

definition applyStep :: "scenario_step \<Rightarrow> ('k, 'a) divert_scheme \<Rightarrow> (scenario_step \<times> ('k, 'a) divert_scheme) option" where
  "applyStep x s = map_option (Pair (x\<lparr>fireCount := fireCount x + 1\<rparr>)) (apply_all (step_params x) s)"

definition retireStep :: "u32 \<Rightarrow> scenario_step \<Rightarrow> scenario_step" where
  "retireStep now x =
     (if 0 < repeatSec x \<and> (maxTimes x \<le> 0 \<or> fireCount x < maxTimes x)
      then x\<lparr>nextFireMs := now + word_of_int (repeatSec x) * 1000\<rparr>
      else x\<lparr>step_done := True\<rparr>)"

definition scenarioStart :: "scenario \<Rightarrow> ('k, 'a) divert_scheme \<Rightarrow> scenario \<times> ('k, 'a) divert_scheme" where
  "scenarioStart sc s =
     (if steps sc = [] then (sc, s)
      else (case timeGetTime (denv s) of (now, e) \<Rightarrow>
        (sc\<lparr>startMs := now, active := True, prevCaptured := statsCapturedTotal s, prevPpsMs := now, lastPps := Fin 0,
            steps := map (\<lambda>x. x\<lparr>fireCount := 0, step_done := False, nextFireMs := 0\<rparr>) (steps sc)\<rparr>,
         s\<lparr>denv := e\<rparr>)))"

definition scenarioStop :: "scenario \<Rightarrow> scenario" where
  "scenarioStop sc = sc\<lparr>active := False\<rparr>"

text \<open>The derived rate, refreshed about once a second.\<close>

definition refresh_pps :: "u32 \<Rightarrow> u64 \<Rightarrow> scenario \<Rightarrow> scenario" where
  "refresh_pps now captured sc =
     (if 1000 \<le> now - prevPpsMs sc
      then sc\<lparr>lastPps := Fin (dbl (dbl (dbl (of_int (sint (captured - prevCaptured sc))) * 1000) / of_nat (unat (now - prevPpsMs sc)))),
             prevCaptured := captured, prevPpsMs := now\<rparr>
      else sc)"

definition step_due :: "u32 \<Rightarrow> u32 \<Rightarrow> double \<Rightarrow> ('k, 'a) divert_scheme \<Rightarrow> scenario_step \<Rightarrow> bool" where
  "step_due now elapsed pps s x =
     (if nextFireMs x \<noteq> 0 then nextFireMs x \<le> now
      else if triggerType x = TRIGGER_TIME then word_of_int (atSec x) \<le> elapsed div 1000
      else compareOp (readMetric (whenMetric x) elapsed pps s) (step_op x) (step_value x))"

text \<open>The loop over the steps, with \<^verbatim>\<open>remaining\<close>. \<open>None\<close>: a value was out of range for the conversion it went through.\<close>

fun tick_steps :: "u32 \<Rightarrow> u32 \<Rightarrow> double \<Rightarrow> scenario_step list \<Rightarrow> nat \<Rightarrow> ('k, 'a) divert_scheme \<Rightarrow>
    (scenario_step list \<times> nat \<times> ('k, 'a) divert_scheme) option" where
  "tick_steps now elapsed pps [] remaining s = Some ([], remaining, s)"
| "tick_steps now elapsed pps (x # r) remaining s =
     (if step_done x then map_option (\<lambda>(r, out). (x # r, out)) (tick_steps now elapsed pps r remaining s)
      else if step_due now elapsed pps s x then
        (case applyStep x s of None \<Rightarrow> None
         | Some (x, s) \<Rightarrow>
            let x = retireStep now x;
                remaining = remaining + 1;
                remaining = (if step_done x then remaining - 1 else remaining)
            in map_option (\<lambda>(r, out). (x # r, out)) (tick_steps now elapsed pps r remaining s))
      else map_option (\<lambda>(r, out). (x # r, out)) (tick_steps now elapsed pps r (remaining + 1) s))"

definition scenarioTick :: "scenario \<Rightarrow> ('k, 'a) divert_scheme \<Rightarrow> (scenario \<times> ('k, 'a) divert_scheme) option" where
  "scenarioTick sc s =
     (if \<not> active sc \<or> steps sc = [] then Some (sc, s)
      else (case timeGetTime (denv s) of (now, e) \<Rightarrow>
        let s = s\<lparr>denv := e\<rparr>;
            elapsed = now - startMs sc;
            sc = refresh_pps now (statsCapturedTotal s) sc
        in case tick_steps now elapsed (lastPps sc) (steps sc) 0 s of None \<Rightarrow> None
           | Some (xs, remaining, s) \<Rightarrow>
              Some (if remaining = 0 then sc\<lparr>steps := xs, active := False\<rparr> else sc\<lparr>steps := xs\<rparr>, s)))"

definition scenarioIsLoaded :: "scenario \<Rightarrow> bool" where
  "scenarioIsLoaded sc \<longleftrightarrow> steps sc \<noteq> []"

definition scenarioStepCount :: "scenario \<Rightarrow> nat" where
  "scenarioStepCount sc = length (steps sc)"

definition scenarioIsActive :: "scenario \<Rightarrow> bool" where
  "scenarioIsActive sc \<longleftrightarrow> active sc"

subsection \<open>What is loaded\<close>

lemma sift_back_mset [simp]: "mset (sift_back t xs) = add_mset t (mset xs)"
  by (induction xs) auto

lemma sift_back_sorted:
  "sorted_wrt (\<lambda>x y. step_key y \<le> step_key x) xs \<Longrightarrow> sorted_wrt (\<lambda>x y. step_key y \<le> step_key x) (sift_back t xs)"
proof (induction xs)
  case (Cons y r)
  have "set (sift_back t r) = insert t (set r)" using mset_eq_setD [of "sift_back t r" "t # r"] by simp
  then show ?case using Cons by (auto intro: order_trans)
qed simp

lemma sift_back_stable:
  "sorted_wrt (\<lambda>x y. step_key y \<le> step_key x) xs \<Longrightarrow>
     filter (\<lambda>x. step_key x = k) (sift_back t xs) = (if step_key t = k then [t] else []) @ filter (\<lambda>x. step_key x = k) xs"
proof (induction xs)
  case (Cons y r)
  show ?case
  proof (cases "step_key y \<le> step_key t")
    case False
    then have "\<forall>x\<in>set (y # r). step_key t < step_key y" by simp
    then show ?thesis using Cons False by auto
  qed simp
qed simp

lemma sortSteps_snoc: "sortSteps (xs @ [t]) = rev (sift_back t (rev (sortSteps xs)))"
  by (simp add: sortSteps_def)

lemma sortSteps_sorted: "sorted_wrt (\<lambda>x y. step_key x \<le> step_key y) (sortSteps xs)"
proof (induction xs rule: rev_induct)
  case Nil
  show ?case by (simp add: sortSteps_def)
next
  case (snoc t xs)
  then show ?case using sift_back_sorted [of "rev (sortSteps xs)" t] by (simp add: sortSteps_snoc sorted_wrt_rev)
qed

lemma sortSteps_mset [simp]: "mset (sortSteps xs) = mset xs"
  by (induction xs rule: rev_induct) (simp add: sortSteps_def, simp add: sortSteps_snoc)

lemma sortSteps_set [simp]: "set (sortSteps xs) = set xs"
  by (rule mset_eq_setD) simp

lemma sortSteps_length [simp]: "length (sortSteps xs) = length xs"
  by (rule mset_eq_length) simp

lemma sortSteps_stable: "filter (\<lambda>x. step_key x = k) (sortSteps xs) = filter (\<lambda>x. step_key x = k) xs"
proof (induction xs rule: rev_induct)
  case Nil
  show ?case by (simp add: sortSteps_def)
next
  case (snoc t xs)
  have "filter (\<lambda>x. step_key x = k) (sift_back t (rev (sortSteps xs))) =
      (if step_key t = k then [t] else []) @ filter (\<lambda>x. step_key x = k) (rev (sortSteps xs))"
    by (rule sift_back_stable) (simp add: sorted_wrt_rev sortSteps_sorted)
  then show ?case using snoc by (simp add: sortSteps_snoc rev_filter [symmetric])
qed

lemma sortSteps_sort_key: "sortSteps xs = sort_key step_key xs"
proof (rule properties_for_sort_key [symmetric])
  show "filter (\<lambda>x. step_key k = step_key x) (sortSteps xs) = filter (\<lambda>x. step_key k = step_key x) xs" for k
    using sortSteps_stable [of "step_key k" xs] by (simp only: eq_commute [of "step_key k"])
qed (use sortSteps_sorted [of xs] in \<open>simp_all add: sorted_map\<close>)

text \<open>What the C declarations promise of a loaded step.\<close>

definition fits :: "param_kv \<Rightarrow> bool" where
  "fits kv \<longleftrightarrow> fst kv \<noteq> [] \<and> length (fst kv) < KEY_SIZE \<and> length (snd kv) < VAL_SIZE"

definition step_typed :: "scenario_step \<Rightarrow> bool" where
  "step_typed x \<longleftrightarrow> length (whenMetric x) < KEY_SIZE \<and> length (step_params x) \<le> MAX_PARAMS_PER_STEP \<and>
     list_all fits (step_params x) \<and> - (2 ^ 31) \<le> atSec x \<and> atSec x < 2 ^ 31"

lemma scan_pair_fits: "scan_pair KEY_SIZE VAL_SIZE s = Found k v r \<Longrightarrow> fits (k, v)"
  by (auto simp: scan_pair_def scan_value_def Let_def fits_def scenario_sizes split: list.splits if_splits)

lemma flat_pairs_fits: "list_all fits (flat_pairs KEY_SIZE VAL_SIZE s)"
proof (induction "length s" arbitrary: s rule: less_induct)
  case less
  show ?case
  proof (cases "scan_pair KEY_SIZE VAL_SIZE s")
    case Stop
    then show ?thesis by (subst flat_pairs.simps) simp
  next
    case (Skip r)
    then have "length r < length s" using scan_pair_rest [of KEY_SIZE VAL_SIZE s] by simp
    then show ?thesis using less Skip by (subst flat_pairs.simps) simp
  next
    case (Found k v r)
    then have "length r < length s" using scan_pair_rest [of KEY_SIZE VAL_SIZE s] by simp
    then show ?thesis using less Found scan_pair_fits [OF Found] by (subst flat_pairs.simps) simp
  qed
qed

lemma atoi_bounds: "- (2 ^ 31) \<le> atoi s" "atoi s < 2 ^ 31"
  using signed_take_bit_int_greater_eq_minus_exp [of 31 "strtol s"] signed_take_bit_int_less_exp [of 31 "strtol s"]
  by (simp_all add: atoi_def)

lemma step_pair_typed: "step_typed x \<Longrightarrow> fits kv \<Longrightarrow> step_typed (fst (step_pair kv (x, a, w)))"
proof -
  assume x: "step_typed x" and kv: "fits kv"
  obtain key val where k: "kv = (key, val)" by (cases kv)
  have split: "step_typed (fst b) \<Longrightarrow> step_typed (fst c) \<Longrightarrow> step_typed (fst (if q then b else c))" for q and b c :: "scenario_step \<times> bool \<times> bool" by simp
  have last: "step_typed (fst (if length (step_params x) < MAX_PARAMS_PER_STEP
      then (x\<lparr>step_params := step_params x @ [(key, val)]\<rparr>, a, w) else (x, a, w)))"
    using x kv by (simp add: step_typed_def k)
  show ?thesis unfolding k step_pair.simps
    by (intro last split) (use x atoi_bounds [of val] in \<open>simp_all add: step_typed_def KEY_SIZE_def\<close>)
qed

lemma step_pairs_typed: "list_all fits kvs \<Longrightarrow> step_typed (fst x) \<Longrightarrow> step_typed (fst (fold step_pair kvs x))"
proof (induction kvs arbitrary: x)
  case (Cons kv r)
  obtain y a w where x: "x = (y, a, w)" by (cases x)
  show ?case using Cons.IH [of "step_pair kv x"] Cons.prems step_pair_typed [of y kv a w] by (simp add: x)
qed simp

lemma parse_step_typed: "parse_step s = Some x \<Longrightarrow> step_typed x \<and> (triggerType x = TRIGGER_TIME \<longrightarrow> 0 \<le> atSec x)"
proof -
  assume p: "parse_step s = Some x"
  obtain y a w where y: "fold step_pair (flat_pairs KEY_SIZE VAL_SIZE s) (blank_step, False, False) = (y, a, w)" by (metis prod_cases3)
  have "step_typed blank_step" by (simp add: step_typed_def blank_step_def scenario_sizes)
  then have t: "step_typed y" using step_pairs_typed [OF flat_pairs_fits [of s], of "(blank_step, False, False)"] by (simp add: y)
  from p have "w \<and> x = y\<lparr>triggerType := TRIGGER_CONDITION\<rparr> \<or> 0 \<le> atSec y \<and> x = y\<lparr>triggerType := TRIGGER_TIME\<rparr>"
    unfolding parse_step_def y prod.case by (simp split: if_splits)
  then show ?thesis using t by (auto simp: step_typed_def)
qed

lemma parse_loop_typed:
  "length xs \<le> MAX_STEPS \<Longrightarrow> \<forall>x\<in>set xs. P x \<Longrightarrow> \<forall>b x. parse_step b = Some x \<longrightarrow> P x \<Longrightarrow>
     length (parse_loop s xs) \<le> MAX_STEPS \<and> (\<forall>x\<in>set (parse_loop s xs). P x)"
proof (induction s xs rule: parse_loop.induct)
  case (1 s xs)
  show ?case
  proof (cases "MAX_STEPS \<le> length xs")
    case True
    then show ?thesis using 1 by (subst (1 2) parse_loop.simps) simp
  next
    case room: False
    show ?thesis
    proof (cases "dropWhile (\<lambda>c. c \<noteq> CHR ''{'' \<and> c \<noteq> CHR '']'') s")
      case Nil
      then show ?thesis using 1 room by (subst (1 2) parse_loop.simps) (simp only: list.case if_False)
    next
      case (Cons c r)
      show ?thesis
      proof (cases "c = CHR '']''")
        case True
        then show ?thesis using 1 room Cons by (subst (1 2) parse_loop.simps) simp
      next
        case False
        obtain body rest where o: "object_text r = (body, rest)" by (cases "object_text r")
        define ys where "ys = (case parse_step body of Some x \<Rightarrow> xs @ [x] | None \<Rightarrow> xs)"
        have "length ys \<le> MAX_STEPS" "\<forall>x\<in>set ys. P x"
          using 1 room by (auto simp: ys_def split: option.splits)
        then have "length (parse_loop rest ys) \<le> MAX_STEPS \<and> (\<forall>x\<in>set (parse_loop rest ys). P x)"
          unfolding ys_def by (intro "1.IH" [OF room Cons False o [symmetric]]) (use 1 in simp_all)
        moreover have "parse_loop s xs = parse_loop rest ys"
          by (subst parse_loop.simps) (use room Cons False in \<open>simp add: o ys_def\<close>)
        ultimately show ?thesis by simp
      qed
    qed
  qed
qed

subsection \<open>A step does not disturb what the others look at\<close>

text \<open>The part of the table the metrics read.\<close>

definition readings :: "'a mods_scheme \<Rightarrow> (string \<times> u64) list \<times> nat \<times> nat \<times> nat" where
  "readings s = (affected_counts s, bufSize (m_lag s), bufSize (m_jitter s), bufSize (m_bandwidth s))"

definition keeps_readings :: "'a setter \<Rightarrow> bool" where
  "keeps_readings f \<longleftrightarrow> (\<forall>k v s ok s'. f k v s = Some (ok, s') \<longrightarrow> readings s' = readings s)"

lemma lag_counts: "lagSetParam k v m = Some (ok, m') \<Longrightarrow> affectedCount m' = affectedCount m \<and> bufSize m' = bufSize m"
  unfolding lagSetParam_def by (auto split: if_splits Option.bind_splits)

lemma jitter_counts: "jitterSetParam k v m = Some (ok, m') \<Longrightarrow> affectedCount m' = affectedCount m \<and> bufSize m' = bufSize m"
  unfolding jitterSetParam_def by (auto split: if_splits Option.bind_splits)

lemma drop_counts: "dropSetParam k v m = Some (ok, m') \<Longrightarrow> affectedCount m' = affectedCount m"
  unfolding dropSetParam_def by (auto split: if_splits Option.bind_splits)

lemma burstloss_counts: "burstlossSetParam k v m = Some (ok, m') \<Longrightarrow> affectedCount m' = affectedCount m"
  unfolding burstlossSetParam_def by (auto split: if_splits Option.bind_splits)

lemma blackout_counts: "blackoutSetParam k v m = Some (ok, m') \<Longrightarrow> affectedCount m' = affectedCount m"
  unfolding blackoutSetParam_def by (auto split: if_splits Option.bind_splits)

lemma throttle_counts: "throttleSetParam k v m = Some (ok, m') \<Longrightarrow> affectedCount m' = affectedCount m"
  unfolding throttleSetParam_def by (auto split: if_splits Option.bind_splits)

lemma dup_counts: "dupSetParam k v m = Some (ok, m') \<Longrightarrow> affectedCount m' = affectedCount m"
  unfolding dupSetParam_def by (auto split: if_splits Option.bind_splits)

lemma ood_counts: "oodSetParam k v m = Some (ok, m') \<Longrightarrow> affectedCount m' = affectedCount m"
  unfolding oodSetParam_def by (auto split: if_splits Option.bind_splits)

lemma tamper_counts: "tamperSetParam k v m = Some (ok, m') \<Longrightarrow> affectedCount m' = affectedCount m"
  unfolding tamperSetParam_def by (auto split: if_splits Option.bind_splits)

lemma corrupt_counts: "corruptSetParam k v m = Some (ok, m') \<Longrightarrow> affectedCount m' = affectedCount m"
  unfolding corruptSetParam_def by (auto split: if_splits Option.bind_splits)

lemma reset_counts: "resetSetParam k v m = Some (ok, m') \<Longrightarrow> affectedCount m' = affectedCount m"
  unfolding resetSetParam_def by (auto simp: reset_trigger_def split: if_splits Option.bind_splits)

lemma bandwidth_counts: "bandwidthSetParam k v m = Some (ok, m') \<Longrightarrow> affectedCount m' = affectedCount m \<and> bufSize m' = bufSize m"
  unfolding bandwidthSetParam_def by (auto split: if_splits Option.bind_splits)

lemma set_lag_readings: "keeps_readings set_lag"
  unfolding keeps_readings_def set_lag_def by (fastforce simp: readings_def affected_counts_def dest: lag_counts)

lemma set_jitter_readings: "keeps_readings set_jitter"
  unfolding keeps_readings_def set_jitter_def by (fastforce simp: readings_def affected_counts_def dest: jitter_counts)

lemma set_drop_readings: "keeps_readings set_drop"
  unfolding keeps_readings_def set_drop_def by (fastforce simp: readings_def affected_counts_def dest: drop_counts)

lemma set_burstloss_readings: "keeps_readings set_burstloss"
  unfolding keeps_readings_def set_burstloss_def by (fastforce simp: readings_def affected_counts_def dest: burstloss_counts)

lemma set_blackout_readings: "keeps_readings set_blackout"
  unfolding keeps_readings_def set_blackout_def by (fastforce simp: readings_def affected_counts_def dest: blackout_counts)

lemma set_throttle_readings: "keeps_readings set_throttle"
  unfolding keeps_readings_def set_throttle_def by (fastforce simp: readings_def affected_counts_def dest: throttle_counts)

lemma set_dup_readings: "keeps_readings set_dup"
  unfolding keeps_readings_def set_dup_def by (fastforce simp: readings_def affected_counts_def dest: dup_counts)

lemma set_ood_readings: "keeps_readings set_ood"
  unfolding keeps_readings_def set_ood_def by (fastforce simp: readings_def affected_counts_def dest: ood_counts)

lemma set_tamper_readings: "keeps_readings set_tamper"
  unfolding keeps_readings_def set_tamper_def by (fastforce simp: readings_def affected_counts_def dest: tamper_counts)

lemma set_corrupt_readings: "keeps_readings set_corrupt"
  unfolding keeps_readings_def set_corrupt_def by (fastforce simp: readings_def affected_counts_def dest: corrupt_counts)

lemma set_reset_readings: "keeps_readings set_reset"
  unfolding keeps_readings_def set_reset_def by (fastforce simp: readings_def affected_counts_def dest: reset_counts)

lemma set_bandwidth_readings: "keeps_readings set_bandwidth"
  unfolding keeps_readings_def set_bandwidth_def by (fastforce simp: readings_def affected_counts_def dest: bandwidth_counts)

lemma try_setters_readings:
  "list_all keeps_readings fs \<Longrightarrow> try_setters fs k v s = Some (ok, s') \<Longrightarrow> readings s' = readings s"
proof (induction fs k v s rule: try_setters.induct)
  case (2 f fs k v s)
  then obtain ok1 s1 where f: "f k v s = Some (ok1, s1)" by (auto split: option.splits)
  then have "readings s1 = readings s" using 2 by (auto simp: keeps_readings_def)
  then show ?case using 2 f by (cases ok1) auto
qed simp

lemma set_enabled_readings: "set_enabled key b s = Some s' \<Longrightarrow> readings s' = readings s"
  unfolding set_enabled_def by (elim if_SomeE) (simp_all add: readings_def affected_counts_def)

lemma setters_readings: "list_all keeps_readings setters"
  by (simp add: setters_def set_lag_readings set_jitter_readings set_drop_readings set_burstloss_readings set_blackout_readings
      set_throttle_readings set_dup_readings set_ood_readings set_tamper_readings set_corrupt_readings set_reset_readings
      set_bandwidth_readings)

lemma applyModuleKV_readings: "applyModuleKV k v s = Some (ok, s') \<Longrightarrow> readings s' = readings s"
  unfolding applyModuleKV_def
  by (auto split: option.splits dest: set_enabled_readings try_setters_readings [OF setters_readings])

lemma apply_all_readings: "apply_all kvs s = Some s' \<Longrightarrow> readings s' = readings s"
  by (induction kvs s rule: apply_all.induct) (auto split: Option.bind_splits dest: applyModuleKV_readings)

lemma readMetric_cong:
  assumes "readings s' = readings s" "mods.more s' = mods.more s"
  shows "readMetric name elapsed pps s' = readMetric name elapsed pps s"
proof -
  have "statsCapturedTotal s' = statsCapturedTotal s" "statsSentTotal s' = statsSentTotal s"
    using assms(2) by (cases s; cases s'; simp)+
  then show ?thesis using assms(1)
    by (simp add: readMetric_def readings_def lagGetBufSize_def jitterGetBufSize_def bandwidthGetBufSize_def)
qed

lemma step_due_apply:
  "apply_all kvs s = Some s' \<Longrightarrow> step_due now elapsed pps s' x = step_due now elapsed pps s x"
  using apply_all_same_run [of kvs s s'] apply_all_readings [of kvs s s'] readMetric_cong [of s' s]
  by (simp add: step_due_def same_run_def)

subsection \<open>One tick\<close>

text \<open>What a tick makes of a step, given whether it is due.\<close>

definition step_next :: "bool \<Rightarrow> u32 \<Rightarrow> scenario_step \<Rightarrow> scenario_step" where
  "step_next due now x =
     (if \<not> step_done x \<and> due then retireStep now (x\<lparr>fireCount := fireCount x + 1\<rparr>) else x)"

lemma tick_steps_spec:
  "tick_steps now elapsed pps xs n s =
     (let due = step_due now elapsed pps s;
          xs' = map (\<lambda>x. step_next (due x) now x) xs
      in map_option (\<lambda>s'. (xs', n + length (filter (\<lambda>x. \<not> step_done x) xs'), s'))
           (apply_all (concat (map step_params (filter (\<lambda>x. \<not> step_done x \<and> due x) xs))) s))"
proof (induction xs arbitrary: n s)
  case (Cons x r)
  consider (spent) "step_done x" | (idle) "\<not> step_done x" "\<not> step_due now elapsed pps s x"
    | (fire) "\<not> step_done x" "step_due now elapsed pps s x" by blast
  then show ?case
  proof cases
    case spent
    then show ?thesis by (simp add: Cons.IH Let_def step_next_def option.map_comp o_def)
  next
    case idle
    then show ?thesis by (simp add: Cons.IH Let_def step_next_def option.map_comp o_def)
  next
    case fire
    define y where "y = retireStep now (x\<lparr>fireCount := fireCount x + 1\<rparr>)"
    show ?thesis
    proof (cases "apply_all (step_params x) s")
      case None
      then show ?thesis using fire by (simp add: applyStep_def apply_all_append)
    next
      case (Some t)
      then have d: "step_due now elapsed pps t = step_due now elapsed pps s"
        using step_due_apply by blast
      have t: "tick_steps now elapsed pps (x # r) n s =
          map_option (\<lambda>(r, out). (y # r, out)) (tick_steps now elapsed pps r (n + (if step_done y then 0 else 1)) t)"
        using fire Some by (simp add: applyStep_def y_def Let_def)
      show ?thesis unfolding t Cons.IH d
        using fire Some by (simp add: Let_def step_next_def apply_all_append option.map_comp o_def y_def)
    qed
  qed
qed simp

text \<open>Whether a step is due, decided on the state at the beginning of the tick.\<close>

definition due_at :: "scenario \<Rightarrow> u32 \<Rightarrow> ('k, 'a) divert_scheme \<Rightarrow> scenario_step \<Rightarrow> bool" where
  "due_at sc now s = step_due now (now - startMs sc) (lastPps (refresh_pps now (statsCapturedTotal s) sc)) s"

lemma step_due_denv: "step_due now elapsed pps (s\<lparr>denv := e\<rparr>) = step_due now elapsed pps s"
  by (rule ext) (simp add: step_due_def readMetric_def affected_counts_def)

lemma refresh_pps_keeps [simp]: "steps (refresh_pps now n sc) = steps sc" "startMs (refresh_pps now n sc) = startMs sc"
    "active (refresh_pps now n sc) = active sc"
  by (simp_all add: refresh_pps_def)

lemma scenarioTick_steps:
  assumes tick: "scenarioTick sc s = Some (sc', s')" and on: "active sc" "steps sc \<noteq> []"
    and clock: "timeGetTime (denv s) = (now, e)"
  shows "apply_all (concat (map step_params (filter (\<lambda>x. \<not> step_done x \<and> due_at sc now s x) (steps sc)))) (s\<lparr>denv := e\<rparr>) = Some s'"
    and "steps sc' = map (\<lambda>x. step_next (due_at sc now s x) now x) (steps sc)"
    and "active sc' \<longleftrightarrow> (\<exists>x\<in>set (steps sc'). \<not> step_done x)" and "startMs sc' = startMs sc"
proof -
  define sc1 where "sc1 = refresh_pps now (statsCapturedTotal s) sc"
  have d: "step_due now (now - startMs sc) (lastPps sc1) (s\<lparr>denv := e\<rparr>) = due_at sc now s"
    by (simp add: fun_eq_iff step_due_denv due_at_def sc1_def)
  obtain xs n where t: "tick_steps now (now - startMs sc) (lastPps sc1) (steps sc) 0 (s\<lparr>denv := e\<rparr>) = Some (xs, n, s')"
    and sc': "sc' = (if n = 0 then sc1\<lparr>steps := xs, active := False\<rparr> else sc1\<lparr>steps := xs\<rparr>)"
  proof -
    have u: "scenarioTick sc s =
        (case tick_steps now (now - startMs sc) (lastPps sc1) (steps sc) 0 (s\<lparr>denv := e\<rparr>) of None \<Rightarrow> None
         | Some (xs, n, s) \<Rightarrow> Some (if n = 0 then sc1\<lparr>steps := xs, active := False\<rparr> else sc1\<lparr>steps := xs\<rparr>, s))"
    proof -
      have k: "statsCapturedTotal (s\<lparr>denv := e\<rparr>) = statsCapturedTotal s" by simp
      have "steps sc1 = steps sc" by (simp add: sc1_def)
      then show ?thesis using on unfolding scenarioTick_def clock prod.case Let_def k sc1_def [symmetric] by simp
    qed
    show thesis
    proof (cases "tick_steps now (now - startMs sc) (lastPps sc1) (steps sc) 0 (s\<lparr>denv := e\<rparr>)")
      case None
      then show thesis using tick u by simp
    next
      case (Some r)
      then show thesis using tick u that by (cases r) simp
    qed
  qed
  from t show "apply_all (concat (map step_params (filter (\<lambda>x. \<not> step_done x \<and> due_at sc now s x) (steps sc)))) (s\<lparr>denv := e\<rparr>) = Some s'"
    by (simp add: tick_steps_spec d Let_def)
  from t have xs: "xs = map (\<lambda>x. step_next (due_at sc now s x) now x) (steps sc)" "n = length (filter (\<lambda>x. \<not> step_done x) xs)"
    by (auto simp: tick_steps_spec d Let_def)
  have sc1: "active sc1" "startMs sc1 = startMs sc" using on by (simp_all add: sc1_def)
  show "steps sc' = map (\<lambda>x. step_next (due_at sc now s x) now x) (steps sc)" by (simp add: sc' xs(1))
  show "active sc' \<longleftrightarrow> (\<exists>x\<in>set (steps sc'). \<not> step_done x)"
    using sc1 by (simp add: sc' xs(2) filter_empty_conv)
  show "startMs sc' = startMs sc" using sc1 by (simp add: sc')
qed

subsection \<open>A whole run\<close>

text \<open>
  \<open>ran sc0 ts sc s\<close>: the scenario \<open>sc0\<close> was started and ticked at the times \<open>ts\<close>; it is now \<open>sc\<close>, and the
  capture is in state \<open>s\<close>. Between two ticks anything may happen to the capture.
\<close>

inductive ran :: "scenario \<Rightarrow> u32 list \<Rightarrow> scenario \<Rightarrow> ('k, 'a) divert_scheme \<Rightarrow> bool" for sc0 where
  started: "steps sc0 \<noteq> [] \<Longrightarrow> scenarioStart sc0 s = (sc, s') \<Longrightarrow> ran sc0 [] sc s'"
| meanwhile: "ran sc0 ts sc s \<Longrightarrow> ran sc0 ts sc s'"
| ticked: "ran sc0 ts sc s \<Longrightarrow> active sc \<Longrightarrow> timeGetTime (denv s) = (now, e) \<Longrightarrow> scenarioTick sc s = Some (sc', s') \<Longrightarrow>
    ran sc0 (ts @ [now]) sc' s'"

lemma ran_steps_nonempty: "ran sc0 ts sc s \<Longrightarrow> steps sc \<noteq> []"
  by (induction rule: ran.induct) (auto simp: scenarioStart_def scenarioTick_steps(2) split: prod.splits if_splits)

text \<open>What holds of every fresh step and is kept by a tick holds of every step throughout the run.\<close>

lemma ran_steps:
  assumes ran: "ran sc0 ts sc s"
    and fresh: "\<And>start x. x \<in> set (steps sc0) \<Longrightarrow> P start [] (x\<lparr>fireCount := 0, step_done := False, nextFireMs := 0\<rparr>)"
    and tick: "\<And>start ts x now due. P start ts x \<Longrightarrow> (nextFireMs x \<noteq> 0 \<Longrightarrow> due \<longleftrightarrow> nextFireMs x \<le> now) \<Longrightarrow>
      (nextFireMs x = 0 \<Longrightarrow> triggerType x = TRIGGER_TIME \<Longrightarrow> due \<longleftrightarrow> word_of_int (atSec x) \<le> (now - start) div 1000) \<Longrightarrow>
      P start (ts @ [now]) (step_next due now x)"
  shows "\<forall>x\<in>set (steps sc). P (startMs sc) ts x"
  using ran
proof (induction rule: ran.induct)
  case (started s sc s')
  then show ?case using fresh by (auto simp: scenarioStart_def split: prod.splits)
next
  case (ticked ts sc s now e sc' s')
  note t = scenarioTick_steps [OF ticked(4) ticked(2) ran_steps_nonempty [OF ticked(1)] ticked(3)]
  have "P (startMs sc) (ts @ [now]) (step_next (due_at sc now s x) now x)" if "x \<in> set (steps sc)" for x
    by (rule tick) (use ticked(5) that in \<open>auto simp: due_at_def step_due_def\<close>)
  then show ?case by (simp add: t)
qed

lemma ran_active: "ran sc0 ts sc s \<Longrightarrow> active sc \<longleftrightarrow> ts = [] \<or> (\<exists>x\<in>set (steps sc). \<not> step_done x)"
  by (induction rule: ran.induct)
    (auto simp: scenarioStart_def scenarioTick_steps(3) ran_steps_nonempty split: prod.splits)

text \<open>How often a step may still fire.\<close>

definition spent :: "scenario_step \<Rightarrow> bool" where
  "spent x \<longleftrightarrow> 0 < fireCount x \<and> \<not> (0 < repeatSec x \<and> (maxTimes x \<le> 0 \<or> fireCount x < maxTimes x))"

definition within_budget :: "scenario_step \<Rightarrow> bool" where
  "within_budget x \<longleftrightarrow> 0 \<le> fireCount x \<and> (step_done x \<longleftrightarrow> spent x) \<and> (repeatSec x \<le> 0 \<longrightarrow> fireCount x \<le> 1) \<and>
     (0 < maxTimes x \<longrightarrow> fireCount x \<le> maxTimes x)"

lemma within_budget_next: "within_budget x \<Longrightarrow> within_budget (step_next due now x)"
  by (auto simp: within_budget_def spent_def step_next_def retireStep_def)

definition reached :: "u32 \<Rightarrow> u32 list \<Rightarrow> scenario_step \<Rightarrow> bool" where
  "reached start ts x \<longleftrightarrow> (\<exists>t\<in>set ts. word_of_int (atSec x) \<le> (t - start) div 1000)"

definition on_time :: "u32 \<Rightarrow> u32 list \<Rightarrow> scenario_step \<Rightarrow> bool" where
  "on_time start ts x \<longleftrightarrow> within_budget x \<and> (repeatSec x \<le> 0 \<longrightarrow> nextFireMs x = 0) \<and>
     (fireCount x = 0 \<longrightarrow> nextFireMs x = 0) \<and>
     (triggerType x = TRIGGER_TIME \<longrightarrow> (0 < fireCount x \<longleftrightarrow> reached start ts x))"

lemma on_time_next:
  assumes x: "on_time start ts x"
    and rearmed: "nextFireMs x \<noteq> 0 \<Longrightarrow> due \<longleftrightarrow> nextFireMs x \<le> now"
    and timed: "nextFireMs x = 0 \<Longrightarrow> triggerType x = TRIGGER_TIME \<Longrightarrow> due \<longleftrightarrow> word_of_int (atSec x) \<le> (now - start) div 1000"
  shows "on_time start (ts @ [now]) (step_next due now x)"
proof -
  have b: "within_budget (step_next due now x)" using x within_budget_next by (auto simp: on_time_def)
  have r: "reached start (ts @ [now]) (step_next due now x) \<longleftrightarrow>
      reached start ts x \<or> word_of_int (atSec x) \<le> (now - start) div 1000"
    by (auto simp: reached_def step_next_def retireStep_def)
  have "fireCount x = 0 \<Longrightarrow> \<not> step_done x" "0 \<le> fireCount x" using x by (auto simp: on_time_def within_budget_def spent_def)
  then show ?thesis using x b timed unfolding on_time_def r
    by (cases "fireCount x = 0") (auto simp: step_next_def retireStep_def)
qed

lemma ran_on_time: "ran sc0 ts sc s \<Longrightarrow> \<forall>x\<in>set (steps sc). on_time (startMs sc) ts x"
proof (erule ran_steps)
  show "on_time start [] (x\<lparr>fireCount := 0, step_done := False, nextFireMs := 0\<rparr>)" for start x
    by (simp add: on_time_def within_budget_def spent_def reached_def)
next
  show "on_time start (ts @ [now]) (step_next due now x)"
    if "on_time start ts x" "nextFireMs x \<noteq> 0 \<Longrightarrow> due = (nextFireMs x \<le> now)"
      "nextFireMs x = 0 \<Longrightarrow> triggerType x = TRIGGER_TIME \<Longrightarrow> due = (word_of_int (atSec x) \<le> (now - start) div 1000)"
    for start ts x now due
    using that by (rule on_time_next)
qed

text \<open>The times are those of a clock that did not wrap, with room for one more interval of the step.\<close>

definition no_wrap :: "u32 \<Rightarrow> u32 list \<Rightarrow> scenario_step \<Rightarrow> bool" where
  "no_wrap start ts x \<longleftrightarrow> (\<forall>t\<in>set ts. start \<le> t \<and> unat t + nat (repeatSec x) * 1000 < 2 ^ 32)"

definition paced :: "u32 \<Rightarrow> u32 list \<Rightarrow> scenario_step \<Rightarrow> bool" where
  "paced start ts x \<longleftrightarrow> 0 \<le> fireCount x \<and> (0 < repeatSec x \<longrightarrow> no_wrap start ts x \<longrightarrow>
     (0 < fireCount x \<longrightarrow> (\<exists>t\<in>set ts. nat (fireCount x - 1) * (nat (repeatSec x) * 1000) \<le> unat t - unat start)) \<and>
     (0 < fireCount x \<and> \<not> step_done x \<longrightarrow>
        unat start + nat (fireCount x) * (nat (repeatSec x) * 1000) \<le> unat (nextFireMs x)))"

lemma next_fire:
  fixes now :: u32
  assumes "0 < r" "unat now + nat r * 1000 < 2 ^ 32"
  shows "unat (now + word_of_int r * 1000) = unat now + nat r * 1000"
proof -
  have e: "word_of_int r * 1000 = (of_nat (nat r * 1000) :: u32)" using assms(1) by (simp add: of_nat_nat less_imp_le)
  have "unat (of_nat (nat r * 1000) :: u32) = nat r * 1000" using assms(2) by (simp only: unat_of_nat) simp
  then show ?thesis using assms(2) unfolding e by (simp only: unat_word_ariths) simp
qed

lemma paced_next:
  assumes x: "paced start ts x" and rearmed: "nextFireMs x \<noteq> 0 \<Longrightarrow> due \<longleftrightarrow> nextFireMs x \<le> now"
  shows "paced start (ts @ [now]) (step_next due now x)"
proof (cases "\<not> step_done x \<and> due")
  case False
  then have "step_next due now x = x" by (auto simp: step_next_def)
  then show ?thesis using x by (auto simp: paced_def no_wrap_def)
next
  case True
  define c where "c = fireCount x"
  define r where "r = nat (repeatSec x) * 1000"
  have c: "0 \<le> c" using x by (simp add: c_def paced_def)
  have count: "fireCount (step_next due now x) = c + 1" "repeatSec (step_next due now x) = repeatSec x"
    using True by (simp_all add: step_next_def retireStep_def c_def)
  have "(\<exists>t\<in>set (ts @ [now]). nat (c + 1 - 1) * r \<le> unat t - unat start) \<and>
      (\<not> step_done (step_next due now x) \<longrightarrow> unat start + nat (c + 1) * r \<le> unat (nextFireMs (step_next due now x)))"
    if rep: "0 < repeatSec x" and wrap: "no_wrap start (ts @ [now]) (step_next due now x)"
  proof -
    have w: "no_wrap start ts x" "start \<le> now" "unat now + r < 2 ^ 32"
      using wrap count(2) by (simp_all add: no_wrap_def r_def)
    have r: "0 < r" using rep by (simp add: r_def)
    have gap: "unat start + nat c * r \<le> unat now"
    proof (cases "c = 0")
      case True
      then show ?thesis using w(2) by (simp add: word_le_nat_alt)
    next
      case False
      then have n: "unat start + nat c * r \<le> unat (nextFireMs x)"
        using x True rep w(1) c by (simp add: paced_def c_def r_def)
      then have "nextFireMs x \<noteq> 0" using False c r by (auto simp: unat_eq_0)
      then have "nextFireMs x \<le> now" using rearmed True by simp
      then show ?thesis using n by (simp add: word_le_nat_alt)
    qed
    have "nextFireMs (step_next due now x) = now + word_of_int (repeatSec x) * 1000" if "\<not> step_done (step_next due now x)"
      using that True by (auto simp: step_next_def retireStep_def split: if_splits)
    moreover have "unat (now + word_of_int (repeatSec x) * 1000) = unat now + r"
      using next_fire [OF rep] w(3) by (simp add: r_def)
    moreover have "nat (c + 1) = nat c + 1" using c by simp
    ultimately show ?thesis using gap by auto
  qed
  then show ?thesis using c by (simp add: paced_def count r_def)
qed

lemma ran_paced: "ran sc0 ts sc s \<Longrightarrow> \<forall>x\<in>set (steps sc). paced (startMs sc) ts x"
proof (erule ran_steps)
  show "paced start [] (x\<lparr>fireCount := 0, step_done := False, nextFireMs := 0\<rparr>)" for start x
    by (simp add: paced_def)
next
  show "paced start (ts @ [now]) (step_next due now x)"
    if "paced start ts x" "nextFireMs x \<noteq> 0 \<Longrightarrow> due = (nextFireMs x \<le> now)"
      "nextFireMs x = 0 \<Longrightarrow> triggerType x = TRIGGER_TIME \<Longrightarrow> due = (word_of_int (atSec x) \<le> (now - start) div 1000)"
    for start ts x now due
    using that(1,2) by (rule paced_next)
qed

lemma apply_all_capture_inv: "apply_all kvs s = Some s' \<Longrightarrow> capture_inv ids s \<Longrightarrow> capture_inv ids s'"
proof -
  assume a: "apply_all kvs s = Some s'" and inv: "capture_inv ids s"
  have sr: "same_run s s'" by (rule apply_all_same_run [OF a])
  then have "held_all s' = held_all s" by (simp add: same_run_def held_all_def)
  moreover have "main_list s' = main_list s" "filterProg s' = filterProg s" "clockThread s' = clockThread s" "denv s' = denv s"
    using sr more_fields [of s' s] more_denv [of s' s] by (simp_all add: same_run_def)
  ultimately show ?thesis using sr inv by (simp add: capture_inv_def same_run_def)
qed

subsection \<open>A small scenario\<close>

definition demo_step :: scenario_step where
  "demo_step = blank_step\<lparr>atSec := 0, repeatSec := 30, step_params := [(''lag'', ''true'')]\<rparr>"

definition demo :: scenario where
  "demo = scenario_init\<lparr>steps := [demo_step]\<rparr>"

definition demo_started :: scenario where
  "demo_started = demo\<lparr>startMs := 1000, active := True, prevPpsMs := 1000\<rparr>"

definition demo_ticked :: scenario where
  "demo_ticked = demo_started\<lparr>steps := [demo_step\<lparr>fireCount := 1, nextFireMs := 31000\<rparr>]\<rparr>"

definition clock_read :: "nat \<Rightarrow> tables divert" where
  "clock_read n = idle_divert\<lparr>denv := (denv idle_divert)\<lparr>clock_pos := n\<rparr>\<rparr>"

lemma clock_read_clock: "timeGetTime (denv (clock_read n)) = (1000, denv (clock_read (Suc n)))"
  "(clock_read n)\<lparr>denv := denv (clock_read m)\<rparr> = clock_read m" "idle_divert = clock_read 0"
  by (simp_all add: clock_read_def idle_divert_def timeGetTime_def env_at_def mods.defs)

lemma demo_start: "scenarioStart demo (clock_read 0) = (demo_started, clock_read 1)"
  by (simp add: scenarioStart_def demo_def scenario_init_def clock_read_clock demo_started_def demo_step_def blank_step_def)
    (simp add: clock_read_def idle_divert_def mods.defs)

definition lag_on :: "tables divert" where
  "lag_on = (clock_read 2)\<lparr>m_lag := (m_lag (clock_read 2))\<lparr>enabledFlag := True\<rparr>\<rparr>"

lemma demo_tick: "scenarioTick demo_started (clock_read 1) = Some (demo_ticked, lag_on)"
proof -
  have due: "step_due 1000 0 pps s demo_step" for pps and s :: "tables divert"
    by (simp add: step_due_def demo_step_def blank_step_def)
  have app: "apply_all (step_params demo_step) (clock_read 2) = Some lag_on"
    by (simp add: demo_step_def applyModuleKV_def set_enabled_def parseBoolValue_def lag_on_def)
  have ret: "retireStep 1000 (demo_step\<lparr>fireCount := fireCount demo_step + 1\<rparr>) = demo_step\<lparr>fireCount := 1, nextFireMs := 31000\<rparr>"
    and live: "\<not> step_done demo_step"
    by (simp_all add: retireStep_def demo_step_def blank_step_def)
  have pps: "refresh_pps 1000 n demo_started = demo_started" for n by (simp add: refresh_pps_def demo_started_def)
  have st: "active demo_started" "steps demo_started = [demo_step]" "startMs demo_started = 1000"
    by (simp_all add: demo_started_def demo_def)
  have ts: "tick_steps 1000 0 pps [demo_step] 0 (clock_read 2) = Some ([demo_step\<lparr>fireCount := 1, nextFireMs := 31000\<rparr>], 1, lag_on)" for pps
    by (simp add: tick_steps_spec Let_def due app live step_next_def ret)
  have c: "timeGetTime (denv (clock_read 1)) = (1000, denv (clock_read 2))" "(clock_read 1)\<lparr>denv := denv (clock_read 2)\<rparr> = clock_read 2"
    using clock_read_clock(1) [of 1] by (simp_all add: clock_read_clock(2) numeral_2_eq_2)
  have "scenarioTick demo_started (clock_read 1) =
      (case tick_steps 1000 (1000 - 1000) (lastPps demo_started) [demo_step] 0 (clock_read 2) of None \<Rightarrow> None
       | Some (xs, remaining, s) \<Rightarrow>
          Some (if remaining = 0 then demo_started\<lparr>steps := xs, active := False\<rparr> else demo_started\<lparr>steps := xs\<rparr>, s))"
    unfolding scenarioTick_def c(1) prod.case Let_def c(2) pps st(2,3) by (simp only: st(1) not_True_eq_False list.distinct simp_thms if_False)
  then show ?thesis by (simp only: ts diff_self option.case prod.case demo_ticked_def) simp
qed

lemma demo_ran: "ran demo [1000] demo_ticked lag_on"
proof -
  have "ran demo [] demo_started (clock_read 1)"
    by (rule started [OF _ demo_start]) (simp add: demo_def)
  then have "ran demo ([] @ [1000]) demo_ticked lag_on"
    by (rule ticked [OF _ _ clock_read_clock(1) demo_tick]) (simp add: demo_started_def)
  then show ?thesis by simp
qed

lemma demo_ticked_step: "steps demo_ticked = [demo_step\<lparr>fireCount := 1, nextFireMs := 31000\<rparr>]" "startMs demo_ticked = 1000"
  by (simp_all add: demo_ticked_def demo_started_def)

subsection \<open>Properties\<close>

definition loaded_step :: "scenario_step \<Rightarrow> bool" where
  "loaded_step x \<longleftrightarrow> step_typed x \<and> (triggerType x = TRIGGER_TIME \<longrightarrow> 0 \<le> atSec x)"

text \<open>C28: whatever text is loaded, at most \<open>MAX_STEPS\<close> steps come out of it, each of them fits the C structure (lengths
  of the metric name, the keys and the values, number of parameters, range of \<^verbatim>\<open>at\<close>) and a timed one has a time that is
  not negative; and the steps stand in the order of a stable sort of the file's steps by time, those with a
  condition last.\<close>

theorem scenario_loaded_typed:
  "length (steps (scenarioLoadString text sc)) \<le> MAX_STEPS \<and> list_all loaded_step (steps (scenarioLoadString text sc)) \<and>
   sortSteps xs = sort_key step_key xs \<and> sorted (map step_key (steps (scenarioLoadString text sc)))"
proof -
  have p: "length (parse_loop r []) \<le> MAX_STEPS \<and> (\<forall>x\<in>set (parse_loop r []). loaded_step x)" for r
    using parse_loop_typed [of "[]" loaded_step r] parse_step_typed by (auto simp: loaded_step_def)
  have "sorted (map step_key (sortSteps ys))" for ys using sortSteps_sorted [of ys] by (simp add: sorted_map)
  then show ?thesis using p
    by (simp add: scenarioLoadString_def scenarioParse_def sortSteps_sort_key [symmetric] list_all_iff split: option.splits list.splits)
qed

text \<open>C29: a tick fires the steps that are due on the state the tick began with, in their order, and no other: the
  parameters of exactly these steps are written, each of them is counted and retired or re-armed, no step sees
  what an earlier step of the same tick has changed, and the scenario stays active iff some step is
  not spent. The packets and verdicts of a running capture are not touched.\<close>

theorem scenario_tick_fires_due:
  assumes "scenarioTick sc s = Some (sc', s')" "active sc" "steps sc \<noteq> []" "timeGetTime (denv s) = (now, e)"
  shows "apply_all (concat (map step_params (filter (\<lambda>x. \<not> step_done x \<and> due_at sc now s x) (steps sc)))) (s\<lparr>denv := e\<rparr>) = Some s' \<and>
    steps sc' = map (\<lambda>x. step_next (due_at sc now s x) now x) (steps sc) \<and>
    (active sc' \<longleftrightarrow> (\<exists>x\<in>set (steps sc'). \<not> step_done x)) \<and> startMs sc' = startMs sc \<and>
    (\<forall>ids. capture_inv ids s \<longrightarrow> capture_inv ids s')"
proof -
  have "quiet (denv s) e" using assms(4) by (auto simp: quiet_def timeGetTime_def)
  then have "capture_inv ids s \<Longrightarrow> capture_inv ids s'" for ids
    using apply_all_capture_inv [OF scenarioTick_steps(1) [OF assms]] inv_env by blast
  then show ?thesis using scenarioTick_steps [OF assms] by simp
qed

theorem scenario_tick_fires_due_witness:
  "apply_all [(''lag'', ''true'')] (clock_read 2) = Some lag_on \<and> active demo_ticked"
  using scenario_tick_fires_due [OF demo_tick _ _ clock_read_clock(1)]
  by (simp add: demo_ticked_step due_at_def step_due_def demo_started_def demo_def demo_step_def blank_step_def
      clock_read_clock numeral_2_eq_2)

text \<open>C30: over any run of a scenario, whatever the capture does between the ticks: a timed step has fired iff at some tick
  its second had elapsed; a step without repetition fires at most once, one with a limit never more often than it
  says; a step is done exactly when it has fired as often as it may; and the scenario is active until all are done.\<close>

theorem scenario_schedule:
  assumes "ran sc0 ts sc s" "x \<in> set (steps sc)"
  shows "(triggerType x = TRIGGER_TIME \<longrightarrow> (0 < fireCount x \<longleftrightarrow> reached (startMs sc) ts x)) \<and>
    (repeatSec x \<le> 0 \<longrightarrow> fireCount x \<le> 1) \<and> (0 < maxTimes x \<longrightarrow> fireCount x \<le> maxTimes x) \<and>
    (step_done x \<longleftrightarrow> spent x) \<and> (active sc \<longleftrightarrow> ts = [] \<or> (\<exists>x\<in>set (steps sc). \<not> step_done x))"
  using ran_on_time [OF assms(1)] ran_active [OF assms(1)] assms(2)
  by (simp add: on_time_def within_budget_def)

theorem scenario_schedule_witness: "fireCount (hd (steps demo_ticked)) = 1 \<and> reached 1000 [1000] (hd (steps demo_ticked))"
  using scenario_schedule [OF demo_ran, of "hd (steps demo_ticked)"]
  by (simp add: demo_ticked_step) (simp add: demo_step_def blank_step_def)

text \<open>As long as the tick counter does not wrap, a repeating step keeps its pace: it has fired \<open>n + 1\<close> times only if at some tick
  at least \<open>n\<close> of its intervals had passed since the start.\<close>

theorem scenario_pace:
  assumes "ran sc0 ts sc s" "x \<in> set (steps sc)" "0 < repeatSec x" "no_wrap (startMs sc) ts x" "0 < fireCount x"
  shows "\<exists>t\<in>set ts. nat (fireCount x - 1) * (nat (repeatSec x) * 1000) \<le> unat t - unat (startMs sc)"
  using ran_paced [OF assms(1)] assms by (simp add: paced_def)

theorem scenario_pace_witness:
  "\<exists>t\<in>set [1000]. nat (fireCount (hd (steps demo_ticked)) - 1) * (nat (repeatSec (hd (steps demo_ticked))) * 1000) \<le> unat t - unat (1000 :: u32)"
  using scenario_pace [OF demo_ran, of "hd (steps demo_ticked)"]
  by (simp add: demo_ticked_step no_wrap_def)

text \<open>
  Across a wrap of the tick counter the pace is lost: a step that repeats every 30 seconds and fires shortly
  before the wrap is due again at the next tick, and one whose next time happens to be 0 counts as never armed.
\<close>

theorem wrap_breaks_pace:
  "nextFireMs (retireStep 0xFFFFFF00 demo_step) = 0x7430 \<and>
   step_due 0xFFFFFFC8 elapsed pps s (retireStep 0xFFFFFF00 demo_step) \<and>
   nextFireMs (retireStep (- 30000) demo_step) = 0"
  by (simp add: retireStep_def demo_step_def blank_step_def step_due_def)

end
