(* ===== verification/Pcap.thy ===== *)
theory Pcap
  imports Divert Number_Text "HOL-Library.Sublist"
begin

text \<open>
  \<^verbatim>\<open>src/src/pcapexport.cpp\<close> and \<^verbatim>\<open>src/src/pcapreplay.cpp\<close> with the replay sockets of \<^verbatim>\<open>divert_linux.cpp\<close>:
  writing the packets of a capture to a libpcap file, and reading such a file back onto the wire. A file is
  its bytes; the packed C structures are laid out as on a little-endian machine. Both sides guard their state with
  a lock, so every operation is one step. Log lines and the copies of the paths are left out.
\<close>

definition PCAP_MAGIC :: u32 where "PCAP_MAGIC = 0xa1b2c3d4"
definition PCAP_MAGIC_SWAPPED :: u32 where "PCAP_MAGIC_SWAPPED = 0xd4c3b2a1"
definition PCAP_MAGIC_NS :: u32 where "PCAP_MAGIC_NS = 0xa1b23c4d"
definition PCAP_MAGIC_NS_SWAP :: u32 where "PCAP_MAGIC_NS_SWAP = 0x4d3cb2a1"
definition LINKTYPE_ETHERNET :: u32 where "LINKTYPE_ETHERNET = 1"
definition LINKTYPE_RAW :: u32 where "LINKTYPE_RAW = 101"
definition LINKTYPE_IPV4 :: u32 where "LINKTYPE_IPV4 = 228"
definition LINKTYPE_IPV6 :: u32 where "LINKTYPE_IPV6 = 229"
definition PCAP_SNAPLEN :: nat where "PCAP_SNAPLEN = 65535"
definition REPLAY_MAX_PACKET :: nat where "REPLAY_MAX_PACKET = 65535"
definition PCAP_STAGE_PRE :: u32 where "PCAP_STAGE_PRE = 1"
definition PCAP_STAGE_POST :: u32 where "PCAP_STAGE_POST = 2"

lemmas pcap_constants = PCAP_MAGIC_def PCAP_MAGIC_SWAPPED_def PCAP_MAGIC_NS_def PCAP_MAGIC_NS_SWAP_def
  LINKTYPE_ETHERNET_def LINKTYPE_RAW_def LINKTYPE_IPV4_def LINKTYPE_IPV6_def

subsection \<open>Integers in memory\<close>

definition le16 :: "u16 \<Rightarrow> u8 list" where
  "le16 w = [ucast w, ucast (drop_bit 8 w)]"

definition le32 :: "u32 \<Rightarrow> u8 list" where
  "le32 w = [ucast w, ucast (drop_bit 8 w), ucast (drop_bit 16 w), ucast (drop_bit 24 w)]"

text \<open>The field at offset \<open>i\<close>.\<close>

definition field32 :: "nat \<Rightarrow> u8 list \<Rightarrow> u32" where
  "field32 i bs = ucast (bs ! i) OR push_bit 8 (ucast (bs ! (i + 1))) OR push_bit 16 (ucast (bs ! (i + 2))) OR
     push_bit 24 (ucast (bs ! (i + 3)))"

subsection \<open>Export\<close>

text \<open>
  The file is a stream of the C library, which buffers: \<open>pending\<close> are the bytes that have been written to the stream and not yet to
  the disk. When the library hands bytes to the disk, and whether the disk takes them, is the environment's choice, made anew for
  each call on the stream: \<open>(k, None)\<close>, the call succeeds, having handed \<open>k\<close> bytes over (a flush hands all over);
  \<open>(k, Some j)\<close>, the disk takes no more than \<open>k\<close> bytes, the call fails, and \<open>j\<close> of the rest stay in the buffer.
\<close>

type_synonym io = "nat \<times> nat option"

record pcap =
  pcapActive :: bool
  pcapFile :: "string option"
  pcapPackets :: int
  pcapBytes :: int
  pcapMaxPkts :: int
  pcapMaxBytes :: int
  pcapStage :: u32
  pending :: "u8 list"
  io_src :: "nat \<Rightarrow> io"
  io_pos :: nat
  disk :: "string \<Rightarrow> u8 list option"

definition resolveStage :: "string option \<Rightarrow> u32" where
  "resolveStage arg =
     (case arg of None \<Rightarrow> PCAP_STAGE_POST
      | Some s \<Rightarrow> if stricmp_eq s ''pre'' then PCAP_STAGE_PRE
                 else if stricmp_eq s ''both'' then PCAP_STAGE_PRE OR PCAP_STAGE_POST
                 else PCAP_STAGE_POST)"

definition next_io :: "pcap \<Rightarrow> io \<times> pcap" where
  "next_io st = (io_src st (io_pos st), st\<lparr>io_pos := io_pos st + 1\<rparr>)"

definition to_disk :: "string \<Rightarrow> u8 list \<Rightarrow> pcap \<Rightarrow> pcap" where
  "to_disk f bs st = st\<lparr>disk := (disk st)(f := map_option (\<lambda>old. old @ bs) (disk st f))\<rparr>"

text \<open>Whether all of \<open>bs\<close> was written to the stream.\<close>

definition fwrite :: "string \<Rightarrow> u8 list \<Rightarrow> pcap \<Rightarrow> bool \<times> pcap" where
  "fwrite f bs st =
     (case next_io st of ((k, lost), st) \<Rightarrow>
        let out = pending st @ bs; st = to_disk f (take k out) st in
        case lost of None \<Rightarrow> (True, st\<lparr>pending := drop k out\<rparr>)
        | Some j \<Rightarrow> (False, st\<lparr>pending := take j (drop k out)\<rparr>))"

text \<open>The program ignores what \<^verbatim>\<open>fflush\<close> and \<^verbatim>\<open>fclose\<close> return.\<close>

definition fflush :: "string \<Rightarrow> pcap \<Rightarrow> pcap" where
  "fflush f st =
     (case next_io st of ((k, lost), st) \<Rightarrow>
        case lost of None \<Rightarrow> (to_disk f (pending st) st)\<lparr>pending := []\<rparr>
        | Some j \<Rightarrow> (to_disk f (take k (pending st)) st)\<lparr>pending := take j (drop k (pending st))\<rparr>)"

definition fclose :: "string \<Rightarrow> pcap \<Rightarrow> pcap" where
  "fclose f st = (fflush f st)\<lparr>pending := [], pcapFile := None\<rparr>"

definition closeFileLocked :: "pcap \<Rightarrow> pcap" where
  "closeFileLocked st =
     (case pcapFile st of None \<Rightarrow> st
      | Some f \<Rightarrow> fclose f (fflush f (st\<lparr>pcapActive := False\<rparr>)))"

definition global_header :: "u8 list" where
  "global_header = le32 PCAP_MAGIC @ le16 2 @ le16 4 @ le32 0 @ le32 0 @ le32 (of_nat PCAP_SNAPLEN) @ le32 LINKTYPE_RAW"

text \<open>\<open>opens\<close>: the file can be opened for writing.\<close>

definition pcapExportStart :: "bool \<Rightarrow> string option \<Rightarrow> string \<Rightarrow> int \<Rightarrow> int \<Rightarrow> pcap \<Rightarrow> bool \<times> pcap" where
  "pcapExportStart opens stageArg path maxPackets maxBytes st =
     (if path = [] then (False, st)
      else
        (let st = closeFileLocked st in
         if \<not> opens then (False, st)
         else
           (case fwrite path global_header (st\<lparr>pending := [], disk := (disk st)(path := Some [])\<rparr>) of (ok, st) \<Rightarrow>
              if \<not> ok then (False, fclose path st)
              else
                (let st = fflush path st in
                 (True, st\<lparr>pcapFile := Some path, pcapPackets := 0, pcapBytes := 0,
                     pcapMaxPkts := (if maxPackets > 0 then maxPackets else 0),
                     pcapMaxBytes := (if maxBytes > 0 then maxBytes else 0),
                     pcapStage := resolveStage stageArg, pcapActive := True\<rparr>)))))"

definition pcapExportStop :: "pcap \<Rightarrow> pcap" where
  "pcapExportStop st = closeFileLocked st"

definition pcapExportIsActive :: "pcap \<Rightarrow> bool" where "pcapExportIsActive st = pcapActive st"
definition pcapExportCount :: "pcap \<Rightarrow> int" where "pcapExportCount st = pcapPackets st"
definition pcapExportBytes :: "pcap \<Rightarrow> int" where "pcapExportBytes st = pcapBytes st"

definition record_header :: "u64 \<Rightarrow> nat \<Rightarrow> nat \<Rightarrow> u8 list" where
  "record_header us stored len =
     le32 (ucast (us div 1000000)) @ le32 (ucast (us mod 1000000)) @ le32 (of_nat stored) @ le32 (of_nat len)"

text \<open>\<open>us\<close> is the wall clock.\<close>

definition pcapExportWriteStage :: "u64 \<Rightarrow> u32 \<Rightarrow> u8 list \<Rightarrow> pcap \<Rightarrow> pcap" where
  "pcapExportWriteStage us stage data st =
     (if \<not> pcapActive st \<or> data = [] then st
      else
        (case pcapFile st of None \<Rightarrow> st
         | Some f \<Rightarrow>
            if pcapStage st AND stage = 0 then st
            else if pcapMaxPkts st > 0 \<and> pcapMaxPkts st \<le> pcapPackets st \<or>
                    pcapMaxBytes st > 0 \<and> pcapMaxBytes st \<le> pcapBytes st
            then closeFileLocked st
            else
              (let stored = min PCAP_SNAPLEN (length data) in
               case fwrite f (record_header us stored (length data)) st of (ok, st) \<Rightarrow>
                 if \<not> ok then closeFileLocked st
                 else
                   (case fwrite f (take stored data) st of (ok, st) \<Rightarrow>
                      if \<not> ok then closeFileLocked st
                      else st\<lparr>pcapPackets := pcapPackets st + 1, pcapBytes := pcapBytes st + int stored\<rparr>))))"

subsection \<open>Reading a file\<close>

definition swap32 :: "u32 \<Rightarrow> u32" where
  "swap32 v = push_bit 24 (v AND 0x000000FF) OR push_bit 8 (v AND 0x0000FF00) OR
     drop_bit 8 (v AND 0x00FF0000) OR drop_bit 24 (v AND 0xFF000000)"

datatype open_error = CANNOT_OPEN | TOO_SHORT | NOT_PCAP u32 | LINK_TYPE u32

text \<open>The byte order and the link type of a file, \<open>None\<close> when it cannot be opened.\<close>

definition openAndValidate :: "u8 list option \<Rightarrow> open_error + bool \<times> u32" where
  "openAndValidate file =
     (case file of None \<Rightarrow> Inl CANNOT_OPEN
      | Some bs \<Rightarrow>
         if length bs < 24 then Inl TOO_SHORT
         else
           (let magic = field32 0 bs;
                swapped = (magic = PCAP_MAGIC_SWAPPED \<or> magic = PCAP_MAGIC_NS_SWAP);
                linkType = (if swapped then swap32 (field32 20 bs) else field32 20 bs)
            in if magic \<noteq> PCAP_MAGIC \<and> magic \<noteq> PCAP_MAGIC_NS \<and> \<not> swapped then Inl (NOT_PCAP magic)
               else if linkType \<noteq> LINKTYPE_RAW \<and> linkType \<noteq> LINKTYPE_ETHERNET \<and> linkType \<noteq> LINKTYPE_IPV4 \<and>
                       linkType \<noteq> LINKTYPE_IPV6 then Inl (LINK_TYPE linkType)
               else Inr (swapped, linkType)))"

definition ETHER_HEADER_LEN :: nat where
  "ETHER_HEADER_LEN = 14"

text \<open>Where the IP header starts; \<open>None\<close>: the frame carries no IP.\<close>

definition ipOffsetFor :: "u32 \<Rightarrow> u8 list \<Rightarrow> nat option" where
  "ipOffsetFor linkType frame =
     (if linkType = LINKTYPE_ETHERNET then
        (if length frame \<le> ETHER_HEADER_LEN then None
         else if [frame ! 12, frame ! 13] \<noteq> [0x08, 0x00] \<and> [frame ! 12, frame ! 13] \<noteq> [0x86, 0xDD] then None
         else Some ETHER_HEADER_LEN)
      else Some 0)"

text \<open>One record: its time in microseconds, its bytes, and the rest of the file. \<open>None\<close> ends the pass.\<close>

definition next_record :: "bool \<Rightarrow> u8 list \<Rightarrow> ((u64 \<times> u8 list) \<times> u8 list) option" where
  "next_record swapped bs =
     (if length bs < 16 then None
      else
        (let get = (\<lambda>i. if swapped then swap32 (field32 i bs) else field32 i bs);
             inclLen = unat (get 8)
         in if inclLen = 0 \<or> REPLAY_MAX_PACKET < inclLen then None
            else if length (drop 16 bs) < inclLen then None
            else Some ((ucast (get 0) * 1000000 + ucast (get 4), take inclLen (drop 16 bs)), drop inclLen (drop 16 bs))))"

lemma next_record_shorter: "next_record sw bs = Some (r, rest) \<Longrightarrow> length rest < length bs"
  by (auto simp: next_record_def Let_def split: if_splits)

text \<open>All records of a file behind its header.\<close>

function records :: "bool \<Rightarrow> u8 list \<Rightarrow> (u64 \<times> u8 list) list" where
  "records swapped bs =
     (case next_record swapped bs of None \<Rightarrow> [] | Some (r, rest) \<Rightarrow> r # records swapped rest)"
  by pat_completeness auto
termination
proof (relation "measure (\<lambda>(sw, bs). length bs)", goal_cases)
  case (2 swapped bs p r rest)
  then show ?case using next_record_shorter by fastforce
qed simp

declare records.simps [simp del]

subsection \<open>Injection\<close>

text \<open>The replay's own sockets. \<open>can4\<close>, \<open>can6\<close>, \<open>hdr6\<close>: what \<^verbatim>\<open>socket\<close> and \<^verbatim>\<open>setsockopt\<close> will say.\<close>

record replay_sockets =
  replaySocket :: bool
  replaySocket6 :: bool
  replayOpenFailed :: bool
  replayHdrIncl6 :: bool
  can4 :: bool
  can6 :: bool
  hdr6 :: bool

definition ensureReplaySockets :: "replay_sockets \<Rightarrow> bool \<times> replay_sockets" where
  "ensureReplaySockets k =
     (if replaySocket k \<or> replaySocket6 k then (True, k)
      else if replayOpenFailed k then (False, k)
      else
        (let k = k\<lparr>replaySocket := can4 k, replaySocket6 := can6 k\<rparr>;
             k = (if can6 k then k\<lparr>replayHdrIncl6 := hdr6 k\<rparr> else k)
         in if \<not> replaySocket k \<and> \<not> replaySocket6 k then (False, k\<lparr>replayOpenFailed := True\<rparr>)
            else (True, k)))"

text \<open>What is handed to \<^verbatim>\<open>sendto\<close>, if anything; \<open>send_ok\<close> is its answer.\<close>

definition packetBackendInject :: "bool \<Rightarrow> u8 list \<Rightarrow> bool \<Rightarrow> replay_sockets \<Rightarrow> bool \<times> raw_packet option \<times> replay_sockets" where
  "packetBackendInject send_ok p out k =
     (if length p < IPHDR then (False, None, k)
      else if \<not> out then (False, None, k)
      else
        (case ensureReplaySockets k of (ok, k) \<Rightarrow>
           if \<not> ok then (False, None, k)
           else if drop_bit 4 (p ! 0) = 6 then
             (if \<not> replaySocket6 k \<or> length p \<le> IP6_HDR then (False, None, k)
              else (send_ok, Some \<lparr>raw_v6 = True, raw_dst = take 16 (drop 24 p),
                     raw_data = (if replayHdrIncl6 k then p else drop IP6_HDR p)\<rparr>, k))
           else if \<not> replaySocket k then (False, None, k)
           else (send_ok, Some \<lparr>raw_v6 = False, raw_dst = take 4 (drop 16 p), raw_data = p\<rparr>, k)))"

definition packetBackendInjectClose :: "replay_sockets \<Rightarrow> replay_sockets" where
  "packetBackendInjectClose k =
     k\<lparr>replaySocket := False, replaySocket6 := False, replayOpenFailed := False, replayHdrIncl6 := False\<rparr>"

subsection \<open>The replay thread\<close>

text \<open>
  \<open>stop_src\<close>, \<open>tick_src\<close>, \<open>inject_src\<close> are what the thread finds when it reads \<^verbatim>\<open>replayStop\<close>, reads the
  clock and calls \<^verbatim>\<open>sendto\<close>; \<open>on_wire\<close> and \<open>slept\<close> are what it has sent and slept.
\<close>

record replay =
  replayActive :: bool
  replayStop :: bool
  replayThread :: bool
  replayReadCount :: nat
  replaySentCount :: nat
  replayFailedCount :: nat
  replayFilePath :: string
  replaySpeed :: double
  replayLoop :: bool
  sockets :: replay_sockets
  stop_src :: "nat \<Rightarrow> bool"
  stop_pos :: nat
  tick_src :: "nat \<Rightarrow> u32"
  tick_pos :: nat
  inject_src :: "nat \<Rightarrow> bool"
  inject_pos :: nat
  on_wire :: "raw_packet list"
  slept :: "nat list"

definition read_stop :: "replay \<Rightarrow> bool \<times> replay" where
  "read_stop r = (stop_src r (stop_pos r), r\<lparr>stop_pos := stop_pos r + 1\<rparr>)"

definition read_tick :: "replay \<Rightarrow> u32 \<times> replay" where
  "read_tick r = (tick_src r (tick_pos r), r\<lparr>tick_pos := tick_pos r + 1\<rparr>)"

text \<open>Milliseconds after the start at which a record is due; exact, where the code computes in doubles.\<close>

definition target_ms :: "u64 \<Rightarrow> u64 \<Rightarrow> double \<Rightarrow> rat" where
  "target_ms ts firstTs speed =
     (if firstTs \<le> ts then
        (case speed of Fin s \<Rightarrow> of_nat (unat (ts - firstTs)) / 1000 / s | _ \<Rightarrow> 0)
      else 0)"

function sleep_loop :: "rat \<Rightarrow> replay \<Rightarrow> replay" where
  "sleep_loop waitMs r =
     (if waitMs \<le> 0 then r
      else (case read_stop r of (stopped, r) \<Rightarrow>
        if stopped then r
        else
          (let chunk = (if waitMs > 100 then 100 else nat \<lfloor>waitMs\<rfloor>);
               chunk = (if chunk = 0 then 1 else chunk)
           in sleep_loop (waitMs - of_nat chunk) (r\<lparr>slept := slept r @ [chunk]\<rparr>))))"
  by pat_completeness auto
termination
proof (relation "measure (\<lambda>(w, r). nat \<lceil>w\<rceil>)", goal_cases)
  case (2 w r stopped s c chunk)
  have c: "1 \<le> chunk" unfolding 2(5) by simp
  have "\<lceil>w - of_nat chunk\<rceil> = \<lceil>w\<rceil> - int chunk" by (metis ceiling_diff_of_int of_int_of_nat_eq)
  moreover have "0 < \<lceil>w\<rceil>" using 2(1) by simp
  ultimately show ?case using c by simp
qed simp

declare sleep_loop.simps [simp del]

text \<open>\<^verbatim>\<open>packetBackendInject\<close> and the two counters.\<close>

definition inject_record :: "u8 list \<Rightarrow> replay \<Rightarrow> replay" where
  "inject_record p r =
     (case packetBackendInject (inject_src r (inject_pos r)) p True (sockets r) of (ok, sent, k) \<Rightarrow>
        (let r = r\<lparr>sockets := k\<rparr>;
             r = (case sent of None \<Rightarrow> r | Some w \<Rightarrow> r\<lparr>inject_pos := inject_pos r + 1, on_wire := on_wire r @ (if ok then [w] else [])\<rparr>)
         in if ok then r\<lparr>replaySentCount := replaySentCount r + 1\<rparr>
            else r\<lparr>replayFailedCount := replayFailedCount r + 1\<rparr>))"

text \<open>The body of the loop for one record: \<open>True\<close> when the loop goes on.\<close>

definition replay_record :: "u32 \<Rightarrow> double \<Rightarrow> u32 \<Rightarrow> u64 \<Rightarrow> u64 \<times> u8 list \<Rightarrow> replay \<Rightarrow> bool \<times> replay" where
  "replay_record linkType speed wallStart firstTs rec r =
     (let r = r\<lparr>replayReadCount := replayReadCount r + 1\<rparr>;
          targetMs = target_ms (fst rec) firstTs speed
      in case read_tick r of (now, r) \<Rightarrow>
        let elapsed = of_nat (unat (now - wallStart));
            r = (if targetMs > elapsed then sleep_loop (targetMs - elapsed) r else r)
        in case read_stop r of (stopped, r) \<Rightarrow>
          if stopped then (False, r)
          else
            (case ipOffsetFor linkType (snd rec) of
               None \<Rightarrow> (True, r\<lparr>replayFailedCount := replayFailedCount r + 1\<rparr>)
             | Some off \<Rightarrow> (True, inject_record (drop off (snd rec)) r)))"

text \<open>One pass over the file; \<open>first\<close> is \<^verbatim>\<open>firstTs\<close> once it is known.\<close>

function replay_pass :: "bool \<Rightarrow> u32 \<Rightarrow> double \<Rightarrow> u32 \<Rightarrow> u64 option \<Rightarrow> u8 list \<Rightarrow> replay \<Rightarrow> replay" where
  "replay_pass swapped linkType speed wallStart first bs r =
     (case read_stop r of (stopped, r) \<Rightarrow>
        if stopped then r
        else
          (case next_record swapped bs of None \<Rightarrow> r
           | Some (rec, rest) \<Rightarrow>
              let firstTs = (case first of None \<Rightarrow> fst rec | Some t \<Rightarrow> t)
              in case replay_record linkType speed wallStart firstTs rec r of (go_on, r) \<Rightarrow>
                 if go_on then replay_pass swapped linkType speed wallStart (Some firstTs) rest r else r))"
  by pat_completeness auto
termination
proof (relation "measure (\<lambda>(sw, lt, sp, ws, f, bs, r). length bs)", goal_cases)
  case 2
  then show ?case using next_record_shorter by fastforce
qed simp

declare replay_pass.simps [simp del]

text \<open>The \<^verbatim>\<open>do\<close>-\<^verbatim>\<open>while\<close> loop over passes, at most \<open>n\<close> of them: a looping replay ends only when it is stopped.\<close>

fun replay_passes :: "nat \<Rightarrow> (string \<Rightarrow> u8 list option) \<Rightarrow> replay \<Rightarrow> replay" where
  "replay_passes 0 files r = r"
| "replay_passes (Suc n) files r =
     (case openAndValidate (files (replayFilePath r)) of Inl _ \<Rightarrow> r
      | Inr (swapped, linkType) \<Rightarrow>
         (case read_tick r of (wallStart, r) \<Rightarrow>
            let r = replay_pass swapped linkType (replaySpeed r) wallStart None
                      (drop 24 (the (files (replayFilePath r)))) r
            in if \<not> replayLoop r then r
               else (case read_stop r of (stopped, r) \<Rightarrow> if stopped then r else replay_passes n files r)))"

text \<open>What the thread does last.\<close>

definition replay_finish :: "replay \<Rightarrow> replay" where
  "replay_finish r = r\<lparr>sockets := packetBackendInjectClose (sockets r), replayActive := False\<rparr>"

datatype replay_error = NO_FILE | ALREADY_RUNNING | BAD_FILE open_error | NO_THREAD

definition pcapReplayStart :: "(string \<Rightarrow> u8 list option) \<Rightarrow> bool \<Rightarrow> string \<Rightarrow> double \<Rightarrow> bool \<Rightarrow> replay \<Rightarrow> replay_error option \<times> replay" where
  "pcapReplayStart files creates path speed loopForever r =
     (if path = [] then (Some NO_FILE, r)
      else if replayActive r then (Some ALREADY_RUNNING, r)
      else
        (case openAndValidate (files path) of Inl e \<Rightarrow> (Some (BAD_FILE e), r)
         | Inr _ \<Rightarrow>
            (let r = r\<lparr>replayThread := False, replayFilePath := take 511 path,
                   replaySpeed := (if double_less (Fin 0) speed then speed else Fin 1), replayLoop := loopForever,
                   replayReadCount := 0, replaySentCount := 0, replayFailedCount := 0, replayStop := False, replayActive := True\<rparr>
             in if creates then (None, r\<lparr>replayThread := True\<rparr>)
                else (Some NO_THREAD, r\<lparr>replayActive := False\<rparr>))))"

text \<open>Sets the flag and takes the handle; waiting for the thread changes nothing here.\<close>

definition pcapReplayStop :: "replay \<Rightarrow> replay" where
  "pcapReplayStop r = r\<lparr>replayStop := True, replayThread := False\<rparr>"

definition pcapReplayIsActive :: "replay \<Rightarrow> bool" where "pcapReplayIsActive r = replayActive r"
definition pcapReplayRead :: "replay \<Rightarrow> nat" where "pcapReplayRead r = replayReadCount r"
definition pcapReplaySent :: "replay \<Rightarrow> nat" where "pcapReplaySent r = replaySentCount r"
definition pcapReplayFailed :: "replay \<Rightarrow> nat" where "pcapReplayFailed r = replayFailedCount r"

subsection \<open>Fields are read back\<close>

lemma le32_length [simp]: "length (le32 w) = 4" "length (le16 v) = 2"
  by (simp_all add: le32_def le16_def)

lemma field32_le32: "field32 0 (le32 w @ x) = w"
proof (rule bit_word_eqI)
  fix n assume "n < LENGTH(32)"
  then consider "n < 8" | "8 \<le> n" "n < 16" | "16 \<le> n" "n < 24" | "24 \<le> n" "n < 32"
    using not_less by fastforce
  then show "bit (field32 0 (le32 w @ x)) n \<longleftrightarrow> bit w n"
    by cases (auto simp: field32_def le32_def bit_simps)
qed

lemma field32_skip: "field32 (length a + i) (a @ b) = field32 i b"
  by (simp add: field32_def nth_append)

lemma field32_at: "length a = i \<Longrightarrow> field32 i (a @ le32 w @ x) = w"
  using field32_skip [of a 0 "le32 w @ x"] field32_le32 by simp

definition record_bytes :: "u64 \<times> u8 list \<Rightarrow> u8 list" where
  "record_bytes rec = record_header (fst rec) (min PCAP_SNAPLEN (length (snd rec))) (length (snd rec)) @ take PCAP_SNAPLEN (snd rec)"

lemma record_header_length [simp]: "length (record_header us stored len) = 16"
  by (simp add: record_header_def)

lemma record_header_fields:
  "field32 0 (record_header us stored len @ x) = ucast (us div 1000000)"
  "field32 4 (record_header us stored len @ x) = ucast (us mod 1000000)"
  "field32 8 (record_header us stored len @ x) = of_nat stored"
  using field32_at [of "[]" 0 "ucast (us div 1000000)"] field32_at [of "le32 (ucast (us div 1000000))" 4 "ucast (us mod 1000000)"]
    field32_at [of "le32 (ucast (us div 1000000)) @ le32 (ucast (us mod 1000000))" 8 "of_nat stored"]
  by (simp_all add: record_header_def)

definition writable :: "u64 \<times> u8 list \<Rightarrow> bool" where
  "writable rec \<longleftrightarrow> snd rec \<noteq> [] \<and> unat (fst rec) < 2 ^ 32 * 1000000"

lemma ucast_32_64: "unat w < 2 ^ 32 \<Longrightarrow> ucast (ucast w :: u32) = (w :: u64)"
  by (simp add: word_unat_eq_iff unsigned_ucast_eq unsigned_take_bit_eq take_bit_nat_eq_self)

lemma clock_fields: "unat us < 2 ^ 32 * 1000000 \<Longrightarrow> ucast (ucast (us div 1000000) :: u32) * 1000000 + ucast (ucast (us mod 1000000) :: u32) = (us :: u64)"
proof -
  assume us: "unat us < 2 ^ 32 * 1000000"
  have "unat (us div 1000000) < 2 ^ 32" using us by (simp add: unat_div less_mult_imp_div_less)
  moreover have "unat (us mod 1000000) < 2 ^ 32"
    unfolding unat_mod by (rule less_trans [of _ 1000000]) simp_all
  ultimately show ?thesis by (simp only: ucast_32_64 div_mult_mod_eq)
qed

lemma next_record_written:
  assumes "writable rec"
  shows "next_record False (record_bytes rec @ rest) = Some ((fst rec, take PCAP_SNAPLEN (snd rec)), rest)"
proof -
  obtain us data where rec: "rec = (us, data)" by (cases rec)
  define n where "n = min PCAP_SNAPLEN (length data)"
  have n: "0 < n" "n \<le> 65535" "length (take PCAP_SNAPLEN data) = n"
    using assms by (auto simp: rec n_def writable_def PCAP_SNAPLEN_def)
  have len: "unat (of_nat n :: u32) = n" using n(2) by (simp add: unsigned_of_nat take_bit_nat_eq_self)
  have stored: "take PCAP_SNAPLEN data = take n data" by (simp add: n_def min_def)
  show ?thesis using n(1,2) n(3)[unfolded stored] assms
    by (simp add: next_record_def Let_def record_bytes_def rec record_header_fields len clock_fields writable_def stored
        flip: n_def) (simp add: REPLAY_MAX_PACKET_def)
qed

text \<open>A record torn short is not read.\<close>

lemma next_record_cut:
  assumes "writable rec" "k < length (record_bytes rec)"
  shows "next_record False (take k (record_bytes rec)) = None"
proof (cases "k < 16")
  case True
  then show ?thesis by (simp add: next_record_def min_less_iff_disj)
next
  case False
  obtain us data where rec: "rec = (us, data)" by (cases rec)
  define n where "n = min PCAP_SNAPLEN (length data)"
  have n: "0 < n" "n \<le> 65535" "length (take PCAP_SNAPLEN data) = n"
    using assms(1) by (auto simp: rec n_def writable_def PCAP_SNAPLEN_def)
  have len: "unat (of_nat n :: u32) = n" using n(2) by (simp add: unsigned_of_nat take_bit_nat_eq_self)
  have "k - 16 < n" using assms(2) False n by (simp add: record_bytes_def rec)
  then show ?thesis using n False
    by (simp add: next_record_def Let_def record_bytes_def rec record_header_fields len flip: n_def)
qed

lemma records_written:
  "\<forall>rec\<in>set recs. writable rec \<Longrightarrow> next_record False tail = None \<Longrightarrow>
   records False (concat (List.map record_bytes recs) @ tail) =
     List.map (\<lambda>rec. (fst rec, take PCAP_SNAPLEN (snd rec))) recs"
proof (induction recs)
  case Nil
  then show ?case by (simp add: records.simps)
next
  case (Cons rec recs)
  then show ?case by (simp add: records.simps [of False "record_bytes rec @ _"] next_record_written)
qed

subsection \<open>What an export leaves in its file\<close>

type_synonym write_call = "u64 \<times> u32 \<times> u8 list"

text \<open>The calls of a session, and those of them that ask for a record of this stage.\<close>

definition export_writes :: "write_call list \<Rightarrow> pcap \<Rightarrow> pcap" where
  "export_writes calls st = fold (\<lambda>(us, stage, data). pcapExportWriteStage us stage data) calls st"

definition offered :: "u32 \<Rightarrow> write_call list \<Rightarrow> (u64 \<times> u8 list) list" where
  "offered stages calls =
     List.map (\<lambda>(us, stage, data). (us, data)) (filter (\<lambda>(us, stage, data). stages AND stage \<noteq> 0 \<and> data \<noteq> []) calls)"

definition stored_size :: "u64 \<times> u8 list \<Rightarrow> nat" where
  "stored_size rec = min PCAP_SNAPLEN (length (snd rec))"

definition clock_ok :: "write_call \<Rightarrow> bool" where
  "clock_ok c = (unat (fst c) < 2 ^ 32 * 1000000)"

text \<open>The disk takes everything.\<close>

definition lossless :: "pcap \<Rightarrow> bool" where
  "lossless st \<longleftrightarrow> (\<forall>i. snd (io_src st i) = None)"

definition limit_reached :: "int \<Rightarrow> int \<Rightarrow> int \<Rightarrow> int \<Rightarrow> bool" where
  "limit_reached maxP maxB n b \<longleftrightarrow> maxP > 0 \<and> maxP \<le> n \<or> maxB > 0 \<and> maxB \<le> b"

text \<open>
  A stream behind the header: all the bytes \<open>out\<close> written to it are on the disk or pending; or some were lost at the end,
  and nothing is written after that.
\<close>

definition stream :: "string \<Rightarrow> u8 list \<Rightarrow> pcap \<Rightarrow> bool" where
  "stream f out st \<longleftrightarrow> (\<exists>d. disk st f = Some (global_header @ d) \<and> d @ pending st = out)"

definition cut_stream :: "string \<Rightarrow> u8 list \<Rightarrow> pcap \<Rightarrow> bool" where
  "cut_stream f out st \<longleftrightarrow> (\<exists>d. disk st f = Some (global_header @ d) \<and> prefix (d @ pending st) out)"

definition only_io :: "pcap \<Rightarrow> pcap \<Rightarrow> bool" where
  "only_io st st' \<longleftrightarrow>
     pcapActive st' = pcapActive st \<and> pcapFile st' = pcapFile st \<and> pcapPackets st' = pcapPackets st \<and> pcapBytes st' = pcapBytes st \<and>
     pcapMaxPkts st' = pcapMaxPkts st \<and> pcapMaxBytes st' = pcapMaxBytes st \<and> pcapStage st' = pcapStage st \<and> io_src st' = io_src st"

lemma only_io_trans: "only_io a b \<Longrightarrow> only_io b c \<Longrightarrow> only_io a c"
  by (simp add: only_io_def)

lemma only_io_eq: "only_io st st' \<Longrightarrow> st' = st\<lparr>disk := disk st', pending := pending st', io_pos := io_pos st'\<rparr>"
  by (rule pcap.equality) (simp_all add: only_io_def)

lemma only_ioD:
  assumes "only_io st st'"
  shows "pcapActive st' = pcapActive st" "pcapFile st' = pcapFile st" "pcapPackets st' = pcapPackets st" "pcapBytes st' = pcapBytes st"
    "pcapMaxPkts st' = pcapMaxPkts st" "pcapMaxBytes st' = pcapMaxBytes st" "pcapStage st' = pcapStage st" "lossless st' = lossless st"
  using assms by (simp_all add: only_io_def lossless_def)

lemma fwrite_stream:
  assumes "stream f out st" "fwrite f bs st = (ok, st')"
  shows "only_io st st'" "ok \<Longrightarrow> stream f (out @ bs) st'" "\<not> ok \<Longrightarrow> cut_stream f (out @ bs) st'" "lossless st \<Longrightarrow> ok"
proof -
  obtain k lost where io: "io_src st (io_pos st) = (k, lost)" by (cases "io_src st (io_pos st)")
  note d = fwrite_def next_io_def to_disk_def io Let_def
  show "only_io st st'" using assms(2) by (auto simp: only_io_def d split: option.splits)
  show "lossless st \<Longrightarrow> ok" using assms(2) io by (auto simp: lossless_def d split: option.splits dest: spec [of _ "io_pos st"])
  show "ok \<Longrightarrow> stream f (out @ bs) st'" using assms by (auto simp: stream_def d simp del: take_append drop_append split: option.splits)
  show "cut_stream f (out @ bs) st'" if no: "\<not> ok"
  proof -
    obtain x where x: "disk st f = Some (global_header @ x)" "out = x @ pending st" using assms(1) by (auto simp: stream_def)
    obtain j where "st' = (to_disk f (take k (pending st @ bs)) (st\<lparr>io_pos := io_pos st + 1\<rparr>))\<lparr>pending := take j (drop k (pending st @ bs))\<rparr>"
      using assms(2) no by (auto simp: d simp del: take_append drop_append split: option.splits)
    moreover have "prefix (take k (pending st @ bs) @ take j (drop k (pending st @ bs))) (pending st @ bs)"
      by (metis append_take_drop_id same_prefix_prefix take_is_prefix)
    ultimately show ?thesis using x by (simp add: cut_stream_def to_disk_def)
  qed
qed

lemma fflush_stream:
  shows "only_io st (fflush f st)" "cut_stream f out st \<Longrightarrow> cut_stream f out (fflush f st)"
    "stream f out st \<Longrightarrow> lossless st \<Longrightarrow> stream f out (fflush f st) \<and> pending (fflush f st) = []"
proof -
  obtain k lost where io: "io_src st (io_pos st) = (k, lost)" by (cases "io_src st (io_pos st)")
  note d = fflush_def next_io_def to_disk_def io Let_def
  show "only_io st (fflush f st)" by (simp add: only_io_def d split: option.split)
  show "stream f out st \<Longrightarrow> lossless st \<Longrightarrow> stream f out (fflush f st) \<and> pending (fflush f st) = []"
    using io by (auto simp: lossless_def stream_def d split: option.splits dest: spec [of _ "io_pos st"])
  show "cut_stream f out (fflush f st)" if c: "cut_stream f out st"
  proof -
    obtain x where x: "disk st f = Some (global_header @ x)" "prefix (x @ pending st) out" using c by (auto simp: cut_stream_def)
    have "prefix (take k (pending st) @ take j (drop k (pending st))) (pending st)" for j
      by (metis append_take_drop_id same_prefix_prefix take_is_prefix)
    then have "prefix (x @ take k (pending st) @ take j (drop k (pending st))) out" for j
      using x(2) by (meson prefix_order.order_trans same_prefix_prefix)
    then show ?thesis using x by (auto simp: cut_stream_def d split: option.split)
  qed
qed

lemma stream_cut: "stream f out st \<Longrightarrow> cut_stream f out st"
  by (auto simp: stream_def cut_stream_def)

text \<open>What closing leaves on the disk.\<close>

lemma close_stream:
  assumes "cut_stream f out st" "pcapFile st = Some f"
  obtains d D I where "closeFileLocked st = st\<lparr>pcapActive := False, pcapFile := None, pending := [], disk := D, io_pos := I\<rparr>"
    "D f = Some (global_header @ d)" "prefix d out" "lossless st \<Longrightarrow> stream f out st \<Longrightarrow> d = out"
proof -
  let ?s = "st\<lparr>pcapActive := False\<rparr>"
  let ?s1 = "fflush f ?s" and ?s2 = "fflush f (fflush f ?s)"
  have c: "cut_stream f out ?s2" using assms(1) by (intro fflush_stream(2)) (simp add: cut_stream_def)
  have o: "only_io ?s ?s1" "only_io ?s1 ?s2" by (rule fflush_stream(1))+
  then obtain D P I where s2: "?s2 = ?s\<lparr>disk := D, pending := P, io_pos := I\<rparr>" using only_io_eq [OF only_io_trans [OF o]] by blast
  have close: "closeFileLocked st = ?s2\<lparr>pending := [], pcapFile := None\<rparr>" using assms(2) by (simp add: closeFileLocked_def fclose_def)
  obtain d where d: "D f = Some (global_header @ d)" "prefix (d @ P) out" using c by (auto simp: cut_stream_def s2)
  show thesis
  proof (rule that [of I D d])
    show "closeFileLocked st = st\<lparr>pcapActive := False, pcapFile := None, pending := [], disk := D, io_pos := I\<rparr>"
      by (simp add: close s2)
    show "prefix d out" using d(2) by (rule append_prefixD)
    show "d = out" if l: "lossless st" "stream f out st"
    proof -
      have "lossless ?s" "stream f out ?s" using l by (simp_all add: lossless_def stream_def)
      then have "stream f out ?s1" "lossless ?s1" using fflush_stream(3) only_ioD(8) [OF o(1)] by simp_all
      then have "stream f out ?s2 \<and> pending ?s2 = []" by (rule fflush_stream(3))
      then show ?thesis using d(1) by (auto simp: s2 stream_def)
    qed
  qed (rule d(1))
qed

text \<open>
  The invariant of a session that has its header on the disk: while it is active, all records on offer are in the stream; when it
  has ended, the file is cut off somewhere before the end of the record whose writing failed.
\<close>

definition exporting :: "string \<Rightarrow> int \<Rightarrow> int \<Rightarrow> u32 \<Rightarrow> (u64 \<times> u8 list) list \<Rightarrow> nat \<Rightarrow> pcap \<Rightarrow> bool" where
  "exporting f maxP maxB stages recs n st \<longleftrightarrow>
     n \<le> length recs \<and> pcapPackets st = int n \<and> pcapBytes st = int (sum_list (List.map stored_size (take n recs))) \<and>
     (0 < maxP \<longrightarrow> int n \<le> maxP) \<and> (0 < maxB \<longrightarrow> pcapBytes st < maxB + 65535) \<and>
     (if pcapActive st
      then pcapFile st = Some f \<and> pcapMaxPkts st = max 0 maxP \<and> pcapMaxBytes st = max 0 maxB \<and> pcapStage st = stages \<and>
           n = length recs \<and> stream f (concat (List.map record_bytes recs)) st
      else pcapFile st = None \<and>
        (\<exists>d. disk st f = Some (global_header @ d) \<and> prefix d (concat (List.map record_bytes (take (Suc n) recs))) \<and>
           (lossless st \<longrightarrow> d = concat (List.map record_bytes (take n recs)) \<and> limit_reached maxP maxB (int n) (pcapBytes st))))"

lemma write_idle: "\<not> pcapActive st \<or> data = [] \<or> pcapStage st AND stage = 0 \<Longrightarrow> pcapExportWriteStage us stage data st = st"
  by (auto simp: pcapExportWriteStage_def split: option.splits)

lemma limit_reached_max [simp]: "limit_reached (max 0 maxP) (max 0 maxB) n b = limit_reached maxP maxB n b"
  by (auto simp: limit_reached_def max_def)

text \<open>A record that is written, or cut off.\<close>

lemma write_stage:
  assumes st: "pcapActive st" "pcapFile st = Some f" "stream f out st" "data \<noteq> []" "pcapStage st AND stage \<noteq> 0"
    "\<not> limit_reached (pcapMaxPkts st) (pcapMaxBytes st) (pcapPackets st) (pcapBytes st)"
  obtains st1 where "only_io st st1" "stream f (out @ record_bytes (us, data)) st1"
      "pcapExportWriteStage us stage data st = st1\<lparr>pcapPackets := pcapPackets st + 1, pcapBytes := pcapBytes st + int (stored_size (us, data))\<rparr>"
  | st1 where "only_io st st1" "cut_stream f (out @ record_bytes (us, data)) st1" "\<not> lossless st"
      "pcapExportWriteStage us stage data st = closeFileLocked st1"
proof -
  let ?n = "min PCAP_SNAPLEN (length data)"
  let ?h = "record_header us ?n (length data)"
  have bytes: "record_bytes (us, data) = ?h @ take ?n data" by (simp add: record_bytes_def min_def)
  have lim: "(pcapMaxPkts st > 0 \<and> pcapMaxPkts st \<le> pcapPackets st \<or> pcapMaxBytes st > 0 \<and> pcapMaxBytes st \<le> pcapBytes st) = False"
    using st(6) by (simp add: limit_reached_def)
  obtain ok1 s1 where 1: "fwrite f ?h st = (ok1, s1)" by (metis surj_pair)
  obtain ok2 s2 where 2: "fwrite f (take ?n data) s1 = (ok2, s2)" by (metis surj_pair)
  note w1 = fwrite_stream [OF st(3) 1]
  have call: "pcapExportWriteStage us stage data st =
    (if \<not> ok1 then closeFileLocked s1 else if \<not> ok2 then closeFileLocked s2
     else s2\<lparr>pcapPackets := pcapPackets s2 + 1, pcapBytes := pcapBytes s2 + int ?n\<rparr>)"
    using st(1,2,4,5) unfolding pcapExportWriteStage_def Let_def by (simp only: lim) (simp add: 1 2)
  show thesis
  proof (cases ok1)
    case False
    have "prefix (out @ ?h) (out @ record_bytes (us, data))" by (simp add: bytes)
    then have "cut_stream f (out @ record_bytes (us, data)) s1"
      using w1(3) [OF False] unfolding cut_stream_def by (meson prefix_order.order_trans)
    then show thesis using False w1(1,4) call by (intro that(2) [of s1]) auto
  next
    case True
    note w2 = fwrite_stream [OF w1(2) [OF True] 2]
    have o: "only_io st s2" by (rule only_io_trans [OF w1(1) w2(1)])
    have l: "lossless s1 = lossless st" by (rule only_ioD(8) [OF w1(1)])
    show thesis
    proof (cases ok2)
      case ok: True
      show thesis using True ok w2(2) o call only_ioD [OF o]
        by (intro that(1) [of s2]) (simp_all add: bytes stored_size_def)
    next
      case False
      show thesis using True False w2(3,4) o call l by (intro that(2) [of s2]) (auto simp: bytes)
    qed
  qed
qed

lemma write_limit:
  assumes "pcapActive st" "pcapFile st = Some f" "data \<noteq> []" "pcapStage st AND stage \<noteq> 0"
    "limit_reached (pcapMaxPkts st) (pcapMaxBytes st) (pcapPackets st) (pcapBytes st)"
  shows "pcapExportWriteStage us stage data st = closeFileLocked st"
proof -
  have lim: "(pcapMaxPkts st > 0 \<and> pcapMaxPkts st \<le> pcapPackets st \<or> pcapMaxBytes st > 0 \<and> pcapMaxBytes st \<le> pcapBytes st) = True"
    using assms(5) by (simp add: limit_reached_def)
  show ?thesis using assms(1-4) unfolding pcapExportWriteStage_def by (simp only: lim) simp
qed

lemma exporting_write:
  assumes e: "exporting f maxP maxB stages recs n st" and c: "c = (us, stage, data)"
  shows "\<exists>n. exporting f maxP maxB stages (recs @ offered stages [c]) n (pcapExportWriteStage us stage data st)"
proof (cases "pcapActive st \<and> data \<noteq> [] \<and> stages AND stage \<noteq> 0")
  case False
  then have "pcapExportWriteStage us stage data st = st"
    using e by (intro write_idle) (auto simp: exporting_def)
  moreover have "exporting f maxP maxB stages (recs @ offered stages [c]) n st"
  proof (cases "pcapActive st")
    case True
    then show ?thesis using e False by (auto simp: offered_def c)
  next
    case off: False
    have "prefix (concat (List.map record_bytes (take (Suc n) recs))) (concat (List.map record_bytes (take (Suc n) (recs @ offered stages [c]))))"
      by simp
    moreover have "n \<le> length recs" using e by (simp add: exporting_def)
    ultimately show ?thesis using e off unfolding exporting_def by (auto elim: prefix_order.order_trans)
  qed
  ultimately show ?thesis by auto
next
  case True
  note act = True
  have st: "pcapFile st = Some f" "pcapMaxPkts st = max 0 maxP" "pcapMaxBytes st = max 0 maxB" "pcapStage st = stages"
    "n = length recs" "stream f (concat (List.map record_bytes recs)) st"
    "pcapPackets st = int n" "pcapBytes st = int (sum_list (List.map stored_size recs))"
    using e True by (auto simp: exporting_def)
  have new: "offered stages [c] = [(us, data)]" using True by (simp add: offered_def c)
  have small: "stored_size (us, data) \<le> 65535" by (simp add: stored_size_def PCAP_SNAPLEN_def)
  have stg: "pcapStage st AND stage \<noteq> 0" "pcapActive st" "data \<noteq> []" using act st(4) by auto
  have limits: "0 < maxP \<longrightarrow> int n \<le> maxP" "0 < maxB \<longrightarrow> pcapBytes st < maxB + 65535"
    using e [unfolded exporting_def] by blast+
  show ?thesis
  proof (cases "limit_reached maxP maxB (int n) (pcapBytes st)")
    case True
    have "pcapExportWriteStage us stage data st = closeFileLocked st"
      using stg st True by (intro write_limit) simp_all
    moreover obtain d D I where "closeFileLocked st = st\<lparr>pcapActive := False, pcapFile := None, pending := [], disk := D, io_pos := I\<rparr>"
      "D f = Some (global_header @ d)" "prefix d (concat (List.map record_bytes recs))"
      "lossless st \<Longrightarrow> d = concat (List.map record_bytes recs)"
      by (rule close_stream [OF stream_cut [OF st(6)] st(1)]) (use st(6) in blast)
    ultimately have "exporting f maxP maxB stages (recs @ [(us, data)]) n (pcapExportWriteStage us stage data st)"
      using limits st True by (auto simp: exporting_def lossless_def)
    then show ?thesis unfolding new by blast
  next
    case False
    have nolim: "\<not> limit_reached (pcapMaxPkts st) (pcapMaxBytes st) (pcapPackets st) (pcapBytes st)"
      using False st by simp
    have room: "0 < maxP \<longrightarrow> int n < maxP" "0 < maxB \<longrightarrow> pcapBytes st < maxB"
      using False by (auto simp: limit_reached_def)
    from write_stage [OF stg(2) st(1) st(6) stg(3) stg(1) nolim, of us] show ?thesis
    proof cases
      case (1 st1)
      have "stream f (concat (List.map record_bytes (recs @ [(us, data)]))) (pcapExportWriteStage us stage data st)"
        unfolding 1(3) using 1(2) by (simp add: stream_def)
      then have "exporting f maxP maxB stages (recs @ [(us, data)]) (Suc n) (pcapExportWriteStage us stage data st)"
        unfolding exporting_def 1(3) using only_ioD [OF 1(1)] st room small stg by auto
      then show ?thesis unfolding new by blast
    next
      case (2 st1)
      note o = only_ioD [OF 2(1)]
      obtain d D I where d: "closeFileLocked st1 = st1\<lparr>pcapActive := False, pcapFile := None, pending := [], disk := D, io_pos := I\<rparr>"
        "D f = Some (global_header @ d)" "prefix d (concat (List.map record_bytes recs) @ record_bytes (us, data))"
        by (rule close_stream [OF 2(2)]) (use o st(1) in auto)
      then have "exporting f maxP maxB stages (recs @ [(us, data)]) n (pcapExportWriteStage us stage data st)"
        unfolding exporting_def 2(4) using o st limits 2(3) by (auto simp: lossless_def)
      then show ?thesis unfolding new by blast
    qed
  qed
qed

lemma exporting_writes:
  "exporting f maxP maxB stages recs n st \<Longrightarrow>
   \<exists>n. exporting f maxP maxB stages (recs @ offered stages calls) n (export_writes calls st)"
proof (induction calls arbitrary: recs n st)
  case Nil
  then show ?case by (auto simp: offered_def export_writes_def)
next
  case (Cons c calls)
  obtain us stage data where c: "c = (us, stage, data)" by (cases c)
  obtain n' where "exporting f maxP maxB stages (recs @ offered stages [c]) n' (pcapExportWriteStage us stage data st)"
    using exporting_write [OF Cons.prems c] by auto
  from Cons.IH [OF this] obtain n where
    "exporting f maxP maxB stages ((recs @ offered stages [c]) @ offered stages calls) n
      (export_writes calls (pcapExportWriteStage us stage data st))" by auto
  moreover have "(recs @ offered stages [c]) @ offered stages calls = recs @ offered stages (c # calls)"
    by (simp add: offered_def)
  moreover have "export_writes (c # calls) st = export_writes calls (pcapExportWriteStage us stage data st)"
    by (simp add: export_writes_def c)
  ultimately show ?case by auto
qed

lemma header_opens: "openAndValidate (Some (global_header @ x)) = Inr (False, LINKTYPE_RAW)"
proof -
  have m: "field32 0 (global_header @ x) = PCAP_MAGIC" by (simp add: global_header_def field32_le32)
  have n: "field32 20 (global_header @ x) = LINKTYPE_RAW"
    using field32_at [of "take 20 global_header" 20 LINKTYPE_RAW x] by (simp add: global_header_def)
  show ?thesis using m n by (simp add: openAndValidate_def Let_def pcap_constants) (simp add: global_header_def)
qed

lemma exporting_start:
  assumes "pcapExportStart opens arg path maxP maxB st = (True, st')" "disk st' path = Some global_header"
  shows "exporting path maxP maxB (resolveStage arg) [] 0 st'"
proof -
  let ?s = "closeFileLocked st\<lparr>pending := [], disk := (disk (closeFileLocked st))(path := Some [])\<rparr>"
  obtain k lost where io: "io_src ?s (io_pos ?s) = (k, lost)" by (cases "io_src ?s (io_pos ?s)")
  have ok: "opens" "path \<noteq> []" "lost = None"
    using assms(1) io by (auto simp: pcapExportStart_def fwrite_def next_io_def Let_def split: if_splits prod.splits option.splits)
  define t where "t = fflush path (?s\<lparr>io_pos := io_pos ?s + 1, disk := (disk ?s)(path := Some (take k global_header)), pending := drop k global_header\<rparr>)"
  have st': "st' = t\<lparr>pcapFile := Some path, pcapPackets := 0, pcapBytes := 0, pcapMaxPkts := (if maxP > 0 then maxP else 0),
      pcapMaxBytes := (if maxB > 0 then maxB else 0), pcapStage := resolveStage arg, pcapActive := True\<rparr>"
    using assms(1) ok io by (simp add: pcapExportStart_def fwrite_def next_io_def Let_def to_disk_def t_def)
  have "\<exists>x. disk t path = Some x \<and> prefix (x @ pending t) global_header"
  proof -
    have "prefix (take i xs @ take j (drop i xs)) xs" for i j and xs :: "u8 list"
      by (metis append_take_drop_id same_prefix_prefix take_is_prefix)
    then have "prefix (take k global_header @ take i (drop k global_header) @ take j (drop i (drop k global_header))) global_header" for i j
      by (metis append_take_drop_id same_prefix_prefix)
    then show ?thesis by (auto simp: t_def fflush_def next_io_def to_disk_def split: prod.split option.split)
  qed
  then have "pending t = []" using assms(2) by (simp add: st')
  then show ?thesis using assms(2) by (auto simp: exporting_def st' stream_def max_def)
qed

lemma lossless_stream:
  "lossless (snd (fwrite f bs st)) = lossless st" "lossless (fflush f st) = lossless st" "lossless (closeFileLocked st) = lossless st"
  by (simp_all add: fwrite_def fflush_def fclose_def closeFileLocked_def next_io_def to_disk_def lossless_def Let_def
      split: prod.split option.split)

lemma fwrite_lossless: "fwrite f bs st = (ok, st') \<Longrightarrow> lossless st' = lossless st"
  using lossless_stream(1) [of f bs st] by simp

lemma export_writes_lossless: "lossless (export_writes calls st) = lossless st"
proof (induction calls arbitrary: st)
  case (Cons c calls)
  have "lossless (st\<lparr>pcapPackets := x, pcapBytes := y\<rparr>) = lossless st" for x y and st :: pcap by (simp add: lossless_def)
  then have "lossless (pcapExportWriteStage us stage data st) = lossless st" for us stage data
    by (auto simp: pcapExportWriteStage_def Let_def lossless_stream fwrite_lossless split: option.split prod.split)
  then show ?case using Cons by (cases c) (simp add: export_writes_def)
qed (simp add: export_writes_def)

text \<open>A file that is cut off somewhere is read up to there.\<close>

lemma cut_records:
  "prefix d (concat (List.map record_bytes recs)) \<Longrightarrow> \<forall>rec\<in>set recs. writable rec \<Longrightarrow>
   \<exists>m. m \<le> length recs \<and> records False d = List.map (\<lambda>rec. (fst rec, take PCAP_SNAPLEN (snd rec))) (take m recs)"
proof (induction recs arbitrary: d)
  case Nil
  then show ?case by (simp add: records.simps next_record_def)
next
  case (Cons rec recs)
  show ?case
  proof (cases "length d < length (record_bytes rec)")
    case True
    have "prefix d (record_bytes rec)" by (rule prefix_length_prefix [OF Cons.prems(1)]) (use True in simp_all)
    then have "d = take (length d) (record_bytes rec)" by (auto simp: prefix_def)
    then have "next_record False d = None" using next_record_cut [OF _ True] Cons.prems(2) by (metis list.set_intros(1))
    then show ?thesis by (intro exI [of _ 0]) (simp add: records.simps)
  next
    case False
    have "prefix (record_bytes rec) d" by (rule prefix_length_prefix [OF _ Cons.prems(1)]) (use False in simp_all)
    then obtain d' where d: "d = record_bytes rec @ d'" by (auto simp: prefix_def)
    then have "prefix d' (concat (List.map record_bytes recs))" using Cons.prems(1) by simp
    from Cons.IH [OF this] Cons.prems(2) obtain m where m: "m \<le> length recs"
      "records False d' = List.map (\<lambda>rec. (fst rec, take PCAP_SNAPLEN (snd rec))) (take m recs)" by auto
    then show ?thesis using Cons.prems(2) d
      by (intro exI [of _ "Suc m"]) (simp add: records.simps [of False "record_bytes rec @ d'"] next_record_written)
  qed
qed

text \<open>What a session leaves when it is stopped.\<close>

lemma exporting_stop:
  assumes e: "exporting f maxP maxB stages recs n st"
  obtains d where "disk (pcapExportStop st) f = Some (global_header @ d)" "prefix d (concat (List.map record_bytes (take (Suc n) recs)))"
    "pcapPackets (pcapExportStop st) = pcapPackets st" "pcapBytes (pcapExportStop st) = pcapBytes st"
    "\<not> pcapActive (pcapExportStop st)"
    "lossless st \<longrightarrow> d = concat (List.map record_bytes (take n recs)) \<and> (n = length recs \<or> limit_reached maxP maxB (int n) (pcapBytes st))"
proof (cases "pcapActive st")
  case True
  then have st: "pcapFile st = Some f" "stream f (concat (List.map record_bytes recs)) st" "n = length recs"
    using e by (simp_all add: exporting_def)
  obtain d D I where d: "closeFileLocked st = st\<lparr>pcapActive := False, pcapFile := None, pending := [], disk := D, io_pos := I\<rparr>"
      "D f = Some (global_header @ d)" "prefix d (concat (List.map record_bytes recs))"
      "lossless st \<Longrightarrow> d = concat (List.map record_bytes recs)"
      by (rule close_stream [OF stream_cut [OF st(2)] st(1)]) (use st(2) in blast)
  then show thesis using st by (intro that [of d]) (simp_all add: pcapExportStop_def)
next
  case False
  then obtain d where "disk st f = Some (global_header @ d)" "prefix d (concat (List.map record_bytes (take (Suc n) recs)))" "pcapFile st = None"
    "lossless st \<longrightarrow> d = concat (List.map record_bytes (take n recs)) \<and> limit_reached maxP maxB (int n) (pcapBytes st)"
    using e by (auto simp: exporting_def)
  then show thesis using False by (intro that [of d]) (simp_all add: pcapExportStop_def closeFileLocked_def)
qed


definition fresh_pcap :: pcap where
  "fresh_pcap = \<lparr>pcapActive = False, pcapFile = None, pcapPackets = 0, pcapBytes = 0, pcapMaxPkts = 0, pcapMaxBytes = 0,
     pcapStage = PCAP_STAGE_POST, pending = [], io_src = (\<lambda>_. (0, None)), io_pos = 0, disk = Map.empty\<rparr>"


text \<open>What the ignored results cost: on a disk that takes nothing more, a session reports its start and counts its packets, and the
  file stays empty.\<close>

lemma full_disk_unnoticed:
  fixes us :: u64 and st :: pcap
  assumes "io_src st = (\<lambda>i. if i = 0 then (0, None) else if i = 1 then (0, Some 0) else if i < 4 then (0, None) else (0, Some 0))"
    "io_pos st = 0" "pcapFile st = None"
  defines "st1 \<equiv> pcapExportStop (pcapExportWriteStage us PCAP_STAGE_POST [1] (snd (pcapExportStart True None ''a'' 0 0 st)))"
  shows "fst (pcapExportStart True None ''a'' 0 0 st) \<and> disk st1 ''a'' = Some [] \<and> pcapExportCount st1 = 1"
  using assms(1-3)
  by (simp add: st1_def pcapExportStart_def pcapExportWriteStage_def pcapExportStop_def pcapExportCount_def closeFileLocked_def
      fwrite_def fflush_def fclose_def next_io_def to_disk_def resolveStage_def PCAP_STAGE_POST_def Let_def)

subsection \<open>What a replay sends\<close>

definition unstopped :: "replay \<Rightarrow> bool" where
  "unstopped r = (\<forall>i. \<not> stop_src r i)"

text \<open>Waiting covers the delay, by less than a millisecond too much, in pieces of at most 100 ms.\<close>

lemma sleep_loop_covers:
  assumes "unstopped r"
  shows "\<exists>naps k. sleep_loop w r = r\<lparr>slept := slept r @ naps, stop_pos := k\<rparr> \<and>
    (\<forall>c\<in>set naps. 1 \<le> c \<and> c \<le> 100) \<and> w \<le> of_nat (sum_list naps) \<and> (0 < w \<longrightarrow> of_nat (sum_list naps) < w + 1) \<and>
    (w \<le> 0 \<longrightarrow> naps = [])"
  using assms
proof (induction w r rule: sleep_loop.induct)
  case (1 w r)
  show ?case
  proof (cases "w \<le> 0")
    case True
    then show ?thesis by (intro exI [of _ "[]"] exI [of _ "stop_pos r"]) (simp add: sleep_loop.simps)
  next
    case False
    define c where "c = (if w > 100 then 100 else nat \<lfloor>w\<rfloor>)"
    define d where "d = (if c = 0 then 1 else c)"
    let ?r = "r\<lparr>stop_pos := stop_pos r + 1\<rparr>"
    have go: "\<not> stop_src r (stop_pos r)" using 1(2) by (simp add: unstopped_def)
    have step: "sleep_loop w r = sleep_loop (w - of_nat d) (?r\<lparr>slept := slept ?r @ [d]\<rparr>)"
      using False go by (simp add: sleep_loop.simps [of w r] read_stop_def Let_def c_def d_def)
    have d: "1 \<le> d" "d \<le> 100" "of_nat d < w + 1"
    proof -
      have f: "0 \<le> \<lfloor>w\<rfloor>" "of_int \<lfloor>w\<rfloor> \<le> w" using False by (simp_all add: of_int_floor_le)
      show "1 \<le> d" by (simp add: d_def)
      show "d \<le> 100" using f by (auto simp: d_def c_def floor_le_iff nat_le_iff)
      have "(of_nat c :: rat) \<le> w" using f by (auto simp: c_def)
      then show "of_nat d < w + 1" using False by (auto simp: d_def)
    qed
    have "unstopped (?r\<lparr>slept := slept ?r @ [d]\<rparr>)" using 1(2) by (simp add: unstopped_def)
    with 1(1) [OF False, of False ?r c d] go obtain naps k where
      IH: "sleep_loop (w - of_nat d) (?r\<lparr>slept := slept ?r @ [d]\<rparr>) = r\<lparr>slept := slept r @ [d] @ naps, stop_pos := k\<rparr>"
      "\<forall>c\<in>set naps. 1 \<le> c \<and> c \<le> 100" "w - of_nat d \<le> of_nat (sum_list naps)"
      "0 < w - of_nat d \<longrightarrow> of_nat (sum_list naps) < w - of_nat d + 1" "w - of_nat d \<le> 0 \<longrightarrow> naps = []"
      by (auto simp: read_stop_def c_def d_def)
    show ?thesis
      using IH d False by (intro exI [of _ "d # naps"] exI [of _ k]) (cases "w \<le> of_nat d", auto simp: step)
  qed
qed

definition wire_form :: "u8 list \<Rightarrow> raw_packet option" where
  "wire_form p =
     (if length p < IPHDR then None
      else if drop_bit 4 (p ! 0) = 6 then
        (if length p \<le> IP6_HDR then None else Some \<lparr>raw_v6 = True, raw_dst = take 16 (drop 24 p), raw_data = p\<rparr>)
      else Some \<lparr>raw_v6 = False, raw_dst = take 4 (drop 16 p), raw_data = p\<rparr>)"

definition replayable :: "u32 \<Rightarrow> u64 \<times> u8 list \<Rightarrow> raw_packet option" where
  "replayable linkType rec = Option.bind (ipOffsetFor linkType (snd rec)) (\<lambda>off. wire_form (drop off (snd rec)))"

text \<open>Both sockets are there, or will be when they are first needed.\<close>

definition sockets_ready :: "replay_sockets \<Rightarrow> bool" where
  "sockets_ready k \<longleftrightarrow>
     replaySocket k \<and> replaySocket6 k \<and> replayHdrIncl6 k \<or>
     \<not> replaySocket k \<and> \<not> replaySocket6 k \<and> \<not> replayOpenFailed k \<and> can4 k \<and> can6 k \<and> hdr6 k"

definition all_sent :: "replay \<Rightarrow> bool" where
  "all_sent r = (sockets_ready (sockets r) \<and> (\<forall>i. inject_src r i))"

text \<open>What replaying \<open>recs\<close> has done to the counters and to the wire.\<close>

definition replayed :: "u32 \<Rightarrow> (u64 \<times> u8 list) list \<Rightarrow> replay \<Rightarrow> replay \<Rightarrow> bool" where
  "replayed linkType recs r r' \<longleftrightarrow>
     unstopped r' \<and> replayReadCount r' = replayReadCount r + length recs \<and>
     replaySentCount r' + replayFailedCount r' = replaySentCount r + replayFailedCount r + length recs \<and>
     replayLoop r' = replayLoop r \<and> replayFilePath r' = replayFilePath r \<and>
     (all_sent r \<longrightarrow> all_sent r' \<and> on_wire r' = on_wire r @ List.map_filter (replayable linkType) recs \<and>
        replaySentCount r' = replaySentCount r + length (List.map_filter (replayable linkType) recs))"

lemma map_filter_append: "List.map_filter f (xs @ ys) = List.map_filter f xs @ List.map_filter f ys"
  by (simp add: List.map_filter_def)

lemma replayed_trans:
  "replayed lt a r r' \<Longrightarrow> replayed lt b r' r'' \<Longrightarrow> replayed lt (a @ b) r r''"
  by (auto simp: replayed_def map_filter_append)

lemma replayed_nil: "unstopped r \<Longrightarrow> replayed lt [] r (r\<lparr>slept := x, stop_pos := i, tick_pos := j\<rparr>)"
  by (simp add: replayed_def unstopped_def all_sent_def List.map_filter_simps)

lemma inject_ready:
  "sockets_ready k \<Longrightarrow> \<exists>k'. sockets_ready k' \<and>
     packetBackendInject True p True k = (wire_form p \<noteq> None, wire_form p, k')"
  by (cases "replaySocket k")
    (auto simp: packetBackendInject_def wire_form_def ensureReplaySockets_def sockets_ready_def Let_def)

lemma inject_record_replayed:
  assumes "unstopped r" "ipOffsetFor linkType (snd rec) = Some off"
  shows "replayed linkType [rec] r (inject_record (drop off (snd rec)) (r\<lparr>replayReadCount := replayReadCount r + 1\<rparr>))"
proof -
  obtain ok sent k where i: "packetBackendInject (inject_src r (inject_pos r)) (drop off (snd rec)) True (sockets r) = (ok, sent, k)"
    by (metis prod_cases3)
  have ready: "sockets_ready k \<and> wire_form (drop off (snd rec)) = sent \<and> ok = (sent \<noteq> None)" if "all_sent r"
    using inject_ready [of "sockets r" "drop off (snd rec)"] that i by (auto simp: all_sent_def)
  show ?thesis
    using assms i ready
    by (cases sent; cases ok)
      (auto simp: inject_record_def replayed_def unstopped_def all_sent_def replayable_def List.map_filter_simps)
qed

lemma replay_record_replayed:
  assumes "unstopped r"
  shows "\<exists>r'. replay_record linkType speed wallStart firstTs rec r = (True, r') \<and> replayed linkType [rec] r r'"
proof -
  define wait where "wait = target_ms (fst rec) firstTs speed - of_nat (unat (tick_src r (tick_pos r) - wallStart))"
  define r1 where "r1 = (if 0 < wait then sleep_loop wait (r\<lparr>replayReadCount := replayReadCount r + 1, tick_pos := tick_pos r + 1\<rparr>)
    else r\<lparr>replayReadCount := replayReadCount r + 1, tick_pos := tick_pos r + 1\<rparr>)"
  have u: "unstopped (r\<lparr>replayReadCount := replayReadCount r + 1, tick_pos := tick_pos r + 1\<rparr>)"
    using assms by (simp add: unstopped_def)
  have "\<exists>x i. r1 = r\<lparr>replayReadCount := replayReadCount r + 1, tick_pos := tick_pos r + 1\<rparr>\<lparr>slept := x, stop_pos := i\<rparr>"
  proof (cases "0 < wait")
    case True
    then show ?thesis using sleep_loop_covers [OF u, of wait] unfolding r1_def by metis
  next
    case False
    then show ?thesis unfolding r1_def by (intro exI [of _ "slept r"] exI [of _ "stop_pos r"]) simp
  qed
  then obtain x i j where "r1\<lparr>stop_pos := stop_pos r1 + 1\<rparr> = r\<lparr>replayReadCount := replayReadCount r + 1\<rparr>\<lparr>slept := x, stop_pos := i, tick_pos := j\<rparr>"
  proof (elim exE)
    fix x i
    assume "r1 = r\<lparr>replayReadCount := replayReadCount r + 1, tick_pos := tick_pos r + 1\<rparr>\<lparr>slept := x, stop_pos := i\<rparr>"
    then show thesis by (intro that [of "tick_pos r + 1" "i + 1" x]) simp
  qed
  moreover define r0 where "r0 = r\<lparr>slept := x, stop_pos := i, tick_pos := j\<rparr>"
  ultimately have r1: "r1\<lparr>stop_pos := stop_pos r1 + 1\<rparr> = r0\<lparr>replayReadCount := replayReadCount r0 + 1\<rparr>" by simp
  have r0: "replayed linkType [] r r0" unfolding r0_def by (rule replayed_nil [OF assms])
  have go: "\<not> stop_src r1 (stop_pos r1)"
  proof -
    have "stop_src r1 = stop_src r" using arg_cong [OF r1, of stop_src] by (simp add: r0_def)
    then show ?thesis using assms by (simp add: unstopped_def)
  qed
  have step: "replay_record linkType speed wallStart firstTs rec r =
    (case ipOffsetFor linkType (snd rec) of
       None \<Rightarrow> (True, r0\<lparr>replayReadCount := replayReadCount r0 + 1, replayFailedCount := replayFailedCount r0 + 1\<rparr>)
     | Some off \<Rightarrow> (True, inject_record (drop off (snd rec)) (r0\<lparr>replayReadCount := replayReadCount r0 + 1\<rparr>)))"
  proof -
    have "replay_record linkType speed wallStart firstTs rec r =
      (case read_stop r1 of (stopped, r) \<Rightarrow>
         if stopped then (False, r)
         else (case ipOffsetFor linkType (snd rec) of
            None \<Rightarrow> (True, r\<lparr>replayFailedCount := replayFailedCount r + 1\<rparr>)
          | Some off \<Rightarrow> (True, inject_record (drop off (snd rec)) r)))"
      unfolding replay_record_def read_tick_def Let_def prod.case r1_def wait_def by (cases "0 < wait") (simp_all add: wait_def)
    moreover have "read_stop r1 = (False, r0\<lparr>replayReadCount := replayReadCount r0 + 1\<rparr>)"
      using go r1 by (simp add: read_stop_def)
    ultimately show ?thesis by (simp split: option.split)
  qed
  have u0: "unstopped r0" using r0 by (simp add: replayed_def)
  show ?thesis
  proof (cases "ipOffsetFor linkType (snd rec)")
    case None
    then have "replayed linkType [rec] r0 (r0\<lparr>replayReadCount := replayReadCount r0 + 1, replayFailedCount := replayFailedCount r0 + 1\<rparr>)"
      using u0 by (auto simp: replayed_def unstopped_def all_sent_def replayable_def List.map_filter_simps)
    from replayed_trans [OF r0 this] show ?thesis by (simp add: step None)
  next
    case (Some off)
    from replayed_trans [OF r0 inject_record_replayed [OF u0 Some]] show ?thesis by (simp add: step Some)
  qed
qed

lemma replay_pass_replayed:
  "unstopped r \<Longrightarrow> replayed linkType (records swapped bs) r (replay_pass swapped linkType speed wallStart first bs r)"
proof (induction "length bs" arbitrary: bs r first rule: less_induct)
  case less
  let ?r = "r\<lparr>stop_pos := stop_pos r + 1\<rparr>"
  have go: "\<not> stop_src r (stop_pos r)" and u: "unstopped ?r" using less.prems by (simp_all add: unstopped_def)
  have r: "replayed linkType [] r ?r"
    using replayed_nil [OF less.prems, of linkType "tick_pos r" "stop_pos r + 1" "slept r"] by simp
  show ?case
  proof (cases "next_record swapped bs")
    case None
    then show ?thesis using go r by (simp add: replay_pass.simps [of _ _ _ _ _ bs] records.simps [of _ bs] read_stop_def)
  next
    case (Some p)
    obtain rec rest where p: "p = (rec, rest)" by (cases p)
    let ?first = "case first of None \<Rightarrow> fst rec | Some t \<Rightarrow> t"
    obtain r' where r': "replay_record linkType speed wallStart ?first rec ?r = (True, r')" "replayed linkType [rec] ?r r'"
      using replay_record_replayed [OF u] by blast
    have "unstopped r'" using r'(2) by (simp add: replayed_def)
    from less.hyps [OF next_record_shorter [OF Some [unfolded p]] this, of "Some ?first"]
    have "replayed linkType (records swapped rest) r' (replay_pass swapped linkType speed wallStart (Some ?first) rest r')" .
    from replayed_trans [OF replayed_trans [OF r r'(2)] this] show ?thesis
      using go r'(1) Some p
      by (simp add: replay_pass.simps [of _ _ _ _ _ bs] records.simps [of _ bs] read_stop_def Let_def)
  qed
qed

subsection \<open>Capture files, written out\<close>

text \<open>
  The libpcap format, independently of the program's reader: numbers of four bytes in either byte order, a header of 24 bytes with the
  magic number and the link type, and records of a header of 16 bytes (seconds, microseconds, bytes stored, bytes on the wire) and their bytes.
\<close>

definition four :: "bool \<Rightarrow> nat \<Rightarrow> u8 list" where
  "four big n =
     (let bytes = [of_nat (n mod 256), of_nat (n div 256 mod 256), of_nat (n div 65536 mod 256), of_nat (n div 16777216 mod 256)]
      in if big then rev bytes else bytes)"

type_synonym frame = "nat \<times> nat \<times> nat \<times> u8 list"

fun frame_bytes :: "bool \<Rightarrow> frame \<Rightarrow> u8 list" where
  "frame_bytes big (sec, usec, wire, bytes) = four big sec @ four big usec @ four big (length bytes) @ four big wire @ bytes"

definition capture_file :: "bool \<Rightarrow> nat \<Rightarrow> u8 list \<Rightarrow> nat \<Rightarrow> frame list \<Rightarrow> u8 list \<Rightarrow> u8 list" where
  "capture_file big magic version link frames rest =
     four big magic @ version @ four big link @ concat (List.map (frame_bytes big) frames) @ rest"

text \<open>
  The magic numbers of microsecond and nanosecond files; the link types Ethernet, raw IP, IPv4 and IPv6; records of 1 to 65535 bytes.
  What follows the last of them is not such a record: too short for a header, announced empty or too long, or torn.
\<close>

definition well_formed :: "bool \<Rightarrow> nat \<Rightarrow> u8 list \<Rightarrow> nat \<Rightarrow> frame list \<Rightarrow> u8 list \<Rightarrow> bool" where
  "well_formed big magic version link frames rest \<longleftrightarrow>
     magic \<in> {0xa1b2c3d4, 0xa1b23c4d} \<and> length version = 16 \<and> link \<in> {1, 101, 228, 229} \<and>
     (\<forall>(sec, usec, wire, bytes)\<in>set frames. sec < 2 ^ 32 \<and> usec < 2 ^ 32 \<and> 1 \<le> length bytes \<and> length bytes \<le> 65535) \<and>
     (length rest < 16 \<or>
       (\<exists>stamp n others. rest = stamp @ four big n @ others \<and> length stamp = 8 \<and> n < 2 ^ 32 \<and>
          (n = 0 \<or> 65535 < n \<or> length others < n + 4)))"

text \<open>The IP packet of a frame: behind an Ethernet header of 14 bytes that says IPv4 or IPv6, or the whole frame.\<close>

definition ip_of_frame :: "nat \<Rightarrow> u8 list \<Rightarrow> u8 list option" where
  "ip_of_frame link bytes =
     (if link = 1 then
        (if 14 < length bytes \<and> (take 2 (drop 12 bytes) = [0x08, 0x00] \<or> take 2 (drop 12 bytes) = [0x86, 0xDD])
         then Some (drop 14 bytes) else None)
      else Some bytes)"

text \<open>
  What a packet becomes on the wire: version 6 goes to its destination at byte 24 when it has more than the fixed header of
  40 bytes (a packet of just that header is not sent), any other of at least 20 bytes goes to the IPv4 destination at byte 16.
\<close>

definition sent_for :: "nat \<Rightarrow> frame \<Rightarrow> raw_packet option" where
  "sent_for link f =
     (case f of (sec, usec, wire, bytes) \<Rightarrow>
      case ip_of_frame link bytes of None \<Rightarrow> None
      | Some p \<Rightarrow>
         if 20 \<le> length p \<and> p ! 0 div 16 \<noteq> 6 then Some \<lparr>raw_v6 = False, raw_dst = take 4 (drop 16 p), raw_data = p\<rparr>
         else if 40 < length p \<and> p ! 0 div 16 = 6 then Some \<lparr>raw_v6 = True, raw_dst = take 16 (drop 24 p), raw_data = p\<rparr>
         else None)"

lemma of_nat_byte: "of_nat (n div 2 ^ k mod 256) = (ucast (drop_bit k (of_nat n :: u32)) :: u8)" if "k \<le> 24"
proof -
  have "n div 2 ^ k mod 256 = take_bit 8 (drop_bit k n)" by (simp add: take_bit_eq_mod drop_bit_eq_div)
  then show ?thesis using that by (auto intro!: bit_word_eqI simp: bit_simps)
qed

lemma four_little: "four False n = le32 (of_nat n)"
  using of_nat_byte [of 0 n] of_nat_byte [of 8 n] of_nat_byte [of 16 n] of_nat_byte [of 24 n]
  by (simp add: four_def le32_def)

lemma four_length [simp]: "length (four big n) = 4"
  by (simp add: four_def Let_def)

lemma four_big: "four True n = rev (four False n)"
  by (simp add: four_def)

lemma byte_masks:
  "(0x000000FF :: u32) = mask 8" "(0x0000FF00 :: u32) = push_bit 8 (mask 8)"
  "(0x00FF0000 :: u32) = push_bit 16 (mask 8)" "(0xFF000000 :: u32) = push_bit 24 (mask 8)"
  by (simp_all add: mask_eq_exp_minus_1 push_bit_eq_mult)

lemma swap32_bits:
  "n < 8 \<Longrightarrow> bit (swap32 w) n = bit w (24 + n)" "8 \<le> n \<Longrightarrow> n < 16 \<Longrightarrow> bit (swap32 w) n = bit w (8 + n)"
  "16 \<le> n \<Longrightarrow> n < 24 \<Longrightarrow> bit (swap32 w) n = bit w (n - 8)" "24 \<le> n \<Longrightarrow> n < 32 \<Longrightarrow> bit (swap32 w) n = bit w (n - 24)"
  unfolding swap32_def byte_masks by (auto simp: bit_simps)

lemma bits_of_bytes:
  assumes "n < (32 :: nat)"
  obtains "n < 8" | "8 \<le> n" "n < 16" | "16 \<le> n" "n < 24" | "24 \<le> n" "n < 32"
  using assms not_less by fastforce

lemma swap32_swap32 [simp]: "swap32 (swap32 w) = w"
proof (rule bit_word_eqI)
  fix n assume "n < LENGTH(32)"
  then have "n < 32" by simp
  then show "bit (swap32 (swap32 w)) n \<longleftrightarrow> bit w n"
    by (cases rule: bits_of_bytes) (simp_all add: swap32_bits)
qed

lemma field32_swapped: "field32 0 (rev (le32 w) @ x) = swap32 w"
proof (rule bit_word_eqI)
  fix n assume "n < LENGTH(32)"
  then have "n < 32" by simp
  then show "bit (field32 0 (rev (le32 w) @ x)) n \<longleftrightarrow> bit (swap32 w) n"
    by (cases rule: bits_of_bytes) (simp_all add: swap32_bits, auto simp: field32_def le32_def bit_simps)
qed

text \<open>The reader's view of a number.\<close>

lemma field_four:
  assumes "length a = i" shows "(if big then swap32 (field32 i (a @ four big n @ x)) else field32 i (a @ four big n @ x)) = of_nat n"
  using field32_skip [of a 0 "four big n @ x"] assms field32_swapped [of "of_nat n" x] field32_le32 [of "of_nat n" x]
  by (cases big) (simp_all add: four_big four_little)

lemma field_four_first: "(if big then swap32 (field32 0 (four big n @ x)) else field32 0 (four big n @ x)) = of_nat n"
  using field_four [of "[]" 0 big n x] by (simp only: append_Nil list.size)

lemma frame_read:
  assumes "sec < 2 ^ 32" "usec < 2 ^ 32" "1 \<le> length bytes" "length bytes \<le> 65535"
  shows "next_record big (frame_bytes big (sec, usec, wire, bytes) @ rest) =
    Some ((of_nat sec * 1000000 + of_nat usec, bytes), rest)"
proof -
  let ?bs = "frame_bytes big (sec, usec, wire, bytes) @ rest"
  let ?get = "\<lambda>i. if big then swap32 (field32 i ?bs) else field32 i ?bs"
  have g0: "?get 0 = of_nat sec" by (simp only: frame_bytes.simps append_assoc field_four_first)
  have g4: "?get 4 = of_nat usec" 
    using field_four [of "four big sec" 4 big usec "four big (length bytes) @ four big wire @ bytes @ rest"]
    by (simp only: frame_bytes.simps append_assoc four_length)
  have g8: "?get 8 = of_nat (length bytes)" 
    using field_four [of "four big sec @ four big usec" 8 big "length bytes" "four big wire @ bytes @ rest"]
    by (simp only: frame_bytes.simps append_assoc length_append four_length numeral_plus_numeral semiring_norm simp_thms)
  have n: "unat (of_nat (length bytes) :: u32) = length bytes" using assms by (simp add: unsigned_of_nat take_bit_nat_eq_self)
  have u: "ucast (of_nat k :: u32) = (of_nat k :: u64)" if "k < 2 ^ 32" for k
    using that by (simp add: word_unat_eq_iff unsigned_ucast_eq unsigned_of_nat take_bit_nat_eq_self)
  have d: "drop 16 ?bs = bytes @ rest" by simp
  have l: "length ?bs = 16 + length bytes + length rest" by simp
  have "next_record big ?bs =
    (if length ?bs < 16 then None
     else if length bytes = 0 \<or> REPLAY_MAX_PACKET < length bytes then None
     else if length (bytes @ rest) < length bytes then None
     else Some ((ucast (of_nat sec :: u32) * 1000000 + ucast (of_nat usec :: u32), take (length bytes) (bytes @ rest)), drop (length bytes) (bytes @ rest)))"
    unfolding next_record_def Let_def g0 g4 g8 n d by (rule refl)
  then show ?thesis using assms unfolding l by (cases bytes) (simp_all add: u REPLAY_MAX_PACKET_def)
qed

lemma rest_unread:
  assumes "length stamp = 8" "n < 2 ^ 32" "n = 0 \<or> 65535 < n \<or> length others < n + 4"
  shows "next_record big (stamp @ four big n @ others) = None"
proof -
  let ?bs = "stamp @ four big n @ others"
  have g: "(if big then swap32 (field32 8 ?bs) else field32 8 ?bs) = of_nat n" using field_four [OF assms(1), of big n others] .
  have u: "unat (of_nat n :: u32) = n" using assms(2) by (simp add: unsigned_of_nat take_bit_nat_eq_self)
  show ?thesis unfolding next_record_def Let_def g u using assms(1,3) by (auto simp: REPLAY_MAX_PACKET_def)
qed

lemma frames_read:
  "\<forall>(sec, usec, wire, bytes)\<in>set frames. sec < 2 ^ 32 \<and> usec < 2 ^ 32 \<and> 1 \<le> length bytes \<and> length bytes \<le> 65535 \<Longrightarrow>
   next_record big rest = None \<Longrightarrow>
   records big (concat (List.map (frame_bytes big) frames) @ rest) =
     List.map (\<lambda>(sec, usec, wire, bytes). (of_nat sec * 1000000 + of_nat usec, bytes)) frames"
proof (induction frames)
  case Nil
  then show ?case by (simp add: records.simps)
next
  case (Cons f frames)
  obtain sec usec wire bytes where f: "f = (sec, usec, wire, bytes)" by (cases f)
  let ?others = "concat (List.map (frame_bytes big) frames) @ rest"
  have "next_record big (frame_bytes big f @ ?others) = Some ((of_nat sec * 1000000 + of_nat usec, bytes), ?others)"
    unfolding f by (rule frame_read) (use Cons.prems f in auto)
  then have "records big (frame_bytes big f @ ?others) = (of_nat sec * 1000000 + of_nat usec, bytes) # records big ?others"
    by (simp add: records.simps [of big "frame_bytes big f @ ?others"])
  then show ?case using Cons by (simp add: f)
qed

lemma capture_read:
  assumes "well_formed big magic version link frames rest"
  shows "openAndValidate (Some (capture_file big magic version link frames rest)) = Inr (big, of_nat link)"
    "records big (drop 24 (capture_file big magic version link frames rest)) =
       List.map (\<lambda>(sec, usec, wire, bytes). (of_nat sec * 1000000 + of_nat usec, bytes)) frames"
proof -
  let ?others = "concat (List.map (frame_bytes big) frames) @ rest"
  let ?bs = "capture_file big magic version link frames rest"
  have v: "length version = 16" using assms by (simp add: well_formed_def)
  have m: "(if big then swap32 (field32 0 ?bs) else field32 0 ?bs) = of_nat magic"
    by (simp only: capture_file_def append_assoc field_four_first)
  have l: "(if big then swap32 (field32 20 ?bs) else field32 20 ?bs) = of_nat link"
    using field_four [of "four big magic @ version" 20 big link "concat (List.map (frame_bytes big) frames) @ rest"] v
    by (simp only: capture_file_def append_assoc length_append four_length numeral_plus_numeral semiring_norm simp_thms)
  have len: "\<not> length ?bs < 24" using v by (simp add: capture_file_def)
  have mg: "field32 0 ?bs = (if big then swap32 (of_nat magic) else of_nat magic)"
    using m by (metis swap32_swap32)
  have mv: "of_nat magic = PCAP_MAGIC \<or> of_nat magic = PCAP_MAGIC_NS" "swap32 PCAP_MAGIC = PCAP_MAGIC_SWAPPED" "swap32 PCAP_MAGIC_NS = PCAP_MAGIC_NS_SWAP"
    using assms by (auto simp: well_formed_def pcap_constants swap32_def)
  have sw: "(field32 0 ?bs = PCAP_MAGIC_SWAPPED \<or> field32 0 ?bs = PCAP_MAGIC_NS_SWAP) = big"
    using mv unfolding mg by (cases big) (auto simp: pcap_constants)
  have ok: "\<not> (field32 0 ?bs \<noteq> PCAP_MAGIC \<and> field32 0 ?bs \<noteq> PCAP_MAGIC_NS \<and> \<not> big)" using mv(1) unfolding mg by auto
  have lk: "\<not> (of_nat link \<noteq> LINKTYPE_RAW \<and> of_nat link \<noteq> LINKTYPE_ETHERNET \<and> of_nat link \<noteq> LINKTYPE_IPV4 \<and> of_nat link \<noteq> LINKTYPE_IPV6)"
    using assms by (auto simp: well_formed_def pcap_constants)
  show "openAndValidate (Some ?bs) = Inr (big, of_nat link)"
    unfolding openAndValidate_def option.case Let_def sw if_not_P [OF len] if_not_P [OF ok] l if_not_P [OF lk] by (rule refl)
  have none: "next_record big rest = None"
  proof (cases "length rest < 16")
    case False
    then obtain stamp n others where "rest = stamp @ four big n @ others" "length stamp = 8" "n < 2 ^ 32" "n = 0 \<or> 65535 < n \<or> length others < n + 4"
      using assms unfolding well_formed_def by blast
    then show ?thesis using rest_unread by simp
  qed (simp add: next_record_def)
  have "drop 24 ?bs = ?others" using v by (simp add: capture_file_def)
  moreover have "\<forall>(sec, usec, wire, bytes)\<in>set frames. sec < 2 ^ 32 \<and> usec < 2 ^ 32 \<and> 1 \<le> length bytes \<and> length bytes \<le> 65535"
    using assms by (simp add: well_formed_def)
  ultimately show "records big (drop 24 ?bs) = List.map (\<lambda>(sec, usec, wire, bytes). (of_nat sec * 1000000 + of_nat usec, bytes)) frames"
    using frames_read [OF _ none, of frames] by simp
qed

text \<open>Every file the program opens is such a capture.\<close>

lemma no_high_bits: "\<not> bit (w :: u8) (8 + n)" "\<not> bit (w :: u8) (16 + n)" "\<not> bit (w :: u8) (24 + n)"
  using bit_imp_le_length [of w "8 + n"] bit_imp_le_length [of w "16 + n"] bit_imp_le_length [of w "24 + n"] by auto

lemma four_bytes:
  assumes "length b = 4" shows "\<exists>n < 2 ^ 32. b = four big n"
proof -
  have little: "\<exists>n < 2 ^ 32. b = four False n" if "length b = 4" for b
  proof -
    obtain w x y z where b: "b = [w, x, y, z]" using \<open>length b = 4\<close> by (auto simp: eval_nat_numeral length_Suc_conv)
    have "le32 (field32 0 b) = b"
      by (auto simp: b le32_def field32_def intro!: bit_word_eqI simp: bit_simps no_high_bits)
    then show ?thesis by (intro exI [of _ "unat (field32 0 b)"]) (use unsigned_less [of "field32 0 b"] in \<open>simp add: four_little\<close>)
  qed
  show ?thesis
  proof (cases big)
    case True
    have "length (rev b) = 4" using assms by simp
    then obtain n where n: "n < 2 ^ 32" "rev b = four False n" using little [of "rev b"] by blast
    then have "b = four True n" by (simp add: four_big flip: n(2))
    then show ?thesis using n(1) True by auto
  next
    case False
    then show ?thesis using little [OF assms] by simp
  qed
qed

lemma frames_exist:
  "\<exists>frames rest. bs = concat (List.map (frame_bytes big) frames) @ rest \<and>
     (\<forall>(sec, usec, wire, bytes)\<in>set frames. sec < 2 ^ 32 \<and> usec < 2 ^ 32 \<and> 1 \<le> length bytes \<and> length bytes \<le> 65535) \<and>
     (length rest < 16 \<or> (\<exists>stamp n others. rest = stamp @ four big n @ others \<and> length stamp = 8 \<and> n < 2 ^ 32 \<and>
        (n = 0 \<or> 65535 < n \<or> length others < n + 4)))"
proof (induction "length bs" arbitrary: bs rule: less_induct)
  case less
  show ?case
  proof (cases "length bs < 16")
    case True
    then show ?thesis by (intro exI [of _ "[]"] exI [of _ bs]) simp
  next
    case False
    have cut: "\<exists>n < 2 ^ 32. take 4 (drop i bs) = four big n" if "i \<le> 12" for i
      by (rule four_bytes) (use False that in simp)
    obtain sec where sec: "sec < 2 ^ 32" "take 4 (drop 0 bs) = four big sec" using cut [of 0] by auto
    obtain usec where usec: "usec < 2 ^ 32" "take 4 (drop 4 bs) = four big usec" using cut [of 4] by auto
    obtain n where n: "n < 2 ^ 32" "take 4 (drop 8 bs) = four big n" using cut [of 8] by auto
    obtain wire where wire: "take 4 (drop 12 bs) = four big wire" using cut [of 12] by auto
    define others where "others = drop 16 bs"
    have "bs = take 4 (drop 0 bs) @ take 4 (drop 4 bs) @ take 4 (drop 8 bs) @ take 4 (drop 12 bs) @ drop 16 bs"
    proof -
      have d: "drop 16 bs = drop 4 (drop 12 bs)" "drop 12 bs = drop 4 (drop 8 bs)" "drop 8 bs = drop 4 (drop 4 bs)" by simp_all
      show ?thesis by (simp only: d drop_0 append_take_drop_id)
    qed
    then have bs: "bs = four big sec @ four big usec @ four big n @ four big wire @ others"
      by (simp only: sec(2) usec(2) n(2) wire others_def)
    show ?thesis
    proof (cases "n = 0 \<or> 65535 < n \<or> length others < n")
      case True
      then have "\<exists>stamp n others. bs = stamp @ four big n @ others \<and> length stamp = 8 \<and> n < 2 ^ 32 \<and> (n = 0 \<or> 65535 < n \<or> length others < n + 4)"
        using n(1) by (intro exI [of _ "four big sec @ four big usec"] exI [of _ n] exI [of _ "four big wire @ others"]) (auto simp: bs)
      then show ?thesis by (intro exI [of _ "[]"] exI [of _ bs]) simp
    next
      case ok: False
      have len: "length (take n others) = n" using ok by simp
      have split: "bs = frame_bytes big (sec, usec, wire, take n others) @ drop n others" using bs len by simp
      then have "length (drop n others) < length bs" by (simp only: length_append frame_bytes.simps four_length)
      from less [OF this] obtain frames rest where "drop n others = concat (List.map (frame_bytes big) frames) @ rest"
        "\<forall>(sec, usec, wire, bytes)\<in>set frames. sec < 2 ^ 32 \<and> usec < 2 ^ 32 \<and> 1 \<le> length bytes \<and> length bytes \<le> 65535"
        "length rest < 16 \<or> (\<exists>stamp n others. rest = stamp @ four big n @ others \<and> length stamp = 8 \<and> n < 2 ^ 32 \<and>
          (n = 0 \<or> 65535 < n \<or> length others < n + 4))" by blast
      moreover have "1 \<le> length (take n others)" "length (take n others) \<le> 65535" using ok by simp_all
      ultimately show ?thesis using split sec(1) usec(1)
        by (intro exI [of _ "(sec, usec, wire, take n others) # frames"] exI [of _ rest]) auto
    qed
  qed
qed

lemma capture_covers:
  assumes "openAndValidate (Some bs) = Inr (big, lt)"
  obtains magic version link frames rest where "bs = capture_file big magic version link frames rest"
    "well_formed big magic version link frames rest" "lt = of_nat link"
proof -
  have len: "24 \<le> length bs" using assms by (auto simp: openAndValidate_def split: if_splits)
  obtain magic where magic: "magic < 2 ^ 32" "take 4 bs = four big magic" using four_bytes [of "take 4 bs" big] len by auto
  obtain link where link: "link < 2 ^ 32" "take 4 (drop 20 bs) = four big link" using four_bytes [of "take 4 (drop 20 bs)" big] len by auto
  obtain frames rest where r: "drop 24 bs = concat (List.map (frame_bytes big) frames) @ rest"
    "\<forall>(sec, usec, wire, bytes)\<in>set frames. sec < 2 ^ 32 \<and> usec < 2 ^ 32 \<and> 1 \<le> length bytes \<and> length bytes \<le> 65535"
    "length rest < 16 \<or> (\<exists>stamp n others. rest = stamp @ four big n @ others \<and> length stamp = 8 \<and> n < 2 ^ 32 \<and>
        (n = 0 \<or> 65535 < n \<or> length others < n + 4))" using frames_exist [of "drop 24 bs" big] by blast
  have "bs = take 4 bs @ take 16 (drop 4 bs) @ take 4 (drop 20 bs) @ drop 24 bs"
  proof -
    have d: "drop 24 bs = drop 4 (drop 20 bs)" "drop 20 bs = drop 16 (drop 4 bs)" by simp_all
    show ?thesis by (simp only: d append_take_drop_id)
  qed
  then have bs: "bs = capture_file big magic (take 16 (drop 4 bs)) link frames rest"
    by (simp only: magic(2) link(2) r(1) capture_file_def)
  have m: "(if big then swap32 (field32 0 bs) else field32 0 bs) = of_nat magic"
    by (subst (1 2) bs) (simp only: capture_file_def append_assoc field_four_first)
  have l: "(if big then swap32 (field32 20 bs) else field32 20 bs) = of_nat link"
  proof -
    have n: "length (four big magic @ take 16 (drop 4 bs)) = 20" using len by simp
    show ?thesis by (subst (1 2) bs) (use field_four [OF n, of big link] in \<open>simp only: capture_file_def append_assoc\<close>)
  qed
  have w: "(of_nat k :: u32) = of_nat j \<longleftrightarrow> k = j" if "k < 2 ^ 32" "j < 2 ^ 32" for k j
    using that by (simp add: word_unat_eq_iff unsigned_of_nat take_bit_nat_eq_self)
  have "big = (field32 0 bs = PCAP_MAGIC_SWAPPED \<or> field32 0 bs = PCAP_MAGIC_NS_SWAP)" and lt: "lt = of_nat link"
    and mg: "field32 0 bs = PCAP_MAGIC \<or> field32 0 bs = PCAP_MAGIC_NS \<or> big"
    and lk: "of_nat link = LINKTYPE_RAW \<or> of_nat link = LINKTYPE_ETHERNET \<or> of_nat link = LINKTYPE_IPV4 \<or> of_nat link = LINKTYPE_IPV6"
    using assms l by (auto simp: openAndValidate_def Let_def split: if_splits)
  have "swap32 PCAP_MAGIC_SWAPPED = PCAP_MAGIC" "swap32 PCAP_MAGIC_NS_SWAP = PCAP_MAGIC_NS" by (simp_all add: pcap_constants swap32_def)
  then have "of_nat magic = PCAP_MAGIC \<or> of_nat magic = PCAP_MAGIC_NS" using mg m \<open>big = _\<close> by (cases big) auto
  then have "magic \<in> {0xa1b2c3d4, 0xa1b23c4d}"
    using w [OF magic(1), where j = "0xa1b2c3d4"] w [OF magic(1), where j = "0xa1b23c4d"] by (auto simp: pcap_constants)
  moreover have "link \<in> {1, 101, 228, 229}"
    using lk w [OF link(1), where j = "1"] w [OF link(1), where j = "101"] w [OF link(1), where j = "228"] w [OF link(1), where j = "229"] by (auto simp: pcap_constants)
  ultimately have "well_formed big magic (take 16 (drop 4 bs)) link frames rest" using r len by (simp add: well_formed_def)
  with bs lt show thesis by (intro that)
qed

lemma sent_for_replayable:
  assumes "link \<in> {1, 101, 228, 229}"
  shows "replayable (of_nat link) (ts, bytes) = sent_for link (sec, usec, wire, bytes)"
proof -
  have t: "take 2 (drop 12 bytes) = [bytes ! 12, bytes ! 13]" if "14 < length bytes"
    using that by (simp add: list_eq_iff_nth_eq nth_Cons' numeral_2_eq_2) (auto simp: less_Suc_eq)
  have "ipOffsetFor (of_nat link) bytes = (if link = 1 then if 14 < length bytes \<and>
      (take 2 (drop 12 bytes) = [0x08, 0x00] \<or> take 2 (drop 12 bytes) = [0x86, 0xDD]) then Some 14 else None else Some 0)"
    using assms t by (auto simp: ipOffsetFor_def ETHER_HEADER_LEN_def LINKTYPE_ETHERNET_def)
  moreover have "drop_bit 4 w = w div 16" for w :: u8 by (simp add: drop_bit_eq_div)
  ultimately show ?thesis
    by (auto simp: replayable_def sent_for_def ip_of_frame_def wire_form_def IPHDR_def IP6_HDR_def)
qed

text \<open>A pass over any file the program opens.\<close>

lemma replay_read:
  fixes r :: replay and n :: nat
  assumes "unstopped r" "files (replayFilePath r) = Some bs" "openAndValidate (Some bs) = Inr (swapped, linkType)" "\<not> replayLoop r"
  defines "recs \<equiv> records swapped (drop 24 bs)" and "r' \<equiv> replay_finish (replay_passes (Suc n) files r)"
  shows "pcapReplayRead r' = pcapReplayRead r + length recs \<and>
     pcapReplaySent r' + pcapReplayFailed r' = pcapReplaySent r + pcapReplayFailed r + length recs \<and>
     \<not> pcapReplayIsActive r' \<and> \<not> replaySocket (sockets r') \<and> \<not> replaySocket6 (sockets r') \<and>
     (all_sent r \<longrightarrow> on_wire r' = on_wire r @ List.map_filter (replayable linkType) recs \<and>
        pcapReplaySent r' = pcapReplaySent r + length (List.map_filter (replayable linkType) recs))"
proof -
  let ?r = "r\<lparr>tick_pos := tick_pos r + 1\<rparr>"
  have u: "unstopped ?r" using assms(1) by (simp add: unstopped_def)
  from replay_pass_replayed [OF u, of linkType swapped "drop 24 bs" "replaySpeed r" "tick_src r (tick_pos r)" None]
  have d: "replayed linkType recs ?r (replay_pass swapped linkType (replaySpeed r) (tick_src r (tick_pos r)) None (drop 24 bs) ?r)"
    (is "replayed _ _ _ ?end") unfolding recs_def .
  have "replay_passes (Suc n) files r = ?end"
    using assms(2-4) d by (simp add: read_tick_def Let_def replayed_def)
  then show ?thesis using d
    by (simp add: r'_def replay_finish_def replayed_def all_sent_def pcapReplayRead_def pcapReplaySent_def pcapReplayFailed_def
      pcapReplayIsActive_def packetBackendInjectClose_def)
qed

text \<open>C35: A replay that nobody stops, of any capture file of the libpcap format (either byte order, Ethernet or raw IP), reads every record
  up to the first that is empty, longer than 65535 bytes or torn (nothing behind such a record is read), counts each as sent or failed, and ends
  inactive with its sockets closed. When the sockets can be opened and \<^verbatim>\<open>sendto\<close> succeeds, what goes out is
  every record that carries an IP packet, without its Ethernet header of 14 bytes, unchanged and in the order of the file,
  whatever the recorded times, the clock and the speed; except IPv4 packets below 20 bytes and IPv6 packets of 40 bytes or less, which
  count as failed.\<close>

theorem replay_sends_the_file:
  fixes r :: replay and n :: nat
  assumes "unstopped r" "\<not> replayLoop r"
    and capt: "files (replayFilePath r) = Some (capture_file big magic version link frames rest)"
      "well_formed big magic version link frames rest"
  defines "r' \<equiv> replay_finish (replay_passes (Suc n) files r)"
  shows "pcapReplayRead r' = pcapReplayRead r + length frames \<and>
     pcapReplaySent r' + pcapReplayFailed r' = pcapReplaySent r + pcapReplayFailed r + length frames \<and>
     \<not> pcapReplayIsActive r' \<and> \<not> replaySocket (sockets r') \<and> \<not> replaySocket6 (sockets r') \<and>
     (all_sent r \<longrightarrow> on_wire r' = on_wire r @ List.map_filter (sent_for link) frames \<and>
        pcapReplaySent r' = pcapReplaySent r + length (List.map_filter (sent_for link) frames))"
proof -
  have link: "link \<in> {1, 101, 228, 229}" using capt(2) by (simp add: well_formed_def)
  have sent: "replayable (of_nat link) (case f of (sec, usec, wire, bytes) \<Rightarrow> (of_nat sec * 1000000 + of_nat usec, bytes)) = sent_for link f" for f
    by (cases f) (simp add: sent_for_replayable [OF link])
  have "List.map_filter (replayable (of_nat link)) (List.map (\<lambda>(sec, usec, wire, bytes). (of_nat sec * 1000000 + of_nat usec, bytes)) frames) =
      List.map_filter (sent_for link) frames"
    by (simp add: List.map_filter_def filter_map comp_def sent)
  then show ?thesis
    using replay_read [where files = files and r = r and n = n, OF assms(1) capt(1) capture_read(1) [OF capt(2)] assms(2)] capture_read(2) [OF capt(2)]
    by (simp add: r'_def)
qed

definition fresh_replay :: replay where
  "fresh_replay = \<lparr>replayActive = True, replayStop = False, replayThread = True, replayReadCount = 0, replaySentCount = 0,
     replayFailedCount = 0, replayFilePath = ''a.pcap'', replaySpeed = Fin 1, replayLoop = False,
     sockets = \<lparr>replaySocket = False, replaySocket6 = False, replayOpenFailed = False, replayHdrIncl6 = False,
       can4 = True, can6 = True, hdr6 = True\<rparr>,
     stop_src = (\<lambda>_. False), stop_pos = 0, tick_src = (\<lambda>_. 0), tick_pos = 0, inject_src = (\<lambda>_. True), inject_pos = 0,
     on_wire = [], slept = []\<rparr>"

text \<open>A big-endian Ethernet capture with an IPv4 packet, a frame that is none, and an empty record.\<close>

definition sample_capture :: "u8 list" where
  "sample_capture = capture_file True 0xa1b2c3d4 (replicate 16 0) 1
     [(3, 0, 40, replicate 12 1 @ [8, 0] @ replicate 20 0x45), (4, 0, 20, replicate 20 1)] (replicate 16 0)"

lemma replay_sends_the_file_witness:
  "on_wire (replay_finish (replay_passes (Suc 0) (\<lambda>_. Some sample_capture) fresh_replay)) =
     [\<lparr>raw_v6 = False, raw_dst = [0x45, 0x45, 0x45, 0x45], raw_data = replicate 20 0x45\<rparr>]"
proof -
  let ?fs = "[(3, 0, 40, replicate 12 1 @ [8, 0] @ replicate 20 0x45), (4, 0, 20, replicate 20 1)] :: frame list"
  have z: "replicate 16 0 = replicate 8 0 @ four True 0 @ (replicate 4 0 :: u8 list)"
  proof -
    have "four True 0 = [0, 0, 0, 0]" by (simp add: four_def)
    moreover have "replicate 4 0 = [0, 0, 0, 0 :: u8]" by (simp add: numeral_eq_Suc)
    ultimately have "four True 0 = replicate 4 0" by simp
    then show ?thesis by (simp flip: replicate_add)
  qed
  have "\<exists>stamp n others. (replicate 16 0 :: u8 list) = stamp @ four True n @ others \<and> length stamp = 8 \<and> n < 2 ^ 32 \<and> (n = 0 \<or> 65535 < n \<or> length others < n + 4)"
    using z by (intro exI [of _ "replicate 8 0"] exI [of _ 0] exI [of _ "replicate 4 0"]) simp
  then have wf: "well_formed True 0xa1b2c3d4 (replicate 16 0) 1 ?fs (replicate 16 0)" by (simp add: well_formed_def)
  have s: "List.map_filter (sent_for 1) ?fs = [\<lparr>raw_v6 = False, raw_dst = [0x45, 0x45, 0x45, 0x45], raw_data = replicate 20 0x45\<rparr>]"
  proof -
    have two: "replicate 2 (1 :: u8) = [1, 1]" by (simp add: numeral_2_eq_2)
    have "ip_of_frame 1 (replicate 12 1 @ [8, 0] @ replicate 20 0x45) = Some (replicate 20 0x45)" "ip_of_frame 1 (replicate 20 1) = None"
      using two by (simp_all add: ip_of_frame_def)
    moreover have "replicate 4 (0x45 :: u8) = [0x45, 0x45, 0x45, 0x45]" by (simp add: numeral_eq_Suc)
    ultimately show ?thesis by (simp add: List.map_filter_simps sent_for_def)
  qed
  have f: "(\<lambda>_. Some sample_capture) (replayFilePath fresh_replay) = Some (capture_file True 0xa1b2c3d4 (replicate 16 0) 1 ?fs (replicate 16 0))"
    by (simp only: sample_capture_def)
  have u: "unstopped fresh_replay" "\<not> replayLoop fresh_replay" "all_sent fresh_replay" "on_wire fresh_replay = []"
    by (simp_all add: unstopped_def fresh_replay_def all_sent_def sockets_ready_def)
  show ?thesis
    using replay_sends_the_file [where files = "\<lambda>_. Some sample_capture" and r = fresh_replay and n = 0, OF u(1,2) f wf] u(3,4)
    unfolding s by simp
qed

text \<open>A looping replay of a file without records never sleeps, however many passes it makes.\<close>

lemma replay_empty_spins:
  "unstopped r \<Longrightarrow> files (replayFilePath r) = Some global_header \<Longrightarrow> replayLoop r \<Longrightarrow>
   slept (replay_passes n files r) = slept r"
proof (induction n arbitrary: r)
  case 0
  then show ?case by simp
next
  case (Suc n)
  let ?r = "\<lambda>i j. r\<lparr>tick_pos := i, stop_pos := j\<rparr>"
  have none: "next_record False (drop 24 global_header) = None" by (simp add: next_record_def global_header_def)
  have "unstopped (?r (tick_pos r + 1) (stop_pos r + 2))" "files (replayFilePath (?r (tick_pos r + 1) (stop_pos r + 2))) = Some global_header"
    "replayLoop (?r (tick_pos r + 1) (stop_pos r + 2))" using Suc.prems by (simp_all add: unstopped_def)
  from Suc.IH [OF this] show ?case
    using Suc.prems header_opens [of "[]"] none
    by (simp add: read_tick_def read_stop_def Let_def unstopped_def replay_pass.simps)
qed

end
