(* ===== verification/Args.thy ===== *)
theory Args
  imports Text
begin

text \<open>
  The argument table of \<^verbatim>\<open>src/src/utils.cpp\<close>: \<^verbatim>\<open>--key value\<close> pairs of the command line, kept with bounded keys and
  values. A missing value is \<open>None\<close>, where the code has a null pointer.
\<close>

definition MAX_ARGS :: nat where "MAX_ARGS = 64"
definition ARG_KEY_SIZE :: nat where "ARG_KEY_SIZE = 48"
definition ARG_VAL_SIZE :: nat where "ARG_VAL_SIZE = 1024"

type_synonym arg_table = "(string \<times> string) list"

fun set_arg :: "string \<Rightarrow> string \<Rightarrow> arg_table \<Rightarrow> arg_table option" where
  "set_arg key val [] = None"
| "set_arg key val ((k, v) # t) =
     (if k = key then Some ((k, take (ARG_VAL_SIZE - 1) val) # t) else map_option ((#) (k, v)) (set_arg key val t))"

definition argSet :: "string \<Rightarrow> string \<Rightarrow> arg_table \<Rightarrow> arg_table" where
  "argSet key val t =
     (case set_arg key val t of Some t \<Rightarrow> t
      | None \<Rightarrow>
         if MAX_ARGS \<le> length t then t
         else t @ [(take (ARG_KEY_SIZE - 1) key, take (ARG_VAL_SIZE - 1) val)])"

definition argGet :: "string \<Rightarrow> arg_table \<Rightarrow> string option" where
  "argGet key t = map_of t key"

definition argGetInt :: "string \<Rightarrow> int \<Rightarrow> arg_table \<Rightarrow> int" where
  "argGetInt key defVal t = (case argGet key t of Some v \<Rightarrow> atoi v | None \<Rightarrow> defVal)"

text \<open>\<open>argv\<close> without the name of the program.\<close>

fun parse_pairs :: "string list \<Rightarrow> arg_table \<Rightarrow> bool \<times> arg_table" where
  "parse_pairs [] t = (True, t)"
| "parse_pairs (a # r) t =
     (if take 2 a \<noteq> ''--'' \<or> length a = 2 then (False, t)
      else (case r of [] \<Rightarrow> (False, t) | v # r \<Rightarrow> parse_pairs r (argSet (drop 2 a) v t)))"

definition parseArgs :: "string list \<Rightarrow> arg_table \<Rightarrow> bool \<times> arg_table" where
  "parseArgs argv t = (if argv = [] then (False, t) else parse_pairs argv t)"

subsection \<open>The last value of a key counts\<close>

lemma set_arg_None: "set_arg key val t = None \<longleftrightarrow> key \<notin> fst ` set t"
  by (induction t) (auto split: if_splits)

lemma set_arg_Some: "set_arg key val t = Some t' \<Longrightarrow>
    map_of t' = (map_of t)(key \<mapsto> take (ARG_VAL_SIZE - 1) val) \<and> map fst t' = map fst t"
  by (induction t arbitrary: t') (auto split: if_splits simp: fun_eq_iff)

lemma argSet_table:
  assumes "length key < ARG_KEY_SIZE" "length val < ARG_VAL_SIZE" "card (insert key (fst ` set t)) \<le> MAX_ARGS" "distinct (map fst t)"
  shows "map_of (argSet key val t) = (map_of t)(key \<mapsto> val) \<and> fst ` set (argSet key val t) = insert key (fst ` set t) \<and>
    distinct (map fst (argSet key val t))"
proof (cases "set_arg key val t")
  case None
  then have key: "key \<notin> fst ` set t" by (simp add: set_arg_None)
  have "card (fst ` set t) = length t" using assms(4) distinct_card [of "map fst t"] by simp
  then have "length t < MAX_ARGS" using key assms(3) by simp
  moreover have "take (ARG_KEY_SIZE - 1) key = key" "take (ARG_VAL_SIZE - 1) val = val" using assms(1,2) by simp_all
  moreover have "map_of t key = None" using key by (simp add: map_of_eq_None_iff)
  ultimately show ?thesis using None key assms(4) by (auto simp: argSet_def map_add_def fun_eq_iff split: option.splits)
next
  case (Some t')
  have "take (ARG_VAL_SIZE - 1) val = val" using assms(2) by simp
  moreover have "key \<in> fst ` set t" using set_arg_None [of key val t] Some by auto
  moreover have "fst ` set t' = fst ` set t" using set_arg_Some [OF Some] by (metis list.set_map)
  ultimately show ?thesis using set_arg_Some [OF Some] assms(4) Some by (auto simp: argSet_def)
qed

text \<open>The words of a command line that gives the pairs \<open>kvs\<close>.\<close>

definition arg_words :: "(string \<times> string) list \<Rightarrow> string list" where
  "arg_words kvs = concat (map (\<lambda>(k, v). [''--'' @ k, v]) kvs)"

definition arg_fits :: "string \<times> string \<Rightarrow> bool" where
  "arg_fits kv \<longleftrightarrow> fst kv \<noteq> [] \<and> length (fst kv) < ARG_KEY_SIZE \<and> length (snd kv) < ARG_VAL_SIZE"

lemma parse_pairs_words:
  "\<forall>kv\<in>set kvs. arg_fits kv \<Longrightarrow> card (fst ` set kvs \<union> fst ` set t) \<le> MAX_ARGS \<Longrightarrow> distinct (map fst t) \<Longrightarrow>
   fst (parse_pairs (arg_words kvs) t) \<and> map_of (snd (parse_pairs (arg_words kvs) t)) = map_of t ++ map_of (rev kvs)"
proof (induction kvs arbitrary: t)
  case Nil
  then show ?case by (simp add: arg_words_def)
next
  case (Cons kv kvs)
  obtain k v where kv: "kv = (k, v)" by (cases kv)
  have fits: "k \<noteq> []" "length k < ARG_KEY_SIZE" "length v < ARG_VAL_SIZE" using Cons.prems(1) by (simp_all add: kv arg_fits_def)
  let ?U = "fst ` set (kv # kvs) \<union> fst ` set t"
  have "card (insert k (fst ` set t)) \<le> card ?U" by (rule card_mono) (auto simp: kv)
  with argSet_table [OF fits(2,3) _ Cons.prems(3)] Cons.prems(2)
  have t: "map_of (argSet k v t) = (map_of t)(k \<mapsto> v)" "fst ` set (argSet k v t) = insert k (fst ` set t)"
    "distinct (map fst (argSet k v t))" by simp_all
  have "fst ` set kvs \<union> fst ` set (argSet k v t) = ?U" by (auto simp: t(2) kv)
  then have "card (fst ` set kvs \<union> fst ` set (argSet k v t)) \<le> MAX_ARGS" using Cons.prems(2) by simp
  from Cons.IH [OF _ this t(3)] Cons.prems(1)
  have IH: "fst (parse_pairs (arg_words kvs) (argSet k v t))"
    "map_of (snd (parse_pairs (arg_words kvs) (argSet k v t))) = map_of (argSet k v t) ++ map_of (rev kvs)" by simp_all
  have step: "parse_pairs (arg_words (kv # kvs)) t = parse_pairs (arg_words kvs) (argSet k v t)"
    using fits(1) by (simp add: arg_words_def kv)
  show ?case unfolding step IH(2) t(1) using IH(1) by (simp add: kv map_add_def fun_eq_iff split: option.split)
qed

text \<open>A command line of pairs whose keys and values fit into the table, with at most 64 different keys, is accepted,
  and every key then stands for the last value given to it.\<close>

theorem arguments_last_value:
  assumes "kvs \<noteq> []" "\<forall>kv\<in>set kvs. arg_fits kv" "card (fst ` set kvs) \<le> MAX_ARGS"
  shows "\<exists>t. parseArgs (arg_words kvs) [] = (True, t) \<and> (\<forall>key. argGet key t = map_of (rev kvs) key)"
proof -
  have "arg_words kvs \<noteq> []" using assms(1) by (cases kvs) (auto simp: arg_words_def)
  with parse_pairs_words [of kvs "[]"] assms(2,3) show ?thesis
    by (intro exI [of _ "snd (parse_pairs (arg_words kvs) [])"]) (simp add: parseArgs_def argGet_def prod_eq_iff)
qed

end
