(* ===== verification/Module_Specs.thy ===== *)
theory Module_Specs
  imports Scenario Args
begin

text \<open>
  The columns of \<^verbatim>\<open>modules\<close> that the command line and the control API read, and \<^verbatim>\<open>applyCliModuleParams\<close> of \<^verbatim>\<open>src/src/main.cpp\<close>, which offers every argument of the command line
  to the module it names.
\<close>

text \<open>Short name, display name, parameters and \<^verbatim>\<open>setParam\<close> of each module, in the order of the table.\<close>

definition module_infos :: "(string \<times> string \<times> param_spec list \<times> 'a setter) list" where
  "module_infos =
     [(''lag'', ''Lag'', lagParamSpecs, set_lag),
      (''jitter'', ''Jitter'', jitterParamSpecs, set_jitter),
      (''drop'', ''Drop'', dropParamSpecs, set_drop),
      (''burstloss'', ''Burst Loss'', burstlossParamSpecs, set_burstloss),
      (''blackout'', ''Blackout'', blackoutParamSpecs, set_blackout),
      (''throttle'', ''Throttle'', throttleParamSpecs, set_throttle),
      (''duplicate'', ''Duplicate'', dupParamSpecs, set_dup),
      (''ood'', ''Out of order'', oodParamSpecs, set_ood),
      (''tamper'', ''Tamper'', tamperParamSpecs, set_tamper),
      (''corrupt'', ''Corrupt'', corruptParamSpecs, set_corrupt),
      (''reset'', ''Set TCP RST'', resetParamSpecs, set_reset),
      (''bandwidth'', ''Bandwidth'', bandwidthParamSpecs, set_bandwidth)]"

definition findModule :: "string \<Rightarrow> (string \<times> string \<times> param_spec list \<times> 'a setter) option" where
  "findModule name = find (\<lambda>m. fst m = name) module_infos"

subsection \<open>The command line\<close>

fun cli_params :: "arg_table \<Rightarrow> 'a setter \<Rightarrow> param_spec list \<Rightarrow> 'a mods_scheme \<Rightarrow> 'a mods_scheme option" where
  "cli_params t setter [] s = Some s"
| "cli_params t setter (p # ps) s =
     (case argGet (ps_key p) t of None \<Rightarrow> cli_params t setter ps s
      | Some v \<Rightarrow> Option.bind (setter (ps_key p) v s) (\<lambda>(ok, s). cli_params t setter ps s))"

fun cli_modules :: "arg_table \<Rightarrow> (string \<times> string \<times> param_spec list \<times> 'a setter) list \<Rightarrow> 'a mods_scheme \<Rightarrow> 'a mods_scheme option" where
  "cli_modules t [] s = Some s"
| "cli_modules t ((name, display, specs, setter) # ms) s =
     (let s = (case argGet name t of None \<Rightarrow> s
               | Some v \<Rightarrow> (case set_enabled name (parseBoolValue v) s of None \<Rightarrow> s | Some s \<Rightarrow> s))
      in Option.bind (cli_params t setter specs s) (cli_modules t ms))"

definition applyCliModuleParams :: "arg_table \<Rightarrow> 'a mods_scheme \<Rightarrow> 'a mods_scheme option" where
  "applyCliModuleParams t s = cli_modules t module_infos s"

subsection \<open>The table and its columns agree\<close>

lemma infos_setters: "map (\<lambda>(name, display, specs, setter). setter) module_infos = setters"
  by (simp add: module_infos_def setters_def)

lemma infos_names: "map fst module_infos = map fst (module_rows s)" "map fst module_infos = map fst (affected_counts s)"
  by (simp_all add: module_infos_def module_rows_def affected_counts_def)

lemma infos_safe: "(name, display, specs, setter) \<in> set module_infos \<Longrightarrow> safe_setter setter"
  using setters_safe infos_setters by (metis (no_types, lifting) case_prod_conv image_eqI list.set_map)

lemma findModule_safe: "findModule name = Some (n, display, specs, setter) \<Longrightarrow> safe_setter setter"
proof -
  assume "findModule name = Some (n, display, specs, setter)"
  then have "(n, display, specs, setter) \<in> set module_infos"
    unfolding findModule_def find_Some_iff by (metis nth_mem)
  then show ?thesis by (rule infos_safe)
qed

lemma cli_params_same_run: "safe_setter setter \<Longrightarrow> cli_params t setter ps s = Some s' \<Longrightarrow> same_run s s'"
  by (induction t setter ps s rule: cli_params.induct)
    (auto split: option.splits Option.bind_splits dest!: safe_setterD intro: same_run_trans)

lemma cli_params_none: "\<forall>p\<in>set ps. argGet (ps_key p) t = None \<Longrightarrow> cli_params t setter ps s = Some s"
  by (induction t setter ps s rule: cli_params.induct) simp_all

lemma cli_modules_same_run:
  "\<forall>(name, display, specs, setter)\<in>set ms. safe_setter setter \<Longrightarrow> cli_modules t ms s = Some s' \<Longrightarrow> same_run s s'"
proof (induction t ms s rule: cli_modules.induct)
  case (2 t name display specs setter ms s)
  define s1 where "s1 = (case argGet name t of None \<Rightarrow> s
     | Some v \<Rightarrow> (case set_enabled name (parseBoolValue v) s of None \<Rightarrow> s | Some s \<Rightarrow> s))"
  have a: "same_run s s1" by (auto simp: s1_def split: option.split dest: set_enabled_same_run)
  obtain s2 where r: "cli_params t setter specs s1 = Some s2" "cli_modules t ms s2 = Some s'"
    using 2(3) by (auto simp: s1_def Let_def split: Option.bind_splits)
  have b: "same_run s1 s2" by (rule cli_params_same_run [OF _ r(1)]) (use 2(2) in simp)
  have "same_run s2 s'" by (rule 2(1) [OF s1_def]) (use 2(2) r in simp_all)
  then show ?case by (rule same_run_trans [OF same_run_trans [OF a b]])
qed simp

lemma applyCliModuleParams_same_run: "applyCliModuleParams t s = Some s' \<Longrightarrow> same_run s s'"
  unfolding applyCliModuleParams_def
proof (rule cli_modules_same_run)
  show "\<forall>(name, display, specs, setter)\<in>set (module_infos :: (string \<times> string \<times> param_spec list \<times> 'a setter) list). safe_setter setter"
    using infos_safe by blast
qed

text \<open>What the form of a parameter may send: a number with one digit after the point for a percentage, any text for the rest.\<close>

definition form_value :: "param_spec \<Rightarrow> string \<Rightarrow> bool" where
  "form_value p v \<longleftrightarrow> (ps_type p = ''percent'' \<longrightarrow> (\<exists>n\<le>1000. v = tenths_text n))"

lemmas param_specs = lagParamSpecs_def jitterParamSpecs_def dropParamSpecs_def burstlossParamSpecs_def blackoutParamSpecs_def
  throttleParamSpecs_def dupParamSpecs_def oodParamSpecs_def tamperParamSpecs_def corruptParamSpecs_def resetParamSpecs_def
  bandwidthParamSpecs_def spec_def

lemma percent_form:
  "form_value \<lparr>ps_key = k, ps_label = l, ps_type = ''percent'', ps_min = lo, ps_max = hi, ps_options = opts\<rparr> v \<Longrightarrow>
   \<exists>c. percent_value v = Some c"
  by (auto simp: form_value_def percent_tenths)

text \<open>Every parameter a module announces is one its \<^verbatim>\<open>setParam\<close> knows.\<close>

definition announced :: "param_spec list \<Rightarrow> 'a setter \<Rightarrow> bool" where
  "announced specs setter \<longleftrightarrow> (\<forall>p\<in>set specs. \<forall>v s. form_value p v \<longrightarrow> (\<exists>s'. setter (ps_key p) v s = Some (True, s')))"

lemma announced_lag: "announced lagParamSpecs set_lag"
  by (auto simp: announced_def param_specs set_lag_def lagSetParam_def dest!: percent_form)

lemma announced_jitter: "announced jitterParamSpecs set_jitter"
  by (auto simp: announced_def param_specs set_jitter_def jitterSetParam_def dest!: percent_form)

lemma announced_drop: "announced dropParamSpecs set_drop"
  by (auto simp: announced_def param_specs set_drop_def dropSetParam_def dest!: percent_form)

lemma announced_burstloss: "announced burstlossParamSpecs set_burstloss"
  by (auto simp: announced_def param_specs set_burstloss_def burstlossSetParam_def dest!: percent_form)

lemma announced_blackout: "announced blackoutParamSpecs set_blackout"
  by (auto simp: announced_def param_specs set_blackout_def blackoutSetParam_def dest!: percent_form)

lemma announced_throttle: "announced throttleParamSpecs set_throttle"
  by (auto simp: announced_def param_specs set_throttle_def throttleSetParam_def dest!: percent_form)

lemma announced_dup: "announced dupParamSpecs set_dup"
  by (auto simp: announced_def param_specs set_dup_def dupSetParam_def dest!: percent_form)

lemma announced_ood: "announced oodParamSpecs set_ood"
  by (auto simp: announced_def param_specs set_ood_def oodSetParam_def dest!: percent_form)

lemma announced_tamper: "announced tamperParamSpecs set_tamper"
  by (auto simp: announced_def param_specs set_tamper_def tamperSetParam_def dest!: percent_form)

lemma announced_corrupt: "announced corruptParamSpecs set_corrupt"
  by (auto simp: announced_def param_specs set_corrupt_def corruptSetParam_def dest!: percent_form)

lemma announced_reset: "announced resetParamSpecs set_reset"
  by (auto simp: announced_def param_specs set_reset_def resetSetParam_def dest!: percent_form)

lemma announced_bandwidth: "announced bandwidthParamSpecs set_bandwidth"
  by (auto simp: announced_def param_specs set_bandwidth_def bandwidthSetParam_def dest!: percent_form)



end
