(* ===== verification/Search.thy ===== *)
theory Search
  imports Text
begin

text \<open>
  Searching in C strings and in \<^verbatim>\<open>std::string\<close>: \<^verbatim>\<open>strstr\<close>, \<^verbatim>\<open>strchr\<close> and the two forms of \<^verbatim>\<open>find\<close>, as
  \<^verbatim>\<open>httpserver.cpp\<close> and \<^verbatim>\<open>main.cpp\<close> use them.
\<close>

text \<open>\<^verbatim>\<open>find\<close> of a string: what stands before and after its first occurrence.\<close>

fun find_sub :: "string \<Rightarrow> string \<Rightarrow> (string \<times> string) option" where
  "find_sub p s =
     (if take (length p) s = p then Some ([], drop (length p) s)
      else case s of [] \<Rightarrow> None | c # r \<Rightarrow> map_option (\<lambda>(a, b). (c # a, b)) (find_sub p r))"

declare find_sub.simps [simp del]

text \<open>\<^verbatim>\<open>find\<close> of a character.\<close>

definition find_char :: "char \<Rightarrow> string \<Rightarrow> (string \<times> string) option" where
  "find_char c s = (case dropWhile (\<lambda>d. d \<noteq> c) s of [] \<Rightarrow> None | _ # r \<Rightarrow> Some (takeWhile (\<lambda>d. d \<noteq> c) s, r))"

text \<open>\<^verbatim>\<open>c_str()\<close> as the C functions see it.\<close>

definition c_string :: "string \<Rightarrow> string" where
  "c_string s = takeWhile (\<lambda>c. c \<noteq> CHR 0x00) s"

lemma find_sub_length: "find_sub p s = Some (a, b) \<Longrightarrow> s = a @ p @ b"
proof (induction p s arbitrary: a rule: find_sub.induct)
  case (1 p s)
  show ?case
  proof (cases "take (length p) s = p")
    case True
    then show ?thesis using "1.prems" append_take_drop_id [of "length p" s] by (subst (asm) find_sub.simps) simp
  next
    case False
    then show ?thesis using "1.prems" "1.IH" [OF False] by (subst (asm) find_sub.simps) (auto split: list.splits)
  qed
qed

lemma find_char_parts: "find_char c s = Some (a, b) \<Longrightarrow> s = a @ c # b"
proof -
  assume f: "find_char c s = Some (a, b)"
  then obtain d r where d: "dropWhile (\<lambda>d. d \<noteq> c) s = d # r" "a = takeWhile (\<lambda>d. d \<noteq> c) s" "b = r"
    by (auto simp: find_char_def split: list.splits)
  have "d = c" using hd_dropWhile [of "\<lambda>d. d \<noteq> c" s] by (simp add: d(1))
  then show ?thesis using takeWhile_dropWhile_id [of "\<lambda>d. d \<noteq> c" s] by (simp add: d)
qed

lemma find_char_some: "c \<notin> set a \<Longrightarrow> find_char c (a @ c # b) = Some (a, b)"
  by (induction a) (auto simp: find_char_def split: list.splits)

lemma find_char_none: "find_char c s = None \<longleftrightarrow> c \<notin> set s"
proof -
  have "find_char c s = None \<longleftrightarrow> dropWhile (\<lambda>d. d \<noteq> c) s = []" 
    by (cases "dropWhile (\<lambda>d. d \<noteq> c) s") (simp_all only: find_char_def list.case option.distinct list.distinct not_Cons_self2 simp_thms)
  then show ?thesis unfolding dropWhile_eq_Nil_conv by blast
qed

lemma find_char_length: "find_char c s = Some (a, b) \<Longrightarrow> length b < length s"
  by (drule find_char_parts) simp

end
