(* ===== verification/Presets.thy ===== *)
theory Presets
  imports Flat_Text Search
begin

text \<open>
  The filter presets of \<^verbatim>\<open>src/src/main.cpp\<close>: the table, the two configuration files it is read from and the
  one it is written to. A file is its text, \<open>None\<close> when it cannot be opened. The places where the code ends
  a string inside its buffer are behind everything it reads later, so they are not part of the model.
\<close>

definition CONFIG_MAX_RECORDS :: nat where "CONFIG_MAX_RECORDS = 64"
definition CONFIG_BUF_SIZE :: nat where "CONFIG_BUF_SIZE = 8192"
definition PRESET_NAME_SIZE :: nat where "PRESET_NAME_SIZE = 64"
definition FILTER_BUFSIZE :: nat where "FILTER_BUFSIZE = 1024"

record preset =
  preset_name :: string
  preset_filter :: string

text \<open>The table and the two files.\<close>

record preset_store =
  filters :: "preset list"
  config_json :: "string option"
  config_txt :: "string option"

definition addPreset :: "string \<Rightarrow> string \<Rightarrow> preset list \<Rightarrow> preset list" where
  "addPreset name filt ps =
     (if CONFIG_MAX_RECORDS \<le> length ps then ps
      else ps @ [\<lparr>preset_name = take (PRESET_NAME_SIZE - 1) name, preset_filter = take (FILTER_BUFSIZE - 1) filt\<rparr>])"

subsection \<open>Reading config.json\<close>

text \<open>From just after an opening bracket: the text through the matching closing bracket, or all of it.\<close>

fun to_bracket :: "nat \<Rightarrow> string \<Rightarrow> string" where
  "to_bracket depth [] = []"
| "to_bracket depth (c # r) =
     (if depth = 0 then []
      else c # to_bracket (if c = CHR ''['' then depth + 1 else if c = CHR '']'' then depth - 1 else depth) r)"

text \<open>The quoted strings of an object, two by two; what stands between them is skipped.\<close>

function quoted_pairs :: "string \<Rightarrow> (string \<times> string) list" where
  "quoted_pairs s =
     (case find_char CHR 0x22 s of None \<Rightarrow> [] | Some (_, s1) \<Rightarrow>
       (case find_char CHR 0x22 s1 of None \<Rightarrow> [] | Some (key, s2) \<Rightarrow>
         (case find_char CHR 0x22 s2 of None \<Rightarrow> [] | Some (_, s3) \<Rightarrow>
           (case find_char CHR 0x22 s3 of None \<Rightarrow> [] | Some (val, s4) \<Rightarrow> (key, val) # quoted_pairs s4))))"
  by pat_completeness auto
termination
proof (relation "measure length", goal_cases)
  case (2 s p1 a s1 p2 key s2 p3 b s3 p4 val s4)
  note len = find_char_length
  have "length s4 < length s3" "length s3 < length s2" "length s2 < length s1" "length s1 < length s"
    using len [of _ s3 val s4] len [of _ s2 b s3] len [of _ s1 key s2] len [of _ s a s1] 2 by simp_all
  then show ?case by simp
qed simp

declare quoted_pairs.simps [simp del]

definition last_value :: "string \<Rightarrow> (string \<times> string) list \<Rightarrow> string option" where
  "last_value key kvs = map_of (rev kvs) key"

definition add_object :: "string \<Rightarrow> preset list \<Rightarrow> preset list" where
  "add_object body ps =
     (let kvs = quoted_pairs body in
      case (last_value ''name'' kvs, last_value ''filter'' kvs) of
        (Some name, Some filt) \<Rightarrow> addPreset name filt ps
      | _ \<Rightarrow> ps)"

function preset_loop :: "string \<Rightarrow> preset list \<Rightarrow> preset list" where
  "preset_loop s ps =
     (if CONFIG_MAX_RECORDS \<le> length ps then ps
      else (case dropWhile (\<lambda>c. c \<noteq> CHR ''{'' \<and> c \<noteq> CHR '']'') s of [] \<Rightarrow> ps
            | c # r \<Rightarrow> if c = CHR '']'' then ps
                       else (case object_text r of (body, rest) \<Rightarrow> preset_loop rest (add_object body ps))))"
  by pat_completeness auto
termination
proof (relation "measure (\<lambda>(s, ps). length s)", goal_cases)
  case (2 s ps c r body rest)
  have "length rest \<le> length r" using object_text_length [of r body rest] 2(4) by simp
  moreover have "length (c # r) \<le> length s" using length_dropWhile_le [of "\<lambda>c. c \<noteq> CHR ''{'' \<and> c \<noteq> CHR '']''" s] 2(2) by simp
  ultimately show ?case by simp
qed simp

declare preset_loop.simps [simp del]

text \<open>The flag is the return value: whether any record was loaded.\<close>

definition loadConfigJson :: "string option \<Rightarrow> preset list \<Rightarrow> bool \<times> preset list" where
  "loadConfigJson file ps =
     (case file of None \<Rightarrow> (False, ps)
      | Some t \<Rightarrow>
         if t = [] then (False, ps)
         else
           (case find_sub (CHR 0x22 # ''filters'' @ [CHR 0x22]) (read_buffer (CONFIG_BUF_SIZE + 1) t) of None \<Rightarrow> (False, ps)
            | Some (_, r) \<Rightarrow>
               (case find_char CHR ''['' (CHR 0x22 # ''filters'' @ [CHR 0x22] @ r) of None \<Rightarrow> (False, ps)
                | Some (_, r) \<Rightarrow> let ps = preset_loop (to_bracket 1 r) [] in (ps \<noteq> [], ps))))"

subsection \<open>Reading config.txt\<close>

text \<open>The label \<^verbatim>\<open>EAT_SPACE\<close>: white space and comment lines; \<open>None\<close>: the last comment has no end.\<close>

function eat_space :: "string \<Rightarrow> string option" where
  "eat_space s =
     (case dropWhile is_space s of [] \<Rightarrow> Some []
      | c # r \<Rightarrow> if c = CHR ''#'' then (case find_char CHR 0x0A (c # r) of None \<Rightarrow> None | Some (_, t) \<Rightarrow> eat_space t)
                 else Some (c # r))"
  by pat_completeness auto
termination
proof (relation "measure length", goal_cases)
  case (2 s c r p a t)
  have "length t < length (c # r)" using find_char_length 2(3,4) by fastforce
  moreover have "length (c # r) \<le> length s" using length_dropWhile_le [of is_space s] 2(1) by simp
  ultimately show ?case by simp
qed simp

declare eat_space.simps [simp del]

definition drop_cr :: "string \<Rightarrow> string" where
  "drop_cr s = (if s \<noteq> [] \<and> last s = CHR 0x0D then butlast s else s)"

text \<open>One turn of the loop: the record and what follows it.\<close>

definition txt_record :: "string \<Rightarrow> ((string \<times> string) \<times> string) option" where
  "txt_record s =
     (case eat_space s of None \<Rightarrow> None
      | Some t \<Rightarrow>
         (case find_char CHR '':'' t of None \<Rightarrow> None
          | Some (name, r) \<Rightarrow>
             (case find_char CHR 0x0A (dropWhile is_space r) of None \<Rightarrow> None
              | Some (filt, rest) \<Rightarrow> Some ((name, drop_cr filt), rest))))"

lemma eat_space_length: "eat_space s = Some t \<Longrightarrow> length t \<le> length s"
proof (induction s rule: eat_space.induct)
  case (1 s)
  note len = length_dropWhile_le [of is_space s]
  show ?case
  proof (cases "dropWhile is_space s")
    case Nil
    have "t = []" using 1(2) unfolding eat_space.simps [of s] Nil list.case by simp
    then show ?thesis by simp
  next
    case (Cons c r)
    show ?thesis
    proof (cases "c = CHR ''#''")
      case True
      then obtain a u where u: "find_char CHR 0x0A (c # r) = Some (a, u)" "eat_space u = Some t"
        using 1(2) Cons by (auto simp: eat_space.simps [of s] split: option.splits)
      then show ?thesis using 1(1) [OF Cons True u(1)] find_char_length [OF u(1)] Cons len by simp
    next
      case False
      then show ?thesis using 1(2) Cons len by (simp add: eat_space.simps [of s])
    qed
  qed
qed

lemma txt_record_length: "txt_record s = Some (p, rest) \<Longrightarrow> length rest < length s"
proof -
  assume "txt_record s = Some (p, rest)"
  then obtain t name r filt where t: "eat_space s = Some t" "find_char CHR '':'' t = Some (name, r)"
    "find_char CHR 0x0A (dropWhile is_space r) = Some (filt, rest)"
    by (auto simp: txt_record_def split: option.splits)
  show ?thesis
    using eat_space_length [OF t(1)] find_char_length [OF t(2)] find_char_length [OF t(3)] length_dropWhile_le [of is_space r] by simp
qed

text \<open>\<open>whole\<close> is the length of the whole text, so \<^verbatim>\<open>last - configBuf\<close> is what has been read of it.\<close>

function txt_loop :: "nat \<Rightarrow> string \<Rightarrow> preset list \<Rightarrow> preset list" where
  "txt_loop whole s ps =
     (case txt_record s of None \<Rightarrow> ps
      | Some ((name, filt), rest) \<Rightarrow>
         let ps = addPreset name filt ps
         in if whole - length rest < CONFIG_BUF_SIZE then txt_loop whole rest ps else ps)"
  by pat_completeness auto
termination
  by (relation "measure (\<lambda>(n, s, ps). length s)") (auto dest: txt_record_length)

declare txt_loop.simps [simp del]

definition loadConfigTxt :: "string option \<Rightarrow> preset list \<Rightarrow> bool \<times> preset list" where
  "loadConfigTxt file ps =
     (case file of None \<Rightarrow> (False, ps)
      | Some t \<Rightarrow>
         let s = c_string (take CONFIG_BUF_SIZE t @ [CHR 0x0A]); ps = txt_loop (length s) s []
         in (ps \<noteq> [], ps))"

definition loadConfig :: "preset_store \<Rightarrow> preset_store" where
  "loadConfig st =
     (case loadConfigJson (config_json st) (filters st) of (ok, ps) \<Rightarrow>
        if ok then st\<lparr>filters := ps\<rparr>
        else (case loadConfigTxt (config_txt st) ps of (ok, ps) \<Rightarrow>
          if ok then st\<lparr>filters := ps\<rparr>
          else st\<lparr>filters := addPreset ''loopback packets''
                    ''outbound and ip.DstAddr >= 127.0.0.1 and ip.DstAddr <= 127.255.255.255'' []\<rparr>))"

definition appPresetCount :: "preset_store \<Rightarrow> nat" where
  "appPresetCount st = length (filters st)"

definition appPresetName :: "int \<Rightarrow> preset_store \<Rightarrow> string" where
  "appPresetName ix st = (if 0 \<le> ix \<and> ix < int (length (filters st)) then preset_name (filters st ! nat ix) else [])"

definition appPresetFilter :: "int \<Rightarrow> preset_store \<Rightarrow> string" where
  "appPresetFilter ix st = (if 0 \<le> ix \<and> ix < int (length (filters st)) then preset_filter (filters st ! nat ix) else [])"

subsection \<open>Saving\<close>

text \<open>\<open>room\<close> is \<^verbatim>\<open>dstSize - 2 - i\<close>: the loop goes on while it is positive.\<close>

fun escape_into :: "string \<Rightarrow> int \<Rightarrow> string" where
  "escape_into [] room = []"
| "escape_into (c # s) room =
     (if room \<le> 0 then []
      else if c = CHR 0x22 \<or> c = CHR 0x5C then CHR 0x5C # c # escape_into s (room - 2)
      else if code c < 0x20 then CHR '' '' # escape_into s (room - 1)
      else c # escape_into s (room - 1))"

definition jsonEscapeInto :: "string \<Rightarrow> nat \<Rightarrow> string" where
  "jsonEscapeInto src dstSize = escape_into src (int dstSize - 2)"

abbreviation qq :: string where "qq \<equiv> [CHR 0x22]"

definition preset_line :: "preset \<Rightarrow> string" where
  "preset_line p = ''    { '' @ qq @ ''name'' @ qq @ '': '' @ qq @ jsonEscapeInto (preset_name p) (PRESET_NAME_SIZE * 2) @ qq @ '', '' @
     qq @ ''filter'' @ qq @ '': '' @ qq @ jsonEscapeInto (preset_filter p) (FILTER_BUFSIZE * 2) @ qq @ '' }''"

fun preset_lines :: "preset list \<Rightarrow> string" where
  "preset_lines [] = []"
| "preset_lines [p] = preset_line p @ [CHR 0x0A]"
| "preset_lines (p # ps) = preset_line p @ '','' @ [CHR 0x0A] @ preset_lines ps"

definition presets_text :: "preset list \<Rightarrow> string" where
  "presets_text ps = ''{'' @ [CHR 0x0A] @ ''  '' @ qq @ ''filters'' @ qq @ '': ['' @ [CHR 0x0A] @ preset_lines ps @
     ''  ]'' @ [CHR 0x0A] @ ''}'' @ [CHR 0x0A]"

text \<open>The first preset of that name gets the new filter.\<close>

fun set_filter :: "string \<Rightarrow> string \<Rightarrow> preset list \<Rightarrow> preset list" where
  "set_filter name filt [] = []"
| "set_filter name filt (p # ps) =
     (if preset_name p = name then p\<lparr>preset_filter := take (FILTER_BUFSIZE - 1) filt\<rparr> # ps else p # set_filter name filt ps)"

definition appPresetSave :: "bool \<Rightarrow> string \<Rightarrow> string \<Rightarrow> preset_store \<Rightarrow> bool \<times> preset_store" where
  "appPresetSave can_write name filt st =
     (if name = [] \<or> filt = [] then (False, st)
      else
        (let existing = (\<exists>p\<in>set (filters st). preset_name p = name) in
         if \<not> existing \<and> CONFIG_MAX_RECORDS \<le> length (filters st) then (False, st)
         else
           (let st = st\<lparr>filters := (if existing then set_filter name filt (filters st) else addPreset name filt (filters st))\<rparr>
            in if can_write then (True, st\<lparr>config_json := Some (presets_text (filters st))\<rparr>) else (False, st))))"

subsection \<open>What is saved is read back\<close>

text \<open>Texts the file can hold: quotes, backslashes, brackets, braces and control characters do not survive.\<close>

definition preset_char :: "char \<Rightarrow> bool" where
  "preset_char c \<longleftrightarrow> 0x20 \<le> code c \<and> c \<notin> {CHR 0x22, CHR 0x5C, CHR ''['', CHR '']'', CHR ''{'', CHR ''}''}"

definition plain_preset :: "preset \<Rightarrow> bool" where
  "plain_preset p \<longleftrightarrow> list_all preset_char (preset_name p) \<and> list_all preset_char (preset_filter p) \<and>
     length (preset_name p) < PRESET_NAME_SIZE \<and> length (preset_filter p) < FILTER_BUFSIZE"

lemma escape_plain: "list_all preset_char s \<Longrightarrow> int (length s) \<le> room \<Longrightarrow> escape_into s room = s"
  by (induction s room rule: escape_into.induct) (auto simp: preset_char_def)

lemma jsonEscapeInto_plain: "list_all preset_char s \<Longrightarrow> length s < n \<Longrightarrow> 1 \<le> n \<Longrightarrow> jsonEscapeInto s (n * 2) = s"
  unfolding jsonEscapeInto_def by (rule escape_plain) simp_all

lemma find_sub_plain: "p \<noteq> [] \<Longrightarrow> hd p \<notin> set a \<Longrightarrow> find_sub p (a @ p @ r) = Some (a, r)"
proof (induction a)
  case Nil
  then show ?case by (subst find_sub.simps) simp
next
  case (Cons c a)
  then have "take (length p) ((c # a) @ p @ r) \<noteq> p" by (cases p) auto
  with Cons show ?case by (subst find_sub.simps) simp
qed

definition preset_body :: "preset \<Rightarrow> string" where
  "preset_body p = '' '' @ qq @ ''name'' @ qq @ '': '' @ qq @ preset_name p @ qq @ '', '' @ qq @ ''filter'' @ qq @ '': '' @ qq @ preset_filter p @ qq @ '' ''"

lemma preset_line_body: "plain_preset p \<Longrightarrow> preset_line p = ''    {'' @ preset_body p @ ''}''"
proof -
  assume p: "plain_preset p"
  have "jsonEscapeInto (preset_name p) (PRESET_NAME_SIZE * 2) = preset_name p"
    "jsonEscapeInto (preset_filter p) (FILTER_BUFSIZE * 2) = preset_filter p"
    using p by (intro jsonEscapeInto_plain; simp add: plain_preset_def PRESET_NAME_SIZE_def FILTER_BUFSIZE_def)+
  then show ?thesis by (simp add: preset_line_def preset_body_def)
qed

lemma quoted_pairs_step:
  "CHR 0x22 \<notin> set a \<Longrightarrow> CHR 0x22 \<notin> set k \<Longrightarrow> CHR 0x22 \<notin> set b \<Longrightarrow> CHR 0x22 \<notin> set v \<Longrightarrow>
   quoted_pairs (a @ CHR 0x22 # k @ CHR 0x22 # b @ CHR 0x22 # v @ CHR 0x22 # r) = (k, v) # quoted_pairs r"
  by (subst quoted_pairs.simps) (simp add: find_char_some)

lemma quoted_pairs_end: "CHR 0x22 \<notin> set s \<Longrightarrow> quoted_pairs s = []"
  by (subst quoted_pairs.simps) (simp add: find_char_none [THEN iffD2])

lemma no_quote: "list_all preset_char s \<Longrightarrow> CHR 0x22 \<notin> set s"
  by (auto simp: list_all_iff preset_char_def)

lemma body_pairs: "plain_preset p \<Longrightarrow> quoted_pairs (preset_body p) = [(''name'', preset_name p), (''filter'', preset_filter p)]"
  using quoted_pairs_step [of "'' ''" "''name''" "'': ''" "preset_name p" "'', '' @ qq @ ''filter'' @ qq @ '': '' @ qq @ preset_filter p @ qq @ '' ''"]
    quoted_pairs_step [of "'', ''" "''filter''" "'': ''" "preset_filter p" "'' ''"]
  by (simp add: preset_body_def plain_preset_def no_quote quoted_pairs_end)

lemma add_object_body: "plain_preset p \<Longrightarrow> length ps < CONFIG_MAX_RECORDS \<Longrightarrow> add_object (preset_body p) ps = ps @ [p]"
proof -
  assume p: "plain_preset p" and ps: "length ps < CONFIG_MAX_RECORDS"
  have "take (PRESET_NAME_SIZE - 1) (preset_name p) = preset_name p" "take (FILTER_BUFSIZE - 1) (preset_filter p) = preset_filter p"
    using p by (simp_all add: plain_preset_def PRESET_NAME_SIZE_def FILTER_BUFSIZE_def)
  then show ?thesis using ps by (simp add: add_object_def body_pairs [OF p] last_value_def addPreset_def)
qed

lemma to_close_plain: "CHR ''{'' \<notin> set a \<Longrightarrow> CHR ''}'' \<notin> set a \<Longrightarrow> to_close 1 (a @ CHR ''}'' # r) = (a @ ''}'', r)"
proof (induction a)
  case Nil
  have "to_close 0 r = ([], r)" by (cases r) simp_all
  then show ?case by simp
qed auto

lemma body_chars: "plain_preset p \<Longrightarrow> set (preset_body p) \<inter> {CHR ''['', CHR '']'', CHR ''{'', CHR ''}''} = {}"
  by (auto simp: preset_body_def plain_preset_def list_all_iff preset_char_def)

lemma object_body: "plain_preset p \<Longrightarrow> object_text (preset_body p @ CHR ''}'' # r) = (preset_body p, r)"
  using body_chars [of p] by (subst object_text_def, subst to_close_plain) auto

lemma preset_loop_step:
  assumes "plain_preset p" "length ps < CONFIG_MAX_RECORDS" "set x \<inter> {CHR ''{'', CHR '']''} = {}"
  shows "preset_loop (x @ preset_line p @ r) ps = preset_loop r (ps @ [p])"
proof -
  have "dropWhile (\<lambda>c. c \<noteq> CHR ''{'' \<and> c \<noteq> CHR '']'') (x @ preset_line p @ r) = CHR ''{'' # preset_body p @ CHR ''}'' # r"
    unfolding preset_line_body [OF assms(1)] using assms(3) by (subst dropWhile_append2) auto
  then show ?thesis
    using assms(1,2) by (subst preset_loop.simps) (simp add: object_body add_object_body not_le)
qed

lemma preset_loop_end: "set x \<inter> {CHR ''{'', CHR '']''} = {} \<Longrightarrow> preset_loop (x @ CHR '']'' # r) ps = ps"
proof -
  assume "set x \<inter> {CHR ''{'', CHR '']''} = {}"
  then have "dropWhile (\<lambda>c. c \<noteq> CHR ''{'' \<and> c \<noteq> CHR '']'') (x @ CHR '']'' # r) = CHR '']'' # r"
    by (subst dropWhile_append2) auto
  then show ?thesis by (subst preset_loop.simps) simp
qed

lemma preset_loop_lines:
  "\<forall>p\<in>set ps. plain_preset p \<Longrightarrow> length acc + length ps \<le> CONFIG_MAX_RECORDS \<Longrightarrow> set x \<inter> {CHR ''{'', CHR '']''} = {} \<Longrightarrow>
   preset_loop (x @ preset_lines ps @ ''  ]'') acc = acc @ ps"
proof (induction ps arbitrary: acc x rule: preset_lines.induct)
  case 1
  then show ?case using preset_loop_end [of "x @ ''  ''" "[]" acc] by simp
next
  case (2 p)
  then show ?case
    using preset_loop_step [of p acc x "CHR 0x0A # ''  ]''"] preset_loop_end [of "CHR 0x0A # ''  ''" "[]" "acc @ [p]"] by simp
next
  case (3 p q ps)
  have "preset_loop (x @ preset_line p @ CHR '','' # CHR 0x0A # preset_lines (q # ps) @ ''  ]'') acc =
      preset_loop (CHR '','' # CHR 0x0A # preset_lines (q # ps) @ ''  ]'') (acc @ [p])"
    using 3 by (intro preset_loop_step) auto
  also have "\<dots> = (acc @ [p]) @ (q # ps)"
    using 3(1) [of "acc @ [p]" "'','' @ [CHR 0x0A]"] 3(2,3) by simp
  finally show ?case by simp
qed

lemma to_bracket_plain: "CHR ''['' \<notin> set a \<Longrightarrow> CHR '']'' \<notin> set a \<Longrightarrow> to_bracket 1 (a @ CHR '']'' # r) = a @ '']''"
proof (induction a)
  case Nil
  have "to_bracket 0 r = []" by (cases r) simp_all
  then show ?case by simp
qed auto

lemma line_chars: "plain_preset p \<Longrightarrow> set (preset_line p) \<inter> {CHR ''['', CHR '']''} = {}"
  unfolding preset_line_body using body_chars [of p] by (auto simp: preset_line_body)

lemma lines_chars: "\<forall>p\<in>set ps. plain_preset p \<Longrightarrow> set (preset_lines ps) \<inter> {CHR ''['', CHR '']''} = {}"
proof (induction ps rule: preset_lines.induct)
  case (2 p)
  then show ?case using line_chars [of p] by auto
next
  case (3 p q ps)
  then show ?case using line_chars [of p] by auto
qed simp

lemma text_no_nul: "\<forall>p\<in>set ps. plain_preset p \<Longrightarrow> CHR 0x00 \<notin> set (presets_text ps)"
proof -
  assume ps: "\<forall>p\<in>set ps. plain_preset p"
  have "CHR 0x00 \<notin> set (preset_line p)" if "plain_preset p" for p
  proof -
    have "\<not> preset_char CHR 0x00" by (simp add: preset_char_def code_def)
    then show ?thesis using that by (auto simp: preset_line_body preset_body_def) (auto simp: plain_preset_def list_all_iff)
  qed
  with ps have "CHR 0x00 \<notin> set (preset_lines ps)" by (induction ps rule: preset_lines.induct) auto
  then show ?thesis by (simp add: presets_text_def)
qed

lemma text_nonempty: "(presets_text ps = []) = False"
  by (simp add: presets_text_def)

lemma loadConfigJson_text:
  assumes "\<forall>p\<in>set ps. plain_preset p" "length ps \<le> CONFIG_MAX_RECORDS" "length (presets_text ps) \<le> CONFIG_BUF_SIZE"
  shows "loadConfigJson (Some (presets_text ps)) old = (ps \<noteq> [], ps)"
proof -
  let ?key = "CHR 0x22 # ''filters'' @ [CHR 0x22]"
  let ?rest = "'': ['' @ [CHR 0x0A] @ preset_lines ps @ ''  ]'' @ [CHR 0x0A] @ ''}'' @ [CHR 0x0A]"
  have buf: "read_buffer (CONFIG_BUF_SIZE + 1) (presets_text ps) = presets_text ps"
  proof -
    have "take (CONFIG_BUF_SIZE + 1 - 1) (presets_text ps) = presets_text ps" using assms(3) by simp
    moreover have "takeWhile (\<lambda>c. c \<noteq> CHR 0x00) (presets_text ps) = presets_text ps"
      unfolding takeWhile_eq_all_conv using text_no_nul [OF assms(1)] by blast
    ultimately show ?thesis unfolding read_buffer_def by (simp only:)
  qed
  have whole: "presets_text ps = (''{'' @ [CHR 0x0A] @ ''  '') @ ?key @ ?rest" by (simp add: presets_text_def)
  have sub: "find_sub ?key (presets_text ps) = Some (''{'' @ [CHR 0x0A] @ ''  '', ?rest)"
    unfolding whole by (rule find_sub_plain) simp_all
  have br: "find_char CHR ''['' (CHR 0x22 # ''filters'' @ [CHR 0x22] @ ?rest) = Some (?key @ '': '', CHR 0x0A # preset_lines ps @ ''  ]'' @ [CHR 0x0A] @ ''}'' @ [CHR 0x0A])"
    using find_char_some [of "CHR ''[''" "?key @ '': ''"] by simp
  have "to_bracket 1 ((CHR 0x0A # preset_lines ps @ ''  '') @ CHR '']'' # [CHR 0x0A] @ ''}'' @ [CHR 0x0A]) = (CHR 0x0A # preset_lines ps @ ''  '') @ '']''"
    using lines_chars [OF assms(1)] by (intro to_bracket_plain) auto
  then have arr: "to_bracket 1 (CHR 0x0A # preset_lines ps @ ''  ]'' @ [CHR 0x0A] @ ''}'' @ [CHR 0x0A]) = [CHR 0x0A] @ preset_lines ps @ ''  ]''"
    by simp
  have "preset_loop ([CHR 0x0A] @ preset_lines ps @ ''  ]'') [] = ps"
    using preset_loop_lines [of ps "[]" "[CHR 0x0A]"] assms(1,2) by simp
  then show ?thesis
    using text_nonempty [of ps] unfolding loadConfigJson_def option.case buf sub prod.case br arr Let_def by (simp only: if_False)
qed

text \<open>Every table in use is within the array and its cells.\<close>

definition presets_fit :: "preset list \<Rightarrow> bool" where
  "presets_fit ps \<longleftrightarrow> length ps \<le> CONFIG_MAX_RECORDS \<and>
     (\<forall>p\<in>set ps. length (preset_name p) < PRESET_NAME_SIZE \<and> length (preset_filter p) < FILTER_BUFSIZE)"

lemma presets_fit_add: "presets_fit ps \<Longrightarrow> presets_fit (addPreset name filt ps)"
  by (auto simp: presets_fit_def addPreset_def PRESET_NAME_SIZE_def FILTER_BUFSIZE_def)

lemma presets_fit_object: "presets_fit ps \<Longrightarrow> presets_fit (add_object body ps)"
  by (auto simp: add_object_def Let_def presets_fit_add split: option.split)

lemma presets_fit_loop: "presets_fit ps \<Longrightarrow> presets_fit (preset_loop s ps)"
  by (induction s ps rule: preset_loop.induct)
    (subst preset_loop.simps, simp add: presets_fit_object split: list.split prod.split)

lemma presets_fit_txt: "presets_fit ps \<Longrightarrow> presets_fit (txt_loop n s ps)"
  by (induction n s ps rule: txt_loop.induct)
    (subst txt_loop.simps, simp add: presets_fit_add Let_def split: option.split prod.split)

lemma presets_fit_set: "presets_fit ps \<Longrightarrow> presets_fit (set_filter name filt ps)"
proof -
  have "length (set_filter name filt ps) = length ps" by (induction ps) auto
  moreover have "set (set_filter name filt ps) \<subseteq> set ps \<union> (\<lambda>p. p\<lparr>preset_filter := take (FILTER_BUFSIZE - 1) filt\<rparr>) ` set ps"
    by (induction ps) auto
  ultimately show "presets_fit ps \<Longrightarrow> presets_fit (set_filter name filt ps)"
    by (fastforce simp: presets_fit_def FILTER_BUFSIZE_def)
qed

lemma presets_fit_Nil: "presets_fit []"
  by (simp add: presets_fit_def)

lemma presets_fit_load: "presets_fit (filters st) \<Longrightarrow> presets_fit (filters (loadConfig st))"
  by (auto simp: loadConfig_def loadConfigJson_def loadConfigTxt_def Let_def presets_fit_add presets_fit_loop presets_fit_txt
      presets_fit_Nil split: option.split prod.split)

lemma presets_fit_save: "presets_fit (filters st) \<Longrightarrow> presets_fit (filters (snd (appPresetSave w name filt st)))"
  by (auto simp: appPresetSave_def Let_def presets_fit_add presets_fit_set)



end
