(* ===== verification/App.thy ===== *)
theory App
  imports Module_Specs Profile Presets Pcap
begin

text \<open>
  The application state and control surface of \<^verbatim>\<open>src/src/main.cpp\<close>: starting and stopping a capture, start-up from
  the command line, and the main tick loop. The record \<open>app\<close> extends the backend's, so every operation of
  the backend, the scenario player and the module table applies to it. \<open>world\<close> is what the system answers
  during one operation; a section under \<^verbatim>\<open>appLock\<close> is one step. The session report, the statistics log and
  the console output are left out.
\<close>

subsection \<open>State\<close>

record 'k app = "'k divert" +
  scen :: scenario
  profs :: profile_store
  presets :: preset_store
  pexport :: pcap
  preplay :: replay
  argTable :: arg_table
  capturing :: bool
  quitRequested :: bool
  pipeStopRequested :: bool
  currentFilter :: string
  currentProcess :: string
  statusLine :: string
  captureStartTick :: u32

text \<open>
  \<open>w_process\<close> is \<^verbatim>\<open>buildProcessFilter\<close>: an error or the clause for a process. \<open>w_joined\<close> and \<open>w_last_step\<close>: both
  threads ended in time, and the clock thread made one more step after it was told to stop.
\<close>

record 'k world =
  w_start :: start_os
  w_errno :: string
  w_iptables :: "'k iptables_run"
  w_admin :: bool
  w_process :: "string \<Rightarrow> string + string"
  w_tick :: u32
  w_joined :: bool
  w_last_step :: bool
  w_pcap_opens :: bool
  w_file :: "string \<Rightarrow> string option"
  w_memory :: bool
  w_can_write :: bool
  w_thread :: bool

definition MSG_BUFSIZE :: nat where "MSG_BUFSIZE = 512"

definition showStatus :: "string \<Rightarrow> 'k app \<Rightarrow> 'k app" where
  "showStatus line s = s\<lparr>statusLine := take (MSG_BUFSIZE - 1) line\<rparr>"

definition appIsCapturing :: "'k app \<Rightarrow> bool" where "appIsCapturing s = capturing s"
definition appStatusLine :: "'k app \<Rightarrow> string" where "appStatusLine s = statusLine s"
definition appCurrentFilter :: "'k app \<Rightarrow> string" where "appCurrentFilter s = currentFilter s"
definition appCurrentProcess :: "'k app \<Rightarrow> string" where "appCurrentProcess s = currentProcess s"

definition appCaptureElapsedMs :: "u32 \<Rightarrow> 'k app \<Rightarrow> u32" where
  "appCaptureElapsedMs now s = (if capturing s then now - captureStartTick s else 0)"

definition appRequestQuit :: "'k app \<Rightarrow> 'k app" where
  "appRequestQuit s = s\<lparr>quitRequested := True\<rparr>"

subsection \<open>Starting a capture\<close>

text \<open>The message \<^verbatim>\<open>divertStart\<close> leaves; \<open>errno\<close> is the text of \<^verbatim>\<open>strerror\<close>.\<close>

fun start_message :: "string \<Rightarrow> int \<Rightarrow> start_error \<Rightarrow> string" where
  "start_message errno q (ERR_FILTER e) = ''Failed to start filtering : '' @ e"
| "start_message errno q ERR_OPEN = ''Failed to open NFQUEUE ('' @ errno @ '').'' @ [CHR 0x0A] @
     ''Make sure you run clumsy as root (or with CAP_NET_ADMIN).''"
| "start_message errno q ERR_BIND = ''nfq_bind_pf(AF_INET) failed ('' @ errno @ '')''"
| "start_message errno q ERR_QUEUE = ''Failed to bind queue '' @ show_int q @ '' ('' @ errno @ '').'' @ [CHR 0x0A] @
     ''Another process may already own it - try --queue-num N.''"
| "start_message errno q ERR_MODE = ''nfq_set_mode failed ('' @ errno @ '')''"
| "start_message errno q ERR_MUTEX = ''Failed to create mutex''"
| "start_message errno q ERR_READ_THREAD = ''Failed to create recv loop thread''"
| "start_message errno q ERR_CLOCK_THREAD = ''Failed to create clock loop thread''"
| "start_message errno q ERR_IPTABLES = ''Failed to install iptables rules. Run as root, or drop --auto-iptables and add the rules manually.''"

text \<open>The settings \<^verbatim>\<open>divertStart\<close> looks up for itself.\<close>

definition start_args :: "arg_table \<Rightarrow> start_os \<Rightarrow> start_os" where
  "start_args t os = os\<lparr>arg_queue_num := argGet ''queue-num'' t, arg_inject_mark := argGet ''inject-mark'' t,
     arg_auto_iptables := argGet ''auto-iptables'' t\<rparr>"

definition ADMIN_MESSAGE :: string where
  "ADMIN_MESSAGE = ''clumsy needs CAP_NET_ADMIN to open an NFQUEUE. Run it under sudo, or grant it once with: sudo setcap cap_net_admin,cap_net_raw+ep ./clumsy''"

definition combined_filter :: "string \<Rightarrow> string \<Rightarrow> string" where
  "combined_filter filt fragment = take (FILTER_BUFSIZE * 2 + 63) (''('' @ filt @ '')'' @ fragment)"

text \<open>\<^verbatim>\<open>--pcap-out\<close>, when no export is running yet.\<close>

definition start_pcap_out :: "'k world \<Rightarrow> 'k app \<Rightarrow> 'k app" where
  "start_pcap_out w s =
     (case argGet ''pcap-out'' (argTable s) of None \<Rightarrow> s
      | Some path \<Rightarrow>
         if pcapExportIsActive (pexport s) then s
         else s\<lparr>pexport := snd (pcapExportStart (w_pcap_opens w) (argGet ''pcap-stage'' (argTable s)) path
                  (argGetInt ''pcap-max-packets'' 0 (argTable s)) (argGetInt ''pcap-max-bytes'' 0 (argTable s)) (pexport s))\<rparr>)"

definition capture_message :: "string \<Rightarrow> 'k app \<Rightarrow> string" where
  "capture_message filt s = ''Capturing. filter='' @ [CHR 0x22] @ take 400 filt @ [CHR 0x22] @
     (if currentProcess s \<noteq> [] then '' process='' else []) @ take 64 (currentProcess s)"

text \<open>What follows a successful \<^verbatim>\<open>divertStart\<close>.\<close>

definition capture_started :: "'k world \<Rightarrow> string \<Rightarrow> string \<Rightarrow> 'k app \<Rightarrow> 'k app" where
  "capture_started w filt proc s =
     (let s = s\<lparr>currentFilter := take (FILTER_BUFSIZE - 1) filt, currentProcess := take (MSG_BUFSIZE - 1) proc,
                captureStartTick := w_tick w, capturing := True\<rparr>;
          s = start_pcap_out w s
      in case scenarioStart (scen s) s of (sc, s) \<Rightarrow> showStatus (capture_message filt s) (s\<lparr>scen := sc\<rparr>))"

text \<open>The error text, \<open>None\<close> on success, which the code leaves in a buffer of \<^verbatim>\<open>MSG_BUFSIZE\<close> bytes.\<close>

definition appStartCapture :: "'k world \<Rightarrow> string \<Rightarrow> string \<Rightarrow> 'k app \<Rightarrow> (string option \<times> 'k app) option" where
  "appStartCapture w filt proc s =
     (if filt = [] then Some (Some ''filter expression is empty'', s)
      else if capturing s then Some (Some ''already capturing'', s)
      else if \<not> w_admin w then Some (Some (take (MSG_BUFSIZE - 1) ADMIN_MESSAGE), s)
      else
        (case (if proc = [] then Inr [] else w_process w proc) of
           Inl e \<Rightarrow> Some (Some (take (MSG_BUFSIZE - 1) e), s)
         | Inr fragment \<Rightarrow>
            (case divertStart (w_iptables w) (start_args (argTable s) (w_start w)) (combined_filter filt fragment) (statsReset s) of
               None \<Rightarrow> None
             | Some (Some err, s) \<Rightarrow> Some (Some (take (MSG_BUFSIZE - 1) (start_message (w_errno w) (queueNum s) err)), s)
             | Some (None, s) \<Rightarrow> Some (None, capture_started w filt proc s))))"

subsection \<open>Stopping\<close>

definition clear_triggered :: "('k, 'a) divert_scheme \<Rightarrow> ('k, 'a) divert_scheme" where
  "clear_triggered s =
     s\<lparr>m_lag := (m_lag s)\<lparr>processTriggered := 0\<rparr>,
       m_jitter := (m_jitter s)\<lparr>processTriggered := 0\<rparr>,
       m_drop := (m_drop s)\<lparr>processTriggered := 0\<rparr>,
       m_burstloss := (m_burstloss s)\<lparr>processTriggered := 0\<rparr>,
       m_blackout := (m_blackout s)\<lparr>processTriggered := 0\<rparr>,
       m_throttle := (m_throttle s)\<lparr>processTriggered := 0\<rparr>,
       m_dup := (m_dup s)\<lparr>processTriggered := 0\<rparr>,
       m_ood := (m_ood s)\<lparr>processTriggered := 0\<rparr>,
       m_tamper := (m_tamper s)\<lparr>processTriggered := 0\<rparr>,
       m_corrupt := (m_corrupt s)\<lparr>processTriggered := 0\<rparr>,
       m_reset := (m_reset s)\<lparr>processTriggered := 0\<rparr>,
       m_bandwidth := (m_bandwidth s)\<lparr>processTriggered := 0\<rparr>\<rparr>"

text \<open>
  \<^verbatim>\<open>divertStop\<close> with what the two threads do before they end. When they do not end in time they are abandoned, and
  nothing is known of what they still do.
\<close>

definition divertStop :: "'k world \<Rightarrow> ('k, 'a) divert_scheme \<Rightarrow> ('k, 'a) divert_scheme option" where
  "divertStop w s =
     (let s = s\<lparr>stopLooping := True\<rparr> in
      if w_joined w then
        map_option (\<lambda>s. divertStop_finish (w_iptables w) True (s\<lparr>loopThread := False\<rparr>))
          (Option.bind (if w_last_step w then divertConsumeStep s else Some s) clock_close)
      else Some (divertStop_finish (w_iptables w) False s))"

definition appStopCapture :: "'k world \<Rightarrow> 'k app \<Rightarrow> 'k app option" where
  "appStopCapture w s =
     (if \<not> capturing s then Some s
      else map_option
        (\<lambda>s. let s = (clear_triggered (s\<lparr>capturing := False\<rparr>))\<lparr>sendState := STATUS_NONE\<rparr>;
                 s = s\<lparr>pexport := pcapExportStop (pexport s)\<rparr>
             in statsReset (showStatus ''Stopped. Set a filter and start again to resume.'' s))
        (divertStop w (s\<lparr>scen := scenarioStop (scen s)\<rparr>)))"

subsection \<open>The program from start to end\<close>

text \<open>Loading, the arguments, and what they start; \<open>s\<close> holds the parsed arguments.\<close>

definition boot_files :: "'k world \<Rightarrow> 'k app \<Rightarrow> 'k app" where
  "boot_files w s = s\<lparr>presets := loadConfig (presets s), profs := profilesLoad (w_memory w) (profs s)\<rparr>"

definition boot_scenario :: "'k world \<Rightarrow> 'k app \<Rightarrow> 'k app" where
  "boot_scenario w s =
     (case argGet ''scenario'' (argTable s) of None \<Rightarrow> s
      | Some path \<Rightarrow> s\<lparr>scen := scenarioLoad (w_memory w) (w_file w path) (scen s)\<rparr>)"

definition boot_profile :: "'k app \<Rightarrow> 'k app option" where
  "boot_profile s =
     (case argGet ''profile'' (argTable s) of None \<Rightarrow> Some s
      | Some name \<Rightarrow> map_option snd (profileApply name (profs s) s))"

definition boot_capture :: "'k world \<Rightarrow> 'k app \<Rightarrow> 'k app option" where
  "boot_capture w s =
     (case argGet ''filter'' (argTable s) of None \<Rightarrow> Some s
      | Some filt \<Rightarrow>
         map_option snd (appStartCapture w filt (case argGet ''process'' (argTable s) of None \<Rightarrow> [] | Some p \<Rightarrow> p) s))"

definition boot_replay :: "'k world \<Rightarrow> 'k app \<Rightarrow> 'k app" where
  "boot_replay w s =
     (case argGet ''replay-in'' (argTable s) of None \<Rightarrow> s
      | Some path \<Rightarrow>
         let speed = (case argGet ''replay-speed'' (argTable s) of None \<Rightarrow> Fin 1 | Some v \<Rightarrow> atof_double v);
             loop = (case argGet ''replay-loop'' (argTable s) of None \<Rightarrow> False | Some v \<Rightarrow> parseBoolValue v)
         in s\<lparr>preplay := snd (pcapReplayStart (disk (pexport s)) (w_thread w) path speed loop (preplay s))\<rparr>)"

definition app_boot :: "'k world \<Rightarrow> 'k app \<Rightarrow> 'k app option" where
  "app_boot w s =
     Option.bind (applyCliModuleParams (argTable s) (boot_files w s)) (\<lambda>s.
     Option.bind (boot_profile (boot_scenario w s)) (\<lambda>s.
     map_option (boot_replay w) (boot_capture w s)))"

text \<open>One turn of the main loop, \<open>True\<close> when it goes on. \<^verbatim>\<open>timeoutSec * 1000\<close> is computed in \<^verbatim>\<open>int\<close>.\<close>

definition main_tick :: "'k world \<Rightarrow> int \<Rightarrow> u32 \<Rightarrow> 'k app \<Rightarrow> (bool \<times> 'k app) option" where
  "main_tick w timeoutSec startTick s =
     (if pipeStopRequested s then Some (False, s)
      else
        (case (if capturing s then map_option (\<lambda>(sc, s). s\<lparr>scen := sc\<rparr>) (scenarioTick (scen s) s) else Some s) of
           None \<Rightarrow> None
         | Some s \<Rightarrow>
            if timeoutSec > 0 then
              (if 2147483647 < timeoutSec * 1000 then None
               else Some (w_tick w - startTick < word_of_int (timeoutSec * 1000), s))
            else Some (True, s)))"

text \<open>The loop over the answers of the system, one for each turn; it may be asked to quit at any time.\<close>

fun main_loop :: "'k world list \<Rightarrow> int \<Rightarrow> u32 \<Rightarrow> 'k app \<Rightarrow> 'k app option" where
  "main_loop [] timeoutSec startTick s = Some s"
| "main_loop (w # ws) timeoutSec startTick s =
     (if quitRequested s then Some s
      else (case main_tick w timeoutSec startTick s of None \<Rightarrow> None
            | Some (go_on, s) \<Rightarrow> if go_on then main_loop ws timeoutSec startTick s else Some s))"

definition app_cleanup :: "'k world \<Rightarrow> 'k app \<Rightarrow> 'k app option" where
  "app_cleanup w s = appStopCapture w (s\<lparr>preplay := pcapReplayStop (preplay s)\<rparr>)"

subsection \<open>What the application adds leaves the backend alone\<close>

lemma app_truncate [simp]:
  fixes s :: "'k app"
  shows "mods.truncate (s\<lparr>scen := a\<rparr>) = mods.truncate s" "mods.truncate (s\<lparr>profs := b\<rparr>) = mods.truncate s"
    "mods.truncate (s\<lparr>presets := c\<rparr>) = mods.truncate s" "mods.truncate (s\<lparr>pexport := d\<rparr>) = mods.truncate s"
    "mods.truncate (s\<lparr>preplay := e\<rparr>) = mods.truncate s" "mods.truncate (s\<lparr>argTable := f\<rparr>) = mods.truncate s"
    "mods.truncate (s\<lparr>capturing := g\<rparr>) = mods.truncate s" "mods.truncate (s\<lparr>quitRequested := g\<rparr>) = mods.truncate s"
    "mods.truncate (s\<lparr>pipeStopRequested := g\<rparr>) = mods.truncate s" "mods.truncate (s\<lparr>currentFilter := h\<rparr>) = mods.truncate s"
    "mods.truncate (s\<lparr>currentProcess := h\<rparr>) = mods.truncate s" "mods.truncate (s\<lparr>statusLine := h\<rparr>) = mods.truncate s"
    "mods.truncate (s\<lparr>captureStartTick := t\<rparr>) = mods.truncate s"
  by (simp_all add: mods.defs)

text \<open>The backend part of the state: everything the capture relation depends on.\<close>

definition backend_same :: "'k app \<Rightarrow> 'k app \<Rightarrow> bool" where
  "backend_same s s' \<longleftrightarrow> mods.truncate s' = mods.truncate s \<and> main_list s' = main_list s \<and> answered (denv s') = answered (denv s) \<and>
     verdicts (denv s') = verdicts (denv s) \<and>
     nfqQueue (denv s') = nfqQueue (denv s) \<and> filterProg s' = filterProg s \<and> stopLooping s' = stopLooping s \<and>
     loopThread s' = loopThread s \<and> clockThread s' = clockThread s"

lemma backend_same_fresh: "backend_same s s' \<Longrightarrow> fresh s \<Longrightarrow> fresh s'"
  using truncate_columns [of s' s] by (simp add: backend_same_def fresh_def)

lemma backend_same_inv: "backend_same s s' \<Longrightarrow> capture_inv ids s \<Longrightarrow> capture_inv ids s'"
  using truncate_columns [of s' s] by (simp add: backend_same_def capture_inv_def ledger_def)

lemma scenarioStart_backend: "scenarioStart sc s = (sc', s') \<Longrightarrow> backend_same s (s'\<lparr>scen := x, statusLine := y\<rparr>)"
  by (auto simp: scenarioStart_def backend_same_def timeGetTime_def answered_def split: if_splits prod.splits)

lemma capture_started_backend: "backend_same s (capture_started w filt proc s)"
proof -
  define u where "u = start_pcap_out w (s\<lparr>currentFilter := take (FILTER_BUFSIZE - 1) filt, currentProcess := take (MSG_BUFSIZE - 1) proc,
      captureStartTick := w_tick w, capturing := True\<rparr>)"
  have u: "backend_same s u"
    by (simp add: u_def start_pcap_out_def backend_same_def split: option.split)
  obtain sc t where t: "scenarioStart (scen u) u = (sc, t)" by (metis surj_pair)
  have "capture_started w filt proc s = t\<lparr>scen := sc, statusLine := take (MSG_BUFSIZE - 1) (capture_message filt t)\<rparr>"
    using t by (simp add: capture_started_def showStatus_def u_def Let_def)
  moreover have "backend_same s (t\<lparr>scen := sc, statusLine := take (MSG_BUFSIZE - 1) (capture_message filt t)\<rparr>)"
    using u scenarioStart_backend [OF t] by (simp add: backend_same_def)
  ultimately show ?thesis by simp
qed

lemma capture_started_flag [simp]: "capturing (capture_started w filt proc s)"
  by (auto simp: capture_started_def showStatus_def start_pcap_out_def scenarioStart_def Let_def split: option.split prod.split)

lemma clear_triggered_rows:
  "mods_inv (clear_triggered s) = mods_inv s" "helds (clear_triggered s) = helds s"
  "enabled_flags (clear_triggered s) = enabled_flags s" "started_flags (clear_triggered s) = started_flags s"
  by (simp_all add: clear_triggered_def mods_inv_def mod_inv_defs columns buffered_wf_def
      jitter_wf_def ood_wf_def bandwidth_wf_def bandwidth_ready_def tokens_ok_def)

lemma clear_triggered_more: "mods.more (clear_triggered s) = mods.more s"
  by (simp add: clear_triggered_def)

subsection \<open>The backend leaves the application's fields alone\<close>

lemma kept_more: "kept s s' \<Longrightarrow> divert.more s' = divert.more s"
  by (simp add: kept_def)

lemmas consume_more = kept_more [OF consume_kept] and close_more = kept_more [OF close_kept]

lemma callback_more: "nfqCallback msg s = Some s' \<Longrightarrow> divert.more s' = divert.more s"
  by (auto simp: nfqCallback_def appendMain_def Let_def dest!: consume_more split: option.splits if_splits prod.splits Option.bind_splits)

lemma setup_more: "start_setup os s = (err, s') \<Longrightarrow> divert.more s' = divert.more s"
  by (auto simp: start_setup_def open_raw_def forget_started_def Let_def split: if_splits)

lemma divertStart_more: "divertStart run os expr s = Some (err, s') \<Longrightarrow> divert.more s' = divert.more s"
  by (auto simp: divertStart_def start_fail_def Let_def dest!: setup_more close_more consume_more
      split: option.splits sum.splits if_splits prod.splits Option.bind_splits)

lemma capturing_more: "divert.more s' = divert.more (s :: 'k app) \<Longrightarrow> capturing s' = capturing s"
  by (cases s; cases s') simp

subsection \<open>One session\<close>

lemma app_started:
  assumes "mods_inv s" "held_all s = []" "main_list s = []" "appStartCapture w filt proc s = Some (None, s')"
  shows "fresh s' \<and> capturing s' \<and> \<not> capturing s"
proof -
  obtain fragment u where u: "\<not> capturing s" "s' = capture_started w filt proc u"
    "divertStart (w_iptables w) (start_args (argTable s) (w_start w)) (combined_filter filt fragment) (statsReset s) = Some (None, u)"
    using assms(4) by (auto simp: appStartCapture_def split: if_splits option.splits sum.splits prod.splits)
  have "held_all (statsReset s) = []" "main_list (statsReset s) = []"
    using assms(2,3) by (simp_all add: held_all_def statsReset_rows statsReset_fields)
  then have "fresh u" by (rule started_fresh [OF statsReset_rows(1) [OF assms(1)] _ _ u(3)])
  then show ?thesis using backend_same_fresh [OF capture_started_backend] by (simp add: u(1,2))
qed

lemma app_reset_fields:
  "capturing (statsReset s) = capturing s" "loopThread (statsReset s) = loopThread s" "nfqHandle (statsReset s) = nfqHandle s"
  "rawSocket (statsReset s) = rawSocket s" "rawSocket6 (statsReset s) = rawSocket6 s" "mutex (statsReset s) = mutex s"
  by (simp_all add: statsReset_def Let_def)

text \<open>What is true between two captures, and during one that has received the packets \<open>ids\<close>.\<close>

definition backend_idle :: "('k, 'a) divert_scheme \<Rightarrow> bool" where
  "backend_idle s \<longleftrightarrow> mods_inv s \<and> held_all s = [] \<and> main_list s = [] \<and> \<not> clockThread s \<and> \<not> nfqQueue (denv s)"

definition app_inv :: "u32 list \<Rightarrow> 'k app \<Rightarrow> bool" where
  "app_inv ids s \<longleftrightarrow> (if capturing s then capture_inv ids s \<and> clockThread s else backend_idle s)"

lemma backend_idle_eq:
  "mods.truncate s' = mods.truncate s \<Longrightarrow> main_list s' = main_list s \<Longrightarrow> clockThread s' = clockThread s \<Longrightarrow>
   nfqQueue (denv s') = nfqQueue (denv s) \<Longrightarrow> backend_idle s \<Longrightarrow> backend_idle s'"
  using truncate_columns [of s' s] by (simp add: backend_idle_def)

lemma setup_idle:
  assumes "mods_inv s" "held_all s = []" "main_list s = []" "\<not> clockThread s" "start_setup os s = (Some err, s')"
  shows "mods_inv s' \<and> held_all s' = [] \<and> main_list s' = [] \<and> \<not> clockThread s'"
proof -
  let ?q = "s\<lparr>denv := (denv s)\<lparr>nfqQueue := True, verdicts := []\<rparr>\<rparr>"
  let ?u = "open_raw os (?q\<lparr>injectMark := word_of_int (arg_int (arg_inject_mark os) DEFAULT_INJECT_MARK)\<rparr>)"
  let ?v = "forget_started ?u"
  have tr: "mods.truncate ?u = mods.truncate s" "mods.truncate ?q = mods.truncate s"
    by (simp_all add: open_raw_fields)
  have v: "mods_inv ?v" "held_all ?v = []"
    using assms(1,2) truncate_columns [OF tr(1)] by (simp_all add: held_all_def forget_rows)
  have "mods.truncate s' = mods.truncate s \<or> mods.truncate s' = mods.truncate ?v" "clockThread s' \<longrightarrow> clockThread s"
    "main_list s' = main_list s"
    using assms(5) by (auto simp: start_setup_def Let_def forget_fields open_raw_fields split: if_splits)
  then show ?thesis using assms(1-4) v(1,2) truncate_columns [of s' s] truncate_columns [of s' ?v] by auto
qed

text \<open>The end of the clock thread from a capture that has received nothing yet, with or without a last step.\<close>

lemma early_close:
  assumes inv: "capture_inv [] s" "held_all s = []" "clockThread s"
    and c: "Option.bind (if b then divertConsumeStep s else Some s) clock_close = Some v" "stopLooping s"
  shows "mods_inv v \<and> held_all v = [] \<and> main_list v = [] \<and> \<not> clockThread v"
proof (cases b)
  case True
  obtain s1 s2 where l: "divertConsumeStep s = Some s1" "clock_close (s1\<lparr>stopLooping := True\<rparr>) = Some s2"
    "held_all s2 = []" "main_list s2 = []" "\<not> clockThread s2" "mods_inv s2" "stopLooping s1 = stopLooping s"
    by (rule last_step_close [OF inv(1,3)])
  have "s1\<lparr>stopLooping := True\<rparr> = s1" using l(7) c(2) by simp
  then have "v = s2" using c(1) l(1,2) True by simp
  then show ?thesis using l by simp
next
  case False
  have pre: "mods_inv s" "nfqQueue (denv s)" using inv(1) by (simp_all add: capture_inv_def)
  have cl: "clock_close s = Some v" using c(1) False by simp
  then have "closable s" using close_crash [OF pre(1)] by (cases "closable s") simp_all
  then obtain s' where s': "clock_close s = Some s'" "mods_inv s'" "main_list s' = []" "held_all s' = stranded s" "\<not> clockThread s'"
    using close_ok [OF pre(1) _ pre(2)] by metis
  have "stranded s = []" using inv(2) by (auto simp: stranded_def held_all_def dest: set_zip_rightD)
  then show ?thesis using s' cl by simp
qed

lemma start_failed_idle:
  assumes s: "backend_idle s" "os_joined os" and r: "divertStart run os expr s = Some (Some err, s')"
  shows "backend_idle s'"
proof -
  let ?q = "s\<lparr>queueNum := arg_int (arg_queue_num os) 0\<rparr>"
  let ?conf = "\<lambda>pr. start_setup os (?q\<lparr>filterProg := Some pr, nfqHandle := True\<rparr>)"
  consider (filt) "s' = ?q\<lparr>filterProg := None\<rparr>" | (not_open) "s' = ?q\<lparr>filterProg := None, nfqHandle := False\<rparr>"
    | (set_up) pr u where "filterCompile (Some expr) 512 = Some (Inr pr)"
        "start_setup os (?q\<lparr>filterProg := Some pr, nfqHandle := True\<rparr>) = (Some err, u)" "s' = start_fail u"
    | (ipt_rules) pr u t v where "filterCompile (Some expr) 512 = Some (Inr pr)"
        "start_setup os (?q\<lparr>filterProg := Some pr, nfqHandle := True\<rparr>) = (None, u)"
        "Option.bind (if os_last_step os then divertConsumeStep (u\<lparr>ipt := t, stopLooping := True\<rparr>)
           else Some (u\<lparr>ipt := t, stopLooping := True\<rparr>)) clock_close = Some v"
        "s' = (start_fail v)\<lparr>loopThread := False\<rparr>"
  proof (cases "filterCompile (Some expr) 512")
    case None
    then show ?thesis using r by (simp add: divertStart_def Let_def)
  next
    case (Some c)
    show ?thesis
    proof (cases c)
      case (Inl e)
      then show ?thesis using r Some filt by (simp add: divertStart_def Let_def)
    next
      case (Inr pr)
      note c = Some [unfolded Inr]
      obtain eo u where u: "?conf pr = (eo, u)" by (metis surj_pair)
      show ?thesis
      proof (cases "\<not> os_open os \<or> eo \<noteq> None")
        case True
        then show ?thesis using r c u not_open set_up [OF c] by (cases "os_open os") (auto simp: divertStart_def Let_def)
      next
        case False
        then obtain t v where "Option.bind (if os_last_step os then divertConsumeStep (u\<lparr>ipt := t, stopLooping := True\<rparr>)
             else Some (u\<lparr>ipt := t, stopLooping := True\<rparr>)) clock_close = Some v"
          "s' = (start_fail v)\<lparr>loopThread := False\<rparr>"
          using r c u s(2) by (auto simp: divertStart_def Let_def split: option.splits if_splits prod.splits)
        then show ?thesis using ipt_rules [OF c] u False by simp
      qed
    qed
  qed
  then show ?thesis
  proof cases
    case (set_up pr u)
    have tr: "mods.truncate (?q\<lparr>filterProg := Some pr, nfqHandle := True\<rparr>) = mods.truncate s" by simp
    have u: "mods_inv u \<and> held_all u = [] \<and> main_list u = [] \<and> \<not> clockThread u"
      by (rule setup_idle [OF _ _ _ _ set_up(2)]) (use s truncate_columns [OF tr] in \<open>simp_all add: backend_idle_def\<close>)
    have "mods.truncate s' = mods.truncate u" by (simp add: set_up(3) start_fail_def mods.defs)
    from truncate_columns [OF this] u show ?thesis by (simp add: set_up(3) start_fail_def backend_idle_def)
  next
    case (ipt_rules pr u t v)
    have tr: "mods.truncate (?q\<lparr>filterProg := Some pr, nfqHandle := True\<rparr>) = mods.truncate s" by simp
    have f: "fresh u" by (rule setup_fresh [OF _ _ _ _ ipt_rules(2)])
      (use s truncate_columns [OF tr] running_filter [OF ipt_rules(1)] in \<open>simp_all add: backend_idle_def\<close>)
    then have u: "capture_inv [] u" "clockThread u" "held_all u = []" by (simp_all add: fresh_inv) (simp_all add: fresh_def)
    let ?u = "u\<lparr>ipt := t, stopLooping := True\<rparr>"
    have "mods.truncate ?u = mods.truncate u" by simp
    from truncate_columns [OF this] u have i: "capture_inv [] ?u" "held_all ?u = []" "clockThread ?u" by (simp_all add: capture_inv_def)
    have v: "mods_inv v \<and> held_all v = [] \<and> main_list v = [] \<and> \<not> clockThread v"
      by (rule early_close [OF i ipt_rules(3)]) simp
    have "mods.truncate s' = mods.truncate v" by (simp add: ipt_rules(4) start_fail_def mods.defs)
    from truncate_columns [OF this] v show ?thesis by (simp add: ipt_rules(4) start_fail_def backend_idle_def)
  qed (use s in \<open>auto elim!: backend_idle_eq [rotated 4]\<close>)
qed

text \<open>A start that fails changes nothing of what the application keeps, and holds nothing.\<close>

lemma app_start_failed:
  assumes s: "app_inv ids s" "os_joined (w_start w)" and r: "appStartCapture w filt proc s = Some (Some e, s')"
  shows "app_inv ids s' \<and> capturing s' = capturing s"
proof -
  consider "s' = s" | fragment err where "\<not> capturing s"
     "divertStart (w_iptables w) (start_args (argTable s) (w_start w)) (combined_filter filt fragment) (statsReset s) = Some (Some err, s')"
    using r by (auto simp: appStartCapture_def split: if_splits option.splits sum.splits prod.splits)
  then show ?thesis
  proof cases
    case 2
    have "held_all (statsReset s) = held_all s" by (simp add: held_all_def statsReset_rows)
    then have "backend_idle (statsReset s)"
      using s 2(1) by (simp add: app_inv_def backend_idle_def statsReset_rows statsReset_fields)
    moreover have "os_joined (start_args (argTable s) (w_start w))" using s(2) by (simp add: start_args_def)
    ultimately have "backend_idle s'" by (rule start_failed_idle [OF _ _ 2(2)])
    moreover have "capturing s' = capturing (statsReset s)" by (rule capturing_more [OF divertStart_more [OF 2(2)]])
    ultimately show ?thesis using 2(1) by (simp add: app_inv_def app_reset_fields)
  qed (use s in simp)
qed

text \<open>What no longer exists after a stop.\<close>

definition shut_down :: "'k app \<Rightarrow> bool" where
  "shut_down s \<longleftrightarrow> \<not> capturing s \<and> \<not> loopThread s \<and> \<not> clockThread s \<and> \<not> nfqQueue (denv s) \<and> \<not> nfqHandle s \<and>
     \<not> rawSocket s \<and> \<not> rawSocket6 s \<and> \<not> mutex s \<and> filterProg s = None"

text \<open>The rest of a stop, behind the end of the clock thread.\<close>

definition stop_rest :: "'k world \<Rightarrow> 'k app \<Rightarrow> 'k app" where
  "stop_rest w s =
     (let s = divertStop_finish (w_iptables w) True (s\<lparr>loopThread := False\<rparr>);
          s = (clear_triggered (s\<lparr>capturing := False\<rparr>))\<lparr>sendState := STATUS_NONE\<rparr>;
          s = s\<lparr>pexport := pcapExportStop (pexport s)\<rparr>
      in statsReset (showStatus ''Stopped. Set a filter and start again to resume.'' s))"

lemma stop_unfold:
  assumes "capturing s" "w_joined w"
  shows "appStopCapture w s = map_option (stop_rest w)
    (Option.bind (if w_last_step w then divertConsumeStep (s\<lparr>scen := scenarioStop (scen s), stopLooping := True\<rparr>)
       else Some (s\<lparr>scen := scenarioStop (scen s), stopLooping := True\<rparr>)) clock_close)"
  using assms by (simp add: appStopCapture_def divertStop_def stop_rest_def [abs_def] option.map_comp comp_def Let_def)

lemma stop_rest_facts:
  assumes "mods_inv s" "\<not> clockThread s"
  shows "mods_inv (stop_rest w s)" "held_all (stop_rest w s) = held_all s" "main_list (stop_rest w s) = main_list s"
    "answered (denv (stop_rest w s)) = answered (denv s)" "shut_down (stop_rest w s)"
proof -
  let ?f = "divertStop_finish (w_iptables w) True (s\<lparr>loopThread := False\<rparr>)"
  have fin: "mods.truncate ?f = mods.truncate s" by (simp add: divertStop_finish_def Let_def mods.defs)
  define t where "t = showStatus ''Stopped. Set a filter and start again to resume.''
    ((clear_triggered (?f\<lparr>capturing := False\<rparr>))\<lparr>sendState := STATUS_NONE, pexport := pcapExportStop (pexport
      ((clear_triggered (?f\<lparr>capturing := False\<rparr>))\<lparr>sendState := STATUS_NONE\<rparr>))\<rparr>)"
  have t: "stop_rest w s = statsReset t" by (simp add: stop_rest_def t_def Let_def)
  have ctr: "mods.truncate t = mods.truncate (clear_triggered (?f\<lparr>capturing := False\<rparr>))" by (simp add: t_def showStatus_def)
  have "mods.truncate (?f\<lparr>capturing := False\<rparr>) = mods.truncate s" using fin by simp
  from truncate_columns [OF this] assms(1) have "mods_inv t" "helds t = helds s"
    using truncate_columns [OF ctr] by (simp_all add: clear_triggered_rows)
  then show "mods_inv (stop_rest w s)" "held_all (stop_rest w s) = held_all s"
    by (simp_all add: t held_all_def statsReset_rows)
  show "main_list (stop_rest w s) = main_list s" "answered (denv (stop_rest w s)) = answered (denv s)"
    by (simp_all add: t answered_def statsReset_fields t_def showStatus_def clear_triggered_def divertStop_finish_def Let_def)
  show "shut_down (stop_rest w s)" using assms(2)
    by (simp add: t shut_down_def statsReset_fields app_reset_fields t_def showStatus_def clear_triggered_def divertStop_finish_def Let_def)
qed

text \<open>A stop that the clock thread meets with one more step.\<close>

lemma app_stopped:
  assumes inv: "capture_inv ids s" and s: "clockThread s" "capturing s" and w: "w_joined w" "w_last_step w"
  obtains s' where "appStopCapture w s = Some s'" "answered (denv s') = mset ids" "main_list s' = []" "backend_idle s'" "shut_down s'"
proof -
  let ?s = "s\<lparr>scen := scenarioStop (scen s), stopLooping := True\<rparr>"
  have "mods.truncate ?s = mods.truncate s" by simp
  from truncate_columns [OF this] inv s(1) have i: "capture_inv ids ?s" "clockThread ?s" by (simp_all add: capture_inv_def)
  obtain s1 s2 where c: "divertConsumeStep ?s = Some s1" "clock_close (s1\<lparr>stopLooping := True\<rparr>) = Some s2"
    "answered (denv s2) = mset ids" "held_all s2 = []" "main_list s2 = []" "\<not> clockThread s2" "mods_inv s2"
    "stopLooping s1 = stopLooping ?s" by (rule last_step_close [OF i])
  have "s1\<lparr>stopLooping := True\<rparr> = s1" using c(8) by simp
  then have "appStopCapture w s = Some (stop_rest w s2)" using c(1,2) w(2) by (simp add: stop_unfold [OF s(2) w(1)])
  then show ?thesis using stop_rest_facts [OF c(7,6), of w] c(3-5)
    by (intro that [of "stop_rest w s2"]) (simp_all add: backend_idle_def shut_down_def)
qed

text \<open>
  A stop that comes between two steps: the closing sequence as it is. What it leaves are the packets of the modules switched
  off since the last step, and it crashes when one was switched on for the first time.
\<close>

lemma app_stopped_between:
  assumes inv: "capture_inv ids s" and s: "capturing s" and w: "w_joined w" "\<not> w_last_step w"
  shows "appStopCapture w s = None \<longleftrightarrow> \<not> closable s"
    "appStopCapture w s = Some s' \<Longrightarrow> main_list s' = [] \<and> held_all s' = stranded s \<and>
       answered (denv s') + owed_all (stranded s) = mset ids \<and> mods_inv s' \<and> shut_down s'"
proof -
  let ?s = "s\<lparr>scen := scenarioStop (scen s), stopLooping := True\<rparr>"
  have tr: "mods.truncate ?s = mods.truncate s" by simp
  note tc = truncate_columns [OF tr]
  have st: "stranded ?s = stranded s" by (simp add: stranded_def tc)
  have pre: "mods_inv ?s" "nfqQueue (denv ?s)" "main_list ?s = []" "ledger (held_all ?s) (denv ?s) = mset ids"
    using inv tc by (simp_all add: capture_inv_def)
  have eq: "appStopCapture w s = map_option (stop_rest w) (clock_close ?s)" using w(2) by (simp add: stop_unfold [OF s w(1)])
  have closed: "\<exists>v. clock_close ?s = Some v \<and> mods_inv v \<and> main_list v = [] \<and> held_all v = stranded s \<and>
      answered (denv v) + owed_all (stranded s) = mset ids \<and> \<not> clockThread v" if cl: "closable ?s"
  proof -
    obtain v where v: "clock_close ?s = Some v" "mods_inv v" "main_list v = []" "held_all v = stranded ?s"
      "ledger (held_all v) (denv v) = ledger (main_list ?s @ held_all ?s) (denv ?s)" "\<not> clockThread v"
      by (rule close_ok [OF pre(1) cl pre(2)])
    then show ?thesis using pre(3,4) st by (simp add: ledger_def add.commute)
  qed
  show "appStopCapture w s = None \<longleftrightarrow> \<not> closable s"
  proof (cases "closable s")
    case True
    then show ?thesis using closed tc by (auto simp: eq)
  next
    case False
    then show ?thesis using close_crash [OF pre(1)] tc by (simp add: eq)
  qed
  assume r: "appStopCapture w s = Some s'"
  then have "closable ?s" using close_crash [OF pre(1)] by (cases "closable ?s") (simp_all add: eq)
  then obtain v where v: "clock_close ?s = Some v" "mods_inv v" "main_list v = []" "held_all v = stranded s"
      "answered (denv v) + owed_all (stranded s) = mset ids" "\<not> clockThread v" using closed by blast
  then have "s' = stop_rest w v" using r by (simp add: eq)
  then show "main_list s' = [] \<and> held_all s' = stranded s \<and> answered (denv s') + owed_all (stranded s) = mset ids \<and>
      mods_inv s' \<and> shut_down s'" using stop_rest_facts [OF v(2,6), of w] v(3-5) by simp
qed

lemma capture_more: "capture s0 ids s \<Longrightarrow> divert.more s = divert.more s0"
proof (induction rule: capture.induct)
  case (step s0 ids s ev s')
  from step(2) have "divert.more s' = divert.more s"
    by (cases rule: capture_step.cases)
      (auto simp: statsReset_def Let_def same_run_def dest: callback_more consume_more close_more dest!: applyModuleKV_same_run intro: divert_more)
  then show ?case using step(3) by simp
qed simp


definition sample_app :: "tables app" where
  "sample_app = divert.extend idle_divert
     \<lparr>scen = scenario_init, profs = \<lparr>profiles = [], profiles_file = None\<rparr>, presets = \<lparr>filters = [], config_json = None, config_txt = None\<rparr>,
      pexport = fresh_pcap, preplay = fresh_replay\<lparr>replayActive := False, replayThread := False\<rparr>, argTable = [], capturing = False, quitRequested = False,
      pipeStopRequested = False, currentFilter = [], currentProcess = [], statusLine = ''Idle.'', captureStartTick = 0\<rparr>"

definition sample_world :: "tables world" where
  "sample_world = \<lparr>w_start = sample_os, w_errno = [], w_iptables = table_iptables, w_admin = True, w_process = Inl, w_tick = 0,
     w_joined = True, w_last_step = True, w_pcap_opens = True, w_file = (\<lambda>_. None), w_memory = True,
     w_can_write = True, w_thread = True\<rparr>"

lemma compile_true: "case filterCompile (Some ''(true)'') 512 of Some (Inr pr) \<Rightarrow> True | _ \<Rightarrow> False"
  by code_simp

lemma sample_idle: "backend_idle sample_app"
proof -
  have "mods.truncate sample_app = mods.truncate idle_divert" by (simp add: sample_app_def idle_divert_def divert.defs mods.defs)
  from truncate_columns [OF this] idle_columns(1,2) show ?thesis
    by (simp add: backend_idle_def) (simp add: sample_app_def idle_divert_def divert.defs mods.defs)
qed

lemma sample_started: "\<exists>s. appStartCapture sample_world ''true'' [] sample_app = Some (None, s)"
proof -
  obtain pr where "filterCompile (Some ''(true)'') 512 = Some (Inr pr)"
    using compile_true by (auto split: option.splits sum.splits)
  moreover have "combined_filter ''true'' [] = ''(true)''" by (simp add: combined_filter_def FILTER_BUFSIZE_def)
  ultimately show ?thesis
    by (simp add: appStartCapture_def sample_world_def sample_app_def divert.defs start_args_def argGet_def
        divertStart_def start_setup_def sample_os_def Let_def)
qed


end
