(* ===== verification/Json_Grammar.thy ===== *)
theory Json_Grammar
  imports Json
begin

text \<open>
  The grammar of JSON texts (RFC 8259), without blanks, as a specification for what the program writes: the bytes of a string
  are not checked to be UTF-8. The lemmas show that the program's escaping and number printing stay in it.
\<close>

subsection \<open>The grammar\<close>

definition hex_digit :: "char \<Rightarrow> bool" where
  "hex_digit c \<longleftrightarrow> hex_value c \<noteq> None"

fun string_chars :: "string \<Rightarrow> bool" where
  "string_chars [] = True"
| "string_chars (c # r) =
     (if c = CHR 0x5C then
        (case r of [] \<Rightarrow> False
         | e # q \<Rightarrow>
            if e = CHR ''u'' then
              (case q of h1 # h2 # h3 # h4 # q \<Rightarrow> hex_digit h1 \<and> hex_digit h2 \<and> hex_digit h3 \<and> hex_digit h4 \<and> string_chars q
               | _ \<Rightarrow> False)
            else e \<in> set [CHR 0x22, CHR 0x5C, CHR ''/'', CHR ''b'', CHR ''f'', CHR ''n'', CHR ''r'', CHR ''t''] \<and> string_chars q)
      else c \<noteq> CHR 0x22 \<and> 32 \<le> code c \<and> string_chars r)"

definition json_string :: "string \<Rightarrow> bool" where
  "json_string t \<longleftrightarrow> (\<exists>r. t = CHR 0x22 # r @ [CHR 0x22] \<and> string_chars r)"

definition digits :: "string \<Rightarrow> bool" where
  "digits t \<longleftrightarrow> t \<noteq> [] \<and> (\<forall>c\<in>set t. is_digit c)"

definition int_part :: "string \<Rightarrow> bool" where
  "int_part t \<longleftrightarrow> t = ''0'' \<or> digits t \<and> hd t \<noteq> CHR ''0''"

definition frac_part :: "string \<Rightarrow> bool" where
  "frac_part t \<longleftrightarrow> t = [] \<or> hd t = CHR ''.'' \<and> digits (tl t)"

definition exp_part :: "string \<Rightarrow> bool" where
  "exp_part t \<longleftrightarrow> t = [] \<or> (\<exists>sign ds. t = CHR ''e'' # sign # ds \<and> (sign = CHR ''+'' \<or> sign = CHR ''-'') \<and> digits ds)"

definition json_number :: "string \<Rightarrow> bool" where
  "json_number t \<longleftrightarrow> (\<exists>sign i f e. t = sign @ i @ f @ e \<and> (sign = [] \<or> sign = ''-'') \<and> int_part i \<and> frac_part f \<and> exp_part e)"

text \<open>Items and members separated by commas.\<close>

fun commas :: "string list \<Rightarrow> string" where
  "commas [] = []"
| "commas [t] = t"
| "commas (t # ts) = t @ '','' @ commas ts"

definition json_arr :: "string list \<Rightarrow> string" where
  "json_arr ts = ''['' @ commas ts @ '']''"

definition json_obj :: "(string \<times> string) list \<Rightarrow> string" where
  "json_obj kvs = ''{'' @ commas (map (\<lambda>(k, v). quoted k @ '':'' @ v) kvs) @ ''}''"

inductive json_text :: "string \<Rightarrow> bool" where
  t_null: "json_text ''null''"
| t_true: "json_text ''true''"
| t_false: "json_text ''false''"
| t_string: "json_string t \<Longrightarrow> json_text t"
| t_number: "json_number t \<Longrightarrow> json_text t"
| t_array: "\<forall>t\<in>set ts. json_text t \<Longrightarrow> json_text (json_arr ts)"
| t_object: "\<forall>(k, v)\<in>set kvs. json_text v \<Longrightarrow> json_text (json_obj kvs)"

subsection \<open>Strings\<close>

lemma hex_char_digit: "d < 16 \<Longrightarrow> hex_digit (hex_char d)"
  by (cases "d < 10") (auto simp: hex_char_def hex_digit_def hex_value_def code_def is_digit_def digit_char_def lower_char_def)

lemma string_chars_escape: "string_chars r \<Longrightarrow> string_chars (escape_char c @ r)"
proof -
  assume r: "string_chars r"
  have "hex_digit CHR ''0''" by (simp add: hex_digit_def hex_value_def is_digit_def code_def)
  moreover have "hex_digit (hex_char (code c div 16))" if "code c < 32" using that by (intro hex_char_digit) simp
  moreover have "hex_digit (hex_char (code c mod 16))" by (rule hex_char_digit) simp
  ultimately show ?thesis using r by (auto simp: escape_char_def)
qed

lemma quoted_string: "json_string (quoted s)"
proof -
  have "string_chars (jsonEscape s)"
    by (induction s) (simp_all add: jsonEscape_def string_chars_escape)
  then show ?thesis by (auto simp: json_string_def quoted_def)
qed

lemma quoted_text [simp, intro]: "json_text (quoted s)"
  by (rule t_string) (rule quoted_string)

subsection \<open>Numbers\<close>

lemma show_nat_digits_part: "digits (show_nat n)"
  using show_nat_digits by (auto simp: digits_def)

lemma show_nat_head: "0 < n \<Longrightarrow> hd (show_nat n) \<noteq> CHR ''0''"
proof (induction n rule: show_nat.induct)
  case (1 n)
  have nz: "digit_char d \<noteq> CHR ''0''" if "0 < d" "d < 10" for d
    using that code_digit_char [of d] by (auto simp: code_def)
  show ?case using 1 nz by (subst show_nat.simps) (auto simp: hd_append)
qed

lemma show_nat_0: "show_nat 0 = ''0''"
  by (simp add: show_nat.simps digit_char_def char_of_def bit_0)

lemma show_nat_int_part: "int_part (show_nat n)"
proof (cases "n = 0")
  case True
  then show ?thesis by (simp add: int_part_def show_nat_0)
next
  case False
  then show ?thesis using show_nat_digits_part show_nat_head by (simp add: int_part_def)
qed

lemma json_numberI:
  "sign = [] \<or> sign = ''-'' \<Longrightarrow> int_part i \<Longrightarrow> frac_part f \<Longrightarrow> exp_part e \<Longrightarrow> json_number (sign @ i @ f @ e)"
  unfolding json_number_def by blast

lemma no_parts [simp]: "frac_part []" "exp_part []"
  by (simp_all add: frac_part_def exp_part_def)

lemma show_nat_number: "json_number (show_nat n)"
  using json_numberI [of "[]" "show_nat n" "[]" "[]"] show_nat_int_part by simp

lemma show_int_number: "json_number (show_int i)"
  using json_numberI [of "''-''" "show_nat (nat \<bar>i\<bar>)" "[]" "[]"] show_nat_int_part show_nat_number [of "nat \<bar>i\<bar>"]
  by (cases "i < 0") (simp_all add: show_int_def)

lemma show_number_text [simp, intro]: "json_text (show_nat n)" "json_text (show_int i)"
  by (simp_all add: t_number show_nat_number show_int_number)

lemma with_point_part: "\<forall>c\<in>set s. is_digit c \<Longrightarrow> frac_part (with_point s)"
  by (cases s) (auto simp: frac_part_def with_point_def digits_def)

lemma strip_zeros_set: "set (strip_zeros s) \<subseteq> set s"
  unfolding strip_zeros_def by (metis set_dropWhileD set_rev subsetI)

lemma strip_zeros_head: "s \<noteq> [] \<Longrightarrow> hd s \<noteq> CHR ''0'' \<Longrightarrow> strip_zeros s \<noteq> []"
  by (cases s) (auto simp: strip_zeros_def dropWhile_append)

lemma pow_int_powi: "pow_int b e = b powi e"
  by (auto simp: pow_int_def power_int_def divide_inverse power_inverse)

lemma show_nat_size: "0 < n \<Longrightarrow> 10 ^ (length (show_nat n) - 1) \<le> n \<and> n < 10 ^ length (show_nat n)"
proof (induction n rule: show_nat.induct)
  case (1 n)
  show ?case
  proof (cases "n < 10")
    case True
    then show ?thesis using 1(2) by (subst (1 2) show_nat.simps) simp
  next
    case False
    define k where "k = length (show_nat (n div 10))"
    have l: "length (show_nat n) = Suc k" using False by (subst show_nat.simps) (simp add: k_def)
    have k: "0 < k" unfolding k_def by simp
    have "10 ^ (k - 1) \<le> n div 10" "n div 10 < 10 ^ k" using 1(1) False by (simp_all add: k_def)
    then have "10 * 10 ^ (k - 1) \<le> n" "n < 10 * 10 ^ k" by linarith+
    then show ?thesis using k by (simp add: l power_eq_if)
  qed
qed

text \<open>The decimal exponent does not exceed the number, so that the printed digits do not start with a zero.\<close>

lemma decimal_exponent_le: "0 < x \<Longrightarrow> pow_int 10 (decimal_exponent x) \<le> x"
proof -
  assume x: "0 < x"
  obtain a b where q: "quotient_of x = (a, b)" by (metis surj_pair)
  have b: "0 < b" using quotient_of_denom_pos [OF q] .
  have xab: "x = of_int a / of_int b" using quotient_of_div [OF q] .
  have a: "0 < a" using x b by (simp add: xab zero_less_divide_iff)
  define la lb where l: "la = length (show_nat (nat a))" "lb = length (show_nat (nat b))"
  show ?thesis
  proof (cases "pow_int 10 (int la - int lb) \<le> x")
    case True
    then show ?thesis by (simp add: decimal_exponent_def q Let_def l)
  next
    case False
    have sa: "(10 :: nat) ^ (la - 1) \<le> nat a" "nat b < 10 ^ lb" using show_nat_size [of "nat a"] show_nat_size [of "nat b"] a b by (simp_all add: l)
    have "(of_nat (10 ^ (la - 1)) :: rat) \<le> of_nat (nat a)" "(of_nat (nat b) :: rat) \<le> of_nat (10 ^ lb)"
      using sa by (simp_all only: of_nat_le_iff less_imp_le)
    then have r: "(10 :: rat) ^ (la - 1) \<le> of_int a" "of_int b \<le> (10 :: rat) ^ lb" using a b by simp_all
    have "0 < la" unfolding l by simp
    then have d: "int la - int lb - 1 = int (la - 1) - int lb" by simp
    have "(10 :: rat) powi (int (la - 1) - int lb) = 10 powi int (la - 1) / 10 powi int lb" by (rule power_int_diff) simp
    then have "(10 :: rat) powi (int la - int lb - 1) = 10 ^ (la - 1) / 10 ^ lb" unfolding d by simp
    moreover have "(10 :: rat) ^ (la - 1) / 10 ^ lb \<le> of_int a / of_int b" using r a b by (intro frac_le) simp_all
    moreover have "decimal_exponent x = int la - int lb - 1" using False by (simp add: decimal_exponent_def q Let_def l)
    ultimately show ?thesis by (simp only: pow_int_powi) (simp only: xab)
  qed
qed

lemma significant_pos:
  assumes "x \<noteq> 0" "0 < p"
  shows "0 < round_half_even (\<bar>x\<bar> * pow_int 10 (int p - 1 - decimal_exponent \<bar>x\<bar>))"
proof -
  define e where "e = decimal_exponent \<bar>x\<bar>"
  define y where "y = \<bar>x\<bar> * pow_int 10 (int p - 1 - e)"
  have "(10 :: rat) powi e \<le> \<bar>x\<bar>" using decimal_exponent_le [of "\<bar>x\<bar>"] assms(1) by (simp add: e_def pow_int_powi)
  then have "(10 :: rat) powi e * 10 powi (int p - 1 - e) \<le> y"
    unfolding y_def pow_int_powi by (rule mult_right_mono) simp
  moreover have "(10 :: rat) powi e * 10 powi (int p - 1 - e) = 10 ^ (p - 1)"
  proof -
    have "e + (int p - 1 - e) = int (p - 1)" using assms(2) by simp
    then show ?thesis by (metis power_int_add power_int_of_nat zero_neq_numeral)
  qed
  moreover have "(1 :: rat) \<le> 10 ^ (p - 1)" by simp
  ultimately have "1 \<le> y" by linarith
  then have "(0 :: rat) < of_int (round_half_even y)" using round_half_even_error [of y] by linarith
  then show ?thesis by (simp add: y_def e_def)
qed

lemma digits_take: "digits ds \<Longrightarrow> 0 < n \<Longrightarrow> digits (take n ds)"
  by (auto simp: digits_def dest: in_set_takeD)

lemma digits_drop: "digits ds \<Longrightarrow> \<forall>c\<in>set (drop n ds). is_digit c"
  by (auto simp: digits_def dest: in_set_dropD)

lemma show_g_number:
  assumes p: "0 < p" shows "json_number (show_g p x)"
proof (cases "x = 0")
  case True
  then show ?thesis using show_nat_number [of 0] by (simp add: show_g_def show_nat_0)
next
  case False
  define e0 where "e0 = decimal_exponent \<bar>x\<bar>"
  define m0 where "m0 = round_half_even (\<bar>x\<bar> * pow_int 10 (int p - 1 - e0))"
  define m e where me: "m = (if m0 \<ge> 10 ^ p then 10 ^ (p - 1) else m0)" "e = (if m0 \<ge> 10 ^ p then e0 + 1 else e0)"
  define ds where "ds = show_nat (nat m)"
  have m0: "0 < m0" using significant_pos [OF False p] by (simp add: m0_def e0_def)
  then have m: "0 < nat m" by (simp add: me)
  have ds: "digits ds" "hd ds \<noteq> CHR ''0''" using show_nat_digits_part show_nat_head [OF m] by (simp_all add: ds_def)
  have ne: "ds \<noteq> []" using ds(1) by (simp add: digits_def)
  define sg where "sg = (if x < 0 then ''-'' else [])"
  have sg: "sg = [] \<or> sg = ''-''" by (simp add: sg_def)
  have frac: "frac_part (with_point (strip_zeros (drop n ds)))" for n
    using digits_drop [OF ds(1), of n] strip_zeros_set [of "drop n ds"] by (intro with_point_part) blast
  have int: "int_part (take (Suc n) ds)" for n
    using digits_take [OF ds(1), of "Suc n"] ds(2) ne by (cases ds) (auto simp: int_part_def)
  consider (sci) "show_g p x = sg @ take (Suc 0) ds @ with_point (strip_zeros (drop 1 ds)) @
        (''e'' @ (if e < 0 then ''-'' else ''+'') @ (if \<bar>e\<bar> < 10 then ''0'' else []) @ show_nat (nat \<bar>e\<bar>))"
    | (fixed) "show_g p x = sg @ take (Suc (nat e)) ds @ with_point (strip_zeros (drop (nat e + 1) ds)) @ []"
    | (small) "show_g p x = sg @ ''0'' @ (''.'' @ replicate (nat (- e - 1)) CHR ''0'' @ strip_zeros ds) @ []"
    using False unfolding show_g_def Let_def e0_def [symmetric] m0_def [symmetric]
    by (cases "m0 \<ge> 10 ^ p"; cases "e < - 4 \<or> int p \<le> e"; cases "0 \<le> e") (simp_all add: me ds_def sg_def)
  then show ?thesis
  proof cases
    case sci
    have "exp_part (''e'' @ (if e < 0 then ''-'' else ''+'') @ (if \<bar>e\<bar> < 10 then ''0'' else []) @ show_nat (nat \<bar>e\<bar>))"
      using show_nat_digits_part [of "nat \<bar>e\<bar>"] by (auto simp: exp_part_def digits_def is_digit_def code_def)
    then show ?thesis using sci sg int [of 0] frac [of 1] by (simp only: json_numberI)
  next
    case fixed
    then show ?thesis using sg int [of "nat e"] frac [of "nat e + 1"] by (simp only: json_numberI no_parts)
  next
    case small
    have "strip_zeros ds \<noteq> []" using strip_zeros_head [OF ne ds(2)] .
    then have "frac_part (''.'' @ replicate (nat (- e - 1)) CHR ''0'' @ strip_zeros ds)"
      using ds(1) strip_zeros_set [of ds] by (auto simp: frac_part_def digits_def is_digit_def code_def)
    moreover have "int_part ''0''" by (simp add: int_part_def)
    ultimately show ?thesis using small sg by (simp only: json_numberI no_parts)
  qed
qed

lemma show_plain_text: "0 < p \<Longrightarrow> json_text (show_plain p (Fin x))"
  by (simp add: show_plain_def t_number show_g_number)

end
