(* ===== verification/Http.thy ===== *)
theory Http
  imports Json Search "HOL-Library.Sublist"
begin

text \<open>
  \<^verbatim>\<open>src/src/httpserver.cpp\<close>: reading a request off a connection, the token check, routing, static files and
  the response. Bytes are characters. What \<^verbatim>\<open>recv\<close> and \<^verbatim>\<open>send\<close> return, the clock and the files are
  arguments; threads, sockets and their set-up are left out. The handlers behind the API routes are named
  by \<open>action\<close> and modelled in \<open>Control_Api\<close>.
\<close>

abbreviation crlf :: string where
  "crlf \<equiv> [CHR 0x0D, CHR 0x0A]"

subsection \<open>Small helpers\<close>

text \<open>\<open>None\<close> is a null pointer.\<close>

definition isLoopbackAddress :: "string option \<Rightarrow> bool" where
  "isLoopbackAddress addr =
     (case addr of None \<Rightarrow> True | Some a \<Rightarrow> a = ''127.0.0.1'' \<or> a = ''localhost'' \<or> a = ''::1'')"

definition alphabet :: string where
  "alphabet = ''abcdefghijklmnopqrstuvwxyzABCDEFGHIJKLMNOPQRSTUVWXYZ0123456789''"

fun token_chars :: "nat \<Rightarrow> u32 \<Rightarrow> string" where
  "token_chars 0 seed = []"
| "token_chars (Suc n) seed =
     (let seed = seed * 1103515245 + 12345
      in alphabet ! (unat (drop_bit 16 seed) mod 62) # token_chars n seed)"

text \<open>\<open>seed\<close> is the tick counter xor the process id, \<open>n\<close> the size of the buffer.\<close>

definition generateToken :: "u32 \<Rightarrow> nat \<Rightarrow> string" where
  "generateToken seed n = token_chars (min (n - 1) 24) seed"

text \<open>
  \<^verbatim>\<open>send\<close> takes the next \<open>n\<close> bytes, or fails with \<open>n\<close> \<le> 0. The result: whether all was sent, and what was.
\<close>

fun sendAll :: "int list \<Rightarrow> string \<Rightarrow> bool \<times> string" where
  "sendAll ns [] = (True, [])"
| "sendAll [] (c # r) = (False, [])"
| "sendAll (n # ns) (c # r) =
     (if n \<le> 0 then (False, [])
      else (case sendAll ns (drop (nat n) (c # r)) of (ok, out) \<Rightarrow> (ok, take (nat n) (c # r) @ out)))"

definition statusText :: "nat \<Rightarrow> string" where
  "statusText c =
     (if c = 200 then ''OK'' else if c = 400 then ''Bad Request'' else if c = 401 then ''Unauthorized''
      else if c = 403 then ''Forbidden'' else if c = 404 then ''Not Found'' else if c = 405 then ''Method Not Allowed''
      else if c = 408 then ''Request Timeout'' else if c = 413 then ''Payload Too Large''
      else if c = 500 then ''Internal Server Error'' else ''OK'')"

text \<open>The header block of a response; \<open>None\<close>: it does not fit and nothing is sent.\<close>

definition response_header :: "nat \<Rightarrow> string \<Rightarrow> nat \<Rightarrow> string \<Rightarrow> string option" where
  "response_header c contentType bodyLen extra =
     (let h = ''HTTP/1.1 '' @ show_nat c @ '' '' @ statusText c @ crlf @
              ''Content-Type: '' @ contentType @ crlf @
              ''Content-Length: '' @ show_nat bodyLen @ crlf @
              ''Cache-Control: no-store'' @ crlf @ ''Connection: close'' @ crlf @ extra @ crlf
      in if 1024 \<le> length h then None else Some h)"

record response =
  code_of :: nat
  content_type :: string
  body_of :: string
  extra_headers :: string

definition sendResponse :: "response \<Rightarrow> string" where
  "sendResponse r =
     (case response_header (code_of r) (content_type r) (length (body_of r)) (extra_headers r) of None \<Rightarrow> []
      | Some h \<Rightarrow> h @ body_of r)"

definition sendJson :: "nat \<Rightarrow> string \<Rightarrow> response" where
  "sendJson c json = \<lparr>code_of = c, content_type = ''application/json; charset=utf-8'', body_of = json, extra_headers = []\<rparr>"

definition sendText :: "nat \<Rightarrow> string \<Rightarrow> response" where
  "sendText c t = \<lparr>code_of = c, content_type = ''text/plain; charset=utf-8'', body_of = t, extra_headers = []\<rparr>"

subsection \<open>Request parsing\<close>

record http_request =
  meth :: string
  path :: string
  query :: string
  body :: string
  token :: string

text \<open>\<^verbatim>\<open>strtol(s, &stop, 16)\<close>: the value and what follows it; with no digits nothing is consumed.\<close>

definition is_hex :: "char \<Rightarrow> bool" where
  "is_hex c \<longleftrightarrow> hex_value c \<noteq> None"

definition read_hex :: "string \<Rightarrow> nat" where
  "read_hex s = foldl (\<lambda>a c. 16 * a + the (hex_value c)) 0 s"

definition strtol16 :: "string \<Rightarrow> int \<times> string" where
  "strtol16 s =
     (let t = dropWhile is_space s;
          neg = (take 1 t = ''-'');
          t = (if take 1 t = ''-'' \<or> take 1 t = ''+'' then drop 1 t else t);
          t = (if map lower_char (take 2 t) = ''0x'' \<and> takeWhile is_hex (drop 2 t) \<noteq> [] then drop 2 t else t);
          ds = takeWhile is_hex t
      in if ds = [] then (0, s)
         else ((if neg then - int (read_hex ds) else int (read_hex ds)), dropWhile is_hex t))"

definition hex_pair :: "char \<Rightarrow> char \<Rightarrow> char option" where
  "hex_pair a b =
     (case strtol16 (c_string [a, b]) of (v, stop) \<Rightarrow>
        if stop = [] then Some (char_of (nat (v mod 256))) else None)"

fun urlDecode :: "string \<Rightarrow> string" where
  "urlDecode [] = []"
| "urlDecode (c # r) =
     (case (if c = CHR ''%'' then (case r of a # b # _ \<Rightarrow> hex_pair a b | _ \<Rightarrow> None) else None) of
        Some d \<Rightarrow> d # urlDecode (drop 2 r)
      | None \<Rightarrow> (if c = CHR ''+'' then CHR '' '' else c) # urlDecode r)"

function queryParam :: "string \<Rightarrow> string \<Rightarrow> string" where
  "queryParam q key =
     (if q = [] then []
      else
        (let pair = takeWhile (\<lambda>c. c \<noteq> CHR ''&'') q;
             others = drop 1 (dropWhile (\<lambda>c. c \<noteq> CHR ''&'') q)
         in case find_char CHR ''='' pair of
              Some (k, v) \<Rightarrow> if k = key then urlDecode v else queryParam others key
            | None \<Rightarrow> queryParam others key))"
  by pat_completeness auto
termination
proof (relation "measure (\<lambda>(q, key). length q)", goal_cases)
  case 1
  then show ?case by simp
next
  case (2 q key pair others)
  then show ?case using length_dropWhile_le [of "\<lambda>c. c \<noteq> CHR ''&''" q] by (cases q) (auto simp: less_Suc_eq_le le_diff_conv)
next
  case (3 q key pair others)
  then show ?case using length_dropWhile_le [of "\<lambda>c. c \<noteq> CHR ''&''" q] by (cases q) (auto simp: less_Suc_eq_le le_diff_conv)
qed

declare queryParam.simps [simp del]

definition REQUEST_MAX_BYTES :: int where "REQUEST_MAX_BYTES = 256 * 1024"
definition REQUEST_DEADLINE_MS :: u32 where "REQUEST_DEADLINE_MS = 15000"

definition pastDeadline :: "u32 \<Rightarrow> u32 \<Rightarrow> bool" where
  "pastDeadline startTick now \<longleftrightarrow> REQUEST_DEADLINE_MS \<le> now - startTick"

text \<open>Why a request is not answered by the router.\<close>

datatype read_error = MALFORMED | TOO_LARGE | TIMED_OUT

text \<open>The data of one \<^verbatim>\<open>recv\<close> with the tick count after it; no data, or no more events, is a closed connection.\<close>

type_synonym recvs = "(string \<times> u32) list"

fun read_head :: "u32 \<Rightarrow> recvs \<Rightarrow> string \<Rightarrow> read_error + (string \<times> string \<times> recvs)" where
  "read_head start [] buf = Inl MALFORMED"
| "read_head start ((chunk, now) # evs) buf =
     (if chunk = [] then Inl MALFORMED
      else
        (case find_sub (crlf @ crlf) (buf @ chunk) of
           Some (head, rest) \<Rightarrow> Inr (head, rest, evs)
         | None \<Rightarrow>
            if 32 * 1024 < length (buf @ chunk) then Inl MALFORMED
            else if pastDeadline start now then Inl TIMED_OUT
            else read_head start evs (buf @ chunk)))"

definition empty_request :: http_request where
  "empty_request = \<lparr>meth = [], path = [], query = [], body = [], token = []\<rparr>"

definition parse_request_line :: "string \<Rightarrow> http_request option" where
  "parse_request_line line =
     (case find_char CHR '' '' line of None \<Rightarrow> None
      | Some (m, r) \<Rightarrow>
         (case find_char CHR '' '' r of None \<Rightarrow> None
          | Some (target, _) \<Rightarrow>
             if take 1 target \<noteq> ''/'' then None
             else
               (case find_char CHR ''?'' target of
                  None \<Rightarrow> Some (empty_request\<lparr>meth := m, path := urlDecode target\<rparr>)
                | Some (p, q) \<Rightarrow>
                   Some (empty_request\<lparr>meth := m, path := urlDecode p, query := q, token := queryParam q ''token''\<rparr>))))"

text \<open>The lines of the header block after the request line.\<close>

function split_lines :: "string \<Rightarrow> string list" where
  "split_lines s =
     (if s = [] then []
      else case find_sub crlf s of None \<Rightarrow> [s] | Some (l, r) \<Rightarrow> l # split_lines r)"
  by pat_completeness auto
termination
proof (relation "measure length", goal_cases)
  case (2 s l r)
  then show ?case by (auto dest!: find_sub_length)
qed simp

declare split_lines.simps [simp del]

definition trim_value :: "string \<Rightarrow> string" where
  "trim_value v = dropWhile (\<lambda>c. c = CHR '' '' \<or> c = CHR 0x09) v"

definition header_line :: "string \<Rightarrow> http_request \<times> int \<Rightarrow> http_request \<times> int" where
  "header_line line st =
     (case find_char CHR '':'' line of None \<Rightarrow> st
      | Some (name, value) \<Rightarrow>
         (let value = trim_value value in
          case st of (req, len) \<Rightarrow>
            if stricmp_eq (c_string name) ''Content-Length'' then (req, atol (c_string value))
            else if stricmp_eq (c_string name) ''X-Clumsy-Token'' then (req\<lparr>token := value\<rparr>, len)
            else (req, len)))"

definition parse_head :: "string \<Rightarrow> (http_request \<times> int) option" where
  "parse_head head =
     (let (line, rest) = (case find_sub crlf head of None \<Rightarrow> (head, []) | Some (l, r) \<Rightarrow> (l, r))
      in case parse_request_line line of None \<Rightarrow> None
         | Some req \<Rightarrow> Some (fold header_line (split_lines rest) (req, 0)))"

text \<open>A connection that ends before the announced length is accepted with the body as far as it came.\<close>

fun read_body :: "u32 \<Rightarrow> int \<Rightarrow> recvs \<Rightarrow> string \<Rightarrow> read_error + string" where
  "read_body start len evs buf =
     (if len \<le> int (length buf) then Inr buf
      else (case evs of [] \<Rightarrow> Inr buf
            | (chunk, now) # evs' \<Rightarrow>
               if chunk = [] then Inr buf
               else if pastDeadline start now then Inl TIMED_OUT
               else read_body start len evs' (buf @ chunk)))"

declare read_body.simps [simp del]

definition readRequest :: "u32 \<Rightarrow> recvs \<Rightarrow> read_error + http_request" where
  "readRequest start evs =
     (case read_head start evs [] of Inl e \<Rightarrow> Inl e
      | Inr (head, rest, evs) \<Rightarrow>
         (case parse_head head of None \<Rightarrow> Inl MALFORMED
          | Some (req, len) \<Rightarrow>
             if len < 0 \<or> REQUEST_MAX_BYTES < len then Inl TOO_LARGE
             else
               (case read_body start len evs rest of Inl e \<Rightarrow> Inl e
                | Inr b \<Rightarrow> Inr (req\<lparr>body := take (nat len) b\<rparr>))))"

subsection \<open>The token check\<close>

record server =
  authRequired :: bool
  serverToken :: string
  webRootPath :: string

definition isAuthorized :: "server \<Rightarrow> http_request \<Rightarrow> bool" where
  "isAuthorized srv req \<longleftrightarrow> \<not> authRequired srv \<or> token req = serverToken srv"

text \<open>The policy of \<^verbatim>\<open>httpServerStart\<close>: a given token is always required, and one is made up for any address but loopback.\<close>

definition auth_policy :: "string option \<Rightarrow> string option \<Rightarrow> u32 \<Rightarrow> server \<Rightarrow> server" where
  "auth_policy bindAddr given seed srv =
     (let srv = srv\<lparr>serverToken := [], authRequired := False\<rparr> in
      if given \<noteq> None \<and> the given \<noteq> [] then srv\<lparr>serverToken := take 127 (the given), authRequired := True\<rparr>
      else if \<not> isLoopbackAddress bindAddr then srv\<lparr>serverToken := generateToken seed 128, authRequired := True\<rparr>
      else srv)"

text \<open>The address the socket is bound to.\<close>

definition resolved_address :: "string option \<Rightarrow> string" where
  "resolved_address bindAddr =
     (case bindAddr of None \<Rightarrow> ''127.0.0.1''
      | Some a \<Rightarrow> if a = [] \<or> a = ''localhost'' then ''127.0.0.1'' else a)"

text \<open>\<open>inet_pton\<close> says whether a text is an IPv4 address. \<open>Some\<close>: the server's settings and the address it may bind to,
  once \<^verbatim>\<open>socket\<close> has succeeded; when that fails, no server runs either.\<close>

definition server_setup :: "(string \<Rightarrow> bool) \<Rightarrow> string option \<Rightarrow> int \<Rightarrow> string option \<Rightarrow> u32 \<Rightarrow> server \<Rightarrow> (server \<times> string) option" where
  "server_setup inet_pton bindAddr port given seed srv =
     (if port \<le> 0 \<or> 65535 < port then None
      else
        (let srv = auth_policy bindAddr given seed srv;
             addr = resolved_address bindAddr
         in if inet_pton addr then Some (srv, addr) else None))"

subsection \<open>Static files\<close>

definition ends_dot :: "string \<Rightarrow> string" where
  "ends_dot p = (if CHR ''.'' \<in> set p then CHR ''.'' # rev (takeWhile (\<lambda>c. c \<noteq> CHR ''.'') (rev p)) else [])"

definition mimeForPath :: "string \<Rightarrow> string" where
  "mimeForPath p =
     (let ext = ends_dot p in
      if ext = ''.html'' \<or> ext = ''.htm'' then ''text/html; charset=utf-8''
      else if ext = ''.css'' then ''text/css; charset=utf-8''
      else if ext = ''.js'' then ''application/javascript; charset=utf-8''
      else if ext = ''.json'' then ''application/json; charset=utf-8''
      else if ext = ''.svg'' then ''image/svg+xml''
      else if ext = ''.png'' then ''image/png''
      else if ext = ''.ico'' then ''image/x-icon''
      else ''application/octet-stream'')"

definition path_char :: "char \<Rightarrow> bool" where
  "path_char c \<longleftrightarrow> 97 \<le> code c \<and> code c \<le> 122 \<or> 65 \<le> code c \<and> code c \<le> 90 \<or> is_digit c \<or>
     c = CHR ''.'' \<or> c = CHR ''_'' \<or> c = CHR ''-'' \<or> c = CHR ''/''"

definition isSafeRelativePath :: "string \<Rightarrow> bool" where
  "isSafeRelativePath p \<longleftrightarrow> p \<noteq> [] \<and> find_sub ''..'' p = None \<and> CHR '':'' \<notin> set p \<and> list_all path_char p"

definition relative_path :: "string \<Rightarrow> string" where
  "relative_path p = (if length p \<le> 1 then ''index.html'' else drop 1 p)"

text \<open>The file name that is opened for a request path, if any.\<close>

definition static_file :: "server \<Rightarrow> string \<Rightarrow> string option" where
  "static_file srv p =
     (if isSafeRelativePath (relative_path p) then Some (webRootPath srv @ ''/'' @ relative_path p) else None)"

definition missing_page :: string where
  "missing_page = ''<!doctype html><meta charset='' @ [CHR 0x22] @ ''utf-8'' @ [CHR 0x22] @ ''><title>clumsy</title>'' @
     ''<body style='' @ [CHR 0x22] @ ''font:14px system-ui;padding:2rem'' @ [CHR 0x22] @ ''>'' @
     ''<h1>Dashboard files missing</h1>'' @
     ''<p>Could not find <code>web/index.html</code> next to clumsy.exe. '' @
     ''Copy the <code>etc/web/</code> folder into the output directory, or '' @
     ''rebuild so the post-build step copies it.</p>'' @
     ''<p>The REST API is unaffected: try <a href='' @ [CHR 0x22] @ ''/api/docs'' @ [CHR 0x22] @ ''>/api/docs</a>.</p>''"

definition serveStatic :: "(string \<Rightarrow> string option) \<Rightarrow> server \<Rightarrow> string \<Rightarrow> response" where
  "serveStatic files srv p =
     (case static_file srv p of None \<Rightarrow> sendText 403 ''Forbidden''
      | Some full \<Rightarrow>
         (case files full of
            None \<Rightarrow>
              if relative_path p = ''index.html''
              then \<lparr>code_of = 200, content_type = ''text/html; charset=utf-8'', body_of = missing_page, extra_headers = []\<rparr>
              else sendText 404 ''Not Found''
          | Some content \<Rightarrow>
              if 8 * 1024 * 1024 < length content then sendText 500 ''File too large''
              else \<lparr>code_of = 200, content_type = mimeForPath (relative_path p), body_of = content, extra_headers = []\<rparr>))"

subsection \<open>Routing\<close>

datatype endpoint = GetHealth | GetMetrics | GetModules | GetStats | GetStatus | GetProfiles | GetPresets | GetDocs
  | GetReport | GetStream | PostFilter string | PostStop | PostQuit | PostProfiles string | PostPresets string
  | PostScenarioLoad string | PostScenarioStart | PostScenarioStop | PostPcapStart string | PostPcapStop
  | PostApply string | PostScenarioLoadInline string | PostReplayStart string | PostReplayStop
  | PostProfileApply string | PostProfileDelete string | PostModule string string

datatype action = Call endpoint | Static string | Answer response

definition matchWrapped :: "string \<Rightarrow> string \<Rightarrow> string \<Rightarrow> string option" where
  "matchWrapped p pre post =
     (if length p \<le> length pre + length post then None
      else if take (length pre) p \<noteq> pre then None
      else if drop (length p - length post) p \<noteq> post then None
      else Some (take (length p - length pre - length post) (drop (length pre) p)))"

definition route_get :: "string \<Rightarrow> action" where
  "route_get p =
     (if p = ''/api/modules'' then Call GetModules
      else if p = ''/api/stats'' then Call GetStats
      else if p = ''/api/status'' then Call GetStatus
      else if p = ''/api/profiles'' then Call GetProfiles
      else if p = ''/api/presets'' then Call GetPresets
      else if p = ''/api/docs'' then Call GetDocs
      else if p = ''/api/report'' then Call GetReport
      else if p = ''/api/stream'' then Call GetStream
      else if take 5 p = ''/api/'' then Answer (sendText 404 ''Unknown API endpoint'')
      else Static p)"

definition route_post :: "string \<Rightarrow> string \<Rightarrow> action" where
  "route_post p b =
     (if p = ''/api/filter'' then Call (PostFilter b)
      else if p = ''/api/stop'' then Call PostStop
      else if p = ''/api/quit'' then Call PostQuit
      else if p = ''/api/profiles'' then Call (PostProfiles b)
      else if p = ''/api/presets'' then Call (PostPresets b)
      else if p = ''/api/scenario/load'' then Call (PostScenarioLoad b)
      else if p = ''/api/scenario/start'' then Call PostScenarioStart
      else if p = ''/api/scenario/stop'' then Call PostScenarioStop
      else if p = ''/api/pcap/start'' then Call (PostPcapStart b)
      else if p = ''/api/pcap/stop'' then Call PostPcapStop
      else if p = ''/api/apply'' then Call (PostApply b)
      else if p = ''/api/scenario/loadinline'' then Call (PostScenarioLoadInline b)
      else if p = ''/api/replay/start'' then Call (PostReplayStart b)
      else if p = ''/api/replay/stop'' then Call PostReplayStop
      else
        (case matchWrapped p ''/api/profiles/'' ''/apply'' of Some name \<Rightarrow> Call (PostProfileApply name)
         | None \<Rightarrow>
            (case matchWrapped p ''/api/profiles/'' ''/delete'' of Some name \<Rightarrow> Call (PostProfileDelete name)
             | None \<Rightarrow>
                if take 13 p = ''/api/modules/'' then Call (PostModule (drop 13 p) b)
                else Answer (sendText 404 ''Unknown API endpoint''))))"

definition unauthorized_json :: string where
  "unauthorized_json = ''{'' @ quoted ''status'' @ '':'' @ quoted ''error'' @ '','' @ quoted ''message'' @ '':'' @
     quoted ''missing or invalid token; pass ?token=... or the X-Clumsy-Token header'' @ ''}''"

definition routeRequest :: "server \<Rightarrow> http_request \<Rightarrow> action" where
  "routeRequest srv req =
     (if path req = ''/api/health'' then Call GetHealth
      else if path req = ''/metrics'' then Call GetMetrics
      else if \<not> isAuthorized srv req then Answer (sendJson 401 unauthorized_json)
      else if meth req = ''GET'' then route_get (path req)
      else if meth req = ''POST'' then route_post (path req) (body req)
      else Answer (sendText 405 ''Method Not Allowed''))"

text \<open>A connection from its first byte to the action it leads to; \<open>None\<close>: it is closed without an answer.\<close>

definition connectionThread :: "server \<Rightarrow> u32 \<Rightarrow> recvs \<Rightarrow> action option" where
  "connectionThread srv start evs =
     (case readRequest start evs of
        Inr req \<Rightarrow> Some (routeRequest srv req)
      | Inl TOO_LARGE \<Rightarrow> Some (Answer (sendText 413 ''Payload Too Large''))
      | Inl TIMED_OUT \<Rightarrow> Some (Answer (sendText 408 ''Request Timeout''))
      | Inl MALFORMED \<Rightarrow> None)"

text \<open>
  The accept loop. \<open>creates\<close>: a thread can be created. The result is what the loop itself sends to the client,
  whether a \<^verbatim>\<open>connectionThread\<close> is started, and \<^verbatim>\<open>activeConnections\<close>.
\<close>

definition MAX_CONNECTIONS :: nat where "MAX_CONNECTIONS = 32"

definition busy_response :: string where
  "busy_response = concat [''HTTP/1.1 503 Service Unavailable'', crlf, ''Content-Length: 0'', crlf, ''Connection: close'', crlf, crlf]"

definition accept_client :: "bool \<Rightarrow> nat \<Rightarrow> string \<times> bool \<times> nat" where
  "accept_client creates active =
     (if MAX_CONNECTIONS \<le> active then (busy_response, False, active)
      else if creates then ([], True, active + 1)
      else ([], False, active))"

datatype connection_event = Arrives bool | Finishes

text \<open>Connections come and running ones end, in any order.\<close>

fun connection_events :: "connection_event list \<Rightarrow> nat \<Rightarrow> nat" where
  "connection_events [] active = active"
| "connection_events (Arrives creates # es) active = connection_events es (snd (snd (accept_client creates active)))"
| "connection_events (Finishes # es) active = connection_events es (active - 1)"

lemma connections_bounded: "active \<le> MAX_CONNECTIONS \<Longrightarrow> connection_events es active \<le> MAX_CONNECTIONS"
  by (induction es active rule: connection_events.induct) (auto simp: accept_client_def)

subsection \<open>Where a token can come from\<close>

lemma find_char_suffix: "find_char c s = Some (a, b) \<Longrightarrow> suffix b s"
  using find_char_parts [of c s a b] by (auto simp: suffix_def)

lemma find_char_prefix: "find_char c s = Some (a, b) \<Longrightarrow> prefix a s"
  using find_char_parts [of c s a b] by (auto simp: prefix_def)

lemmas sublist_trans = sublist_order.order_trans

lemma queryParam_Nil [simp]: "queryParam [] key = []"
  by (subst queryParam.simps) simp

lemma queryParam_step:
  "q \<noteq> [] \<Longrightarrow> queryParam q key =
     (case find_char CHR ''='' (takeWhile (\<lambda>c. c \<noteq> CHR ''&'') q) of
        Some (k, v) \<Rightarrow> if k = key then urlDecode v else queryParam (drop 1 (dropWhile (\<lambda>c. c \<noteq> CHR ''&'') q)) key
      | None \<Rightarrow> queryParam (drop 1 (dropWhile (\<lambda>c. c \<noteq> CHR ''&'') q)) key)"
  by (subst queryParam.simps) (simp only: Let_def if_False)

lemma queryParam_sublist: "queryParam q key = [] \<or> (\<exists>e. sublist e q \<and> queryParam q key = urlDecode e)"
proof (induction q key rule: queryParam.induct)
  case (1 q key)
  define pair where "pair = takeWhile (\<lambda>c. c \<noteq> CHR ''&'') q"
  define others where "others = drop 1 (dropWhile (\<lambda>c. c \<noteq> CHR ''&'') q)"
  have "suffix others q" by (auto simp: others_def intro: suffix_order.order_trans [OF suffix_drop suffix_dropWhile])
  then have o: "sublist e others \<Longrightarrow> sublist e q" for e by (blast dest: suffix_imp_sublist intro: sublist_trans)
  have p: "sublist pair q" by (simp add: pair_def prefix_imp_sublist takeWhile_is_prefix)
  note step = queryParam_step [of q key, folded pair_def others_def]
  consider "q = []" | (other) "q \<noteq> []" "find_char CHR ''='' pair = None"
    | (found) k v where "q \<noteq> []" "find_char CHR ''='' pair = Some (k, v)" by (cases "find_char CHR ''='' pair") auto
  then show ?case
  proof cases
    case other
    then have "queryParam q key = queryParam others key" using step by simp
    then show ?thesis using "1.IH"(1) [OF other(1) pair_def others_def other(2)] o by metis
  next
    case found
    have "sublist v pair" using find_char_suffix [OF found(2)] by (rule suffix_imp_sublist)
    then have "sublist v q" using p by (rule sublist_trans)
    moreover have "queryParam q key = (if k = key then urlDecode v else queryParam others key)"
      using found step by simp
    ultimately show ?thesis using "1.IH"(2) [OF found(1) pair_def others_def found(2) refl] o by metis
  qed simp
qed

text \<open>The token of a request is a part of the text, or a part of it after decoding.\<close>

definition token_from :: "string \<Rightarrow> http_request \<Rightarrow> bool" where
  "token_from s req \<longleftrightarrow> token req = [] \<or> (\<exists>e. sublist e s \<and> (e = token req \<or> urlDecode e = token req))"

lemma token_from_mono: "token_from s req \<Longrightarrow> sublist s t \<Longrightarrow> token_from t req"
  unfolding token_from_def using sublist_trans by blast

lemma parse_request_line_token: "parse_request_line line = Some req \<Longrightarrow> token_from line req"
proof -
  assume p: "parse_request_line line = Some req"
  obtain m r where m: "find_char CHR '' '' line = Some (m, r)"
    using p by (auto simp: parse_request_line_def split: option.splits)
  obtain target v where t: "find_char CHR '' '' r = Some (target, v)"
    using p by (auto simp: parse_request_line_def m split: option.splits)
  have l: "sublist r line" "sublist target r"
    using find_char_suffix [OF m] find_char_prefix [OF t] by (auto intro: suffix_imp_sublist prefix_imp_sublist)
  note rest = p [unfolded parse_request_line_def m t option.case prod.case]
  show ?thesis
  proof (cases "find_char CHR ''?'' target")
    case None
    then show ?thesis using rest by (auto simp: token_from_def empty_request_def split: if_splits)
  next
    case (Some w)
    obtain f q where w: "w = (f, q)" by (cases w)
    have "sublist q target" using find_char_suffix [of "CHR ''?''" target f q] Some w by (simp add: suffix_imp_sublist)
    then have q: "sublist q line" using l sublist_trans by blast
    have "token req = queryParam q ''token''" using rest Some w by (auto split: if_splits)
    then show ?thesis using queryParam_sublist [of q "''token''"] q sublist_trans by (fastforce simp: token_from_def)
  qed
qed

lemma header_line_token:
  "sublist line s \<Longrightarrow> token_from s (fst st) \<Longrightarrow> token_from s (fst (header_line line st))"
proof -
  assume l: "sublist line s" and t: "token_from s (fst st)"
  obtain req len where st: "st = (req, len)" by (cases st)
  show ?thesis
  proof (cases "find_char CHR '':'' line")
    case None
    then show ?thesis using t by (simp add: header_line_def)
  next
    case (Some w)
    obtain name v where w: "w = (name, v)" by (cases w)
    have "sublist v line" using find_char_suffix [of "CHR '':''" line name v] Some w by (simp add: suffix_imp_sublist)
    moreover have "sublist (trim_value v) v" by (simp add: trim_value_def suffix_dropWhile suffix_imp_sublist)
    ultimately have v: "sublist (trim_value v) s" using l sublist_trans by blast
    then have "token_from s (req\<lparr>token := trim_value v\<rparr>)" by (auto simp: token_from_def)
    then show ?thesis using t by (simp add: header_line_def Some w st Let_def)
  qed
qed

lemma sublist_around: "sublist a (a @ m @ b)" "sublist b (a @ m @ b)"
  using sublist_appendI [of a "[]" "m @ b"] sublist_appendI [of b "a @ m" "[]"] by simp_all

lemma sublist_crlf: "sublist a (a @ CHR 0x0D # CHR 0x0A # b)" "sublist b (a @ CHR 0x0D # CHR 0x0A # b)"
  using sublist_around(1) [of a crlf b] sublist_around(2) [of b a crlf] by (simp_all only: append.simps)

lemma split_lines_sublist: "l \<in> set (split_lines s) \<Longrightarrow> sublist l s"
proof (induction s rule: split_lines.induct)
  case (1 s)
  show ?case
  proof (cases "find_sub crlf s")
    case None
    then show ?thesis using "1.prems" by (subst (asm) split_lines.simps) (auto split: if_splits)
  next
    case (Some w)
    obtain a b where w: "w = (a, b)" by (cases w)
    then have s: "s = a @ crlf @ b" "s \<noteq> []" using find_sub_length Some by fastforce+
    then have "sublist a s" "sublist b s" using sublist_crlf by simp_all
    moreover have "split_lines s = a # split_lines b" using s(2) Some w by (subst split_lines.simps) simp
    ultimately show ?thesis using "1.prems" "1.IH" [OF s(2) Some w [symmetric]] sublist_trans by auto
  qed
qed

lemma headers_token: "\<forall>l\<in>set ls. sublist l s \<Longrightarrow> token_from s (fst st) \<Longrightarrow> token_from s (fst (fold header_line ls st))"
  by (induction ls arbitrary: st) (simp_all add: header_line_token)

lemma parse_head_token: "parse_head head = Some (req, len) \<Longrightarrow> token_from head req"
proof -
  assume p: "parse_head head = Some (req, len)"
  obtain line rest where lr: "(case find_sub crlf head of None \<Rightarrow> (head, []) | Some (l, r) \<Rightarrow> (l, r)) = (line, rest)"
    by (metis surj_pair)
  have sub: "sublist line head" "sublist rest head"
  proof -
    have "find_sub crlf head = None \<and> line = head \<and> rest = [] \<or> find_sub crlf head = Some (line, rest)"
      using lr by (auto split: option.splits)
    then show "sublist line head" "sublist rest head"
      using find_sub_length [of crlf head line rest] sublist_crlf by auto
  qed
  obtain r0 where r0: "parse_request_line line = Some r0" "fold header_line (split_lines rest) (r0, 0) = (req, len)"
    using p by (auto simp: parse_head_def lr split: option.splits)
  have "token_from head r0" by (rule token_from_mono [OF parse_request_line_token [OF r0(1)] sub(1)])
  moreover have "\<forall>l\<in>set (split_lines rest). sublist l head" using split_lines_sublist sub(2) sublist_trans by blast
  ultimately show ?thesis using headers_token [of "split_lines rest" head "(r0, 0)"] r0(2) by simp
qed

lemma read_head_prefix:
  "read_head start evs buf = Inr (head, rest, evs') \<Longrightarrow> prefix (head @ crlf @ crlf @ rest) (buf @ concat (map fst evs))"
proof (induction start evs buf rule: read_head.induct)
  case (2 start chunk now evs buf)
  show ?case
  proof (cases "find_sub (crlf @ crlf) (buf @ chunk)")
    case None
    then have "read_head start evs (buf @ chunk) = Inr (head, rest, evs')" "chunk \<noteq> []"
      "\<not> 32 * 1024 < length (buf @ chunk)" "\<not> pastDeadline start now"
      using "2.prems" by (auto split: if_splits)
    then show ?thesis using "2.IH" None by simp
  next
    case (Some w)
    then have "find_sub (crlf @ crlf) (buf @ chunk) = Some (head, rest)" using "2.prems" by (cases w) (simp split: if_splits)
    then have "(buf @ chunk) @ concat (map fst evs) = (head @ crlf @ crlf @ rest) @ concat (map fst evs)"
      using find_sub_length by fastforce
    then show ?thesis by (simp only: prefix_def fst_conv list.map concat.simps append_assoc) blast
  qed
qed simp

lemma readRequest_token:
  assumes "readRequest start evs = Inr req" shows "token_from (concat (map fst evs)) req"
proof -
  obtain head rest evs' where h: "read_head start evs [] = Inr (head, rest, evs')"
    using assms by (auto simp: readRequest_def split: sum.splits)
  obtain r len where p: "parse_head head = Some (r, len)"
    using assms h by (auto simp: readRequest_def split: option.splits)
  have "token req = token r" using assms h p by (auto simp: readRequest_def split: sum.splits if_splits)
  moreover have "prefix head (concat (map fst evs))"
    using read_head_prefix [OF h] by (auto simp: prefix_def)
  ultimately show ?thesis using token_from_mono [OF parse_head_token [OF p]]
    by (auto simp: token_from_def dest: prefix_imp_sublist)
qed

subsection \<open>The web root\<close>

fun split_slash :: "string \<Rightarrow> string list" where
  "split_slash [] = [[]]"
| "split_slash (c # r) =
     (if c = CHR ''/'' then [] # split_slash r
      else (case split_slash r of [] \<Rightarrow> [[c]] | x # xs \<Rightarrow> (c # x) # xs))"

text \<open>Where a path leads: empty parts and dots stay, two dots go up.\<close>

fun walk :: "string list \<Rightarrow> string list \<Rightarrow> string list" where
  "walk [] pos = pos"
| "walk (x # r) pos = walk r (if x = [] \<or> x = ''.'' then pos else if x = ''..'' then butlast pos else pos @ [x])"

definition resolve :: "string \<Rightarrow> string list" where
  "resolve p = walk (split_slash p) []"

definition under :: "string \<Rightarrow> string \<Rightarrow> bool" where
  "under dir f \<longleftrightarrow> prefix (resolve dir) (resolve f)"

lemma split_slash_nonempty [simp]: "split_slash s \<noteq> []"
  by (cases s) (auto split: list.splits)

lemma split_slash_append: "split_slash (a @ CHR ''/'' # b) = split_slash a @ split_slash b"
  by (induction a) (auto split: list.splits)

lemma split_slash_sublist: "x \<in> set (split_slash s) \<Longrightarrow> sublist x s \<and> (split_slash s = x # tl (split_slash s) \<longrightarrow> prefix x s)"
proof (induction s arbitrary: x)
  case (Cons c r)
  obtain y ys where r: "split_slash r = y # ys" by (cases "split_slash r") auto
  have y: "prefix y r" using Cons.IH [of y] r by simp
  show ?case
  proof (cases "c = CHR ''/''")
    case True
    then have "x = [] \<or> x \<in> set (split_slash r)" using Cons.prems by auto
    moreover have "sublist x r \<Longrightarrow> sublist x (c # r)" using sublist_trans [OF _ sublist_append_leftI [of r "[c]"]] by simp
    ultimately show ?thesis using Cons.IH True by auto
  next
    case False
    then have "x = c # y \<or> x \<in> set ys" "split_slash (c # r) = (c # y) # ys" using Cons.prems r by auto
    moreover have "sublist x r \<Longrightarrow> sublist x (c # r)" using sublist_trans [OF _ sublist_append_leftI [of r "[c]"]] by simp
    moreover have "prefix (c # y) (c # r)" using y by simp
    ultimately show ?thesis using Cons.IH [of x] r by (auto dest: prefix_imp_sublist)
  qed
qed simp

lemma find_sub_None: "find_sub p s = None \<Longrightarrow> \<not> sublist p s"
proof (induction p s rule: find_sub.induct)
  case (1 p s)
  have t: "take (length p) s \<noteq> p" using "1.prems" by (subst (asm) find_sub.simps) (auto split: if_splits)
  show ?case
  proof (cases s)
    case Nil
    then show ?thesis using t by (auto simp: sublist_def)
  next
    case (Cons c r)
    have "find_sub p r = None" using "1.prems" t Cons by (subst (asm) find_sub.simps) simp
    then have "\<not> sublist p r" using "1.IH" [OF t Cons] by simp
    moreover have "\<not> prefix p s" using t by (auto simp: prefix_def)
    ultimately show ?thesis using Cons by (simp add: sublist_Cons_right)
  qed
qed

lemma walk_down: "''..'' \<notin> set xs \<Longrightarrow> prefix pos (walk xs pos)"
proof (induction xs arbitrary: pos)
  case (Cons x r)
  then have a: "prefix (pos @ [x]) (walk r (pos @ [x]))" and b: "prefix pos (walk r pos)" by simp_all
  have "walk (x # r) pos = walk r pos \<or> walk (x # r) pos = walk r (pos @ [x])" using Cons.prems by auto
  then show ?case using append_prefixD [OF a] b by metis
qed simp

lemma walk_append: "walk (xs @ ys) pos = walk ys (walk xs pos)"
  by (induction xs arbitrary: pos) simp_all

lemma static_file_under: "static_file srv p = Some full \<Longrightarrow> under (webRootPath srv) full"
proof -
  assume f: "static_file srv p = Some full"
  let ?rel = "relative_path p"
  have safe: "find_sub ''..'' ?rel = None" and full: "full = webRootPath srv @ ''/'' @ ?rel"
    using f by (auto simp: static_file_def isSafeRelativePath_def split: if_splits)
  have "''..'' \<notin> set (split_slash ?rel)" using split_slash_sublist find_sub_None [OF safe] by blast
  then show ?thesis unfolding under_def resolve_def full
    by (simp add: split_slash_append walk_append walk_down)
qed

subsection \<open>Percent encoding\<close>

definition plain_char :: "char \<Rightarrow> bool" where
  "plain_char c \<longleftrightarrow> 97 \<le> code c \<and> code c \<le> 122 \<or> 65 \<le> code c \<and> code c \<le> 90 \<or> is_digit c \<or>
     c = CHR ''-'' \<or> c = CHR ''.'' \<or> c = CHR ''_'' \<or> c = CHR ''~'' \<or> c = CHR ''/''"

text \<open>What a client sends: everything but letters, digits and a few marks is percent-encoded.\<close>

fun url_encode :: "string \<Rightarrow> string" where
  "url_encode [] = []"
| "url_encode (c # r) =
     (if plain_char c then [c] else [CHR ''%'', hex_char (code c div 16), hex_char (code c mod 16)]) @ url_encode r"

lemma code_hex_char: "d < 16 \<Longrightarrow> code (hex_char d) = (if d < 10 then 48 + d else 87 + d)"
  by (simp add: hex_char_def code_digit_char) (simp add: code_def)

lemma hex_char_value: "d < 16 \<Longrightarrow> hex_value (hex_char d) = Some d"
  by (simp add: hex_value_def is_digit_def code_hex_char lower_char_def)

lemma hex_char_not: "d < 16 \<Longrightarrow> code c \<notin> {48..57} \<union> {97..102} \<Longrightarrow> hex_char d \<noteq> c"
  using code_hex_char [of d] by (auto split: if_splits)

lemma hex_char_plain: "d < 16 \<Longrightarrow> \<not> is_space (hex_char d) \<and> hex_char d \<notin> {CHR 0x00, CHR ''-'', CHR ''+'', CHR ''x'', CHR ''X''}"
  using hex_char_not [of d] by (simp add: is_space_def code_hex_char) (simp add: code_def)

lemma hex_char_not_x: "d < 16 \<Longrightarrow> lower_char (hex_char d) \<noteq> CHR ''x''"
  using hex_char_not [of d "CHR ''x''"] by (simp add: lower_char_def code_hex_char) (simp add: code_def)

lemma hex_pair_chars:
  assumes "a < 16" "b < 16" shows "hex_pair (hex_char a) (hex_char b) = Some (char_of (16 * a + b))"
proof -
  note p = hex_char_plain [OF assms(1)] hex_char_plain [OF assms(2)]
  have h: "is_hex (hex_char a)" "is_hex (hex_char b)" using assms by (simp_all add: is_hex_def hex_char_value)
  have "c_string [hex_char a, hex_char b] = [hex_char a, hex_char b]" using p by (simp add: c_string_def)
  moreover have "strtol16 [hex_char a, hex_char b] = (int (16 * a + b), [])"
    using p h hex_char_not_x [OF assms(2)] assms
    by (simp add: strtol16_def Let_def numeral_2_eq_2 read_hex_def hex_char_value)
  moreover have "nat (int (16 * a + b) mod 256) = 16 * a + b" using assms by (simp flip: of_nat_mod)
  ultimately show ?thesis by (simp add: hex_pair_def)
qed

lemma urlDecode_encode: "urlDecode (url_encode s) = s"
proof (induction s)
  case (Cons c r)
  show ?case
  proof (cases "plain_char c")
    case True
    then have "c \<noteq> CHR ''%''" "c \<noteq> CHR ''+''" by (auto simp: plain_char_def code_def is_digit_def)
    then show ?thesis using Cons True by simp
  next
    case False
    have "code c < 256" using mod_less_divisor [of 256 "code c"] by (simp add: code_def)
    then have "hex_pair (hex_char (code c div 16)) (hex_char (code c mod 16)) = Some (char_of (code c))"
      using hex_pair_chars [of "code c div 16" "code c mod 16"] by simp
    moreover have "char_of (code c) = c" by (simp add: code_def)
    ultimately show ?thesis using Cons False by simp
  qed
qed simp

subsection \<open>How the bytes are cut does not matter\<close>

lemma find_sub_here: "find_sub p (p @ b) = Some ([], b)"
  by (subst find_sub.simps) simp

lemma find_sub_extend: "find_sub p x = Some (h, r) \<Longrightarrow> find_sub p (x @ y) = Some (h, r @ y)"
proof (induction p x arbitrary: h rule: find_sub.induct)
  case (1 p x)
  show ?case
  proof (cases "take (length p) x = p")
    case True
    then have "x = p @ drop (length p) x" using append_take_drop_id [of "length p" x] by simp
    moreover have "h = [] \<and> r = drop (length p) x" using "1.prems" True by (subst (asm) find_sub.simps) simp
    ultimately show ?thesis using find_sub_here [of p "drop (length p) x @ y"] by (metis append.assoc)
  next
    case False
    then obtain c q where x: "x = c # q" using "1.prems" by (subst (asm) find_sub.simps) (auto split: list.splits)
    then obtain h' where h': "find_sub p q = Some (h', r)" "h = c # h'" using "1.prems" False
      by (subst (asm) find_sub.simps) auto
    have "take (length p) (x @ y) \<noteq> p"
    proof
      assume "take (length p) (x @ y) = p"
      moreover have "length p \<le> length x" using find_sub_length [OF h'(1)] x by simp
      ultimately show False using False by simp
    qed
    then show ?thesis using "1.IH" [OF False x h'(1)] x h'(2) by (subst find_sub.simps) simp
  qed
qed

lemma find_sub_short: "find_sub p x = None \<Longrightarrow> find_sub p (x @ y) = Some (h, r) \<Longrightarrow> length x < length h + length p"
proof (rule ccontr)
  assume x: "find_sub p x = None" and h: "find_sub p (x @ y) = Some (h, r)" and l: "\<not> length x < length h + length p"
  have "x @ y = (h @ p) @ r" using find_sub_length [OF h] by simp
  then have "take (length (h @ p)) (x @ y) = h @ p" by simp
  then have "take (length (h @ p)) x = h @ p" using l by simp
  then have "prefix (h @ p) x" using take_is_prefix [of "length (h @ p)" x] by simp
  then have "sublist p x" using sublist_trans [OF _ prefix_imp_sublist, of p "h @ p" x] sublist_append_leftI [of p h] by simp
  then show False using find_sub_None [OF x] by simp
qed

text \<open>Data arrives in every event and in time.\<close>

definition prompt :: "u32 \<Rightarrow> recvs \<Rightarrow> bool" where
  "prompt start evs \<longleftrightarrow> (\<forall>(chunk, now)\<in>set evs. chunk \<noteq> [] \<and> \<not> pastDeadline start now)"

lemma read_head_whole:
  "prompt start evs \<Longrightarrow> find_sub (crlf @ crlf) buf = None \<Longrightarrow>
   find_sub (crlf @ crlf) (buf @ concat (map fst evs)) = Some (head, rest) \<Longrightarrow> length head + 4 \<le> 32 * 1024 \<Longrightarrow>
   \<exists>rest' evs'. read_head start evs buf = Inr (head, rest', evs') \<and> rest = rest' @ concat (map fst evs') \<and> prompt start evs'"
proof (induction start evs buf rule: read_head.induct)
  case (2 start chunk now evs buf)
  have pr: "chunk \<noteq> []" "\<not> pastDeadline start now" "prompt start evs" using "2.prems"(1) by (simp_all add: prompt_def)
  have whole: "find_sub (crlf @ crlf) ((buf @ chunk) @ concat (map fst evs)) = Some (head, rest)" using "2.prems"(3) by simp
  show ?case
  proof (cases "find_sub (crlf @ crlf) (buf @ chunk)")
    case None
    have "length (buf @ chunk) < length head + length (crlf @ crlf)" by (rule find_sub_short [OF None whole])
    then have short: "\<not> 32 * 1024 < length (buf @ chunk)" using "2.prems"(4) by simp
    have "read_head start ((chunk, now) # evs) buf = read_head start evs (buf @ chunk)"
      using pr(1,2) None short by simp
    then show ?thesis using "2.IH" [OF pr(1) None short pr(2,3) None whole "2.prems"(4)] by simp
  next
    case (Some w)
    obtain h r where w: "w = (h, r)" by (cases w)
    then have "head = h" "rest = r @ concat (map fst evs)" using find_sub_extend Some whole by fastforce+
    then show ?thesis using pr Some w by simp
  qed
qed simp

lemma read_body_whole:
  "prompt start evs \<Longrightarrow> \<exists>b. read_body start len evs buf = Inr b \<and> take (nat len) b = take (nat len) (buf @ concat (map fst evs))"
proof (induction evs arbitrary: buf)
  case Nil
  show ?case by (subst read_body.simps) simp
next
  case (Cons ev evs)
  obtain chunk now where ev: "ev = (chunk, now)" by (cases ev)
  have pr: "chunk \<noteq> []" "\<not> pastDeadline start now" "prompt start evs" using Cons.prems by (simp_all add: prompt_def ev)
  show ?case
  proof (cases "len \<le> int (length buf)")
    case True
    then have "read_body start len (ev # evs) buf = Inr buf" by (subst read_body.simps) simp
    then show ?thesis using True by simp
  next
    case False
    then have "read_body start len (ev # evs) buf = read_body start len evs (buf @ chunk)"
      using pr by (subst read_body.simps) (simp add: ev)
    then show ?thesis using Cons.IH [OF pr(3), of "buf @ chunk"] by (simp add: ev)
  qed
qed

lemma readRequest_whole:
  assumes ev: "prompt start evs" and bytes: "find_sub (crlf @ crlf) (concat (map fst evs)) = Some (head, rest)"
    and short: "length head + 4 \<le> 32 * 1024" and head: "parse_head head = Some (req, len)"
    and len: "0 \<le> len" "len \<le> REQUEST_MAX_BYTES"
  shows "readRequest start evs = Inr (req\<lparr>body := take (nat len) rest\<rparr>)"
proof -
  have "find_sub (crlf @ crlf) [] = None" by (subst find_sub.simps) simp
  then obtain rest' evs' where h: "read_head start evs [] = Inr (head, rest', evs')"
    "rest = rest' @ concat (map fst evs')" "prompt start evs'"
    using read_head_whole [OF ev _ _ short, of "[]" rest] bytes by auto
  obtain b where b: "read_body start len evs' rest' = Inr b" "take (nat len) b = take (nat len) rest"
    using read_body_whole [OF h(3), of len rest'] h(2) by auto
  show ?thesis using len by (simp add: readRequest_def h(1) head b)
qed

subsection \<open>A request is understood\<close>

text \<open>
  A request as a client writes it: method, percent-encoded path, a query string if there is one, and header fields in any number
  and order. A field is its name, the blanks behind the colon and its value.
\<close>

type_synonym field = "string \<times> string \<times> string"

fun field_text :: "field \<Rightarrow> string" where
  "field_text (n, blanks, v) = n @ CHR '':'' # blanks @ v"

fun query_text :: "(string \<times> string) list \<Rightarrow> string" where
  "query_text [] = []"
| "query_text ((k, v) # kvs) = url_encode k @ CHR ''='' # url_encode v @ (if kvs = [] then [] else CHR ''&'' # query_text kvs)"

definition target_text :: "string \<Rightarrow> (string \<times> string) list option \<Rightarrow> string" where
  "target_text p q = url_encode p @ (case q of None \<Rightarrow> [] | Some kvs \<Rightarrow> CHR ''?'' # query_text kvs)"

definition request_head :: "string \<Rightarrow> string \<Rightarrow> (string \<times> string) list option \<Rightarrow> field list \<Rightarrow> string" where
  "request_head m p q fs = (m @ CHR '' '' # target_text p q @ '' HTTP/1.1'') @ concat (map (\<lambda>f. crlf @ field_text f) fs)"

definition request_text :: "string \<Rightarrow> string \<Rightarrow> (string \<times> string) list option \<Rightarrow> field list \<Rightarrow> string \<Rightarrow> string" where
  "request_text m p q fs b = request_head m p q fs @ crlf @ crlf @ b"

text \<open>The value of a header, whose name is read without regard to case; the last one counts.\<close>

definition header_value :: "string \<Rightarrow> field list \<Rightarrow> string option" where
  "header_value n fs = map_of (rev (map (\<lambda>(k, blanks, v). (map lower_char k, v)) fs)) (map lower_char n)"

lemma find_char_first: "c \<notin> set a \<Longrightarrow> find_char c (a @ c # b) = Some (a, b)"
  by (induction a) (auto simp: find_char_def split: list.splits)

lemma find_char_absent: "c \<notin> set a \<Longrightarrow> find_char c a = None"
proof -
  assume "c \<notin> set a"
  then have "dropWhile (\<lambda>d. d \<noteq> c) a = []" by auto
  then show ?thesis by (simp only: find_char_def list.case)
qed

lemma find_crlf_first: "CHR 0x0D \<notin> set a \<Longrightarrow> find_sub crlf (a @ crlf @ b) = Some (a, b)"
proof (induction a)
  case Nil
  show ?case using find_sub_here [of crlf b] by simp
next
  case (Cons c a)
  then show ?case by (subst find_sub.simps) auto
qed

lemma find_crlf_absent: "CHR 0x0D \<notin> set a \<Longrightarrow> find_sub crlf a = None"
proof (induction a)
  case Nil
  show ?case by (subst find_sub.simps) simp
next
  case (Cons c a)
  then show ?case by (subst find_sub.simps) auto
qed

lemma find_end_skip: "CHR 0x0D \<notin> set a \<Longrightarrow>
    find_sub (crlf @ crlf) (a @ w) = map_option (\<lambda>(x, y). (a @ x, y)) (find_sub (crlf @ crlf) w)"
proof (induction a)
  case Nil
  show ?case by (simp add: case_prod_unfold option.map_ident)
next
  case (Cons c a)
  then show ?case by (subst find_sub.simps) (auto simp: option.map_comp o_def case_prod_unfold)
qed

lemma find_end_line: "c \<noteq> CHR 0x0D \<Longrightarrow>
    find_sub (crlf @ crlf) (crlf @ c # w) = map_option (\<lambda>(x, y). (crlf @ x, y)) (find_sub (crlf @ crlf) (c # w))"
  by (subst find_sub.simps, simp) (subst find_sub.simps, auto simp: option.map_comp o_def case_prod_unfold)

lemma url_encode_chars: "c \<in> set (url_encode s) \<Longrightarrow> plain_char c \<or> c = CHR ''%''"
proof (induction s)
  case (Cons d r)
  have h: "plain_char (hex_char n)" if "n < 16" for n
    using code_hex_char [OF that] that by (auto simp: plain_char_def is_digit_def split: if_splits)
  have "code d < 256" using mod_less_divisor [of 256 "code d"] by (simp add: code_def)
  then have "plain_char (hex_char (code d div 16))" "plain_char (hex_char (code d mod 16))" using h by simp_all
  then show ?case using Cons by (auto split: if_splits)
qed simp

lemma url_encode_free: "CHR 0x0D \<notin> set (url_encode s)" "CHR '' '' \<notin> set (url_encode s)" "CHR ''?'' \<notin> set (url_encode s)"
  using url_encode_chars [of "CHR 0x0D" s] url_encode_chars [of "CHR '' ''" s] url_encode_chars [of "CHR ''?''" s]
  by (auto simp: plain_char_def is_digit_def code_def)

definition plain_field :: "field \<Rightarrow> bool" where
  "plain_field f \<longleftrightarrow> (case f of (n, blanks, v) \<Rightarrow>
     n \<noteq> [] \<and> {CHR 0x00, CHR 0x0D, CHR '':''} \<inter> set n = {} \<and> set blanks \<subseteq> {CHR '' '', CHR 0x09} \<and>
     CHR 0x0D \<notin> set v \<and> (v = [] \<or> hd v \<notin> {CHR '' '', CHR 0x09}))"

definition plain_request :: "string \<Rightarrow> string \<Rightarrow> field list \<Rightarrow> string \<Rightarrow> bool" where
  "plain_request m p fs b \<longleftrightarrow> CHR '' '' \<notin> set m \<and> CHR 0x0D \<notin> set m \<and> take 1 p = ''/'' \<and> (\<forall>f\<in>set fs. plain_field f) \<and>
     (case header_value ''Content-Length'' fs of None \<Rightarrow> b = [] | Some v \<Rightarrow> v = show_nat (length b))"

text \<open>The token a request carries: that of its header, or else that of its query.\<close>

definition token_sent :: "(string \<times> string) list option \<Rightarrow> field list \<Rightarrow> string" where
  "token_sent q fs =
     (case header_value ''X-Clumsy-Token'' fs of Some t \<Rightarrow> t
      | None \<Rightarrow> (case q of None \<Rightarrow> [] | Some kvs \<Rightarrow> (case map_of kvs ''token'' of None \<Rightarrow> [] | Some t \<Rightarrow> t)))"

definition intended :: "string \<Rightarrow> string \<Rightarrow> (string \<times> string) list option \<Rightarrow> field list \<Rightarrow> string \<Rightarrow> http_request" where
  "intended m p q fs b =
     \<lparr>meth = m, path = p, query = (case q of None \<Rightarrow> [] | Some kvs \<Rightarrow> query_text kvs), body = b, token = token_sent q fs\<rparr>"

lemma url_encode_no: "c \<notin> {CHR ''%'', CHR ''/''} \<Longrightarrow> \<not> plain_char c \<Longrightarrow> c \<notin> set (url_encode s)"
  using url_encode_chars by blast

lemma no_marks: "CHR ''&'' \<notin> set (url_encode s)" "CHR ''='' \<notin> set (url_encode s)"
  by (rule url_encode_no; simp add: plain_char_def is_digit_def code_def)+

lemma query_text_free: "CHR 0x0D \<notin> set (query_text kvs)" "CHR '' '' \<notin> set (query_text kvs)"
  by (induction kvs rule: query_text.induct) (simp_all add: url_encode_free)

lemma target_text_free: "CHR 0x0D \<notin> set (target_text p q)" "CHR '' '' \<notin> set (target_text p q)"
  by (simp_all add: target_text_def url_encode_free query_text_free split: option.split)

lemma query_parameter:
  assumes key: "url_encode key = key"
  shows "queryParam (query_text kvs) key = (case map_of kvs key of None \<Rightarrow> [] | Some v \<Rightarrow> v)"
proof (induction kvs rule: query_text.induct)
  case (2 k v kvs)
  let ?pair = "url_encode k @ CHR ''='' # url_encode v" and ?more = "if kvs = [] then [] else CHR ''&'' # query_text kvs"
  have amp: "\<forall>c\<in>set ?pair. c \<noteq> CHR ''&''" using no_marks(1) by auto
  have t: "takeWhile (\<lambda>c. c \<noteq> CHR ''&'') (?pair @ ?more) = ?pair" "drop 1 (dropWhile (\<lambda>c. c \<noteq> CHR ''&'') (?pair @ ?more)) = query_text kvs"
    using takeWhile_append2 [of ?pair "\<lambda>c. c \<noteq> CHR ''&''" ?more] dropWhile_append2 [of ?pair "\<lambda>c. c \<noteq> CHR ''&''" ?more] amp
    by simp_all
  have f: "find_char CHR ''='' ?pair = Some (url_encode k, url_encode v)" by (rule find_char_first) (rule no_marks(2))
  have "url_encode k = key \<longleftrightarrow> k = key" using key urlDecode_encode by metis
  moreover have "queryParam (?pair @ ?more) key = (if url_encode k = key then urlDecode (url_encode v) else queryParam (query_text kvs) key)"
    by (subst queryParam.simps) (simp only: t f Let_def option.case prod.case append_is_Nil_conv list.distinct if_False simp_thms)
  moreover have "queryParam (query_text kvs) key = (case map_of kvs key of None \<Rightarrow> [] | Some v \<Rightarrow> v)"
    using 2 by (cases "kvs = []") simp_all
  ultimately show ?case by (simp add: urlDecode_encode)
qed simp

lemma token_parameter: "queryParam (query_text kvs) ''token'' = (case map_of kvs ''token'' of None \<Rightarrow> [] | Some v \<Rightarrow> v)"
  by (rule query_parameter) (simp add: plain_char_def code_def)

lemma request_line_parsed:
  assumes "CHR '' '' \<notin> set m" "take 1 p = ''/''"
  shows "parse_request_line (m @ CHR '' '' # target_text p q @ '' HTTP/1.1'') = Some (intended m p q [] [])"
proof -
  have sl: "take 1 (target_text p q) = ''/''"
  proof (cases p)
    case (Cons c r)
    then have "c = CHR ''/''" using assms by simp
    then show ?thesis using Cons by (simp add: target_text_def plain_char_def)
  qed (use assms in simp)
  moreover have "find_char CHR '' '' (m @ CHR '' '' # target_text p q @ '' HTTP/1.1'') = Some (m, target_text p q @ '' HTTP/1.1'')"
    using assms by (intro find_char_first) simp
  moreover have "find_char CHR '' '' (target_text p q @ '' HTTP/1.1'') = Some (target_text p q, ''HTTP/1.1'')"
    using find_char_first [OF target_text_free(2), of p q "''HTTP/1.1''"] by simp
  moreover have "find_char CHR ''?'' (target_text p q) =
      (case q of None \<Rightarrow> None | Some kvs \<Rightarrow> Some (url_encode p, query_text kvs))"
    using find_char_absent [OF url_encode_free(3)] find_char_first [OF url_encode_free(3)]
    by (simp add: target_text_def split: option.split)
  moreover have "target_text p None = url_encode p" by (simp add: target_text_def)
  ultimately show ?thesis
    by (cases q) (simp_all add: parse_request_line_def empty_request_def intended_def urlDecode_encode token_sent_def header_value_def
        token_parameter)
qed

lemma c_string_all: "CHR 0x00 \<notin> set s \<Longrightarrow> c_string s = s"
  by (simp add: c_string_def takeWhile_eq_all_conv) blast

lemma show_nat_no: "\<not> is_digit c \<Longrightarrow> c \<notin> set (show_nat n)"
  using show_nat_digits by blast

lemma blanks_trimmed: "set blanks \<subseteq> {CHR '' '', CHR 0x09} \<Longrightarrow> v = [] \<or> hd v \<notin> {CHR '' '', CHR 0x09} \<Longrightarrow> trim_value (blanks @ v) = v"
proof (induction blanks)
  case Nil
  then show ?case by (cases v) (simp_all add: trim_value_def)
qed (auto simp: trim_value_def)

lemma field_read:
  assumes "plain_field (n, blanks, v)"
  shows "header_line (field_text (n, blanks, v)) (req, len) =
    (if stricmp_eq n ''Content-Length'' then (req, atol (c_string v))
     else if stricmp_eq n ''X-Clumsy-Token'' then (req\<lparr>token := v\<rparr>, len) else (req, len))"
proof -
  have f: "find_char CHR '':'' (field_text (n, blanks, v)) = Some (n, blanks @ v)"
    using assms find_char_first [of "CHR '':''" n "blanks @ v"] by (simp add: plain_field_def)
  have "trim_value (blanks @ v) = v" using assms by (intro blanks_trimmed) (simp_all add: plain_field_def)
  moreover have "c_string n = n" using assms by (intro c_string_all) (simp add: plain_field_def)
  ultimately show ?thesis unfolding header_line_def f option.case prod.case Let_def by simp
qed

lemma header_value_snoc:
  "header_value n (fs @ [(k, blanks, v)]) = (if stricmp_eq k n then Some v else header_value n fs)"
  by (simp add: header_value_def stricmp_eq_def)

lemma fields_read:
  "\<forall>f\<in>set fs. plain_field f \<Longrightarrow>
   fold header_line (map field_text fs) (req, 0) =
     (case header_value ''X-Clumsy-Token'' fs of None \<Rightarrow> req | Some t \<Rightarrow> req\<lparr>token := t\<rparr>,
      case header_value ''Content-Length'' fs of None \<Rightarrow> 0 | Some v \<Rightarrow> atol (c_string v))"
proof (induction fs rule: rev_induct)
  case Nil
  then show ?case by (simp add: header_value_def)
next
  case (snoc f fs)
  obtain k blanks v where f: "f = (k, blanks, v)" by (cases f)
  have "\<not> (stricmp_eq k ''Content-Length'' \<and> stricmp_eq k ''X-Clumsy-Token'')"
    by (simp add: stricmp_eq_def lower_char_def code_def)
  then show ?case using snoc field_read [of k blanks v]
    by (auto simp: f header_value_snoc simp del: field_text.simps split: option.split)
qed

lemma field_lines:
  "plain_field f \<Longrightarrow> CHR 0x0D \<notin> set (field_text f) \<and> (\<exists>c r. field_text f = c # r \<and> c \<noteq> CHR 0x0D)"
proof (cases f)
  case (fields n blanks v)
  assume f: "plain_field f"
  obtain c r where "n = c # r" using f by (cases n) (simp_all add: plain_field_def fields)
  then show ?thesis using f by (auto simp: plain_field_def fields)
qed

lemma lines_split:
  "\<forall>g\<in>set (f # fs). plain_field g \<Longrightarrow>
   split_lines (field_text f @ concat (map (\<lambda>f. crlf @ field_text f) fs)) = map field_text (f # fs)"
proof (induction fs arbitrary: f)
  case Nil
  then have "CHR 0x0D \<notin> set (field_text f)" "field_text f \<noteq> []" using field_lines [of f] by auto
  then show ?case using find_crlf_absent [of "field_text f"] by (subst split_lines.simps) simp
next
  case (Cons g fs)
  have f: "CHR 0x0D \<notin> set (field_text f)" "field_text f \<noteq> []" using field_lines [of f] Cons.prems by auto
  let ?rest = "field_text g @ concat (map (\<lambda>f. crlf @ field_text f) fs)"
  have "split_lines (field_text f @ crlf @ ?rest) = field_text f # split_lines ?rest"
    using find_crlf_first [OF f(1), of ?rest] f(2) by (subst split_lines.simps) simp
  then show ?case using Cons.IH [of g] Cons.prems by simp
qed

lemma request_head_parsed:
  assumes p: "plain_request m p fs b" and b: "length b \<le> 262144"
  shows "parse_head (request_head m p q fs) = Some (intended m p q fs [], int (length b))"
proof -
  let ?line = "m @ CHR '' '' # target_text p q @ '' HTTP/1.1''"
  have fs: "\<forall>f\<in>set fs. plain_field f" using p by (simp add: plain_request_def)
  have cr: "CHR 0x0D \<notin> set ?line" using p target_text_free(1) by (simp add: plain_request_def)
  have l: "parse_request_line ?line = Some (intended m p q [] [])"
    using p by (intro request_line_parsed) (simp_all add: plain_request_def)
  have "parse_head (request_head m p q fs) = Some (fold header_line (map field_text fs) (intended m p q [] [], 0))"
  proof (cases fs)
    case Nil
    then have "find_sub crlf (request_head m p q fs) = None" using find_crlf_absent [OF cr] by (simp add: request_head_def)
    moreover have "request_head m p q fs = ?line" "split_lines [] = []" using Nil by (simp_all add: request_head_def split_lines.simps)
    ultimately show ?thesis using l Nil by (simp add: parse_head_def)
  next
    case (Cons f gs)
    let ?rest = "field_text f @ concat (map (\<lambda>f. crlf @ field_text f) gs)"
    have 1: "find_sub crlf (request_head m p q fs) = Some (?line, ?rest)"
      using find_crlf_first [OF cr, of ?rest] by (simp add: request_head_def Cons)
    have 2: "split_lines ?rest = map field_text fs" using lines_split [of f gs] fs by (simp add: Cons)
    show ?thesis unfolding parse_head_def 1 option.case prod.case Let_def l 2 by simp
  qed
  moreover have "(case header_value ''X-Clumsy-Token'' fs of None \<Rightarrow> intended m p q [] [] | Some t \<Rightarrow> intended m p q [] []\<lparr>token := t\<rparr>) =
      intended m p q fs []"
    by (simp add: intended_def token_sent_def header_value_def split: option.split)
  moreover have "atol (c_string (show_nat (length b))) = int (length b)"
  proof -
    have "\<not> is_digit CHR 0x00" by (simp add: is_digit_def code_def)
    then have "c_string (show_nat (length b)) = show_nat (length b)" by (intro c_string_all show_nat_no)
    moreover have "atol (show_int (int (length b))) = int (length b)" using b by (intro atol_show_int) simp_all
    ultimately show ?thesis by (simp add: show_int_def)
  qed
  ultimately show ?thesis using fields_read [OF fs, of "intended m p q [] []"] p
    by (cases "header_value ''Content-Length'' fs") (simp_all add: plain_request_def)
qed

lemma fields_end:
  "\<forall>f\<in>set fs. plain_field f \<Longrightarrow>
   find_sub (crlf @ crlf) (concat (map (\<lambda>f. crlf @ field_text f) fs) @ crlf @ crlf @ b) =
     Some (concat (map (\<lambda>f. crlf @ field_text f) fs), b)"
proof (induction fs)
  case Nil
  show ?case using find_sub_here [of "crlf @ crlf" b] by simp
next
  case (Cons f fs)
  let ?w = "concat (map (\<lambda>f. crlf @ field_text f) fs)"
  obtain c r where c: "field_text f = c # r" "c \<noteq> CHR 0x0D" and cr: "CHR 0x0D \<notin> set (field_text f)"
    using field_lines [of f] Cons.prems by auto
  have "find_sub (crlf @ crlf) (field_text f @ ?w @ crlf @ crlf @ b) = Some (field_text f @ ?w, b)"
    unfolding find_end_skip [OF cr] using Cons.IH Cons.prems by simp
  then show ?case using find_end_line [OF c(2), of "r @ ?w @ crlf @ crlf @ b"] c(1) by simp
qed

lemma request_end:
  assumes "plain_request m p fs b"
  shows "find_sub (crlf @ crlf) (request_text m p q fs b) = Some (request_head m p q fs, b)"
proof -
  let ?line = "m @ CHR '' '' # target_text p q @ '' HTTP/1.1''"
  have cr: "CHR 0x0D \<notin> set ?line" using assms target_text_free(1) by (simp add: plain_request_def)
  have fs: "\<forall>f\<in>set fs. plain_field f" using assms by (simp add: plain_request_def)
  show ?thesis unfolding request_text_def request_head_def append_assoc [of ?line] find_end_skip [OF cr] fields_end [OF fs] by simp
qed

lemma token_chars_length [simp]: "length (token_chars n seed) = n"
  by (induction n arbitrary: seed) (simp_all add: Let_def)

lemma generateToken_length: "length (generateToken seed 128) = 24"
  by (simp add: generateToken_def)

lemma sendAll_prefix: "sendAll ns s = (ok, out) \<Longrightarrow> prefix out s \<and> (ok \<longrightarrow> out = s)"
proof (induction ns s arbitrary: ok out rule: sendAll.induct)
  case (3 n ns c r)
  show ?case
  proof (cases "n \<le> 0")
    case False
    obtain ok' out' where rest: "sendAll ns (drop (nat n) (c # r)) = (ok', out')" by (cases "sendAll ns (drop (nat n) (c # r))")
    have "prefix out' (drop (nat n) (c # r)) \<and> (ok' \<longrightarrow> out' = drop (nat n) (c # r))" by (rule "3.IH" [OF False rest])
    moreover have "ok = ok'" "out = take (nat n) (c # r) @ out'" using "3.prems" False rest by simp_all
    ultimately show ?thesis using append_take_drop_id [of "nat n" "c # r"] by (metis same_prefix_prefix)
  qed (use "3.prems" in simp)
qed simp_all

lemma request_read:
  assumes bytes: "concat (map fst evs) = request_text m p q fs b" and ev: "prompt start evs" and plain: "plain_request m p fs b"
    and head: "length (request_head m p q fs) + 4 \<le> 32 * 1024" and b: "length b \<le> 256 * 1024"
  shows "readRequest start evs = Inr (intended m p q fs b)"
proof -
  have e: "find_sub (crlf @ crlf) (concat (map fst evs)) = Some (request_head m p q fs, b)"
    using request_end [OF plain] by (simp add: bytes)
  have h: "parse_head (request_head m p q fs) = Some (intended m p q fs [], int (length b))"
    using request_head_parsed [OF plain] b by simp
  have "int (length b) \<le> REQUEST_MAX_BYTES" using b by (simp add: REQUEST_MAX_BYTES_def)
  then show ?thesis using readRequest_whole [OF ev e head h] by (simp add: intended_def)
qed

subsection \<open>Properties\<close>

text \<open>C31: a request a client writes - method, percent-encoded path, a query string or none, and header fields in any number and
  order with their values behind any blanks, names in any case - is understood as it was meant, however
  the network cuts it into pieces: it is routed with exactly that method, path, query and body, and with the token of its token header
  or else of its query, as long as the pieces come in time, the head stays below 32 KB and the body below 256 KB. A body
  must have its length announced in a Content-Length field (chunked bodies are not read).\<close>

theorem request_understood:
  assumes bytes: "concat (map fst evs) = request_text m p q fs b" and ev: "prompt start evs" and plain: "plain_request m p fs b"
    and head: "length (request_head m p q fs) + 4 \<le> 32 * 1024" and b: "length b \<le> 256 * 1024"
  shows "connectionThread srv start evs = Some (routeRequest srv (intended m p q fs b))"
  by (simp add: connectionThread_def request_read [OF assms])

definition stop_fields :: "field list" where
  "stop_fields = [(''Host'', '' '', ''127.0.0.1:8080''), (''User-Agent'', '' '', ''curl/8.5.0''), (''accept'', '' '', ''*/*''),
     (''x-clumsy-token'', [], ''secret''), (''content-length'', '' '', ''2'')]"

definition stop_query :: "(string \<times> string) list" where
  "stop_query = [(''why'', ''a & b''), (''token'', ''old'')]"

definition stop_request :: string where
  "stop_request = request_text ''POST'' ''/api/stop'' (Some stop_query) stop_fields ''{}''"

lemma stop_request_plain:
  "plain_request ''POST'' ''/api/stop'' stop_fields ''{}''"
  "length (request_head ''POST'' ''/api/stop'' (Some stop_query) stop_fields) + 4 \<le> 32 * 1024"
  "token_sent (Some stop_query) stop_fields = ''secret''" "5 < length stop_request"
  by (simp_all add: plain_request_def plain_field_def header_value_def token_sent_def request_head_def target_text_def stop_request_def
      request_text_def stop_fields_def stop_query_def plain_char_def code_def lower_char_def show_nat.simps digit_char_def char_of_def bit_0
      hex_char_def)

lemma stop_pieces: "prompt 0 [(take 5 stop_request, 7), (drop 5 stop_request, 9)]"
  using stop_request_plain(4) by (auto simp: prompt_def pastDeadline_def REQUEST_DEADLINE_MS_def)

definition guarded :: server where
  "guarded = \<lparr>authRequired = True, serverToken = ''secret'', webRootPath = ''/opt/web''\<rparr>"

theorem request_understood_witness:
  "connectionThread guarded 0 [(take 5 stop_request, 7), (drop 5 stop_request, 9)] = Some (Call PostStop)"
  using request_understood [OF _ stop_pieces stop_request_plain(1,2), where srv = guarded] stop_request_plain(3)
  by (simp add: stop_request_def routeRequest_def intended_def isAuthorized_def guarded_def route_post_def)

text \<open>What only an authorised request may get.\<close>

definition needs_token :: "action \<Rightarrow> bool" where
  "needs_token a = (case a of Call ep \<Rightarrow> ep \<noteq> GetHealth \<and> ep \<noteq> GetMetrics | Static _ \<Rightarrow> True | Answer _ \<Rightarrow> False)"

text \<open>C32: when the server listens on anything but loopback it has a token, and a connection that gets more than the health
  check, the metrics or a refusal has sent this token: it stands in the received bytes, plainly or
  percent-encoded. (An IPv6 address is no IPv4 address for \<^verbatim>\<open>inet_pton\<close>.)\<close>

theorem remote_access_needs_token:
  assumes opened: "server_setup inet_pton bindAddr port given seed srv0 = Some (srv, addr)" and ipv4: "\<not> inet_pton ''::1''"
    and remote: "addr \<noteq> ''127.0.0.1''" and conn: "connectionThread srv start evs = Some a" "needs_token a"
  shows "serverToken srv \<noteq> [] \<and>
    (\<exists>e. sublist e (concat (map fst evs)) \<and> (e = serverToken srv \<or> urlDecode e = serverToken srv))"
proof -
  have s: "srv = auth_policy bindAddr given seed srv0" "addr = resolved_address bindAddr" "inet_pton addr"
    using opened by (auto simp: server_setup_def Let_def split: if_splits)
  have "\<not> isLoopbackAddress bindAddr"
    using s(2,3) remote ipv4 by (auto simp: resolved_address_def isLoopbackAddress_def split: option.splits if_splits)
  then have auth: "authRequired srv" "serverToken srv \<noteq> []"
    using s(1) generateToken_length [of seed] by (auto simp: auth_policy_def Let_def split: if_splits)
  obtain req where r: "readRequest start evs = Inr req" "a = routeRequest srv req"
    using conn by (auto simp: connectionThread_def needs_token_def split: sum.splits read_error.splits)
  have "isAuthorized srv req" using r(2) conn(2) by (auto simp: routeRequest_def needs_token_def split: if_splits)
  then have "token req = serverToken srv" using auth by (simp add: isAuthorized_def)
  then show ?thesis using readRequest_token [OF r(1)] auth by (auto simp: token_from_def)
qed

theorem remote_access_needs_token_witness:
  "serverToken guarded \<noteq> [] \<and> (\<exists>e. sublist e stop_request \<and> (e = ''secret'' \<or> urlDecode e = ''secret''))"
proof -
  have opened: "server_setup (\<lambda>a. a = ''0.0.0.0'') (Some ''0.0.0.0'') 8080 (Some ''secret'') 0 guarded = Some (guarded, ''0.0.0.0'')"
    by (simp add: server_setup_def auth_policy_def resolved_address_def guarded_def Let_def)
  have "readRequest 0 [(take 5 stop_request, 7), (drop 5 stop_request, 9)] =
      Inr (intended ''POST'' ''/api/stop'' (Some stop_query) stop_fields ''{}'')"
    by (rule request_read [OF _ stop_pieces stop_request_plain(1,2)]) (simp_all add: stop_request_def)
  then have conn: "connectionThread guarded 0 [(take 5 stop_request, 7), (drop 5 stop_request, 9)] = Some (Call PostStop)"
    using stop_request_plain(3) by (simp add: connectionThread_def routeRequest_def intended_def isAuthorized_def guarded_def route_post_def)
  show ?thesis using remote_access_needs_token [OF opened _ _ conn] by (simp add: needs_token_def guarded_def)
qed

text \<open>C33: no request path leads out of the web root: two file systems that agree on everything under it give the same
  response to every request for a file.\<close>

theorem static_confined:
  assumes "\<forall>f. under (webRootPath srv) f \<longrightarrow> files f = files' f"
  shows "serveStatic files srv p = serveStatic files' srv p"
proof (cases "static_file srv p")
  case (Some full)
  then have "files full = files' full" using static_file_under assms by blast
  then show ?thesis by (simp add: serveStatic_def Some)
qed (simp add: serveStatic_def)

theorem static_confined_witness:
  "serveStatic (\<lambda>_. None) guarded ''/../../etc/passwd'' = serveStatic (\<lambda>f. if f = ''/etc/passwd'' then Some ''root'' else None) guarded ''/../../etc/passwd''"
  by (rule static_confined) (simp add: under_def resolve_def guarded_def prefix_def)

text \<open>A token of more than 127 characters is cut when it is stored, so the operator's own token is refused.\<close>

theorem long_token_refused:
  "127 < length t \<Longrightarrow> \<not> isAuthorized (auth_policy bindAddr (Some t) seed srv) (req\<lparr>token := t\<rparr>)"
proof -
  assume t: "127 < length t"
  then have "t \<noteq> []" "length t \<noteq> length (take 127 t)" by auto
  then have "t \<noteq> take 127 t" by metis
  then show ?thesis using \<open>t \<noteq> []\<close> by (simp add: isAuthorized_def auth_policy_def Let_def)
qed

end
