(* ===== verification/Control_Api.thy ===== *)
theory Control_Api
  imports App Json_Grammar Http
begin

text \<open>
  \<^verbatim>\<open>src/src/controlapi.cpp\<close>: the requests of the web dashboard and of the control socket on the application state, and the texts
  they are answered with. A handler gives the HTTP status and the text, and the state; \<open>None\<close> is undefined
  behaviour of the code (a parameter or a limit that does not fit its C type) or a crash of a stop. A text that
  goes to a function of the C side ends at its first NUL. \<open>json_obj\<close> and \<open>json_arr\<close> of \<open>Json_Grammar\<close> stand for
  the concatenations that put commas between members and items.
\<close>

subsection \<open>Serialisation\<close>

definition dblToStr :: "double \<Rightarrow> string" where
  "dblToStr d = show_plain 4 d"

text \<open>\<^verbatim>\<open>numToStr\<close> of a \<^verbatim>\<open>LONG\<close>; numbers that cannot be negative use \<open>show_nat\<close>.\<close>

definition numToStr :: "u64 \<Rightarrow> string" where
  "numToStr v = show_int (sint v)"

definition bool_json :: "bool \<Rightarrow> string" where
  "bool_json b = (if b then ''true'' else ''false'')"

definition status_ok :: "string \<times> string" where
  "status_ok = (''status'', quoted ''ok'')"

definition okJson :: "(string \<times> string) list \<Rightarrow> string" where
  "okJson extra = json_obj (status_ok # extra)"

definition errJson :: "string \<Rightarrow> string" where
  "errJson msg = json_obj [(''status'', quoted ''error''), (''message'', quoted msg)]"

definition moduleParamsJson :: "(int \<Rightarrow> param_kv list) \<Rightarrow> string" where
  "moduleParamsJson getParams = json_obj (map (\<lambda>(k, v). (k, quoted v)) (getParams 32))"

text \<open>The choices of an enumeration, without the empty ones.\<close>

function option_list :: "string \<Rightarrow> string list" where
  "option_list p =
     (if p = [] then []
      else (case find_char CHR '','' p of None \<Rightarrow> [p]
            | Some (one, rest) \<Rightarrow> (if one = [] then [] else [one]) @ option_list rest))"
  by pat_completeness auto
termination by (relation "measure length") (auto dest: find_char_length)

declare option_list.simps [simp del]

definition param_spec_json :: "param_spec \<Rightarrow> string" where
  "param_spec_json p = json_obj
     ([(''key'', quoted (ps_key p)), (''label'', quoted (ps_label p)), (''type'', quoted (ps_type p)),
       (''min'', dblToStr (Fin (of_int (ps_min p)))), (''max'', dblToStr (Fin (of_int (ps_max p))))] @
      (if ps_options p = [] then [] else [(''options'', json_arr (map quoted (option_list (ps_options p))))]))"

definition paramSpecsJson :: "param_spec list \<Rightarrow> string" where
  "paramSpecsJson ps = json_arr (map param_spec_json ps)"

subsection \<open>Reading requests\<close>

text \<open>The columns of the table side by side: short name, display name, parameters, flag, \<^verbatim>\<open>getParams\<close>, counter.\<close>

definition module_columns :: "'a mods_scheme \<Rightarrow> (string \<times> string \<times> param_spec list \<times> bool \<times> (int \<Rightarrow> param_kv list) \<times> u64) list" where
  "module_columns s = map (\<lambda>((n, d, ps, setter :: 'a setter), (_, en, get), (_, aff)). (n, d, ps, en, get, aff))
     (zip module_infos (zip (module_rows s) (affected_counts s)))"

definition apiModulesJson :: "'k app \<Rightarrow> string" where
  "apiModulesJson s = json_obj [status_ok, (''modules'', json_arr (map (\<lambda>(n, d, ps, en, get, aff).
     json_obj [(''shortName'', quoted n), (''displayName'', quoted d), (''enabled'', bool_json en), (''affected'', numToStr aff),
       (''params'', moduleParamsJson get), (''paramSpecs'', paramSpecsJson ps)]) (module_columns s)))]"

text \<open>\<open>"name":{"enabled":..,"affected":..}\<close> of each module, in \<^verbatim>\<open>apiStatsJson\<close> and in \<^verbatim>\<open>get_stats\<close>.\<close>

definition module_counts_json :: "'k app \<Rightarrow> string" where
  "module_counts_json s = json_obj (map (\<lambda>(n, d, ps, en, get, aff).
     (n, json_obj [(''enabled'', bool_json en), (''affected'', numToStr aff)])) (module_columns s))"

definition bandwidthGetLimitKBps :: "bandwidth_state \<Rightarrow> int" where
  "bandwidthGetLimitKBps m = bandwidthLimit m"

definition apiStatsJson :: "'k world \<Rightarrow> 'k app \<Rightarrow> string" where
  "apiStatsJson w s = (let h = hist (denv s) in json_obj
     [status_ok, (''capturing'', bool_json (appIsCapturing s)),
      (''elapsedMs'', show_nat (unat (appCaptureElapsedMs (w_tick w) s))),
      (''captured'', numToStr (statsCapturedTotal s)), (''sent'', numToStr (statsSentTotal s)),
      (''buffers'', json_obj [(''lag'', show_nat (lagGetBufSize (m_lag s))), (''jitter'', show_nat (jitterGetBufSize (m_jitter s))),
         (''bandwidth'', show_nat (bandwidthGetBufSize (m_bandwidth s))),
         (''bandwidthLimitKBps'', show_int (bandwidthGetLimitKBps (m_bandwidth s)))]),
      (''pcap'', json_obj [(''active'', bool_json (pcapExportIsActive (pexport s))),
         (''packets'', show_int (pcapExportCount (pexport s))), (''bytes'', show_int (pcapExportBytes (pexport s)))]),
      (''scenario'', json_obj [(''loaded'', bool_json (scenarioIsLoaded (scen s))), (''active'', bool_json (scenarioIsActive (scen s))),
         (''steps'', show_nat (scenarioStepCount (scen s)))]),
      (''replay'', json_obj [(''active'', bool_json (pcapReplayIsActive (preplay s))), (''read'', show_nat (pcapReplayRead (preplay s))),
         (''sent'', show_nat (pcapReplaySent (preplay s))), (''failed'', show_nat (pcapReplayFailed (preplay s)))]),
      (''latency'', json_obj [(''count'', show_nat (latencyCount h)), (''min'', show_nat (latencyMin h)), (''max'', show_nat (latencyMax h)),
         (''mean'', dblToStr (Fin (latencyMean h))), (''p50'', dblToStr (Fin (latencyPercentile 50 h))),
         (''p95'', dblToStr (Fin (latencyPercentile 95 h))), (''p99'', dblToStr (Fin (latencyPercentile 99 h)))]),
      (''corrupt'', json_obj [(''bitsFlipped'', numToStr (corruptGetBitsFlipped (m_corrupt s)))]),
      (''modules'', module_counts_json s)])"

definition CLUMSY_VERSION :: string where "CLUMSY_VERSION = ''0.4''"

definition apiStatusJson :: "'k world \<Rightarrow> 'k app \<Rightarrow> string" where
  "apiStatusJson w s = json_obj
     [status_ok, (''version'', quoted CLUMSY_VERSION), (''capturing'', bool_json (appIsCapturing s)), (''admin'', bool_json (w_admin w)),
      (''filter'', quoted (appCurrentFilter s)), (''process'', quoted (appCurrentProcess s)), (''message'', quoted (appStatusLine s))]"

definition apiProfilesJson :: "'k app \<Rightarrow> string" where
  "apiProfilesJson s = json_obj [status_ok, (''profiles'', json_arr (map quoted (profileNamesSnapshot MAX_PROFILES (profs s))))]"

definition apiPresetsJson :: "'k app \<Rightarrow> string" where
  "apiPresetsJson s = json_obj [status_ok, (''presets'', json_arr (map (\<lambda>i.
     json_obj [(''name'', quoted (appPresetName (int i) (presets s))), (''filter'', quoted (appPresetFilter (int i) (presets s)))])
     [0..<appPresetCount (presets s)]))]"

definition apiHealthJson :: "'k app \<Rightarrow> string" where
  "apiHealthJson s = json_obj [status_ok, (''version'', quoted CLUMSY_VERSION), (''capturing'', bool_json (appIsCapturing s))]"

text \<open>
  The table behind the constant text of \<^verbatim>\<open>apiDocsJson\<close>: method, path, whether \<open>"auth":false\<close> is there, body and description.
  A grave accent stands for a quotation mark.
\<close>

definition docs_table :: "(string \<times> string \<times> bool \<times> string option \<times> string option) list" where
  "docs_table =
     [(''GET'', ''/api/health'', True, None, Some ''liveness probe''),
      (''GET'', ''/api/status'', False, None, Some ''capture state, filter, last message''),
      (''GET'', ''/api/modules'', False, None, Some ''all modules with values and ParamSpec form metadata''),
      (''GET'', ''/api/stats'', False, None, Some ''live counters''),
      (''GET'', ''/api/stream'', False, None, Some ''Server-Sent Events, one stats frame every 200ms''),
      (''GET'', ''/api/profiles'', False, None, Some ''profile names from profiles.json''),
      (''GET'', ''/api/presets'', False, None, Some ''filter presets from config.json''),
      (''GET'', ''/api/report'', False, None, Some ''HTML session report download''),
      (''GET'', ''/api/docs'', False, None, Some ''this document''),
      (''POST'', ''/api/modules/{shortName}'', False, Some ''{`enabled`:true,`lag-time`:100}'', None),
      (''POST'', ''/api/filter'', False, Some ''{`filter`:`udp and outbound`,`process`:`game.exe`}'', None),
      (''POST'', ''/api/stop'', False, None, Some ''stop capture''),
      (''POST'', ''/api/quit'', False, None, Some ''shut clumsy down''),
      (''POST'', ''/api/profiles'', False, Some ''{`name`:`mobile-4g`}'', Some ''save current state as a profile''),
      (''POST'', ''/api/profiles/{name}/apply'', False, None, Some ''apply a profile''),
      (''POST'', ''/api/presets'', False, Some ''{`name`:`my filter`,`filter`:`udp`}'', None),
      (''POST'', ''/api/scenario/load'', False, Some ''{`path`:`scenario.json`}'', None),
      (''POST'', ''/api/scenario/start'', False, None, Some ''restart scenario playback''),
      (''POST'', ''/api/scenario/stop'', False, None, Some ''halt scenario playback''),
      (''POST'', ''/api/pcap/start'', False, Some ''{`path`:`out.pcap`,`maxPackets`:0,`maxBytes`:0}'', None),
      (''POST'', ''/api/pcap/stop'', False, None, Some ''close the pcap file''),
      (''GET'', ''/metrics'', True, None, Some ''Prometheus text exposition''),
      (''POST'', ''/api/apply'', False, Some ''{`lag`:true,`lag-time`:200}'', Some ''set several modules at once without saving a profile''),
      (''POST'', ''/api/profiles/{name}/delete'', False, None, Some ''remove a profile from profiles.json''),
      (''POST'', ''/api/scenario/loadinline'', False, Some ''{`scenario`:`[{...}]`}'', Some ''load a scenario from the request body''),
      (''POST'', ''/api/replay/start'', False, Some ''{`path`:`in.pcap`,`speed`:1.0,`loop`:false}'', None),
      (''POST'', ''/api/replay/stop'', False, None, Some ''halt pcap replay'')]"

definition docs_text :: "string \<Rightarrow> string" where
  "docs_text t = quoted (map (\<lambda>c. if c = CHR 0x60 then CHR 0x22 else c) t)"

definition docs_entry :: "string \<times> string \<times> bool \<times> string option \<times> string option \<Rightarrow> string" where
  "docs_entry e = (case e of (mth, pth, no_auth, bdy, desc) \<Rightarrow> json_obj
     ([(''method'', quoted mth), (''path'', quoted pth)] @ (if no_auth then [(''auth'', bool_json False)] else []) @
      (case bdy of None \<Rightarrow> [] | Some b \<Rightarrow> [(''body'', docs_text b)]) @
      (case desc of None \<Rightarrow> [] | Some d \<Rightarrow> [(''desc'', docs_text d)])))"

definition apiDocsJson :: string where
  "apiDocsJson = json_obj [status_ok, (''endpoints'', json_arr (map docs_entry docs_table))]"

subsection \<open>Metrics\<close>

abbreviation nl :: string where "nl \<equiv> [CHR 0x0A]"

definition metric :: "string \<Rightarrow> string \<Rightarrow> string \<Rightarrow> string \<Rightarrow> string" where
  "metric name help kind val =
     ''# HELP clumsy_'' @ name @ '' '' @ help @ nl @ ''# TYPE clumsy_'' @ name @ '' '' @ kind @ nl @ ''clumsy_'' @ name @ '' '' @ val @ nl"

definition boolStr :: "bool \<Rightarrow> string" where
  "boolStr b = (if b then ''1'' else ''0'')"

text \<open>The cumulative buckets: the counts so far and the indices still to come.\<close>

fun bucket_lines :: "latency \<Rightarrow> nat \<Rightarrow> nat list \<Rightarrow> string" where
  "bucket_lines h cumulative [] = []"
| "bucket_lines h cumulative (i # is) =
     (let cumulative = cumulative + latencyBucketCount (int i) h; upper = latencyBucketUpper (int i)
      in ''clumsy_latency_ms_bucket{le='' @ qq @ (if upper \<noteq> 0 then show_nat upper else ''+Inf'') @ qq @ ''} '' @ show_nat cumulative @ nl @
         bucket_lines h cumulative is)"

definition apiMetricsText :: "'k world \<Rightarrow> 'k app \<Rightarrow> string" where
  "apiMetricsText w s = (let h = hist (denv s) in concat
     ([metric ''up'' ''always 1; the scrape succeeded'' ''gauge'' ''1'',
       metric ''capturing'' ''1 while a capture is running'' ''gauge'' (boolStr (appIsCapturing s)),
       metric ''captured_packets_total'' ''packets taken off the wire'' ''counter'' (numToStr (statsCapturedTotal s)),
       metric ''sent_packets_total'' ''packets handed back to the stack'' ''counter'' (numToStr (statsSentTotal s)),
       metric ''capture_elapsed_seconds'' ''seconds since the capture started'' ''gauge''
         (dblToStr (double_of (of_nat (unat (appCaptureElapsedMs (w_tick w) s)) / 1000))),
       metric ''lag_buffer_packets'' ''packets held by the lag module'' ''gauge'' (show_nat (lagGetBufSize (m_lag s))),
       metric ''jitter_buffer_packets'' ''packets held by the jitter module'' ''gauge'' (show_nat (jitterGetBufSize (m_jitter s))),
       metric ''bandwidth_buffer_packets'' ''packets held by the bandwidth module'' ''gauge'' (show_nat (bandwidthGetBufSize (m_bandwidth s))),
       metric ''pcap_written_packets_total'' ''packets written to the pcap file'' ''counter'' (show_int (pcapExportCount (pexport s))),
       metric ''pcap_written_bytes_total'' ''bytes written to the pcap file'' ''counter'' (show_int (pcapExportBytes (pexport s))),
       metric ''replay_active'' ''1 while a pcap replay is running'' ''gauge'' (boolStr (pcapReplayIsActive (preplay s))),
       metric ''replay_injected_packets_total'' ''packets re-injected from a pcap file'' ''counter'' (show_nat (pcapReplaySent (preplay s))),
       metric ''replay_failed_packets_total'' ''replay packets that could not be injected'' ''counter'' (show_nat (pcapReplayFailed (preplay s))),
       metric ''corrupt_flipped_bits_total'' ''bits the corrupt module flipped'' ''counter'' (numToStr (corruptGetBitsFlipped (m_corrupt s))),
       ''# HELP clumsy_module_enabled 1 while a module is switched on'' @ nl,
       ''# TYPE clumsy_module_enabled gauge'' @ nl] @
      map (\<lambda>(n, d, ps, en, get, aff). ''clumsy_module_enabled{module='' @ qq @ n @ qq @ ''} '' @ boolStr en @ nl) (module_columns s) @
      [''# HELP clumsy_module_affected_packets_total packets a module acted on'' @ nl,
       ''# TYPE clumsy_module_affected_packets_total counter'' @ nl] @
      map (\<lambda>(n, d, ps, en, get, aff). ''clumsy_module_affected_packets_total{module='' @ qq @ n @ qq @ ''} '' @ numToStr aff @ nl) (module_columns s) @
      [''# HELP clumsy_latency_ms observed packet delay from lag and jitter'' @ nl,
       ''# TYPE clumsy_latency_ms histogram'' @ nl,
       bucket_lines h 0 [0..<13],
       ''clumsy_latency_ms_sum '' @ dblToStr (Fin (latencySumMs h)) @ nl,
       ''clumsy_latency_ms_count '' @ show_nat (latencyCount h) @ nl]))"

subsection \<open>Handlers\<close>

type_synonym 'k outcome = "((nat \<times> string) \<times> 'k app) option"

definition answer :: "nat \<Rightarrow> string \<Rightarrow> 'k app \<Rightarrow> 'k outcome" where
  "answer st reply s = Some ((st, reply), s)"

text \<open>The loops over the members of a request: how many were applied, and the keys that were not, with commas.\<close>

definition add_unknown :: "string \<Rightarrow> string \<Rightarrow> string" where
  "add_unknown unknown key = (if unknown = [] then key else unknown @ '','' @ key)"

definition apply_member :: "'a setter \<Rightarrow> string \<Rightarrow> json \<Rightarrow> nat \<times> string \<Rightarrow> 'a mods_scheme \<Rightarrow> ((nat \<times> string) \<times> 'a mods_scheme) option" where
  "apply_member f key v acc s =
     map_option (\<lambda>(ok, s). ((if ok then (fst acc + 1, snd acc) else (fst acc, add_unknown (snd acc) key)), s))
       (f (c_string key) (c_string (asString v)) s)"

fun apply_members :: "'a setter \<Rightarrow> string list \<Rightarrow> (string \<times> json) list \<Rightarrow> nat \<times> string \<Rightarrow> 'a mods_scheme \<Rightarrow>
    ((nat \<times> string) \<times> 'a mods_scheme) option" where
  "apply_members f skip [] acc s = Some (acc, s)"
| "apply_members f skip ((key, v) # kvs) acc s =
     (if key \<in> set skip then apply_members f skip kvs acc s
      else Option.bind (apply_member f key v acc s) (\<lambda>(acc, s). apply_members f skip kvs acc s))"

definition applyModuleObject :: "json \<Rightarrow> 'a setter \<Rightarrow> 'a mods_scheme \<Rightarrow> ((nat \<times> string) \<times> 'a mods_scheme) option" where
  "applyModuleObject req f s =
     (case req of JObject kvs \<Rightarrow> apply_members f [''cmd'', ''module'', ''enabled''] kvs (0, []) s | _ \<Rightarrow> Some ((0, []), s))"

definition write_enabled :: "string \<Rightarrow> json \<Rightarrow> 'a mods_scheme \<Rightarrow> 'a mods_scheme" where
  "write_enabled name req s =
     (case json_find req ''enabled'' of None \<Rightarrow> s
      | Some en \<Rightarrow> (case set_enabled name (asBool en) s of None \<Rightarrow> s | Some s \<Rightarrow> s))"

definition module_enabled :: "string \<Rightarrow> 'a mods_scheme \<Rightarrow> bool" where
  "module_enabled name s = (case map_of (module_rows s) name of Some (en, get) \<Rightarrow> en | None \<Rightarrow> False)"

definition unknown_json :: "string \<Rightarrow> (string \<times> string) list" where
  "unknown_json unknown = (if unknown = [] then [] else [(''unknownKeys'', quoted unknown)])"

text \<open>An empty body stands for a request without members.\<close>

definition optional_body :: "string \<Rightarrow> json option" where
  "optional_body bdy = (if bdy = [] then Some JNull else jsonParse bdy)"

definition object_body :: "string \<Rightarrow> json option" where
  "object_body bdy = (case jsonParse bdy of Some v \<Rightarrow> if isObject v then Some v else None | None \<Rightarrow> None)"

definition MALFORMED_BODY :: string where "MALFORMED_BODY = ''malformed JSON body''"

definition apiSetModule :: "string \<Rightarrow> string \<Rightarrow> 'k app \<Rightarrow> 'k outcome" where
  "apiSetModule shortName bdy s =
     (case findModule shortName of None \<Rightarrow> answer 404 (errJson (''unknown module: '' @ shortName)) s
      | Some (n, d, ps, f) \<Rightarrow>
         (case optional_body bdy of None \<Rightarrow> answer 400 (errJson MALFORMED_BODY) s
          | Some req \<Rightarrow>
             (case applyModuleObject req f (write_enabled shortName req s) of None \<Rightarrow> None
              | Some ((applied, unknown), s) \<Rightarrow> answer 200
                  (okJson ([(''module'', quoted shortName), (''applied'', show_nat applied),
                            (''enabled'', bool_json (module_enabled shortName s))] @ unknown_json unknown)) s)))"

text \<open>A running capture is stopped before the new filter is tried.\<close>

definition restart :: "'k world \<Rightarrow> string \<Rightarrow> string \<Rightarrow> 'k app \<Rightarrow> (string option \<times> 'k app) option" where
  "restart w filt proc s =
     Option.bind (if appIsCapturing s then appStopCapture w s else Some s) (appStartCapture w (c_string filt) (c_string proc))"

definition start_error_text :: "string \<Rightarrow> string" where
  "start_error_text e = (if e = [] then ''failed to start capture'' else e)"

definition apiSetFilter :: "'k world \<Rightarrow> string \<Rightarrow> 'k app \<Rightarrow> 'k outcome" where
  "apiSetFilter w bdy s =
     (case object_body bdy of None \<Rightarrow> answer 400 (errJson MALFORMED_BODY) s
      | Some req \<Rightarrow>
         let filt = json_str req ''filter'' []; proc = json_str req ''process'' [] in
         if filt = [] then answer 400 (errJson ''missing 'filter' field'') s
         else (case restart w filt proc s of None \<Rightarrow> None
               | Some (Some e, s) \<Rightarrow> answer 400 (errJson (start_error_text e)) s
               | Some (None, s) \<Rightarrow> answer 200 (okJson [(''filter'', quoted filt), (''process'', quoted proc)]) s))"

definition apiStopCapture :: "'k world \<Rightarrow> 'k app \<Rightarrow> 'k outcome" where
  "apiStopCapture w s =
     (if \<not> appIsCapturing s then answer 200 (okJson [(''message'', quoted ''not capturing'')]) s
      else Option.bind (appStopCapture w s) (answer 200 (okJson [(''message'', quoted ''stopped'')])))"

definition apiQuit :: "'k app \<Rightarrow> 'k outcome" where
  "apiQuit s = answer 200 (okJson [(''message'', quoted ''quitting'')]) (appRequestQuit s)"

definition apiApplyProfile :: "string \<Rightarrow> 'k app \<Rightarrow> 'k outcome" where
  "apiApplyProfile name s =
     (case profileApply (c_string name) (profs s) s of None \<Rightarrow> None
      | Some (ok, s) \<Rightarrow>
         if ok then answer 200 (okJson [(''profile'', quoted name)]) s
         else answer 404 (errJson (''profile not found: '' @ name)) s)"

definition apiSaveProfile :: "'k world \<Rightarrow> string \<Rightarrow> 'k app \<Rightarrow> 'k outcome" where
  "apiSaveProfile w bdy s =
     (case object_body bdy of None \<Rightarrow> answer 400 (errJson MALFORMED_BODY) s
      | Some req \<Rightarrow>
         let name = json_str req ''name'' [] in
         if name = [] then answer 400 (errJson ''missing 'name' field'') s
         else (case profileSaveCurrent (w_can_write w) (c_string name) s (profs s) of (ok, st) \<Rightarrow>
           let s = s\<lparr>profs := st\<rparr> in
           if ok then answer 200 (okJson [(''profile'', quoted name)]) s
           else answer 500 (errJson ''failed to save profile (limit reached?)'') s))"

definition apiSavePreset :: "'k world \<Rightarrow> string \<Rightarrow> 'k app \<Rightarrow> 'k outcome" where
  "apiSavePreset w bdy s =
     (case object_body bdy of None \<Rightarrow> answer 400 (errJson MALFORMED_BODY) s
      | Some req \<Rightarrow>
         let name = json_str req ''name'' []; filt = json_str req ''filter'' [] in
         if name = [] \<or> filt = [] then answer 400 (errJson ''both 'name' and 'filter' are required'') s
         else (case appPresetSave (w_can_write w) (c_string name) (c_string filt) (presets s) of (ok, st) \<Rightarrow>
           let s = s\<lparr>presets := st\<rparr> in
           if ok then answer 200 (okJson [(''preset'', quoted name)]) s
           else answer 500 (errJson ''failed to write config.json'') s))"

definition steps_reply :: "'k app \<Rightarrow> 'k outcome" where
  "steps_reply s = answer 200 (okJson [(''steps'', show_nat (scenarioStepCount (scen s)))]) s"

definition apiScenarioLoad :: "'k world \<Rightarrow> string \<Rightarrow> 'k app \<Rightarrow> 'k outcome" where
  "apiScenarioLoad w bdy s =
     (case object_body bdy of None \<Rightarrow> answer 400 (errJson MALFORMED_BODY) s
      | Some req \<Rightarrow>
         let file_path = json_str req ''path'' [] in
         if file_path = [] then answer 400 (errJson ''missing 'path' field'') s
         else
           let s = s\<lparr>scen := scenarioLoad (w_memory w) (w_file w (c_string file_path)) (scen s)\<rparr> in
           if \<not> scenarioIsLoaded (scen s) then answer 400 (errJson (''failed to load scenario: '' @ file_path)) s
           else steps_reply s)"

definition apiScenarioStart :: "'k app \<Rightarrow> 'k outcome" where
  "apiScenarioStart s =
     (if \<not> scenarioIsLoaded (scen s) then answer 400 (errJson ''no scenario loaded'') s
      else (case scenarioStart (scen s) s of (sc, s) \<Rightarrow> steps_reply (s\<lparr>scen := sc\<rparr>)))"

definition apiScenarioStop :: "'k app \<Rightarrow> 'k outcome" where
  "apiScenarioStop s = answer 200 (okJson []) (s\<lparr>scen := scenarioStop (scen s)\<rparr>)"

text \<open>\<^verbatim>\<open>(long)\<close> of a double; a value that does not fit is undefined behaviour.\<close>

definition double_to_long :: "double \<Rightarrow> int option" where
  "double_to_long d =
     (case d of Fin x \<Rightarrow> if - 9223372036854775808 \<le> trunc_rat x \<and> trunc_rat x \<le> 9223372036854775807 then Some (trunc_rat x) else None
      | _ \<Rightarrow> None)"

definition long_member :: "json \<Rightarrow> string \<Rightarrow> int option" where
  "long_member req key = (case json_find req key of None \<Rightarrow> Some 0 | Some v \<Rightarrow> double_to_long (asNumber v))"

definition apiPcapStart :: "'k world \<Rightarrow> string \<Rightarrow> 'k app \<Rightarrow> 'k outcome" where
  "apiPcapStart w bdy s =
     (case optional_body bdy of None \<Rightarrow> answer 400 (errJson MALFORMED_BODY) s
      | Some req \<Rightarrow>
         let file_path = json_str req ''path'' ''clumsy.pcap'' in
         (case long_member req ''maxPackets'' of None \<Rightarrow> None
          | Some maxPackets \<Rightarrow>
             (case long_member req ''maxBytes'' of None \<Rightarrow> None
              | Some maxBytes \<Rightarrow>
                 (case pcapExportStart (w_pcap_opens w) (argGet ''pcap-stage'' (argTable s)) (c_string file_path)
                         maxPackets maxBytes (pexport s) of (ok, st) \<Rightarrow>
                   let s = s\<lparr>pexport := st\<rparr> in
                   if ok then answer 200 (okJson [(''path'', quoted file_path)]) s
                   else answer 500 (errJson (''failed to open pcap file: '' @ file_path)) s))))"

definition apiPcapStop :: "'k app \<Rightarrow> 'k outcome" where
  "apiPcapStop s = answer 200 (okJson [(''packets'', show_int (pcapExportCount (pexport s)))]) (s\<lparr>pexport := pcapExportStop (pexport s)\<rparr>)"

definition apiDeleteProfile :: "'k world \<Rightarrow> string \<Rightarrow> 'k app \<Rightarrow> 'k outcome" where
  "apiDeleteProfile w name s =
     (case profileDelete (w_can_write w) (c_string name) (profs s) of (ok, st) \<Rightarrow>
        let s = s\<lparr>profs := st\<rparr> in
        if ok then answer 200 (okJson [(''deleted'', quoted name)]) s
        else answer 404 (errJson (''profile not found: '' @ name)) s)"

definition members :: "json \<Rightarrow> (string \<times> json) list" where
  "members req = (case req of JObject kvs \<Rightarrow> kvs | _ \<Rightarrow> [])"

definition apiApplyInline :: "string \<Rightarrow> 'k app \<Rightarrow> 'k outcome" where
  "apiApplyInline bdy s =
     (case object_body bdy of None \<Rightarrow> answer 400 (errJson MALFORMED_BODY) s
      | Some req \<Rightarrow>
         (case apply_members applyModuleKV [] (members req) (0, []) s of None \<Rightarrow> None
          | Some ((applied, unknown), s) \<Rightarrow> answer 200 (okJson ((''applied'', show_nat applied) # unknown_json unknown)) s))"

definition apiScenarioLoadInline :: "string \<Rightarrow> 'k app \<Rightarrow> 'k outcome" where
  "apiScenarioLoadInline bdy s =
     (case object_body bdy of None \<Rightarrow> answer 400 (errJson MALFORMED_BODY) s
      | Some req \<Rightarrow>
         let doc = json_str req ''scenario'' [] in
         if doc = [] then answer 400 (errJson ''missing 'scenario' field (a JSON array as a string)'') s
         else
           let s = s\<lparr>scen := scenarioLoadString (Some (c_string doc)) (scen s)\<rparr> in
           if \<not> scenarioIsLoaded (scen s)
           then answer 400 (errJson ''no usable steps: every entry needs an 'at' or a 'when' trigger'') s
           else steps_reply s)"

text \<open>The message \<^verbatim>\<open>pcapReplayStart\<close> leaves in a buffer of \<^verbatim>\<open>MSG_BUFSIZE\<close> bytes.\<close>

definition hex8 :: "u32 \<Rightarrow> string" where
  "hex8 v = map (\<lambda>i. hex_char ((unat v div 16 ^ i) mod 16)) [7, 6, 5, 4, 3, 2, 1, 0]"

fun open_message :: "string \<Rightarrow> open_error \<Rightarrow> string" where
  "open_message p CANNOT_OPEN = ''cannot open '' @ p @ '' for reading''"
| "open_message p TOO_SHORT = p @ '' is too short to be a pcap file''"
| "open_message p (NOT_PCAP magic) = p @ '' is not a classic libpcap file (magic 0x'' @ hex8 magic @
     ''). pcapng is not supported; save as 'Wireshark/tcpdump/... - pcap'.''"
| "open_message p (LINK_TYPE t) = p @ '' has link type '' @ show_nat (unat t) @
     ''; only RAW (101), Ethernet (1), IPv4 (228) and IPv6 (229) can be replayed.''"

fun replay_message :: "string \<Rightarrow> replay_error \<Rightarrow> string" where
  "replay_message p NO_FILE = ''no replay file given''"
| "replay_message p ALREADY_RUNNING = ''a replay is already running''"
| "replay_message p (BAD_FILE e) = take (MSG_BUFSIZE - 1) (open_message ([CHR 0x27] @ p @ [CHR 0x27]) e)"
| "replay_message p NO_THREAD = ''failed to create the replay thread''"

definition replay_error_text :: "string \<Rightarrow> string" where
  "replay_error_text e = (if e = [] then ''failed to start replay'' else e)"

definition apiReplayStart :: "'k world \<Rightarrow> string \<Rightarrow> 'k app \<Rightarrow> 'k outcome" where
  "apiReplayStart w bdy s =
     (case optional_body bdy of None \<Rightarrow> answer 400 (errJson MALFORMED_BODY) s
      | Some req \<Rightarrow>
         let file_path = json_str req ''path'' [] in
         if file_path = [] then answer 400 (errJson ''missing 'path' field'') s
         else
           let speed = (case json_find req ''speed'' of None \<Rightarrow> Fin 1 | Some v \<Rightarrow> asNumber v);
               loop = (case json_find req ''loop'' of None \<Rightarrow> False | Some v \<Rightarrow> asBool v)
           in (case pcapReplayStart (disk (pexport s)) (w_thread w) (c_string file_path) speed loop (preplay s) of (err, r) \<Rightarrow>
                let s = s\<lparr>preplay := r\<rparr> in
                (case err of Some e \<Rightarrow> answer 400 (errJson (replay_error_text (replay_message (c_string file_path) e))) s
                 | None \<Rightarrow> answer 200 (okJson [(''path'', quoted file_path), (''speed'', dblToStr speed)]) s)))"

text \<open>The replay thread has ended by the time the packets are counted.\<close>

definition apiReplayStop :: "'k app \<Rightarrow> 'k outcome" where
  "apiReplayStop s =
     (let s = s\<lparr>preplay := pcapReplayStop (preplay s)\<rparr> in answer 200 (okJson [(''injected'', show_nat (pcapReplaySent (preplay s)))]) s)"

subsection \<open>The control socket\<close>

definition with_text :: "'k outcome \<Rightarrow> (string \<times> 'k app) option" where
  "with_text r = map_option (\<lambda>((st, t), s). (t, s)) r"

text \<open>The commands that only read, with their texts.\<close>

definition read_command :: "'k world \<Rightarrow> string \<Rightarrow> 'k app \<Rightarrow> string option" where
  "read_command w cmd s =
     (if cmd = ''get_stats'' then
        Some (json_obj [status_ok, (''modules'', module_counts_json s), (''captured'', numToStr (statsCapturedTotal s)),
          (''sent'', numToStr (statsSentTotal s))])
      else if cmd = ''get_modules'' then Some (apiModulesJson s)
      else if cmd = ''get_status'' then Some (apiStatusJson w s)
      else if cmd = ''get_presets'' then Some (apiPresetsJson s)
      else if cmd = ''get_profiles'' then Some (apiProfilesJson s)
      else if cmd = ''metrics'' then Some (okJson [(''metrics'', quoted (apiMetricsText w s))])
      else None)"

definition set_command :: "json \<Rightarrow> 'k app \<Rightarrow> (string \<times> 'k app) option" where
  "set_command req s =
     (let modName = json_str req ''module'' [] in
      if modName = [] then Some (errJson ''missing module field'', s)
      else (case findModule modName of None \<Rightarrow> Some (errJson (''unknown module: '' @ modName), s)
            | Some (n, d, ps, f) \<Rightarrow>
               map_option (\<lambda>(acc, s). (json_obj [status_ok, (''module'', quoted modName)], s))
                 (applyModuleObject req f (write_enabled modName req s))))"

definition filter_command :: "'k world \<Rightarrow> json \<Rightarrow> 'k app \<Rightarrow> (string \<times> 'k app) option" where
  "filter_command w req s =
     (let filt = json_str req ''filter'' []; proc = json_str req ''process'' [] in
      if filt = [] then Some (errJson ''missing filter field'', s)
      else map_option (\<lambda>(e, s). (case e of Some e \<Rightarrow> errJson (start_error_text e) | None \<Rightarrow> okJson [(''filter'', quoted filt)], s))
             (restart w filt proc s))"

definition named :: "json \<Rightarrow> (string \<Rightarrow> 'k app \<Rightarrow> 'k outcome) \<Rightarrow> 'k app \<Rightarrow> (string \<times> 'k app) option" where
  "named req f s =
     (let name = json_str req ''name'' [] in
      if name = [] then Some (errJson ''missing name field'', s) else with_text (f name s))"

definition write_command :: "'k world \<Rightarrow> string \<Rightarrow> json \<Rightarrow> string \<Rightarrow> 'k app \<Rightarrow> (string \<times> 'k app) option" where
  "write_command w request req cmd s =
     (let action = json_str req ''action'' ''start'' in
      if cmd = ''set'' then set_command req s
      else if cmd = ''stop'' then Some (json_obj [status_ok, (''message'', quoted ''stopping'')], s\<lparr>pipeStopRequested := True\<rparr>)
      else if cmd = ''filter'' \<or> cmd = ''start'' then filter_command w req s
      else if cmd = ''stop_capture'' then with_text (apiStopCapture w s)
      else if cmd = ''quit'' then with_text (apiQuit s)
      else if cmd = ''profile'' then named req apiApplyProfile s
      else if cmd = ''scenario'' then
        with_text (if action = ''load'' then apiScenarioLoad w request s
                      else if action = ''stop'' then apiScenarioStop s else apiScenarioStart s)
      else if cmd = ''pcap'' then with_text (if action = ''stop'' then apiPcapStop s else apiPcapStart w request s)
      else if cmd = ''replay'' then with_text (if action = ''stop'' then apiReplayStop s else apiReplayStart w request s)
      else if cmd = ''apply'' then with_text (apiApplyInline request s)
      else if cmd = ''delete_profile'' then named req (apiDeleteProfile w) s
      else Some (errJson (''unknown cmd: '' @ cmd), s))"

definition controlDispatchJson :: "'k world \<Rightarrow> string \<Rightarrow> 'k app \<Rightarrow> (string \<times> 'k app) option" where
  "controlDispatchJson w request s =
     (case object_body request of None \<Rightarrow> Some (errJson ''malformed JSON request'', s)
      | Some req \<Rightarrow>
         (case json_find req ''cmd'' of None \<Rightarrow> Some (errJson ''missing cmd field'', s)
          | Some cmdVal \<Rightarrow>
             (case read_command w (asString cmdVal) s of Some t \<Rightarrow> Some (t, s)
              | None \<Rightarrow> write_command w request req (asString cmdVal) s)))"

subsection \<open>The endpoints of the HTTP server\<close>

text \<open>
  What \<^verbatim>\<open>routeRequest\<close> sends for an endpoint; the report and the event stream are not modelled further. Most handlers are
  called in the argument list that also reads the status they set: \<open>late\<close> says that the compiler evaluates the call
  before the status.
\<close>

datatype served = Response response | Report | Stream

definition posted :: "bool \<Rightarrow> 'k outcome \<Rightarrow> (served \<times> 'k app) option" where
  "posted late r = map_option (\<lambda>((st, t), s). (Response (sendJson (if late then st else 200) t), s)) r"

definition got :: "string \<Rightarrow> 'k app \<Rightarrow> (served \<times> 'k app) option" where
  "got t s = Some (Response (sendJson 200 t), s)"

fun serve_endpoint :: "'k world \<Rightarrow> bool \<Rightarrow> endpoint \<Rightarrow> 'k app \<Rightarrow> (served \<times> 'k app) option" where
  "serve_endpoint w late GetHealth s = got (apiHealthJson s) s"
| "serve_endpoint w late GetMetrics s = Some (Response \<lparr>code_of = 200, content_type = ''text/plain; version=0.0.4; charset=utf-8'',
     body_of = apiMetricsText w s, extra_headers = []\<rparr>, s)"
| "serve_endpoint w late GetModules s = got (apiModulesJson s) s"
| "serve_endpoint w late GetStats s = got (apiStatsJson w s) s"
| "serve_endpoint w late GetStatus s = got (apiStatusJson w s) s"
| "serve_endpoint w late GetProfiles s = got (apiProfilesJson s) s"
| "serve_endpoint w late GetPresets s = got (apiPresetsJson s) s"
| "serve_endpoint w late GetDocs s = got apiDocsJson s"
| "serve_endpoint w late GetReport s = Some (Report, s)"
| "serve_endpoint w late GetStream s = Some (Stream, s)"
| "serve_endpoint w late (PostFilter b) s = posted late (apiSetFilter w b s)"
| "serve_endpoint w late PostStop s = posted late (apiStopCapture w s)"
| "serve_endpoint w late PostQuit s = posted late (apiQuit s)"
| "serve_endpoint w late (PostProfiles b) s = posted late (apiSaveProfile w b s)"
| "serve_endpoint w late (PostPresets b) s = posted late (apiSavePreset w b s)"
| "serve_endpoint w late (PostScenarioLoad b) s = posted late (apiScenarioLoad w b s)"
| "serve_endpoint w late PostScenarioStart s = posted late (apiScenarioStart s)"
| "serve_endpoint w late PostScenarioStop s = posted late (apiScenarioStop s)"
| "serve_endpoint w late (PostPcapStart b) s = posted late (apiPcapStart w b s)"
| "serve_endpoint w late PostPcapStop s = posted late (apiPcapStop s)"
| "serve_endpoint w late (PostApply b) s = posted late (apiApplyInline b s)"
| "serve_endpoint w late (PostScenarioLoadInline b) s = posted late (apiScenarioLoadInline b s)"
| "serve_endpoint w late (PostReplayStart b) s = posted late (apiReplayStart w b s)"
| "serve_endpoint w late PostReplayStop s = posted late (apiReplayStop s)"
| "serve_endpoint w late (PostProfileApply name) s = posted True (apiApplyProfile name s)"
| "serve_endpoint w late (PostProfileDelete name) s = posted True (apiDeleteProfile w name s)"
| "serve_endpoint w late (PostModule name b) s = posted True (apiSetModule name b s)"

subsection \<open>Every reply is a JSON object with a status\<close>

definition status_reply :: "string \<Rightarrow> bool" where
  "status_reply t \<longleftrightarrow> (\<exists>st ms. t = json_obj ((''status'', quoted st) # ms) \<and> st \<in> {''ok'', ''error''} \<and> (\<forall>(k, v)\<in>set ms. json_text v))"

lemma status_reply_text: "status_reply t \<Longrightarrow> json_text t"
  unfolding status_reply_def by (elim exE conjE) (simp add: t_object)

lemma status_ok_reply: "\<forall>(k, v)\<in>set ms. json_text v \<Longrightarrow> status_reply (json_obj (status_ok # ms))"
  unfolding status_reply_def status_ok_def by blast

lemma okJson_reply: "\<forall>(k, v)\<in>set ms. json_text v \<Longrightarrow> status_reply (okJson ms)"
  unfolding okJson_def by (rule status_ok_reply)

lemma errJson_reply [simp, intro]: "status_reply (errJson msg)"
  unfolding status_reply_def errJson_def by (intro exI [of _ "''error''"] exI [of _ "[(''message'', quoted msg)]"]) simp

lemma bool_text [simp, intro]: "json_text (bool_json b)"
  by (simp add: bool_json_def t_true t_false)

lemma numToStr_text [simp, intro]: "json_text (numToStr v)"
  by (simp add: numToStr_def)

lemma dblToStr_text [simp, intro]: "json_text (dblToStr (Fin x))"
  by (simp add: dblToStr_def show_plain_text)

lemma params_text [simp, intro]: "json_text (moduleParamsJson get)"
  unfolding moduleParamsJson_def by (rule t_object) auto

lemma spec_text: "json_text (param_spec_json p)"
  unfolding param_spec_json_def by (rule t_object) (auto intro!: t_array)

lemma specs_text [simp, intro]: "json_text (paramSpecsJson ps)"
  unfolding paramSpecsJson_def by (rule t_array) (auto simp: spec_text)

lemma module_counts_text [simp, intro]: "json_text (module_counts_json s)"
  unfolding module_counts_json_def by (rule t_object) (auto intro!: t_object)

lemma modules_reply: "status_reply (apiModulesJson s)"
  unfolding apiModulesJson_def by (rule status_ok_reply) (auto intro!: t_array t_object)

lemma stats_reply: "status_reply (apiStatsJson w s)"
  unfolding apiStatsJson_def Let_def by (rule status_ok_reply) (auto intro!: t_object)

lemma status_json_reply: "status_reply (apiStatusJson w s)"
  unfolding apiStatusJson_def by (rule status_ok_reply) auto

lemma profiles_reply: "status_reply (apiProfilesJson s)"
  unfolding apiProfilesJson_def by (rule status_ok_reply) (auto intro!: t_array)

lemma presets_reply: "status_reply (apiPresetsJson s)"
  unfolding apiPresetsJson_def by (rule status_ok_reply) (auto intro!: t_array t_object)

lemma health_reply: "status_reply (apiHealthJson s)"
  unfolding apiHealthJson_def by (rule status_ok_reply) auto

lemma docs_reply: "status_reply apiDocsJson"
  unfolding apiDocsJson_def
  by (rule status_ok_reply) (auto intro!: t_array t_object simp: docs_entry_def docs_text_def split: prod.splits option.splits)

lemma read_command_reply: "read_command w cmd s = Some t \<Longrightarrow> status_reply t"
  by (auto simp: read_command_def modules_reply status_json_reply profiles_reply presets_reply okJson_reply status_ok_reply
      split: if_splits)

lemma unknown_text: "\<forall>(k, v)\<in>set (unknown_json u). json_text v"
  by (simp add: unknown_json_def)

lemmas reply_simps = answer_def okJson_reply status_ok_reply unknown_text

text \<open>A handler that only gives such replies.\<close>

definition replies :: "'k outcome \<Rightarrow> bool" where
  "replies r \<longleftrightarrow> (\<forall>st t s. r = Some ((st, t), s) \<longrightarrow> status_reply t)"

lemma answer_replies [simp]: "replies (answer st t s) = status_reply t"
  by (simp add: replies_def answer_def)

lemma replies_None [simp]: "replies None"
  by (simp add: replies_def)

lemma handlers_reply:
  "replies (apiSetModule name b s)" "replies (apiSetFilter w b s)" "replies (apiStopCapture w s)" "replies (apiQuit s)"
  "replies (apiApplyProfile name s)" "replies (apiSaveProfile w b s)" "replies (apiSavePreset w b s)" "replies (apiScenarioLoad w b s)"
  "replies (apiScenarioStart s)" "replies (apiScenarioStop s)" "replies (apiPcapStart w b s)" "replies (apiPcapStop s)"
  "replies (apiDeleteProfile w name s)" "replies (apiApplyInline b s)" "replies (apiScenarioLoadInline b s)" "replies (apiReplayStop s)"
  by (auto simp: apiSetModule_def apiSetFilter_def apiStopCapture_def apiQuit_def apiApplyProfile_def apiSaveProfile_def
      apiSavePreset_def apiScenarioLoad_def apiScenarioStart_def apiScenarioStop_def apiPcapStart_def apiPcapStop_def
      apiDeleteProfile_def apiApplyInline_def apiScenarioLoadInline_def apiReplayStop_def steps_reply_def Let_def okJson_reply unknown_text
      split: option.splits prod.splits bind_splits)

text \<open>The echoed speed of a replay is the only number that can be infinite or not a number.\<close>

definition odd_speed :: "json \<Rightarrow> bool" where
  "odd_speed req \<longleftrightarrow> (\<exists>v. json_find req ''speed'' = Some v \<and> (\<forall>x. asNumber v \<noteq> Fin x))"

lemma replay_start_reply:
  "optional_body b = Some req \<Longrightarrow> \<not> odd_speed req \<Longrightarrow> replies (apiReplayStart w b s)"
  unfolding apiReplayStart_def odd_speed_def Let_def
  by (cases "json_find req ''speed''"; cases "asNumber (the (json_find req ''speed''))")
    (auto intro!: okJson_reply split: option.splits prod.splits)

definition texts :: "(string \<times> 'k app) option \<Rightarrow> bool" where
  "texts r \<longleftrightarrow> (\<forall>t s. r = Some (t, s) \<longrightarrow> status_reply t)"

lemma texts_Some [simp]: "texts (Some (t, s)) = status_reply t"
  by (simp add: texts_def)

lemma with_text_texts [simp]: "replies r \<Longrightarrow> texts (with_text r)"
  by (auto simp: texts_def with_text_def replies_def)

lemma set_command_texts [simp]: "texts (set_command req s)"
  by (auto simp: set_command_def Let_def texts_def status_ok_reply split: if_splits option.splits)

lemma filter_command_texts [simp]: "texts (filter_command w req s)"
  by (auto simp: filter_command_def Let_def texts_def okJson_reply split: if_splits option.splits)

lemma named_texts [simp]: "(\<And>name. replies (f name s)) \<Longrightarrow> texts (named req f s)"
  by (simp add: named_def Let_def)

lemma replay_command_reply:
  assumes "object_body request = Some req" "\<not> odd_speed req"
  shows "replies (apiReplayStart w request s)"
proof -
  have "optional_body request = (if request = [] then Some JNull else Some req)"
    using assms(1) by (auto simp: optional_body_def object_body_def split: option.splits if_splits)
  moreover have "\<not> odd_speed JNull" by (simp add: odd_speed_def json_find_def)
  ultimately show ?thesis using assms(2) replay_start_reply [of request req w s] replay_start_reply [of request JNull w s] by (cases "request = []") simp_all
qed

lemma write_command_texts:
  assumes req: "object_body request = Some req"
    and speed: "\<not> (cmd = ''replay'' \<and> json_str req ''action'' ''start'' \<noteq> ''stop'' \<and> odd_speed req)"
  shows "texts (write_command w request req cmd s)"
proof -
  have "cmd = ''replay'' \<Longrightarrow> json_str req ''action'' ''start'' \<noteq> ''stop'' \<Longrightarrow> replies (apiReplayStart w request s)"
    using replay_command_reply [OF req] speed by simp
  then show ?thesis by (simp add: write_command_def Let_def status_ok_reply handlers_reply)
qed


subsection \<open>What a request can do to the capture\<close>

text \<open>Settings, stores and files may change; the capture goes on as it was.\<close>

definition tuned :: "'k app \<Rightarrow> 'k app \<Rightarrow> bool" where
  "tuned s s' \<longleftrightarrow> helds s' = helds s \<and> started_flags s' = started_flags s \<and> (mods_inv s \<longrightarrow> mods_inv s') \<and>
     (idle_empty s \<longrightarrow> idle_empty s') \<and> main_list s' = main_list s \<and> verdicts (denv s') = verdicts (denv s) \<and>
     nfqQueue (denv s') = nfqQueue (denv s) \<and> filterProg s' = filterProg s \<and> stopLooping s' = stopLooping s \<and>
     loopThread s' = loopThread s \<and> clockThread s' = clockThread s \<and> capturing s' = capturing s"

lemma tuned_refl [simp, intro]: "tuned s s"
  by (simp add: tuned_def)

lemma tuned_trans [trans]: "tuned s t \<Longrightarrow> tuned t u \<Longrightarrow> tuned s u"
  by (simp add: tuned_def)

lemma same_run_tuned: "same_run s s' \<Longrightarrow> tuned s s'"
proof -
  assume r: "same_run s s'"
  then have m: "mods.more s' = mods.more s" by (simp add: same_run_def)
  have "capturing s' = capturing s" using capturing_more [OF divert_more [OF m]] .
  then show ?thesis using r more_fields [OF m] more_denv [OF m] by (simp add: tuned_def same_run_def)
qed

lemma backend_same_tuned: "backend_same s s' \<Longrightarrow> capturing s' = capturing s \<Longrightarrow> tuned s s'"
  using truncate_columns [of s' s] by (simp add: tuned_def backend_same_def answered_def)

lemma app_fields_tuned [intro]:
  "tuned s (s\<lparr>scen := a\<rparr>)" "tuned s (s\<lparr>profs := b\<rparr>)" "tuned s (s\<lparr>presets := c\<rparr>)" "tuned s (s\<lparr>pexport := d\<rparr>)"
  "tuned s (s\<lparr>preplay := e\<rparr>)" "tuned s (s\<lparr>quitRequested := f\<rparr>)" "tuned s (s\<lparr>pipeStopRequested := f\<rparr>)" "tuned s (s\<lparr>statusLine := g\<rparr>)"
  by (rule backend_same_tuned; simp add: backend_same_def)+

lemma tuned_inv: "tuned s s' \<Longrightarrow> app_inv ids s \<Longrightarrow> app_inv ids s'"
proof -
  assume t: "tuned s s'" and i: "app_inv ids s"
  have h: "held_all s' = held_all s" using t by (simp add: tuned_def held_all_def)
  show ?thesis
  proof (cases "capturing s")
    case True
    then show ?thesis using t i h by (simp add: app_inv_def tuned_def capture_inv_def ledger_def answered_def)
  next
    case False
    then show ?thesis using t i h by (simp add: app_inv_def tuned_def backend_idle_def)
  qed
qed

lemma apply_members_same_run: "safe_setter f \<Longrightarrow> apply_members f skip kvs acc s = Some (acc', s') \<Longrightarrow> same_run s s'"
proof (induction kvs arbitrary: acc s)
  case (Cons kv kvs)
  obtain key v where kv: "kv = (key, v)" by (cases kv)
  show ?case
  proof (cases "key \<in> set skip")
    case True
    then show ?thesis using Cons by (simp add: kv)
  next
    case False
    then obtain acc1 s1 where a: "apply_member f key v acc s = Some (acc1, s1)" "apply_members f skip kvs acc1 s1 = Some (acc', s')"
      using Cons.prems(2) by (auto simp: kv split: Option.bind_splits)
    have "same_run s s1" using a(1) Cons.prems(1) by (auto simp: apply_member_def dest: safe_setterD)
    then show ?thesis using Cons.IH [OF Cons.prems(1) a(2)] by (rule same_run_trans)
  qed
qed simp

lemma write_enabled_same_run: "same_run s (write_enabled name req s)"
  by (auto simp: write_enabled_def split: option.split dest: set_enabled_same_run)

lemma set_module_tuned:
  assumes "findModule name = Some (n, d, ps, f)" "applyModuleObject req f (write_enabled name req s) = Some (acc, s')"
  shows "tuned s s'"
proof -
  have "same_run (write_enabled name req s) s'"
    using assms(2) apply_members_same_run [OF findModule_safe [OF assms(1)]]
    by (cases acc) (auto simp: applyModuleObject_def split: json.splits)
  then show ?thesis by (blast intro: same_run_tuned same_run_trans write_enabled_same_run)
qed

text \<open>A handler that leaves the capture going.\<close>

definition tunes :: "'k app \<Rightarrow> 'k outcome \<Rightarrow> bool" where
  "tunes s r \<longleftrightarrow> (\<forall>st t s'. r = Some ((st, t), s') \<longrightarrow> tuned s s')"

lemma answer_tunes [simp]: "tunes s (answer st t s') \<longleftrightarrow> tuned s s'"
  by (simp add: tunes_def answer_def)

lemma tunes_None [simp]: "tunes s None"
  by (simp add: tunes_def)

lemma steps_reply_tunes [simp]: "tunes s (steps_reply s') \<longleftrightarrow> tuned s s'"
  by (simp add: steps_reply_def)

lemma scenario_start_tuned: "scenarioStart (scen s) s = (sc, s') \<Longrightarrow> tuned s (s'\<lparr>scen := sc\<rparr>)"
proof (rule backend_same_tuned)
  assume r: "scenarioStart (scen s) s = (sc, s')"
  show "backend_same s (s'\<lparr>scen := sc\<rparr>)" using scenarioStart_backend [OF r, where x = sc and y = "statusLine s'"] by (simp add: backend_same_def)
  show "capturing (s'\<lparr>scen := sc\<rparr>) = capturing s" using r by (auto simp: scenarioStart_def split: if_splits prod.splits)
qed

lemma apply_all_tuned: "apply_all kvs s = Some s' \<Longrightarrow> tuned s s'"
  by (rule same_run_tuned) (rule apply_all_same_run)

lemma handlers_tune:
  "tunes s (apiSetModule name b s)" "tunes s (apiQuit s)"
  "tunes s (apiApplyProfile name s)" "tunes s (apiSaveProfile w b s)" "tunes s (apiSavePreset w b s)" "tunes s (apiScenarioLoad w b s)"
  "tunes s (apiScenarioStart s)" "tunes s (apiScenarioStop s)" "tunes s (apiPcapStart w b s)" "tunes s (apiPcapStop s)"
  "tunes s (apiDeleteProfile w name s)" "tunes s (apiApplyInline b s)" "tunes s (apiScenarioLoadInline b s)" "tunes s (apiReplayStop s)"
  "tunes s (apiReplayStart w b s)"
  by (auto simp: apiSetModule_def apiQuit_def apiApplyProfile_def apiSaveProfile_def appRequestQuit_def
      apiSavePreset_def apiScenarioLoad_def apiScenarioStart_def apiScenarioStop_def apiPcapStart_def apiPcapStop_def
      apiDeleteProfile_def apiApplyInline_def apiScenarioLoadInline_def apiReplayStop_def apiReplayStart_def profileApply_def Let_def
      split: option.splits prod.splits if_splits intro: set_module_tuned apply_all_tuned scenario_start_tuned
        same_run_tuned apply_members_same_run applyModuleKV_safe)

text \<open>
  The account of a capture across a request: either the capture goes on with the packets it has received, or it was stopped, every
  packet of it answered, and what follows starts from nothing.
\<close>

definition account :: "'k world \<Rightarrow> u32 list \<Rightarrow> 'k app \<Rightarrow> u32 list \<Rightarrow> 'k app \<Rightarrow> bool" where
  "account w ids s ids' s' \<longleftrightarrow> app_inv ids' s' \<and>
     (tuned s s' \<and> ids' = ids \<or>
      ids' = [] \<and> (capturing s \<longrightarrow> (\<exists>sm. appStopCapture w s = Some sm \<and> answered (denv sm) = mset ids \<and> main_list sm = [] \<and> backend_idle sm)))"

lemma tuned_account: "tuned s s' \<Longrightarrow> app_inv ids s \<Longrightarrow> account w ids s ids s'"
  by (simp add: account_def tuned_inv)

lemma idle_any: "app_inv ids s \<Longrightarrow> \<not> capturing s \<Longrightarrow> app_inv ids' s"
  by (simp add: app_inv_def)

text \<open>
  The exception: a stop that comes between two steps of the clock thread, when modules switched off since the last step still
  hold packets. Those packets, and no others, are left without a verdict.
\<close>

definition strands :: "'k world \<Rightarrow> u32 list \<Rightarrow> 'k app \<Rightarrow> 'k app \<Rightarrow> bool" where
  "strands w ids s s' \<longleftrightarrow> capturing s \<and> \<not> w_last_step w \<and> stranded s \<noteq> [] \<and>
     (\<exists>sm. appStopCapture w s = Some sm \<and> answered (denv sm) + owed_all (stranded s) = mset ids \<and> main_list sm = [] \<and> shut_down sm \<and>
        (s' = sm \<or> (\<exists>filt proc e. appStartCapture w filt proc sm = Some (e, s'))))"

lemma stop_account:
  assumes inv: "app_inv ids s" and s: "capturing s" and w: "w_joined w" and r: "appStopCapture w s = Some s'"
  shows "\<not> capturing s' \<and> (account w ids s [] s' \<or> strands w ids s s')"
proof -
  have i: "capture_inv ids s" "clockThread s" using inv s by (simp_all add: app_inv_def)
  show ?thesis
  proof (cases "w_last_step w")
    case True
    obtain t where "appStopCapture w s = Some t" "answered (denv t) = mset ids" "main_list t = []" "backend_idle t" "shut_down t"
      by (rule app_stopped [OF i s w True])
    then show ?thesis using r by (auto simp: account_def app_inv_def shut_down_def)
  next
    case False
    note b = app_stopped_between(2) [OF i(1) s w False r]
    then have off: "\<not> capturing s'" "\<not> clockThread s'" "\<not> nfqQueue (denv s')" by (simp_all add: shut_down_def)
    show ?thesis
    proof (cases "stranded s = []")
      case True
      then have "backend_idle s'" using b off by (simp add: backend_idle_def)
      then show ?thesis using True b off r by (simp add: account_def app_inv_def)
    next
      case held: False
      then show ?thesis using b off s False r by (auto simp: strands_def)
    qed
  qed
qed

lemma start_app_inv:
  assumes "app_inv ids s" "\<not> capturing s" "os_joined (w_start w)" "appStartCapture w filt proc s = Some (r, s')"
  shows "app_inv [] s'"
proof (cases r)
  case None
  have "fresh s' \<and> capturing s'" using app_started [OF _ _ _ assms(4) [unfolded None]] assms(1,2) by (simp add: app_inv_def backend_idle_def)
  then show ?thesis by (simp add: app_inv_def fresh_inv) (simp add: fresh_def)
next
  case (Some e)
  then show ?thesis using app_start_failed [OF assms(1,3) assms(4) [unfolded Some]] assms(2) idle_any by blast
qed

lemma restart_account:
  assumes inv: "app_inv ids s" and w: "w_joined w" "os_joined (w_start w)" and r: "restart w filt proc s = Some (e, s')"
  shows "account w ids s [] s' \<or> strands w ids s s'"
proof (cases "capturing s")
  case True
  obtain sm where sm: "appStopCapture w s = Some sm" "appStartCapture w (c_string filt) (c_string proc) sm = Some (e, s')"
    using r True by (auto simp: restart_def appIsCapturing_def split: Option.bind_splits)
  have "\<not> capturing sm" and c: "account w ids s [] sm \<or> strands w ids s sm" using stop_account [OF inv True w(1) sm(1)] by simp_all
  show ?thesis
  proof (cases "account w ids s [] sm")
    case a: True
    then have "app_inv [] sm" "\<not> tuned s sm" using True \<open>\<not> capturing sm\<close> by (simp_all add: account_def tuned_def)
    then show ?thesis using a start_app_inv [OF _ \<open>\<not> capturing sm\<close> w(2) sm(2)] by (simp add: account_def)
  next
    case False
    then show ?thesis using c sm by (auto simp: strands_def)
  qed
next
  case False
  then have "appStartCapture w (c_string filt) (c_string proc) s = Some (e, s')" using r by (simp add: restart_def appIsCapturing_def)
  then show ?thesis using start_app_inv [OF inv False w(2)] False by (simp add: account_def)
qed

text \<open>A request that keeps the account, whatever it answers.\<close>

definition accounts :: "'k world \<Rightarrow> u32 list \<Rightarrow> 'k app \<Rightarrow> 'k app option \<Rightarrow> bool" where
  "accounts w ids s r \<longleftrightarrow> (\<forall>s'. r = Some s' \<longrightarrow> (\<exists>ids'. account w ids s ids' s') \<or> strands w ids s s')"

lemma accounts_tuned [simp]: "app_inv ids s \<Longrightarrow> tuned s s' \<Longrightarrow> accounts w ids s (Some s')"
  by (auto simp: accounts_def intro: tuned_account)

lemma accounts_tunes: "app_inv ids s \<Longrightarrow> tunes s r \<Longrightarrow> accounts w ids s (map_option snd r)"
  by (cases r) (auto simp: accounts_def tunes_def intro!: exI [of _ ids] tuned_account)

lemma accounts_with_text: "accounts w ids s (map_option snd (with_text r)) = accounts w ids s (map_option snd r)"
  by (cases r) (auto simp: with_text_def split: prod.split)

lemma accounts_stop:
  "app_inv ids s \<Longrightarrow> w_joined w \<Longrightarrow> accounts w ids s (map_option snd (apiStopCapture w s))"
  by (auto simp: accounts_def apiStopCapture_def answer_def appIsCapturing_def split: Option.bind_splits if_splits
      intro: tuned_account dest: stop_account)

lemma forget_reply [simp]: "map_option snd (map_option (\<lambda>(e, s). (f e, s)) r) = map_option snd r"
  by (cases r) (simp_all split: prod.split)

lemma accounts_restart:
  assumes "app_inv ids s" "w_joined w" "os_joined (w_start w)"
  shows "accounts w ids s (map_option snd (apiSetFilter w b s))" "accounts w ids s (map_option snd (filter_command w req s))"
proof -
  have a: "accounts w ids s (map_option snd (restart w filt proc s))" for filt proc
    using restart_account [OF assms] by (fastforce simp: accounts_def)
  then show "accounts w ids s (map_option snd (filter_command w req s))"
    using assms(1) by (simp add: filter_command_def Let_def)
  show "accounts w ids s (map_option snd (apiSetFilter w b s))"
    using restart_account [OF assms] tuned_account [OF tuned_refl assms(1)]
    by (fastforce simp: accounts_def apiSetFilter_def answer_def Let_def split: option.splits if_splits)
qed

lemma set_command_tuned: "set_command req s = Some (t, s') \<Longrightarrow> tuned s s'"
  by (auto simp: set_command_def Let_def split: if_splits option.splits intro: set_module_tuned)

lemma accounts_named: "app_inv ids s \<Longrightarrow> (\<And>name. tunes s (f name s)) \<Longrightarrow> accounts w ids s (map_option snd (named req f s))"
  by (simp add: named_def Let_def accounts_with_text accounts_tunes)

lemma write_command_accounts:
  assumes "app_inv ids s" "w_joined w" "os_joined (w_start w)"
  shows "accounts w ids s (map_option snd (write_command w request req cmd s))"
proof -
  have "accounts w ids s (map_option snd (set_command req s))"
    using assms(1) set_command_tuned [of req s] by (auto simp: accounts_def intro: tuned_account)
  moreover have "tuned s (s\<lparr>pipeStopRequested := True\<rparr>)" by (rule app_fields_tuned)
  ultimately show ?thesis using assms
    by (simp add: write_command_def Let_def accounts_with_text accounts_tunes handlers_tune accounts_stop accounts_restart accounts_named)
qed

lemma accounts_posted: "accounts w ids s (map_option snd (posted late r)) = accounts w ids s (map_option snd r)"
  by (cases r) (auto simp: posted_def split: prod.split)


lemma sample_inv: "app_inv [] sample_app"
  using sample_idle by (simp add: app_inv_def sample_app_def divert.defs)


subsection \<open>What a client reads\<close>

lemma writes_members_obj:
  "kts \<noteq> [] \<Longrightarrow> list_all2 (\<lambda>(k, v) (k', t). k = k' \<and> seen k' = k' \<and> json_writes v t) kvs kts \<Longrightarrow>
   writes_members kvs (commas (map (\<lambda>(k, v). quoted k @ '':'' @ v) kts))"
proof (induction kts arbitrary: kvs)
  case (Cons kt kts)
  obtain k t where kt: "kt = (k, t)" by (cases kt)
  obtain v kvs' where kvs: "kvs = (k, v) # kvs'" "seen k = k" "json_writes v t"
     "list_all2 (\<lambda>(k, v) (k', t). k = k' \<and> seen k' = k' \<and> json_writes v t) kvs' kts"
    using Cons.prems(2) by (auto simp: kt list_all2_Cons2)
  show ?case
  proof (cases kts)
    case Nil
    then show ?thesis using kvs w_member [OF kvs(3), of k] by (simp add: kt)
  next
    case (Cons kt' kts')
    have "writes_members kvs' (commas (map (\<lambda>(k, v). quoted k @ '':'' @ v) kts))" by (rule Cons.IH [OF _ kvs(4)]) (simp add: Cons)
    from w_members [OF kvs(3) this, of k] show ?thesis using kvs(1,2) by (simp add: kt Cons split: prod.splits)
  qed
qed simp

lemma writes_obj:
  "list_all2 (\<lambda>(k, v) (k', t). k = k' \<and> seen k' = k' \<and> json_writes v t) kvs kts \<Longrightarrow> json_writes (JObject kvs) (json_obj kts)"
proof (cases "kts = []")
  case False
  assume a: "list_all2 (\<lambda>(k, v) (k', t). k = k' \<and> seen k' = k' \<and> json_writes v t) kvs kts"
  from w_object [OF writes_members_obj [OF False a]] show ?thesis by (simp add: json_obj_def)
qed (simp add: json_obj_def w_object_empty)

lemma writes_plain: "\<forall>c\<in>set t. 32 \<le> code c \<Longrightarrow> json_writes (JString t) (quoted t)"
  by (rule writes_string)

lemma writes_bool: "json_writes (JBool b) (bool_json b)"
  by (cases b) (simp_all add: bool_json_def w_true w_false)

definition long_value :: "u64 \<Rightarrow> json" where
  "long_value v = JNumber (Fin (of_int (sint v)))"

lemma writes_long: "\<bar>sint v\<bar> < 2 ^ 53 \<Longrightarrow> json_writes (long_value v) (numToStr v)"
  unfolding numToStr_def long_value_def by (rule w_number) (rule number_form_int)

lemma command_parsed:
  assumes "\<forall>c\<in>set cmd. 32 \<le> code c" shows "jsonParse (json_obj [(''cmd'', quoted cmd)]) = Some (JObject [(''cmd'', JString cmd)])"
proof -
  have "seen ''cmd'' = ''cmd''" by (simp add: seen_plain code_def)
  then have w: "json_writes (JObject [(''cmd'', JString cmd)]) (json_obj [(''cmd'', quoted cmd)])"
    using writes_plain [OF assms] by (intro writes_obj) simp
  from jsonParse_written [OF w ends_value_after(1)] show ?thesis by (simp add: MAX_DEPTH_def)
qed

text \<open>The counters as a JSON value.\<close>

definition stats_value :: "'k app \<Rightarrow> json" where
  "stats_value s = JObject
     [(''status'', JString ''ok''),
      (''modules'', JObject (map (\<lambda>(n, d, ps, en, get, aff). (n, JObject [(''enabled'', JBool en), (''affected'', long_value aff)])) (module_columns s))),
      (''captured'', long_value (statsCapturedTotal s)), (''sent'', long_value (statsSentTotal s))]"

lemma column_names: "(n, d, ps, en, get, aff) \<in> set (module_columns s) \<Longrightarrow> seen n = n \<and> (\<exists>m. (m, aff) \<in> set (affected_counts s))"
proof -
  assume "(n, d, ps, en, get, aff) \<in> set (module_columns s)"
  then obtain f where f: "(n, d, ps, f) \<in> set (module_infos :: (string \<times> string \<times> param_spec list \<times> 'a setter) list)"
    and a: "\<exists>m. (m, aff) \<in> set (affected_counts s)"
    by (auto simp: module_columns_def dest: set_zip_leftD set_zip_rightD)
  have "\<forall>(n, d, ps, f)\<in>set (module_infos :: (string \<times> string \<times> param_spec list \<times> 'a setter) list). seen n = n"
    by (simp add: module_infos_def seen_plain code_def)
  with f a show ?thesis by blast
qed

definition counts_small :: "'k app \<Rightarrow> bool" where
  "counts_small s \<longleftrightarrow> (\<forall>n \<in> {statsCapturedTotal s, statsSentTotal s} \<union> snd ` set (affected_counts s). \<bar>sint n\<bar> < 2 ^ 53)"

text \<open>C39: What a monitoring client reads: the answer to \<^verbatim>\<open>get_stats\<close> is a JSON text that reads back as exactly the counters of the
  state - packets captured and sent, and for every module, under its name, whether it is enabled and how many
  packets it affected - as long as they are below \<open>2^53\<close>; and asking changes nothing.\<close>

theorem stats_read_back:
  assumes "counts_small s"
  shows "\<exists>t. controlDispatchJson w (json_obj [(''cmd'', quoted ''get_stats'')]) s = Some (t, s) \<and> jsonParse t = Some (stats_value s)"
proof -
  let ?kts = "[status_ok, (''modules'', module_counts_json s), (''captured'', numToStr (statsCapturedTotal s)), (''sent'', numToStr (statsSentTotal s))]"
  have cmd: "jsonParse (json_obj [(''cmd'', quoted ''get_stats'')]) = Some (JObject [(''cmd'', JString ''get_stats'')])"
    by (rule command_parsed) (simp add: code_def)
  have run: "controlDispatchJson w (json_obj [(''cmd'', quoted ''get_stats'')]) s = Some (json_obj ?kts, s)"
    by (simp add: controlDispatchJson_def object_body_def cmd isObject_def json_find_def read_command_def)
  have keys: "seen ''status'' = ''status''" "seen ''modules'' = ''modules''" "seen ''captured'' = ''captured''" "seen ''sent'' = ''sent''"
    "seen ''enabled'' = ''enabled''" "seen ''affected'' = ''affected''" by (simp_all add: seen_plain code_def)
  have one: "json_writes (JObject [(''enabled'', JBool en), (''affected'', long_value aff)])
      (json_obj [(''enabled'', bool_json en), (''affected'', numToStr aff)])"
    if "(n, d, ps, en, get, aff) \<in> set (module_columns s)" for n d ps en get aff
  proof -
    have "\<bar>sint aff\<bar> < 2 ^ 53" using column_names [OF that] assms by (fastforce simp: counts_small_def)
    then show ?thesis using keys by (intro writes_obj) (simp add: writes_bool writes_long)
  qed
  have modules: "json_writes (JObject (map (\<lambda>(n, d, ps, en, get, aff). (n, JObject [(''enabled'', JBool en), (''affected'', long_value aff)]))
      (module_columns s))) (module_counts_json s)"
    unfolding module_counts_json_def using one column_names [where s = s]
    by (intro writes_obj) (auto simp: list.rel_map intro!: list.rel_refl_strong)
  have "json_writes (JString ''ok'') (quoted ''ok'')" by (rule writes_plain) (simp add: code_def)
  then have "json_writes (stats_value s) (json_obj ?kts)"
    unfolding stats_value_def using keys modules assms
    by (intro writes_obj) (simp add: status_ok_def writes_long counts_small_def)
  moreover have "json_height (stats_value s) \<le> MAX_DEPTH"
    by (auto simp: stats_value_def long_value_def MAX_DEPTH_def fold_max_le)
  ultimately have "jsonParse (json_obj ?kts) = Some (stats_value s)" using jsonParse_written [of "stats_value s" "json_obj ?kts" "[]"] by simp
  then show ?thesis using run by blast
qed

lemma stats_read_back_witness:
  "\<exists>t. controlDispatchJson sample_world (json_obj [(''cmd'', quoted ''get_stats'')]) sample_app = Some (t, sample_app) \<and>
     jsonParse t = Some (stats_value sample_app)"
  by (rule stats_read_back)
    (simp add: counts_small_def affected_counts_def sample_app_def idle_divert_def divert.defs mods.defs mods_init_def lag_init_def
      jitter_init_def drop_init_def burstloss_init_def blackout_init_def throttle_init_def dup_init_def ood_init_def tamper_init_def
      corrupt_init_def reset_init_def bandwidth_init_def module_defaults_def module_base.defs)


end
