(* ===== verification/Pipe.thy ===== *)
theory Pipe
  imports Control_Api
begin

text \<open>
  The control socket of \<^verbatim>\<open>src/src/pipe.cpp\<close> on Linux: where a request ends, reading it in chunks, its limits, the reply, and
  binding and removing the socket. What \<^verbatim>\<open>recv\<close>, \<^verbatim>\<open>send\<close> and \<^verbatim>\<open>bind\<close> answer is an argument. The accept loop
  serves one client after the other, so a client is one step.
\<close>

definition CONTROL_MAX_REQUEST :: nat where "CONTROL_MAX_REQUEST = 262144"
definition CONTROL_MAX_DRAIN :: nat where "CONTROL_MAX_DRAIN = 8 * 1024 * 1024"

definition TOO_LARGE_JSON :: string where
  "TOO_LARGE_JSON = errJson ''request exceeds the 262144 byte limit''"

subsection \<open>Where a request ends\<close>

text \<open>The loop of \<^verbatim>\<open>jsonLooksComplete\<close> with its variables.\<close>

fun looks :: "string \<Rightarrow> int \<Rightarrow> bool \<Rightarrow> bool \<Rightarrow> bool \<Rightarrow> bool" where
  "looks [] depth inStr esc sawStructure = False"
| "looks (c # r) depth inStr esc sawStructure =
     (if inStr then
        (if esc then looks r depth True False sawStructure
         else if c = CHR 0x5C then looks r depth True True sawStructure
         else looks r depth (c \<noteq> CHR 0x22) False sawStructure)
      else if c = CHR 0x22 then looks r depth True esc True
      else if c = CHR ''{'' \<or> c = CHR ''['' then looks r (depth + 1) False esc True
      else if c = CHR ''}'' \<or> c = CHR '']'' then
        (if depth - 1 \<le> 0 then sawStructure else looks r (depth - 1) False esc sawStructure)
      else looks r depth False esc sawStructure)"

definition jsonLooksComplete :: "string \<Rightarrow> bool" where
  "jsonLooksComplete t = looks t 0 False False False"

subsection \<open>One client\<close>

text \<open>The reading loop: the chunks still to come, the request so far, and whether it has become too large. An empty chunk, or
  no more of them, is a closed connection, an error or a timeout.\<close>

fun control_read :: "string list \<Rightarrow> string \<Rightarrow> nat \<Rightarrow> bool \<Rightarrow> bool \<times> string" where
  "control_read [] request drained tooLarge = (tooLarge, request)"
| "control_read (chunk # chunks) request drained tooLarge =
     (if chunk = [] then (tooLarge, request)
      else
        let drained = drained + length chunk in
        if \<not> tooLarge then
          (if CONTROL_MAX_REQUEST < length (request @ chunk) then control_read chunks [] drained True
           else if jsonLooksComplete (request @ chunk) then (False, request @ chunk)
           else control_read chunks (request @ chunk) drained False)
        else if CONTROL_MAX_DRAIN < drained then (True, request)
        else control_read chunks request drained True)"

definition control_response :: "'k world \<Rightarrow> bool \<times> string \<Rightarrow> 'k app \<Rightarrow> (string \<times> 'k app) option" where
  "control_response w r s =
     (case r of (tooLarge, request) \<Rightarrow>
        if tooLarge then Some (TOO_LARGE_JSON, s)
        else if request \<noteq> [] then controlDispatchJson w request s
        else Some ([], s))"

text \<open>What \<^verbatim>\<open>send\<close> did: a number of bytes, an interruption, or an error.\<close>

datatype send_answer = Sent nat | Interrupted | Broken

fun sendAllBytes :: "send_answer list \<Rightarrow> string \<Rightarrow> string \<Rightarrow> bool \<times> string" where
  "sendAllBytes [] left wire = (left = [], wire)"
| "sendAllBytes (a # as) left wire =
     (if left = [] then (True, wire)
      else (case a of Sent n \<Rightarrow> if n = 0 then (False, wire) else sendAllBytes as (drop n left) (wire @ take n left)
            | Interrupted \<Rightarrow> sendAllBytes as left wire
            | Broken \<Rightarrow> (False, wire)))"

text \<open>The client sees the bytes sent.\<close>

definition serve_client :: "'k world \<Rightarrow> string list \<Rightarrow> send_answer list \<Rightarrow> 'k app \<Rightarrow> (string \<times> 'k app) option" where
  "serve_client w chunks answers s =
     map_option (\<lambda>(t, s). (snd (sendAllBytes answers t []), s)) (control_response w (control_read chunks [] 0 False) s)"

subsection \<open>The socket\<close>

record pipe_server =
  listening :: bool
  socketPath :: string
  pipeThread :: bool

definition socket_candidates :: "string list" where
  "socket_candidates = [''/run/clumsy.sock'', ''/tmp/clumsy.sock'']"

text \<open>The loop of \<^verbatim>\<open>bindControlSocket\<close>: whether a socket can be created, and which paths can be bound.\<close>

fun bind_loop :: "(string \<Rightarrow> bool) \<Rightarrow> (string \<Rightarrow> bool) \<Rightarrow> string list \<Rightarrow> string option" where
  "bind_loop can_open can_bind [] = None"
| "bind_loop can_open can_bind (p # ps) =
     (if \<not> can_open p then None else if can_bind p then Some p else bind_loop can_open can_bind ps)"

definition bindControlSocket :: "(string \<Rightarrow> bool) \<Rightarrow> (string \<Rightarrow> bool) \<Rightarrow> string option" where
  "bindControlSocket can_open can_bind = bind_loop can_open can_bind socket_candidates"

text \<open>The flag \<^verbatim>\<open>pipeStopRequested\<close> that the start clears belongs to the application state.\<close>

definition pipeServerStart :: "(string \<Rightarrow> bool) \<Rightarrow> (string \<Rightarrow> bool) \<Rightarrow> bool \<Rightarrow> pipe_server \<Rightarrow> pipe_server" where
  "pipeServerStart can_open can_bind creates p =
     (case bindControlSocket can_open can_bind of None \<Rightarrow> p\<lparr>listening := False\<rparr>
      | Some sp \<Rightarrow>
         if creates then p\<lparr>listening := True, socketPath := sp, pipeThread := True\<rparr>
         else p\<lparr>listening := False, socketPath := [], pipeThread := False\<rparr>)"

definition pipeServerStop :: "pipe_server \<Rightarrow> pipe_server" where
  "pipeServerStop p = p\<lparr>pipeThread := False, listening := False, socketPath := []\<rparr>"

definition pipeServerPath :: "pipe_server \<Rightarrow> string" where
  "pipeServerPath p = socketPath p"

lemma pipe_server_stopped:
  "pipeServerPath (pipeServerStop (pipeServerStart can_open can_bind creates p)) = []"
  "\<not> listening (pipeServerStop p) \<and> \<not> pipeThread (pipeServerStop p)"
  by (simp_all add: pipeServerPath_def pipeServerStop_def)

subsection \<open>Balanced texts\<close>

text \<open>Texts whose brackets and strings match: the inside of every JSON object or array, with or without blanks.\<close>

inductive balanced :: "string \<Rightarrow> bool" where
  b_end: "balanced []"
| b_char: "c \<notin> {CHR 0x22, CHR ''{'', CHR ''}'', CHR ''['', CHR '']''} \<Longrightarrow> balanced r \<Longrightarrow> balanced (c # r)"
| b_string: "json_string t \<Longrightarrow> balanced r \<Longrightarrow> balanced (t @ r)"
| b_brackets: "balanced b \<Longrightarrow> balanced r \<Longrightarrow> a \<in> {CHR ''{'', CHR ''[''} \<Longrightarrow> z \<in> {CHR ''}'', CHR '']''} \<Longrightarrow> balanced (a # b @ z # r)"

lemma balanced_append: "balanced s \<Longrightarrow> balanced r \<Longrightarrow> balanced (s @ r)"
  by (induction rule: balanced.induct) (auto intro: balanced.intros)

lemma plain_balanced: "\<forall>c\<in>set s. c \<notin> {CHR 0x22, CHR ''{'', CHR ''}'', CHR ''['', CHR '']''} \<Longrightarrow> balanced s"
  by (induction s) (auto intro: balanced.intros)

lemma commas_balanced: "\<forall>t\<in>set ts. balanced t \<Longrightarrow> balanced (commas ts)"
  by (induction ts rule: commas.induct) (auto intro!: balanced_append b_char b_end)

lemma number_balanced: "json_number t \<Longrightarrow> balanced t"
proof (rule plain_balanced)
  assume n: "json_number t"
  have d: "c \<notin> {CHR 0x22, CHR ''{'', CHR ''}'', CHR ''['', CHR '']''}" if "is_digit c" for c
    using that by (auto simp: is_digit_def code_def)
  have digit: "\<forall>c\<in>set t. is_digit c \<or> c \<in> {CHR ''-'', CHR ''.'', CHR ''e'', CHR ''+''}"
  proof -
    obtain sign i f e where t: "t = sign @ i @ f @ e" "sign = [] \<or> sign = ''-''" "int_part i" "frac_part f" "exp_part e"
      using n by (auto simp: json_number_def)
    have z: "is_digit CHR ''0''" by (simp add: is_digit_def code_def)
    have "\<forall>c\<in>set i. is_digit c" using t(3) z by (auto simp: int_part_def digits_def)
    moreover have "\<forall>c\<in>set f. is_digit c \<or> c = CHR ''.''"
      using t(4) by (cases f) (auto simp: frac_part_def digits_def)
    moreover have "\<forall>c\<in>set e. is_digit c \<or> c \<in> {CHR ''-'', CHR ''e'', CHR ''+''}"
      using t(5) by (auto simp: exp_part_def digits_def)
    ultimately show ?thesis using t(1,2) by auto
  qed
  then show "\<forall>c\<in>set t. c \<notin> {CHR 0x22, CHR ''{'', CHR ''}'', CHR ''['', CHR '']''}" using d by fastforce
qed

lemma json_text_balanced: "json_text t \<Longrightarrow> balanced t"
proof (induction rule: json_text.induct)
  case (t_string t)
  then show ?case using b_string [OF _ b_end] by simp
next
  case (t_array ts)
  have "balanced (commas ts)" by (rule commas_balanced) (use t_array in blast)
  then show ?case using b_brackets [OF _ b_end, of "commas ts" "CHR ''[''" "CHR '']''"] by (simp add: json_arr_def)
next
  case (t_object kvs)
  have "balanced (quoted k @ '':'' @ v)" if "(k, v) \<in> set kvs" for k v
    using t_object that b_string [OF quoted_string b_end, of k] by (auto intro!: b_char balanced_append)
  then have "balanced (commas (map (\<lambda>(k, v). quoted k @ '':'' @ v) kvs))" by (intro commas_balanced) auto
  then show ?case using b_brackets [OF _ b_end, of _ "CHR ''{''" "CHR ''}''"] by (simp add: json_obj_def)
qed (simp_all add: number_balanced plain_balanced)

lemma looks_string: "string_chars r \<Longrightarrow> looks (r @ CHR 0x22 # q) d True False saw = looks q d False False saw"
proof (induction r rule: string_chars.induct)
  case (2 c r)
  show ?case
  proof (cases "c = CHR 0x5C")
    case False
    then show ?thesis using 2 by simp
  next
    case True
    then obtain e u where e: "r = e # u" using 2(4) by (cases r) auto
    show ?thesis
    proof (cases "e = CHR ''u''")
      case False
      then show ?thesis using 2 True by (simp add: e)
    next
      case True
      then obtain h1 h2 h3 h4 v where h: "u = h1 # h2 # h3 # h4 # v" "hex_digit h1" "hex_digit h2" "hex_digit h3" "hex_digit h4" "string_chars v"
        using 2(4) \<open>c = CHR 0x5C\<close> by (auto simp: e split: list.splits)
      have x: "h \<noteq> CHR 0x22 \<and> h \<noteq> CHR 0x5C" if "hex_digit h" for h
        using that by (auto simp: hex_digit_def hex_value_def is_digit_def code_def lower_char_def split: if_splits)
      have "looks (v @ CHR 0x22 # q) d True False saw = looks q d False False saw"
        using 2(1) [OF \<open>c = CHR 0x5C\<close> e True, unfolded h(1)] h(6) by simp
      then show ?thesis using x h(2-5) \<open>c = CHR 0x5C\<close> by (simp add: e h(1))
    qed
  qed
qed simp

text \<open>Inside brackets a balanced text is passed over.\<close>

lemma looks_balanced: "balanced b \<Longrightarrow> 1 \<le> d \<Longrightarrow> looks (b @ q) d False False True = looks q d False False True"
proof (induction arbitrary: d q rule: balanced.induct)
  case (b_string t r)
  obtain u where u: "t = CHR 0x22 # u @ [CHR 0x22]" "string_chars u" using b_string(1) by (auto simp: json_string_def)
  show ?case using looks_string [OF u(2)] b_string(3,4) by (simp add: u(1))
next
  case (b_brackets b r a z)
  have "looks (b @ z # r @ q) (d + 1) False False True = looks (z # r @ q) (d + 1) False False True"
    using b_brackets(5) [of "d + 1" "z # r @ q"] b_brackets(7) by simp
  then show ?case using b_brackets by auto
qed auto

text \<open>What is complete stays complete.\<close>

lemma looks_more: "looks p d i e saw \<Longrightarrow> looks (p @ q) d i e saw"
proof (induction p arbitrary: d i e saw)
  case (Cons c p)
  show ?case
  proof (cases i)
    case True
    then show ?thesis using Cons by (cases e; cases "c = CHR 0x5C") simp_all
  next
    case False
    consider "c = CHR 0x22" | "c = CHR ''{'' \<or> c = CHR ''[''" | "c = CHR ''}'' \<or> c = CHR '']''"
      | "c \<notin> {CHR 0x22, CHR ''{'', CHR ''['', CHR ''}'', CHR '']''}" by blast
    then show ?thesis using Cons False by cases (auto split: if_split_asm)
  qed
qed simp

text \<open>A request: blanks, and an object with a balanced inside.\<close>

definition request_text_of :: "string \<Rightarrow> string \<Rightarrow> string" where
  "request_text_of ws b = ws @ CHR ''{'' # b @ ''}''"

definition is_request :: "string \<Rightarrow> bool" where
  "is_request t \<longleftrightarrow> (\<exists>ws b. t = request_text_of ws b \<and> (\<forall>c\<in>set ws. json_blank c) \<and> balanced b)"

lemma looks_blanks: "\<forall>c\<in>set ws. json_blank c \<Longrightarrow> looks (ws @ q) d False False saw = looks q d False False saw"
  by (induction ws) (auto simp: json_blank_def)

lemma request_complete:
  assumes "is_request t" shows "jsonLooksComplete t" "\<And>p q. t = p @ q \<Longrightarrow> q \<noteq> [] \<Longrightarrow> \<not> jsonLooksComplete p"
proof -
  obtain ws b where t: "t = ws @ CHR ''{'' # b @ ''}''" "\<forall>c\<in>set ws. json_blank c" "balanced b"
    using assms by (auto simp: is_request_def request_text_of_def)
  show "jsonLooksComplete t" using looks_balanced [OF t(3), of 1] by (simp add: jsonLooksComplete_def t(1) looks_blanks [OF t(2)])
  fix p q :: string
  assume pq: "t = p @ q" "q \<noteq> []"
  define u where "u = ws @ CHR ''{'' # b"
  have "\<not> jsonLooksComplete u"
    using looks_balanced [OF t(3), of 1 "[]"] by (simp add: jsonLooksComplete_def u_def looks_blanks [OF t(2)])
  moreover have "u = p @ butlast q" using pq by (simp add: t(1) u_def) (metis append_Cons append_assoc butlast_append butlast_snoc)
  ultimately show "\<not> jsonLooksComplete p" using looks_more unfolding jsonLooksComplete_def by metis
qed

lemma json_obj_request: "\<forall>(k, v)\<in>set kvs. json_text v \<Longrightarrow> is_request (json_obj kvs)"
proof -
  assume kvs: "\<forall>(k, v)\<in>set kvs. json_text v"
  have "balanced (quoted k @ '':'' @ v)" if "(k, v) \<in> set kvs" for k v
    using kvs that b_string [OF quoted_string b_end, of k] json_text_balanced by (auto intro!: b_char balanced_append)
  then have "balanced (commas (map (\<lambda>(k, v). quoted k @ '':'' @ v) kvs))" by (intro commas_balanced) auto
  then show ?thesis unfolding is_request_def request_text_of_def json_obj_def
    by (intro exI [of _ "[]"] exI [of _ "commas (map (\<lambda>(k, v). quoted k @ '':'' @ v) kvs)"]) simp
qed

subsection \<open>Reading and answering\<close>

lemma read_refused: "control_read chunks [] drained True = (True, [])"
  by (induction chunks arbitrary: drained) (simp_all add: Let_def)

lemma read_request:
  assumes t: "is_request t"
  shows "t = request @ concat chunks \<Longrightarrow> concat chunks \<noteq> [] \<Longrightarrow> [] \<notin> set chunks \<Longrightarrow> length t \<le> CONTROL_MAX_REQUEST \<Longrightarrow>
    control_read (chunks @ later) request drained False = (False, t)"
proof (induction chunks arbitrary: request drained)
  case (Cons c chunks)
  have c: "c \<noteq> []" using Cons.prems(3) by auto
  have len: "\<not> CONTROL_MAX_REQUEST < length (request @ c)" using Cons.prems(1,4) by simp
  show ?case
  proof (cases "concat chunks = []")
    case True
    then have "request @ c = t" using Cons.prems(1) by simp
    then show ?thesis using c len request_complete(1) [OF t] by (simp add: Let_def)
  next
    case False
    then have "\<not> jsonLooksComplete (request @ c)" using Cons.prems(1) by (intro request_complete(2) [OF t, of _ "concat chunks"]) simp_all
    then show ?thesis using Cons.prems c len Cons.IH [of "request @ c" "drained + length c"] False by (simp add: Let_def)
  qed
qed simp

lemma read_too_large:
  assumes t: "is_request t" "CONTROL_MAX_REQUEST < length t"
  shows "t = request @ concat chunks \<Longrightarrow> length request \<le> CONTROL_MAX_REQUEST \<Longrightarrow> [] \<notin> set chunks \<Longrightarrow>
    control_read chunks request drained False = (True, [])"
proof (induction chunks arbitrary: request drained)
  case Nil
  then show ?case using t(2) by simp
next
  case (Cons c chunks)
  have c: "c \<noteq> []" using Cons.prems(3) by auto
  show ?case
  proof (cases "CONTROL_MAX_REQUEST < length (request @ c)")
    case True
    then show ?thesis using c by (simp add: Let_def read_refused)
  next
    case False
    moreover have "length t = length request + length c + length (concat chunks)" using Cons.prems(1) by simp
    ultimately have "0 < length (concat chunks)" using t(2) by (simp only: length_append)
    then have "concat chunks \<noteq> []" by (metis length_greater_0_conv)
    then have "\<not> jsonLooksComplete (request @ c)" using Cons.prems(1) by (intro request_complete(2) [OF t(1), of _ "concat chunks"]) simp_all
    then show ?thesis using Cons.prems c False Cons.IH [of "request @ c" "drained + length c"] by (simp add: Let_def)
  qed
qed

lemma sent_prefix:
  "\<exists>n. snd (sendAllBytes acts left wire) = wire @ take n left \<and> (fst (sendAllBytes acts left wire) \<longrightarrow> take n left = left)"
proof (induction acts left wire rule: sendAllBytes.induct)
  case (1 left wire)
  then show ?case by (auto intro: exI [of _ 0])
next
  case (2 a as left wire)
  show ?case
  proof (cases "left = []")
    case False
    show ?thesis
    proof (cases a)
      case (Sent n)
      show ?thesis
      proof (cases "n = 0")
        case False
        obtain k where k: "snd (sendAllBytes as (drop n left) (wire @ take n left)) = (wire @ take n left) @ take k (drop n left)"
          "fst (sendAllBytes as (drop n left) (wire @ take n left)) \<longrightarrow> take k (drop n left) = drop n left"
          using 2(1) [OF \<open>left \<noteq> []\<close> Sent False] by blast
        have "take n left @ take k (drop n left) = take (n + k) left" by (simp add: take_add)
        then show ?thesis using k \<open>left \<noteq> []\<close> Sent False by (intro exI [of _ "n + k"]) auto
      qed (use Sent \<open>left \<noteq> []\<close> in \<open>auto intro: exI [of _ 0]\<close>)
    qed (use 2(2) False in \<open>auto intro: exI [of _ 0]\<close>)
  qed auto
qed

text \<open>C40: A request over the control socket - blanks and a JSON object, in any pieces - is taken to be complete exactly at its
  closing brace: the server neither answers early nor waits for more, whatever the client sends later. It is
  dispatched as it was sent when it has at most 262144 bytes, and what reaches the client is a beginning of the
  reply, all of it when sending succeeds; a longer request is refused with an error object and changes nothing.\<close>

theorem control_request_served:
  assumes t: "is_request t" and chunks: "concat chunks = t" "[] \<notin> set chunks"
  shows "(length t \<le> CONTROL_MAX_REQUEST \<longrightarrow> controlDispatchJson w t s = Some (reply, s') \<longrightarrow>
      (\<exists>n. serve_client w (chunks @ later) acts s = Some (take n reply, s') \<and>
         (fst (sendAllBytes acts reply []) \<longrightarrow> take n reply = reply))) \<and>
    (CONTROL_MAX_REQUEST < length t \<longrightarrow> control_response w (control_read chunks [] 0 False) s = Some (TOO_LARGE_JSON, s) \<and>
      status_reply TOO_LARGE_JSON)"
proof (intro conjI impI)
  have ne: "t \<noteq> []" using t by (auto simp: is_request_def request_text_of_def)
  assume len: "length t \<le> CONTROL_MAX_REQUEST" and d: "controlDispatchJson w t s = Some (reply, s')"
  have "control_read (chunks @ later) [] 0 False = (False, t)"
    by (rule read_request [OF t]) (use chunks ne len in simp_all)
  then have "serve_client w (chunks @ later) acts s = Some (snd (sendAllBytes acts reply []), s')"
    using ne d by (simp add: serve_client_def control_response_def)
  then show "\<exists>n. serve_client w (chunks @ later) acts s = Some (take n reply, s') \<and> (fst (sendAllBytes acts reply []) \<longrightarrow> take n reply = reply)"
    using sent_prefix [of acts reply "[]"] by auto
next
  assume len: "CONTROL_MAX_REQUEST < length t"
  have "control_read chunks [] 0 False = (True, [])"
    by (rule read_too_large [OF t len]) (use chunks in simp_all)
  then show "control_response w (control_read chunks [] 0 False) s = Some (TOO_LARGE_JSON, s)"
    by (simp add: control_response_def)
  show "status_reply TOO_LARGE_JSON" by (simp add: TOO_LARGE_JSON_def)
qed

lemma control_request_served_witness:
  "\<exists>n. serve_client sample_world [''{'', quoted ''cmd'' @ '':'' @ quoted ''stop'' @ ''}'', ''later''] [Interrupted, Sent 1000] sample_app =
     Some (take n (json_obj [status_ok, (''message'', quoted ''stopping'')]), sample_app\<lparr>pipeStopRequested := True\<rparr>)"
proof -
  let ?t = "json_obj [(''cmd'', quoted ''stop'')]"
  have cmd: "jsonParse ?t = Some (JObject [(''cmd'', JString ''stop'')])" by (rule command_parsed) (simp add: code_def)
  have d: "controlDispatchJson sample_world ?t sample_app =
      Some (json_obj [status_ok, (''message'', quoted ''stopping'')], sample_app\<lparr>pipeStopRequested := True\<rparr>)"
    by (simp add: controlDispatchJson_def object_body_def cmd isObject_def json_find_def read_command_def write_command_def)
  have r: "is_request ?t" by (rule json_obj_request) simp
  have c: "concat [''{'', quoted ''cmd'' @ '':'' @ quoted ''stop'' @ ''}''] = ?t" by (simp add: json_obj_def)
  have l: "length ?t \<le> CONTROL_MAX_REQUEST" by (simp add: json_obj_def quoted_def jsonEscape_def escape_char_def code_def CONTROL_MAX_REQUEST_def)
  show ?thesis using control_request_served [OF r c, of sample_world sample_app] d l by fastforce
qed

end
