(* ===== verification/Spec2Isabelle.thy ===== *)
theory Spec2Isabelle
  imports Node_List Capture Json Profile Scenario Pcap Pipe
begin

text \<open>
  \<^bold>\<open>clumsy\<close>: a verification development for the network degradation tool under \<^verbatim>\<open>src/src\<close>.

  \<^bold>\<open>The program.\<close> A capture backend takes packets off the wire (on Linux: NFQUEUE, fed by iptables
  rules that are derived from a filter expression). A read thread appends each captured packet to a
  doubly linked list; a clock thread runs the pipeline of twelve modules over that list every step
  and hands back what is left. A module may drop, hold, reorder, clone or change packets. Every queue
  id must get exactly one verdict, or the kernel queue fills and stalls. Parameters are written while
  a capture runs: by the command line, profiles, scenarios and the control API, all through text keys
  and values.

  \<^bold>\<open>The theories, bottom up.\<close>

  \<^item> \<open>Clumsy_Prelude\<close>: word widths, the loop shapes several modules write out (a scan that restarts at
    the tail after each hit, equal to one pass), clamping, fuel comparison.
  \<^item> \<open>Node_List\<close>: \<^verbatim>\<open>packet.cpp\<close>'s intrusive list on a store of prev/next pointers; insertion, removal and
    the drain loop implement the list operations used by every other theory (\<open>drain_moves_buffer\<close>).
  \<^item> \<open>Text\<close>: the C library's decimal scanning and printing, \<^verbatim>\<open>atof\<close> with the rounding of doubles.
  \<^item> \<open>Latency\<close>: \<^verbatim>\<open>latency.cpp\<close>, the delay histogram, refined by the multiset of recorded delays.
  \<^item> \<open>Packet\<close>: packets, the process-wide environment (ticks, random numbers, verdicts), \<^verbatim>\<open>createNode\<close>,
    \<^verbatim>\<open>cloneNode\<close>, \<^verbatim>\<open>freeNode\<close>. Its ledger is the multiset of verdicts given plus ids owed.
  \<^item> \<open>Module_Base\<close>: the \<^verbatim>\<open>Module\<close> interface as a locale: what start, process and close promise about the
    ledger and the buffer. Each of the twelve module theories (\<open>Lag\<close>, \<open>Drop\<close>, \<open>Burstloss\<close>, \<open>Blackout\<close>,
    \<open>Duplicate\<close>, \<open>Tamper\<close>, \<open>Corrupt\<close>, \<open>Reset\<close>, \<open>Throttle\<close>, \<open>Ood\<close>, \<open>Jitter\<close>, \<open>Bandwidth\<close>) translates the
    file of that name, interprets the locale and proves what the module is for.
  \<^item> \<open>Packet_Util\<close>: \<^verbatim>\<open>packetutil_linux.cpp\<close>, header parsing and checksums.
  \<^item> \<open>Params\<close>: every \<^verbatim>\<open>setParam\<close>/\<^verbatim>\<open>getParams\<close> pair, with ranges and the print/read round trip.
  \<^item> \<open>Module_Table\<close>: the table \<^verbatim>\<open>modules\<close> as one record, the pass that runs or closes all modules, and
    \<^verbatim>\<open>applyModuleKV\<close>. Its locale \<open>table_slot\<close> says what a row of the table is and is interpreted twelve times.
  \<^item> \<open>Filter_Parse\<close>, \<open>Filter_Tree\<close>, \<open>Filter_Eval\<close>, \<open>Filter_Rules\<close>: \<^verbatim>\<open>filterexpr.cpp\<close>; the parser on tokens,
    the trees it accepts with a printer, evaluation, and the derivation of iptables rules.
  \<^item> \<open>Iptables\<close>: \<^verbatim>\<open>iptables_linux.cpp\<close>; the external program is a parameter with a documented contract.
  \<^item> \<open>Divert\<close>, \<open>Capture\<close>: \<^verbatim>\<open>divert_linux.cpp\<close>; the callback, the clock step, sending, injection, start and
    stop as functions, then the running capture as a step relation with its invariant.
  \<^item> \<open>Number_Text\<close>: doubles, \<^verbatim>\<open>strtod\<close> and \<^verbatim>\<open>%g\<close>. \<open>Json\<close>: \<^verbatim>\<open>json.cpp\<close>, reader and escaping.
  \<^item> \<open>Flat_Text\<close>: the flat object scanner that \<^verbatim>\<open>profile.cpp\<close> and \<^verbatim>\<open>scenario.cpp\<close> both contain.
  \<^item> \<open>Module_Route\<close>: which module a key reaches; its locale \<open>routed_slot\<close> extends \<open>table_slot\<close> and shows that
    the pairs a module prints restore its row. \<open>Profile\<close>: \<^verbatim>\<open>profile.cpp\<close> on top of it, with the file.
  \<^item> \<open>Scenario\<close>: \<^verbatim>\<open>scenario.cpp\<close>; loading, the tick, and runs of ticks over an arbitrary capture.

  \<^item> \<open>Http\<close>: \<^verbatim>\<open>httpserver.cpp\<close> from the bytes of a connection to the handler that is called, or the answer.
  \<^item> \<open>Pcap\<close>: \<^verbatim>\<open>pcapexport.cpp\<close>, \<^verbatim>\<open>pcapreplay.cpp\<close> and the replay sockets; an export session leaves a file of
    whole records whatever the disk does, and replay reads exactly those.
  \<^item> \<open>Search\<close>: \<^verbatim>\<open>strchr\<close>, \<^verbatim>\<open>strstr\<close> and C strings. \<open>Args\<close>: the argument table of \<^verbatim>\<open>utils.cpp\<close>. \<open>Presets\<close>: the filter
    presets of \<^verbatim>\<open>main.cpp\<close> with both file formats. \<open>Module_Specs\<close>: names and announced parameters of the
    modules, and the arguments that set them.
  \<^item> \<open>App\<close>: the application state of \<^verbatim>\<open>main.cpp\<close>: \<^verbatim>\<open>appStartCapture\<close>, \<^verbatim>\<open>appStopCapture\<close>, start-up, the tick loop and the
    cleanup. \<open>app_inv\<close> is what holds between and during captures; a session from start to stop answers every packet.
  \<^item> \<open>Json_Grammar\<close>: the grammar of JSON texts as a specification, and that escaping and number printing keep to it.
    \<open>Control_Api\<close>: \<^verbatim>\<open>controlapi.cpp\<close>, every request with its reply and effect; \<open>account\<close> says what a request may do to
    a capture. \<open>Pipe\<close>: the Linux half of \<^verbatim>\<open>pipe.cpp\<close>, from the pieces of a request to the bytes of the reply.
  \<^bold>\<open>What the groups of lemmas show.\<close> Each module keeps the ledger (\<open>..._contract\<close> lemmas) and does its
  job exactly; the table lifts both to the whole pipeline; \<open>capture_inv\<close> lifts the ledger to every
  reachable state, which gives one verdict per packet, the bound on held packets, and an orderly
  stop, together with the two orders of events in which a stop is not orderly. The filter theories
  show that a filter means what its text says and that the derived rules never miss a packet, under
  two conditions that the code needs and does not check.

  \<^bold>\<open>Fuel.\<close> The parsers recurse on fuel: the filter parser gets \<open>parse_fuel\<close> (four steps per character and
  a few more), and \<open>parse_expr_cases\<close> shows that it always suffices; evaluation and rule collection get the
  number of nodes, which suffices because children precede their parents. the JSON reader gets \<open>json_fuel\<close> (\<open>json_fuel_enough\<close>). All other loops end by
  structure or by a measure.

  \<^bold>\<open>Idealisations.\<close> A critical section under the mutex is one step; parameter writes from other threads
  fall between steps. Bandwidth tokens and jitter delays are exact rationals or reals, not doubles.
  Undefined behaviour of C++ and dereferencing NULL is \<open>None\<close>. Random numbers, ticks, memory running
  out and the answers of the operating system are arbitrary sequences, so theorems hold for all of them.

  \<^bold>\<open>Not modelled.\<close> The Windows backend (\<^verbatim>\<open>divert.cpp\<close>, \<^verbatim>\<open>packetutil_win.cpp\<close>), which mirrors the Linux one
  over the WinDivert driver; threads and timers of \<^verbatim>\<open>platform_linux.cpp\<close>; sockets; the console front end
  of \<^verbatim>\<open>main.cpp\<close>; process lookup, plugins and elevation, which are calls into the operating system. In
  the Linux backend the pcap taps are left out (they do not touch the packets), and
  so are the waiting times and the mutex hand-over.
\<close>

end
